(* ===== verification/Prelude.thy ===== *)
theory Prelude
  imports Main "HOL-Library.Sublist"
begin

text \<open>
  Shared vocabulary of the development: the string and array operations of the JavaScript standard
  library that the modelled TypeScript uses, over lists of any element type, with the lemmas the
  component theories share. A TypeScript string is a list of characters or of UTF-16 code units, an
  array is a list; an index that the source keeps in a loop variable is either a natural number or
  the remaining suffix of the list.
\<close>

named_theorems js_simps \<open>characterisations of the JavaScript library operations\<close>

section \<open>Error results\<close>

text \<open>A fallible operation returns a sum: the left summand is what the source throws.\<close>

definition sum_bind :: "'e + 'a \<Rightarrow> ('a \<Rightarrow> 'e + 'b) \<Rightarrow> 'e + 'b" where
  "sum_bind r f = (case r of Inl e \<Rightarrow> Inl e | Inr a \<Rightarrow> f a)"

lemma sum_bind_simps [simp]:
  "sum_bind (Inl e) f = Inl e"
  "sum_bind (Inr a) f = f a"
  by (simp_all add: sum_bind_def)

lemma sum_bind_eq_Inr: "sum_bind r f = Inr b \<longleftrightarrow> (\<exists>a. r = Inr a \<and> f a = Inr b)"
  by (cases r) simp_all

lemma sum_bind_eq_Inl:
  "sum_bind r f = Inl e \<longleftrightarrow> r = Inl e \<or> (\<exists>a. r = Inr a \<and> f a = Inl e)"
  by (cases r) simp_all

section \<open>Strings and arrays\<close>

text \<open>\<open>s.slice(i, j)\<close> for non-negative indices: out-of-range indices are clamped.\<close>

definition slice :: "'a list \<Rightarrow> nat \<Rightarrow> nat \<Rightarrow> 'a list" where
  "slice s i j = take (j - i) (drop i s)"

text \<open>\<open>s.startsWith(p)\<close> and \<open>s.endsWith(p)\<close>, with the receiver first.\<close>

fun starts_with :: "'a list \<Rightarrow> 'a list \<Rightarrow> bool" where
  "starts_with s [] = True"
| "starts_with [] (p # ps) = False"
| "starts_with (c # s) (p # ps) = (c = p \<and> starts_with s ps)"

definition ends_with :: "'a list \<Rightarrow> 'a list \<Rightarrow> bool" where
  "ends_with s p = starts_with (rev s) (rev p)"

text \<open>\<open>s.indexOf(c)\<close> for one character: \<open>None\<close> is the source's -1.\<close>

fun index_of_char :: "'a \<Rightarrow> 'a list \<Rightarrow> nat option" where
  "index_of_char c [] = None"
| "index_of_char c (x # xs) = (if x = c then Some 0 else map_option Suc (index_of_char c xs))"

text \<open>\<open>s.indexOf(needle)\<close>: the first position at which the needle occurs.\<close>

fun index_of :: "'a list \<Rightarrow> 'a list \<Rightarrow> nat option" where
  "index_of s needle =
     (if starts_with s needle then Some 0
      else (case s of [] \<Rightarrow> None | _ # rest \<Rightarrow> map_option Suc (index_of rest needle)))"

declare index_of.simps [simp del]

text \<open>\<open>s.indexOf(needle, from)\<close>.\<close>

definition index_of_from :: "'a list \<Rightarrow> 'a list \<Rightarrow> nat \<Rightarrow> nat option" where
  "index_of_from s needle i = map_option (\<lambda>k. i + k) (index_of (drop i s) needle)"

text \<open>\<open>s.lastIndexOf(c)\<close> for one character.\<close>

fun last_index_of_char :: "'a \<Rightarrow> 'a list \<Rightarrow> nat option" where
  "last_index_of_char c [] = None"
| "last_index_of_char c (x # xs) =
     (case last_index_of_char c xs of
        Some k \<Rightarrow> Some (Suc k)
      | None \<Rightarrow> if x = c then Some 0 else None)"

text \<open>\<open>s.split(c)\<close> for one separator character: never empty, one field more than separators.\<close>

fun split_on :: "'a \<Rightarrow> 'a list \<Rightarrow> 'a list list" where
  "split_on c [] = [[]]"
| "split_on c (x # xs) =
     (case split_on c xs of
        [] \<Rightarrow> [[]]
      | f # fs \<Rightarrow> if x = c then [] # f # fs else (x # f) # fs)"

text \<open>\<open>fields.join(sep)\<close>.\<close>

fun join :: "'a list \<Rightarrow> 'a list list \<Rightarrow> 'a list" where
  "join sep [] = []"
| "join sep [x] = x"
| "join sep (x # y # ys) = x @ sep @ join sep (y # ys)"

text \<open>\<open>xs[i]\<close>: \<open>None\<close> is the source's \<open>undefined\<close>.\<close>

definition at :: "'a list \<Rightarrow> nat \<Rightarrow> 'a option" where
  "at xs i = (if i < length xs then Some (xs ! i) else None)"

text \<open>\<open>s.trim()\<close>, on the Latin-1 white space.\<close>

definition js_space :: "char \<Rightarrow> bool" where
  "js_space c = ((of_char c :: nat) \<in> {9, 10, 11, 12, 13, 32, 160})"

definition trim :: "string \<Rightarrow> string" where
  "trim s = rev (dropWhile js_space (rev (dropWhile js_space s)))"

section \<open>Lemmas\<close>

lemma starts_with_iff [js_simps]: "starts_with s p \<longleftrightarrow> (\<exists>r. s = p @ r)"
  by (induction s p rule: starts_with.induct) auto

lemma starts_with_append [simp]: "starts_with (p @ s) p"
  by (auto simp: starts_with_iff)

lemma starts_with_prefix: "starts_with s p \<longleftrightarrow> prefix p s"
  by (simp add: starts_with_iff prefix_def)

lemma starts_with_singleton: "starts_with s [c] \<longleftrightarrow> (\<exists>r. s = c # r)"
  by (simp add: starts_with_iff)

lemma ends_with_iff [js_simps]: "ends_with s p \<longleftrightarrow> (\<exists>r. s = r @ p)"
  by (auto simp: ends_with_def starts_with_iff) (metis rev_append rev_rev_ident)

lemma length_slice [simp]: "length (slice s i j) = min (j - i) (length s - i)"
  by (simp add: slice_def)

lemma slice_append_split: "i \<le> j \<Longrightarrow> take i s @ slice s i j @ drop j s = s"
  by (simp add: slice_def) (metis append_take_drop_id drop_drop le_add_diff_inverse2)

lemma index_of_char_None [js_simps]: "index_of_char c s = None \<longleftrightarrow> c \<notin> set s"
  by (induction s) auto

lemma index_of_char_Some:
  "index_of_char c s = Some n \<longleftrightarrow> n < length s \<and> s ! n = c \<and> c \<notin> set (take n s)"
proof (induction s arbitrary: n)
  case Nil
  then show ?case by simp
next
  case (Cons x xs)
  then show ?case by (cases n) auto
qed

lemma index_of_char_append [simp]:
  "c \<notin> set s \<Longrightarrow> index_of_char c (s @ c # r) = Some (length s)"
  by (induction s) auto

lemma index_of_char_split:
  "index_of_char c s = Some n \<Longrightarrow> s = take n s @ c # drop (Suc n) s"
  by (auto simp: index_of_char_Some id_take_nth_drop)

lemma split_on_nonempty [simp]: "split_on c s \<noteq> []"
  by (induction s) (auto split: list.splits)

lemma join_split_on: "join [c] (split_on c s) = s"
proof (induction s)
  case Nil
  then show ?case by simp
next
  case (Cons x xs)
  then show ?case
    by (cases "split_on c xs"; cases "tl (split_on c xs)") auto
qed

lemma split_on_no_sep: "f \<in> set (split_on c s) \<Longrightarrow> c \<notin> set f"
  by (induction s arbitrary: f) (auto split: list.splits if_splits)

lemma split_on_plain: "c \<notin> set s \<Longrightarrow> split_on c s = [s]"
  by (induction s) auto

lemma split_on_append_sep:
  "c \<notin> set f \<Longrightarrow> split_on c (f @ c # s) = f # split_on c s"
  by (induction f) (auto split: list.splits)

lemma split_on_join:
  "fs \<noteq> [] \<Longrightarrow> \<forall>f \<in> set fs. c \<notin> set f \<Longrightarrow> split_on c (join [c] fs) = fs"
proof (induction "[c]" fs rule: join.induct)
  case (3 x y ys)
  then show ?case by (simp add: split_on_append_sep)
qed (simp_all add: split_on_plain)

lemma at_Some: "at xs i = Some x \<longleftrightarrow> i < length xs \<and> xs ! i = x"
  by (simp add: at_def)

lemma at_None [simp]: "at xs i = None \<longleftrightarrow> length xs \<le> i"
  by (simp add: at_def not_less)

end
