(* ===== verification/BashTokenize.thy ===== *)
theory BashTokenize
  imports Prelude
begin

text \<open>
  The lexical layer of the shell-command classifier
  (\<open>packages/runtime/src/bash/classifier/tokenize.ts\<close>, \<open>lookup-key.ts\<close>, \<open>compound.ts\<close> up to
  \<open>containsUnquotedGlob\<close>): the tokenizer that splits a script into words and control operators, the
  two textual guards that run before it, and the normalisation of an executable's name. A script is
  a list of 8-bit characters; every character the code compares with is ASCII.
\<close>

section \<open>Lexemes\<close>

datatype operator = AndAnd | OrOr | Semi | Pipe

datatype lexeme = Word string | Op operator

section \<open>The tokenizer\<close>

text \<open>\<open>flush\<close>: push the current word, when one has been started.\<close>

definition flush :: "lexeme list \<Rightarrow> string \<Rightarrow> bool \<Rightarrow> lexeme list" where
  "flush lexemes current hasCurrent = (if hasCurrent then lexemes @ [Word current] else lexemes)"

text \<open>The last lexeme exists and is a word: a newline then acts as \<open>;\<close>.\<close>

definition ends_in_word :: "lexeme list \<Rightarrow> bool" where
  "ends_in_word lexemes = (lexemes \<noteq> [] \<and> (case last lexemes of Word _ \<Rightarrow> True | Op _ \<Rightarrow> False))"

text \<open>
  The \<open>while\<close> loop of \<open>tokenizeScript\<close>; the third argument and the fourth are \<open>current\<close> and
  \<open>hasCurrent\<close>, and the first is the part of the script from \<open>index\<close> on. \<open>None\<close> is \<open>null\<close>.
\<close>

function tokenize_loop :: "string \<Rightarrow> lexeme list \<Rightarrow> string \<Rightarrow> bool \<Rightarrow> lexeme list option" where
  "tokenize_loop [] lexemes current hasCurrent = Some (flush lexemes current hasCurrent)"
| "tokenize_loop (ch # rest) lexemes current hasCurrent =
     (if ch = CHR 0x27 \<or> ch = CHR 0x22 then
        (case index_of_char ch rest of
           None \<Rightarrow> None
         | Some e \<Rightarrow> tokenize_loop (drop (Suc e) rest) lexemes (current @ take e rest) True)
      else if ch = CHR '' '' \<or> ch = CHR 0x09 then
        tokenize_loop rest (flush lexemes current hasCurrent) [] False
      else if ch = CHR 0x0A \<or> ch = CHR 0x0D then
        (let flushed = flush lexemes current hasCurrent in
         tokenize_loop rest (if ends_in_word flushed then flushed @ [Op Semi] else flushed) [] False)
      else if ch = CHR ''&'' then
        (case rest of
           c # rest' \<Rightarrow>
             if c = CHR ''&''
             then tokenize_loop rest' (flush lexemes current hasCurrent @ [Op AndAnd]) [] False
             else None
         | [] \<Rightarrow> None)
      else if ch = CHR ''|'' then
        (case rest of
           c # rest' \<Rightarrow>
             if c = CHR ''|''
             then tokenize_loop rest' (flush lexemes current hasCurrent @ [Op OrOr]) [] False
             else tokenize_loop rest (flush lexemes current hasCurrent @ [Op Pipe]) [] False
         | [] \<Rightarrow> tokenize_loop rest (flush lexemes current hasCurrent @ [Op Pipe]) [] False)
      else if ch = CHR '';'' then
        tokenize_loop rest (flush lexemes current hasCurrent @ [Op Semi]) [] False
      else tokenize_loop rest lexemes (current @ [ch]) True)"
  by pat_completeness auto
termination
  by (relation "measure (\<lambda>(s, _). length s)") auto

definition tokenizeScript :: "string \<Rightarrow> lexeme list option" where
  "tokenizeScript script = tokenize_loop script [] [] False"

section \<open>The textual guards\<close>

definition DANGEROUS_METACHARS :: "char list" where
  "DANGEROUS_METACHARS =
     [CHR ''$'', CHR 0x60, CHR ''>'', CHR ''<'', CHR ''('', CHR '')'', CHR ''{'', CHR ''}'', CHR 0x5C]"

text \<open>\<open>script.replace(/&&/g, "")\<close>: matches are found from the left and do not overlap.\<close>

fun remove_and_and :: "string \<Rightarrow> string" where
  "remove_and_and (a # b # s) =
     (if a = CHR ''&'' \<and> b = CHR ''&'' then remove_and_and s else a # remove_and_and (b # s))"
| "remove_and_and s = s"

definition containsDangerousMetachar :: "string \<Rightarrow> bool" where
  "containsDangerousMetachar script =
     (list_ex (\<lambda>ch. ch \<in> set script) DANGEROUS_METACHARS
      \<or> CHR ''&'' \<in> set (remove_and_and script))"

text \<open>The loop of \<open>containsUnquotedGlob\<close>; the second argument is \<open>quote\<close>.\<close>

fun unquoted_glob_loop :: "string \<Rightarrow> char option \<Rightarrow> bool" where
  "unquoted_glob_loop [] quote = False"
| "unquoted_glob_loop (ch # rest) (Some q) =
     unquoted_glob_loop rest (if ch = q then None else Some q)"
| "unquoted_glob_loop (ch # rest) None =
     (if ch = CHR 0x27 \<or> ch = CHR 0x22 then unquoted_glob_loop rest (Some ch)
      else if ch = CHR ''*'' \<or> ch = CHR ''?'' \<or> ch = CHR ''['' then True
      else unquoted_glob_loop rest None)"

definition containsUnquotedGlob :: "string \<Rightarrow> bool" where
  "containsUnquotedGlob script = unquoted_glob_loop script None"

section \<open>The executable's lookup key\<close>

datatype platform =
  Aix | Android | Darwin | Freebsd | Haiku | Linux | Openbsd | Sunos | Win32 | Cygwin | Netbsd

definition WINDOWS_EXECUTABLE_SUFFIXES :: "string list" where
  "WINDOWS_EXECUTABLE_SUFFIXES = [''.exe'', ''.cmd'', ''.bat'', ''.com'']"

text \<open>\<open>toLowerCase\<close> on the ASCII letters; the other characters are kept.\<close>

definition lower_char :: "char \<Rightarrow> char" where
  "lower_char c =
     (if 65 \<le> (of_char c :: nat) \<and> (of_char c :: nat) \<le> 90 then char_of ((of_char c :: nat) + 32) else c)"

definition to_lower :: "string \<Rightarrow> string" where
  "to_lower s = map lower_char s"

definition basename :: "string \<Rightarrow> string" where
  "basename path =
     (let normalized = map (\<lambda>c. if c = CHR 0x5C then CHR ''/'' else c) path;
          trimmed = (if ends_with normalized ''/'' then butlast normalized else normalized)
      in case last_index_of_char (CHR ''/'') trimmed of
           None \<Rightarrow> trimmed
         | Some lastSlash \<Rightarrow> drop (Suc lastSlash) trimmed)"

fun strip_windows_suffix :: "string \<Rightarrow> string list \<Rightarrow> string" where
  "strip_windows_suffix lowered [] = lowered"
| "strip_windows_suffix lowered (suf # sufs) =
     (if ends_with lowered suf then take (length lowered - length suf) lowered
      else strip_windows_suffix lowered sufs)"

definition executableLookupKey :: "string \<Rightarrow> platform \<Rightarrow> string" where
  "executableLookupKey argv0 platform =
     (let name = basename argv0 in
      if platform \<noteq> Win32 then name
      else strip_windows_suffix (to_lower name) WINDOWS_EXECUTABLE_SUFFIXES)"

section \<open>Lemmas on the guards\<close>

lemma metachar_free:
  "\<not> containsDangerousMetachar script \<Longrightarrow> c \<in> set DANGEROUS_METACHARS \<Longrightarrow> c \<notin> set script"
  by (auto simp: containsDangerousMetachar_def list_ex_iff)

lemma last_index_of_char_None [js_simps]: "last_index_of_char c s = None \<longleftrightarrow> c \<notin> set s"
  by (induction s) (auto split: option.splits)

lemma basename_plain: "CHR ''/'' \<notin> set s \<Longrightarrow> CHR 0x5C \<notin> set s \<Longrightarrow> basename s = s"
proof -
  assume a: "CHR ''/'' \<notin> set s" "CHR 0x5C \<notin> set s"
  then have m: "map (\<lambda>c. if c = CHR 0x5C then CHR ''/'' else c) s = s"
    by (intro map_idI) auto
  from a(1) have "\<not> ends_with s ''/''" by (auto simp: ends_with_iff)
  moreover from a(1) have "last_index_of_char (CHR ''/'') s = None"
    by (simp add: last_index_of_char_None)
  ultimately show ?thesis by (simp add: basename_def m Let_def)
qed

section \<open>Lemmas on the tokenizer\<close>

lemma flush_append: "flush (pre @ ls) cur has = pre @ flush ls cur has"
  by (simp add: flush_def)

lemma ends_in_word_append:
  "ends_in_word (pre @ ls) = (if ls = [] then ends_in_word pre else ends_in_word ls)"
  by (simp add: ends_in_word_def)

lemma ends_in_word_simps [simp]:
  "\<not> ends_in_word []"
  "ends_in_word [Word w]"
  "\<not> ends_in_word (ls @ [Op oper])"
  "ends_in_word (ls @ [Word w])"
  by (simp_all add: ends_in_word_def)

text \<open>
  The classes of characters the loop distinguishes, the loop's equation for each of them, and the
  induction rule that follows the loop class by class.
\<close>

definition quote_char :: "char \<Rightarrow> bool" where
  "quote_char c = (c = CHR 0x27 \<or> c = CHR 0x22)"

definition blank_char :: "char \<Rightarrow> bool" where
  "blank_char c = (c = CHR '' '' \<or> c = CHR 0x09)"

definition newline_char :: "char \<Rightarrow> bool" where
  "newline_char c = (c = CHR 0x0A \<or> c = CHR 0x0D)"

definition plain_char :: "char \<Rightarrow> bool" where
  "plain_char c =
     (\<not> quote_char c \<and> \<not> blank_char c \<and> \<not> newline_char c
      \<and> c \<noteq> CHR ''&'' \<and> c \<noteq> CHR ''|'' \<and> c \<noteq> CHR '';'')"

lemmas char_class_defs = quote_char_def blank_char_def newline_char_def plain_char_def

definition after_newline :: "lexeme list \<Rightarrow> lexeme list" where
  "after_newline ls = (if ends_in_word ls then ls @ [Op Semi] else ls)"

lemma tok_quote:
  "quote_char ch \<Longrightarrow> tokenize_loop (ch # rest) ls cur has =
     (case index_of_char ch rest of
        None \<Rightarrow> None
      | Some e \<Rightarrow> tokenize_loop (drop (Suc e) rest) ls (cur @ take e rest) True)"
  by (simp add: quote_char_def)

lemma tok_blank:
  "blank_char ch \<Longrightarrow> tokenize_loop (ch # rest) ls cur has =
     tokenize_loop rest (flush ls cur has) [] False"
  by (auto simp: blank_char_def)

lemma tok_newline:
  "newline_char ch \<Longrightarrow> tokenize_loop (ch # rest) ls cur has =
     tokenize_loop rest (after_newline (flush ls cur has)) [] False"
  by (auto simp: newline_char_def after_newline_def Let_def)

lemma tok_amp2:
  "tokenize_loop (CHR ''&'' # CHR ''&'' # rest) ls cur has =
     tokenize_loop rest (flush ls cur has @ [Op AndAnd]) [] False"
  by simp

lemma tok_amp1:
  "\<not> starts_with rest ''&'' \<Longrightarrow> tokenize_loop (CHR ''&'' # rest) ls cur has = None"
  by (cases rest) auto

lemma tok_bar2:
  "tokenize_loop (CHR ''|'' # CHR ''|'' # rest) ls cur has =
     tokenize_loop rest (flush ls cur has @ [Op OrOr]) [] False"
  by simp

lemma tok_bar1:
  "\<not> starts_with rest ''|'' \<Longrightarrow> tokenize_loop (CHR ''|'' # rest) ls cur has =
     tokenize_loop rest (flush ls cur has @ [Op Pipe]) [] False"
  by (cases rest) auto

lemma tok_semi:
  "tokenize_loop (CHR '';'' # rest) ls cur has =
     tokenize_loop rest (flush ls cur has @ [Op Semi]) [] False"
  by simp

lemma tok_plain:
  "plain_char ch \<Longrightarrow> tokenize_loop (ch # rest) ls cur has =
     tokenize_loop rest ls (cur @ [ch]) True"
  by (simp add: char_class_defs)

lemmas tok_simps =
  tok_quote tok_blank tok_newline tok_amp2 tok_amp1 tok_bar2 tok_bar1 tok_semi tok_plain

declare tokenize_loop.simps(2) [simp del]

lemma tokenize_induct [case_names Nil open_quote quote blank newline amp2 amp1 bar2 bar1 semi plain]:
  assumes "\<And>ls cur has. P [] ls cur has"
    and "\<And>ch rest ls cur has. quote_char ch \<Longrightarrow> index_of_char ch rest = None \<Longrightarrow> P (ch # rest) ls cur has"
    and "\<And>ch rest e ls cur has. quote_char ch \<Longrightarrow> index_of_char ch rest = Some e \<Longrightarrow>
           P (drop (Suc e) rest) ls (cur @ take e rest) True \<Longrightarrow> P (ch # rest) ls cur has"
    and "\<And>ch rest ls cur has. blank_char ch \<Longrightarrow> P rest (flush ls cur has) [] False \<Longrightarrow>
           P (ch # rest) ls cur has"
    and "\<And>ch rest ls cur has. newline_char ch \<Longrightarrow>
           P rest (after_newline (flush ls cur has)) [] False \<Longrightarrow> P (ch # rest) ls cur has"
    and "\<And>rest ls cur has. P rest (flush ls cur has @ [Op AndAnd]) [] False \<Longrightarrow>
           P (CHR ''&'' # CHR ''&'' # rest) ls cur has"
    and "\<And>rest ls cur has. \<not> starts_with rest ''&'' \<Longrightarrow> P (CHR ''&'' # rest) ls cur has"
    and "\<And>rest ls cur has. P rest (flush ls cur has @ [Op OrOr]) [] False \<Longrightarrow>
           P (CHR ''|'' # CHR ''|'' # rest) ls cur has"
    and "\<And>rest ls cur has. \<not> starts_with rest ''|'' \<Longrightarrow>
           P rest (flush ls cur has @ [Op Pipe]) [] False \<Longrightarrow> P (CHR ''|'' # rest) ls cur has"
    and "\<And>rest ls cur has. P rest (flush ls cur has @ [Op Semi]) [] False \<Longrightarrow>
           P (CHR '';'' # rest) ls cur has"
    and "\<And>ch rest ls cur has. plain_char ch \<Longrightarrow> P rest ls (cur @ [ch]) True \<Longrightarrow>
           P (ch # rest) ls cur has"
  shows "P s ls cur has"
proof (induction "length s" arbitrary: s ls cur has rule: less_induct)
  case less
  show ?case
  proof (cases s)
    case Nil
    then show ?thesis by (simp add: assms(1))
  next
    case (Cons ch rest)
    then have IH: "length r \<le> length rest \<Longrightarrow> P r ls' cur' has'" for r ls' cur' has'
      using less by simp
    consider "quote_char ch" "index_of_char ch rest = None"
      | e where "quote_char ch" "index_of_char ch rest = Some e"
      | "blank_char ch" | "newline_char ch" | "plain_char ch"
      | "ch = CHR ''&''" | "ch = CHR ''|''" | "ch = CHR '';''"
      unfolding plain_char_def by blast
    then show ?thesis
    proof cases
      case 6
      then show ?thesis using Cons IH assms(6,7)
        by (cases "starts_with rest ''&''") (auto simp: starts_with_singleton)
    next
      case 7
      then show ?thesis using Cons IH assms(8,9)
        by (cases "starts_with rest ''|''") (auto simp: starts_with_singleton)
    qed (use Cons IH assms in auto)
  qed
qed

section \<open>Properties of the tokenizer\<close>

text \<open>
  The lexemes already pushed influence the rest of the run only through the newline rule, so a run
  can be started from any prefix that does not end in a word.
\<close>

lemma tokenize_loop_prefix:
  "ls \<noteq> [] \<or> has \<or> \<not> ends_in_word pre \<Longrightarrow>
   tokenize_loop s (pre @ ls) cur has = map_option ((@) pre) (tokenize_loop s ls cur has)"
proof (induction s ls cur has rule: tokenize_induct)
  case (newline ch rest ls cur has)
  have "after_newline (pre @ flush ls cur has) = pre @ after_newline (flush ls cur has)"
    using newline.prems by (auto simp: after_newline_def ends_in_word_append flush_def)
  moreover have "after_newline (flush ls cur has) \<noteq> [] \<or> \<not> ends_in_word pre"
    using newline.prems by (auto simp: after_newline_def flush_def)
  ultimately show ?case using newline by (auto simp: tok_simps flush_append)
qed (auto simp: tok_simps flush_append flush_def)

lemma tokenize_loop_from:
  "\<not> ends_in_word pre \<Longrightarrow>
   tokenize_loop s pre [] False = map_option ((@) pre) (tokenizeScript s)"
  using tokenize_loop_prefix [of "[]" False pre s "[]"] by (simp add: tokenizeScript_def)

lemma index_of_char_append_Some:
  "index_of_char c s = Some n \<Longrightarrow> index_of_char c (s @ r) = Some n \<and> n < length s"
  by (auto simp: index_of_char_Some nth_append)

text \<open>
  A semicolon after a script that tokenizes ends it: the rest is tokenized from the lexemes found.
\<close>

lemma tokenize_loop_semi:
  "tokenize_loop a ls cur has = Some la \<Longrightarrow>
   tokenize_loop (a @ CHR '';'' # b) ls cur has = tokenize_loop b (la @ [Op Semi]) [] False"
proof (induction a ls cur has rule: tokenize_induct)
  case (quote ch rest e ls cur has)
  then show ?case
    using index_of_char_append_Some [of ch rest e "CHR '';'' # b"] by (simp add: tok_quote)
next
  case (bar1 rest ls cur has)
  then have "\<not> starts_with (rest @ CHR '';'' # b) ''|''"
    by (cases rest) auto
  with bar1 show ?case by (simp add: tok_bar1)
qed (simp_all add: tok_simps)

text \<open>No word contains a character that the script does not.\<close>

lemma flush_words: "Word w \<in> set (flush ls cur has) \<Longrightarrow> Word w \<in> set ls \<or> w = cur"
  by (auto simp: flush_def split: if_splits)

lemma after_newline_words: "Word w \<in> set (after_newline ls) \<longleftrightarrow> Word w \<in> set ls"
  by (simp add: after_newline_def)

lemma tokenize_loop_chars:
  "tokenize_loop s ls cur has = Some la \<Longrightarrow> Word w \<in> set la \<Longrightarrow>
   Word w \<in> set ls \<or> set w \<subseteq> set cur \<union> set s"
proof (induction s ls cur has rule: tokenize_induct)
  case (quote ch rest e ls cur has)
  then show ?case
    using set_take_subset [of e rest] set_drop_subset [of "Suc e" rest]
    by (auto simp: tok_quote)
qed (auto simp: tok_simps after_newline_words dest!: flush_words)

lemma tokenizeScript_chars:
  "tokenizeScript s = Some ls \<Longrightarrow> Word w \<in> set ls \<Longrightarrow> set w \<subseteq> set s"
  using tokenize_loop_chars [of s "[]" "[]" False ls w] by (simp add: tokenizeScript_def)

text \<open>Writing lexemes back: words in single quotes, one blank after every lexeme.\<close>

fun operator_text :: "operator \<Rightarrow> string" where
  "operator_text AndAnd = ''&&''"
| "operator_text OrOr = ''||''"
| "operator_text Semi = '';''"
| "operator_text Pipe = ''|''"

fun render_lexeme :: "lexeme \<Rightarrow> string" where
  "render_lexeme (Word w) = CHR 0x27 # w @ [CHR 0x27]"
| "render_lexeme (Op oper) = operator_text oper"

definition render_lexemes :: "lexeme list \<Rightarrow> string" where
  "render_lexemes ls = concat (map (\<lambda>l. render_lexeme l @ '' '') ls)"

definition quotable :: "lexeme \<Rightarrow> bool" where
  "quotable l = (case l of Word w \<Rightarrow> CHR 0x27 \<notin> set w | Op _ \<Rightarrow> True)"

lemma tokenize_loop_render:
  "list_all quotable ls \<Longrightarrow>
   tokenize_loop (render_lexemes ls) acc [] False = Some (acc @ ls)"
proof (induction ls arbitrary: acc)
  case Nil
  then show ?case by (simp add: render_lexemes_def flush_def)
next
  case (Cons l ls)
  have IH: "tokenize_loop (concat (map (\<lambda>l. render_lexeme l @ '' '') ls)) acc' [] False =
      Some (acc' @ ls)" for acc'
    using Cons by (simp add: render_lexemes_def)
  show ?case
  proof (cases l)
    case (Word w)
    then show ?thesis using Cons.prems IH
      by (simp add: render_lexemes_def quotable_def tok_simps char_class_defs flush_def)
  next
    case (Op oper)
    then show ?thesis using IH
      by (cases oper) (simp_all add: render_lexemes_def tok_simps char_class_defs flush_def)
  qed
qed

section \<open>Properties\<close>

text \<open>
  C30: quoting the words of a command line and joining the lexemes with blanks gives a script that
  tokenizes back to exactly those lexemes, for words that contain no single quote (whatever else
  they contain: blanks, operators, newlines, double quotes, or nothing at all).
\<close>

theorem tokenize_render_roundtrip:
  assumes "list_all quotable ls"
  shows "tokenizeScript (render_lexemes ls) = Some ls"
  using tokenize_loop_render [OF assms, of "[]"] by (simp add: tokenizeScript_def)

theorem tokenize_render_roundtrip_witness:
  "tokenizeScript (render_lexemes [Word ''echo'', Word ''a && b'', Op Pipe, Word []]) =
     Some [Word ''echo'', Word ''a && b'', Op Pipe, Word []]"
  by (rule tokenize_render_roundtrip) (simp add: quotable_def)

text \<open>
  a semicolon after a script that tokenizes separates: the tokens of the whole are the tokens of
  the first part, the operator, and the tokens of the rest, and the whole is rejected exactly when
  the rest is.
\<close>

theorem tokenize_sequence:
  assumes "tokenizeScript a = Some la"
  shows "tokenizeScript (a @ '';'' @ b) =
           map_option (\<lambda>lb. la @ Op Semi # lb) (tokenizeScript b)"
proof -
  have "tokenizeScript (a @ '';'' @ b) = tokenize_loop b (la @ [Op Semi]) [] False"
    using assms tokenize_loop_semi [of a "[]" "[]" False la b] by (simp add: tokenizeScript_def)
  also have "\<dots> = map_option ((@) (la @ [Op Semi])) (tokenizeScript b)"
    by (rule tokenize_loop_from) simp
  finally show ?thesis by (cases "tokenizeScript b") simp_all
qed

theorem tokenize_sequence_witness:
  "tokenizeScript (''ls -l'' @ '';'' @ ''pwd'') =
     map_option (\<lambda>lb. [Word ''ls'', Word ''-l''] @ Op Semi # lb) (tokenizeScript ''pwd'')"
  by (rule tokenize_sequence) code_simp

end
