(* ===== verification/NodePath.thy ===== *)
theory NodePath
  imports Prelude
begin

text \<open>
  The part of \<open>node:path\<close> (POSIX flavour) that the modelled code calls: \<open>isAbsolute\<close>, \<open>resolve\<close>,
  \<open>relative\<close> and \<open>join\<close>, computed on the segments between slashes.
\<close>

definition is_absolute :: "string \<Rightarrow> bool" where
  "is_absolute p = starts_with p ''/''"

text \<open>Normalisation of an absolute path: empty and \<open>.\<close> segments vanish, \<open>..\<close> drops one segment.\<close>

fun norm_segs :: "string list \<Rightarrow> string list \<Rightarrow> string list" where
  "norm_segs acc [] = rev acc"
| "norm_segs acc (seg # segs) =
     (if seg = [] \<or> seg = ''.'' then norm_segs acc segs
      else if seg = ''..'' then norm_segs (tl acc) segs
      else norm_segs (seg # acc) segs)"

definition path_segs :: "string \<Rightarrow> string list" where
  "path_segs p = norm_segs [] (split_on (CHR ''/'') p)"

definition of_segs :: "string list \<Rightarrow> string" where
  "of_segs segs = ''/'' @ join ''/'' segs"

text \<open>\<open>resolve(base, p)\<close> in a process whose current directory is the first argument.\<close>

definition posix_resolve :: "string \<Rightarrow> string \<Rightarrow> string \<Rightarrow> string" where
  "posix_resolve dir base p =
     of_segs (path_segs
       (if is_absolute p then p
        else if is_absolute base then base @ ''/'' @ p
        else dir @ ''/'' @ base @ ''/'' @ p))"

fun common_prefix :: "'a list \<Rightarrow> 'a list \<Rightarrow> nat" where
  "common_prefix (x # xs) (y # ys) = (if x = y then Suc (common_prefix xs ys) else 0)"
| "common_prefix xs ys = 0"

text \<open>\<open>relative(root, target)\<close>: climb out of the root's own segments, then descend.\<close>

definition posix_relative :: "string \<Rightarrow> string \<Rightarrow> string \<Rightarrow> string" where
  "posix_relative dir root target =
     (let rs = path_segs (posix_resolve dir [] root); ts = path_segs (posix_resolve dir [] target);
          k = common_prefix rs ts
      in join ''/'' (replicate (length rs - k) ''..'' @ drop k ts))"

section \<open>Lemmas\<close>

definition clean_seg :: "string \<Rightarrow> bool" where
  "clean_seg s = (s \<noteq> [] \<and> s \<noteq> ''.'' \<and> s \<noteq> ''..'' \<and> CHR ''/'' \<notin> set s)"

lemma norm_segs_clean:
  "\<forall>s \<in> set acc. clean_seg s \<Longrightarrow> \<forall>s \<in> set segs. CHR ''/'' \<notin> set s \<Longrightarrow>
   s \<in> set (norm_segs acc segs) \<Longrightarrow> clean_seg s"
proof (induction acc segs rule: norm_segs.induct)
  case (2 acc seg segs)
  then show ?case by (cases acc) (auto simp: clean_seg_def split: if_splits)
qed auto

lemma path_segs_clean: "s \<in> set (path_segs p) \<Longrightarrow> clean_seg s"
  unfolding path_segs_def
  by (rule norm_segs_clean) (auto dest: split_on_no_sep)

lemma common_prefix_le:
  "common_prefix xs ys \<le> length xs \<and> common_prefix xs ys \<le> length ys"
  by (induction xs ys rule: common_prefix.induct) auto

lemma common_prefix_take:
  "take (common_prefix xs ys) xs = take (common_prefix xs ys) ys"
  by (induction xs ys rule: common_prefix.induct) auto

lemma common_prefix_full:
  "length xs \<le> common_prefix xs ys \<Longrightarrow> prefix xs ys"
  by (metis common_prefix_take take_all take_is_prefix)

lemma join_first: "starts_with (join sep (x # xs)) x"
  by (cases xs) (auto simp: starts_with_iff)

lemma join_eq_Nil: "join sep xs = [] \<Longrightarrow> sep \<noteq> [] \<Longrightarrow> xs = [] \<or> xs = [[]]"
  by (induction sep xs rule: join.induct) auto

text \<open>A relative path that does not start with \<open>..\<close> stays below the root.\<close>

lemma posix_relative_inside:
  assumes "\<not> starts_with (posix_relative dir root target) ''..''"
  shows "prefix (path_segs (posix_resolve dir [] root)) (path_segs (posix_resolve dir [] target))"
proof -
  let ?rs = "path_segs (posix_resolve dir [] root)"
  let ?ts = "path_segs (posix_resolve dir [] target)"
  let ?k = "common_prefix ?rs ?ts"
  have "length ?rs - ?k = 0"
  proof (rule ccontr)
    assume "length ?rs - ?k \<noteq> 0"
    then obtain m where "length ?rs - ?k = Suc m" by (metis not0_implies_Suc)
    then have "posix_relative dir root target = join ''/'' (''..'' # replicate m ''..'' @ drop ?k ?ts)"
      by (simp add: posix_relative_def Let_def)
    then show False using assms join_first by metis
  qed
  then show ?thesis by (intro common_prefix_full) simp
qed

lemma path_segs_of_segs:
  assumes "\<And>s. s \<in> set segs \<Longrightarrow> clean_seg s"
  shows "path_segs (of_segs segs) = segs"
proof -
  have n: "norm_segs acc segs = rev acc @ segs" for acc
    using assms by (induction segs arbitrary: acc) (auto simp: clean_seg_def)
  have sp: "split_on (CHR ''/'') (CHR ''/'' # x) = [] # split_on (CHR ''/'') x" for x
    by (cases "split_on (CHR ''/'') x") auto
  show ?thesis
  proof (cases "segs = []")
    case True
    then show ?thesis by (simp add: path_segs_def of_segs_def)
  next
    case False
    then have "split_on (CHR ''/'') (join ''/'' segs) = segs"
      using assms by (intro split_on_join) (auto simp: clean_seg_def)
    then show ?thesis using n [of "[]"] by (simp add: path_segs_def of_segs_def sp del: split_on.simps)
  qed
qed

lemma path_segs_idem: "path_segs (of_segs (path_segs p)) = path_segs p"
  by (rule path_segs_of_segs) (rule path_segs_clean)

lemma posix_resolve_absolute:
  "is_absolute p \<Longrightarrow> path_segs (posix_resolve dir base p) = path_segs p"
  by (simp add: posix_resolve_def path_segs_idem)

end
