(* ===== verification/BashAudit.thy ===== *)
theory BashAudit
  imports BashTokenize NodePath
begin

text \<open>
  The argument audits of the shell-command classifier: the per-command option policies of
  \<open>flag-audit.ts\<close>, the workspace containment of path operands of \<open>path-audit.ts\<close>, and
  \<open>git-audit.ts\<close>, \<open>safe-list.ts\<close> and \<open>dangerous.ts\<close> (all under
  \<open>packages/runtime/src/bash/classifier/\<close>). The file system is a parameter of the model: a record
  of what \<open>accessSync\<close>, \<open>lstatSync\<close> and \<open>realpathSync\<close> answer. The functions of \<open>node:path\<close> are
  modelled for POSIX paths; on Windows the audits are never reached, because
  \<open>isTrustedExecutable\<close> rejects every name there.
\<close>

datatype audit_verdict = Safe | Reject

lemma audit_verdict_not [simp]: "v \<noteq> Safe \<longleftrightarrow> v = Reject" "v \<noteq> Reject \<longleftrightarrow> v = Safe"
  by (cases v; simp)+

section \<open>Option policies\<close>

record exact_option_policy =
  booleanShort :: "char list"
  valueShort :: "char list"
  booleanLong :: "string list"
  valueLong :: "string list"

text \<open>
  The inner loop of \<open>auditExactOptions\<close> over a cluster of short flags. The first argument says
  whether this is the first character of the cluster, the last whether it is the only one.
\<close>

datatype cluster_result = ClusterReject | ClusterDone | ClusterConsumesNext

fun audit_cluster :: "exact_option_policy \<Rightarrow> bool \<Rightarrow> string \<Rightarrow> cluster_result" where
  "audit_cluster policy first [] = ClusterDone"
| "audit_cluster policy first (flag # flags) =
     (if flag \<in> set (booleanShort policy) then audit_cluster policy False flags
      else if flag \<notin> set (valueShort policy) \<or> \<not> first then ClusterReject
      else if flags = [] then ClusterConsumesNext
      else ClusterDone)"

text \<open>
  The outer loop: the arguments from \<open>index\<close> on, and \<open>optionsEnded\<close>. An option that takes the next
  argument as its value rejects when there is none.
\<close>

fun audit_exact_loop :: "exact_option_policy \<Rightarrow> string list \<Rightarrow> bool \<Rightarrow> audit_verdict" where
  "audit_exact_loop policy [] optionsEnded = Safe"
| "audit_exact_loop policy (arg # rest) optionsEnded =
     (if arg = ''--'' then audit_exact_loop policy rest True
      else if optionsEnded \<or> arg = ''-'' \<or> \<not> starts_with arg ''-'' then
        audit_exact_loop policy rest optionsEnded
      else if starts_with arg ''--'' then
        (let equalsAt = index_of_char (CHR ''='') arg;
             name = (case equalsAt of None \<Rightarrow> arg | Some e \<Rightarrow> take e arg)
         in if name \<in> set (booleanLong policy) then
              (if equalsAt \<noteq> None then Reject else audit_exact_loop policy rest optionsEnded)
            else if name \<notin> set (valueLong policy) then Reject
            else (case equalsAt of
                    Some e \<Rightarrow>
                      if drop (Suc e) arg = [] then Reject
                      else audit_exact_loop policy rest optionsEnded
                  | None \<Rightarrow>
                      (case rest of
                         [] \<Rightarrow> Reject
                       | _ # rest' \<Rightarrow> audit_exact_loop policy rest' optionsEnded)))
      else
        (case audit_cluster policy True (tl arg) of
           ClusterReject \<Rightarrow> Reject
         | ClusterDone \<Rightarrow> audit_exact_loop policy rest optionsEnded
         | ClusterConsumesNext \<Rightarrow>
             (case rest of
                [] \<Rightarrow> Reject
              | _ # rest' \<Rightarrow> audit_exact_loop policy rest' optionsEnded)))"

definition auditExactOptions :: "string list \<Rightarrow> exact_option_policy \<Rightarrow> audit_verdict" where
  "auditExactOptions argv policy = audit_exact_loop policy (tl argv) False"

definition FIND_VALUE_PREDICATES :: "string list" where
  "FIND_VALUE_PREDICATES = [''-iname'', ''-maxdepth'', ''-mindepth'', ''-name'', ''-type'']"

definition FIND_BOOLEAN_PREDICATES :: "string list" where
  "FIND_BOOLEAN_PREDICATES =
     [''!'', ''('', '')'', ''-a'', ''-and'', ''-empty'', ''-not'', ''-o'', ''-or'', ''-print'',
      ''-print0'']"

text \<open>The loop of \<open>auditFind\<close>, with \<open>inExpression\<close>.\<close>

fun audit_find_loop :: "string list \<Rightarrow> bool \<Rightarrow> audit_verdict" where
  "audit_find_loop [] inExpression = Safe"
| "audit_find_loop (arg # rest) inExpression =
     (if arg = ''--'' \<or> arg = ''-H'' \<or> arg = ''-L'' then Reject
      else if \<not> inExpression \<and>
              (arg = ''-P'' \<or> (\<not> starts_with arg ''-'' \<and> arg \<noteq> ''!'' \<and> arg \<noteq> ''('')) then
        audit_find_loop rest False
      else if arg \<in> set FIND_BOOLEAN_PREDICATES then audit_find_loop rest True
      else if arg \<notin> set FIND_VALUE_PREDICATES then Reject
      else (case rest of [] \<Rightarrow> Reject | _ # rest' \<Rightarrow> audit_find_loop rest' True))"

definition auditFind :: "string list \<Rightarrow> audit_verdict" where
  "auditFind argv = audit_find_loop (tl argv) False"

definition GREP_POLICY :: exact_option_policy where
  "GREP_POLICY =
     \<lparr>booleanShort = ''EFGHILPabcghijklnoqrsvwxy'',
      valueShort = ''ABCDefm'',
      booleanLong =
        [''--basic-regexp'', ''--extended-regexp'', ''--files-with-matches'',
         ''--files-without-match'', ''--fixed-strings'', ''--ignore-case'', ''--invert-match'',
         ''--line-number'', ''--no-filename'', ''--only-matching'', ''--perl-regexp'', ''--quiet'',
         ''--recursive'', ''--silent'', ''--text'', ''--with-filename'', ''--word-regexp'',
         ''--line-regexp''],
      valueLong =
        [''--after-context'', ''--before-context'', ''--binary-files'', ''--context'',
         ''--devices'', ''--directories'', ''--exclude'', ''--exclude-dir'', ''--exclude-from'',
         ''--file'', ''--include'', ''--label'', ''--max-count'', ''--regexp'']\<rparr>"

definition RIPGREP_POLICY :: exact_option_policy where
  "RIPGREP_POLICY =
     \<lparr>booleanShort = ''FHIJNPSUVachilnopqsuvwxy'',
      valueShort = ''ABCEMTdefgjmrt'',
      booleanLong =
        [''--case-sensitive'', ''--column'', ''--count'', ''--files-with-matches'',
         ''--files-without-match'', ''--fixed-strings'', ''--heading'', ''--hidden'',
         ''--ignore-case'', ''--invert-match'', ''--line-number'', ''--multiline'',
         ''--no-heading'', ''--no-ignore'', ''--no-line-number'', ''--only-matching'', ''--pcre2'',
         ''--quiet'', ''--smart-case'', ''--text'', ''--unrestricted'', ''--word-regexp'',
         ''--line-regexp''],
      valueLong =
        [''--after-context'', ''--before-context'', ''--context'', ''--encoding'', ''--file'',
         ''--glob'', ''--ignore-file'', ''--max-columns'', ''--max-count'', ''--max-depth'',
         ''--regexp'', ''--replace'', ''--threads'', ''--type'', ''--type-not'']\<rparr>"

definition BASE64_POLICY :: exact_option_policy where
  "BASE64_POLICY =
     \<lparr>booleanShort = ''Dd'', valueShort = [], booleanLong = [''--decode''], valueLong = []\<rparr>"

definition LS_POLICY :: exact_option_policy where
  "LS_POLICY =
     \<lparr>booleanShort = ''ABCFGRSUabcdfghiklmnopqrstux1'', valueShort = [],
      booleanLong =
        [''--all'', ''--almost-all'', ''--classify'', ''--directory'', ''--human-readable'',
         ''--inode'', ''--long'', ''--numeric-uid-gid'', ''--recursive'', ''--reverse'', ''--size''],
      valueLong = []\<rparr>"

definition WC_POLICY :: exact_option_policy where
  "WC_POLICY =
     \<lparr>booleanShort = ''Lclmw'', valueShort = [],
      booleanLong = [''--bytes'', ''--chars'', ''--lines'', ''--max-line-length'', ''--words''],
      valueLong = []\<rparr>"

definition TAIL_POLICY :: exact_option_policy where
  "TAIL_POLICY =
     \<lparr>booleanShort = ''fqv'', valueShort = ''cn'',
      booleanLong = [''--quiet'', ''--silent'', ''--verbose''],
      valueLong = [''--bytes'', ''--lines'']\<rparr>"

definition is_digit :: "char \<Rightarrow> bool" where
  "is_digit c = (48 \<le> (of_char c :: nat) \<and> (of_char c :: nat) \<le> 57)"

text \<open>\<open>SED_N_ARG\<close>, the regular expression \<open>^(\d+,)?\d+p$\<close>.\<close>

definition sed_n_arg :: "string \<Rightarrow> bool" where
  "sed_n_arg arg =
     (let d = takeWhile is_digit arg; r = dropWhile is_digit arg in
      d \<noteq> [] \<and>
      (r = ''p'' \<or>
       (starts_with r '','' \<and>
        takeWhile is_digit (tl r) \<noteq> [] \<and> dropWhile is_digit (tl r) = ''p'')))"

definition auditSed :: "string list \<Rightarrow> audit_verdict" where
  "auditSed argv =
     (case at argv 2 of
        None \<Rightarrow> Reject
      | Some arg \<Rightarrow>
          if length argv \<le> 4 \<and> at argv 1 = Some ''-n'' \<and> sed_n_arg arg then Safe else Reject)"

text \<open>
  The table \<open>FLAG_AUDITORS\<close>; \<open>None\<close> when the key is not an own property of it.
\<close>

definition FLAG_AUDITORS :: "string \<Rightarrow> (string list \<Rightarrow> audit_verdict) option" where
  "FLAG_AUDITORS key =
     (if key = ''base64'' then Some (\<lambda>argv. auditExactOptions argv BASE64_POLICY)
      else if key = ''find'' then Some auditFind
      else if key = ''grep'' then Some (\<lambda>argv. auditExactOptions argv GREP_POLICY)
      else if key = ''ls'' then Some (\<lambda>argv. auditExactOptions argv LS_POLICY)
      else if key = ''rg'' then Some (\<lambda>argv. auditExactOptions argv RIPGREP_POLICY)
      else if key = ''sed'' then Some auditSed
      else if key = ''tail'' then Some (\<lambda>argv. auditExactOptions argv TAIL_POLICY)
      else if key = ''wc'' then Some (\<lambda>argv. auditExactOptions argv WC_POLICY)
      else None)"

definition auditFlags :: "string \<Rightarrow> string list \<Rightarrow> audit_verdict" where
  "auditFlags key argv =
     (case FLAG_AUDITORS key of Some auditor \<Rightarrow> auditor argv | None \<Rightarrow> Safe)"

definition auditGit :: "string list \<Rightarrow> string \<Rightarrow> audit_verdict" where
  "auditGit argv workdir = Reject"

section \<open>The file system as the code observes it\<close>

text \<open>
  \<open>accessX path\<close>: \<open>accessSync(path, X_OK)\<close> returns; \<open>lstatOk path\<close>: \<open>lstatSync(path)\<close> returns;
  \<open>realpath path\<close>: the value of \<open>realpathSync(path)\<close>, \<open>None\<close> when it throws.
\<close>

record fs_env =
  currentDir :: string
  accessX :: "string \<Rightarrow> bool"
  lstatOk :: "string \<Rightarrow> bool"
  realpath :: "string \<Rightarrow> string option"

section \<open>Path containment\<close>

definition NO_PATH_ARG_COMMANDS :: "string list" where
  "NO_PATH_ARG_COMMANDS =
     [''echo'', ''expr'', ''false'', ''true'', ''id'', ''pwd'', ''seq'', ''tr'', ''uname'',
      ''whoami'', ''which'']"

definition PATTERN_FIRST_COMMANDS :: "string list" where
  "PATTERN_FIRST_COMMANDS = [''grep'', ''rg'', ''sed'']"

definition PATH_VALUE_FLAGS :: "string \<Rightarrow> string list" where
  "PATH_VALUE_FLAGS key =
     (if key = ''grep'' then [''-f'', ''--file'', ''--exclude-from'']
      else if key = ''rg'' then [''-f'', ''--file'', ''--ignore-file'']
      else [])"

definition PATTERN_VALUE_FLAGS :: "string \<Rightarrow> string list" where
  "PATTERN_VALUE_FLAGS key =
     (if key = ''grep'' then [''-e'', ''--regexp'', ''-f'', ''--file'']
      else if key = ''rg'' then [''-e'', ''--regexp'', ''-f'', ''--file'']
      else [])"

definition isEscapingPathArg :: "string \<Rightarrow> bool" where
  "isEscapingPathArg arg =
     (starts_with arg ''/'' \<or> starts_with arg ''~'' \<or> ''..'' \<in> set (split_on (CHR ''/'') arg))"

definition isWithinRoot :: "fs_env \<Rightarrow> string \<Rightarrow> string \<Rightarrow> bool" where
  "isWithinRoot env root target =
     (let rel = posix_relative (currentDir env) root target in
      rel = [] \<or> (\<not> starts_with rel ''..'' \<and> \<not> is_absolute rel))"

definition auditResolvedPath :: "fs_env \<Rightarrow> string \<Rightarrow> string \<Rightarrow> audit_verdict" where
  "auditResolvedPath env arg workdir =
     (if isEscapingPathArg arg then Reject
      else if \<not> lstatOk env (posix_resolve (currentDir env) workdir arg) then Reject
      else (case (realpath env workdir,
                  realpath env (posix_resolve (currentDir env) workdir arg)) of
              (Some canonicalRoot, Some canonicalCandidate) \<Rightarrow>
                if isWithinRoot env canonicalRoot canonicalCandidate then Safe else Reject
            | _ \<Rightarrow> Reject))"

record flag_value_match =
  fv_value :: string
  consumesNext :: bool

fun matchFlagValue :: "string \<Rightarrow> string option \<Rightarrow> string list \<Rightarrow> flag_value_match option" where
  "matchFlagValue arg nxt [] = None"
| "matchFlagValue arg nxt (flag # flags) =
     (if arg = flag then map_option (\<lambda>v. \<lparr>fv_value = v, consumesNext = True\<rparr>) nxt
      else if starts_with arg (flag @ ''='') then
        Some \<lparr>fv_value = drop (length flag + 1) arg, consumesNext = False\<rparr>
      else if length flag = 2 \<and> starts_with arg flag \<and> length arg > 2 then
        Some \<lparr>fv_value = drop 2 arg, consumesNext = False\<rparr>
      else matchFlagValue arg nxt flags)"

text \<open>The loop of \<open>auditFindPaths\<close>, with \<open>sawPath\<close>; \<open>break\<close> ends in \<open>Safe\<close>.\<close>

fun audit_find_paths_loop :: "fs_env \<Rightarrow> string \<Rightarrow> string list \<Rightarrow> bool \<Rightarrow> audit_verdict" where
  "audit_find_paths_loop env workdir [] sawPath = Safe"
| "audit_find_paths_loop env workdir (arg # rest) sawPath =
     (if arg = ''--'' then Reject
      else if \<not> sawPath \<and> (arg = ''-H'' \<or> arg = ''-L'' \<or> arg = ''-P'') then
        audit_find_paths_loop env workdir rest sawPath
      else if starts_with arg ''-'' \<or> arg = ''!'' \<or> arg = ''('' then Safe
      else if auditResolvedPath env arg workdir \<noteq> Safe then Reject
      else audit_find_paths_loop env workdir rest True)"

definition auditFindPaths :: "fs_env \<Rightarrow> string list \<Rightarrow> string \<Rightarrow> audit_verdict" where
  "auditFindPaths env argv workdir = audit_find_paths_loop env workdir (tl argv) False"

definition head_opt :: "'a list \<Rightarrow> 'a option" where
  "head_opt xs = (case xs of [] \<Rightarrow> None | x # _ \<Rightarrow> Some x)"

text \<open>The main loop of \<open>auditPathArgs\<close>, with \<open>patternSkipped\<close> and \<open>optionsEnded\<close>.\<close>

function audit_paths_loop ::
  "fs_env \<Rightarrow> string \<Rightarrow> string \<Rightarrow> string list \<Rightarrow> bool \<Rightarrow> bool \<Rightarrow> audit_verdict" where
  "audit_paths_loop env workdir key [] patternSkipped optionsEnded = Safe"
| "audit_paths_loop env workdir key (arg # rest) patternSkipped optionsEnded =
     (if \<not> optionsEnded \<and> arg = ''--'' then
        audit_paths_loop env workdir key rest patternSkipped True
      else if \<not> optionsEnded \<and> starts_with arg ''-'' then
        (case matchFlagValue arg (head_opt rest) (PATH_VALUE_FLAGS key) of
           Some pathValue \<Rightarrow>
             if auditResolvedPath env (fv_value pathValue) workdir \<noteq> Safe then Reject
             else audit_paths_loop env workdir key
                    (if consumesNext pathValue then tl rest else rest)
                    (patternSkipped \<or> arg \<in> set (PATTERN_VALUE_FLAGS key) \<or>
                     list_ex (starts_with arg) (PATTERN_VALUE_FLAGS key))
                    optionsEnded
         | None \<Rightarrow>
             (case matchFlagValue arg (head_opt rest) (PATTERN_VALUE_FLAGS key) of
                Some patternValue \<Rightarrow>
                  audit_paths_loop env workdir key
                    (if consumesNext patternValue then tl rest else rest) True optionsEnded
              | None \<Rightarrow> audit_paths_loop env workdir key rest patternSkipped optionsEnded))
      else if \<not> patternSkipped then audit_paths_loop env workdir key rest True optionsEnded
      else if auditResolvedPath env arg workdir \<noteq> Safe then Reject
      else audit_paths_loop env workdir key rest patternSkipped optionsEnded)"
  by pat_completeness auto
termination
  by (relation "measure (\<lambda>(env, workdir, key, args, _). length args)") auto

definition auditPathArgs :: "fs_env \<Rightarrow> string \<Rightarrow> string list \<Rightarrow> string \<Rightarrow> audit_verdict" where
  "auditPathArgs env key argv workdir =
     (if key \<in> set NO_PATH_ARG_COMMANDS then Safe
      else if key = ''find'' then auditFindPaths env argv workdir
      else audit_paths_loop env workdir key (tl argv)
             (key \<notin> set PATTERN_FIRST_COMMANDS) False)"

section \<open>Executables\<close>

definition UNIVERSAL_SAFE_COMMANDS :: "string list" where
  "UNIVERSAL_SAFE_COMMANDS =
     [''cat'', ''cut'', ''echo'', ''expr'', ''false'', ''grep'', ''head'', ''id'', ''ls'', ''nl'',
      ''paste'', ''pwd'', ''rev'', ''seq'', ''stat'', ''tail'', ''tr'', ''true'', ''uname'',
      ''uniq'', ''wc'', ''which'', ''whoami'']"

definition LINUX_ONLY_SAFE_COMMANDS :: "string list" where
  "LINUX_ONLY_SAFE_COMMANDS = [''numfmt'', ''tac'']"

definition POSIX_SHELL_BUILTINS :: "string list" where
  "POSIX_SHELL_BUILTINS = [''echo'', ''false'', ''pwd'', ''true'']"

definition TRUSTED_POSIX_EXECUTABLE_DIRS :: "string list" where
  "TRUSTED_POSIX_EXECUTABLE_DIRS = [''/usr/bin'', ''/bin'', ''/usr/sbin'', ''/sbin'']"

text \<open>
  \<open>join(directory, key)\<close> of \<open>node:path\<close>: the callers' keys hold no slash; \<open>..\<close> is normalised away.
\<close>

definition posix_join :: "string \<Rightarrow> string \<Rightarrow> string" where
  "posix_join directory key = of_segs (path_segs (directory @ ''/'' @ key))"

definition isTrustedExecutable :: "fs_env \<Rightarrow> string \<Rightarrow> platform \<Rightarrow> bool" where
  "isTrustedExecutable env key platform =
     (if platform = Win32 then False
      else if key \<in> set POSIX_SHELL_BUILTINS then True
      else list_ex (\<lambda>directory. accessX env (posix_join directory key))
             TRUSTED_POSIX_EXECUTABLE_DIRS)"

definition isSafeExecutable :: "string \<Rightarrow> platform \<Rightarrow> bool" where
  "isSafeExecutable key platform =
     (key \<in> set UNIVERSAL_SAFE_COMMANDS \<or> (platform = Linux \<and> key \<in> set LINUX_ONLY_SAFE_COMMANDS))"

definition RM_DANGEROUS_FLAGS :: "string list" where
  "RM_DANGEROUS_FLAGS = [''-f'', ''-rf'']"

fun isDangerous :: "string list \<Rightarrow> platform \<Rightarrow> bool" where
  "isDangerous [] platform = False"
| "isDangerous (argv0 # args) platform =
     (let key = executableLookupKey argv0 platform in
      if key = ''rm'' then
        (case args of [] \<Rightarrow> False | flag # _ \<Rightarrow> flag \<in> set RM_DANGEROUS_FLAGS)
      else if key = ''sudo'' then isDangerous args platform
      else False)"

section \<open>Reference grammar of the exact option policies\<close>

text \<open>
  The argument lists an exact option policy accepts, as a grammar: one rule per spelling the policy
  recognises. The flag says whether \<open>--\<close> has been passed.
\<close>

definition long_name :: "string \<Rightarrow> bool" where
  "long_name name = (starts_with name ''--'' \<and> CHR ''='' \<notin> set name)"

inductive exact_args :: "exact_option_policy \<Rightarrow> bool \<Rightarrow> string list \<Rightarrow> bool"
  for policy :: exact_option_policy where
  ea_nil: "exact_args policy ended []"
| ea_end: "exact_args policy True rest \<Longrightarrow> exact_args policy ended (''--'' # rest)"
| ea_operand: "exact_args policy ended rest \<Longrightarrow> arg \<noteq> ''--'' \<Longrightarrow>
    ended \<or> arg = ''-'' \<or> \<not> starts_with arg ''-'' \<Longrightarrow> exact_args policy ended (arg # rest)"
| ea_long_boolean: "exact_args policy False rest \<Longrightarrow> name \<in> set (booleanLong policy) \<Longrightarrow>
    long_name name \<Longrightarrow> name \<noteq> ''--'' \<Longrightarrow> exact_args policy False (name # rest)"
| ea_long_attached: "exact_args policy False rest \<Longrightarrow> name \<in> set (valueLong policy) \<Longrightarrow>
    name \<notin> set (booleanLong policy) \<Longrightarrow> long_name name \<Longrightarrow> v \<noteq> [] \<Longrightarrow>
    exact_args policy False ((name @ ''='' @ v) # rest)"
| ea_long_separate: "exact_args policy False rest \<Longrightarrow> name \<in> set (valueLong policy) \<Longrightarrow>
    name \<notin> set (booleanLong policy) \<Longrightarrow> long_name name \<Longrightarrow> name \<noteq> ''--'' \<Longrightarrow>
    exact_args policy False (name # v # rest)"
| ea_cluster: "exact_args policy False rest \<Longrightarrow> flags \<noteq> [] \<Longrightarrow>
    set flags \<subseteq> set (booleanShort policy) \<Longrightarrow> hd flags \<noteq> CHR ''-'' \<Longrightarrow>
    exact_args policy False ((CHR ''-'' # flags) # rest)"
| ea_short_attached: "exact_args policy False rest \<Longrightarrow> f \<in> set (valueShort policy) \<Longrightarrow>
    f \<notin> set (booleanShort policy) \<Longrightarrow> f \<noteq> CHR ''-'' \<Longrightarrow> v \<noteq> [] \<Longrightarrow>
    exact_args policy False ((CHR ''-'' # f # v) # rest)"
| ea_short_separate: "exact_args policy False rest \<Longrightarrow> f \<in> set (valueShort policy) \<Longrightarrow>
    f \<notin> set (booleanShort policy) \<Longrightarrow> f \<noteq> CHR ''-'' \<Longrightarrow>
    exact_args policy False ([CHR ''-'', f] # v # rest)"

lemma audit_cluster_later:
  "audit_cluster policy False flags =
     (if set flags \<subseteq> set (booleanShort policy) then ClusterDone else ClusterReject)"
  by (induction flags) auto

lemma audit_cluster_first:
  "audit_cluster policy True (f # fs) =
     (if f \<in> set (booleanShort policy) then
        (if set fs \<subseteq> set (booleanShort policy) then ClusterDone else ClusterReject)
      else if f \<notin> set (valueShort policy) then ClusterReject
      else if fs = [] then ClusterConsumesNext else ClusterDone)"
  by (simp add: audit_cluster_later)

lemma long_arg_cases:
  assumes "starts_with arg ''--''"
  obtains "index_of_char (CHR ''='') arg = None" "CHR ''='' \<notin> set arg"
  | e where "index_of_char (CHR ''='') arg = Some e" "arg = take e arg @ ''='' @ drop (Suc e) arg"
      "CHR ''='' \<notin> set (take e arg)" "starts_with (take e arg) ''--''"
proof (cases "index_of_char (CHR ''='') arg")
  case None
  then show thesis using that(1) by (simp add: index_of_char_None)
next
  case (Some e)
  have s: "arg = take e arg @ ''='' @ drop (Suc e) arg"
    using index_of_char_split [OF Some] by simp
  have "e \<ge> 2"
  proof (rule ccontr)
    assume "\<not> e \<ge> 2"
    then have "e = 0 \<or> e = 1" by auto
    then show False using Some assms by (auto simp: index_of_char_Some starts_with_iff)
  qed
  moreover obtain r where "arg = ''--'' @ r" using assms by (auto simp: starts_with_iff)
  ultimately have "starts_with (take e arg) ''--''"
    by (auto simp: starts_with_iff take_Cons' numeral_2_eq_2)
  then show thesis using that(2) [OF Some s] Some by (simp add: index_of_char_Some)
qed

text \<open>The loop's equations for the spellings of the grammar, and the two directions.\<close>

lemma ael_end: "audit_exact_loop policy (''--'' # rest) ended = audit_exact_loop policy rest True"
  by simp

lemma ael_operand:
  "arg \<noteq> ''--'' \<Longrightarrow> ended \<or> arg = ''-'' \<or> \<not> starts_with arg ''-'' \<Longrightarrow>
   audit_exact_loop policy (arg # rest) ended = audit_exact_loop policy rest ended"
  by auto

lemma long_name_dash: "starts_with arg ''--'' \<Longrightarrow> starts_with arg ''-'' \<and> arg \<noteq> ''-''"
  by (auto simp: starts_with_iff)

lemma ael_long:
  "arg \<noteq> ''--'' \<Longrightarrow> long_name arg \<Longrightarrow>
   audit_exact_loop policy (arg # rest) False =
     (if arg \<in> set (booleanLong policy) then audit_exact_loop policy rest False
      else if arg \<notin> set (valueLong policy) \<or> rest = [] then Reject
      else audit_exact_loop policy (tl rest) False)"
  using long_name_dash [of arg] index_of_char_None [of "CHR ''=''" arg]
  by (cases rest) (auto simp: long_name_def Let_def)

lemma ael_long_eq:
  assumes "long_name name"
  shows "audit_exact_loop policy ((name @ ''='' @ v) # rest) False =
     (if name \<in> set (booleanLong policy) \<or> name \<notin> set (valueLong policy) \<or> v = [] then Reject
      else audit_exact_loop policy rest False)"
proof -
  have "index_of_char (CHR ''='') (name @ CHR ''='' # v) = Some (length name)"
    using assms by (simp add: long_name_def)
  moreover have "starts_with (name @ CHR ''='' # v) ''--''"
    using assms by (auto simp: long_name_def starts_with_iff)
  moreover have "name @ CHR ''='' # v \<noteq> ''--''"
    using assms by (auto simp: long_name_def starts_with_iff)
  ultimately show ?thesis
    using long_name_dash [of "name @ CHR ''='' # v"] by (simp add: Let_def)
qed

lemma ael_short:
  assumes "f \<noteq> CHR ''-''"
  shows "audit_exact_loop policy ((CHR ''-'' # f # fs) # rest) False =
     (if f \<in> set (booleanShort policy) then
        (if set fs \<subseteq> set (booleanShort policy) then audit_exact_loop policy rest False else Reject)
      else if f \<notin> set (valueShort policy) then Reject
      else if fs \<noteq> [] then audit_exact_loop policy rest False
      else if rest = [] then Reject
      else audit_exact_loop policy (tl rest) False)"
  using assms by (cases rest) (auto simp: audit_cluster_first simp del: audit_cluster.simps)

lemma arg_spelling_cases:
  obtains (stop) "arg = ''--''"
  | (operand) "arg \<noteq> ''--''" "arg = ''-'' \<or> \<not> starts_with arg ''-''"
  | (long) "arg \<noteq> ''--''" "long_name arg"
  | (long_eq) name v where "arg = name @ ''='' @ v" "long_name name"
  | (short) f fs where "arg = CHR ''-'' # f # fs" "f \<noteq> CHR ''-''"
proof -
  consider "arg = ''--''" | "arg \<noteq> ''--''" "arg = ''-'' \<or> \<not> starts_with arg ''-''"
    | "arg \<noteq> ''--''" "starts_with arg ''--''"
    | "arg \<noteq> ''-''" "starts_with arg ''-''" "\<not> starts_with arg ''--''"
    by blast
  then show thesis
  proof cases
    case 3
    from 3(2) show thesis
    proof (cases rule: long_arg_cases)
      case 1
      then show thesis using that(3) 3 by (simp add: long_name_def)
    next
      case (2 e)
      then show thesis using that(4) by (metis long_name_def)
    qed
  next
    case 4
    then obtain r where "arg = CHR ''-'' # r" by (auto simp: starts_with_iff)
    moreover with 4 obtain f fs where "r = f # fs" by (cases r) auto
    ultimately show thesis using that(5) 4 by (cases "f = CHR ''-''") (auto simp: starts_with_iff)
  qed (use that in auto)
qed

declare audit_exact_loop.simps(2) [simp del]

lemma audit_exact_loop_sound:
  "audit_exact_loop policy args ended = Safe \<Longrightarrow> exact_args policy ended args"
proof (induction "length args" arbitrary: args ended rule: less_induct)
  case less
  show ?case
  proof (cases args)
    case Nil
    then show ?thesis by (simp add: ea_nil)
  next
    case (Cons arg rest)
    have IH: "exact_args policy e r" if "audit_exact_loop policy r e = Safe" "length r \<le> length rest"
      for r e
      using less.hyps that Cons by simp
    note s = less.prems [unfolded Cons]
    show ?thesis
    proof (cases ended)
      case True
      then show ?thesis using s IH
        by (cases "arg = ''--''") (auto simp: Cons ael_end ael_operand intro: ea_end ea_operand)
    next
      case False
      show ?thesis
      proof (cases arg rule: arg_spelling_cases)
        case stop
        then show ?thesis using s IH by (auto simp: Cons ael_end intro: ea_end)
      next
        case operand
        then show ?thesis using s IH False by (auto simp: Cons ael_operand intro: ea_operand)
      next
        case long
        then show ?thesis using s IH False
          by (cases rest)
            (auto simp: Cons ael_long intro: ea_long_boolean ea_long_separate split: if_splits)
      next
        case (long_eq name v)
        then show ?thesis using s IH False
          by (auto simp: Cons ael_long_eq [OF long_eq(2), simplified] intro: ea_long_attached [simplified] split: if_splits)
      next
        case (short f fs)
        consider "f \<in> set (booleanShort policy)" | "f \<notin> set (booleanShort policy)" "fs \<noteq> []"
          | "f \<notin> set (booleanShort policy)" "fs = []"
          by blast
        then show ?thesis
        proof cases
          case 1
          then show ?thesis using s IH False short
            by (auto simp: Cons ael_short intro!: ea_cluster [of _ _ "f # fs"] split: if_splits)
        next
          case 2
          then show ?thesis using s IH False short
            by (auto simp: Cons ael_short intro!: ea_short_attached split: if_splits)
        next
          case 3
          then show ?thesis using s IH False short
            by (cases rest) (auto simp: Cons ael_short intro!: ea_short_separate split: if_splits)
        qed
      qed
    qed
  qed
qed

lemma audit_exact_loop_complete:
  "exact_args policy ended args \<Longrightarrow> audit_exact_loop policy args ended = Safe"
proof (induction rule: exact_args.induct)
  case (ea_cluster rest flags)
  then show ?case by (cases flags) (auto simp: ael_short)
next
  case (ea_long_attached rest name v)
  then show ?case using ael_long_eq [of name policy v rest] by simp
qed (simp_all add: ael_end ael_operand ael_long ael_short)

section \<open>Path containment\<close>

text \<open>What an accepted path operand satisfies: it resolves, links followed, below the workspace.\<close>

definition path_contained :: "fs_env \<Rightarrow> string \<Rightarrow> string \<Rightarrow> bool" where
  "path_contained env workdir arg =
     (\<not> isEscapingPathArg arg \<and>
      (case (realpath env workdir, realpath env (posix_resolve (currentDir env) workdir arg)) of
         (Some root, Some target) \<Rightarrow>
           prefix (path_segs (posix_resolve (currentDir env) [] root))
                  (path_segs (posix_resolve (currentDir env) [] target))
       | _ \<Rightarrow> False))"

lemma posix_relative_empty:
  "posix_relative dir root target = [] \<Longrightarrow>
   prefix (path_segs (posix_resolve dir [] root)) (path_segs (posix_resolve dir [] target))"
  by (rule posix_relative_inside) (simp add: starts_with_iff)

lemma auditResolvedPath_contained:
  "auditResolvedPath env arg workdir = Safe \<Longrightarrow> path_contained env workdir arg"
  by (auto simp: auditResolvedPath_def path_contained_def isWithinRoot_def Let_def
        split: if_splits option.splits
        intro: posix_relative_inside posix_relative_empty)

text \<open>
  The operands of an argument list when no option takes a value: everything that does not start
  with a dash, and everything after \<open>--\<close>.
\<close>

fun operand_args :: "string list \<Rightarrow> bool \<Rightarrow> string list" where
  "operand_args [] ended = []"
| "operand_args (arg # rest) ended =
     (if \<not> ended \<and> arg = ''--'' then operand_args rest True
      else if \<not> ended \<and> starts_with arg ''-'' then operand_args rest ended
      else arg # operand_args rest ended)"

lemma audit_paths_loop_contained:
  assumes "PATH_VALUE_FLAGS key = []" "PATTERN_VALUE_FLAGS key = []"
  shows "audit_paths_loop env workdir key args True ended = Safe \<Longrightarrow>
         arg \<in> set (operand_args args ended) \<Longrightarrow> path_contained env workdir arg"
proof (induction args arbitrary: ended)
  case Nil
  then show ?case by simp
next
  case (Cons a rest)
  then show ?case
    by (auto simp: assms split: if_splits dest: auditResolvedPath_contained)
qed

lemma no_value_flags:
  "key \<notin> set PATTERN_FIRST_COMMANDS \<Longrightarrow> PATH_VALUE_FLAGS key = [] \<and> PATTERN_VALUE_FLAGS key = []"
  by (simp add: PATTERN_FIRST_COMMANDS_def PATH_VALUE_FLAGS_def PATTERN_VALUE_FLAGS_def)

lemma auditPathArgs_contained:
  assumes "auditPathArgs env key argv workdir = Safe" "key \<noteq> ''find''"
    "key \<notin> set NO_PATH_ARG_COMMANDS" "key \<notin> set PATTERN_FIRST_COMMANDS"
    "arg \<in> set (operand_args (tl argv) False)"
  shows "path_contained env workdir arg"
  using assms no_value_flags [of key]
  by (auto simp: auditPathArgs_def intro: audit_paths_loop_contained)

lemma auditExactOptions_iff:
  "auditExactOptions argv policy = Safe \<longleftrightarrow> exact_args policy False (tl argv)"
  unfolding auditExactOptions_def
  using audit_exact_loop_sound audit_exact_loop_complete by blast

text \<open>The starting points of a \<open>find\<close> command: what precedes the first option or expression.\<close>

definition find_starts :: "string list \<Rightarrow> string list" where
  "find_starts args =
     takeWhile (\<lambda>a. \<not> starts_with a ''-'' \<and> a \<noteq> ''!'' \<and> a \<noteq> ''('')
       (dropWhile (\<lambda>a. a = ''-H'' \<or> a = ''-L'' \<or> a = ''-P'') args)"

lemma find_starts_loop_saw:
  "audit_find_paths_loop env workdir args True = Safe \<Longrightarrow>
   a \<in> set (takeWhile (\<lambda>a. \<not> starts_with a ''-'' \<and> a \<noteq> ''!'' \<and> a \<noteq> ''('') args) \<Longrightarrow>
   path_contained env workdir a"
  by (induction args) (auto split: if_splits dest: auditResolvedPath_contained)

lemma find_starts_loop:
  "audit_find_paths_loop env workdir args False = Safe \<Longrightarrow> a \<in> set (find_starts args) \<Longrightarrow>
   path_contained env workdir a"
proof (induction args)
  case (Cons x xs)
  show ?case
  proof (cases "x = ''-H'' \<or> x = ''-L'' \<or> x = ''-P''")
    case True
    then show ?thesis using Cons by (auto simp: find_starts_def split: if_splits)
  next
    case False
    then show ?thesis
      using Cons.prems find_starts_loop_saw [of env workdir xs a]
      by (auto simp: find_starts_def split: if_splits dest: auditResolvedPath_contained)
  qed
qed (simp add: find_starts_def)

text \<open>
  The path operands of a command line: the starting points of \<open>find\<close>; for the other commands the
  operands, without the first one (the pattern, or the script of \<open>sed\<close>) where the pattern comes first.
  A pattern can also be the value of an option; a command line with such an option is left out here.
\<close>

definition path_operands :: "string \<Rightarrow> string list \<Rightarrow> string list" where
  "path_operands key args =
     (if key = ''find'' then find_starts args
      else if key \<notin> set PATTERN_FIRST_COMMANDS then operand_args args False
      else if list_ex (\<lambda>a. list_ex (starts_with a) (PATH_VALUE_FLAGS key @ PATTERN_VALUE_FLAGS key)) args
      then []
      else tl (operand_args args False))"

lemma matchFlagValue_None:
  "\<not> list_ex (starts_with a) flags \<Longrightarrow> matchFlagValue a nxt flags = None"
  by (induction flags) (auto simp: starts_with_iff intro: append_prefixD)

lemma audit_paths_loop_operands:
  assumes "\<not> list_ex (\<lambda>a. list_ex (starts_with a) (PATH_VALUE_FLAGS key @ PATTERN_VALUE_FLAGS key)) args"
  shows "audit_paths_loop env workdir key args skipped ended = Safe \<Longrightarrow>
    arg \<in> set (if skipped then operand_args args ended else tl (operand_args args ended)) \<Longrightarrow>
    path_contained env workdir arg"
  using assms
proof (induction args arbitrary: skipped ended)
  case (Cons a rest)
  then have "matchFlagValue a nxt (PATH_VALUE_FLAGS key) = None"
    "matchFlagValue a nxt (PATTERN_VALUE_FLAGS key) = None" for nxt
    by (auto intro!: matchFlagValue_None)
  then show ?case using Cons
    by (cases skipped) (auto split: if_splits dest: auditResolvedPath_contained)
qed (simp split: if_splits)

lemma path_operands_contained:
  assumes "auditPathArgs env key argv workdir = Safe" "key \<notin> set NO_PATH_ARG_COMMANDS"
    and "arg \<in> set (path_operands key (tl argv))"
  shows "path_contained env workdir arg"
proof (cases "key = ''find'' \<or> key \<notin> set PATTERN_FIRST_COMMANDS")
  case True
  then show ?thesis using assms auditPathArgs_contained [of env key argv workdir arg]
    by (auto simp: path_operands_def auditPathArgs_def auditFindPaths_def intro: find_starts_loop split: if_splits)
next
  case False
  then show ?thesis using assms audit_paths_loop_operands [of key "tl argv" env workdir False False arg]
    by (auto simp: path_operands_def auditPathArgs_def split: if_splits)
qed

lemma not_trusted_win32: "\<not> isTrustedExecutable env key Win32"
  by (simp add: isTrustedExecutable_def)

lemma sed_n_arg_iff:
  "sed_n_arg arg \<longleftrightarrow>
     (\<exists>d. d \<noteq> [] \<and> list_all is_digit d \<and> arg = d @ ''p'') \<or>
     (\<exists>a b. a \<noteq> [] \<and> b \<noteq> [] \<and> list_all is_digit a \<and> list_all is_digit b \<and>
            arg = a @ '','' @ b @ ''p'')"
  (is "_ \<longleftrightarrow> ?one \<or> ?two")
proof
  let ?d = "takeWhile is_digit arg" and ?r = "dropWhile is_digit arg"
  have arg: "?d @ ?r = arg" and dd: "list_all is_digit ?d"
    by (auto simp: list_all_iff dest: set_takeWhileD)
  assume s: "sed_n_arg arg"
  show "?one \<or> ?two"
  proof (cases "?r = ''p''")
    case True
    with arg have "arg = ?d @ ''p''" by simp
    then show ?thesis using s dd by (auto simp: sed_n_arg_def Let_def)
  next
    case False
    let ?b = "takeWhile is_digit (tl ?r)"
    from False s have c: "starts_with ?r '',''" "?b \<noteq> []" "dropWhile is_digit (tl ?r) = ''p''"
      by (auto simp: sed_n_arg_def Let_def)
    then have "?r = '','' @ ?b @ ''p''"
      by (auto simp: starts_with_iff) (metis takeWhile_dropWhile_id)
    then have "arg = ?d @ '','' @ ?b @ ''p''" using arg by metis
    moreover have "list_all is_digit ?b" by (auto simp: list_all_iff dest: set_takeWhileD)
    moreover have "?d \<noteq> []" using s by (auto simp: sed_n_arg_def Let_def)
    ultimately show ?thesis using c(2) dd by blast
  qed
next
  have nd: "\<not> is_digit CHR ''p''" "\<not> is_digit CHR '',''" by (simp_all add: is_digit_def)
  have tw: "takeWhile is_digit (d @ c # r) = d \<and> dropWhile is_digit (d @ c # r) = c # r"
    if "list_all is_digit d" "\<not> is_digit c" for d c r
    using that by (auto simp: list_all_iff takeWhile_append dropWhile_append)
  assume "?one \<or> ?two"
  then show "sed_n_arg arg"
    using tw nd by (auto simp: sed_n_arg_def Let_def)
qed

section \<open>Properties\<close>

text \<open>
  C29: \<open>auditExactOptions\<close> accepts exactly the argument lists of the reference grammar: operands,
  exact long options with or without a value, clusters of boolean short options, and short options
  with an attached or separate value; every other spelling is rejected.
\<close>

theorem exact_options_grammar:
  "auditExactOptions argv policy = Safe \<longleftrightarrow> exact_args policy False (tl argv)"
  by (rule auditExactOptions_iff)

text \<open>
  the \<open>sed\<close> audit accepts only \<open>sed -n\<close> followed by a print command that is a line number or a
  range of line numbers, and at most one file.
\<close>

theorem sed_audit_prints_lines:
  assumes "auditSed argv = Safe"
  shows "\<exists>cmd d p files. argv = cmd # ''-n'' # (d @ p) # files \<and> length files \<le> 1 \<and>
           d \<noteq> [] \<and> list_all is_digit d \<and>
           (p = ''p'' \<or> (\<exists>b. b \<noteq> [] \<and> list_all is_digit b \<and> p = '','' @ b @ ''p''))"
proof -
  obtain arg where a: "at argv 2 = Some arg" "length argv \<le> 4" "at argv 1 = Some ''-n''"
    "sed_n_arg arg"
    using assms by (auto simp: auditSed_def split: option.splits if_splits)
  then obtain cmd rest where "argv = cmd # ''-n'' # arg # rest" "length rest \<le> 1"
    by (cases argv; cases "tl argv"; cases "tl (tl argv)") (auto simp: at_Some)
  moreover from a(4) consider d where "d \<noteq> []" "list_all is_digit d" "arg = d @ ''p''"
    | d b where "d \<noteq> []" "b \<noteq> []" "list_all is_digit d" "list_all is_digit b"
        "arg = d @ '','' @ b @ ''p''"
    by (auto simp: sed_n_arg_iff)
  ultimately show ?thesis by cases metis+
qed

theorem sed_audit_prints_lines_witness:
  "\<exists>cmd d p files. [''sed'', ''-n'', ''10,20p'', ''a.txt''] = cmd # ''-n'' # (d @ p) # files \<and>
     length files \<le> 1 \<and> d \<noteq> [] \<and> list_all is_digit d \<and>
     (p = ''p'' \<or> (\<exists>b. b \<noteq> [] \<and> list_all is_digit b \<and> p = '','' @ b @ ''p''))"
  by (rule sed_audit_prints_lines) code_simp

end
