(* ===== verification/BashClassify.thy ===== *)
theory BashClassify
  imports BashAudit
begin

text \<open>
  The shell-command classifier itself (\<open>compound.ts\<close> and \<open>index.ts\<close> of
  \<open>packages/runtime/src/bash/classifier/\<close>): the split of a tokenized script into command segments,
  the verdict on one segment, and the verdict on the script. A script classified \<open>KnownSafe\<close> runs
  without asking the user, so the theorems say what such a script can and cannot contain.
\<close>

datatype command_classification = KnownSafe | Dangerous | Unknown

section \<open>The verdict on a segment\<close>

definition classifySegment ::
  "fs_env \<Rightarrow> string list \<Rightarrow> platform \<Rightarrow> string \<Rightarrow> command_classification" where
  "classifySegment env argv platform workdir =
     (case argv of
        [] \<Rightarrow> Unknown
      | argv0 # _ \<Rightarrow>
          if isDangerous argv platform then Dangerous
          else if CHR ''/'' \<in> set argv0 \<or> CHR 0x5C \<in> set argv0 then Unknown
          else
            (let key = executableLookupKey argv0 platform in
             if \<not> isTrustedExecutable env key platform then Unknown
             else if auditPathArgs env key argv workdir \<noteq> Safe then Unknown
             else if key = ''git'' then
               (if auditGit argv workdir = Safe then KnownSafe else Unknown)
             else if FLAG_AUDITORS key \<noteq> None then
               (if auditFlags key argv = Safe then KnownSafe else Unknown)
             else if isSafeExecutable key platform then KnownSafe
             else Unknown))"

section \<open>The verdict on a script\<close>

text \<open>The loop over the lexemes, with \<open>segments\<close>, \<open>separators\<close> and \<open>current\<close>.\<close>

fun split_segments ::
  "lexeme list \<Rightarrow> string list list \<Rightarrow> operator list \<Rightarrow> string list \<Rightarrow>
   string list list \<times> operator list" where
  "split_segments [] segments separators current = (segments @ [current], separators)"
| "split_segments (Op oper # lexemes) segments separators current =
     split_segments lexemes (segments @ [current]) (separators @ [oper]) []"
| "split_segments (Word w # lexemes) segments separators current =
     split_segments lexemes segments separators (current @ [w])"

text \<open>
  The segments of a script, \<open>None\<close> where \<open>classifyScript\<close> returns \<open>"unknown"\<close> before looking at
  any of them: an empty segment, except the one after a final \<open>;\<close>.
\<close>

definition script_segments :: "lexeme list \<Rightarrow> string list list option" where
  "script_segments lexemes =
     (let (segments, separators) = split_segments lexemes [] [] [];
          segments' =
            (if last segments = [] \<and> separators \<noteq> [] \<and> last separators = Semi
             then butlast segments else segments)
      in if segments' = [] \<or> list_ex (\<lambda>segment. segment = []) segments' then None
         else Some segments')"

text \<open>The final loop, with \<open>allSafe\<close>.\<close>

fun verdict_loop ::
  "fs_env \<Rightarrow> platform \<Rightarrow> string \<Rightarrow> string list list \<Rightarrow> bool \<Rightarrow> command_classification" where
  "verdict_loop env platform workdir [] allSafe = (if allSafe then KnownSafe else Unknown)"
| "verdict_loop env platform workdir (segment # segments) allSafe =
     (case classifySegment env segment platform workdir of
        Dangerous \<Rightarrow> Dangerous
      | KnownSafe \<Rightarrow> verdict_loop env platform workdir segments allSafe
      | Unknown \<Rightarrow> verdict_loop env platform workdir segments False)"

definition classifyScript ::
  "fs_env \<Rightarrow> string \<Rightarrow> platform \<Rightarrow> string \<Rightarrow> command_classification" where
  "classifyScript env script platform workdir =
     (if containsDangerousMetachar script \<or> containsUnquotedGlob script then Unknown
      else (case tokenizeScript script of
              None \<Rightarrow> Unknown
            | Some lexemes \<Rightarrow>
                (case script_segments lexemes of
                   None \<Rightarrow> Unknown
                 | Some segments \<Rightarrow> verdict_loop env platform workdir segments True)))"

section \<open>Lemmas\<close>

text \<open>The argument vectors the classifier examines for a script that passes its textual guards.\<close>

definition admitted_segments :: "string \<Rightarrow> string list list option" where
  "admitted_segments script =
     (if containsDangerousMetachar script \<or> containsUnquotedGlob script then None
      else Option.bind (tokenizeScript script) script_segments)"

lemma classifyScript_admitted:
  "classifyScript env script platform workdir =
     (case admitted_segments script of
        None \<Rightarrow> Unknown
      | Some segments \<Rightarrow> verdict_loop env platform workdir segments True)"
  by (auto simp: classifyScript_def admitted_segments_def split: option.splits)

lemma verdict_loop_safe_iff:
  "verdict_loop env platform workdir segments allSafe = KnownSafe \<longleftrightarrow>
     allSafe \<and> (\<forall>seg \<in> set segments. classifySegment env seg platform workdir = KnownSafe)"
  by (induction segments arbitrary: allSafe) (auto split: command_classification.splits)

lemma verdict_loop_dangerous_iff:
  "verdict_loop env platform workdir segments allSafe = Dangerous \<longleftrightarrow>
     (\<exists>seg \<in> set segments. classifySegment env seg platform workdir = Dangerous)"
  by (induction segments arbitrary: allSafe) (auto split: command_classification.splits)

lemma classifySegment_dangerous_iff:
  "classifySegment env argv platform workdir = Dangerous \<longleftrightarrow> isDangerous argv platform"
  by (cases argv) (simp_all add: classifySegment_def Let_def del: isDangerous.simps(2))

definition words_of :: "lexeme list \<Rightarrow> string list" where
  "words_of lexemes = concat (map (\<lambda>l. case l of Word w \<Rightarrow> [w] | Op _ \<Rightarrow> []) lexemes)"

lemma words_of_set: "w \<in> set (words_of lexemes) \<longleftrightarrow> Word w \<in> set lexemes"
  by (induction lexemes) (auto simp: words_of_def split: lexeme.splits)

text \<open>The split neither loses nor reorders words.\<close>

lemma split_segments_concat:
  "concat (fst (split_segments lexemes segs seps cur)) = concat segs @ cur @ words_of lexemes"
  by (induction lexemes segs seps cur rule: split_segments.induct) (simp_all add: words_of_def)

lemma concat_butlast_Nil: "xs \<noteq> [] \<Longrightarrow> last xs = [] \<Longrightarrow> concat (butlast xs) = concat xs"
  by (induction xs) auto

lemma split_segments_fst_nonempty: "fst (split_segments lexemes segs seps cur) \<noteq> []"
  by (induction lexemes segs seps cur rule: split_segments.induct) simp_all

lemma script_segments_concat:
  assumes "script_segments lexemes = Some segs"
  shows "concat segs = words_of lexemes"
proof -
  obtain segs' seps' where s: "split_segments lexemes [] [] [] = (segs', seps')"
    by (cases "split_segments lexemes [] [] []")
  have "concat segs' = words_of lexemes" "segs' \<noteq> []"
    using split_segments_concat [of lexemes "[]" "[]" "[]"]
      split_segments_fst_nonempty [of lexemes "[]" "[]" "[]"] s by simp_all
  then show ?thesis
    using assms s concat_butlast_Nil [of segs']
    by (auto simp: script_segments_def Let_def split: if_splits)
qed

lemma script_segments_words:
  assumes "script_segments lexemes = Some segs" "seg \<in> set segs" "w \<in> set seg"
  shows "Word w \<in> set lexemes"
  using assms script_segments_concat [OF assms(1)] words_of_set [of w lexemes]
  by (metis UN_I set_concat)

lemma admitted_words:
  assumes "admitted_segments script = Some segs" "seg \<in> set segs" "w \<in> set seg"
  shows "set w \<subseteq> set script \<and> \<not> containsDangerousMetachar script"
proof -
  obtain ls where "tokenizeScript script = Some ls" "script_segments ls = Some segs"
    and m: "\<not> containsDangerousMetachar script"
    using assms(1) by (auto simp: admitted_segments_def bind_eq_Some_conv split: if_splits)
  then show ?thesis
    using script_segments_words assms(2,3) tokenizeScript_chars by blast
qed

lemma script_segments_nonempty:
  "script_segments lexemes = Some segs \<Longrightarrow> segs \<noteq> [] \<and> [] \<notin> set segs"
  by (cases "split_segments lexemes [] [] []")
    (auto simp: script_segments_def Let_def list_ex_iff simp del: butlast_append split: if_splits)

lemma admitted_nonempty:
  "admitted_segments script = Some segs \<Longrightarrow> segs \<noteq> [] \<and> [] \<notin> set segs"
  by (auto simp: admitted_segments_def bind_eq_Some_conv dest: script_segments_nonempty
        split: if_splits)

lemma lookup_key_plain:
  "platform \<noteq> Win32 \<Longrightarrow> CHR ''/'' \<notin> set a \<Longrightarrow> CHR 0x5C \<notin> set a \<Longrightarrow>
   executableLookupKey a platform = a"
  by (simp add: executableLookupKey_def basename_plain)

text \<open>What a safe segment is: one conjunct per gate of \<open>classifySegment\<close>.\<close>

lemma classifySegment_safe:
  assumes "classifySegment env argv platform workdir = KnownSafe"
  obtains key args where
    "argv = key # args" "platform \<noteq> Win32" "CHR ''/'' \<notin> set key"
    "isTrustedExecutable env key platform" "auditPathArgs env key argv workdir = Safe"
    "auditFlags key argv = Safe" "key \<noteq> ''git''" "\<not> isDangerous argv platform"
    "FLAG_AUDITORS key \<noteq> None \<or> isSafeExecutable key platform"
proof -
  obtain argv0 args where argv: "argv = argv0 # args"
    using assms by (auto simp: classifySegment_def split: list.splits)
  let ?key = "executableLookupKey argv0 platform"
  have w: "platform \<noteq> Win32"
    using assms by (auto simp: classifySegment_def argv Let_def not_trusted_win32 split: if_splits)
  have sl: "CHR ''/'' \<notin> set argv0" "CHR 0x5C \<notin> set argv0"
    using assms by (auto simp: classifySegment_def argv split: if_splits)
  have key: "?key = argv0" using w sl by (rule lookup_key_plain)
  show thesis
  proof (rule that [of argv0 args])
    show "argv = argv0 # args" "platform \<noteq> Win32" "CHR ''/'' \<notin> set argv0"
      using argv w sl by auto
  qed (use assms key in
    \<open>auto simp: classifySegment_def argv Let_def auditGit_def auditFlags_def split: if_splits\<close>)
qed

lemma classifySegment_safeI:
  assumes "platform \<noteq> Win32" "CHR ''/'' \<notin> set key" "CHR 0x5C \<notin> set key"
    "isTrustedExecutable env key platform" "auditPathArgs env key (key # args) workdir = Safe"
    "auditFlags key (key # args) = Safe" "key \<noteq> ''git''" "\<not> isDangerous (key # args) platform"
    "FLAG_AUDITORS key \<noteq> None \<or> isSafeExecutable key platform"
  shows "classifySegment env (key # args) platform workdir = KnownSafe"
  using assms lookup_key_plain [OF assms(1-3)]
  by (auto simp: classifySegment_def Let_def simp del: isDangerous.simps)

section \<open>A workspace to evaluate the classifier in\<close>

text \<open>A Linux machine without links, the workspace \<open>/w\<close>, and the usual programs in \<open>/usr/bin\<close>.\<close>

definition plain_env :: fs_env where
  "plain_env =
     \<lparr>currentDir = ''/w'', accessX = (\<lambda>p. starts_with p ''/usr/bin/''), lstatOk = (\<lambda>p. True),
      realpath = Some\<rparr>"

text \<open>The gates a segment passes, as one predicate.\<close>

definition safe_segment :: "fs_env \<Rightarrow> platform \<Rightarrow> string \<Rightarrow> string list \<Rightarrow> bool" where
  "safe_segment env platform workdir argv =
     (case argv of
        [] \<Rightarrow> False
      | key # args \<Rightarrow>
          CHR ''/'' \<notin> set key \<and> CHR 0x5C \<notin> set key \<and> key \<noteq> ''git'' \<and>
          \<not> isDangerous argv platform \<and> isTrustedExecutable env key platform \<and>
          auditPathArgs env key argv workdir = Safe \<and> auditFlags key argv = Safe \<and>
          (FLAG_AUDITORS key \<noteq> None \<or> isSafeExecutable key platform))"

lemma classifySegment_safe_iff:
  "classifySegment env argv platform workdir = KnownSafe \<longleftrightarrow>
     platform \<noteq> Win32 \<and> safe_segment env platform workdir argv"
proof
  assume a: "classifySegment env argv platform workdir = KnownSafe"
  then have "argv \<noteq> [] \<and> CHR 0x5C \<notin> set (hd argv)"
    by (auto simp: classifySegment_def split: list.splits if_splits)
  with a show "platform \<noteq> Win32 \<and> safe_segment env platform workdir argv"
    by (elim classifySegment_safe) (auto simp: safe_segment_def simp del: isDangerous.simps)
next
  assume "platform \<noteq> Win32 \<and> safe_segment env platform workdir argv"
  then show "classifySegment env argv platform workdir = KnownSafe"
    by (auto simp: safe_segment_def simp del: isDangerous.simps split: list.splits
          intro!: classifySegment_safeI)
qed

section \<open>Properties\<close>

text \<open>
  C24: a script runs without confirmation exactly when it passes the textual guards, splits into
  non-empty segments, and every segment is a bare name of a trusted executable, not git, not a
  dangerous deletion, whose option audit and path audit accept and which is listed.
\<close>

theorem known_safe_iff_gates:
  "classifyScript env script platform workdir = KnownSafe \<longleftrightarrow>
     (\<exists>segs. admitted_segments script = Some segs \<and>
        (\<forall>argv \<in> set segs. platform \<noteq> Win32 \<and> safe_segment env platform workdir argv))"
  by (simp add: classifyScript_admitted verdict_loop_safe_iff classifySegment_safe_iff
        split: option.splits)

theorem known_safe_iff_gates_witness:
  "classifyScript plain_env ''ls -l src | wc -l'' Linux ''/w'' = KnownSafe"
proof (rule known_safe_iff_gates [THEN iffD2], intro exI conjI)
  show "admitted_segments ''ls -l src | wc -l'' = Some [[''ls'', ''-l'', ''src''], [''wc'', ''-l'']]"
    by code_simp
  show "\<forall>argv \<in> set [[''ls'', ''-l'', ''src''], [''wc'', ''-l'']].
          Linux \<noteq> Win32 \<and> safe_segment plain_env Linux ''/w'' argv"
    by code_simp
qed

text \<open>
  C28: In a script that runs without confirmation, every path operand of a command that takes paths
  resolves, links followed, to a path below the workspace; it is neither absolute, nor home-relative, nor
  does it climb with \<open>..\<close>. The path operands are the starting points of a \<open>find\<close>, the operands after
  the first of a pattern-first command (\<open>grep\<close>, \<open>rg\<close>, \<open>sed\<close>) none of whose arguments begins like an
  option that gives a pattern or a file of patterns, and the operands of every other command. Nothing is said
  of the pattern-first commands with such an option: see \<open>label_value_hides_escaping_operand\<close>.
\<close>

theorem known_safe_operands_contained:
  assumes "classifyScript env script platform workdir = KnownSafe"
    and "admitted_segments script = Some segs" and "key # args \<in> set segs"
    and "key \<notin> set NO_PATH_ARG_COMMANDS" and "arg \<in> set (path_operands key args)"
  shows "path_contained env workdir arg"
proof -
  have "classifySegment env (key # args) platform workdir = KnownSafe"
    using assms(1-3) by (auto simp: classifyScript_admitted verdict_loop_safe_iff)
  then have "auditPathArgs env key (key # args) workdir = Safe"
    by (auto simp: classifySegment_safe_iff safe_segment_def)
  from path_operands_contained [OF this assms(4)] show ?thesis using assms(5) by simp
qed

theorem known_safe_operands_contained_witness:
  "path_contained plain_env ''/w'' ''src/main.ts''"
proof (rule known_safe_operands_contained)
  show "classifyScript plain_env ''grep -n main src/main.ts; pwd'' Linux ''/w'' = KnownSafe"
    by code_simp
  show "admitted_segments ''grep -n main src/main.ts; pwd'' =
      Some [[''grep'', ''-n'', ''main'', ''src/main.ts''], [''pwd'']]"
    by code_simp
  show "''grep'' # [''-n'', ''main'', ''src/main.ts'']
      \<in> set [[''grep'', ''-n'', ''main'', ''src/main.ts''], [''pwd'']]"
    by simp
  show "''grep'' \<notin> set NO_PATH_ARG_COMMANDS" by code_simp
  show "''src/main.ts'' \<in> set (path_operands ''grep'' [''-n'', ''main'', ''src/main.ts''])" by code_simp
qed

text \<open>
  a script is dangerous exactly when it passes the textual guards, splits into non-empty
  segments, and one of the segments is a forced deletion, possibly behind \<open>sudo\<close>; the position of
  the segment and the verdicts on the others do not matter.
\<close>

theorem dangerous_iff_segment:
  "classifyScript env script platform workdir = Dangerous \<longleftrightarrow>
     (\<exists>segs argv. admitted_segments script = Some segs \<and> argv \<in> set segs \<and>
        isDangerous argv platform)"
  by (auto simp: classifyScript_admitted verdict_loop_dangerous_iff classifySegment_dangerous_iff
        simp del: isDangerous.simps split: option.splits)

text \<open>
  the two audits read \<open>grep\<close> options differently. The option policy lets \<open>--label\<close> take the
  next argument whatever it is; the path audit does not know \<open>--label\<close>, reads that next argument
  \<open>-e\<close> as an option and exempts the path after it as a pattern. The file \<open>/etc/passwd\<close> is then an
  operand of the command, outside the workspace, in a script classified as safe.
\<close>

theorem label_value_hides_escaping_operand:
  "classifyScript plain_env ''grep root --label -e /etc/passwd'' Linux ''/w'' = KnownSafe \<and>
   admitted_segments ''grep root --label -e /etc/passwd'' =
     Some [[''grep'', ''root'', ''--label'', ''-e'', ''/etc/passwd'']] \<and>
   ''--label'' \<in> set (valueLong GREP_POLICY) \<and>
   isEscapingPathArg ''/etc/passwd'' \<and>
   classifyScript plain_env ''grep root /etc/passwd'' Linux ''/w'' = Unknown"
proof (intro conjI)
  show "classifyScript plain_env ''grep root --label -e /etc/passwd'' Linux ''/w'' = KnownSafe"
    by code_simp
  show "admitted_segments ''grep root --label -e /etc/passwd'' =
     Some [[''grep'', ''root'', ''--label'', ''-e'', ''/etc/passwd'']]"
    by code_simp
  show "''--label'' \<in> set (valueLong GREP_POLICY)" by code_simp
  show "isEscapingPathArg ''/etc/passwd''" by code_simp
  show "classifyScript plain_env ''grep root /etc/passwd'' Linux ''/w'' = Unknown" by code_simp
qed

end
