(* ===== verification/SchedCalendar.thy ===== *)
theory SchedCalendar
  imports Prelude
begin

text \<open>
  The calendar arithmetic of the scheduler (\<open>packages/runtime/src/scheduler/calendar.ts\<close>): civil
  times of a time zone, the search for the instant at which a civil time occurs, the next occurrence
  of a daily or weekly rule, and local start times. Instants and civil times are milliseconds, kept
  as integers. JavaScript's \<open>Date\<close> arithmetic is written out (proleptic Gregorian days, day and
  time overflow normalised); the time-zone database behind \<open>Intl.DateTimeFormat\<close> is the
  parameter \<open>formatToParts\<close>. Error texts are constructors.
\<close>

section \<open>JavaScript dates\<close>

definition DAY_MS :: int where
  "DAY_MS = 86400000"

definition HOUR_MS :: int where
  "HOUR_MS = 3600000"

definition MINUTE_MS :: int where
  "MINUTE_MS = 60000"

text \<open>Days from 1970-01-01 to the first day of year \<open>y\<close>, and to the first day of its month \<open>m\<close>
  (counted from 0), as the language standard defines them.\<close>

definition day_from_year :: "int \<Rightarrow> int" where
  "day_from_year y =
     365 * (y - 1970) + (y - 1969) div 4 - (y - 1901) div 100 + (y - 1601) div 400"

definition leap_year :: "int \<Rightarrow> bool" where
  "leap_year y = (y mod 4 = 0 \<and> (y mod 100 \<noteq> 0 \<or> y mod 400 = 0))"

definition month_lengths :: "int \<Rightarrow> int list" where
  "month_lengths y = [31, if leap_year y then 29 else 28, 31, 30, 31, 30, 31, 31, 30, 31, 30, 31]"

definition make_day :: "int \<Rightarrow> int \<Rightarrow> int \<Rightarrow> int" where
  "make_day year month date =
     (let y = year + month div 12; m = nat (month mod 12)
      in day_from_year y + sum_list (take m (month_lengths y)) + (date - 1))"

text \<open>\<open>date.setUTCHours(h, min, s, ms)\<close> and \<open>date.getUTCDay()\<close> of a time value.\<close>

definition setUTCHours :: "int \<Rightarrow> int \<Rightarrow> int \<Rightarrow> int \<Rightarrow> int \<Rightarrow> int" where
  "setUTCHours t h mins s ms =
     t div DAY_MS * DAY_MS + (h * HOUR_MS + mins * MINUTE_MS + s * 1000 + ms)"

definition getUTCDay :: "int \<Rightarrow> int" where
  "getUTCDay t = (t div DAY_MS + 4) mod 7"

section \<open>Civil times of a zone\<close>

record civil_parts =
  cp_year :: int
  cp_month :: int
  cp_day :: int
  cp_hour :: int
  cp_minute :: int
  cp_second :: int

text \<open>What the code uses of \<open>Intl.DateTimeFormat\<close>: the parts of an instant in a zone, the canonical
  name of a zone (\<open>None\<close> when it throws) and the zone of the host.\<close>

record intl =
  formatToParts :: "string \<Rightarrow> int \<Rightarrow> civil_parts"
  canonicalZone :: "string \<Rightarrow> string option"
  systemTimeZone :: string

definition civilMs :: "(int \<Rightarrow> civil_parts) \<Rightarrow> int \<Rightarrow> int" where
  "civilMs formatter instant =
     (let fields = formatter instant;
          date = make_day (cp_year fields) (cp_month fields - 1) (cp_day fields) * DAY_MS
      in setUTCHours date (cp_hour fields) (cp_minute fields) (cp_second fields) 0)"

text \<open>\<open>new Set(xs)\<close>: the elements in the order of their first insertion.\<close>

definition js_set :: "'a list \<Rightarrow> 'a list" where
  "js_set xs = rev (remdups (rev xs))"

lemma set_js_set [simp]: "set (js_set xs) = set xs"
  by (simp add: js_set_def)

definition sampled_offsets :: "(int \<Rightarrow> civil_parts) \<Rightarrow> int \<Rightarrow> int list" where
  "sampled_offsets formatter wallMs =
     js_set (map (\<lambda>delta. let sample = wallMs + delta * HOUR_MS in civilMs formatter sample - sample)
               [-48, -24, 0, 24, 48])"

fun first_candidate ::
  "(int \<Rightarrow> civil_parts) \<Rightarrow> int \<Rightarrow> int option \<Rightarrow> int list \<Rightarrow> int option" where
  "first_candidate formatter wallMs first [] = first"
| "first_candidate formatter wallMs first (offset # offsets) =
     (let candidate = wallMs - offset
      in first_candidate formatter wallMs
           (if civilMs formatter candidate = wallMs
               \<and> (case first of None \<Rightarrow> True | Some f \<Rightarrow> candidate < f)
            then Some candidate else first)
           offsets)"

definition firstCivilInstant :: "(int \<Rightarrow> civil_parts) \<Rightarrow> int \<Rightarrow> int option" where
  "firstCivilInstant formatter wallMs =
     first_candidate formatter wallMs None (sampled_offsets formatter wallMs)"

section \<open>Calendar rules\<close>

datatype calendar_schedule =
    Daily (cal_time: string) (cal_zone: string)
  | Weekly (cal_time: string) (cal_zone: string) (cal_weekdays: "int list")

text \<open>Errors of the calendar and trigger code, one constructor for each message.\<close>

datatype trigger_error =
    UnrecognizedDuration string
  | NotPositive
  | BelowMinimum
  | AboveMaximum
  | StartAtFormat
  | StartAtNotADate
  | StartAtSkippedByZone
  | StartAtNotFuture
  | StartAtPassed
  | NoCalendarInstant
  | SchemaIssue
  | TriggerNotJson

definition digit_value :: "char \<Rightarrow> int option" where
  "digit_value c =
     (let n = of_char c :: nat in if 48 \<le> n \<and> n \<le> 57 then Some (int n - 48) else None)"

definition is_digit :: "char \<Rightarrow> bool" where
  "is_digit c = (digit_value c \<noteq> None)"

text \<open>\<open>Number(s)\<close> and \<open>parseInt(s, 10)\<close> of a string of digits.\<close>

fun digits_acc :: "int \<Rightarrow> string \<Rightarrow> int" where
  "digits_acc n [] = n"
| "digits_acc n (c # s) =
     digits_acc (10 * n + (case digit_value c of None \<Rightarrow> 0 | Some d \<Rightarrow> d)) s"

definition digits_value :: "string \<Rightarrow> int" where
  "digits_value s = digits_acc 0 s"

text \<open>\<open>clockTimeSchema\<close>: \<open>HH:mm\<close>.\<close>

definition clockTimeSchema :: "string \<Rightarrow> bool" where
  "clockTimeSchema s =
     (case s of
        [a, b, c, d, e] \<Rightarrow>
          is_digit a \<and> is_digit b \<and> c = CHR '':'' \<and> is_digit d \<and> is_digit e
          \<and> digits_value [a, b] \<le> 23 \<and> digits_value [d, e] \<le> 59
      | _ \<Rightarrow> False)"

text \<open>\<open>timeZoneSchema\<close> and the weekday list of a weekly rule: the parsed value, \<open>None\<close> when
  the schema rejects the input. The zone is trimmed; fixed offsets are refused.\<close>

definition timeZoneSchema :: "intl \<Rightarrow> string \<Rightarrow> string option" where
  "timeZoneSchema i text =
     (let value = trim text
      in if length value < 1 \<or> length value > 100 then None
         else if hd value = CHR ''+'' \<or> hd value = CHR ''-'' then None
         else (case canonicalZone i value of
                 None \<Rightarrow> None
               | Some name \<Rightarrow> if name = [] then None else Some name))"

definition weekdaysSchema :: "int list \<Rightarrow> int list option" where
  "weekdaysSchema days =
     (if (\<forall>d \<in> set days. 1 \<le> d \<and> d \<le> 7) \<and> 1 \<le> length days \<and> length days \<le> 7
      then Some (sort (js_set days)) else None)"

fun calendarScheduleSchema :: "intl \<Rightarrow> calendar_schedule \<Rightarrow> calendar_schedule option" where
  "calendarScheduleSchema i (Daily time zone) =
     (if clockTimeSchema time
      then map_option (\<lambda>z. Daily time z) (timeZoneSchema i zone) else None)"
| "calendarScheduleSchema i (Weekly time zone days) =
     (if clockTimeSchema time
      then (case timeZoneSchema i zone of
              None \<Rightarrow> None
            | Some z \<Rightarrow> map_option (\<lambda>ds. Weekly time z ds) (weekdaysSchema days))
      else None)"

section \<open>The next occurrence\<close>

definition parse_clock :: "string \<Rightarrow> int \<times> int" where
  "parse_clock time =
     (case map digits_value (split_on CHR '':'' time) of
        [] \<Rightarrow> (0, 0)
      | [h] \<Rightarrow> (h, 0)
      | h # m # _ \<Rightarrow> (h, m))"

definition weekday_number :: "int \<Rightarrow> int" where
  "weekday_number date = (if getUTCDay date = 0 then 7 else getUTCDay date)"

definition weekday_allowed :: "calendar_schedule \<Rightarrow> int \<Rightarrow> bool" where
  "weekday_allowed calendar weekday =
     (case calendar of Daily _ _ \<Rightarrow> True | Weekly _ _ days \<Rightarrow> weekday \<in> set days)"

fun next_run_loop ::
  "(int \<Rightarrow> civil_parts) \<Rightarrow> calendar_schedule \<Rightarrow> int \<Rightarrow> int \<Rightarrow> int list \<Rightarrow> trigger_error + int" where
  "next_run_loop formatter calendar local afterMs [] = Inl NoCalendarInstant"
| "next_run_loop formatter calendar local afterMs (day # days) =
     (let date = local + day * DAY_MS;
          (hour, minute) = parse_clock (cal_time calendar)
      in if \<not> weekday_allowed calendar (weekday_number date)
         then next_run_loop formatter calendar local afterMs days
         else (case firstCivilInstant formatter (setUTCHours date hour minute 0 0) of
                 Some candidate \<Rightarrow>
                   if candidate > afterMs then Inr candidate
                   else next_run_loop formatter calendar local afterMs days
               | None \<Rightarrow> next_run_loop formatter calendar local afterMs days))"

definition nextCalendarRunAtMs :: "intl \<Rightarrow> calendar_schedule \<Rightarrow> int \<Rightarrow> trigger_error + int" where
  "nextCalendarRunAtMs i calendar afterMs =
     (let formatter = formatToParts i (cal_zone calendar);
          local = setUTCHours (civilMs formatter afterMs) 0 0 0 0
      in next_run_loop formatter calendar local afterMs [0..15])"

section \<open>Local start times\<close>

text \<open>The text \<open>YYYY-MM-DDTHH:mm[:ss]\<close> as its six fields.\<close>

fun local_start_fields :: "string \<Rightarrow> (string \<times> string \<times> string \<times> string \<times> string \<times> string) option" where
  "local_start_fields (y1 # y2 # y3 # y4 # s1 # m1 # m2 # s2 # d1 # d2 # t # h1 # h2 # c # n1 # n2 # rest) =
     (if list_all is_digit [y1, y2, y3, y4, m1, m2, d1, d2, h1, h2, n1, n2]
         \<and> s1 = CHR ''-'' \<and> s2 = CHR ''-'' \<and> t = CHR ''T'' \<and> c = CHR '':''
      then (case rest of
              [] \<Rightarrow> Some ([y1, y2, y3, y4], [m1, m2], [d1, d2], [h1, h2], [n1, n2], ''00'')
            | [c2, x1, x2] \<Rightarrow>
                if c2 = CHR '':'' \<and> is_digit x1 \<and> is_digit x2
                then Some ([y1, y2, y3, y4], [m1, m2], [d1, d2], [h1, h2], [n1, n2], [x1, x2])
                else None
            | _ \<Rightarrow> None)
      else None)"
| "local_start_fields _ = None"

text \<open>\<open>Date.parse(iso)\<close> together with the comparison to \<open>toISOString()\<close>: the fields are a
  real date and time of day.\<close>

definition parse_iso_utc :: "int \<Rightarrow> int \<Rightarrow> int \<Rightarrow> int \<Rightarrow> int \<Rightarrow> int \<Rightarrow> int option" where
  "parse_iso_utc year month date h mins s =
     (if 1 \<le> month \<and> month \<le> 12 \<and> 1 \<le> date \<and> date \<le> month_lengths year ! nat (month - 1)
         \<and> 0 \<le> h \<and> h \<le> 23 \<and> 0 \<le> mins \<and> mins \<le> 59 \<and> 0 \<le> s \<and> s \<le> 59
      then Some (setUTCHours (make_day year (month - 1) date * DAY_MS) h mins s 0) else None)"

definition parseLocalStartAt :: "intl \<Rightarrow> string \<Rightarrow> string \<Rightarrow> trigger_error + int" where
  "parseLocalStartAt i text timeZone =
     (case local_start_fields text of
        None \<Rightarrow> Inl StartAtFormat
      | Some (year, month, day, hour, minute, second) \<Rightarrow>
          (case parse_iso_utc (digits_value year) (digits_value month) (digits_value day)
                  (digits_value hour) (digits_value minute) (digits_value second) of
             None \<Rightarrow> Inl StartAtNotADate
           | Some wallMs \<Rightarrow>
               (case firstCivilInstant (formatToParts i timeZone) wallMs of
                  None \<Rightarrow> Inl StartAtSkippedByZone
                | Some instant \<Rightarrow> Inr instant)))"

section \<open>Lemmas\<close>

lemmas ms_defs = DAY_MS_def HOUR_MS_def MINUTE_MS_def

lemma digit_value_range: "digit_value c = Some d \<Longrightarrow> 0 \<le> d \<and> d \<le> 9"
  by (auto simp: digit_value_def Let_def split: if_splits)

lemma digit_two: "is_digit a \<Longrightarrow> is_digit b \<Longrightarrow> 0 \<le> digits_value [a, b]"
  by (auto simp: is_digit_def digits_value_def) (smt (verit) digit_value_range)

lemma digit_not_colon: "is_digit c \<Longrightarrow> c \<noteq> CHR '':''"
  by (auto simp: is_digit_def digit_value_def)

text \<open>A time accepted by the schema is read as an hour and a minute in range.\<close>

lemma parse_clock_range:
  assumes "clockTimeSchema time" and "parse_clock time = (h, m)"
  shows "0 \<le> h \<and> h \<le> 23 \<and> 0 \<le> m \<and> m \<le> 59"
proof -
  obtain a b c d where t: "time = [a, b, CHR '':'', c, d]"
    and dig: "is_digit a" "is_digit b" "is_digit c" "is_digit d"
    and le: "digits_value [a, b] \<le> 23" "digits_value [c, d] \<le> 59"
    using assms(1) by (auto simp: clockTimeSchema_def split: list.splits)
  from dig have "split_on CHR '':'' time = [[a, b], [c, d]]"
    by (simp add: t digit_not_colon)
  with assms(2) have "h = digits_value [a, b]" "m = digits_value [c, d]"
    by (simp_all add: parse_clock_def)
  with dig le show ?thesis by (simp add: digit_two)
qed

lemma setUTCHours_div_mod:
  assumes "0 \<le> h \<and> h \<le> 23" and "0 \<le> m \<and> m \<le> 59"
  shows "setUTCHours t h m 0 0 div DAY_MS = t div DAY_MS"
    and "setUTCHours t h m 0 0 mod DAY_MS = h * HOUR_MS + m * MINUTE_MS"
  using assms by (simp_all add: setUTCHours_def ms_defs)

lemma setUTCHours_weekday:
  assumes "0 \<le> h \<and> h \<le> 23" and "0 \<le> m \<and> m \<le> 59"
  shows "weekday_number (setUTCHours t h m 0 0) = weekday_number t"
  using setUTCHours_div_mod(1) [OF assms] by (simp add: weekday_number_def getUTCDay_def)

lemma weekday_number_range: "1 \<le> weekday_number t \<and> weekday_number t \<le> 7"
proof -
  have "0 \<le> getUTCDay t" "getUTCDay t < 7" by (simp_all add: getUTCDay_def)
  then show ?thesis by (simp add: weekday_number_def)
qed

lemma weekday_number_eq: "weekday_number t = (t div DAY_MS + 3) mod 7 + 1"
proof -
  have "(if (n + 4) mod 7 = 0 then 7 else (n + 4) mod 7) = (n + 3) mod 7 + 1" for n :: int
    by presburger
  from this [of "t div DAY_MS"] show ?thesis by (simp only: weekday_number_def getUTCDay_def)
qed

lemma weekday_number_shift:
  assumes "t' div DAY_MS = t div DAY_MS + k"
  shows "weekday_number t' = (weekday_number t + k - 1) mod 7 + 1"
proof -
  have "(n + k + 3) mod 7 = ((n + 3) mod 7 + k) mod 7" for n :: int by presburger
  then show ?thesis using assms by (simp add: weekday_number_eq)
qed

subsection \<open>The instants of a civil time\<close>

definition is_first_instant :: "(int \<Rightarrow> civil_parts) \<Rightarrow> int \<Rightarrow> int \<Rightarrow> bool" where
  "is_first_instant formatter wallMs t \<longleftrightarrow>
     civilMs formatter t = wallMs \<and> (\<forall>t'. civilMs formatter t' = wallMs \<longrightarrow> t \<le> t')"

definition candidates :: "(int \<Rightarrow> civil_parts) \<Rightarrow> int \<Rightarrow> int list \<Rightarrow> int set" where
  "candidates formatter wallMs offsets =
     {t. civilMs formatter t = wallMs \<and> wallMs - t \<in> set offsets}"

lemma first_candidate_None:
  "first_candidate formatter wallMs first offsets = None
   \<longleftrightarrow> first = None \<and> candidates formatter wallMs offsets = {}"
proof (induction offsets arbitrary: first)
  case (Cons off offs)
  have "candidates formatter wallMs (off # offs)
      = (if civilMs formatter (wallMs - off) = wallMs then {wallMs - off} else {})
        \<union> candidates formatter wallMs offs"
    by (auto simp: candidates_def)
  with Cons.IH show ?case by (auto simp: Let_def split: option.splits)
qed (simp add: candidates_def)

lemma first_candidate_Some:
  "first_candidate formatter wallMs first offsets = Some c
   \<longleftrightarrow> c \<in> set_option first \<union> candidates formatter wallMs offsets
     \<and> (\<forall>x \<in> set_option first \<union> candidates formatter wallMs offsets. c \<le> x)"
proof (induction offsets arbitrary: first)
  case Nil
  then show ?case by (auto simp: candidates_def)
next
  case (Cons off offs)
  let ?x = "wallMs - off"
  have split: "candidates formatter wallMs (off # offs)
      = (if civilMs formatter ?x = wallMs then {?x} else {}) \<union> candidates formatter wallMs offs"
    by (auto simp: candidates_def)
  show ?case
  proof (cases "civilMs formatter ?x = wallMs")
    case False
    then show ?thesis using Cons.IH by (simp add: split Let_def)
  next
    case True
    then show ?thesis using Cons.IH
      by (cases first) (auto simp: split Let_def intro: order.trans)
  qed
qed

text \<open>What is asked of a time zone, in terms of the zone's clock alone. The parts carry no
  milliseconds, so the laws are about whole seconds. A zone is regular when its clock is never more
  than two days from UTC and every offset it has lasts for at least a day: each instant lies in a
  stretch of a day throughout which the offset is the same. Its setbacks are bounded when of two
  instants the later one never shows a civil time a whole day or more before that of the earlier.
  A time that a gap swallows comes back within a week when it or the same time a week later is
  shown at some instant. The zones of the time-zone database have the three, those that crossed the
  date line included.\<close>

definition zone_regular :: "(int \<Rightarrow> civil_parts) \<Rightarrow> bool" where
  "zone_regular formatter \<longleftrightarrow>
     (\<forall>t. civilMs formatter t = civilMs formatter (t - t mod 1000))
     \<and> (\<forall>t. t mod 1000 = 0 \<longrightarrow> \<bar>civilMs formatter t - t\<bar> \<le> 2 * DAY_MS)
     \<and> (\<forall>t. t mod 1000 = 0 \<longrightarrow>
          (\<exists>s. s \<le> t \<and> t < s + DAY_MS
             \<and> (\<forall>t'. t' mod 1000 = 0 \<and> s \<le> t' \<and> t' < s + DAY_MS
                  \<longrightarrow> civilMs formatter t' - t' = civilMs formatter t - t)))"

definition zone_setbacks_bounded :: "(int \<Rightarrow> civil_parts) \<Rightarrow> bool" where
  "zone_setbacks_bounded formatter \<longleftrightarrow>
     (\<forall>t t'. t mod 1000 = 0 \<and> t' mod 1000 = 0 \<and> t < t'
        \<longrightarrow> civilMs formatter t < civilMs formatter t' + DAY_MS)"

definition zone_weekly_times :: "(int \<Rightarrow> civil_parts) \<Rightarrow> bool" where
  "zone_weekly_times formatter \<longleftrightarrow>
     (\<forall>w. w mod 1000 = 0 \<longrightarrow>
        (\<exists>t. civilMs formatter t = w \<or> civilMs formatter t = w + 7 * DAY_MS))"

text \<open>The condition under which the five sampled offsets find every instant. It is not asked of a
  zone: every regular zone has it (\<open>zone_regular_sampled\<close>).\<close>

definition zone_sampled :: "(int \<Rightarrow> civil_parts) \<Rightarrow> bool" where
  "zone_sampled formatter \<longleftrightarrow>
     (\<forall>t. civilMs formatter t = civilMs formatter (t - t mod 1000)
        \<and> (t mod 1000 = 0
            \<longrightarrow> civilMs formatter t - t \<in> set (sampled_offsets formatter (civilMs formatter t))))"

lemma setUTCHours_whole: "setUTCHours t h m s 0 mod 1000 = 0"
proof -
  have "1000 dvd x * DAY_MS" "1000 dvd x * HOUR_MS" "1000 dvd x * MINUTE_MS" for x
    by (simp_all add: ms_defs dvd_mult)
  then have "1000 dvd setUTCHours t h m s 0" by (simp add: setUTCHours_def dvd_add)
  then show ?thesis by simp
qed

lemma civilMs_whole: "civilMs formatter t mod 1000 = 0"
  by (simp add: civilMs_def Let_def setUTCHours_whole)

text \<open>Whichever way a day-long stretch around an instant lies, one of the samples two days before
  to two days after the wall time falls into it: they are a day apart.\<close>

lemma sample_hits:
  fixes s t wall :: int
  assumes "s \<le> t" "t < s + DAY_MS" "\<bar>wall - t\<bar> \<le> 2 * DAY_MS"
  shows "\<exists>k \<in> {-48, -24, 0, 24, 48}. s \<le> wall + k * HOUR_MS \<and> wall + k * HOUR_MS < s + DAY_MS"
proof -
  define j where "j = (wall - s) div DAY_MS"
  have "0 \<le> (wall - s) mod DAY_MS" "(wall - s) mod DAY_MS < DAY_MS" by (simp_all add: DAY_MS_def)
  moreover have "(wall - s) mod DAY_MS = wall - s - j * DAY_MS"
    by (simp add: j_def minus_div_mult_eq_mod)
  ultimately have in_stretch: "s \<le> wall - j * DAY_MS" "wall - j * DAY_MS < s + DAY_MS" by linarith+
  then have "-3 < j" "j < 3" using assms by (simp_all add: DAY_MS_def)
  then consider "j = -2" | "j = -1" | "j = 0" | "j = 1" | "j = 2" by linarith
  then have "- 24 * j \<in> {-48, -24, 0, 24, 48}" by cases simp_all
  moreover have "wall - j * DAY_MS = wall + (- 24 * j) * HOUR_MS" by (simp add: ms_defs)
  ultimately show ?thesis using in_stretch by metis
qed

lemma zone_regular_sampled:
  assumes "zone_regular formatter"
  shows "zone_sampled formatter"
proof -
  have floor: "\<forall>t. civilMs formatter t = civilMs formatter (t - t mod 1000)"
    using assms by (simp add: zone_regular_def)
  have "civilMs formatter t - t \<in> set (sampled_offsets formatter (civilMs formatter t))"
    if t: "t mod 1000 = 0" for t
  proof -
    obtain s where s: "s \<le> t" "t < s + DAY_MS"
      "\<And>t'. t' mod 1000 = 0 \<Longrightarrow> s \<le> t' \<Longrightarrow> t' < s + DAY_MS
         \<Longrightarrow> civilMs formatter t' - t' = civilMs formatter t - t"
      using assms t unfolding zone_regular_def by metis
    have "\<bar>civilMs formatter t - t\<bar> \<le> 2 * DAY_MS" using assms t by (simp add: zone_regular_def)
    from sample_hits [OF s(1,2) this] obtain k where k: "k \<in> {-48, -24, 0, 24, 48}"
      "s \<le> civilMs formatter t + k * HOUR_MS" "civilMs formatter t + k * HOUR_MS < s + DAY_MS"
      by blast
    have "1000 dvd civilMs formatter t + k * HOUR_MS"
      by (intro dvd_add dvd_mult mod_0_imp_dvd civilMs_whole) (simp add: HOUR_MS_def)
    from s(3) [OF dvd_imp_mod_0 [OF this] k(2,3)] k(1) show ?thesis
      by (auto simp: sampled_offsets_def Let_def)
  qed
  then show ?thesis
    unfolding zone_sampled_def by (intro allI conjI impI) (rule floor [rule_format])
qed

lemma zone_sampled_first:
  assumes "zone_sampled formatter" and "civilMs formatter t = wallMs"
  shows "t - t mod 1000 \<in> candidates formatter wallMs (sampled_offsets formatter wallMs)"
proof -
  have "(t - t mod 1000) mod 1000 = 0" by (simp add: mod_diff_eq)
  with assms show ?thesis unfolding zone_sampled_def candidates_def by (metis (mono_tags, lifting) mem_Collect_eq)
qed

lemma firstCivilInstant_Some:
  assumes "zone_sampled formatter"
  shows "firstCivilInstant formatter wallMs = Some c \<longleftrightarrow> is_first_instant formatter wallMs c"
proof -
  let ?C = "candidates formatter wallMs (sampled_offsets formatter wallMs)"
  have floor: "t - t mod 1000 \<le> t" for t :: int by simp
  have C: "?C \<subseteq> {t. civilMs formatter t = wallMs}" by (auto simp: candidates_def)
  note Z = zone_sampled_first [OF assms, of _ wallMs]
  show ?thesis (is "_ \<longleftrightarrow> ?R")
  proof
    assume "firstCivilInstant formatter wallMs = Some c"
    then have c: "c \<in> ?C" "\<forall>x \<in> ?C. c \<le> x"
      by (simp_all add: firstCivilInstant_def first_candidate_Some)
    have "c \<le> t" if "civilMs formatter t = wallMs" for t
      using c(2) Z [OF that] floor [of t] by (meson order.trans)
    with c C show ?R by (auto simp: is_first_instant_def)
  next
    assume ?R
    then have c: "civilMs formatter c = wallMs" "\<And>t. civilMs formatter t = wallMs \<Longrightarrow> c \<le> t"
      by (auto simp: is_first_instant_def)
    have "c \<le> c - c mod 1000" using c(2) [of "c - c mod 1000"] Z [OF c(1)] C by blast
    then have "c - c mod 1000 = c" using floor [of c] by linarith
    with Z [OF c(1)] have "c \<in> ?C" by simp
    with c(2) C show "firstCivilInstant formatter wallMs = Some c"
      by (auto simp: firstCivilInstant_def first_candidate_Some)
  qed
qed

lemma firstCivilInstant_None:
  assumes "zone_sampled formatter"
  shows "firstCivilInstant formatter wallMs = None \<longleftrightarrow> (\<forall>t. civilMs formatter t \<noteq> wallMs)"
  using zone_sampled_first [OF assms, of _ wallMs]
  by (auto simp: firstCivilInstant_def first_candidate_None) (auto simp: candidates_def)

lemma first_instant_whole:
  assumes "zone_sampled formatter" and "is_first_instant formatter wallMs c"
  shows "c mod 1000 = 0"
proof -
  have "civilMs formatter (c - c mod 1000) = wallMs"
    using assms by (simp add: zone_sampled_def is_first_instant_def)
  then have "c \<le> c - c mod 1000" using assms(2) by (simp add: is_first_instant_def)
  then show ?thesis by (smt (verit) pos_mod_sign)
qed

text \<open>
  C31: The search for a civil time is exact in every regular zone: one whose clock is never more than
  two days from UTC and keeps each offset for at least a day. The search returns an instant precisely
  when it is the earliest instant at which the zone's clock shows the civil time, and it returns
  nothing precisely when the clock never shows it: a time inside a fold maps to its first pass, a time
  inside a gap to none. That the offsets sampled from two days before to two days after the wall time
  suffice is part of what is shown.
\<close>

theorem first_civil_instant_exact:
  assumes "zone_regular formatter"
  shows "(\<forall>c. firstCivilInstant formatter wallMs = Some c \<longleftrightarrow> is_first_instant formatter wallMs c)
    \<and> (firstCivilInstant formatter wallMs = None \<longleftrightarrow> (\<forall>t. civilMs formatter t \<noteq> wallMs))"
  using zone_regular_sampled [OF assms] by (simp add: firstCivilInstant_Some firstCivilInstant_None)

subsection \<open>The next occurrence\<close>

text \<open>The run a day of the window offers: the body of the loop.\<close>

definition slot :: "(int \<Rightarrow> civil_parts) \<Rightarrow> calendar_schedule \<Rightarrow> int \<Rightarrow> int \<Rightarrow> int \<Rightarrow> bool" where
  "slot formatter calendar local day c \<longleftrightarrow>
     (let (h, m) = parse_clock (cal_time calendar)
      in weekday_allowed calendar (weekday_number (local + day * DAY_MS))
         \<and> firstCivilInstant formatter (setUTCHours (local + day * DAY_MS) h m 0 0) = Some c)"

lemma next_run_loop_step:
  "slot formatter calendar local day c \<Longrightarrow> afterMs < c
   \<Longrightarrow> next_run_loop formatter calendar local afterMs (day # days) = Inr c"
  "(\<And>c. slot formatter calendar local day c \<Longrightarrow> c \<le> afterMs)
   \<Longrightarrow> next_run_loop formatter calendar local afterMs (day # days)
     = next_run_loop formatter calendar local afterMs days"
  by (cases "parse_clock (cal_time calendar)";
      force simp: slot_def Let_def split: option.splits)+

lemma next_run_loop_Inr:
  assumes "next_run_loop formatter calendar local afterMs days = Inr c"
  shows "\<exists>pre d post. days = pre @ d # post \<and> slot formatter calendar local d c \<and> afterMs < c
    \<and> (\<forall>d' \<in> set pre. \<forall>c'. slot formatter calendar local d' c' \<longrightarrow> c' \<le> afterMs)"
  using assms
proof (induction days)
  case (Cons day days)
  show ?case
  proof (cases "\<exists>x. slot formatter calendar local day x \<and> afterMs < x")
    case True
    with Cons.prems next_run_loop_step(1) show ?thesis
      by (metis Inr_inject append_Nil emptyE empty_set)
  next
    case False
    then have none: "\<And>x. slot formatter calendar local day x \<Longrightarrow> x \<le> afterMs" by force
    with Cons.prems have "next_run_loop formatter calendar local afterMs days = Inr c"
      by (simp add: next_run_loop_step(2) del: next_run_loop.simps)
    with Cons.IH obtain pre d post where "days = pre @ d # post" "slot formatter calendar local d c"
      "afterMs < c" "\<forall>d' \<in> set pre. \<forall>c'. slot formatter calendar local d' c' \<longrightarrow> c' \<le> afterMs"
      by blast
    with none show ?thesis by (intro exI [of _ "day # pre"]) force
  qed
qed simp

lemma next_run_loop_Inl:
  assumes "next_run_loop formatter calendar local afterMs days = Inl e" and "d \<in> set days"
    and "slot formatter calendar local d c"
  shows "c \<le> afterMs"
  using assms
proof (induction days)
  case (Cons day days)
  then have none: "\<And>x. slot formatter calendar local day x \<Longrightarrow> x \<le> afterMs"
    using next_run_loop_step(1) [of formatter calendar local day _ afterMs days]
    by (metis Inl_Inr_False not_le)
  with Cons show ?case
    by (auto simp: next_run_loop_step(2) simp del: next_run_loop.simps)
qed simp

lemma upto_split_less:
  "[0..15::int] = pre @ d # post \<Longrightarrow> d' \<in> {0..<d} \<Longrightarrow> d' \<in> set pre"
proof -
  assume a: "[0..15::int] = pre @ d # post" and d': "d' \<in> {0..<d}"
  then have "d \<in> set [0..15::int]" by simp
  with d' have "d' \<in> set [0..15::int]" by (simp only: set_upto) simp
  moreover have "sorted_wrt (<) (pre @ d # post)" using sorted_wrt_upto [of 0 "15::int"] a by simp
  ultimately show ?thesis using a d' by (auto simp: sorted_wrt_append)
qed

text \<open>What a rule asks of an instant: the zone's clock shows the rule's time on an allowed weekday,
  and the instant is the first one at which it shows that civil time.\<close>

definition occurs_at :: "(int \<Rightarrow> civil_parts) \<Rightarrow> calendar_schedule \<Rightarrow> int \<Rightarrow> bool" where
  "occurs_at formatter calendar t \<longleftrightarrow>
     (let (h, m) = parse_clock (cal_time calendar)
      in civilMs formatter t mod DAY_MS = h * HOUR_MS + m * MINUTE_MS)
     \<and> weekday_allowed calendar (weekday_number (civilMs formatter t))
     \<and> is_first_instant formatter (civilMs formatter t) t"

text \<open>In a regular zone with bounded setbacks first passes follow the civil order: a clock that is set
  back by less than a day, after a day without a change, only repeats times it has just shown.\<close>

definition zone_ordered :: "(int \<Rightarrow> civil_parts) \<Rightarrow> bool" where
  "zone_ordered formatter \<longleftrightarrow>
     (\<forall>t t'. is_first_instant formatter (civilMs formatter t) t \<and> t' < t
        \<longrightarrow> civilMs formatter t' < civilMs formatter t)"

lemma whole_less: "(a::int) mod 1000 = 0 \<Longrightarrow> b mod 1000 = 0 \<Longrightarrow> a < b \<Longrightarrow> a + 1000 \<le> b"
  using zdvd_imp_le [of 1000 "b - a"] dvd_diff [of 1000 b a] by (simp add: mod_eq_0_iff_dvd)

lemma whole_diff: "(a::int) mod 1000 = 0 \<Longrightarrow> b mod 1000 = 0 \<Longrightarrow> (a - b) mod 1000 = 0"
  by (simp add: mod_eq_0_iff_dvd dvd_diff)

lemma day_whole: "DAY_MS mod 1000 = 0"
  by (simp add: DAY_MS_def)

lemma second_before_first:
  assumes regular: "zone_regular f" and setbacks: "zone_setbacks_bounded f"
    and first: "\<And>x. civilMs f x = w \<Longrightarrow> t \<le> x"
    and v: "v mod 1000 = 0" "v \<le> t" "civilMs f v \<le> w" and w: "w mod 1000 = 0"
  shows "civilMs f (v - 1000) < w"
proof (rule ccontr)
  let ?u = "v - 1000"
  assume "\<not> civilMs f ?u < w"
  then have ge: "w \<le> civilMs f ?u" by simp
  have u: "?u mod 1000 = 0" by (rule whole_diff [OF v(1)]) simp
  obtain s where s: "s \<le> ?u" "?u < s + DAY_MS"
    "\<And>x. x mod 1000 = 0 \<Longrightarrow> s \<le> x \<Longrightarrow> x < s + DAY_MS \<Longrightarrow> civilMs f x - x = civilMs f ?u - ?u"
    using regular u unfolding zone_regular_def by metis
  have "\<not> v < s + DAY_MS" using s(3) [OF v(1)] s(1) ge v(3) by linarith
  define x where "x = ?u - (civilMs f ?u - w)"
  have whole: "x mod 1000 = 0"
    unfolding x_def by (intro whole_diff u w civilMs_whole)
  have "civilMs f ?u < civilMs f v + DAY_MS"
    using setbacks u v(1) by (simp add: zone_setbacks_bounded_def)
  then have "civilMs f ?u < w + DAY_MS" using v(3) by linarith
  then have "civilMs f ?u + 1000 \<le> w + DAY_MS"
    using whole_less [OF civilMs_whole [of f ?u], of "w + DAY_MS"] dvd_add [of 1000 w DAY_MS] w day_whole
    by (simp add: mod_eq_0_iff_dvd)
  then have "s \<le> x" using \<open>\<not> v < s + DAY_MS\<close> by (simp add: x_def)
  moreover have "x < s + DAY_MS" using ge s(2) by (simp add: x_def)
  ultimately have "civilMs f x = w" using s(3) [OF whole] by (simp add: x_def)
  from first [OF this] show False using ge v(2) by (simp add: x_def)
qed

lemma zone_regular_ordered:
  assumes "zone_regular f" and "zone_setbacks_bounded f"
  shows "zone_ordered f"
  unfolding zone_ordered_def
proof (intro allI impI, elim conjE)
  fix t t' assume first: "is_first_instant f (civilMs f t) t" and less: "t' < t"
  have t: "t mod 1000 = 0" by (rule first_instant_whole [OF zone_regular_sampled [OF assms(1)] first])
  have min: "\<And>x. civilMs f x = civilMs f t \<Longrightarrow> t \<le> x" using first by (simp add: is_first_instant_def)
  have whole: "(t - 1000 * int n) mod 1000 = 0" for n by (rule whole_diff [OF t]) simp
  have earlier: "civilMs f (t - 1000 * int n - 1000) < civilMs f t" for n
  proof (induction n)
    case 0
    then show ?case
      using second_before_first [OF assms min t order.refl order.refl civilMs_whole] by simp
  next
    case (Suc n)
    have "civilMs f (t - 1000 * int (Suc n)) \<le> civilMs f t" using Suc by (simp add: algebra_simps)
    from second_before_first [OF assms min whole _ this civilMs_whole] show ?case by simp
  qed
  let ?p = "t' - t' mod 1000"
  define n where "n = nat ((t - ?p) div 1000 - 1)"
  have "0 \<le> t' mod 1000" by simp
  with less have p: "?p mod 1000 = 0" "?p < t" by (simp_all add: mod_diff_eq)
  from whole_diff [OF t p(1)] obtain q where q: "t - ?p = 1000 * q" by auto
  with whole_less [OF p(1) t p(2)] have "1 \<le> q" by linarith
  then have "?p = t - 1000 * int n - 1000" using q by (simp add: n_def)
  then show "civilMs f t' < civilMs f t"
    using earlier [of n] assms(1) unfolding zone_regular_def by metis
qed

lemma first_instant_exists:
  assumes regular: "zone_regular f" and "civilMs f t = w"
  shows "\<exists>c. is_first_instant f w c"
proof -
  let ?m = "\<lambda>x. nat (x - (w - 2 * DAY_MS))"
  from ex_has_least_nat [of "\<lambda>x. civilMs f x = w" t ?m, OF assms(2)] obtain c where
    c: "civilMs f c = w" "\<And>x. civilMs f x = w \<Longrightarrow> ?m c \<le> ?m x" by blast
  have low: "w - 2 * DAY_MS \<le> x" if "civilMs f x = w" for x
  proof -
    have "(x - x mod 1000) mod 1000 = 0" "civilMs f (x - x mod 1000) = w"
      using that regular by (simp_all add: zone_regular_def mod_diff_eq)
    then have "\<bar>w - (x - x mod 1000)\<bar> \<le> 2 * DAY_MS" using regular unfolding zone_regular_def by metis
    moreover have "0 \<le> x mod 1000" by simp
    ultimately show ?thesis by linarith
  qed
  have "c \<le> x" if "civilMs f x = w" for x using c(2) [OF that] low [OF that] low [OF c(1)] by linarith
  with c(1) show ?thesis by (auto simp: is_first_instant_def)
qed

lemma slot_civil:
  assumes "zone_sampled formatter" and "clockTimeSchema (cal_time calendar)"
    and "local mod DAY_MS = 0" and "slot formatter calendar local day c"
  shows "occurs_at formatter calendar c"
    and "civilMs formatter c div DAY_MS = local div DAY_MS + day"
proof -
  obtain h m where hm: "parse_clock (cal_time calendar) = (h, m)" by fastforce
  from parse_clock_range [OF assms(2) hm] have r: "0 \<le> h \<and> h \<le> 23" "0 \<le> m \<and> m \<le> 59" by simp_all
  let ?w = "setUTCHours (local + day * DAY_MS) h m 0 0"
  from assms(4) hm have first: "is_first_instant formatter ?w c"
    and wd: "weekday_allowed calendar (weekday_number (local + day * DAY_MS))"
    using assms(1) by (auto simp: slot_def firstCivilInstant_Some)
  then have w: "civilMs formatter c = ?w" by (simp add: is_first_instant_def)
  show "occurs_at formatter calendar c"
    using first wd r by (simp add: occurs_at_def hm w setUTCHours_div_mod setUTCHours_weekday)
  have "(local + day * DAY_MS) div DAY_MS = local div DAY_MS + day"
    using assms(3) by (simp add: DAY_MS_def)
  then show "civilMs formatter c div DAY_MS = local div DAY_MS + day"
    using r by (simp add: w setUTCHours_div_mod)
qed

lemma occurs_at_slot:
  assumes "zone_sampled formatter" and "clockTimeSchema (cal_time calendar)"
    and "local mod DAY_MS = 0" and "occurs_at formatter calendar t"
    and "civilMs formatter t div DAY_MS = local div DAY_MS + day"
  shows "slot formatter calendar local day t"
proof -
  obtain h m where hm: "parse_clock (cal_time calendar) = (h, m)" by fastforce
  from parse_clock_range [OF assms(2) hm] have r: "0 \<le> h \<and> h \<le> 23" "0 \<le> m \<and> m \<le> 59" by simp_all
  let ?d = "local + day * DAY_MS"
  have d: "?d div DAY_MS = civilMs formatter t div DAY_MS"
    using assms(3,5) by (simp add: DAY_MS_def)
  from assms(4) hm have tod: "civilMs formatter t mod DAY_MS = h * HOUR_MS + m * MINUTE_MS"
    and wd: "weekday_allowed calendar (weekday_number (civilMs formatter t))"
    and first: "is_first_instant formatter (civilMs formatter t) t"
    by (simp_all add: occurs_at_def)
  have "setUTCHours ?d h m 0 0 = civilMs formatter t"
    using tod d div_mult_mod_eq [of "civilMs formatter t" DAY_MS]
    by (simp add: setUTCHours_def)
  moreover have "weekday_number ?d = weekday_number (civilMs formatter t)"
    using d by (simp add: weekday_number_def getUTCDay_def)
  ultimately show ?thesis
    using wd first assms(1) by (simp add: slot_def hm firstCivilInstant_Some)
qed

lemma slot_unique:
  "slot formatter calendar local d c \<Longrightarrow> slot formatter calendar local d c' \<Longrightarrow> c = c'"
  by (auto simp: slot_def split: prod.splits)

lemma local_midnight:
  "setUTCHours w 0 0 0 0 mod DAY_MS = 0" "setUTCHours w 0 0 0 0 div DAY_MS = w div DAY_MS"
  by (simp_all add: setUTCHours_def DAY_MS_def)

lemma div_day_mono: "a \<le> b \<Longrightarrow> a div DAY_MS \<le> b div DAY_MS"
  by (simp add: zdiv_mono1 DAY_MS_def)

text \<open>
  C32: In a regular zone with bounded setbacks, the next run of a calendar rule whose time is well formed
  is the least instant after the given one at which the rule occurs: the zone's clock shows the rule's
  time on an allowed weekday, for the first time when the clock shows it twice. Nothing between the
  given instant and the returned one is skipped.
\<close>

theorem next_calendar_run_least:
  assumes "zone_regular (formatToParts i (cal_zone calendar))"
    and "zone_setbacks_bounded (formatToParts i (cal_zone calendar))"
    and "clockTimeSchema (cal_time calendar)"
    and "nextCalendarRunAtMs i calendar afterMs = Inr c"
  shows "afterMs < c \<and> occurs_at (formatToParts i (cal_zone calendar)) calendar c
    \<and> (\<forall>t. afterMs < t \<and> occurs_at (formatToParts i (cal_zone calendar)) calendar t \<longrightarrow> c \<le> t)"
proof -
  let ?f = "formatToParts i (cal_zone calendar)"
  note sampled = zone_regular_sampled [OF assms(1)]
  have ordered: "zone_ordered ?f" by (rule zone_regular_ordered [OF assms(1,2)])
  define local where "local = setUTCHours (civilMs ?f afterMs) 0 0 0 0"
  have loc: "local mod DAY_MS = 0" "local div DAY_MS = civilMs ?f afterMs div DAY_MS"
    by (simp_all only: local_def local_midnight)
  from assms(4) obtain pre d post where days: "[0..15] = pre @ d # post"
    and sl: "slot ?f calendar local d c" and later: "afterMs < c"
    and pre: "\<forall>d' \<in> set pre. \<forall>c'. slot ?f calendar local d' c' \<longrightarrow> c' \<le> afterMs"
    using next_run_loop_Inr unfolding nextCalendarRunAtMs_def Let_def local_def by blast
  note c = slot_civil [OF sampled assms(3) loc(1) sl]
  have "c \<le> t" if t: "afterMs < t" "occurs_at ?f calendar t" for t
  proof (rule ccontr)
    assume less: "\<not> c \<le> t"
    define k where "k = civilMs ?f t div DAY_MS - local div DAY_MS"
    have slt: "slot ?f calendar local k t"
      by (rule occurs_at_slot [OF sampled assms(3) loc(1) t(2)]) (simp add: k_def)
    have "civilMs ?f afterMs < civilMs ?f t"
      using t ordered by (auto simp: zone_ordered_def occurs_at_def)
    then have "0 \<le> k" using div_day_mono [of "civilMs ?f afterMs" "civilMs ?f t"] loc(2) by (simp add: k_def)
    have "civilMs ?f t < civilMs ?f c"
      using less c(1) ordered by (auto simp: zone_ordered_def occurs_at_def)
    then have "k \<le> d"
      using c(2) div_day_mono [of "civilMs ?f t" "civilMs ?f c"] by (simp add: k_def)
    with \<open>0 \<le> k\<close> consider "k = d" | "k \<in> set pre" using upto_split_less [OF days, of k] by fastforce
    then show False
    proof cases
      case 1
      then show False using slt sl less slot_unique by fastforce
    next
      case 2
      then show False using slt pre t(1) by force
    qed
  qed
  with later c(1) show ?thesis by blast
qed

lemma day_shift: "(t + k * DAY_MS) div DAY_MS = t div DAY_MS + k"
  by (simp add: DAY_MS_def)

lemma weekday_number_day: "weekday_number (t + k * DAY_MS) = (weekday_number t + k - 1) mod 7 + 1"
  by (rule weekday_number_shift) (rule day_shift)

text \<open>Every rule the schema accepts allows some weekday, which comes up within any seven days.\<close>

lemma weekday_hit:
  assumes "calendarScheduleSchema j raw = Some calendar"
  shows "\<exists>k. 2 \<le> k \<and> k \<le> 8 \<and> weekday_allowed calendar (weekday_number (t + k * DAY_MS))
    \<and> weekday_allowed calendar (weekday_number (t + (k + 7) * DAY_MS))"
proof -
  have "\<exists>x. 1 \<le> x \<and> x \<le> 7 \<and> weekday_allowed calendar x"
  proof (cases raw)
    case (Daily time zone)
    then show ?thesis using assms
      by (intro exI [of _ 1]) (auto simp: weekday_allowed_def split: if_splits)
  next
    case (Weekly time zone days)
    with assms obtain z ds where c: "calendar = Weekly time z ds" and "weekdaysSchema days = Some ds"
      by (auto split: if_splits option.splits)
    then have "set ds = set days" "\<forall>d \<in> set days. 1 \<le> d \<and> d \<le> 7" "days \<noteq> []"
      by (auto simp: weekdaysSchema_def split: if_splits)
    then show ?thesis unfolding c weekday_allowed_def by (cases days) auto
  qed
  then obtain x where x: "1 \<le> x" "x \<le> 7" "weekday_allowed calendar x" by blast
  define k where "k = 2 + (x - 2 - weekday_number t) mod 7"
  have "0 \<le> (x - 2 - weekday_number t) mod 7" "(x - 2 - weekday_number t) mod 7 < 7" by simp_all
  then have range: "2 \<le> k" "k \<le> 8" unfolding k_def by linarith+
  have cong: "(w + (2 + (x - 2 - w) mod 7) - 1) mod 7 + 1 = x" for w :: int
  proof -
    have "(w + 1 + (x - 2 - w) mod 7) mod 7 = (w + 1 + (x - 2 - w)) mod 7"
      by (rule mod_add_right_eq)
    then show ?thesis using x(1,2) by (simp add: algebra_simps)
  qed
  have hit: "weekday_number (t + k * DAY_MS) = x"
    by (rule trans [OF weekday_number_day]) (unfold k_def, rule cong)
  have "weekday_number (t + (k + 7) * DAY_MS) = weekday_number (t + k * DAY_MS)"
  proof -
    have "t + (k + 7) * DAY_MS = (t + k * DAY_MS) + 7 * DAY_MS" by (simp add: algebra_simps)
    then have "weekday_number (t + (k + 7) * DAY_MS)
        = (weekday_number (t + k * DAY_MS) - 1 + 7) mod 7 + 1"
      using weekday_number_day [of "t + k * DAY_MS" 7] by (simp add: algebra_simps)
    also have "\<dots> = (weekday_number (t + k * DAY_MS) - 1) mod 7 + 1" by (simp only: mod_add_self2)
    also have "\<dots> = weekday_number (t + k * DAY_MS)"
      using weekday_number_range [of "t + k * DAY_MS"] by simp
    finally show ?thesis .
  qed
  then have again: "weekday_number (t + (k + 7) * DAY_MS) = x" by (rule trans) (rule hit)
  show ?thesis
    by (intro exI [of _ k] conjI range) (simp_all only: hit again x(3))
qed

lemma day_gap:
  assumes "a div DAY_MS + 2 \<le> b div DAY_MS" and "a mod 1000 = 0" and "b mod 1000 = 0"
  shows "a + DAY_MS + 1000 \<le> b"
proof -
  obtain x where "a = 1000 * x" using assms(2) by auto
  moreover obtain y where "b = 1000 * y" using assms(3) by auto
  ultimately have xy: "a = 1000 * x" "b = 1000 * y" by simp_all
  then have "a div DAY_MS = x div 86400" "b div DAY_MS = y div 86400"
    unfolding xy DAY_MS_def by simp_all
  moreover have "y div 86400 * 86400 \<le> y" "x < (x div 86400 + 1) * 86400" by simp_all
  ultimately have "x + 86400 + 1 \<le> y" using assms(1) by linarith
  then show ?thesis using xy by (simp add: DAY_MS_def)
qed

lemma next_calendar_run_total:
  assumes "zone_regular (formatToParts i (cal_zone calendar))"
    and "zone_setbacks_bounded (formatToParts i (cal_zone calendar))"
    and "zone_weekly_times (formatToParts i (cal_zone calendar))"
    and "calendarScheduleSchema j raw = Some calendar"
  shows "\<exists>c. nextCalendarRunAtMs i calendar afterMs = Inr c"
proof (rule ccontr)
  let ?f = "formatToParts i (cal_zone calendar)"
  note sampled = zone_regular_sampled [OF assms(1)]
  define local where "local = setUTCHours (civilMs ?f afterMs) 0 0 0 0"
  have loc: "local mod DAY_MS = 0" "local div DAY_MS = civilMs ?f afterMs div DAY_MS"
    by (simp_all only: local_def local_midnight)
  assume "\<nexists>c. nextCalendarRunAtMs i calendar afterMs = Inr c"
  then obtain e where "nextCalendarRunAtMs i calendar afterMs = Inl e"
    by (cases "nextCalendarRunAtMs i calendar afterMs") auto
  then have none: "\<And>d c. d \<in> {0..15} \<Longrightarrow> slot ?f calendar local d c \<Longrightarrow> c \<le> afterMs"
    using next_run_loop_Inl [of ?f calendar local afterMs "[0..15]"]
    by (fastforce simp: nextCalendarRunAtMs_def local_def Let_def)
  have time: "clockTimeSchema (cal_time calendar)"
    using assms(4) by (cases raw) (auto split: if_splits option.splits)
  obtain k where k: "2 \<le> k" "k \<le> 8"
    "weekday_allowed calendar (weekday_number (local + k * DAY_MS))"
    "weekday_allowed calendar (weekday_number (local + (k + 7) * DAY_MS))"
    using weekday_hit [OF assms(4)] by blast
  obtain h m where hm: "parse_clock (cal_time calendar) = (h, m)" by fastforce
  note r = parse_clock_range [OF time hm]
  let ?w = "setUTCHours (local + k * DAY_MS) h m 0 0"
  have next_week: "setUTCHours (local + (k + 7) * DAY_MS) h m 0 0 = ?w + 7 * DAY_MS"
    unfolding setUTCHours_def day_shift by (simp add: algebra_simps)
  have "?w mod 1000 = 0"
    by (rule setUTCHours_whole)
  from assms(3) [unfolded zone_weekly_times_def, rule_format, OF this] obtain c where
    "is_first_instant ?f ?w c \<or> is_first_instant ?f (?w + 7 * DAY_MS) c"
    using first_instant_exists [OF assms(1)] by metis
  then obtain d where d: "2 \<le> d" "d \<le> 15" "slot ?f calendar local d c"
    using k hm next_week firstCivilInstant_Some [OF sampled]
    by (auto simp: slot_def intro: that [of k] that [of "k + 7"])
  let ?a = "afterMs - afterMs mod 1000"
  have a: "?a mod 1000 = 0" "?a > afterMs - 1000" "civilMs ?f ?a = civilMs ?f afterMs"
    using sampled by (simp_all add: zone_sampled_def mod_diff_eq)
  have "occurs_at ?f calendar c" "civilMs ?f c div DAY_MS = local div DAY_MS + d"
    by (rule slot_civil [OF sampled time loc(1) d(3)])+
  then have "c mod 1000 = 0" and div: "civilMs ?f c div DAY_MS = local div DAY_MS + d"
    using first_instant_whole [OF sampled] by (auto simp: occurs_at_def)
  have gap: "civilMs ?f afterMs + DAY_MS + 1000 \<le> civilMs ?f c"
    using day_gap [OF _ civilMs_whole civilMs_whole, of ?f afterMs ?f c] div loc(2) d(1) by simp
  have "?a < c"
  proof (rule ccontr)
    assume "\<not> ?a < c"
    then consider "c < ?a" | "c = ?a" by linarith
    then have "civilMs ?f c < civilMs ?f ?a + DAY_MS"
    proof cases
      case 1
      then show ?thesis
        using assms(2) [unfolded zone_setbacks_bounded_def, rule_format, of c ?a] a(1) \<open>c mod 1000 = 0\<close>
        by simp
    qed (simp add: DAY_MS_def)
    then show False using gap a(3) by linarith
  qed
  then have "afterMs < c" using whole_less [OF a(1) \<open>c mod 1000 = 0\<close>] a(2) by linarith
  with none [of d c] d show False by simp
qed

text \<open>
  C33: The sixteen days the search looks at are enough. In a regular zone with bounded setbacks, when a
  civil time inside a gap exists a week later, every rule the schema accepts has a next run: the search
  never raises.
\<close>

theorem next_calendar_run_found:
  assumes "zone_regular (formatToParts i (cal_zone calendar))"
    and "zone_setbacks_bounded (formatToParts i (cal_zone calendar))"
    and "zone_weekly_times (formatToParts i (cal_zone calendar))"
    and "calendarScheduleSchema j raw = Some calendar"
  shows "\<exists>c. nextCalendarRunAtMs i calendar afterMs = Inr c"
  using assms by (rule next_calendar_run_total)

section \<open>A zone with a clock change\<close>

text \<open>A concrete zone for the witnesses: the clock jumps from 02:00 to 03:00 on day 100.\<close>

definition gap_offset :: "int \<Rightarrow> int" where
  "gap_offset t = (if t < 100 * DAY_MS + 2 * HOUR_MS then 0 else HOUR_MS)"

definition gap_parts :: "int \<Rightarrow> civil_parts" where
  "gap_parts t =
     (let w = t + gap_offset t in
      \<lparr>cp_year = 1970, cp_month = 1, cp_day = w div DAY_MS + 1,
       cp_hour = w mod DAY_MS div HOUR_MS, cp_minute = w mod HOUR_MS div MINUTE_MS,
       cp_second = w mod MINUTE_MS div 1000\<rparr>)"

definition gap_intl :: intl where
  "gap_intl = \<lparr>formatToParts = (\<lambda>zone. gap_parts), canonicalZone = Some, systemTimeZone = ''X''\<rparr>"

lemma mod_digit:
  fixes w :: int
  assumes "b dvd a"
  shows "w mod a div b * b + w mod b = w mod a"
proof -
  have "w mod a mod b = w mod b" by (rule mod_mod_cancel [OF assms])
  then show ?thesis using div_mult_mod_eq [of "w mod a" b] by simp
qed

lemma civilMs_gap: "civilMs gap_parts t = t - t mod 1000 + gap_offset t"
proof -
  let ?w = "t + gap_offset t"
  have day: "make_day 1970 0 (d + 1) = d" for d
    by (simp add: make_day_def day_from_year_def)
  have "?w mod DAY_MS div HOUR_MS * HOUR_MS + ?w mod HOUR_MS = ?w mod DAY_MS"
    "?w mod HOUR_MS div MINUTE_MS * MINUTE_MS + ?w mod MINUTE_MS = ?w mod HOUR_MS"
    "?w mod MINUTE_MS div 1000 * 1000 + ?w mod 1000 = ?w mod MINUTE_MS"
    by (rule mod_digit, simp add: ms_defs)+
  then have "?w div DAY_MS * DAY_MS + (?w mod DAY_MS div HOUR_MS * HOUR_MS
      + ?w mod HOUR_MS div MINUTE_MS * MINUTE_MS + ?w mod MINUTE_MS div 1000 * 1000) = ?w - ?w mod 1000"
    using div_mult_mod_eq [of ?w DAY_MS] by linarith
  moreover have "?w mod 1000 = t mod 1000"
    using mod_mult_self1 [of t 3600 1000] by (simp add: gap_offset_def ms_defs)
  moreover have "x * DAY_MS div DAY_MS = x" for x by (simp add: DAY_MS_def)
  ultimately show ?thesis
    by (simp add: civilMs_def gap_parts_def Let_def setUTCHours_def day)
qed

lemma gap_regular: "zone_regular gap_parts"
  unfolding zone_regular_def
proof (intro conjI allI impI)
  fix t :: int
  show "civilMs gap_parts t = civilMs gap_parts (t - t mod 1000)"
  proof -
    have floor: "x - r < 1000 * K \<longleftrightarrow> x < 1000 * K"
      if "x = 1000 * q + r" "0 \<le> r" "r < 1000" for x q r K :: int
      using that by (cases "q + 1 \<le> K") simp_all
    have "t - t mod 1000 < 1000 * K \<longleftrightarrow> t < 1000 * K" for K
      by (rule floor [of t "t div 1000"]) simp_all
    from this [of 8647200] have "gap_offset (t - t mod 1000) = gap_offset t"
      by (simp add: gap_offset_def ms_defs)
    moreover have "(t - t mod 1000) mod 1000 = 0" by (simp add: mod_diff_eq)
    ultimately show ?thesis by (simp only: civilMs_gap diff_zero)
  qed
next
  fix t :: int
  assume "t mod 1000 = 0"
  then show "\<bar>civilMs gap_parts t - t\<bar> \<le> 2 * DAY_MS" by (simp add: civilMs_gap gap_offset_def ms_defs)
next
  fix t :: int
  assume t: "t mod 1000 = 0"
  have c: "civilMs gap_parts s - s = gap_offset s" if "s mod 1000 = 0" for s
    using that by (simp add: civilMs_gap)
  let ?s = "if t < 100 * DAY_MS + 2 * HOUR_MS then t - DAY_MS + 1 else t"
  have offs: "gap_offset t' = gap_offset t" if "?s \<le> t'" "t' < ?s + DAY_MS" for t'
    using that by (auto simp: gap_offset_def split: if_splits)
  have same: "civilMs gap_parts t' - t' = civilMs gap_parts t - t"
    if "t' mod 1000 = 0" "?s \<le> t'" "t' < ?s + DAY_MS" for t'
    by (simp only: c [OF that(1)] c [OF t] offs [OF that(2,3)])
  show "\<exists>s. s \<le> t \<and> t < s + DAY_MS
      \<and> (\<forall>t'. t' mod 1000 = 0 \<and> s \<le> t' \<and> t' < s + DAY_MS
           \<longrightarrow> civilMs gap_parts t' - t' = civilMs gap_parts t - t)"
  proof (intro exI [of _ ?s] conjI)
    show "?s \<le> t" "t < ?s + DAY_MS" by (simp_all add: DAY_MS_def)
    show "\<forall>t'. t' mod 1000 = 0 \<and> ?s \<le> t' \<and> t' < ?s + DAY_MS
        \<longrightarrow> civilMs gap_parts t' - t' = civilMs gap_parts t - t"
      by (intro allI impI, elim conjE) (rule same)
  qed
qed

lemma gap_strict: "t' < t \<Longrightarrow> t mod 1000 = 0 \<Longrightarrow> civilMs gap_parts t' < civilMs gap_parts t"
proof -
  assume a: "t' < t" "t mod 1000 = 0"
  have "0 \<le> t' mod 1000" by simp
  moreover have "gap_offset t' \<le> gap_offset t" using a(1) by (simp add: gap_offset_def HOUR_MS_def)
  ultimately show ?thesis using a by (simp add: civilMs_gap)
qed

lemma gap_setbacks: "zone_setbacks_bounded gap_parts"
  unfolding zone_setbacks_bounded_def
proof (intro allI impI, elim conjE)
  fix t t' :: int
  assume "t' mod 1000 = 0" "t < t'"
  then show "civilMs gap_parts t < civilMs gap_parts t' + DAY_MS"
    using gap_strict [of t t'] by (simp add: DAY_MS_def)
qed

lemma gap_weekly: "zone_weekly_times gap_parts"
  unfolding zone_weekly_times_def
proof (intro allI impI)
  fix w :: int assume w: "w mod 1000 = 0"
  have "\<exists>t. t mod 1000 = 0 \<and> (t + gap_offset t = w \<or> t + gap_offset t = w + 7 * DAY_MS)"
  proof (cases "w < 100 * DAY_MS + 2 * HOUR_MS")
    case True
    then show ?thesis using w by (intro exI [of _ w]) (simp add: gap_offset_def)
  next
    case False
    moreover have "(w + 7 * DAY_MS - HOUR_MS) mod 1000 = 0" if "1000 dvd w"
      using that by (intro dvd_imp_mod_0 dvd_diff dvd_add) (simp_all add: ms_defs)
    ultimately show ?thesis using w
      by (intro exI [of _ "w + 7 * DAY_MS - HOUR_MS"]) (auto simp: gap_offset_def ms_defs)
  qed
  then show "\<exists>t. civilMs gap_parts t = w \<or> civilMs gap_parts t = w + 7 * DAY_MS"
    using civilMs_gap by (metis diff_zero)
qed

lemmas gap_laws = gap_regular gap_setbacks gap_weekly

text \<open>A daily rule at 02:30: the day of the jump has no 02:30, so the run after day 99 is on day
  101, at 01:30 UTC.\<close>

definition gap_rule :: calendar_schedule where
  "gap_rule = Daily ''02:30'' ''X''"

lemma gap_rule_next:
  "nextCalendarRunAtMs gap_intl gap_rule (99 * DAY_MS + 3 * HOUR_MS)
   = Inr (101 * DAY_MS + 90 * MINUTE_MS)"
  by code_simp

theorem first_civil_instant_exact_witness:
  "firstCivilInstant gap_parts (100 * DAY_MS + 150 * MINUTE_MS) = None
   \<and> (\<forall>t. civilMs gap_parts t \<noteq> 100 * DAY_MS + 150 * MINUTE_MS)"
proof -
  have "firstCivilInstant gap_parts (100 * DAY_MS + 150 * MINUTE_MS) = None" by code_simp
  with first_civil_instant_exact [OF gap_regular] show ?thesis by blast
qed

theorem next_calendar_run_least_witness:
  "nextCalendarRunAtMs gap_intl gap_rule (99 * DAY_MS + 3 * HOUR_MS)
     = Inr (101 * DAY_MS + 90 * MINUTE_MS)
   \<and> occurs_at gap_parts gap_rule (101 * DAY_MS + 90 * MINUTE_MS)"
proof -
  have "clockTimeSchema (cal_time gap_rule)" by code_simp
  with next_calendar_run_least [of gap_intl gap_rule, OF _ _ _ gap_rule_next]
  show ?thesis using gap_laws gap_rule_next by (simp add: gap_intl_def)
qed

theorem next_calendar_run_found_witness:
  "\<exists>c. nextCalendarRunAtMs gap_intl gap_rule 0 = Inr c"
proof -
  have "calendarScheduleSchema gap_intl gap_rule = Some gap_rule" by code_simp
  with next_calendar_run_found [of gap_intl gap_rule] gap_laws show ?thesis
    by (simp add: gap_intl_def)
qed

end
