(* ===== verification/SchedTrigger.thy ===== *)
theory SchedTrigger
  imports SchedCalendar
begin

text \<open>
  Triggers of the scheduler (\<open>limits.ts\<close> and \<open>trigger.ts\<close> of
  \<open>packages/runtime/src/scheduler\<close>): the limits, the interval and run-time texts, the trigger a
  user's timing input creates, and the first and next run of a trigger. The zone database and the
  schema library's parser of ISO dates with an offset are parameters.
\<close>

section \<open>Limits\<close>

record scheduler_limits =
  minIntervalMs :: int
  maxIntervalMs :: int
  claimLeaseMs :: int
  maxLivenessProbesPerClaim :: int
  livenessProbeDeferralMs :: int
  leaseRenewIntervalMs :: int
  retryBudget :: int
  retryBackoffMs :: int
  pollIntervalMs :: int
  maxRunMs :: int
  minMaxRunMs :: int
  maxRunCeilingMs :: int
  childTerminateGraceMs :: int
  invocationRetentionPerSchedule :: int
  invocationRetentionMs :: int
  maxNameChars :: int
  maxPromptChars :: int
  maxOutputExcerptChars :: int

definition SCHEDULER_LIMITS :: scheduler_limits where
  "SCHEDULER_LIMITS =
     \<lparr>minIntervalMs = 60000, maxIntervalMs = 31536000000, claimLeaseMs = 120000,
      maxLivenessProbesPerClaim = 1, livenessProbeDeferralMs = 15000, leaseRenewIntervalMs = 30000,
      retryBudget = 3, retryBackoffMs = 10000, pollIntervalMs = 15000, maxRunMs = 3600000,
      minMaxRunMs = 60000, maxRunCeilingMs = 86400000, childTerminateGraceMs = 10000,
      invocationRetentionPerSchedule = 100, invocationRetentionMs = 2592000000,
      maxNameChars = 120, maxPromptChars = 4000, maxOutputExcerptChars = 4000\<rparr>"

section \<open>Trigger specifications\<close>

datatype trigger_spec =
    Interval (everyMs: int) (interval_startAtMs: "int option") (interval_zone: "string option")
  | Calendar (trigger_calendar: calendar_schedule) (calendar_startAtMs: "int option")

fun startAtMs :: "trigger_spec \<Rightarrow> int option" where
  "startAtMs (Interval every startAt zone) = startAt"
| "startAtMs (Calendar calendar startAt) = startAt"

definition MAX_START_MS :: int where
  "MAX_START_MS = 253402214400000"

definition startAtSchema :: "int option \<Rightarrow> bool" where
  "startAtSchema startAt = (case startAt of None \<Rightarrow> True | Some t \<Rightarrow> 0 \<le> t \<and> t \<le> MAX_START_MS)"

text \<open>\<open>triggerSpecSchema.safeParse\<close>: the parsed trigger, with zones canonical and weekdays
  sorted without repetition, or \<open>None\<close>.\<close>

fun triggerSpecSchema :: "intl \<Rightarrow> trigger_spec \<Rightarrow> trigger_spec option" where
  "triggerSpecSchema i (Interval every startAt zone) =
     (if minIntervalMs SCHEDULER_LIMITS \<le> every \<and> every \<le> maxIntervalMs SCHEDULER_LIMITS
         \<and> startAtSchema startAt
      then (case zone of
              None \<Rightarrow> Some (Interval every startAt None)
            | Some z \<Rightarrow> map_option (\<lambda>name. Interval every startAt (Some name)) (timeZoneSchema i z))
      else None)"
| "triggerSpecSchema i (Calendar calendar startAt) =
     (if startAtSchema startAt
      then map_option (\<lambda>c. Calendar c startAt) (calendarScheduleSchema i calendar) else None)"

text \<open>A stored trigger text: not JSON, JSON of another shape, or JSON of a trigger's shape.\<close>

datatype trigger_json = NotJson | OtherJson | TriggerJson trigger_spec

fun parseTriggerJson :: "intl \<Rightarrow> trigger_json \<Rightarrow> trigger_error + trigger_spec" where
  "parseTriggerJson i NotJson = Inl TriggerNotJson"
| "parseTriggerJson i OtherJson = Inl SchemaIssue"
| "parseTriggerJson i (TriggerJson raw) =
     (case triggerSpecSchema i raw of None \<Rightarrow> Inl SchemaIssue | Some t \<Rightarrow> Inr t)"

section \<open>Duration texts\<close>

definition interval_unit_ms :: "char \<Rightarrow> int option" where
  "interval_unit_ms u =
     (if u = CHR ''s'' then Some 1000 else if u = CHR ''m'' then Some 60000
      else if u = CHR ''h'' then Some 3600000 else if u = CHR ''d'' then Some 86400000 else None)"

text \<open>The number and the unit of a displayed duration, in the order of the source's cases.\<close>

datatype duration_text = Days int | Hours int | Minutes int | Seconds int

definition formatDuration :: "int \<Rightarrow> duration_text" where
  "formatDuration ms =
     (if ms mod 86400000 = 0 then Days (ms div 86400000)
      else if ms mod 3600000 = 0 then Hours (ms div 3600000)
      else if ms mod 60000 = 0 then Minutes (ms div 60000)
      else Seconds ((ms + 500) div 1000))"

record duration_bounds =
  minMs :: int
  maxMs :: int

text \<open>\<open>INTERVAL_PATTERN\<close>: one to nine digits and a unit.\<close>

definition interval_pattern :: "string \<Rightarrow> (string \<times> char) option" where
  "interval_pattern s =
     (if s = [] then None
      else let digits = butlast s; u = last s
           in if 1 \<le> length digits \<and> length digits \<le> 9 \<and> list_all is_digit digits
                 \<and> u \<in> set ''smhd''
              then Some (digits, u) else None)"

definition parseDurationText :: "string \<Rightarrow> duration_bounds \<Rightarrow> trigger_error + int" where
  "parseDurationText text bounds =
     (let trimmed = trim text
      in case interval_pattern trimmed of
           None \<Rightarrow> Inl (UnrecognizedDuration trimmed)
         | Some (digits, u) \<Rightarrow>
             (case interval_unit_ms u of
                None \<Rightarrow> Inl (UnrecognizedDuration trimmed)
              | Some unit_ms \<Rightarrow>
                  (let value = digits_value digits; ms = value * unit_ms
                   in if value \<le> 0 then Inl NotPositive
                      else if ms < minMs bounds then Inl BelowMinimum
                      else if ms > maxMs bounds then Inl AboveMaximum
                      else Inr ms)))"

definition parseIntervalText :: "string \<Rightarrow> trigger_error + int" where
  "parseIntervalText text =
     parseDurationText text
       \<lparr>minMs = minIntervalMs SCHEDULER_LIMITS, maxMs = maxIntervalMs SCHEDULER_LIMITS\<rparr>"

definition parseMaxRunText :: "string \<Rightarrow> trigger_error + int" where
  "parseMaxRunText text =
     parseDurationText text
       \<lparr>minMs = minMaxRunMs SCHEDULER_LIMITS, maxMs = maxRunCeilingMs SCHEDULER_LIMITS\<rparr>"

definition createIntervalTrigger :: "string \<Rightarrow> trigger_error + trigger_spec" where
  "createIntervalTrigger text =
     sum_bind (parseIntervalText text) (\<lambda>every. Inr (Interval every None None))"

section \<open>Timing input\<close>

datatype calendar_input =
    DailyInput string "string option"
  | WeeklyInput string "string option" "int list"

record timing_input =
  ti_every :: "string option"
  ti_calendar :: "calendar_input option"
  ti_startAt :: "string option"

text \<open>What the schema makes of the calendar part: the time, the canonical zone when one is given,
  and the weekdays of a weekly rule.\<close>

definition optional_zone :: "intl \<Rightarrow> string option \<Rightarrow> string option option" where
  "optional_zone i zone = (case zone of None \<Rightarrow> Some None | Some z \<Rightarrow> map_option Some (timeZoneSchema i z))"

fun calendarScheduleInputSchema :: "intl \<Rightarrow> calendar_input \<Rightarrow> calendar_input option" where
  "calendarScheduleInputSchema i (DailyInput time zone) =
     (if clockTimeSchema time then map_option (DailyInput time) (optional_zone i zone) else None)"
| "calendarScheduleInputSchema i (WeeklyInput time zone days) =
     (if clockTimeSchema time
      then (case (optional_zone i zone, weekdaysSchema days) of
              (Some z, Some ds) \<Rightarrow> Some (WeeklyInput time z ds)
            | _ \<Rightarrow> None)
      else None)"

fun input_zone :: "calendar_input \<Rightarrow> string option" where
  "input_zone (DailyInput time zone) = zone"
| "input_zone (WeeklyInput time zone days) = zone"

fun with_zone :: "calendar_input \<Rightarrow> string \<Rightarrow> calendar_schedule" where
  "with_zone (DailyInput time _) zone = Daily time zone"
| "with_zone (WeeklyInput time _ days) zone = Weekly time zone days"

text \<open>A trimmed, non-empty optional text.\<close>

definition optional_text :: "string option \<Rightarrow> string option option" where
  "optional_text s =
     (case s of None \<Rightarrow> Some None | Some t \<Rightarrow> if trim t = [] then None else Some (Some (trim t)))"

definition scheduleTimingInputSchema :: "intl \<Rightarrow> timing_input \<Rightarrow> timing_input option" where
  "scheduleTimingInputSchema i input =
     (case (optional_text (ti_every input),
            case ti_calendar input of None \<Rightarrow> Some None
              | Some c \<Rightarrow> map_option Some (calendarScheduleInputSchema i c),
            optional_text (ti_startAt input)) of
        (Some every, Some calendar, Some startAt) \<Rightarrow>
          if (every = None) \<noteq> (calendar = None)
          then Some \<lparr>ti_every = every, ti_calendar = calendar, ti_startAt = startAt\<rparr> else None
      | _ \<Rightarrow> None)"

text \<open>\<open>/(?:Z|[+-]\d{2}:\d{2})$/\<close>.\<close>

definition has_offset :: "string \<Rightarrow> bool" where
  "has_offset s =
     (case rev s of
        c5 # c4 # c3 # c2 # c1 # c0 # _ \<Rightarrow>
          c5 = CHR ''Z''
          \<or> (c0 \<in> {CHR ''+'', CHR ''-''} \<and> is_digit c1 \<and> is_digit c2 \<and> c3 = CHR '':''
              \<and> is_digit c4 \<and> is_digit c5)
      | c # _ \<Rightarrow> c = CHR ''Z''
      | [] \<Rightarrow> False)"

text \<open>The parser of ISO dates with an offset: \<open>None\<close> when the schema rejects the text.\<close>

type_synonym offset_parser = "string \<Rightarrow> int option"

definition parse_start ::
  "intl \<Rightarrow> offset_parser \<Rightarrow> string \<Rightarrow> int \<Rightarrow> string option \<Rightarrow> trigger_error + int option" where
  "parse_start i parseOffset zone nowMs startAt =
     (case startAt of
        None \<Rightarrow> Inr None
      | Some text \<Rightarrow>
          sum_bind
            (if has_offset text
             then (case parseOffset text of None \<Rightarrow> Inl StartAtFormat | Some t \<Rightarrow> Inr t)
             else parseLocalStartAt i text zone)
            (\<lambda>t. if t \<le> nowMs then Inl StartAtNotFuture else Inr (Some t)))"

definition raw_trigger :: "timing_input \<Rightarrow> string \<Rightarrow> int option \<Rightarrow> trigger_error + trigger_spec" where
  "raw_trigger v zone startAt =
     (case ti_calendar v of
        Some c \<Rightarrow> Inr (Calendar (with_zone c zone) startAt)
      | None \<Rightarrow>
          sum_bind (createIntervalTrigger (case ti_every v of None \<Rightarrow> '''' | Some t \<Rightarrow> t))
            (\<lambda>t. Inr (Interval (everyMs t) startAt (if startAt = None then None else Some zone))))"

definition createScheduleTrigger ::
  "intl \<Rightarrow> offset_parser \<Rightarrow> timing_input \<Rightarrow> int \<Rightarrow> trigger_error + trigger_spec" where
  "createScheduleTrigger i parseOffset input nowMs =
     (case scheduleTimingInputSchema i input of
        None \<Rightarrow> Inl SchemaIssue
      | Some v \<Rightarrow>
          (let zone = (case Option.bind (ti_calendar v) input_zone of
                         None \<Rightarrow> systemTimeZone i | Some z \<Rightarrow> z)
           in sum_bind (parse_start i parseOffset zone nowMs (ti_startAt v))
                (\<lambda>startAt. sum_bind (raw_trigger v zone startAt)
                  (\<lambda>raw. case triggerSpecSchema i raw of
                           None \<Rightarrow> Inl SchemaIssue | Some t \<Rightarrow> Inr t))))"

section \<open>Runs\<close>

fun computeNextRunAtMs :: "intl \<Rightarrow> trigger_spec \<Rightarrow> int \<Rightarrow> trigger_error + int" where
  "computeNextRunAtMs i (Interval every startAt zone) nowMs =
     Inr (case startAt of None \<Rightarrow> nowMs + every | Some s \<Rightarrow> max (nowMs + every) s)"
| "computeNextRunAtMs i (Calendar calendar startAt) nowMs =
     nextCalendarRunAtMs i calendar (max nowMs ((case startAt of None \<Rightarrow> 0 | Some s \<Rightarrow> s) - 1))"

definition computeFirstRunAtMs :: "intl \<Rightarrow> trigger_spec \<Rightarrow> int \<Rightarrow> trigger_error + int" where
  "computeFirstRunAtMs i trigger nowMs =
     (case startAtMs trigger of
        Some s \<Rightarrow>
          if s \<le> nowMs then Inl StartAtPassed
          else (case trigger of
                  Interval _ _ _ \<Rightarrow> Inr s
                | Calendar _ _ \<Rightarrow> computeNextRunAtMs i trigger nowMs)
      | None \<Rightarrow> computeNextRunAtMs i trigger nowMs)"

section \<open>Lemmas\<close>

lemma trim_split:
  "\<exists>pre post. text = pre @ trim text @ post \<and> list_all js_space pre \<and> list_all js_space post"
proof -
  let ?r = "dropWhile js_space text"
  have "text = takeWhile js_space text @ ?r" by simp
  moreover have "rev (rev ?r) = rev (dropWhile js_space (rev ?r)) @ rev (takeWhile js_space (rev ?r))"
    by (metis rev_append takeWhile_dropWhile_id)
  ultimately have "text = takeWhile js_space text @ trim text @ rev (takeWhile js_space (rev ?r))"
    by (simp add: trim_def)
  then show ?thesis
    by (metis list_all_iff set_rev set_takeWhileD)
qed

lemma dropWhile_all: "list_all P pre \<Longrightarrow> dropWhile P (pre @ s) = dropWhile P s"
  by (induction pre) auto

lemma trim_surround:
  assumes "list_all js_space pre" and "list_all js_space post" and "s \<noteq> []"
    and "\<not> js_space (hd s)" and "\<not> js_space (last s)"
  shows "trim (pre @ s @ post) = s"
proof -
  have "dropWhile js_space (s @ post) = s @ post" using assms(3,4) by (cases s) auto
  moreover have "dropWhile js_space (rev s) = rev s"
    using assms(3,5) by (cases s rule: rev_cases) auto
  ultimately show ?thesis
    using assms(1,2) by (simp add: trim_def dropWhile_all list_all_iff)
qed

lemma digit_not_space: "is_digit c \<Longrightarrow> \<not> js_space c"
  by (auto simp: is_digit_def digit_value_def js_space_def split: if_splits)

lemma interval_unit_cases:
  "interval_unit_ms u = Some n
   \<longleftrightarrow> (u, n) \<in> {(CHR ''s'', 1000), (CHR ''m'', 60000), (CHR ''h'', 3600000), (CHR ''d'', 86400000)}"
  by (auto simp: interval_unit_ms_def)

lemma interval_pattern_Some:
  "interval_pattern s = Some (digits, u) \<longleftrightarrow>
     s = digits @ [u] \<and> 1 \<le> length digits \<and> length digits \<le> 9 \<and> list_all is_digit digits
     \<and> u \<in> set ''smhd''"
  by (cases s rule: rev_cases) (auto simp: interval_pattern_def)

lemma unit_not_space: "u \<in> set ''smhd'' \<Longrightarrow> \<not> js_space u"
  by (auto simp: js_space_def)

text \<open>
  The duration parser accepts exactly the texts made of optional blanks, one to nine digits, one
  unit letter and optional blanks, whose value lies within the bounds; it then returns the value in
  milliseconds. Everything else is an error, so no accepted text is read as anything but what it says.
\<close>

theorem parse_duration_exact:
  "parseDurationText text bounds = Inr ms \<longleftrightarrow>
     (\<exists>pre digits u post unit_ms.
        text = pre @ (digits @ [u]) @ post \<and> list_all js_space pre \<and> list_all js_space post
        \<and> digits \<noteq> [] \<and> length digits \<le> 9 \<and> list_all is_digit digits
        \<and> (u, unit_ms) \<in> {(CHR ''s'', 1000), (CHR ''m'', 60000), (CHR ''h'', 3600000),
                            (CHR ''d'', 86400000)}
        \<and> ms = digits_value digits * unit_ms \<and> 0 < digits_value digits
        \<and> minMs bounds \<le> ms \<and> ms \<le> maxMs bounds)"
  (is "?l \<longleftrightarrow> ?r")
proof
  assume ?l
  then obtain digits u unit_ms where "interval_pattern (trim text) = Some (digits, u)"
    "interval_unit_ms u = Some unit_ms" "ms = digits_value digits * unit_ms"
    "0 < digits_value digits" "minMs bounds \<le> ms" "ms \<le> maxMs bounds"
    by (auto simp: parseDurationText_def Let_def split: option.splits if_splits)
  moreover from trim_split [of "text"] obtain pre post where
    "text = pre @ trim text @ post" "list_all js_space pre" "list_all js_space post" by blast
  ultimately show ?r
    unfolding interval_pattern_Some interval_unit_cases
    by (intro exI [of _ pre] exI [of _ digits] exI [of _ u] exI [of _ post] exI [of _ unit_ms]) auto
next
  assume ?r
  then obtain pre digits u post unit_ms where
    t: "text = pre @ (digits @ [u]) @ post" "list_all js_space pre" "list_all js_space post"
    and d: "digits \<noteq> []" "length digits \<le> 9" "list_all is_digit digits"
    and u: "interval_unit_ms u = Some unit_ms"
    and v: "ms = digits_value digits * unit_ms" "0 < digits_value digits"
      "minMs bounds \<le> ms" "ms \<le> maxMs bounds"
    unfolding interval_unit_cases by blast
  have u': "u \<in> set ''smhd''" using u by (auto simp: interval_unit_cases)
  have "trim text = digits @ [u]"
    unfolding t(1) using t(2,3) d u' digit_not_space unit_not_space
    by (intro trim_surround) (auto simp: list_all_iff)
  moreover have "interval_pattern (digits @ [u]) = Some (digits, u)"
    using d u' by (simp add: interval_pattern_Some Suc_le_eq)
  ultimately show ?l using u v by (simp add: parseDurationText_def)
qed

subsection \<open>Runs\<close>

lemma next_run_loop_later:
  "next_run_loop formatter calendar local afterMs days = Inr c \<Longrightarrow> afterMs < c"
  using next_run_loop_Inr by blast

lemma nextCalendarRunAtMs_later: "nextCalendarRunAtMs i calendar afterMs = Inr c \<Longrightarrow> afterMs < c"
  by (auto simp: nextCalendarRunAtMs_def Let_def intro: next_run_loop_later)

lemma triggerSpecSchema_interval:
  "triggerSpecSchema i raw = Some (Interval every startAt zone)
   \<Longrightarrow> 60000 \<le> every \<and> every \<le> 31536000000"
  by (cases raw) (auto simp: SCHEDULER_LIMITS_def split: if_splits option.splits)

lemma triggerSpecSchema_calendar:
  "triggerSpecSchema i raw = Some (Calendar calendar startAt)
   \<Longrightarrow> \<exists>c. calendarScheduleSchema i c = Some calendar"
  by (cases raw) (auto split: if_splits option.splits)

text \<open>The zones of the host, each with the laws of a time zone.\<close>

definition lawful_zones :: "intl \<Rightarrow> bool" where
  "lawful_zones i \<longleftrightarrow>
     (\<forall>zone. zone_regular (formatToParts i zone) \<and> zone_setbacks_bounded (formatToParts i zone)
        \<and> zone_weekly_times (formatToParts i zone))"

lemma lawful_calendar_run:
  assumes "lawful_zones i" and "calendarScheduleSchema j raw = Some calendar"
  shows "\<exists>c. nextCalendarRunAtMs i calendar afterMs = Inr c \<and> afterMs < c"
proof (cases "nextCalendarRunAtMs i calendar afterMs")
  case (Inr c)
  then show ?thesis using nextCalendarRunAtMs_later by blast
next
  case (Inl e)
  then show ?thesis
    using next_calendar_run_total [OF _ _ _ assms(2)] assms(1) unfolding lawful_zones_def
    by (metis Inl_Inr_False)
qed

lemma next_run_exists:
  assumes "triggerSpecSchema i raw = Some trigger" and "lawful_zones i"
  shows "\<exists>r. computeNextRunAtMs i trigger nowMs = Inr r \<and> nowMs < r
    \<and> (case startAtMs trigger of None \<Rightarrow> True | Some s \<Rightarrow> s \<le> r)
    \<and> (case trigger of Interval _ _ _ \<Rightarrow> nowMs + 60000 \<le> r | Calendar _ _ \<Rightarrow> True)"
proof (cases trigger)
  case (Interval every startAt zone)
  with assms(1) have "60000 \<le> every" using triggerSpecSchema_interval by blast
  with Interval show ?thesis by (auto split: option.splits)
next
  case (Calendar calendar startAt)
  with triggerSpecSchema_calendar assms(1) obtain c where "calendarScheduleSchema i c = Some calendar"
    by blast
  from lawful_calendar_run [OF assms(2) this] obtain r where
    "nextCalendarRunAtMs i calendar (max nowMs ((case startAt of None \<Rightarrow> 0 | Some s \<Rightarrow> s) - 1)) = Inr r"
    "max nowMs ((case startAt of None \<Rightarrow> 0 | Some s \<Rightarrow> s) - 1) < r" by blast
  then show ?thesis by (simp add: Calendar split: option.splits)
qed

text \<open>
  Triggers make progress. For a trigger the schema accepts, in lawful zones, the next run after
  any instant exists, lies strictly after that instant, never before the trigger's start, and an
  interval trigger leaves at least the minimal interval of one minute.
\<close>

theorem next_run_progress:
  assumes "triggerSpecSchema i raw = Some trigger" and "lawful_zones i"
  shows "\<exists>r. computeNextRunAtMs i trigger nowMs = Inr r \<and> nowMs < r
    \<and> (case startAtMs trigger of None \<Rightarrow> True | Some s \<Rightarrow> s \<le> r)
    \<and> (case trigger of Interval _ _ _ \<Rightarrow> nowMs + 60000 \<le> r | Calendar _ _ \<Rightarrow> True)"
  using assms by (rule next_run_exists)

lemma triggerSpecSchema_start:
  "triggerSpecSchema i raw = Some t \<Longrightarrow> startAtMs t = startAtMs raw"
  by (cases raw) (auto split: if_splits option.splits)

lemma parse_start_future:
  "parse_start i parseOffset zone nowMs text = Inr (Some s) \<Longrightarrow> nowMs < s"
  by (auto simp: parse_start_def sum_bind_eq_Inr split: option.splits if_splits)

lemma raw_trigger_start: "raw_trigger v zone startAt = Inr raw \<Longrightarrow> startAtMs raw = startAt"
  by (auto simp: raw_trigger_def sum_bind_eq_Inr split: option.splits)

lemma created_trigger_shape:
  assumes "createScheduleTrigger i parseOffset input nowMs = Inr t"
  shows "\<exists>raw. triggerSpecSchema i raw = Some t"
    and "startAtMs t = Some s \<Longrightarrow> nowMs < s"
proof -
  from assms obtain v where "scheduleTimingInputSchema i input = Some v"
    by (auto simp: createScheduleTrigger_def split: option.splits)
  with assms obtain zone startAt raw where
    start: "parse_start i parseOffset zone nowMs (ti_startAt v) = Inr startAt"
    and "raw_trigger v zone startAt = Inr raw" "triggerSpecSchema i raw = Some t"
    by (auto simp: createScheduleTrigger_def Let_def sum_bind_eq_Inr simp del: triggerSpecSchema.simps
        split: option.splits)
  then have raw: "startAtMs raw = startAt" "triggerSpecSchema i raw = Some t"
    by (simp_all add: raw_trigger_start)
  show "\<exists>raw. triggerSpecSchema i raw = Some t" using raw(2) by blast
  show "nowMs < s" if "startAtMs t = Some s"
    using that raw start triggerSpecSchema_start parse_start_future by metis
qed

text \<open>
  A trigger made from user input can be scheduled. Whatever timing input the code accepts, the
  trigger it makes passes the schema of stored triggers, and in lawful zones its first run exists,
  lies after the moment of creation and not before the requested start.
\<close>

theorem created_trigger_first_run:
  assumes "createScheduleTrigger i parseOffset input nowMs = Inr t" and "lawful_zones i"
  shows "\<exists>first. computeFirstRunAtMs i t nowMs = Inr first \<and> nowMs < first
    \<and> (case startAtMs t of None \<Rightarrow> True | Some s \<Rightarrow> s \<le> first)"
proof -
  obtain raw where "triggerSpecSchema i raw = Some t" using created_trigger_shape(1) [OF assms(1)] ..
  from next_run_exists [OF this assms(2), of nowMs] created_trigger_shape(2) [OF assms(1)]
  show ?thesis
    by (cases t; cases "startAtMs t") (auto simp: computeFirstRunAtMs_def not_le)
qed

section \<open>Witnesses\<close>

lemma gap_lawful: "lawful_zones gap_intl"
  using gap_laws by (simp add: lawful_zones_def gap_intl_def)

theorem next_run_progress_witness:
  "\<exists>r. computeNextRunAtMs gap_intl (Calendar gap_rule None) 0 = Inr r \<and> 0 < r"
proof -
  have "triggerSpecSchema gap_intl (Calendar gap_rule None) = Some (Calendar gap_rule None)"
    by code_simp
  from next_run_progress [OF this gap_lawful, of 0] show ?thesis by auto
qed

definition example_input :: timing_input where
  "example_input =
     \<lparr>ti_every = Some '' 30m '', ti_calendar = None, ti_startAt = Some ''1970-01-02T02:30''\<rparr>"

theorem created_trigger_first_run_witness:
  "createScheduleTrigger gap_intl (\<lambda>s. None) example_input 0
     = Inr (Interval 1800000 (Some 95400000) (Some ''X''))
   \<and> (\<exists>first. computeFirstRunAtMs gap_intl (Interval 1800000 (Some 95400000) (Some ''X'')) 0 = Inr first
        \<and> 0 < first)"
proof -
  have c: "createScheduleTrigger gap_intl (\<lambda>s. None) example_input 0
      = Inr (Interval 1800000 (Some 95400000) (Some ''X''))"
    by code_simp
  from created_trigger_first_run [OF c gap_lawful] c show ?thesis by auto
qed

end
