(* ===== verification/SchedTypes.thy ===== *)
theory SchedTypes
  imports SchedTrigger "HOL-Library.Option_ord"
begin

text \<open>
  The schedule ledger's data (\<open>schedule-store.ts\<close> and \<open>types.ts\<close> of
  \<open>packages/runtime/src/scheduler\<close>): the rows of its four tables, the records the store returns,
  the process-tree columns as JSON texts, and the decoders from rows to records with every check they
  make.

  A table is the list of its rows in rowid order, a NULL column is \<open>None\<close>. The CHECK constraints
  on modes and statuses are the datatypes. Identifiers and tokens are only compared for equality and
  drawn at random: they are natural numbers, and the store carries the next unused one. Texts the code
  composes for users are constructors of \<open>error_note\<close> and \<open>reason\<close>.
\<close>

section \<open>JSON columns\<close>

text \<open>A number that is not an integer is \<open>JFraction\<close>: the code only asks whether it is one.\<close>

datatype json =
    JNull
  | JBool bool
  | JInt int
  | JFraction
  | JString string
  | JArray "json list"
  | JObject "(string \<times> json) list"

text \<open>A text column: the text \<open>JSON.stringify\<close> gives for a value, or one \<open>JSON.parse\<close> rejects.\<close>

datatype json_text = JsonText json | BadText

datatype leader_state = LeaderAlive | LeaderExited | LeaderUnknown

record tracked_group =
  g_pgid :: int
  g_leader :: leader_state
  g_start :: "string option"

definition leader_text :: "leader_state \<Rightarrow> string" where
  "leader_text s = (case s of LeaderAlive \<Rightarrow> ''alive'' | LeaderExited \<Rightarrow> ''exited''
                            | LeaderUnknown \<Rightarrow> ''unknown'')"

definition isTrackedLeaderState :: "json \<Rightarrow> leader_state option" where
  "isTrackedLeaderState v =
     (if v = JString ''alive'' then Some LeaderAlive
      else if v = JString ''exited'' then Some LeaderExited
      else if v = JString ''unknown'' then Some LeaderUnknown else None)"

definition isPositivePid :: "json \<Rightarrow> int option" where
  "isPositivePid v = (case v of JInt n \<Rightarrow> if n > 0 then Some n else None | _ \<Rightarrow> None)"

definition parsePidList :: "json_text option \<Rightarrow> int list" where
  "parsePidList col =
     (case col of
        Some (JsonText (JArray vs)) \<Rightarrow> List.map_filter isPositivePid vs
      | _ \<Rightarrow> [])"

definition parsePendingActions :: "json_text \<Rightarrow> string list" where
  "parsePendingActions col =
     (case col of
        JsonText (JArray vs) \<Rightarrow>
          List.map_filter (\<lambda>v. case v of JString s \<Rightarrow> Some s | _ \<Rightarrow> None) vs
      | _ \<Rightarrow> [])"

definition parseTrackedGroup :: "json \<Rightarrow> tracked_group option" where
  "parseTrackedGroup v =
     (case isPositivePid v of
        Some n \<Rightarrow> Some \<lparr>g_pgid = n, g_leader = LeaderUnknown, g_start = None\<rparr>
      | None \<Rightarrow>
          (case v of
             JObject obj \<Rightarrow>
               (case (Option.bind (map_of obj ''pgid'') isPositivePid,
                      Option.bind (map_of obj ''leaderState'') isTrackedLeaderState) of
                  (Some n, Some s) \<Rightarrow>
                    (case map_of obj ''startToken'' of
                       None \<Rightarrow> Some \<lparr>g_pgid = n, g_leader = s, g_start = None\<rparr>
                     | Some (JString t) \<Rightarrow>
                         if t \<noteq> [] then Some \<lparr>g_pgid = n, g_leader = s, g_start = Some t\<rparr>
                         else None
                     | Some _ \<Rightarrow> None)
                | _ \<Rightarrow> None)
           | _ \<Rightarrow> None))"

text \<open>\<open>map.set(key, value)\<close>: the value is replaced in place, a new key comes last.\<close>

fun map_set :: "tracked_group \<Rightarrow> tracked_group list \<Rightarrow> tracked_group list" where
  "map_set g [] = [g]"
| "map_set g (x # xs) = (if g_pgid x = g_pgid g then g # xs else x # map_set g xs)"

fun parse_groups_loop :: "tracked_group list \<Rightarrow> json list \<Rightarrow> tracked_group list option" where
  "parse_groups_loop acc [] = Some acc"
| "parse_groups_loop acc (v # vs) =
     (case parseTrackedGroup v of
        None \<Rightarrow> None
      | Some g \<Rightarrow> parse_groups_loop (map_set g acc) vs)"

text \<open>\<open>None\<close> is the invalid result.\<close>

definition parseTrackedGroupsResult :: "json_text option \<Rightarrow> tracked_group list option" where
  "parseTrackedGroupsResult col =
     (case col of
        None \<Rightarrow> Some []
      | Some (JsonText (JArray vs)) \<Rightarrow> parse_groups_loop [] vs
      | Some _ \<Rightarrow> None)"

definition group_json :: "tracked_group \<Rightarrow> json" where
  "group_json g =
     JObject ([(''pgid'', JInt (g_pgid g)), (''leaderState'', JString (leader_text (g_leader g)))]
       @ (case g_start g of None \<Rightarrow> [] | Some t \<Rightarrow> [(''startToken'', JString t)]))"

fun encode_groups_loop :: "tracked_group list \<Rightarrow> tracked_group list \<Rightarrow> tracked_group list" where
  "encode_groups_loop acc [] = acc"
| "encode_groups_loop acc (g # gs) =
     (if g_pgid g \<le> 0 then encode_groups_loop acc gs
      else encode_groups_loop
             (map_set (case g_start g of
                         Some [] \<Rightarrow> g\<lparr>g_start := None\<rparr>
                       | _ \<Rightarrow> g) acc) gs)"

definition encodeTrackedGroups :: "tracked_group list \<Rightarrow> json_text" where
  "encodeTrackedGroups gs = JsonText (JArray (map group_json (encode_groups_loop [] gs)))"

definition encodePidList :: "int list \<Rightarrow> json_text" where
  "encodePidList pids = JsonText (JArray (map JInt (js_set (filter (\<lambda>p. p > 0) pids))))"

section \<open>Rows\<close>

type_synonym uuid = nat

datatype schedule_status = Active | Paused | Completed

datatype invocation_mode = Scheduled | Manual

datatype invocation_status =
    Pending | Claimed | Running | Retry | Done | NeedsConfirmation | Failed

text \<open>Errors: the store's error codes with their reason, a trigger error, or a constraint of the
  database.\<close>

datatype reason =
    BadTreeMetadata uuid | BadRounds | BadRoundsStarted | BadMaxRun | BadHostContext
  | BadName | BadPrompt | BadCwd | BadTrigger | FireImmediatelyWithStart | FirstRunChanged
  | RoundsExhausted | BadExtension | BadRequestId | BadAuthority | RequestIdReused | UnlimitedRounds
  | ExtensionStale | NotExtendable | RunsUnsettled | BadExtensionTime | CompletedIsDerived
  | MissingToken uuid | ClaimNotLoadable uuid | OccupiedBy uuid | EnqueueExhausted
  | BadReference | ReferenceTaken

datatype sched_error =
    LimitReached
  | NotFoundError
  | Invalid reason
  | TriggerFailed trigger_error
  | ConstraintViolation

text \<open>Stored error texts: the caller's, or one the store composes.\<close>

datatype error_note =
    CallerText string
  | PausedDropsRetry
  | PausedDropsRun
  | BudgetExhausted int "error_note option"
  | ConfigUnreadable sched_error

record schedule_row =
  s_id :: uuid
  s_name :: string
  s_prompt :: string
  s_cwd :: string
  s_trigger :: trigger_json
  s_status :: schedule_status
  s_authority :: "string option"
  s_host :: "string option"
  s_max_run :: "int option"
  s_max_rounds :: "int option"
  s_rounds_started :: int
  s_next_run :: "int option"
  s_last_run :: "int option"
  s_last_error :: "error_note option"
  s_created :: int
  s_updated :: int

record invocation_row =
  i_id :: uuid
  i_schedule :: uuid
  i_mode :: invocation_mode
  i_status :: invocation_status
  i_scheduled_for :: int
  i_attempt :: int
  i_max_attempts :: int
  i_executor_pid :: "int option"
  i_executor_start :: "string option"
  i_probed_at :: "int option"
  i_claimed_by :: "string option"
  i_token :: "uuid option"
  i_lease :: "int option"
  i_retry_at :: "int option"
  i_thread :: "string option"
  i_output :: "string option"
  i_error :: "error_note option"
  i_pending_actions :: json_text
  i_created :: int
  i_started :: "int option"
  i_finished :: "int option"
  i_tree_pgids :: "json_text option"
  i_tree_unsettled :: bool
  i_tree_survivors :: "json_text option"

record extension_row =
  e_request :: string
  e_schedule :: uuid
  e_expected :: int
  e_additional :: int
  e_authority :: string
  e_created :: int

record thread_ref =
  r_invocation :: uuid
  r_attempt :: int
  r_schedule :: uuid
  r_thread :: string
  r_dir :: string
  r_name :: string
  r_cwd :: string
  r_scheduled_for :: int
  r_mode :: invocation_mode
  r_created :: int

record store =
  schedules :: "schedule_row list"
  invocations :: "invocation_row list"
  extensions :: "extension_row list"
  thread_refs :: "thread_ref list"
  fresh :: uuid

section \<open>Records and options\<close>

record executor =
  x_pid :: int
  x_start :: string

datatype liveness = Alive | DescendantsAlive | Dead | UnknownLiveness

datatype tree_liveness = Settled | Unsettled | Unavailable

record invocation_record =
  ir_id :: uuid
  ir_schedule :: uuid
  ir_mode :: invocation_mode
  ir_status :: invocation_status
  ir_scheduled_for :: int
  ir_attempt :: int
  ir_max_attempts :: int
  ir_executor :: "executor option"
  ir_claimed_by :: "string option"
  ir_lease :: "int option"
  ir_retry_at :: "int option"
  ir_thread :: "string option"
  ir_output :: "string option"
  ir_error :: "error_note option"
  ir_pending_actions :: "string list"
  ir_tree_pgids :: "int list"
  ir_tree_groups :: "tracked_group list"
  ir_tree_unsettled :: bool
  ir_tree_survivors :: "int list"
  ir_created :: int
  ir_started :: "int option"
  ir_finished :: "int option"

record schedule_record =
  sr_id :: uuid
  sr_name :: string
  sr_prompt :: string
  sr_cwd :: string
  sr_trigger :: trigger_spec
  sr_status :: schedule_status
  sr_authority :: "string option"
  sr_host :: "string option"
  sr_max_run :: "int option"
  sr_max_rounds :: "int option"
  sr_rounds_started :: int
  sr_last_scheduled :: "(invocation_status \<times> bool) option"
  sr_next_run :: "int option"
  sr_last_run :: "int option"
  sr_last_error :: "error_note option"
  sr_created :: int
  sr_updated :: int

record claim =
  cl_invocation :: invocation_record
  cl_schedule :: schedule_record
  cl_token :: uuid

text \<open>The options of a store and its parameters: the zone database and the two liveness probes.\<close>

record options =
  o_intl :: intl
  o_max_schedules :: nat
  o_claim_lease :: int
  o_retry_budget :: int
  o_retry_backoff :: int
  o_executor_liveness :: "executor \<Rightarrow> liveness"
  o_tree_liveness :: "(invocation_record \<Rightarrow> tree_liveness) option"
  o_max_probes :: int
  o_probe_deferral :: int
  o_retention_count :: nat
  o_retention_ms :: int

section \<open>Decoding\<close>

definition MAX_SAFE_INTEGER :: int where
  "MAX_SAFE_INTEGER = 9007199254740991"

definition isSafeInteger :: "int \<Rightarrow> bool" where
  "isSafeInteger n = (- MAX_SAFE_INTEGER \<le> n \<and> n \<le> MAX_SAFE_INTEGER)"

definition parseTrackedGroups ::
  "json_text option \<Rightarrow> uuid \<Rightarrow> sched_error + tracked_group list" where
  "parseTrackedGroups col iid =
     (case parseTrackedGroupsResult col of
        None \<Rightarrow> Inl (Invalid (BadTreeMetadata iid))
      | Some gs \<Rightarrow> Inr gs)"

definition toExecutorIdentity :: "invocation_row \<Rightarrow> executor option" where
  "toExecutorIdentity row =
     (case (i_executor_pid row, i_executor_start row) of
        (Some p, Some t) \<Rightarrow> Some \<lparr>x_pid = p, x_start = t\<rparr>
      | _ \<Rightarrow> None)"

definition toInvocationRecord :: "invocation_row \<Rightarrow> sched_error + invocation_record" where
  "toInvocationRecord row =
     sum_bind (parseTrackedGroups (i_tree_pgids row) (i_id row))
       (\<lambda>groups. Inr
         \<lparr>ir_id = i_id row, ir_schedule = i_schedule row, ir_mode = i_mode row,
          ir_status = i_status row, ir_scheduled_for = i_scheduled_for row,
          ir_attempt = i_attempt row, ir_max_attempts = i_max_attempts row,
          ir_executor = toExecutorIdentity row, ir_claimed_by = i_claimed_by row,
          ir_lease = i_lease row, ir_retry_at = i_retry_at row, ir_thread = i_thread row,
          ir_output = i_output row, ir_error = i_error row,
          ir_pending_actions = parsePendingActions (i_pending_actions row),
          ir_tree_pgids = map g_pgid groups, ir_tree_groups = groups,
          ir_tree_unsettled = i_tree_unsettled row,
          ir_tree_survivors = parsePidList (i_tree_survivors row),
          ir_created = i_created row, ir_started = i_started row, ir_finished = i_finished row\<rparr>)"

definition validateMaxRunMs :: "int option \<Rightarrow> sched_error + int option" where
  "validateMaxRunMs v =
     (case v of
        None \<Rightarrow> Inr None
      | Some n \<Rightarrow>
          if n < minMaxRunMs SCHEDULER_LIMITS \<or> n > maxRunCeilingMs SCHEDULER_LIMITS
          then Inl (Invalid BadMaxRun) else Inr (Some n))"

definition validateMaxRounds :: "int option \<Rightarrow> sched_error + int option" where
  "validateMaxRounds v =
     (case v of
        None \<Rightarrow> Inr None
      | Some n \<Rightarrow> if \<not> isSafeInteger n \<or> n < 1 then Inl (Invalid BadRounds) else Inr (Some n))"

definition parseHostContext :: "string \<Rightarrow> sched_error + string" where
  "parseHostContext v =
     (if 1 \<le> length v \<and> length v \<le> 8192 then Inr v else Inl (Invalid BadHostContext))"

text \<open>\<open>tree_tracked_pgids IS NOT NULL AND trim(tree_tracked_pgids) != '[]'\<close>.\<close>

definition tree_column_set :: "invocation_row \<Rightarrow> bool" where
  "tree_column_set row = (i_tree_pgids row \<noteq> None \<and> i_tree_pgids row \<noteq> Some (JsonText (JArray [])))"

definition tree_marked :: "invocation_row \<Rightarrow> bool" where
  "tree_marked row = (i_tree_unsettled row \<or> tree_column_set row)"

definition live_status :: "invocation_status \<Rightarrow> bool" where
  "live_status s = (s \<in> {Pending, Claimed, Running, Retry})"

definition in_flight :: "invocation_row \<Rightarrow> bool" where
  "in_flight row = (i_status row \<in> {Claimed, Running})"

text \<open>\<open>OCCUPYING_RUN_SQL\<close>.\<close>

definition occupying :: "invocation_row \<Rightarrow> bool" where
  "occupying row = (in_flight row \<or> (i_status row = Retry \<and> tree_marked row))"

text \<open>The first row a query returns.\<close>

definition first_where :: "('a \<Rightarrow> bool) \<Rightarrow> 'a list \<Rightarrow> 'a option" where
  "first_where p rows = find p rows"

text \<open>The latest scheduled run: \<open>ORDER BY scheduled_for DESC, rowid DESC LIMIT 1\<close>.\<close>

definition latest_scheduled :: "store \<Rightarrow> uuid \<Rightarrow> invocation_row option" where
  "latest_scheduled db sid =
     (let rows = filter (\<lambda>r. i_schedule r = sid \<and> i_mode r = Scheduled) (invocations db)
      in if rows = [] then None else Some (last (sort_key i_scheduled_for rows)))"

definition last_scheduled_run ::
  "store \<Rightarrow> schedule_row \<Rightarrow> int option \<Rightarrow> sched_error + (invocation_status \<times> bool) option" where
  "last_scheduled_run db row maxRounds =
     (case maxRounds of
        None \<Rightarrow> Inr None
      | Some _ \<Rightarrow>
          (case latest_scheduled db (s_id row) of
             None \<Rightarrow> Inr None
           | Some latest \<Rightarrow>
               sum_bind (toInvocationRecord latest)
                 (\<lambda>r. Inr (Some (ir_status r, tree_marked latest)))))"

definition lift_trigger :: "trigger_error + 'a \<Rightarrow> sched_error + 'a" where
  "lift_trigger r = (case r of Inl e \<Rightarrow> Inl (TriggerFailed e) | Inr a \<Rightarrow> Inr a)"

definition toScheduleRecord :: "options \<Rightarrow> schedule_row \<Rightarrow> store \<Rightarrow> sched_error + schedule_record" where
  "toScheduleRecord opt row db =
     sum_bind (validateMaxRounds (s_max_rounds row)) (\<lambda>maxRounds.
     if \<not> isSafeInteger (s_rounds_started row) \<or> s_rounds_started row < 0
     then Inl (Invalid BadRoundsStarted)
     else sum_bind (last_scheduled_run db row maxRounds) (\<lambda>last_run.
     sum_bind (lift_trigger (parseTriggerJson (o_intl opt) (s_trigger row))) (\<lambda>trigger.
     sum_bind (case s_host row of None \<Rightarrow> Inr None
                 | Some v \<Rightarrow> sum_bind (parseHostContext v) (\<lambda>h. Inr (Some h))) (\<lambda>host.
     sum_bind (validateMaxRunMs (s_max_run row)) (\<lambda>maxRun.
       Inr \<lparr>sr_id = s_id row, sr_name = s_name row, sr_prompt = s_prompt row, sr_cwd = s_cwd row,
            sr_trigger = trigger, sr_status = s_status row, sr_authority = s_authority row,
            sr_host = host, sr_max_run = maxRun, sr_max_rounds = maxRounds,
            sr_rounds_started = s_rounds_started row, sr_last_scheduled = last_run,
            sr_next_run = s_next_run row, sr_last_run = s_last_run row,
            sr_last_error = s_last_error row, sr_created = s_created row,
            sr_updated = s_updated row\<rparr>)))))"

definition treeBlocksTerminal :: "options \<Rightarrow> invocation_row \<Rightarrow> bool" where
  "treeBlocksTerminal opt row =
     (case parseTrackedGroupsResult (i_tree_pgids row) of
        None \<Rightarrow> True
      | Some groups \<Rightarrow>
          if \<not> i_tree_unsettled row \<and> groups = [] then False
          else (case o_tree_liveness opt of
                  None \<Rightarrow> True
                | Some probe \<Rightarrow>
                    (case toInvocationRecord row of
                       Inl _ \<Rightarrow> True
                     | Inr r \<Rightarrow> probe r \<noteq> Settled)))"

section \<open>Transactions and queries\<close>

text \<open>A failed transaction leaves the store as it was.\<close>

definition transaction ::
  "store \<Rightarrow> (store \<Rightarrow> sched_error + store \<times> 'a) \<Rightarrow> store \<times> (sched_error + 'a)" where
  "transaction db work =
     (case work db of
        Inl e \<Rightarrow> (db, Inl e)
      | Inr (db', a) \<Rightarrow> (db', Inr a))"

definition randomUUID :: "store \<Rightarrow> uuid \<times> store" where
  "randomUUID db = (fresh db, db\<lparr>fresh := Suc (fresh db)\<rparr>)"

definition find_invocation :: "store \<Rightarrow> uuid \<Rightarrow> invocation_row option" where
  "find_invocation db iid = first_where (\<lambda>r. i_id r = iid) (invocations db)"

definition find_schedule :: "store \<Rightarrow> uuid \<Rightarrow> schedule_row option" where
  "find_schedule db sid = first_where (\<lambda>r. s_id r = sid) (schedules db)"

text \<open>\<open>UPDATE ... SET f WHERE p\<close>: every row that matches is rewritten.\<close>

definition update_invocations ::
  "(invocation_row \<Rightarrow> bool) \<Rightarrow> (invocation_row \<Rightarrow> invocation_row) \<Rightarrow> store \<Rightarrow> store" where
  "update_invocations p f db =
     db\<lparr>invocations := map (\<lambda>r. if p r then f r else r) (invocations db)\<rparr>"

definition update_schedules ::
  "(schedule_row \<Rightarrow> bool) \<Rightarrow> (schedule_row \<Rightarrow> schedule_row) \<Rightarrow> store \<Rightarrow> store" where
  "update_schedules p f db =
     db\<lparr>schedules := map (\<lambda>r. if p r then f r else r) (schedules db)\<rparr>"

definition getInvocation :: "store \<Rightarrow> uuid \<Rightarrow> sched_error + invocation_record option" where
  "getInvocation db iid =
     (case find_invocation db iid of
        None \<Rightarrow> Inr None
      | Some row \<Rightarrow> sum_bind (toInvocationRecord row) (\<lambda>r. Inr (Some r)))"

definition getSchedule :: "options \<Rightarrow> store \<Rightarrow> uuid \<Rightarrow> sched_error + schedule_record option" where
  "getSchedule opt db sid =
     (case find_schedule db sid of
        None \<Rightarrow> Inr None
      | Some row \<Rightarrow> sum_bind (toScheduleRecord opt row db) (\<lambda>r. Inr (Some r)))"

definition requireInvocation :: "store \<Rightarrow> uuid \<Rightarrow> sched_error + invocation_record" where
  "requireInvocation db iid =
     sum_bind (getInvocation db iid) (\<lambda>r. case r of None \<Rightarrow> Inl NotFoundError | Some x \<Rightarrow> Inr x)"

definition requireSchedule :: "options \<Rightarrow> store \<Rightarrow> uuid \<Rightarrow> sched_error + schedule_record" where
  "requireSchedule opt db sid =
     sum_bind (getSchedule opt db sid) (\<lambda>r. case r of None \<Rightarrow> Inl NotFoundError | Some x \<Rightarrow> Inr x)"

definition loadClaim :: "options \<Rightarrow> store \<Rightarrow> uuid \<Rightarrow> uuid \<Rightarrow> sched_error + claim option" where
  "loadClaim opt db iid token =
     sum_bind (getInvocation db iid) (\<lambda>r. case r of
        None \<Rightarrow> Inr None
      | Some invocation \<Rightarrow>
          sum_bind (getSchedule opt db (ir_schedule invocation)) (\<lambda>s. case s of
             None \<Rightarrow> Inr None
           | Some schedule \<Rightarrow>
               Inr (Some \<lparr>cl_invocation = invocation, cl_schedule = schedule, cl_token = token\<rparr>)))"

end
