(* ===== verification/SchedStore.thy ===== *)
theory SchedStore
  imports SchedTypes
begin

text \<open>
  The operations of the schedule ledger (\<open>ScheduleStore\<close> in \<open>schedule-store.ts\<close>). A write
  returns the store it leaves and the error it throws or its result; a transaction that throws leaves
  the store it found. Queries without an explicit order return rows in rowid order, and an explicit
  order breaks ties by rowid. The liveness probes answer the same throughout one operation.
\<close>

section \<open>Settling a schedule and failing a run\<close>

text \<open>\<open>reconcileRoundsInTransaction\<close>: a limited schedule whose rounds are used up is completed
  once no scheduled run of it is live or holds a process tree, and reopened while one is.\<close>

definition scheduled_unsettled :: "store \<Rightarrow> uuid \<Rightarrow> bool" where
  "scheduled_unsettled db sid =
     list_ex (\<lambda>r. i_schedule r = sid \<and> i_mode r = Scheduled
                  \<and> (live_status (i_status r) \<or> tree_marked r)) (invocations db)"

definition rounds_used_up :: "schedule_row \<Rightarrow> bool" where
  "rounds_used_up s = (case s_max_rounds s of None \<Rightarrow> False | Some m \<Rightarrow> m \<le> s_rounds_started s)"

definition reconcileRounds :: "uuid \<Rightarrow> int \<Rightarrow> store \<Rightarrow> store" where
  "reconcileRounds sid nowMs db =
     update_schedules (\<lambda>s. s_id s = sid \<and> rounds_used_up s)
       (\<lambda>s. s\<lparr>s_status := (if \<not> scheduled_unsettled db sid then Completed
                           else if s_status s = Completed then Active else s_status s),
              s_next_run := None, s_updated := nowMs\<rparr>)
       db"

definition fail_row :: "error_note \<Rightarrow> int \<Rightarrow> invocation_row \<Rightarrow> invocation_row" where
  "fail_row error nowMs r =
     r\<lparr>i_status := Failed, i_error := Some error, i_finished := Some nowMs, i_claimed_by := None,
       i_token := None, i_lease := None, i_retry_at := None, i_tree_pgids := None,
       i_tree_unsettled := False, i_tree_survivors := None\<rparr>"

text \<open>The result says whether the run was failed.\<close>

definition finishInvocationAsFailed ::
  "options \<Rightarrow> uuid \<Rightarrow> error_note \<Rightarrow> int \<Rightarrow> bool \<Rightarrow> store \<Rightarrow> store \<times> bool" where
  "finishInvocationAsFailed opt iid error nowMs force db =
     (case find_invocation db iid of
        None \<Rightarrow> (db, False)
      | Some row \<Rightarrow>
          if \<not> force \<and> treeBlocksTerminal opt row then (db, False)
          else
            let db1 = update_invocations (\<lambda>r. i_id r = iid) (fail_row error nowMs) db
            in (if i_mode row = Scheduled then reconcileRounds (i_schedule row) nowMs db1 else db1,
                True))"

definition markTerminalFailure ::
  "options \<Rightarrow> invocation_row \<Rightarrow> error_note \<Rightarrow> int \<Rightarrow> store \<Rightarrow> store" where
  "markTerminalFailure opt row error nowMs db =
     (case finishInvocationAsFailed opt (i_id row) error nowMs False db of
        (db1, False) \<Rightarrow> db1
      | (db1, True) \<Rightarrow>
          update_schedules (\<lambda>s. s_id s = i_schedule row)
            (\<lambda>s. s\<lparr>s_status := (if i_mode row = Scheduled \<and> s_status s \<noteq> Completed then Paused
                                else s_status s),
                   s_last_error := Some error, s_updated := nowMs\<rparr>)
            db1)"

section \<open>Schedules\<close>

record create_input =
  ci_host :: "string option"
  ci_name :: string
  ci_prompt :: string
  ci_cwd :: string
  ci_trigger :: trigger_spec
  ci_fire_immediately :: bool
  ci_expected_first :: "int option"
  ci_authority :: "string option"
  ci_max_run :: "int option"
  ci_max_rounds :: "int option"

record valid_input =
  vi_name :: string
  vi_prompt :: string
  vi_cwd :: string
  vi_trigger :: trigger_spec
  vi_max_run :: "int option"
  vi_max_rounds :: "int option"

definition isAbsolute :: "string \<Rightarrow> bool" where
  "isAbsolute path = starts_with path ''/''"

definition validateCreateInput :: "options \<Rightarrow> create_input \<Rightarrow> sched_error + valid_input" where
  "validateCreateInput opt input =
     sum_bind (case ci_host input of None \<Rightarrow> Inr '''' | Some v \<Rightarrow> parseHostContext v) (\<lambda>_.
     let name = trim (ci_name input); prompt = trim (ci_prompt input)
     in if name = [] \<or> int (length name) > maxNameChars SCHEDULER_LIMITS then Inl (Invalid BadName)
        else if prompt = [] \<or> int (length prompt) > maxPromptChars SCHEDULER_LIMITS
        then Inl (Invalid BadPrompt)
        else if \<not> isAbsolute (ci_cwd input) then Inl (Invalid BadCwd)
        else (case triggerSpecSchema (o_intl opt) (ci_trigger input) of
                None \<Rightarrow> Inl (Invalid BadTrigger)
              | Some trigger \<Rightarrow>
                  sum_bind (validateMaxRunMs (ci_max_run input)) (\<lambda>maxRun.
                  sum_bind (validateMaxRounds (ci_max_rounds input)) (\<lambda>maxRounds.
                    Inr \<lparr>vi_name = name, vi_prompt = prompt, vi_cwd = ci_cwd input,
                         vi_trigger = trigger, vi_max_run = maxRun, vi_max_rounds = maxRounds\<rparr>))))"

definition plain_interval :: "trigger_spec \<Rightarrow> bool" where
  "plain_interval t = (case t of Interval _ None _ \<Rightarrow> True | _ \<Rightarrow> False)"

definition insertSchedule ::
  "options \<Rightarrow> valid_input \<Rightarrow> create_input \<Rightarrow> int \<Rightarrow> store \<Rightarrow> sched_error + store \<times> schedule_record" where
  "insertSchedule opt valid input nowMs db =
     (if length (schedules db) \<ge> o_max_schedules opt then Inl LimitReached
      else if ci_fire_immediately input \<and> \<not> plain_interval (vi_trigger valid)
      then Inl (Invalid FireImmediatelyWithStart)
      else
        let (sid, db1) = randomUUID db
        in sum_bind (if ci_fire_immediately input then Inr nowMs
                     else lift_trigger (computeFirstRunAtMs (o_intl opt) (vi_trigger valid) nowMs))
             (\<lambda>nextRunAt.
               if ci_expected_first input \<noteq> None \<and> ci_expected_first input \<noteq> Some nextRunAt
               then Inl (Invalid FirstRunChanged)
               else
                 let db2 = db1\<lparr>schedules := schedules db1 @
                   [\<lparr>s_id = sid, s_name = vi_name valid, s_prompt = vi_prompt valid,
                     s_cwd = vi_cwd valid, s_trigger = TriggerJson (vi_trigger valid),
                     s_status = Active, s_authority = ci_authority input, s_host = ci_host input,
                     s_max_run = vi_max_run valid, s_max_rounds = vi_max_rounds valid,
                     s_rounds_started = 0, s_next_run = Some nextRunAt, s_last_run = None,
                     s_last_error = None, s_created = nowMs, s_updated = nowMs\<rparr>]\<rparr>
                 in sum_bind (requireSchedule opt db2 sid) (\<lambda>r. Inr (db2, r))))"

definition createSchedule ::
  "options \<Rightarrow> create_input \<Rightarrow> int \<Rightarrow> store \<Rightarrow> store \<times> (sched_error + schedule_record)" where
  "createSchedule opt input nowMs db =
     (case validateCreateInput opt input of
        Inl e \<Rightarrow> (db, Inl e)
      | Inr valid \<Rightarrow> transaction db (insertSchedule opt valid input nowMs))"

definition run_cap :: "int option \<Rightarrow> int" where
  "run_cap v = (case v of None \<Rightarrow> maxRunMs SCHEDULER_LIMITS | Some n \<Rightarrow> n)"

definition same_task :: "valid_input \<Rightarrow> create_input \<Rightarrow> schedule_row \<Rightarrow> bool" where
  "same_task valid input s =
     (s_status s = Active \<and> s_prompt s = vi_prompt valid \<and> s_cwd s = vi_cwd valid
      \<and> s_trigger s = TriggerJson (vi_trigger valid)
      \<and> run_cap (s_max_run s) = run_cap (vi_max_run valid)
      \<and> s_max_rounds s = vi_max_rounds valid \<and> s_host s = ci_host input)"

record create_result =
  cr_created :: bool
  cr_reauthorized :: bool
  cr_schedule :: schedule_record

definition create_or_reuse ::
  "options \<Rightarrow> valid_input \<Rightarrow> create_input \<Rightarrow> int \<Rightarrow> store \<Rightarrow> sched_error + store \<times> create_result" where
  "create_or_reuse opt valid input nowMs db =
     (case first_where (same_task valid input) (schedules db) of
        Some existing \<Rightarrow>
          if s_authority existing \<noteq> ci_authority input
          then let db1 = update_schedules (\<lambda>s. s_id s = s_id existing)
                           (\<lambda>s. s\<lparr>s_authority := ci_authority input, s_updated := nowMs\<rparr>) db
               in sum_bind (requireSchedule opt db1 (s_id existing))
                    (\<lambda>r. Inr (db1, \<lparr>cr_created = False, cr_reauthorized = True, cr_schedule = r\<rparr>))
          else sum_bind (toScheduleRecord opt existing db)
                 (\<lambda>r. Inr (db, \<lparr>cr_created = False, cr_reauthorized = False, cr_schedule = r\<rparr>))
      | None \<Rightarrow>
          sum_bind (insertSchedule opt valid input nowMs db)
            (\<lambda>(db1, r). Inr (db1, \<lparr>cr_created = True, cr_reauthorized = False, cr_schedule = r\<rparr>)))"

definition createScheduleIdempotent ::
  "options \<Rightarrow> create_input \<Rightarrow> int \<Rightarrow> store \<Rightarrow> store \<times> (sched_error + create_result)" where
  "createScheduleIdempotent opt input nowMs db =
     (case validateCreateInput opt input of
        Inl e \<Rightarrow> (db, Inl e)
      | Inr valid \<Rightarrow> transaction db (create_or_reuse opt valid input nowMs))"

definition setAuthorityDigest :: "uuid \<Rightarrow> string \<Rightarrow> int \<Rightarrow> store \<Rightarrow> store \<times> bool" where
  "setAuthorityDigest sid digest nowMs db =
     (update_schedules (\<lambda>s. s_id s = sid)
        (\<lambda>s. s\<lparr>s_authority := Some digest, s_updated := nowMs\<rparr>) db,
      find_schedule db sid \<noteq> None)"

definition resumeSchedule ::
  "uuid \<Rightarrow> string \<Rightarrow> int \<Rightarrow> store \<Rightarrow> store \<times> (sched_error + bool)" where
  "resumeSchedule sid digest nowMs db = transaction db (\<lambda>db.
     if map_option s_status (find_schedule db sid) = Some Completed
     then Inl (Invalid RoundsExhausted)
     else
       let db1 = update_schedules (\<lambda>s. s_id s = sid)
                   (\<lambda>s. s\<lparr>s_status := Active, s_authority := Some digest, s_updated := nowMs\<rparr>) db
       in Inr (reconcileRounds sid nowMs db1, find_schedule db sid \<noteq> None))"

fun fail_all :: "options \<Rightarrow> error_note \<Rightarrow> int \<Rightarrow> uuid list \<Rightarrow> store \<Rightarrow> store" where
  "fail_all opt error nowMs [] db = db"
| "fail_all opt error nowMs (iid # iids) db =
     fail_all opt error nowMs iids (fst (finishInvocationAsFailed opt iid error nowMs False db))"

definition setScheduleStatus ::
  "options \<Rightarrow> uuid \<Rightarrow> schedule_status \<Rightarrow> int \<Rightarrow> store \<Rightarrow> store \<times> (sched_error + bool)" where
  "setScheduleStatus opt sid status nowMs db = transaction db (\<lambda>db.
     case find_schedule db sid of
       None \<Rightarrow> Inr (db, False)
     | Some schedule \<Rightarrow>
         if s_status schedule = Completed
         then (if status = Active then Inl (Invalid RoundsExhausted) else Inr (db, True))
         else if status = Completed then Inl (Invalid CompletedIsDerived)
         else
           let db1 = update_schedules (\<lambda>s. s_id s = sid)
                       (\<lambda>s. s\<lparr>s_status := status, s_updated := nowMs\<rparr>) db;
               retrying = map i_id (filter (\<lambda>r. i_schedule r = sid \<and> i_mode r = Scheduled
                                                 \<and> i_status r = Retry) (invocations db1));
               db2 = (if status = Paused then fail_all opt PausedDropsRetry nowMs retrying db1
                      else db1)
           in Inr (reconcileRounds sid nowMs db2, True))"

definition removeSchedule :: "uuid \<Rightarrow> bool \<Rightarrow> store \<Rightarrow> store \<times> (sched_error + bool)" where
  "removeSchedule sid abandon db = transaction db (\<lambda>db.
     case (if abandon then None
           else first_where (\<lambda>r. i_schedule r = sid \<and> occupying r) (invocations db)) of
       Some r \<Rightarrow> Inl (Invalid (OccupiedBy (i_id r)))
     | None \<Rightarrow>
         Inr (db\<lparr>schedules := filter (\<lambda>s. s_id s \<noteq> sid) (schedules db),
                 invocations := filter (\<lambda>r. i_schedule r \<noteq> sid) (invocations db),
                 extensions := filter (\<lambda>x. e_schedule x \<noteq> sid) (extensions db)\<rparr>,
              find_schedule db sid \<noteq> None))"

section \<open>Extending the rounds\<close>

record extend_input =
  xi_schedule :: uuid
  xi_additional :: int
  xi_expected :: int
  xi_request :: string
  xi_authority :: string

definition getScheduleExtension :: "store \<Rightarrow> string \<Rightarrow> extension_row option" where
  "getScheduleExtension db request = first_where (\<lambda>x. e_request x = request) (extensions db)"

definition validateExtendInput :: "extend_input \<Rightarrow> sched_error + unit" where
  "validateExtendInput input =
     sum_bind (validateMaxRounds (Some (xi_additional input))) (\<lambda>_.
     sum_bind (validateMaxRounds (Some (xi_expected input))) (\<lambda>_.
       if \<not> isSafeInteger (xi_expected input + xi_additional input) then Inl (Invalid BadExtension)
       else if trim (xi_request input) = [] \<or> length (xi_request input) > 128
       then Inl (Invalid BadRequestId)
       else if trim (xi_authority input) = [] then Inl (Invalid BadAuthority)
       else Inr ()))"

definition any_unsettled :: "store \<Rightarrow> uuid \<Rightarrow> bool" where
  "any_unsettled db sid =
     list_ex (\<lambda>r. i_schedule r = sid \<and> (live_status (i_status r) \<or> tree_marked r)) (invocations db)"

definition MAX_DATE_MS :: int where
  "MAX_DATE_MS = 8640000000000000"

definition grant_extension ::
  "options \<Rightarrow> extend_input \<Rightarrow> schedule_record \<Rightarrow> int \<Rightarrow> int \<Rightarrow> store
    \<Rightarrow> sched_error + store \<times> (bool \<times> schedule_record)" where
  "grant_extension opt input schedule nextRunAt nowMs db =
     (if list_ex (\<lambda>x. e_request x = xi_request input
                    \<or> (e_schedule x = sr_id schedule \<and> e_expected x = xi_expected input))
           (extensions db)
      then Inl ConstraintViolation
      else
        let db1 = db\<lparr>extensions := extensions db @
              [\<lparr>e_request = xi_request input, e_schedule = sr_id schedule,
                e_expected = xi_expected input, e_additional = xi_additional input,
                e_authority = xi_authority input, e_created = nowMs\<rparr>]\<rparr>;
            db2 = update_schedules (\<lambda>s. s_id s = sr_id schedule)
              (\<lambda>s. s\<lparr>s_max_rounds := Some (xi_expected input + xi_additional input),
                     s_authority := Some (xi_authority input), s_status := Active,
                     s_next_run := Some nextRunAt, s_updated := nowMs\<rparr>) db1
        in sum_bind (requireSchedule opt db2 (sr_id schedule)) (\<lambda>r. Inr (db2, (True, r))))"

definition extend_in_transaction ::
  "options \<Rightarrow> extend_input \<Rightarrow> int \<Rightarrow> store \<Rightarrow> sched_error + store \<times> (bool \<times> schedule_record)" where
  "extend_in_transaction opt input nowMs db =
     (case getScheduleExtension db (xi_request input) of
        Some receipt \<Rightarrow>
          if e_schedule receipt \<noteq> xi_schedule input \<or> e_expected receipt \<noteq> xi_expected input
             \<or> e_additional receipt \<noteq> xi_additional input
          then Inl (Invalid RequestIdReused)
          else sum_bind (requireSchedule opt db (xi_schedule input)) (\<lambda>r. Inr (db, (False, r)))
      | None \<Rightarrow>
          sum_bind (requireSchedule opt db (xi_schedule input)) (\<lambda>schedule.
            if sr_max_rounds schedule = None then Inl (Invalid UnlimitedRounds)
            else if sr_max_rounds schedule \<noteq> Some (xi_expected input)
            then Inl (Invalid ExtensionStale)
            else if sr_status schedule \<noteq> Completed
                    \<or> Some (sr_rounds_started schedule) \<noteq> sr_max_rounds schedule
            then Inl (Invalid NotExtendable)
            else if any_unsettled db (sr_id schedule) then Inl (Invalid RunsUnsettled)
            else sum_bind (lift_trigger (computeNextRunAtMs (o_intl opt) (sr_trigger schedule) nowMs))
              (\<lambda>nextRunAt.
                if \<not> isSafeInteger nowMs \<or> \<not> isSafeInteger nextRunAt \<or> \<bar>nextRunAt\<bar> > MAX_DATE_MS
                then Inl (Invalid BadExtensionTime)
                else grant_extension opt input schedule nextRunAt nowMs db)))"

definition extendSchedule ::
  "options \<Rightarrow> extend_input \<Rightarrow> int \<Rightarrow> store \<Rightarrow> store \<times> (sched_error + bool \<times> schedule_record)" where
  "extendSchedule opt input nowMs db =
     (case validateExtendInput input of
        Inl e \<Rightarrow> (db, Inl e)
      | Inr _ \<Rightarrow> transaction db (extend_in_transaction opt input nowMs))"

section \<open>Manual runs\<close>

definition new_row :: "uuid \<Rightarrow> uuid \<Rightarrow> invocation_mode \<Rightarrow> int \<Rightarrow> int \<Rightarrow> int \<Rightarrow> invocation_row" where
  "new_row iid sid mode scheduledFor maxAttempts nowMs =
     \<lparr>i_id = iid, i_schedule = sid, i_mode = mode, i_status = Pending,
      i_scheduled_for = scheduledFor, i_attempt = 0, i_max_attempts = maxAttempts,
      i_executor_pid = None, i_executor_start = None, i_probed_at = None, i_claimed_by = None,
      i_token = None, i_lease = None, i_retry_at = None, i_thread = None, i_output = None,
      i_error = None, i_pending_actions = JsonText (JArray []), i_created = nowMs,
      i_started = None, i_finished = None, i_tree_pgids = None, i_tree_unsettled = False,
      i_tree_survivors = None\<rparr>"

text \<open>\<open>INSERT OR IGNORE\<close>: nothing is inserted when the slot is taken. \<open>None\<close> is no change.\<close>

definition slot_taken :: "store \<Rightarrow> uuid \<Rightarrow> invocation_mode \<Rightarrow> int \<Rightarrow> bool" where
  "slot_taken db sid mode scheduledFor =
     list_ex (\<lambda>r. i_schedule r = sid \<and> i_mode r = mode \<and> i_scheduled_for r = scheduledFor)
       (invocations db)"

definition insert_or_ignore :: "invocation_row \<Rightarrow> store \<Rightarrow> store option" where
  "insert_or_ignore row db =
     (if slot_taken db (i_schedule row) (i_mode row) (i_scheduled_for row)
         \<or> find_invocation db (i_id row) \<noteq> None
      then None else Some (db\<lparr>invocations := invocations db @ [row]\<rparr>))"

fun enqueue_loop ::
  "uuid \<Rightarrow> uuid \<Rightarrow> int \<Rightarrow> int \<Rightarrow> nat list \<Rightarrow> store \<Rightarrow> sched_error + store \<times> invocation_record" where
  "enqueue_loop iid sid maxAttempts nowMs [] db = Inl (Invalid EnqueueExhausted)"
| "enqueue_loop iid sid maxAttempts nowMs (offset # offsets) db =
     (case insert_or_ignore (new_row iid sid Manual (nowMs + int offset) maxAttempts nowMs) db of
        Some db1 \<Rightarrow> sum_bind (requireInvocation db1 iid) (\<lambda>r. Inr (db1, r))
      | None \<Rightarrow> enqueue_loop iid sid maxAttempts nowMs offsets db)"

definition enqueueManualInvocation ::
  "options \<Rightarrow> uuid \<Rightarrow> int \<Rightarrow> int option \<Rightarrow> store \<Rightarrow> store \<times> (sched_error + invocation_record)" where
  "enqueueManualInvocation opt sid nowMs attempts db = transaction db (\<lambda>db.
     sum_bind (requireSchedule opt db sid) (\<lambda>_.
       let (iid, db1) = randomUUID db
       in enqueue_loop iid sid
            (max 1 (case attempts of None \<Rightarrow> o_retry_budget opt | Some n \<Rightarrow> n)) nowMs [0..<1000] db1))"

definition claim_row ::
  "options \<Rightarrow> string \<Rightarrow> uuid \<Rightarrow> int \<Rightarrow> int \<Rightarrow> invocation_row \<Rightarrow> invocation_row" where
  "claim_row opt worker token attempt nowMs r =
     r\<lparr>i_status := Claimed, i_claimed_by := Some worker, i_token := Some token,
       i_lease := Some (nowMs + o_claim_lease opt), i_attempt := attempt, i_retry_at := None\<rparr>"

definition other_occupying :: "store \<Rightarrow> uuid \<Rightarrow> uuid \<Rightarrow> bool" where
  "other_occupying db sid iid =
     list_ex (\<lambda>o'. i_schedule o' = sid \<and> i_id o' \<noteq> iid \<and> occupying o') (invocations db)"

definition claimPendingInvocation ::
  "options \<Rightarrow> uuid \<Rightarrow> string \<Rightarrow> int \<Rightarrow> store \<Rightarrow> store \<times> (sched_error + claim option)" where
  "claimPendingInvocation opt iid worker nowMs db = transaction db (\<lambda>db.
     let (token, db1) = randomUUID db
     in case find_invocation db1 iid of
          Some row \<Rightarrow>
            if i_status row = Pending \<and> \<not> other_occupying db1 (i_schedule row) iid
            then let db2 = update_invocations (\<lambda>r. i_id r = iid)
                             (claim_row opt worker token 1 nowMs) db1
                 in sum_bind (loadClaim opt db2 iid token) (\<lambda>c. Inr (db2, c))
            else Inr (db1, None)
        | None \<Rightarrow> Inr (db1, None))"

definition discardPendingInvocation :: "uuid \<Rightarrow> store \<Rightarrow> store \<times> bool" where
  "discardPendingInvocation iid db =
     (db\<lparr>invocations := filter (\<lambda>r. \<not> (i_id r = iid \<and> i_status r = Pending)) (invocations db)\<rparr>,
      list_ex (\<lambda>r. i_id r = iid \<and> i_status r = Pending) (invocations db))"

section \<open>Cancelling\<close>

datatype cancel_outcome =
    Cancelled | CancelNotFound | CancelTerminal | OwnershipChanged | ExecutorAlive
  | ExecutorUnknown | CancelTreeUnsettled

record revision =
  rv_token :: "uuid option"
  rv_attempt :: "int option"
  rv_claimed_by :: "string option"

definition executorBlocksCancel :: "options \<Rightarrow> invocation_row \<Rightarrow> bool \<Rightarrow> cancel_outcome option" where
  "executorBlocksCancel opt row abandon =
     (if i_status row \<noteq> Running \<or> abandon then None
      else case (case toExecutorIdentity row of
                   None \<Rightarrow> UnknownLiveness | Some x \<Rightarrow> o_executor_liveness opt x) of
             Alive \<Rightarrow> Some ExecutorAlive
           | DescendantsAlive \<Rightarrow> Some ExecutorAlive
           | UnknownLiveness \<Rightarrow> Some ExecutorUnknown
           | Dead \<Rightarrow> None)"

definition revisionMismatch :: "invocation_row option \<Rightarrow> revision \<Rightarrow> cancel_outcome option" where
  "revisionMismatch row rv =
     (case row of
        None \<Rightarrow> Some CancelNotFound
      | Some r \<Rightarrow>
          if rv_token rv \<noteq> None \<and> i_token r \<noteq> rv_token rv then Some OwnershipChanged
          else if rv_attempt rv \<noteq> None \<and> Some (i_attempt r) \<noteq> rv_attempt rv
          then Some OwnershipChanged
          else if rv_claimed_by rv \<noteq> None \<and> i_claimed_by r \<noteq> rv_claimed_by rv
          then Some OwnershipChanged
          else None)"

definition cancel_in_transaction ::
  "options \<Rightarrow> invocation_row option \<Rightarrow> error_note \<Rightarrow> int \<Rightarrow> bool \<Rightarrow> revision \<Rightarrow> bool \<Rightarrow> store
    \<Rightarrow> store \<times> cancel_outcome" where
  "cancel_in_transaction opt row reason nowMs abandon rv executorChecked db =
     (case (revisionMismatch row rv, row) of
        (Some out, _) \<Rightarrow> (db, out)
      | (None, None) \<Rightarrow> (db, CancelNotFound)
      | (None, Some r) \<Rightarrow>
          if \<not> live_status (i_status r) then (db, CancelTerminal)
          else (case (if executorChecked then None else executorBlocksCancel opt r abandon) of
                  Some out \<Rightarrow> (db, out)
                | None \<Rightarrow>
                    if \<not> abandon \<and> treeBlocksTerminal opt r then (db, CancelTreeUnsettled)
                    else (case finishInvocationAsFailed opt (i_id r) reason nowMs abandon db of
                            (db1, True) \<Rightarrow> (db1, Cancelled)
                          | (db1, False) \<Rightarrow> (db1, CancelTreeUnsettled))))"

definition cancelInvocation ::
  "options \<Rightarrow> uuid \<Rightarrow> error_note \<Rightarrow> int \<Rightarrow> bool \<Rightarrow> revision \<Rightarrow> store \<Rightarrow> store \<times> cancel_outcome" where
  "cancelInvocation opt iid reason nowMs abandon rv db =
     cancel_in_transaction opt (find_invocation db iid) reason nowMs abandon rv False db"

record tree_input =
  ti_groups :: "tracked_group list option"
  ti_unsettled :: bool
  ti_survivors :: "int list option"

definition default_list :: "'a list option \<Rightarrow> 'a list" where
  "default_list xs = (case xs of None \<Rightarrow> [] | Some ys \<Rightarrow> ys)"

definition tree_row :: "tree_input \<Rightarrow> error_note option \<Rightarrow> invocation_row \<Rightarrow> invocation_row" where
  "tree_row tree error r =
     (let groups = (if ti_unsettled tree then default_list (ti_groups tree) else [])
      in r\<lparr>i_tree_pgids := (if groups \<noteq> [] then Some (encodeTrackedGroups groups) else None),
           i_tree_unsettled := ti_unsettled tree,
           i_tree_survivors := Some (encodePidList
             (if ti_unsettled tree then default_list (ti_survivors tree) else [])),
           i_error := (case error of None \<Rightarrow> i_error r | Some e \<Rightarrow> Some e)\<rparr>)"

text \<open>\<open>writeInvocationTreeInTransaction\<close> with an ownership token, and with an attempt.\<close>

definition recordInvocationTree ::
  "uuid \<Rightarrow> uuid \<Rightarrow> tree_input \<Rightarrow> error_note option \<Rightarrow> store \<Rightarrow> store \<times> bool" where
  "recordInvocationTree iid token tree error db =
     (let p = (\<lambda>r. i_id r = iid \<and> i_token r = Some token \<and> in_flight r)
      in (update_invocations p (tree_row tree error) db, list_ex p (invocations db)))"

definition write_tree_by_attempt ::
  "uuid \<Rightarrow> int \<Rightarrow> tree_input \<Rightarrow> store \<Rightarrow> store \<times> bool" where
  "write_tree_by_attempt iid attempt tree db =
     (let p = (\<lambda>r. i_id r = iid \<and> i_attempt r = attempt \<and> i_status r \<in> {Claimed, Running, Retry})
      in (update_invocations p (tree_row tree None) db, list_ex p (invocations db)))"

record finalize_input =
  fi_id :: uuid
  fi_reason :: error_note
  fi_now :: int
  fi_attempt :: int
  fi_claimed_by :: "string option"
  fi_token :: "uuid option"
  fi_tree :: "tree_input option"
  fi_abandon :: bool

definition tree_bearing :: "invocation_row \<Rightarrow> bool" where
  "tree_bearing r = (i_status r \<in> {Claimed, Running, Retry})"

definition finalizeCancellation ::
  "options \<Rightarrow> finalize_input \<Rightarrow> store \<Rightarrow> store \<times> cancel_outcome" where
  "finalizeCancellation opt input db =
     (let rv = \<lparr>rv_token = fi_token input, rv_attempt = Some (fi_attempt input),
                rv_claimed_by = fi_claimed_by input\<rparr>;
          row = find_invocation db (fi_id input)
      in case (revisionMismatch row rv, row) of
           (Some out, _) \<Rightarrow> (db, out)
         | (None, None) \<Rightarrow> (db, CancelNotFound)
         | (None, Some r) \<Rightarrow>
             if \<not> fi_abandon input \<and> parseTrackedGroupsResult (i_tree_pgids r) = None
             then (db, CancelTreeUnsettled)
             else (case executorBlocksCancel opt r (fi_abandon input) of
                     Some out \<Rightarrow> (db, out)
                   | None \<Rightarrow>
                       (case (if tree_bearing r then fi_tree input else None) of
                          None \<Rightarrow>
                            cancel_in_transaction opt (find_invocation db (fi_id input))
                              (fi_reason input) (fi_now input) (fi_abandon input) rv True db
                        | Some tree \<Rightarrow>
                            (case write_tree_by_attempt (fi_id input) (fi_attempt input) tree db of
                               (db1, False) \<Rightarrow> (db1, OwnershipChanged)
                             | (db1, True) \<Rightarrow>
                                 cancel_in_transaction opt (find_invocation db1 (fi_id input))
                                   (fi_reason input) (fi_now input) (fi_abandon input) rv True db1))))"

section \<open>Claiming what is due\<close>

datatype probe_result = ProbedDead | ProbedNotDead | Deferred

definition defer_row :: "options \<Rightarrow> int \<Rightarrow> invocation_row \<Rightarrow> store \<Rightarrow> store" where
  "defer_row opt nowMs row db =
     update_invocations (\<lambda>r. i_id r = i_id row)
       (\<lambda>r. if i_status row = Retry then r\<lparr>i_retry_at := Some (nowMs + o_claim_lease opt)\<rparr>
            else r\<lparr>i_lease := Some (nowMs + o_claim_lease opt)\<rparr>) db"

definition pause_invalid :: "uuid \<Rightarrow> sched_error \<Rightarrow> int \<Rightarrow> store \<Rightarrow> store" where
  "pause_invalid sid error nowMs db =
     update_schedules (\<lambda>s. s_id s = sid)
       (\<lambda>s. s\<lparr>s_status := Paused, s_last_error := Some (ConfigUnreadable error),
              s_updated := nowMs\<rparr>) db"

definition decode_for_claim ::
  "options \<Rightarrow> schedule_row \<Rightarrow> int \<Rightarrow> store \<Rightarrow> store \<times> schedule_record option" where
  "decode_for_claim opt row nowMs db =
     (case toScheduleRecord opt row db of
        Inr r \<Rightarrow> (db, Some r)
      | Inl e \<Rightarrow> (pause_invalid (s_id row) e nowMs db, None))"

definition load_for_claim ::
  "options \<Rightarrow> uuid \<Rightarrow> int \<Rightarrow> store \<Rightarrow> store \<times> schedule_record option" where
  "load_for_claim opt sid nowMs db =
     (case find_schedule db sid of
        None \<Rightarrow> (db, None)
      | Some row \<Rightarrow> decode_for_claim opt row nowMs db)"

record claim_input =
  cd_worker :: string
  cd_now :: int
  cd_limit :: int
  cd_held :: "uuid list"

definition due :: "int \<Rightarrow> int option \<Rightarrow> bool" where
  "due nowMs t = (case t of None \<Rightarrow> False | Some x \<Rightarrow> x \<le> nowMs)"

definition claimable :: "int \<Rightarrow> invocation_row \<Rightarrow> bool" where
  "claimable nowMs r =
     (i_status r = Pending \<or> (i_status r = Retry \<and> due nowMs (i_retry_at r))
      \<or> (in_flight r \<and> due nowMs (i_lease r)))"

text \<open>The rows of the join with the schedules, oldest slot first.\<close>

definition live_rows :: "int \<Rightarrow> store \<Rightarrow> invocation_row list" where
  "live_rows nowMs db =
     sort_key i_scheduled_for (sort_key i_created
       (filter (\<lambda>r. claimable nowMs r \<and> find_schedule db (i_schedule r) \<noteq> None) (invocations db)))"

definition probe_candidates :: "claim_input \<Rightarrow> invocation_row list \<Rightarrow> invocation_row list" where
  "probe_candidates input rows =
     sort_key (\<lambda>r. case i_probed_at r of None \<Rightarrow> -1 | Some t \<Rightarrow> t)
       (filter (\<lambda>r. i_status r = Running \<and> i_id r \<notin> set (cd_held input)
                    \<and> toExecutorIdentity r \<noteq> None) rows)"

fun probe_loop ::
  "options \<Rightarrow> int \<Rightarrow> int \<Rightarrow> invocation_row list \<Rightarrow> (uuid \<Rightarrow> probe_result option) \<Rightarrow> store
    \<Rightarrow> store \<times> (uuid \<Rightarrow> probe_result option)" where
  "probe_loop opt nowMs probesLeft [] results db = (db, results)"
| "probe_loop opt nowMs probesLeft (row # rows) results db =
     (case toExecutorIdentity row of
        None \<Rightarrow> probe_loop opt nowMs probesLeft rows results db
      | Some executor \<Rightarrow>
          if probesLeft \<le> 0
          then probe_loop opt nowMs probesLeft rows (results(i_id row \<mapsto> Deferred)) db
          else probe_loop opt nowMs (probesLeft - 1) rows
                 (results(i_id row \<mapsto> (if o_executor_liveness opt executor = Dead then ProbedDead
                                         else ProbedNotDead)))
                 (update_invocations (\<lambda>r. i_id r = i_id row) (\<lambda>r. r\<lparr>i_probed_at := Some nowMs\<rparr>) db))"

definition extend_lease :: "uuid \<Rightarrow> int \<Rightarrow> store \<Rightarrow> store" where
  "extend_lease iid leaseUntil db =
     update_invocations (\<lambda>r. i_id r = iid) (\<lambda>r. r\<lparr>i_lease := Some leaseUntil\<rparr>) db"

fun sift_loop ::
  "options \<Rightarrow> claim_input \<Rightarrow> (uuid \<Rightarrow> probe_result option) \<Rightarrow> invocation_row list
    \<Rightarrow> invocation_row list \<Rightarrow> store \<Rightarrow> store \<times> invocation_row list" where
  "sift_loop opt input probes [] reclaimable db = (db, reclaimable)"
| "sift_loop opt input probes (row # rows) reclaimable db =
     (if in_flight row \<and> (i_id row \<in> set (cd_held input) \<or> probes (i_id row) = Some ProbedNotDead)
      then sift_loop opt input probes rows reclaimable
             (extend_lease (i_id row) (cd_now input + o_claim_lease opt) db)
      else if probes (i_id row) = Some Deferred
      then sift_loop opt input probes rows reclaimable
             (extend_lease (i_id row) (cd_now input + o_probe_deferral opt) db)
      else sift_loop opt input probes rows (reclaimable @ [row]) db)"

text \<open>What the loop does with one reclaimable row: the row is as it was read, the store as it is now.\<close>

definition reclaim_row ::
  "options \<Rightarrow> claim_input \<Rightarrow> invocation_row \<Rightarrow> store \<Rightarrow> sched_error + store \<times> claim option" where
  "reclaim_row opt input row db =
     (let nowMs = cd_now input in
      if parseTrackedGroupsResult (i_tree_pgids row) = None
      then Inr (defer_row opt nowMs row db, None)
      else case load_for_claim opt (i_schedule row) nowMs db of
        (db1, None) \<Rightarrow>
          Inr (if i_status row \<noteq> Pending then defer_row opt nowMs row db1 else db1, None)
      | (db1, Some schedule) \<Rightarrow>
          if i_mode row = Scheduled \<and> sr_status schedule = Paused
          then Inr (if treeBlocksTerminal opt row then defer_row opt nowMs row db1
                    else fst (finishInvocationAsFailed opt (i_id row) PausedDropsRun nowMs False db1),
                    None)
          else if other_occupying db1 (i_schedule row) (i_id row) then Inr (db1, None)
          else
            let attempt = (if i_status row = Pending then 1 else i_attempt row + 1)
            in if attempt > i_max_attempts row
               then Inr (if treeBlocksTerminal opt row then defer_row opt nowMs row db1
                         else markTerminalFailure opt row
                                (BudgetExhausted (i_max_attempts row) (i_error row)) nowMs db1,
                         None)
               else
                 let (token, db2) = randomUUID db1;
                     db3 = update_invocations (\<lambda>r. i_id r = i_id row)
                             (claim_row opt (cd_worker input) token attempt nowMs) db2
                 in sum_bind (loadClaim opt db3 (i_id row) token) (\<lambda>c. Inr (db3, c)))"

definition add_claim :: "claim list \<Rightarrow> claim option \<Rightarrow> claim list" where
  "add_claim claimed c = (case c of None \<Rightarrow> claimed | Some x \<Rightarrow> claimed @ [x])"

fun reclaim_loop ::
  "options \<Rightarrow> claim_input \<Rightarrow> invocation_row list \<Rightarrow> claim list \<Rightarrow> store
    \<Rightarrow> sched_error + store \<times> claim list" where
  "reclaim_loop opt input [] claimed db = Inr (db, claimed)"
| "reclaim_loop opt input (row # rows) claimed db =
     (if int (length claimed) \<ge> cd_limit input then Inr (db, claimed)
      else sum_bind (reclaim_row opt input row db)
             (\<lambda>(db1, c). reclaim_loop opt input rows (add_claim claimed c) db1))"

definition due_schedules :: "options \<Rightarrow> int \<Rightarrow> store \<Rightarrow> schedule_row list" where
  "due_schedules opt nowMs db =
     take (o_max_schedules opt)
       (sort_key (\<lambda>s. the (s_next_run s)) (sort_key s_created
         (filter (\<lambda>s. s_status s = Active \<and> due nowMs (s_next_run s) \<and> \<not> rounds_used_up s
                      \<and> \<not> list_ex (\<lambda>r. i_schedule r = s_id s \<and> live_status (i_status r))
                              (invocations db))
           (schedules db))))"

text \<open>The update of the schedule after the slot was inserted (1) or skipped (0).\<close>

definition start_round :: "int \<Rightarrow> int \<Rightarrow> int \<Rightarrow> schedule_row \<Rightarrow> schedule_row" where
  "start_round delta nextRunAt nowMs s =
     s\<lparr>s_rounds_started := s_rounds_started s + delta,
       s_next_run := (if s_max_rounds s \<noteq> None \<and> s_rounds_started s + delta \<ge> the (s_max_rounds s)
                      then None else Some nextRunAt),
       s_updated := nowMs\<rparr>"

definition fire_schedule ::
  "options \<Rightarrow> claim_input \<Rightarrow> schedule_row \<Rightarrow> store \<Rightarrow> sched_error + store \<times> claim option" where
  "fire_schedule opt input row db =
     (let nowMs = cd_now input in
      case decode_for_claim opt row nowMs db of
        (db1, None) \<Rightarrow> Inr (db1, None)
      | (db1, Some schedule) \<Rightarrow>
          let (iid, db2) = randomUUID db1;
              (token, db3) = randomUUID db2;
              slot = (case s_next_run row of None \<Rightarrow> nowMs | Some t \<Rightarrow> t);
              new = claim_row opt (cd_worker input) token 1 nowMs
                      (new_row iid (s_id row) Scheduled slot (o_retry_budget opt) nowMs);
              inserted = insert_or_ignore new db3;
              delta = (if inserted = None then 0 else 1);
              db4 = (case inserted of None \<Rightarrow> db3 | Some db' \<Rightarrow> db')
          in sum_bind (lift_trigger (computeNextRunAtMs (o_intl opt) (sr_trigger schedule) nowMs))
               (\<lambda>nextRunAt.
                 let db5 = update_schedules (\<lambda>s. s_id s = s_id row)
                             (start_round delta nextRunAt nowMs) db4
                 in if list_ex (\<lambda>s. s_id s = s_id row \<and> s_rounds_started s > MAX_SAFE_INTEGER)
                         (schedules db5)
                    then Inl ConstraintViolation
                    else if delta = 1
                    then sum_bind (loadClaim opt db5 iid token) (\<lambda>c. Inr (db5, c))
                    else Inr (db5, None)))"

fun fire_loop ::
  "options \<Rightarrow> claim_input \<Rightarrow> schedule_row list \<Rightarrow> claim list \<Rightarrow> store
    \<Rightarrow> sched_error + store \<times> claim list" where
  "fire_loop opt input [] claimed db = Inr (db, claimed)"
| "fire_loop opt input (row # rows) claimed db =
     (if int (length claimed) \<ge> cd_limit input then Inr (db, claimed)
      else sum_bind (fire_schedule opt input row db)
             (\<lambda>(db1, c). fire_loop opt input rows (add_claim claimed c) db1))"

text \<open>The first half of a claim: probe some running executors, renew the leases of what is held or
  alive, and return the rows left to reclaim.\<close>

definition sift_live_rows :: "options \<Rightarrow> claim_input \<Rightarrow> store \<Rightarrow> store \<times> invocation_row list" where
  "sift_live_rows opt input db =
     (let rows = live_rows (cd_now input) db;
          (db1, probes) = probe_loop opt (cd_now input)
            (if cd_limit input \<le> 0 then 0 else o_max_probes opt)
            (probe_candidates input rows) Map.empty db
      in sift_loop opt input probes rows [] db1)"

definition claim_in_transaction ::
  "options \<Rightarrow> claim_input \<Rightarrow> store \<Rightarrow> sched_error + store \<times> claim list" where
  "claim_in_transaction opt input db =
     (let (db1, reclaimable) = sift_live_rows opt input db
      in if cd_limit input \<le> 0 then Inr (db1, [])
         else sum_bind (reclaim_loop opt input reclaimable [] db1)
           (\<lambda>(db2, claimed).
             if int (length claimed) \<ge> cd_limit input then Inr (db2, claimed)
             else fire_loop opt input (due_schedules opt (cd_now input) db2) claimed db2))"

definition claimDue ::
  "options \<Rightarrow> claim_input \<Rightarrow> store \<Rightarrow> store \<times> (sched_error + claim list)" where
  "claimDue opt input db = transaction db (claim_in_transaction opt input)"

section \<open>Running\<close>

definition beginInvocation ::
  "options \<Rightarrow> uuid \<Rightarrow> uuid \<Rightarrow> int \<Rightarrow> executor option \<Rightarrow> store
    \<Rightarrow> store \<times> (sched_error + claim option)" where
  "beginInvocation opt iid token nowMs executor db =
     (let p = (\<lambda>r. i_id r = iid \<and> i_token r = Some token \<and> i_status r = Claimed);
          db1 = update_invocations p
            (\<lambda>r. r\<lparr>i_status := Running, i_started := Some nowMs,
                   i_lease := Some (nowMs + o_claim_lease opt),
                   i_executor_pid := map_option x_pid executor,
                   i_executor_start := map_option x_start executor, i_probed_at := None\<rparr>) db
      in if list_ex p (invocations db) then (db1, loadClaim opt db1 iid token)
         else (db1, Inr None))"

definition renewLease :: "options \<Rightarrow> uuid \<Rightarrow> uuid \<Rightarrow> int \<Rightarrow> store \<Rightarrow> store \<times> bool" where
  "renewLease opt iid token nowMs db =
     (let p = (\<lambda>r. i_id r = iid \<and> i_token r = Some token \<and> in_flight r)
      in (update_invocations p (\<lambda>r. r\<lparr>i_lease := Some (nowMs + o_claim_lease opt)\<rparr>) db,
          list_ex p (invocations db)))"

datatype complete_outcome = Written | CompleteLostClaim | CompleteTreeUnsettled

record complete_input =
  co_id :: uuid
  co_token :: uuid
  co_confirm :: bool
  co_now :: int
  co_thread :: "string option"
  co_output :: "string option"
  co_actions :: "string list option"

definition owns :: "uuid \<Rightarrow> invocation_row option \<Rightarrow> bool" where
  "owns token row =
     (case row of None \<Rightarrow> False | Some r \<Rightarrow> i_token r = Some token \<and> in_flight r)"

definition complete_row :: "complete_input \<Rightarrow> invocation_row \<Rightarrow> invocation_row" where
  "complete_row input r =
     r\<lparr>i_status := (if co_confirm input then NeedsConfirmation else Done),
       i_thread := co_thread input, i_output := co_output input,
       i_pending_actions := JsonText (JArray (map JString (default_list (co_actions input)))),
       i_error := None, i_finished := Some (co_now input), i_claimed_by := None, i_token := None,
       i_lease := None, i_retry_at := None, i_tree_pgids := None, i_tree_unsettled := False,
       i_tree_survivors := None\<rparr>"

definition completeInvocation ::
  "options \<Rightarrow> complete_input \<Rightarrow> store \<Rightarrow> store \<times> complete_outcome" where
  "completeInvocation opt input db =
     (case find_invocation db (co_id input) of
        None \<Rightarrow> (db, CompleteLostClaim)
      | Some row \<Rightarrow>
          if \<not> owns (co_token input) (Some row) then (db, CompleteLostClaim)
          else if treeBlocksTerminal opt row then (db, CompleteTreeUnsettled)
          else
            let db1 = update_invocations (\<lambda>r. i_id r = co_id input) (complete_row input) db;
                db2 = update_schedules (\<lambda>s. s_id s = i_schedule row)
                  (\<lambda>s. s\<lparr>s_last_run := Some (co_now input), s_last_error := None,
                         s_updated := co_now input\<rparr>) db1
            in (if i_mode row = Scheduled
                then reconcileRounds (i_schedule row) (co_now input) db2 else db2, Written))"

datatype failure_outcome =
    RetryScheduled | Terminal | TerminalPaused | FailLostClaim | FailTreeUnsettled

definition terminal_outcome ::
  "options \<Rightarrow> invocation_row \<Rightarrow> store \<Rightarrow> sched_error + failure_outcome" where
  "terminal_outcome opt row db =
     (if i_mode row = Scheduled
      then sum_bind (getSchedule opt db (i_schedule row)) (\<lambda>s.
             Inr (if map_option sr_status s = Some Paused then TerminalPaused else Terminal))
      else Inr Terminal)"

definition failInvocation ::
  "options \<Rightarrow> uuid \<Rightarrow> uuid \<Rightarrow> error_note \<Rightarrow> int \<Rightarrow> bool \<Rightarrow> store
    \<Rightarrow> store \<times> (sched_error + failure_outcome)" where
  "failInvocation opt iid token error nowMs terminal db = transaction db (\<lambda>db.
     case find_invocation db iid of
       None \<Rightarrow> Inr (db, FailLostClaim)
     | Some row \<Rightarrow>
         if \<not> owns token (Some row) then Inr (db, FailLostClaim)
         else if terminal \<or> i_attempt row \<ge> i_max_attempts row
         then (if treeBlocksTerminal opt row then Inr (db, FailTreeUnsettled)
               else let db1 = markTerminalFailure opt row error nowMs db
                    in sum_bind (terminal_outcome opt row db1) (\<lambda>out. Inr (db1, out)))
         else Inr (update_invocations (\<lambda>r. i_id r = iid)
                     (\<lambda>r. r\<lparr>i_status := Retry, i_retry_at := Some (nowMs + o_retry_backoff opt),
                            i_error := Some error, i_claimed_by := None, i_token := None,
                            i_lease := None\<rparr>) db,
                   RetryScheduled))"

definition reclassifyTimedOutInvocation ::
  "options \<Rightarrow> uuid \<Rightarrow> int \<Rightarrow> error_note \<Rightarrow> int \<Rightarrow> int \<Rightarrow> store
    \<Rightarrow> store \<times> (sched_error + failure_outcome)" where
  "reclassifyTimedOutInvocation opt iid attempt error timedOutAt nowMs db = transaction db (\<lambda>db.
     case find_invocation db iid of
       None \<Rightarrow> Inr (db, FailLostClaim)
     | Some row \<Rightarrow>
         if i_attempt row \<noteq> attempt
            \<or> (case i_finished row of None \<Rightarrow> False | Some t \<Rightarrow> t < timedOutAt)
            \<or> i_status row \<notin> {Done, NeedsConfirmation}
         then Inr (db, FailLostClaim)
         else if treeBlocksTerminal opt row then Inr (db, FailTreeUnsettled)
         else if i_attempt row \<ge> i_max_attempts row
         then let db1 = update_invocations (\<lambda>r. i_id r = iid)
                    (\<lambda>r. r\<lparr>i_thread := None, i_output := None,
                           i_pending_actions := JsonText (JArray [])\<rparr>) db;
                  db2 = markTerminalFailure opt row error nowMs db1
              in sum_bind (terminal_outcome opt row db2) (\<lambda>out. Inr (db2, out))
         else let db1 = update_invocations (\<lambda>r. i_id r = iid)
                    (\<lambda>r. r\<lparr>i_status := Retry, i_retry_at := Some (nowMs + o_retry_backoff opt),
                           i_error := Some error, i_finished := None, i_claimed_by := None,
                           i_token := None, i_lease := None, i_thread := None, i_output := None,
                           i_pending_actions := JsonText (JArray [])\<rparr>) db;
                  db2 = update_schedules (\<lambda>s. s_id s = i_schedule row)
                    (\<lambda>s. s\<lparr>s_last_error := Some error, s_updated := nowMs\<rparr>) db1
              in Inr (if i_mode row = Scheduled
                      then reconcileRounds (i_schedule row) nowMs db2 else db2, RetryScheduled))"

section \<open>Shutdown\<close>

fun load_running ::
  "options \<Rightarrow> store \<Rightarrow> invocation_row list \<Rightarrow> sched_error + claim list" where
  "load_running opt db [] = Inr []"
| "load_running opt db (row # rows) =
     (case i_token row of
        None \<Rightarrow> Inl (Invalid (MissingToken (i_id row)))
      | Some token \<Rightarrow>
          sum_bind (loadClaim opt db (i_id row) token) (\<lambda>c. case c of
             None \<Rightarrow> Inl (Invalid (ClaimNotLoadable (i_id row)))
           | Some x \<Rightarrow> sum_bind (load_running opt db rows) (\<lambda>xs. Inr (x # xs))))"

definition prepareWorkerShutdown ::
  "options \<Rightarrow> string \<Rightarrow> error_note \<Rightarrow> int \<Rightarrow> store \<Rightarrow> store \<times> (sched_error + claim list)" where
  "prepareWorkerShutdown opt worker reason nowMs db = transaction db (\<lambda>db.
     let claimed = map i_id (filter (\<lambda>r. i_claimed_by r = Some worker \<and> i_status r = Claimed)
                                (invocations db));
         db1 = fail_all opt reason nowMs claimed db;
         running = sort_key i_started (sort_key i_created
                     (filter (\<lambda>r. i_claimed_by r = Some worker \<and> i_status r = Running)
                        (invocations db1)))
     in sum_bind (load_running opt db1 running) (\<lambda>cs. Inr (db1, cs)))"

section \<open>Thread references\<close>

record reference_input =
  tr_invocation :: uuid
  tr_attempt :: int
  tr_thread :: string
  tr_dir :: string

definition validateThreadReferenceInput :: "reference_input \<Rightarrow> bool" where
  "validateThreadReferenceInput input =
     (isSafeInteger (tr_attempt input) \<and> 1 \<le> tr_attempt input \<and> trim (tr_thread input) \<noteq> []
      \<and> isAbsolute (tr_dir input))"

definition insertThreadReference ::
  "options \<Rightarrow> invocation_row \<Rightarrow> reference_input \<Rightarrow> int \<Rightarrow> store
    \<Rightarrow> sched_error + store \<times> thread_ref option" where
  "insertThreadReference opt invocation input nowMs db =
     (case first_where (\<lambda>r. r_invocation r = tr_invocation input \<and> r_attempt r = tr_attempt input)
             (thread_refs db) of
        Some previous \<Rightarrow>
          if r_thread previous \<noteq> tr_thread input \<or> r_dir previous \<noteq> tr_dir input
          then Inl (Invalid ReferenceTaken) else Inr (db, Some previous)
      | None \<Rightarrow>
          sum_bind (getSchedule opt db (i_schedule invocation)) (\<lambda>s. case s of
             None \<Rightarrow> Inr (db, None)
           | Some schedule \<Rightarrow>
               let ref = \<lparr>r_invocation = tr_invocation input, r_attempt = tr_attempt input,
                     r_schedule = sr_id schedule, r_thread = tr_thread input, r_dir = tr_dir input,
                     r_name = sr_name schedule, r_cwd = sr_cwd schedule,
                     r_scheduled_for = i_scheduled_for invocation, r_mode = i_mode invocation,
                     r_created = nowMs\<rparr>
               in Inr (db\<lparr>thread_refs := thread_refs db @ [ref]\<rparr>, Some ref)))"

definition registerThreadReference ::
  "options \<Rightarrow> reference_input \<Rightarrow> uuid \<Rightarrow> int \<Rightarrow> store \<Rightarrow> store \<times> (sched_error + thread_ref option)" where
  "registerThreadReference opt input token nowMs db =
     (if \<not> validateThreadReferenceInput input then (db, Inl (Invalid BadReference))
      else transaction db (\<lambda>db.
        case first_where (\<lambda>r. i_id r = tr_invocation input \<and> i_attempt r = tr_attempt input
                \<and> i_token r = Some token \<and> i_status r = Running) (invocations db) of
          None \<Rightarrow> Inr (db, None)
        | Some row \<Rightarrow> insertThreadReference opt row input nowMs db))"

definition backfillThreadReference ::
  "options \<Rightarrow> reference_input \<Rightarrow> int \<Rightarrow> store \<Rightarrow> store \<times> (sched_error + thread_ref option)" where
  "backfillThreadReference opt input nowMs db =
     (if \<not> validateThreadReferenceInput input then (db, Inl (Invalid BadReference))
      else transaction db (\<lambda>db.
        case first_where (\<lambda>r. i_id r = tr_invocation input \<and> i_attempt r = tr_attempt input
                \<and> i_thread r = Some (tr_thread input)) (invocations db) of
          None \<Rightarrow> Inr (db, None)
        | Some row \<Rightarrow> insertThreadReference opt row input nowMs db))"

section \<open>Retention and wake-up\<close>

definition terminal_status :: "invocation_status \<Rightarrow> bool" where
  "terminal_status s = (s \<in> {Done, NeedsConfirmation, Failed})"

definition aged :: "int \<Rightarrow> invocation_row \<Rightarrow> bool" where
  "aged cutoff r =
     (terminal_status (i_status r) \<and> (case i_finished r of None \<Rightarrow> False | Some t \<Rightarrow> t < cutoff))"

definition finish_key :: "invocation_row \<Rightarrow> int" where
  "finish_key r = (case i_finished r of None \<Rightarrow> i_created r | Some t \<Rightarrow> t)"

text \<open>The terminal rows of a schedule, newest first: \<open>COALESCE(finished_at, created_at) DESC,
  rowid DESC\<close>.\<close>

definition newest_terminal :: "store \<Rightarrow> uuid \<Rightarrow> invocation_row list" where
  "newest_terminal db sid =
     rev (sort_key finish_key
       (filter (\<lambda>r. i_schedule r = sid \<and> terminal_status (i_status r)) (invocations db)))"

definition excess :: "nat \<Rightarrow> store \<Rightarrow> invocation_row \<Rightarrow> bool" where
  "excess keep db r =
     (i_id r \<in> set (map i_id (drop keep (newest_terminal db (i_schedule r)))))"

definition delete_invocations :: "(invocation_row \<Rightarrow> bool) \<Rightarrow> store \<Rightarrow> store" where
  "delete_invocations p db = db\<lparr>invocations := filter (\<lambda>r. \<not> p r) (invocations db)\<rparr>"

definition pruneInvocations :: "options \<Rightarrow> int \<Rightarrow> store \<Rightarrow> store \<times> nat" where
  "pruneInvocations opt nowMs db =
     (let db1 = delete_invocations (aged (nowMs - o_retention_ms opt)) db;
          db2 = delete_invocations (excess (o_retention_count opt) db1) db1
      in (db2, length (invocations db) - length (invocations db2)))"

definition min_of :: "int list \<Rightarrow> int option" where
  "min_of xs = (if xs = [] then None else Some (Min (set xs)))"

definition nextWakeAtMs :: "store \<Rightarrow> int option" where
  "nextWakeAtMs db =
     min_of
       (List.map_filter s_next_run (filter (\<lambda>s. s_status s = Active \<and> \<not> rounds_used_up s) (schedules db))
        @ List.map_filter i_retry_at (filter (\<lambda>r. i_status r = Retry) (invocations db))
        @ List.map_filter i_lease (filter in_flight (invocations db))
        @ map i_scheduled_for (filter (\<lambda>r. i_status r = Pending) (invocations db)))"

section \<open>Listings\<close>

fun decode_all :: "invocation_row list \<Rightarrow> sched_error + invocation_record list" where
  "decode_all [] = Inr []"
| "decode_all (r # rs) =
     sum_bind (toInvocationRecord r) (\<lambda>x. sum_bind (decode_all rs) (\<lambda>xs. Inr (x # xs)))"

definition started_key :: "invocation_row \<Rightarrow> int" where
  "started_key r = (case i_started r of None \<Rightarrow> i_created r | Some t \<Rightarrow> t)"

definition listRunningInvocations :: "store \<Rightarrow> sched_error + invocation_record list" where
  "listRunningInvocations db =
     decode_all (sort_key i_started (filter (\<lambda>r. i_status r = Running) (invocations db)))"

definition listActiveWorkerInvocations :: "store \<Rightarrow> sched_error + invocation_record list" where
  "listActiveWorkerInvocations db =
     decode_all (sort_key started_key (sort_key i_created (filter in_flight (invocations db))))"

definition listOccupyingInvocations :: "store \<Rightarrow> sched_error + invocation_record list" where
  "listOccupyingInvocations db =
     decode_all (sort_key started_key (sort_key i_created (filter occupying (invocations db))))"

definition findLiveRun :: "store \<Rightarrow> uuid \<Rightarrow> sched_error + invocation_record option" where
  "findLiveRun db sid =
     (case sort_key i_started (sort_key i_created
             (filter (\<lambda>r. i_schedule r = sid \<and> occupying r) (invocations db))) of
        [] \<Rightarrow> Inr None
      | row # _ \<Rightarrow> sum_bind (toInvocationRecord row) (\<lambda>r. Inr (Some r)))"

definition listInvocations :: "store \<Rightarrow> uuid \<Rightarrow> int \<Rightarrow> sched_error + invocation_record list" where
  "listInvocations db sid limit =
     (if limit \<le> 0 then Inr []
      else decode_all (take (nat limit) (rev (sort_key i_created
             (filter (\<lambda>r. i_schedule r = sid) (invocations db))))))"

fun decode_schedules :: "options \<Rightarrow> store \<Rightarrow> schedule_row list \<Rightarrow> sched_error + schedule_record list" where
  "decode_schedules opt db [] = Inr []"
| "decode_schedules opt db (s # ss) =
     sum_bind (toScheduleRecord opt s db) (\<lambda>x. sum_bind (decode_schedules opt db ss) (\<lambda>xs. Inr (x # xs)))"

definition listSchedules :: "options \<Rightarrow> store \<Rightarrow> sched_error + schedule_record list" where
  "listSchedules opt db = decode_schedules opt db (sort_key s_created (schedules db))"

end
