(* ===== verification/SchedLedger.thy ===== *)
theory SchedLedger
  imports SchedStore
begin

text \<open>
  The abstract ledger: the atomic changes a schedule store makes, as a step relation on stores with
  the guard each change needs, and the invariant they keep. The operations of \<open>SchedStore\<close> are
  shown to be sequences of these steps in \<open>SchedRefine\<close>; every invariant is then proved once, on
  the steps.
\<close>

section \<open>Steps\<close>

definition replace_row :: "invocation_row \<Rightarrow> invocation_row \<Rightarrow> store \<Rightarrow> store" where
  "replace_row row row' db = update_invocations (\<lambda>r. i_id r = i_id row) (\<lambda>_. row') db"

text \<open>The columns a row keeps for good.\<close>

definition same_key :: "invocation_row \<Rightarrow> invocation_row \<Rightarrow> bool" where
  "same_key r r' \<longleftrightarrow>
     i_id r' = i_id r \<and> i_schedule r' = i_schedule r \<and> i_mode r' = i_mode r
     \<and> i_scheduled_for r' = i_scheduled_for r \<and> i_max_attempts r' = i_max_attempts r"

definition no_tree :: "invocation_row \<Rightarrow> bool" where
  "no_tree r \<longleftrightarrow> i_tree_pgids r = None \<and> \<not> i_tree_unsettled r"

definition other_in_flight :: "store \<Rightarrow> invocation_row \<Rightarrow> bool" where
  "other_in_flight db row \<longleftrightarrow>
     (\<exists>r \<in> set (invocations db). i_schedule r = i_schedule row \<and> i_id r \<noteq> i_id row \<and> in_flight r)"

definition has_live :: "store \<Rightarrow> uuid \<Rightarrow> bool" where
  "has_live db sid \<longleftrightarrow>
     (\<exists>r \<in> set (invocations db). i_schedule r = sid \<and> live_status (i_status r))"

definition slot_of :: "invocation_row \<Rightarrow> uuid \<times> invocation_mode \<times> int" where
  "slot_of r = (i_schedule r, i_mode r, i_scheduled_for r)"

inductive ledger_step :: "store \<Rightarrow> store \<Rightarrow> bool" where
  Tick: "ledger_step db (db\<lparr>fresh := Suc (fresh db)\<rparr>)"
| Touch: "ledger_step db (replace_row row row' db)"
    if "row \<in> set (invocations db)" "same_key row row'" "i_status row' = i_status row"
      "i_attempt row' = i_attempt row" "i_token row' = i_token row"
      "tree_bearing row \<or> no_tree row' \<or> (i_tree_pgids row' = i_tree_pgids row
         \<and> i_tree_unsettled row' = i_tree_unsettled row)"
| Claim: "ledger_step db ((replace_row row row' db)\<lparr>fresh := Suc (fresh db)\<rparr>)"
    if "row \<in> set (invocations db)" "same_key row row'" "live_status (i_status row)"
      "\<not> other_in_flight db row" "i_status row' = Claimed" "i_token row' = Some (fresh db)"
      "i_attempt row' = (if i_status row = Pending then 1 else i_attempt row + 1)"
      "i_attempt row' \<le> i_max_attempts row"
| Begin: "ledger_step db (replace_row row row' db)"
    if "row \<in> set (invocations db)" "same_key row row'" "i_status row = Claimed"
      "i_status row' = Running" "i_token row' = i_token row" "i_attempt row' = i_attempt row"
| Settle: "ledger_step db (replace_row row row' db)"
    if "row \<in> set (invocations db)" "same_key row row'" "terminal_status (i_status row')"
      "i_token row' = None" "no_tree row'" "i_attempt row' = i_attempt row"
| Retry: "ledger_step db (replace_row row row' db)"
    if "row \<in> set (invocations db)" "same_key row row'" "in_flight row" "i_status row' = Retry"
      "i_token row' = None" "i_attempt row' = i_attempt row"
| Reopen: "ledger_step db (reconcileRounds (i_schedule row) nowMs (replace_row row row' db))"
    if "row \<in> set (invocations db)" "same_key row row'" "i_status row \<in> {Done, NeedsConfirmation}"
      "i_status row' = Retry" "i_token row' = None" "i_attempt row' = i_attempt row"
      "i_attempt row < i_max_attempts row"
| Reopen_Manual: "ledger_step db (replace_row row row' db)"
    if "row \<in> set (invocations db)" "same_key row row'" "i_status row \<in> {Done, NeedsConfirmation}"
      "i_status row' = Retry" "i_token row' = None" "i_attempt row' = i_attempt row"
      "i_attempt row < i_max_attempts row" "i_mode row = Manual"
| Reconcile: "ledger_step db (reconcileRounds sid nowMs db)"
| Enqueue: "ledger_step db (db\<lparr>invocations := invocations db @ [row], fresh := Suc (fresh db)\<rparr>)"
    if "i_id row = fresh db" "i_status row = Pending" "i_mode row = Manual" "i_token row = None"
      "i_attempt row = 0" "1 \<le> i_max_attempts row" "no_tree row"
      "i_schedule row \<in> s_id ` set (schedules db)" "slot_of row \<notin> slot_of ` set (invocations db)"
| Fire: "ledger_step db
      (update_schedules (\<lambda>x. s_id x = s_id s) (start_round 1 nextRunAt nowMs)
        (db\<lparr>invocations := invocations db @ [row], fresh := Suc (Suc (fresh db))\<rparr>))"
    if "s \<in> set (schedules db)" "s_status s = Active" "\<not> rounds_used_up s" "\<not> has_live db (s_id s)"
      "i_id row = fresh db" "i_schedule row = s_id s" "i_mode row = Scheduled"
      "i_status row = Claimed" "i_token row = Some (Suc (fresh db))" "i_attempt row = 1"
      "1 \<le> i_max_attempts row" "no_tree row" "slot_of row \<notin> slot_of ` set (invocations db)"
| Skip: "ledger_step db (update_schedules (\<lambda>x. s_id x = s_id s) (start_round 0 nextRunAt nowMs) db)"
    if "s \<in> set (schedules db)" "\<not> rounds_used_up s"
| Delete: "ledger_step db (delete_invocations p db)"
    if "\<And>r. r \<in> set (invocations db) \<Longrightarrow> p r \<Longrightarrow> \<not> in_flight r \<and> i_status r \<noteq> Retry"
| Remove: "ledger_step db
      (db\<lparr>schedules := filter (\<lambda>s. s_id s \<noteq> sid) (schedules db),
          invocations := filter (\<lambda>r. i_schedule r \<noteq> sid) (invocations db),
          extensions := filter (\<lambda>x. e_schedule x \<noteq> sid) (extensions db)\<rparr>)"
| Annotate: "ledger_step db (update_schedules p f db)"
    if "\<And>s. s_id (f s) = s_id s" "\<And>s. s_status (f s) = s_status s"
      "\<And>s. s_max_rounds (f s) = s_max_rounds s" "\<And>s. s_rounds_started (f s) = s_rounds_started s"
      "\<And>s. s_next_run (f s) = s_next_run s"
| Switch: "ledger_step db (update_schedules p f db)"
    if "\<And>s. s_id (f s) = s_id s" "\<And>s. s_status (f s) \<noteq> Completed \<or> s_status s = Completed"
      "\<And>s. s_max_rounds (f s) = s_max_rounds s" "\<And>s. s_rounds_started (f s) = s_rounds_started s"
      "\<And>s. s_next_run (f s) = s_next_run s"
| Insert: "ledger_step db (db\<lparr>schedules := schedules db @ [s], fresh := Suc (fresh db)\<rparr>)"
    if "s_id s = fresh db" "s_status s = Active" "s_rounds_started s = 0"
      "case s_max_rounds s of None \<Rightarrow> True | Some m \<Rightarrow> 1 \<le> m"
| Extend: "ledger_step db
      (update_schedules (\<lambda>x. s_id x = s_id s)
        (\<lambda>x. x\<lparr>s_max_rounds := Some (e_expected ext + e_additional ext), s_authority := auth,
               s_status := Active, s_next_run := Some nextRunAt, s_updated := nowMs\<rparr>)
        (db\<lparr>extensions := extensions db @ [ext]\<rparr>))"
    if "s \<in> set (schedules db)" "e_schedule ext = s_id s" "s_max_rounds s = Some (e_expected ext)"
      "s_rounds_started s = e_expected ext" "1 \<le> e_additional ext"
      "e_request ext \<notin> e_request ` set (extensions db)"
| Refer: "ledger_step db (db\<lparr>thread_refs := thread_refs db @ [ref]\<rparr>)"
    if "(r_invocation ref, r_attempt ref) \<notin> (\<lambda>r. (r_invocation r, r_attempt r)) ` set (thread_refs db)"

inductive_cases ledger_stepE: "ledger_step db db'"

section \<open>The invariant\<close>

definition keys_ok :: "store \<Rightarrow> bool" where
  "keys_ok db \<longleftrightarrow>
     distinct (map s_id (schedules db)) \<and> (\<forall>s \<in> set (schedules db). s_id s < fresh db)
     \<and> distinct (map i_id (invocations db)) \<and> (\<forall>r \<in> set (invocations db). i_id r < fresh db)
     \<and> distinct (map slot_of (invocations db))
     \<and> (\<forall>r \<in> set (invocations db). i_schedule r \<in> s_id ` set (schedules db))"

definition row_ok :: "invocation_row \<Rightarrow> bool" where
  "row_ok r \<longleftrightarrow>
     (i_token r \<noteq> None \<longleftrightarrow> in_flight r)
     \<and> 0 \<le> i_attempt r \<and> i_attempt r \<le> i_max_attempts r \<and> 1 \<le> i_max_attempts r
     \<and> (i_status r = Pending \<longrightarrow> i_mode r = Manual \<and> i_attempt r = 0)
     \<and> (in_flight r \<longrightarrow> 1 \<le> i_attempt r)
     \<and> (\<not> tree_bearing r \<longrightarrow> no_tree r)"

definition rows_ok :: "store \<Rightarrow> bool" where
  "rows_ok db \<longleftrightarrow> (\<forall>r \<in> set (invocations db). row_ok r)"

text \<open>A key that at most one row holds: the schedule of a row in flight, and a row's token.\<close>

definition held_once :: "(invocation_row \<Rightarrow> 'k option) \<Rightarrow> store \<Rightarrow> bool" where
  "held_once k db \<longleftrightarrow>
     (\<forall>r1 \<in> set (invocations db). \<forall>r2 \<in> set (invocations db).
        k r1 \<noteq> None \<and> k r1 = k r2 \<longrightarrow> i_id r1 = i_id r2)"

definition flight_key :: "invocation_row \<Rightarrow> uuid option" where
  "flight_key r = (if in_flight r then Some (i_schedule r) else None)"

definition exclusive :: "store \<Rightarrow> bool" where
  "exclusive db \<longleftrightarrow> held_once flight_key db"

definition tokens_ok :: "store \<Rightarrow> bool" where
  "tokens_ok db \<longleftrightarrow>
     held_once i_token db
     \<and> (\<forall>r \<in> set (invocations db). \<forall>t \<in> set_option (i_token r). t < fresh db)"

definition schedule_ok :: "store \<Rightarrow> schedule_row \<Rightarrow> bool" where
  "schedule_ok db s \<longleftrightarrow>
     0 \<le> s_rounds_started s
     \<and> (case s_max_rounds s of None \<Rightarrow> True | Some m \<Rightarrow> 1 \<le> m \<and> s_rounds_started s \<le> m)
     \<and> (rounds_used_up s \<longrightarrow> s_next_run s = None)
     \<and> (s_status s = Completed \<longrightarrow> rounds_used_up s \<and> \<not> scheduled_unsettled db (s_id s))"

definition schedules_ok :: "store \<Rightarrow> bool" where
  "schedules_ok db \<longleftrightarrow> (\<forall>s \<in> set (schedules db). schedule_ok db s)"

definition extensions_ok :: "store \<Rightarrow> bool" where
  "extensions_ok db \<longleftrightarrow>
     distinct (map e_request (extensions db))
     \<and> (\<forall>x \<in> set (extensions db). \<exists>s \<in> set (schedules db). s_id s = e_schedule x
          \<and> (\<exists>m. s_max_rounds s = Some m \<and> e_expected x < m))
     \<and> distinct (map (\<lambda>x. (e_schedule x, e_expected x)) (extensions db))"

definition refs_ok :: "store \<Rightarrow> bool" where
  "refs_ok db \<longleftrightarrow> distinct (map (\<lambda>r. (r_invocation r, r_attempt r)) (thread_refs db))"

definition ledger_ok :: "store \<Rightarrow> bool" where
  "ledger_ok db \<longleftrightarrow>
     keys_ok db \<and> rows_ok db \<and> exclusive db \<and> tokens_ok db \<and> schedules_ok db \<and> extensions_ok db
     \<and> refs_ok db"

definition empty_store :: store where
  "empty_store =
     \<lparr>schedules = [], invocations = [], extensions = [], thread_refs = [], fresh = 0\<rparr>"

section \<open>Lemmas on the store's primitives\<close>

lemma store_frames [simp]:
  "schedules (update_invocations p f db) = schedules db"
  "extensions (update_invocations p f db) = extensions db"
  "thread_refs (update_invocations p f db) = thread_refs db"
  "fresh (update_invocations p f db) = fresh db"
  "invocations (update_schedules q g db) = invocations db"
  "extensions (update_schedules q g db) = extensions db"
  "thread_refs (update_schedules q g db) = thread_refs db"
  "fresh (update_schedules q g db) = fresh db"
  "schedules (delete_invocations p db) = schedules db"
  "extensions (delete_invocations p db) = extensions db"
  "thread_refs (delete_invocations p db) = thread_refs db"
  "fresh (delete_invocations p db) = fresh db"
  by (simp_all add: update_invocations_def update_schedules_def delete_invocations_def)

lemma reconcile_frames [simp]:
  "invocations (reconcileRounds sid nowMs db) = invocations db"
  "extensions (reconcileRounds sid nowMs db) = extensions db"
  "thread_refs (reconcileRounds sid nowMs db) = thread_refs db"
  "fresh (reconcileRounds sid nowMs db) = fresh db"
  by (simp_all add: reconcileRounds_def)

lemma replace_frames [simp]:
  "schedules (replace_row row row' db) = schedules db"
  "extensions (replace_row row row' db) = extensions db"
  "thread_refs (replace_row row row' db) = thread_refs db"
  "fresh (replace_row row row' db) = fresh db"
  by (simp_all add: replace_row_def)

lemma set_map_replace:
  assumes "distinct (map k xs)" and "x \<in> set xs"
  shows "set (map (\<lambda>r. if k r = k x then y else r) xs) = insert y (set xs - {x})"
proof -
  have "k r = k x \<longleftrightarrow> r = x" if "r \<in> set xs" for r
    using assms that by (auto simp: distinct_map inj_on_def)
  then show ?thesis using assms(2) by (auto simp: image_iff)
qed

lemma map_key_replace:
  assumes "distinct (map k xs)" and "x \<in> set xs" and "h y = h x"
  shows "map h (map (\<lambda>r. if k r = k x then y else r) xs) = map h xs"
  using assms by (auto simp: distinct_map inj_on_def)

lemma set_replace:
  "keys_ok db \<Longrightarrow> row \<in> set (invocations db)
   \<Longrightarrow> set (invocations (replace_row row row' db)) = insert row' (set (invocations db) - {row})"
  using set_map_replace [of i_id "invocations db" row row']
  by (simp add: replace_row_def update_invocations_def keys_ok_def)

lemma ids_replace:
  "keys_ok db \<Longrightarrow> row \<in> set (invocations db) \<Longrightarrow> same_key row row'
   \<Longrightarrow> map i_id (invocations (replace_row row row' db)) = map i_id (invocations db)
     \<and> map slot_of (invocations (replace_row row row' db)) = map slot_of (invocations db)"
  using map_key_replace [of i_id "invocations db" row i_id row']
    map_key_replace [of i_id "invocations db" row slot_of row']
  by (simp add: replace_row_def update_invocations_def keys_ok_def same_key_def slot_of_def)

lemma id_inj:
  "keys_ok db \<Longrightarrow> r1 \<in> set (invocations db) \<Longrightarrow> r2 \<in> set (invocations db) \<Longrightarrow> i_id r1 = i_id r2
   \<Longrightarrow> r1 = r2"
  by (auto simp: keys_ok_def distinct_map inj_on_def)

lemma sid_inj:
  "keys_ok db \<Longrightarrow> s1 \<in> set (schedules db) \<Longrightarrow> s2 \<in> set (schedules db) \<Longrightarrow> s_id s1 = s_id s2
   \<Longrightarrow> s1 = s2"
  by (auto simp: keys_ok_def distinct_map inj_on_def)

lemma sids_update:
  "(\<And>s. s_id (f s) = s_id s) \<Longrightarrow> map s_id (schedules (update_schedules p f db)) = map s_id (schedules db)"
  by (auto simp: update_schedules_def)

lemma sids_reconcile: "map s_id (schedules (reconcileRounds sid nowMs db)) = map s_id (schedules db)"
  unfolding reconcileRounds_def by (rule sids_update) simp

lemma image_s_id: "map s_id (schedules db') = map s_id (schedules db)
   \<Longrightarrow> s_id ` set (schedules db') = s_id ` set (schedules db)"
  by (metis set_map)

section \<open>Preservation\<close>

text \<open>A row's replacement keeps a property of all rows, or of all pairs of rows, when the new row
  has it.\<close>

lemma ball_replace:
  assumes "keys_ok db" and "row \<in> set (invocations db)"
    and "\<forall>r \<in> set (invocations db). P r" and "P row'"
  shows "\<forall>r \<in> set (invocations (replace_row row row' db)). P r"
  using assms(3,4) by (simp add: set_replace [OF assms(1,2)])

lemma pair_replace:
  assumes "keys_ok db" and "row \<in> set (invocations db)"
    and "\<forall>r1 \<in> set (invocations db). \<forall>r2 \<in> set (invocations db). R r1 r2" and "R row' row'"
    and "\<And>r. r \<in> set (invocations db) \<Longrightarrow> i_id r \<noteq> i_id row \<Longrightarrow> R row' r"
    and "\<And>r. r \<in> set (invocations db) \<Longrightarrow> i_id r \<noteq> i_id row \<Longrightarrow> R r row'"
  shows "\<forall>r1 \<in> set (invocations (replace_row row row' db)).
    \<forall>r2 \<in> set (invocations (replace_row row row' db)). R r1 r2"
proof -
  have "i_id r \<noteq> i_id row" if "r \<in> set (invocations db)" "r \<noteq> row" for r
    using id_inj [OF assms(1) that(1) assms(2)] that(2) by metis
  then show ?thesis using assms(3-6) by (simp add: set_replace [OF assms(1,2)])
qed

lemma keys_replace:
  assumes "keys_ok db" and "row \<in> set (invocations db)" and "same_key row row'"
  shows "keys_ok (replace_row row row' db)"
proof -
  note m = ids_replace [OF assms]
  have "\<forall>r \<in> set (invocations db). i_id r < fresh db \<and> i_schedule r \<in> s_id ` set (schedules db)"
    using assms(1) by (simp add: keys_ok_def)
  then have "\<forall>r \<in> set (invocations (replace_row row row' db)).
      i_id r < fresh db \<and> i_schedule r \<in> s_id ` set (schedules db)"
    using assms(2,3) by (intro ball_replace [OF assms(1,2)]) (simp_all add: same_key_def)
  then show ?thesis using assms(1) m by (simp add: keys_ok_def)
qed

lemma keys_schedules_update:
  assumes "keys_ok db" and "map s_id (schedules db') = map s_id (schedules db)"
    and "invocations db' = invocations db" and "fresh db' = fresh db"
  shows "keys_ok db'"
proof -
  have "\<forall>x \<in> s_id ` set (schedules db). x < fresh db"
    using assms(1) by (simp add: keys_ok_def)
  then have "\<forall>s \<in> set (schedules db'). s_id s < fresh db"
    unfolding image_s_id [OF assms(2), symmetric] by simp
  then show ?thesis using assms image_s_id [OF assms(2)] by (simp add: keys_ok_def)
qed

lemma keys_fresh: "keys_ok db \<Longrightarrow> keys_ok (db\<lparr>fresh := Suc (fresh db)\<rparr>)"
  by (simp add: keys_ok_def less_SucI)

lemma keys_append_row:
  assumes "keys_ok db" and "i_id row = fresh db" and "fresh db < n"
    and "i_schedule row \<in> s_id ` set (schedules db)" and "slot_of row \<notin> slot_of ` set (invocations db)"
  shows "keys_ok (db\<lparr>invocations := invocations db @ [row], fresh := n\<rparr>)"
proof -
  have lt: "x < n" if "x < fresh db" for x using that assms(3) by simp
  have "\<forall>r \<in> set (invocations db). i_id r < fresh db" "\<forall>s \<in> set (schedules db). s_id s < fresh db"
    using assms(1) by (simp_all add: keys_ok_def)
  then have "\<forall>r \<in> set (invocations db). i_id r < n" "\<forall>s \<in> set (schedules db). s_id s < n"
    "\<forall>r \<in> set (invocations db). i_id r \<noteq> fresh db"
    using assms(3) by (simp_all add: lt less_imp_neq)
  then have "fresh db \<notin> i_id ` set (invocations db)" by (simp add: image_iff eq_commute [of "fresh db"])
  with \<open>\<forall>r \<in> set (invocations db). i_id r < n\<close> \<open>\<forall>s \<in> set (schedules db). s_id s < n\<close>
  show ?thesis using assms by (simp add: keys_ok_def)
qed

lemma step_keys: "ledger_step db db' \<Longrightarrow> keys_ok db \<Longrightarrow> keys_ok db'"
proof (induction rule: ledger_step.induct)
  case (Tick db)
  then show ?case by (rule keys_fresh)
next
  case (Claim row db row')
  then have "keys_ok (replace_row row row' db)" by (intro keys_replace)
  then have "keys_ok ((replace_row row row' db)\<lparr>fresh := Suc (fresh (replace_row row row' db))\<rparr>)"
    by (rule keys_fresh)
  then show ?case by simp
next
  case (Reopen row db row' nowMs)
  then have "keys_ok (replace_row row row' db)" by (intro keys_replace)
  then show ?case by (rule keys_schedules_update) (simp_all add: sids_reconcile)
next
  case (Reconcile sid nowMs db)
  then show ?case by (rule keys_schedules_update) (simp_all add: sids_reconcile)
next
  case (Enqueue row db)
  then show ?case by (intro keys_append_row) simp_all
next
  case (Fire s db row nextRunAt nowMs)
  then have "keys_ok (db\<lparr>invocations := invocations db @ [row], fresh := Suc (Suc (fresh db))\<rparr>)"
    by (intro keys_append_row) simp_all
  then show ?case by (rule keys_schedules_update) (simp_all add: sids_update start_round_def)
next
  case (Skip s db nextRunAt nowMs)
  show ?case
    by (rule keys_schedules_update [OF Skip(3)]) (simp_all add: sids_update start_round_def)
next
  case (Delete db p)
  then show ?case by (simp add: keys_ok_def delete_invocations_def distinct_map_filter)
next
  case (Remove db sid)
  have "\<forall>r \<in> set (invocations db). i_schedule r \<in> s_id ` set (schedules db)"
    using Remove by (simp add: keys_ok_def)
  then have "\<forall>r \<in> set (invocations db). i_schedule r \<noteq> sid
      \<longrightarrow> i_schedule r \<in> s_id ` {s \<in> set (schedules db). s_id s \<noteq> sid}" by blast
  with Remove show ?case by (simp add: keys_ok_def distinct_map_filter)
next
  case (Annotate f p db)
  then show ?case by - (rule keys_schedules_update, assumption, simp_all add: sids_update)
next
  case (Switch f p db)
  then show ?case by - (rule keys_schedules_update, assumption, simp_all add: sids_update)
next
  case (Insert s db)
  have "\<forall>s \<in> set (schedules db). s_id s < fresh db" using Insert by (simp add: keys_ok_def)
  then have "fresh db \<notin> s_id ` set (schedules db)" by auto
  with Insert show ?case by (simp add: keys_ok_def less_SucI)
next
  case (Extend s db ext nowMs nextRunAt auth)
  show ?case by (rule keys_schedules_update [OF Extend(7)]) (simp_all add: sids_update)
next
  case (Refer ref db)
  then show ?case by (simp add: keys_ok_def)
qed (rule keys_replace; assumption)+

lemma no_tree_unmarked: "no_tree r \<Longrightarrow> \<not> tree_marked r"
  by (simp add: no_tree_def tree_marked_def tree_column_set_def)

lemma rows_replace:
  "keys_ok db \<Longrightarrow> row \<in> set (invocations db) \<Longrightarrow> rows_ok db \<Longrightarrow> (row_ok row \<Longrightarrow> row_ok row')
   \<Longrightarrow> rows_ok (replace_row row row' db)"
  unfolding rows_ok_def by (rule ball_replace) simp_all

lemmas row_status_defs = row_ok_def same_key_def in_flight_def tree_bearing_def terminal_status_def

lemma step_rows: "ledger_step db db' \<Longrightarrow> keys_ok db \<Longrightarrow> rows_ok db \<Longrightarrow> rows_ok db'"
proof (induction rule: ledger_step.induct)
  case (Touch row db row')
  have "row_ok row \<Longrightarrow> row_ok row'" using Touch(2-6) by (auto simp: row_status_defs no_tree_def)
  with Touch show ?case by (intro rows_replace)
next
  case (Claim row db row')
  have "row_ok row \<Longrightarrow> row_ok row'" using Claim(2-8) by (auto simp: row_status_defs split: if_splits)
  with Claim have "rows_ok (replace_row row row' db)" by (intro rows_replace)
  then show ?case by (simp add: rows_ok_def)
next
  case (Begin row db row')
  have "row_ok row \<Longrightarrow> row_ok row'" using Begin(2-6) by (auto simp: row_status_defs)
  with Begin show ?case by (intro rows_replace)
next
  case (Settle row db row')
  have "row_ok row \<Longrightarrow> row_ok row'" using Settle(2-6) by (auto simp: row_status_defs)
  with Settle show ?case by (intro rows_replace)
next
  case (Retry row db row')
  have "row_ok row \<Longrightarrow> row_ok row'" using Retry(2-6) by (auto simp: row_status_defs)
  with Retry show ?case by (intro rows_replace)
next
  case (Reopen row db row' nowMs)
  have "row_ok row \<Longrightarrow> row_ok row'" using Reopen(2-7) by (auto simp: row_status_defs)
  with Reopen have "rows_ok (replace_row row row' db)" by (intro rows_replace)
  then show ?case by (simp add: rows_ok_def)
next
  case (Reopen_Manual row db row')
  have "row_ok row \<Longrightarrow> row_ok row'" using Reopen_Manual(2-8) by (auto simp: row_status_defs)
  with Reopen_Manual show ?case by (intro rows_replace)
next
  case (Enqueue row db)
  then have "row_ok row" by (simp add: row_status_defs)
  with Enqueue show ?case by (simp add: rows_ok_def)
next
  case (Fire s db row nextRunAt nowMs)
  then have "row_ok row" by (simp add: row_status_defs)
  with Fire show ?case by (simp add: rows_ok_def)
qed (simp_all add: rows_ok_def delete_invocations_def)

lemma held_onceD:
  assumes "held_once k db" and "r1 \<in> set (invocations db)" and "r2 \<in> set (invocations db)"
    and "k r1 \<noteq> None" and "k r1 = k r2"
  shows "i_id r1 = i_id r2"
  using assms(1) [unfolded held_once_def, rule_format, OF assms(2,3)] assms(4,5) by simp

lemma held_onceI:
  assumes "\<And>r1 r2. r1 \<in> set (invocations db) \<Longrightarrow> r2 \<in> set (invocations db) \<Longrightarrow> k r1 \<noteq> None
    \<Longrightarrow> k r1 = k r2 \<Longrightarrow> i_id r1 = i_id r2"
  shows "held_once k db"
  unfolding held_once_def
proof (intro ballI impI)
  fix r1 r2 assume "r1 \<in> set (invocations db)" "r2 \<in> set (invocations db)"
    and "k r1 \<noteq> None \<and> k r1 = k r2"
  then show "i_id r1 = i_id r2" using assms [of r1 r2] by blast
qed

lemma held_once_replace:
  assumes "keys_ok db" and "held_once k db" and "row \<in> set (invocations db)" and "same_key row row'"
    and "k row' = k row \<or> k row' = None
      \<or> (\<forall>r \<in> set (invocations db). i_id r \<noteq> i_id row \<longrightarrow> k r \<noteq> k row')"
  shows "held_once k (replace_row row row' db)"
proof -
  have none: "k r \<noteq> k row'" if "r \<in> set (invocations db)" "i_id r \<noteq> i_id row" "k row' \<noteq> None" for r
    using held_onceD [OF assms(2) that(1) assms(3)] assms(5) that by metis
  have key: "i_id row' = i_id row" using assms(4) by (simp add: same_key_def)
  show ?thesis unfolding held_once_def
  proof (rule pair_replace [OF assms(1,3)])
    show "\<forall>r1\<in>set (invocations db). \<forall>r2\<in>set (invocations db).
       k r1 \<noteq> None \<and> k r1 = k r2 \<longrightarrow> i_id r1 = i_id r2"
      using assms(2) unfolding held_once_def .
  next
    fix r assume "r \<in> set (invocations db)" "i_id r \<noteq> i_id row"
    then show "k row' \<noteq> None \<and> k row' = k r \<longrightarrow> i_id row' = i_id r"
      "k r \<noteq> None \<and> k r = k row' \<longrightarrow> i_id r = i_id row'"
      using none [of r] key by metis+
  qed simp
qed

lemma held_once_subset:
  assumes "held_once k db" and "set (invocations db') \<subseteq> set (invocations db)"
  shows "held_once k db'"
proof (rule held_onceI)
  fix r1 r2 assume a: "r1 \<in> set (invocations db')" "r2 \<in> set (invocations db')" "k r1 \<noteq> None" "k r1 = k r2"
  then have "r1 \<in> set (invocations db)" "r2 \<in> set (invocations db)" using assms(2) by blast+
  then show "i_id r1 = i_id r2" using a(3,4) by (rule held_onceD [OF assms(1)])
qed

lemma held_once_frame: "held_once k db \<Longrightarrow> invocations db' = invocations db \<Longrightarrow> held_once k db'"
  by (erule held_once_subset) simp

lemma held_once_append:
  assumes "held_once k db" and "invocations db' = invocations db @ [row]"
    and "k row = None \<or> (\<forall>r \<in> set (invocations db). k r \<noteq> k row)"
  shows "held_once k db'"
proof (rule held_onceI)
  fix r1 r2 assume a: "r1 \<in> set (invocations db')" "r2 \<in> set (invocations db')" "k r1 \<noteq> None" "k r1 = k r2"
  then consider "r1 = row" "r2 = row" | "r1 \<in> set (invocations db)" "r2 \<in> set (invocations db)"
    | "r1 = row" "r2 \<in> set (invocations db)" | "r1 \<in> set (invocations db)" "r2 = row"
    using assms(2) by auto
  then show "i_id r1 = i_id r2"
  proof cases
    case 2
    then show ?thesis using a(3,4) by (rule held_onceD [OF assms(1)])
  next
    case 3
    then show ?thesis using a(3,4) assms(3) by metis
  next
    case 4
    then show ?thesis using a(3,4) assms(3) by metis
  qed simp
qed

text \<open>Every step keeps a key held once, when rows that acquire a key find it free.\<close>

lemma step_held_once:
  assumes "ledger_step db db'" and "keys_ok db" and "held_once k db"
    and keep: "\<And>row row'. same_key row row' \<Longrightarrow> i_token row' = i_token row
      \<Longrightarrow> (i_status row' = i_status row \<or> i_status row = Claimed \<and> i_status row' = Running) \<Longrightarrow> k row' = k row"
    and drop: "\<And>row. \<not> in_flight row \<Longrightarrow> i_token row = None \<Longrightarrow> k row = None"
    and claim: "\<And>row row'. row \<in> set (invocations db) \<Longrightarrow> same_key row row' \<Longrightarrow> \<not> other_in_flight db row
      \<Longrightarrow> i_status row' = Claimed \<Longrightarrow> i_token row' = Some (fresh db)
      \<Longrightarrow> \<forall>r \<in> set (invocations db). i_id r \<noteq> i_id row \<longrightarrow> k r \<noteq> k row'"
    and fire: "\<And>row. \<not> has_live db (i_schedule row) \<Longrightarrow> i_status row = Claimed
      \<Longrightarrow> i_token row = Some (Suc (fresh db)) \<Longrightarrow> \<forall>r \<in> set (invocations db). k r \<noteq> k row"
  shows "held_once k db'"
  using assms(1)
proof (cases rule: ledger_step.cases)
  case (Touch row row')
  have "k row' = k row" by (rule keep) (use Touch in simp_all)
  with Touch show ?thesis using assms(2,3) by (simp add: held_once_replace)
next
  case (Claim row row')
  have "held_once k (replace_row row row' db)"
    using claim [of row row'] Claim by (intro held_once_replace [OF assms(2,3)]) simp_all
  then show ?thesis unfolding Claim(1) by (rule held_once_frame) simp
next
  case (Begin row row')
  have "k row' = k row" by (rule keep) (use Begin in simp_all)
  with Begin show ?thesis using assms(2,3) by (simp add: held_once_replace)
next
  case (Settle row row')
  have "k row' = None" by (rule drop) (use Settle in \<open>auto simp: in_flight_def terminal_status_def\<close>)
  with Settle show ?thesis using assms(2,3) by (simp add: held_once_replace)
next
  case (Retry row row')
  have "k row' = None" by (rule drop) (use Retry in \<open>simp_all add: in_flight_def\<close>)
  with Retry show ?thesis using assms(2,3) by (simp add: held_once_replace)
next
  case (Reopen row row' nowMs)
  have "k row' = None" by (rule drop) (use Reopen in \<open>simp_all add: in_flight_def\<close>)
  with Reopen have "held_once k (replace_row row row' db)" using assms(2,3) by (simp add: held_once_replace)
  then show ?thesis unfolding Reopen(1) by (rule held_once_frame) simp
next
  case (Reopen_Manual row row')
  have "k row' = None" by (rule drop) (use Reopen_Manual in \<open>simp_all add: in_flight_def\<close>)
  with Reopen_Manual show ?thesis using assms(2,3) by (simp add: held_once_replace)
next
  case (Enqueue row)
  have "k row = None" by (rule drop) (use Enqueue in \<open>simp_all add: in_flight_def\<close>)
  then show ?thesis by - (rule held_once_append [OF assms(3)], simp add: Enqueue(1), simp)
next
  case (Fire s row nextRunAt nowMs)
  have "\<forall>r \<in> set (invocations db). k r \<noteq> k row" by (rule fire) (use Fire in simp_all)
  then show ?thesis by - (rule held_once_append [OF assms(3)], simp add: Fire(1), simp)
next
  case (Delete p)
  then show ?thesis by - (rule held_once_subset [OF assms(3)], auto simp: delete_invocations_def)
next
  case (Remove sid)
  then show ?thesis by - (rule held_once_subset [OF assms(3)], auto)
qed (rule held_once_frame [OF assms(3)]; simp)+

lemma step_exclusive:
  assumes "ledger_step db db'" and "keys_ok db" and "exclusive db"
  shows "exclusive db'"
  unfolding exclusive_def
proof (rule step_held_once [OF assms(1,2) assms(3) [unfolded exclusive_def]])
  fix row row' :: invocation_row assume "same_key row row'"
    "i_status row' = i_status row \<or> i_status row = Claimed \<and> i_status row' = Running"
  then show "flight_key row' = flight_key row"
    by (auto simp: flight_key_def in_flight_def same_key_def)
next
  fix row row' :: invocation_row assume "same_key row row'" "\<not> other_in_flight db row" "i_status row' = Claimed"
  then show "\<forall>r \<in> set (invocations db). i_id r \<noteq> i_id row \<longrightarrow> flight_key r \<noteq> flight_key row'"
    by (simp add: flight_key_def other_in_flight_def same_key_def in_flight_def) blast
next
  fix row :: invocation_row assume "\<not> has_live db (i_schedule row)" "i_status row = Claimed"
  then show "\<forall>r \<in> set (invocations db). flight_key r \<noteq> flight_key row"
    by (simp add: flight_key_def has_live_def live_status_def in_flight_def) blast
qed (simp add: flight_key_def)

lemma step_tokens_bound:
  assumes "ledger_step db db'" and "keys_ok db"
    and bound: "\<forall>r \<in> set (invocations db). \<forall>t \<in> set_option (i_token r). t < fresh db"
  shows "fresh db \<le> fresh db' \<and> (\<forall>r \<in> set (invocations db'). \<forall>t \<in> set_option (i_token r). t < fresh db')"
proof -
  have up: "\<forall>r \<in> set (invocations db). \<forall>t \<in> set_option (i_token r). t < n" if "fresh db \<le> n" for n
    using bound that order.strict_trans2 by blast
  have rep: "\<forall>r \<in> set (invocations (replace_row row row' db)). \<forall>t \<in> set_option (i_token r). t < n"
    if "row \<in> set (invocations db)" "fresh db \<le> n" "\<forall>t \<in> set_option (i_token row'). t < n" for row row' n
    by (rule ball_replace [OF assms(2) that(1) up [OF that(2)] that(3)])
  have old: "\<forall>t \<in> set_option (i_token row). t < fresh db" if "row \<in> set (invocations db)" for row
    using bound that by blast
  from assms(1) show ?thesis
  proof (cases rule: ledger_step.cases)
    case Tick
    then show ?thesis using up [of "Suc (fresh db)"] by simp
  next
    case (Touch row row')
    then show ?thesis using rep [of row "fresh db" row'] old by simp
  next
    case (Claim row row')
    then show ?thesis using rep [of row "Suc (fresh db)" row'] by simp
  next
    case (Begin row row')
    then show ?thesis using rep [of row "fresh db" row'] old by simp
  next
    case (Settle row row')
    then show ?thesis using rep [of row "fresh db" row'] by simp
  next
    case (Retry row row')
    then show ?thesis using rep [of row "fresh db" row'] by simp
  next
    case (Reopen row row' nowMs)
    then show ?thesis using rep [of row "fresh db" row'] by simp
  next
    case (Reopen_Manual row row')
    then show ?thesis using rep [of row "fresh db" row'] by simp
  next
    case (Enqueue row)
    then show ?thesis using up [of "Suc (fresh db)"] by simp
  next
    case (Fire s row nextRunAt nowMs)
    then show ?thesis using up [of "Suc (Suc (fresh db))"] by simp
  next
    case (Insert s)
    then show ?thesis using up [of "Suc (fresh db)"] by simp
  next
    case (Delete p)
    then show ?thesis using bound by (simp add: delete_invocations_def) blast
  next
    case (Remove sid)
    then show ?thesis using bound by simp blast
  qed (use bound in simp_all)
qed

lemma step_tokens:
  assumes "ledger_step db db'" and "keys_ok db" and "rows_ok db" and "tokens_ok db"
  shows "tokens_ok db'"
proof -
  have bound: "\<forall>r \<in> set (invocations db). \<forall>t \<in> set_option (i_token r). t < fresh db"
    using assms(4) by (simp add: tokens_ok_def)
  have new: "\<forall>r \<in> set (invocations db). i_token r \<noteq> Some n" if "fresh db \<le> n" for n
  proof (intro ballI notI)
    fix r assume "r \<in> set (invocations db)" "i_token r = Some n"
    with bound have "n < fresh db" by simp
    with that show False by simp
  qed
  have "held_once i_token db'"
  proof (rule step_held_once [OF assms(1,2)])
    show "held_once i_token db" using assms(4) by (simp add: tokens_ok_def)
  next
    fix row :: invocation_row assume "i_token row = Some (Suc (fresh db))"
    then show "\<forall>r \<in> set (invocations db). i_token r \<noteq> i_token row"
      using new [of "Suc (fresh db)"] by simp
  next
    fix row row' :: invocation_row assume "i_token row' = Some (fresh db)"
    then show "\<forall>r \<in> set (invocations db). i_id r \<noteq> i_id row \<longrightarrow> i_token r \<noteq> i_token row'"
      using new [of "fresh db"] by simp
  qed simp_all
  with step_tokens_bound [OF assms(1,2) bound] show ?thesis by (simp add: tokens_ok_def)
qed

lemma step_refs: "ledger_step db db' \<Longrightarrow> refs_ok db \<Longrightarrow> refs_ok db'"
  by (induction rule: ledger_step.induct) (simp_all add: refs_ok_def)

subsection \<open>Schedules\<close>

definition unsettling :: "invocation_row \<Rightarrow> bool" where
  "unsettling r \<longleftrightarrow> i_mode r = Scheduled \<and> (live_status (i_status r) \<or> tree_marked r)"

lemma scheduled_unsettled_iff:
  "scheduled_unsettled db sid \<longleftrightarrow> (\<exists>r \<in> set (invocations db). i_schedule r = sid \<and> unsettling r)"
  by (simp add: scheduled_unsettled_def list_ex_iff unsettling_def)

lemma unsettled_replace:
  assumes "keys_ok db" and "row \<in> set (invocations db)" and "same_key row row'"
    and "unsettling row' \<Longrightarrow> unsettling row \<or> sid \<noteq> i_schedule row"
    and "scheduled_unsettled (replace_row row row' db) sid"
  shows "scheduled_unsettled db sid"
proof -
  from assms(5) obtain r where "r \<in> insert row' (set (invocations db))" "i_schedule r = sid" "unsettling r"
    unfolding scheduled_unsettled_iff set_replace [OF assms(1,2)] by blast
  then show ?thesis
    using assms(2-4) unfolding scheduled_unsettled_iff same_key_def by (cases "r = row'") auto
qed

lemma unsettled_subset:
  "set (invocations db') \<subseteq> set (invocations db) \<Longrightarrow> scheduled_unsettled db' sid \<Longrightarrow> scheduled_unsettled db sid"
  unfolding scheduled_unsettled_iff by blast

lemma unsettled_frame:
  "invocations db' = invocations db \<Longrightarrow> scheduled_unsettled db' sid = scheduled_unsettled db sid"
  by (simp add: scheduled_unsettled_def)

lemma schedules_ok_rows:
  assumes "schedules_ok db" and "schedules db' = schedules db"
    and "\<And>s. s \<in> set (schedules db) \<Longrightarrow> s_status s = Completed \<Longrightarrow> scheduled_unsettled db' (s_id s)
      \<Longrightarrow> scheduled_unsettled db (s_id s)"
  shows "schedules_ok db'"
  unfolding schedules_ok_def
proof
  fix s assume "s \<in> set (schedules db')"
  then have "s \<in> set (schedules db)" "schedule_ok db s"
    using assms(1,2) by (simp_all add: schedules_ok_def)
  then show "schedule_ok db' s" using assms(3) [of s] unfolding schedule_ok_def by blast
qed

lemma schedules_ok_update:
  assumes "schedules_ok db" and "\<And>s. s \<in> set (schedules db) \<Longrightarrow> p s \<Longrightarrow> schedule_ok db s \<Longrightarrow> schedule_ok db (f s)"
  shows "schedules_ok (update_schedules p f db)"
  unfolding schedules_ok_def
proof
  fix s' assume "s' \<in> set (schedules (update_schedules p f db))"
  then obtain s where s: "s \<in> set (schedules db)" "s' = (if p s then f s else s)"
    by (auto simp: update_schedules_def)
  then have "schedule_ok db s" using assms(1) by (simp add: schedules_ok_def)
  then have "schedule_ok db s'" using s assms(2) by simp
  then show "schedule_ok (update_schedules p f db) s'"
    by (simp add: schedule_ok_def unsettled_frame [of "update_schedules p f db" db])
qed

lemma used_up_simps [simp]:
  "rounds_used_up (s\<lparr>s_status := a\<rparr>) = rounds_used_up s"
  "rounds_used_up (s\<lparr>s_next_run := b\<rparr>) = rounds_used_up s"
  "rounds_used_up (s\<lparr>s_updated := c\<rparr>) = rounds_used_up s"
  "rounds_used_up (s\<lparr>s_authority := d\<rparr>) = rounds_used_up s"
  by (simp_all add: rounds_used_up_def split: option.split)

lemma schedule_ok_reconcile:
  assumes "schedule_ok db s" and "rounds_used_up s"
  shows "schedule_ok db (s\<lparr>s_status := (if \<not> scheduled_unsettled db (s_id s) then Completed
      else if s_status s = Completed then Active else s_status s), s_next_run := None, s_updated := nowMs\<rparr>)"
  using assms by (simp add: schedule_ok_def split: option.splits)

lemma schedules_ok_reconcile: "schedules_ok db \<Longrightarrow> schedules_ok (reconcileRounds sid nowMs db)"
  unfolding reconcileRounds_def
  by (rule schedules_ok_update, assumption, elim conjE, hypsubst, rule schedule_ok_reconcile)

lemma schedule_ok_start:
  assumes "schedule_ok db s" and "\<not> rounds_used_up s" and "d = 0 \<or> d = 1" and "s_status s \<noteq> Completed"
  shows "schedule_ok db (start_round d n nowMs s)"
  using assms by (auto simp: schedule_ok_def start_round_def rounds_used_up_def split: option.splits)

text \<open>A row that becomes unsettling while its schedule is reconciled: the schedule cannot stay
  completed.\<close>

lemma schedules_ok_reopen:
  assumes "schedules_ok db" and "schedules db' = schedules db"
    and "\<And>x. x \<noteq> sid \<Longrightarrow> scheduled_unsettled db' x \<Longrightarrow> scheduled_unsettled db x"
  shows "schedules_ok (reconcileRounds sid nowMs db')"
  unfolding schedules_ok_def
proof
  fix s' assume "s' \<in> set (schedules (reconcileRounds sid nowMs db'))"
  then obtain s where s: "s \<in> set (schedules db)"
    "s' = (if s_id s = sid \<and> rounds_used_up s then s\<lparr>s_status := (if \<not> scheduled_unsettled db' sid then Completed
      else if s_status s = Completed then Active else s_status s), s_next_run := None, s_updated := nowMs\<rparr> else s)"
    using assms(2) by (auto simp: reconcileRounds_def update_schedules_def)
  have ok: "schedule_ok db s" using assms(1) s(1) by (simp add: schedules_ok_def)
  show "schedule_ok (reconcileRounds sid nowMs db') s'"
  proof (cases "s_id s = sid \<and> rounds_used_up s")
    case True
    then show ?thesis using ok s(2)
      by (simp add: schedule_ok_def unsettled_frame [of "reconcileRounds sid nowMs db'" db'] split: option.splits)
  next
    case False
    then have "s' = s" unfolding s(2) by (rule if_not_P)
    moreover have "\<not> scheduled_unsettled db' (s_id s)" if "s_status s = Completed"
      using that ok False assms(3) [of "s_id s"] unfolding schedule_ok_def by blast
    ultimately show ?thesis using ok
      by (simp add: schedule_ok_def unsettled_frame [of "reconcileRounds sid nowMs db'" db'])
  qed
qed

lemma step_schedules:
  assumes "ledger_step db db'" and "keys_ok db" and "rows_ok db" and "schedules_ok db"
  shows "schedules_ok db'"
  using assms(1)
proof (cases rule: ledger_step.cases)
  case (Touch row row')
  have "tree_marked row' \<Longrightarrow> tree_bearing row \<or> tree_marked row"
    using Touch(7) no_tree_unmarked [of row'] unfolding tree_marked_def tree_column_set_def by metis
  moreover have "tree_bearing row \<Longrightarrow> live_status (i_status row)"
    by (auto simp: tree_bearing_def live_status_def)
  ultimately have "unsettling row' \<Longrightarrow> unsettling row"
    using Touch(3,4) unfolding unsettling_def same_key_def by metis
  then show ?thesis unfolding Touch(1)
    by - (rule schedules_ok_rows [OF assms(4)], simp, rule unsettled_replace [OF assms(2) Touch(2,3)], simp)
next
  case (Claim row row')
  have "unsettling row' \<Longrightarrow> unsettling row" using Claim(3,4) by (simp add: unsettling_def same_key_def)
  then have "schedules_ok (replace_row row row' db)"
    by - (rule schedules_ok_rows [OF assms(4)], simp, rule unsettled_replace [OF assms(2) Claim(2,3)], simp)
  then show ?thesis unfolding Claim(1) by (rule schedules_ok_rows) (simp_all add: scheduled_unsettled_def)
next
  case (Begin row row')
  have "unsettling row' \<Longrightarrow> unsettling row" using Begin(3,4) by (simp add: unsettling_def same_key_def live_status_def)
  then show ?thesis unfolding Begin(1)
    by - (rule schedules_ok_rows [OF assms(4)], simp, rule unsettled_replace [OF assms(2) Begin(2,3)], simp)
next
  case (Settle row row')
  have "\<not> unsettling row'" using Settle(4,6) no_tree_unmarked [of row']
    by (auto simp: unsettling_def live_status_def terminal_status_def)
  then show ?thesis unfolding Settle(1)
    by - (rule schedules_ok_rows [OF assms(4)], simp, rule unsettled_replace [OF assms(2) Settle(2,3)], simp)
next
  case (Retry row row')
  have "unsettling row' \<Longrightarrow> unsettling row" using Retry(3,4) by (auto simp: unsettling_def same_key_def live_status_def in_flight_def)
  then show ?thesis unfolding Retry(1)
    by - (rule schedules_ok_rows [OF assms(4)], simp, rule unsettled_replace [OF assms(2) Retry(2,3)], simp)
next
  case (Reopen row row' nowMs)
  show ?thesis unfolding Reopen(1)
    by (rule schedules_ok_reopen [OF assms(4)], simp, rule unsettled_replace [OF assms(2) Reopen(2,3)], simp)
next
  case (Reopen_Manual row row')
  have "\<not> unsettling row'" using Reopen_Manual(3,9) by (simp add: unsettling_def same_key_def)
  then show ?thesis unfolding Reopen_Manual(1)
    by - (rule schedules_ok_rows [OF assms(4)], simp, rule unsettled_replace [OF assms(2) Reopen_Manual(2,3)], simp)
next
  case (Reconcile sid nowMs)
  then show ?thesis using schedules_ok_reconcile [OF assms(4)] by simp
next
  case (Enqueue row)
  then show ?thesis
    by - (rule schedules_ok_rows [OF assms(4)], auto simp: scheduled_unsettled_iff unsettling_def)
next
  case (Fire s row nextRunAt nowMs)
  let ?db = "db\<lparr>invocations := invocations db @ [row], fresh := Suc (Suc (fresh db))\<rparr>"
  have inj: "x \<in> set (schedules db) \<Longrightarrow> s_id x = s_id s \<Longrightarrow> x = s" for x
    using sid_inj [OF assms(2) _ Fire(2)] by blast
  have "schedules_ok ?db"
  proof (rule schedules_ok_rows [OF assms(4)])
    fix x assume x: "x \<in> set (schedules db)" "s_status x = Completed" "scheduled_unsettled ?db (s_id x)"
    then have "s_id x \<noteq> s_id s" using inj [OF x(1)] Fire(3) by auto
    with x(3) show "scheduled_unsettled db (s_id x)" by (simp add: scheduled_unsettled_iff Fire(7))
  qed simp
  then show ?thesis unfolding Fire(1)
  proof (rule schedules_ok_update)
    fix x assume "x \<in> set (schedules ?db)" "s_id x = s_id s" "schedule_ok ?db x"
    then have "x = s" "schedule_ok ?db x" using inj by simp_all
    then show "schedule_ok ?db (start_round 1 nextRunAt nowMs x)"
      using schedule_ok_start [of ?db s 1] Fire(3,4) by simp
  qed
next
  case (Skip s nextRunAt nowMs)
  have inj: "x \<in> set (schedules db) \<Longrightarrow> s_id x = s_id s \<Longrightarrow> x = s" for x
    using sid_inj [OF assms(2) _ Skip(2)] by blast
  have "s_status s \<noteq> Completed" using assms(4) Skip(2,3) by (auto simp: schedules_ok_def schedule_ok_def)
  then have "schedule_ok db (start_round 0 nextRunAt nowMs x)"
    if "x \<in> set (schedules db)" "s_id x = s_id s" "schedule_ok db x" for x
    using inj [OF that(1,2)] that(3) schedule_ok_start [of db s 0] Skip(3) by simp
  then show ?thesis unfolding Skip(1) by (rule schedules_ok_update [OF assms(4)])
next
  case (Delete p)
  show ?thesis unfolding Delete(1)
    by (rule schedules_ok_rows [OF assms(4)], simp, erule unsettled_subset [rotated], auto simp: delete_invocations_def)
next
  case (Remove sid)
  have sub: "scheduled_unsettled db' x \<Longrightarrow> scheduled_unsettled db x" for x
    by (erule unsettled_subset [rotated]) (auto simp: Remove)
  show ?thesis unfolding schedules_ok_def
  proof
    fix s assume "s \<in> set (schedules db')"
    then have "schedule_ok db s" using assms(4) by (simp add: Remove schedules_ok_def)
    then show "schedule_ok db' s" using sub [of "s_id s"] unfolding schedule_ok_def by blast
  qed
next
  case (Annotate f p)
  show ?thesis unfolding Annotate(1)
    by (rule schedules_ok_update [OF assms(4)]) (simp add: schedule_ok_def rounds_used_up_def Annotate(2-6) cong: option.case_cong)
next
  case (Switch f p)
  show ?thesis unfolding Switch(1)
  proof (rule schedules_ok_update [OF assms(4)])
    fix s assume "schedule_ok db s"
    then show "schedule_ok db (f s)"
      using Switch(3) [of s]
      by (auto simp: schedule_ok_def rounds_used_up_def Switch(2,4-6) cong: option.case_cong)
  qed
next
  case (Insert s)
  have "schedule_ok db' x" if "schedule_ok db x" for x
    using that by (simp add: schedule_ok_def scheduled_unsettled_def Insert(1))
  moreover have "schedule_ok db' s" using Insert(3-5) by (auto simp: schedule_ok_def rounds_used_up_def split: option.splits)
  ultimately show ?thesis using assms(4) by (simp add: schedules_ok_def Insert(1))
next
  case (Extend s ext nowMs nextRunAt auth)
  have inj: "x \<in> set (schedules db) \<Longrightarrow> s_id x = s_id s \<Longrightarrow> x = s" for x
    using sid_inj [OF assms(2) _ Extend(2)] by blast
  have "0 \<le> s_rounds_started s" using assms(4) Extend(2) by (simp add: schedules_ok_def schedule_ok_def)
  moreover have "schedules_ok (db\<lparr>extensions := extensions db @ [ext]\<rparr>)"
    by (rule schedules_ok_rows [OF assms(4)]) (simp_all add: scheduled_unsettled_def)
  ultimately show ?thesis unfolding Extend(1)
  proof -
    assume ok: "schedules_ok (db\<lparr>extensions := extensions db @ [ext]\<rparr>)"
      and "0 \<le> s_rounds_started s"
    then have "schedule_ok (db\<lparr>extensions := extensions db @ [ext]\<rparr>)
        (x\<lparr>s_max_rounds := Some (e_expected ext + e_additional ext), s_authority := auth,
           s_status := Active, s_next_run := Some nextRunAt, s_updated := nowMs\<rparr>)"
      if "x \<in> set (schedules db)" "s_id x = s_id s" for x
      using inj [OF that] Extend(4-6) ok that
      by (simp add: schedules_ok_def schedule_ok_def rounds_used_up_def)
    with ok show "schedules_ok (update_schedules (\<lambda>x. s_id x = s_id s)
        (\<lambda>x. x\<lparr>s_max_rounds := Some (e_expected ext + e_additional ext), s_authority := auth,
               s_status := Active, s_next_run := Some nextRunAt, s_updated := nowMs\<rparr>)
        (db\<lparr>extensions := extensions db @ [ext]\<rparr>))"
      by (intro schedules_ok_update) simp_all
  qed
next
  case (Refer ref)
  show ?thesis unfolding Refer(1) by (rule schedules_ok_rows [OF assms(4)]) (simp_all add: scheduled_unsettled_def)
next
  case Tick
  show ?thesis unfolding Tick by (rule schedules_ok_rows [OF assms(4)]) (simp_all add: scheduled_unsettled_def)
qed

subsection \<open>Extensions\<close>

definition covered :: "schedule_row list \<Rightarrow> extension_row \<Rightarrow> bool" where
  "covered ss x \<longleftrightarrow>
     (\<exists>s \<in> set ss. s_id s = e_schedule x \<and> (\<exists>m. s_max_rounds s = Some m \<and> e_expected x < m))"

lemma extensions_ok_covered:
  "extensions_ok db \<longleftrightarrow>
     distinct (map e_request (extensions db)) \<and> (\<forall>x \<in> set (extensions db). covered (schedules db) x)
     \<and> distinct (map (\<lambda>x. (e_schedule x, e_expected x)) (extensions db))"
  by (simp add: extensions_ok_def covered_def)

lemma extensions_ok_frame:
  assumes "extensions_ok db" and "extensions db' = extensions db"
    and "\<And>x. covered (schedules db) x \<Longrightarrow> covered (schedules db') x"
  shows "extensions_ok db'"
  using assms unfolding extensions_ok_covered by simp

lemma covered_update:
  assumes "covered (schedules db) x" and "\<And>s. s_id (f s) = s_id s"
    and "\<And>s. s \<in> set (schedules db) \<Longrightarrow> p s \<Longrightarrow> s_max_rounds (f s) = s_max_rounds s"
  shows "covered (schedules (update_schedules p f db)) x"
proof -
  from assms(1) obtain s m where s: "s \<in> set (schedules db)" "s_id s = e_schedule x"
    "s_max_rounds s = Some m" "e_expected x < m" unfolding covered_def by blast
  let ?s = "if p s then f s else s"
  have "?s \<in> set (schedules (update_schedules p f db))" using s(1) by (auto simp: update_schedules_def)
  moreover have "s_id ?s = e_schedule x" "s_max_rounds ?s = Some m" using s assms(2,3) by simp_all
  ultimately show ?thesis using s(4) unfolding covered_def by blast
qed

lemma covered_reconcile: "covered (schedules db) x \<Longrightarrow> covered (schedules (reconcileRounds sid nowMs db)) x"
  unfolding reconcileRounds_def by (rule covered_update) simp_all

lemma step_extensions:
  assumes "ledger_step db db'" and "keys_ok db" and "extensions_ok db"
  shows "extensions_ok db'"
  using assms(1)
proof (cases rule: ledger_step.cases)
  case (Reopen row row' nowMs)
  show ?thesis by (rule extensions_ok_frame [OF assms(3)], simp add: Reopen(1))
    (simp add: Reopen(1) covered_reconcile)
next
  case (Reconcile sid nowMs)
  show ?thesis by (rule extensions_ok_frame [OF assms(3)]) (simp_all add: Reconcile covered_reconcile)
next
  case (Fire s row nextRunAt nowMs)
  show ?thesis unfolding Fire(1)
    by (rule extensions_ok_frame [OF assms(3)], simp, rule covered_update) (simp_all add: start_round_def)
next
  case (Skip s nextRunAt nowMs)
  show ?thesis unfolding Skip(1)
    by (rule extensions_ok_frame [OF assms(3)], simp, rule covered_update) (simp_all add: start_round_def)
next
  case (Annotate f p)
  show ?thesis unfolding Annotate(1)
    by (rule extensions_ok_frame [OF assms(3)], simp, rule covered_update) (simp_all add: Annotate(2,4))
next
  case (Switch f p)
  show ?thesis unfolding Switch(1)
    by (rule extensions_ok_frame [OF assms(3)], simp, rule covered_update) (simp_all add: Switch(2,4))
next
  case (Insert s)
  show ?thesis unfolding Insert(1)
    by (rule extensions_ok_frame [OF assms(3)]) (auto simp: covered_def)
next
  case (Remove sid)
  have "covered (schedules db') x" if "covered (schedules db) x" "e_schedule x \<noteq> sid" for x
    using that unfolding covered_def Remove by auto
  then show ?thesis using assms(3)
    by (auto simp: extensions_ok_covered Remove distinct_map_filter)
next
  case (Extend s ext nowMs nextRunAt auth)
  have inj: "x \<in> set (schedules db) \<Longrightarrow> s_id x = s_id s \<Longrightarrow> x = s" for x
    using sid_inj [OF assms(2) _ Extend(2)] by blast
  let ?db = "db\<lparr>extensions := extensions db @ [ext]\<rparr>"
  let ?s = "s\<lparr>s_max_rounds := Some (e_expected ext + e_additional ext), s_authority := auth,
               s_status := Active, s_next_run := Some nextRunAt, s_updated := nowMs\<rparr>"
  have new: "?s \<in> set (schedules db')"
    using Extend(2) by (auto simp: Extend(1) update_schedules_def)
  have cov: "covered (schedules db') x" if "covered (schedules db) x" for x
  proof -
    from that obtain t m where t: "t \<in> set (schedules db)" "s_id t = e_schedule x"
      "s_max_rounds t = Some m" "e_expected x < m" unfolding covered_def by blast
    show ?thesis
    proof (cases "s_id t = s_id s")
      case True
      then have "m = e_expected ext" using inj [OF t(1)] t(3) Extend(4) by simp
      then have "\<exists>m. s_max_rounds ?s = Some m \<and> e_expected x < m" using t(4) Extend(6) by simp
      moreover have "s_id ?s = e_schedule x" using True t(2) by simp
      ultimately show ?thesis using new unfolding covered_def by blast
    next
      case False
      then have "t \<in> set (schedules db')" using t(1) by (auto simp: Extend(1) update_schedules_def)
      with t show ?thesis unfolding covered_def by blast
    qed
  qed
  have covs: "\<forall>x \<in> set (extensions db). covered (schedules db) x"
    using assms(3) by (simp add: extensions_ok_covered)
  have "covered (schedules db') ext"
    using new Extend(3,6) unfolding covered_def
    by (intro bexI [of _ ?s]) simp_all
  moreover have "(e_schedule x, e_expected x) \<noteq> (e_schedule ext, e_expected ext)"
    if x: "x \<in> set (extensions db)" for x
  proof
    assume e: "(e_schedule x, e_expected x) = (e_schedule ext, e_expected ext)"
    from covs x obtain t m where t: "t \<in> set (schedules db)" "s_id t = e_schedule x"
      "s_max_rounds t = Some m" "e_expected x < m" unfolding covered_def by blast
    then have "t = s" using inj [OF t(1)] e Extend(3) by simp
    with t e Extend(4) show False by simp
  qed
  moreover have "extensions db' = extensions db @ [ext]" by (simp add: Extend(1))
  ultimately show ?thesis
    using assms(3) cov covs Extend(7) unfolding extensions_ok_covered by (auto simp: image_iff) metis
next
  case (Enqueue row)
  show ?thesis unfolding Enqueue(1) by (rule extensions_ok_frame [OF assms(3)]) simp_all
next
  case (Claim row row')
  show ?thesis unfolding Claim(1) by (rule extensions_ok_frame [OF assms(3)]) simp_all
qed (use extensions_ok_frame [OF assms(3)] in simp_all)

lemmas step_invariants = step_keys step_rows step_exclusive step_tokens step_schedules step_extensions step_refs

theorem ledger_step_ok: "ledger_step db db' \<Longrightarrow> ledger_ok db \<Longrightarrow> ledger_ok db'"
  unfolding ledger_ok_def by (intro conjI; blast intro: step_invariants)

lemma ledger_steps_ok: "ledger_step\<^sup>*\<^sup>* db db' \<Longrightarrow> ledger_ok db \<Longrightarrow> ledger_ok db'"
  by (induction rule: rtranclp_induct) (auto intro: ledger_step_ok)

lemma ledger_ok_empty: "ledger_ok empty_store"
  by (simp add: ledger_ok_def empty_store_def keys_ok_def rows_ok_def exclusive_def tokens_ok_def
      held_once_def schedules_ok_def extensions_ok_def refs_ok_def)

end
