(* ===== verification/SchedRefine.thy ===== *)
theory SchedRefine
  imports SchedLedger
begin

text \<open>
  Every operation of the schedule store is a sequence of ledger steps: the refinement of the ledger
  of \<open>SchedLedger\<close> by the code's operations. The loops of a claim work on rows read earlier; the
  lemmas here show that such a row still agrees with the stored one where it matters.
\<close>

abbreviation ledger_steps :: "store \<Rightarrow> store \<Rightarrow> bool" where
  "ledger_steps \<equiv> ledger_step\<^sup>*\<^sup>*"

section \<open>Rows\<close>

lemma find_invocation_Some:
  "find_invocation db iid = Some row \<Longrightarrow> row \<in> set (invocations db) \<and> i_id row = iid"
  by (auto simp: find_invocation_def first_where_def find_Some_iff)

lemma find_invocation_None:
  "find_invocation db iid = None \<longleftrightarrow> (\<forall>r \<in> set (invocations db). i_id r \<noteq> iid)"
  by (auto simp: find_invocation_def first_where_def find_None_iff)

lemma find_invocation_in:
  "keys_ok db \<Longrightarrow> row \<in> set (invocations db) \<Longrightarrow> find_invocation db (i_id row) = Some row"
  by (cases "find_invocation db (i_id row)")
    (use find_invocation_None find_invocation_Some id_inj in blast)+

lemma find_schedule_Some:
  "find_schedule db sid = Some s \<Longrightarrow> s \<in> set (schedules db) \<and> s_id s = sid"
  by (auto simp: find_schedule_def first_where_def find_Some_iff)

lemma update_cong:
  assumes "\<And>r. r \<in> set (invocations db) \<Longrightarrow> (if p r then f r else r) = (if q r then g r else r)"
  shows "update_invocations p f db = update_invocations q g db"
  using assms by (simp add: update_invocations_def cong: map_cong)

lemma update_at:
  assumes "keys_ok db" and "row \<in> set (invocations db)" and "\<And>r. p r \<Longrightarrow> i_id r = i_id row" and "p row"
  shows "update_invocations p f db = replace_row row (f row) db"
  unfolding replace_row_def
proof (rule update_cong)
  fix r assume r: "r \<in> set (invocations db)"
  show "(if p r then f r else r) = (if i_id r = i_id row then f row else r)"
    using id_inj [OF assms(1) r assms(2)] assms(3) [of r] assms(4) by (cases "r = row") auto
qed

lemma update_none:
  assumes "\<And>r. r \<in> set (invocations db) \<Longrightarrow> \<not> p r"
  shows "update_invocations p f db = db"
proof -
  have "map (\<lambda>r. if p r then f r else r) (invocations db) = map (\<lambda>r. r) (invocations db)"
    using assms by (intro map_cong) simp_all
  then show ?thesis by (simp add: update_invocations_def)
qed

text \<open>An update of the rows with one identifier, when a row has it, changes that row.\<close>

lemma update_id_cases:
  assumes "keys_ok db" and "\<And>r. p r \<Longrightarrow> i_id r = iid"
  obtains (same) "update_invocations p f db = db"
  | (row) row where "row \<in> set (invocations db)" "p row" "i_id row = iid"
      "update_invocations p f db = replace_row row (f row) db"
proof (cases "\<exists>row \<in> set (invocations db). p row")
  case True
  then obtain row where r: "row \<in> set (invocations db)" "p row" by blast
  then have "i_id row = iid" using assms(2) by blast
  moreover have "update_invocations p f db = replace_row row (f row) db"
    by (rule update_at [OF assms(1) r(1)]) (use assms(2) r(2) \<open>i_id row = iid\<close> in auto)
  ultimately show ?thesis using row r by blast
next
  case False
  then show ?thesis using same update_none by blast
qed

text \<open>Drawing an identifier commutes with the other columns of the store.\<close>

lemma fresh_commute:
  "db\<lparr>fresh := n, schedules := x\<rparr> = db\<lparr>schedules := x, fresh := n\<rparr>"
  "db\<lparr>fresh := n, invocations := y\<rparr> = db\<lparr>invocations := y, fresh := n\<rparr>"
  by (cases db; simp)+

lemma update_fresh: "update_invocations p f (db\<lparr>fresh := n\<rparr>) = (update_invocations p f db)\<lparr>fresh := n\<rparr>"
  by (simp add: update_invocations_def fresh_commute)

section \<open>Composition\<close>

lemma steps_refl [simp, intro]: "ledger_steps db db"
  by simp

lemma steps_one: "ledger_step db db' \<Longrightarrow> ledger_steps db db'"
  by (rule r_into_rtranclp)

lemma steps_trans: "ledger_steps a b \<Longrightarrow> ledger_steps b c \<Longrightarrow> ledger_steps a c"
  by (rule rtranclp_trans)

lemma steps_ok: "ledger_steps db db' \<Longrightarrow> ledger_ok db \<Longrightarrow> ledger_ok db'"
  by (rule ledger_steps_ok)

lemma ok_keys: "ledger_ok db \<Longrightarrow> keys_ok db"
  by (simp add: ledger_ok_def)

lemma transaction_steps:
  assumes "\<And>db' a. work db = Inr (db', a) \<Longrightarrow> ledger_steps db db'"
  shows "ledger_steps db (fst (transaction db work))"
  using assms by (auto simp: transaction_def split: sum.splits prod.splits)

lemma touch_steps:
  assumes "keys_ok db" and "\<And>r. p r \<Longrightarrow> i_id r = iid"
    and "\<And>r. p r \<Longrightarrow> same_key r (f r) \<and> i_status (f r) = i_status r \<and> i_attempt (f r) = i_attempt r
      \<and> i_token (f r) = i_token r"
    and "\<And>r. p r \<Longrightarrow> tree_bearing r \<or> no_tree (f r)
      \<or> i_tree_pgids (f r) = i_tree_pgids r \<and> i_tree_unsettled (f r) = i_tree_unsettled r"
  shows "ledger_steps db (update_invocations p f db)"
proof (rule update_id_cases [OF assms(1,2), where f = f])
  fix row assume row: "row \<in> set (invocations db)" "p row"
    "update_invocations p f db = replace_row row (f row) db"
  have "ledger_step db (replace_row row (f row) db)"
    using assms(3,4) [OF row(2)] by (intro ledger_step.Touch [OF row(1)]) simp_all
  then show ?thesis unfolding row(3) by (rule steps_one)
qed simp_all

section \<open>Failing and settling\<close>

lemma fail_row_settles:
  "same_key r (fail_row error nowMs r)" "terminal_status (i_status (fail_row error nowMs r))"
  "i_token (fail_row error nowMs r) = None" "no_tree (fail_row error nowMs r)"
  "i_attempt (fail_row error nowMs r) = i_attempt r"
  by (simp_all add: same_key_def fail_row_def terminal_status_def no_tree_def)

lemma complete_row_settles:
  "same_key r (complete_row input r)" "terminal_status (i_status (complete_row input r))"
  "i_token (complete_row input r) = None" "no_tree (complete_row input r)"
  "i_attempt (complete_row input r) = i_attempt r"
  by (simp_all add: same_key_def complete_row_def terminal_status_def no_tree_def)

lemma reconcile_steps: "ledger_steps db (reconcileRounds sid nowMs db)"
  by (rule steps_one) (rule ledger_step.Reconcile)

lemma settle_steps:
  assumes "keys_ok db" and "row \<in> set (invocations db)" and "i_id row = iid"
    and "same_key row (f row)" "terminal_status (i_status (f row))" "i_token (f row) = None"
      "no_tree (f row)" "i_attempt (f row) = i_attempt row"
  shows "ledger_steps db (update_invocations (\<lambda>r. i_id r = iid) f db)"
proof -
  have "update_invocations (\<lambda>r. i_id r = iid) f db = replace_row row (f row) db"
    by (rule update_at [OF assms(1,2)]) (simp_all add: assms(3))
  then show ?thesis using ledger_step.Settle [OF assms(2,4-8)] by (simp add: steps_one)
qed

lemma finish_steps:
  assumes "keys_ok db"
  shows "ledger_steps db (fst (finishInvocationAsFailed opt iid error nowMs force db))"
proof (cases "find_invocation db iid")
  case None
  then show ?thesis by (simp add: finishInvocationAsFailed_def)
next
  case (Some row)
  then have row: "row \<in> set (invocations db)" "i_id row = iid" using find_invocation_Some by blast+
  have "ledger_steps db (update_invocations (\<lambda>r. i_id r = iid) (fail_row error nowMs) db)"
    by (rule settle_steps [OF assms row]) (rule fail_row_settles)+
  then show ?thesis
    using steps_trans [OF _ reconcile_steps] by (simp add: finishInvocationAsFailed_def Some Let_def)
qed

lemma annotate_steps:
  assumes "\<And>s. s_id (f s) = s_id s" "\<And>s. s_status (f s) = s_status s"
    "\<And>s. s_max_rounds (f s) = s_max_rounds s" "\<And>s. s_rounds_started (f s) = s_rounds_started s"
    "\<And>s. s_next_run (f s) = s_next_run s"
  shows "ledger_steps db (update_schedules p f db)"
  by (rule steps_one) (rule ledger_step.Annotate [OF assms])

lemma switch_steps:
  assumes "\<And>s. s_id (f s) = s_id s" "\<And>s. s_status (f s) \<noteq> Completed \<or> s_status s = Completed"
    "\<And>s. s_max_rounds (f s) = s_max_rounds s" "\<And>s. s_rounds_started (f s) = s_rounds_started s"
    "\<And>s. s_next_run (f s) = s_next_run s"
  shows "ledger_steps db (update_schedules p f db)"
  by (rule steps_one) (rule ledger_step.Switch [OF assms])

lemma mark_terminal_steps:
  assumes "keys_ok db"
  shows "ledger_steps db (markTerminalFailure opt row error nowMs db)"
proof -
  note fin = finish_steps [OF assms, of opt "i_id row" error nowMs False]
  show ?thesis
  proof (cases "finishInvocationAsFailed opt (i_id row) error nowMs False db")
    case (Pair db1 ok)
    with fin have "ledger_steps db db1" by simp
    moreover have "ledger_steps db1 (update_schedules (\<lambda>s. s_id s = i_schedule row)
        (\<lambda>s. s\<lparr>s_status := (if i_mode row = Scheduled \<and> s_status s \<noteq> Completed then Paused
          else s_status s), s_last_error := Some error, s_updated := nowMs\<rparr>) db1)"
      by (rule switch_steps) simp_all
    ultimately show ?thesis
      by (cases ok) (simp_all add: markTerminalFailure_def Pair steps_trans)
  qed
qed

lemma fail_all_steps: "ledger_ok db \<Longrightarrow> ledger_steps db (fail_all opt error nowMs iids db)"
proof (induction iids arbitrary: db)
  case (Cons iid iids)
  let ?db = "fst (finishInvocationAsFailed opt iid error nowMs False db)"
  have "ledger_steps db ?db" by (rule finish_steps [OF ok_keys [OF Cons.prems]])
  then show ?case using Cons.IH [of ?db] steps_ok [OF _ Cons.prems] steps_trans by simp
qed simp

section \<open>Operations on schedules\<close>

lemma validateMaxRounds_Inr:
  "validateMaxRounds v = Inr w \<Longrightarrow> w = v \<and> (case v of None \<Rightarrow> True | Some m \<Rightarrow> 1 \<le> m)"
  by (auto simp: validateMaxRounds_def split: option.splits if_splits)

lemma toScheduleRecord_fields:
  assumes "toScheduleRecord opt row db = Inr r"
  shows "sr_id r = s_id row" "sr_status r = s_status row" "sr_max_rounds r = s_max_rounds row"
    "sr_rounds_started r = s_rounds_started row"
    "parseTriggerJson (o_intl opt) (s_trigger row) = Inr (sr_trigger r)"
  using assms
  by (auto simp: toScheduleRecord_def sum_bind_eq_Inr lift_trigger_def dest!: validateMaxRounds_Inr
      split: if_splits sum.splits)

lemma requireSchedule_row:
  assumes "requireSchedule opt db sid = Inr r"
  obtains row where "row \<in> set (schedules db)" "s_id row = sid" "find_schedule db sid = Some row"
    "toScheduleRecord opt row db = Inr r"
proof -
  from assms obtain row where "find_schedule db sid = Some row" "toScheduleRecord opt row db = Inr r"
    by (auto simp: requireSchedule_def getSchedule_def sum_bind_eq_Inr split: option.splits)
  then show ?thesis using that find_schedule_Some by blast
qed

lemma validateCreateInput_rounds:
  "validateCreateInput opt input = Inr v
   \<Longrightarrow> case vi_max_rounds v of None \<Rightarrow> True | Some m \<Rightarrow> 1 \<le> m"
  by (auto simp: validateCreateInput_def Let_def sum_bind_eq_Inr dest!: validateMaxRounds_Inr
      split: if_splits option.splits)

lemma insert_steps:
  assumes "case vi_max_rounds valid of None \<Rightarrow> True | Some m \<Rightarrow> 1 \<le> m"
    and "insertSchedule opt valid input nowMs db = Inr (db', r)"
  shows "ledger_steps db db'"
proof -
  from assms(2) obtain n where "db' = db\<lparr>schedules := schedules db @
      [\<lparr>s_id = fresh db, s_name = vi_name valid, s_prompt = vi_prompt valid,
        s_cwd = vi_cwd valid, s_trigger = TriggerJson (vi_trigger valid),
        s_status = Active, s_authority = ci_authority input, s_host = ci_host input,
        s_max_run = vi_max_run valid, s_max_rounds = vi_max_rounds valid,
        s_rounds_started = 0, s_next_run = Some n, s_last_run = None,
        s_last_error = None, s_created = nowMs, s_updated = nowMs\<rparr>], fresh := Suc (fresh db)\<rparr>"
    by (auto simp: insertSchedule_def randomUUID_def Let_def sum_bind_eq_Inr fresh_commute split: if_splits)
  then show ?thesis by (simp only:) (rule steps_one, rule ledger_step.Insert, simp_all add: assms(1))
qed

lemma createSchedule_steps: "ledger_steps db (fst (createSchedule opt input nowMs db))"
proof (cases "validateCreateInput opt input")
  case (Inr valid)
  have "ledger_steps db (fst (transaction db (insertSchedule opt valid input nowMs)))"
    by (rule transaction_steps) (rule insert_steps [OF validateCreateInput_rounds [OF Inr]])
  then show ?thesis by (simp add: createSchedule_def Inr)
qed (simp add: createSchedule_def)

lemma createScheduleIdempotent_steps: "ledger_steps db (fst (createScheduleIdempotent opt input nowMs db))"
proof (cases "validateCreateInput opt input")
  case (Inr valid)
  have "ledger_steps db db'" if r: "create_or_reuse opt valid input nowMs db = Inr (db', res)" for db' res
  proof (cases "first_where (same_task valid input) (schedules db)")
    case None
    with r show ?thesis using insert_steps [OF validateCreateInput_rounds [OF Inr]]
      by (auto simp: create_or_reuse_def sum_bind_eq_Inr)
  next
    case (Some existing)
    have "ledger_steps db (update_schedules (\<lambda>s. s_id s = s_id existing)
        (\<lambda>s. s\<lparr>s_authority := ci_authority input, s_updated := nowMs\<rparr>) db)"
      by (rule annotate_steps) simp_all
    then show ?thesis using r by (auto simp: create_or_reuse_def Some sum_bind_eq_Inr Let_def split: if_splits)
  qed
  then show ?thesis by (simp add: createScheduleIdempotent_def Inr transaction_steps)
qed (simp add: createScheduleIdempotent_def)

lemma setAuthorityDigest_steps: "ledger_steps db (fst (setAuthorityDigest sid digest nowMs db))"
  by (simp add: setAuthorityDigest_def) (rule annotate_steps, simp_all)

lemma resumeSchedule_steps: "ledger_steps db (fst (resumeSchedule sid digest nowMs db))"
  unfolding resumeSchedule_def
proof (rule transaction_steps)
  fix db' :: store and a
  assume r: "(if map_option s_status (find_schedule db sid) = Some Completed
      then Inl (Invalid RoundsExhausted)
      else let db1 = update_schedules (\<lambda>s. s_id s = sid)
                   (\<lambda>s. s\<lparr>s_status := Active, s_authority := Some digest, s_updated := nowMs\<rparr>) db
           in Inr (reconcileRounds sid nowMs db1, find_schedule db sid \<noteq> None)) = Inr (db', a)"
  have "ledger_steps db (update_schedules (\<lambda>s. s_id s = sid)
      (\<lambda>s. s\<lparr>s_status := Active, s_authority := Some digest, s_updated := nowMs\<rparr>) db)"
    by (rule switch_steps) simp_all
  then show "ledger_steps db db'" using r steps_trans [OF _ reconcile_steps]
    by (auto simp: Let_def split: if_splits)
qed

lemma setScheduleStatus_steps:
  assumes "ledger_ok db"
  shows "ledger_steps db (fst (setScheduleStatus opt sid status nowMs db))"
  unfolding setScheduleStatus_def
proof (rule transaction_steps, cases "find_schedule db sid")
  case (Some s)
  fix db' a
  assume r: "(case find_schedule db sid of
       None \<Rightarrow> Inr (db, False)
     | Some schedule \<Rightarrow>
         if s_status schedule = Completed
         then (if status = Active then Inl (Invalid RoundsExhausted) else Inr (db, True))
         else if status = Completed then Inl (Invalid CompletedIsDerived)
         else
           let db1 = update_schedules (\<lambda>s. s_id s = sid)
                       (\<lambda>s. s\<lparr>s_status := status, s_updated := nowMs\<rparr>) db;
               retrying = map i_id (filter (\<lambda>r. i_schedule r = sid \<and> i_mode r = Scheduled
                                                 \<and> i_status r = invocation_status.Retry) (invocations db1));
               db2 = (if status = Paused then fail_all opt PausedDropsRetry nowMs retrying db1
                      else db1)
           in Inr (reconcileRounds sid nowMs db2, True)) = Inr (db', a)"
  show "ledger_steps db db'"
  proof (cases "s_status s = Completed \<or> status = Completed")
    case True
    then show ?thesis using r by (auto simp: Some split: if_splits)
  next
    case False
    let ?db = "update_schedules (\<lambda>s. s_id s = sid) (\<lambda>s. s\<lparr>s_status := status, s_updated := nowMs\<rparr>) db"
    have sw: "ledger_steps db ?db" using False by (intro switch_steps) simp_all
    then have ok: "ledger_ok ?db" by (rule steps_ok [OF _ assms])
    have "ledger_steps db (reconcileRounds sid nowMs (fail_all opt PausedDropsRetry nowMs iids ?db))" for iids
      by (rule steps_trans [OF sw steps_trans [OF fail_all_steps [OF ok] reconcile_steps]])
    moreover have "ledger_steps db (reconcileRounds sid nowMs ?db)"
      by (rule steps_trans [OF sw reconcile_steps])
    ultimately show ?thesis using r False by (auto simp: Some Let_def)
  qed
qed simp

lemma removeSchedule_steps: "ledger_steps db (fst (removeSchedule sid abandon db))"
  unfolding removeSchedule_def
  by (rule transaction_steps) (auto split: option.splits intro: steps_one ledger_step.Remove)

lemma grant_steps:
  assumes "keys_ok db" and "s \<in> set (schedules db)" and "toScheduleRecord opt s db = Inr schedule"
    and "s_max_rounds s = Some (xi_expected input)" and "s_rounds_started s = xi_expected input"
    and "1 \<le> xi_additional input" and "getScheduleExtension db (xi_request input) = None"
    and "grant_extension opt input schedule nextRunAt nowMs db = Inr (db', r)"
  shows "ledger_steps db db'"
proof -
  let ?ext = "\<lparr>e_request = xi_request input, e_schedule = sr_id schedule,
    e_expected = xi_expected input, e_additional = xi_additional input,
    e_authority = xi_authority input, e_created = nowMs\<rparr>"
  have sid: "sr_id schedule = s_id s" by (rule toScheduleRecord_fields(1) [OF assms(3)])
  have "\<forall>x \<in> set (extensions db). e_request x \<noteq> xi_request input"
    using assms(7) by (auto simp: getScheduleExtension_def first_where_def find_None_iff)
  then have "xi_request input \<notin> e_request ` set (extensions db)" by auto
  then have "ledger_step db (update_schedules (\<lambda>x. s_id x = s_id s)
      (\<lambda>x. x\<lparr>s_max_rounds := Some (e_expected ?ext + e_additional ?ext),
             s_authority := Some (xi_authority input),
             s_status := Active, s_next_run := Some nextRunAt, s_updated := nowMs\<rparr>)
      (db\<lparr>extensions := extensions db @ [?ext]\<rparr>))"
    using assms(2,4-6) by (intro ledger_step.Extend) (simp_all add: sid)
  moreover have "db' = update_schedules (\<lambda>x. s_id x = s_id s)
      (\<lambda>x. x\<lparr>s_max_rounds := Some (e_expected ?ext + e_additional ?ext),
             s_authority := Some (xi_authority input),
             s_status := Active, s_next_run := Some nextRunAt, s_updated := nowMs\<rparr>)
      (db\<lparr>extensions := extensions db @ [?ext]\<rparr>)"
    using assms(8) by (auto simp: grant_extension_def Let_def sum_bind_eq_Inr sid split: if_splits)
  ultimately show ?thesis by (simp add: steps_one)
qed

lemma validateExtendInput_Inr: "validateExtendInput input = Inr u \<Longrightarrow> 1 \<le> xi_additional input \<and> 1 \<le> xi_expected input"
  by (auto simp: validateExtendInput_def sum_bind_eq_Inr dest!: validateMaxRounds_Inr split: if_splits)

lemma extendSchedule_steps:
  assumes "ledger_ok db"
  shows "ledger_steps db (fst (extendSchedule opt input nowMs db))"
proof (cases "validateExtendInput input")
  case (Inr u)
  have "ledger_steps db db'" if r: "extend_in_transaction opt input nowMs db = Inr (db', res)" for db' res
  proof (cases "getScheduleExtension db (xi_request input)")
    case (Some receipt)
    with r show ?thesis by (auto simp: extend_in_transaction_def sum_bind_eq_Inr split: if_splits)
  next
    case None
    with r obtain schedule n where req: "requireSchedule opt db (xi_schedule input) = Inr schedule"
      and g: "sr_max_rounds schedule = Some (xi_expected input)"
        "Some (sr_rounds_started schedule) = sr_max_rounds schedule"
        "grant_extension opt input schedule n nowMs db = Inr (db', res)"
      by (auto simp: extend_in_transaction_def sum_bind_eq_Inr split: if_splits)
    from req obtain s where "s \<in> set (schedules db)" "toScheduleRecord opt s db = Inr schedule"
      by (rule requireSchedule_row)
    with g None validateExtendInput_Inr [OF Inr] show ?thesis
      by (intro grant_steps [OF ok_keys [OF assms]]) (auto dest: toScheduleRecord_fields)
  qed
  then show ?thesis by (simp add: extendSchedule_def Inr transaction_steps)
qed (simp add: extendSchedule_def)

section \<open>Operations on runs\<close>

lemma slot_not_taken:
  assumes "insert_or_ignore row db = Some db'"
  shows "slot_of row \<notin> slot_of ` set (invocations db)"
    and "db' = db\<lparr>invocations := invocations db @ [row]\<rparr>"
  using assms by (auto simp: insert_or_ignore_def slot_taken_def list_ex_iff slot_of_def split: if_splits)

lemma enqueue_loop_steps:
  assumes "\<exists>s \<in> set (schedules db). s_id s = sid" and "1 \<le> maxAttempts"
    and "enqueue_loop (fresh db) sid maxAttempts nowMs offsets (db\<lparr>fresh := Suc (fresh db)\<rparr>) = Inr (db', r)"
  shows "ledger_steps db db'"
  using assms(3)
proof (induction offsets)
  case (Cons offset offsets)
  let ?row = "new_row (fresh db) sid Manual (nowMs + int offset) maxAttempts nowMs"
  let ?db = "db\<lparr>fresh := Suc (fresh db)\<rparr>"
  show ?case
  proof (cases "insert_or_ignore ?row ?db")
    case None
    then show ?thesis using Cons by simp
  next
    case (Some db1)
    note new = slot_not_taken [OF Some]
    from Cons.prems Some have "db' = db1" by (auto simp: sum_bind_eq_Inr)
    then have "db' = db\<lparr>invocations := invocations db @ [?row], fresh := Suc (fresh db)\<rparr>"
      by (simp add: new(2) fresh_commute)
    moreover have "ledger_step db (db\<lparr>invocations := invocations db @ [?row], fresh := Suc (fresh db)\<rparr>)"
      by (rule ledger_step.Enqueue) (use new(1) assms(1,2) in \<open>auto simp: new_row_def no_tree_def\<close>)
    ultimately show ?thesis by (simp add: steps_one)
  qed
qed simp

lemma enqueueManualInvocation_steps:
  "ledger_steps db (fst (enqueueManualInvocation opt sid nowMs attempts db))"
  unfolding enqueueManualInvocation_def
proof (rule transaction_steps)
  fix db' a
  assume "sum_bind (requireSchedule opt db sid) (\<lambda>_.
       let (iid, db1) = randomUUID db
       in enqueue_loop iid sid
            (max 1 (case attempts of None \<Rightarrow> o_retry_budget opt | Some n \<Rightarrow> n)) nowMs [0..<1000] db1)
    = Inr (db', a)"
  then obtain s where req: "requireSchedule opt db sid = Inr s"
    and loop: "enqueue_loop (fresh db) sid (max 1 (case attempts of None \<Rightarrow> o_retry_budget opt | Some n \<Rightarrow> n))
      nowMs [0..<1000] (db\<lparr>fresh := Suc (fresh db)\<rparr>) = Inr (db', a)"
    by (auto simp: sum_bind_eq_Inr randomUUID_def)
  from req have "\<exists>s \<in> set (schedules db). s_id s = sid" by (rule requireSchedule_row) blast
  with loop show "ledger_steps db db'" by (intro enqueue_loop_steps) simp_all
qed

lemma claim_row_claims:
  "same_key r (claim_row opt worker token attempt nowMs r)"
  "i_status (claim_row opt worker token attempt nowMs r) = Claimed"
  "i_token (claim_row opt worker token attempt nowMs r) = Some token"
  "i_attempt (claim_row opt worker token attempt nowMs r) = attempt"
  by (simp_all add: same_key_def claim_row_def)

lemma not_other_occupying:
  "\<not> other_occupying db (i_schedule row) (i_id row) \<Longrightarrow> \<not> other_in_flight db row"
  unfolding other_occupying_def other_in_flight_def occupying_def list_ex_iff by blast

text \<open>Claiming a stored row: the token is the next identifier.\<close>

lemma claim_steps:
  assumes "keys_ok db" and "row \<in> set (invocations db)" and "live_status (i_status row)"
    and "\<not> other_in_flight db row" and "attempt = (if i_status row = Pending then 1 else i_attempt row + 1)"
    and "attempt \<le> i_max_attempts row"
  shows "ledger_steps db (update_invocations (\<lambda>r. i_id r = i_id row)
      (claim_row opt worker (fresh db) attempt nowMs) (db\<lparr>fresh := Suc (fresh db)\<rparr>))"
proof -
  have "update_invocations (\<lambda>r. i_id r = i_id row) (claim_row opt worker (fresh db) attempt nowMs) db
      = replace_row row (claim_row opt worker (fresh db) attempt nowMs row) db"
    by (rule update_at [OF assms(1,2)]) simp_all
  moreover have "ledger_step db ((replace_row row (claim_row opt worker (fresh db) attempt nowMs row) db)
      \<lparr>fresh := Suc (fresh db)\<rparr>)"
    by (rule ledger_step.Claim [OF assms(2) _ assms(3,4)])
      (simp_all only: claim_row_claims assms(6), rule assms(5))
  ultimately show ?thesis by (simp add: update_fresh steps_one)
qed

lemma tick_steps: "ledger_steps db (db\<lparr>fresh := Suc (fresh db)\<rparr>)"
  by (rule steps_one) (rule ledger_step.Tick)

lemma pending_row_ok:
  "ledger_ok db \<Longrightarrow> row \<in> set (invocations db) \<Longrightarrow> 1 \<le> i_max_attempts row"
  by (simp add: ledger_ok_def rows_ok_def row_ok_def)

lemma find_invocation_fresh [simp]: "find_invocation (db\<lparr>fresh := n\<rparr>) iid = find_invocation db iid"
  by (simp add: find_invocation_def)

lemma other_occupying_fresh [simp]: "other_occupying (db\<lparr>fresh := n\<rparr>) sid iid = other_occupying db sid iid"
  by (simp add: other_occupying_def)

lemma claimPendingInvocation_steps:
  assumes "ledger_ok db"
  shows "ledger_steps db (fst (claimPendingInvocation opt iid worker nowMs db))"
proof (cases "find_invocation db iid")
  case None
  then show ?thesis
    by (simp add: claimPendingInvocation_def transaction_def randomUUID_def tick_steps)
next
  case (Some row)
  then have row: "row \<in> set (invocations db)" "i_id row = iid" using find_invocation_Some by blast+
  show ?thesis
  proof (cases "i_status row = Pending \<and> \<not> other_occupying db (i_schedule row) iid")
    case True
    have "ledger_steps db (update_invocations (\<lambda>r. i_id r = i_id row)
        (claim_row opt worker (fresh db) 1 nowMs) (db\<lparr>fresh := Suc (fresh db)\<rparr>))"
      using True row pending_row_ok [OF assms row(1)]
      by (intro claim_steps [OF ok_keys [OF assms] row(1)] not_other_occupying) (simp_all add: live_status_def)
    then show ?thesis using True row
      by (auto simp: claimPendingInvocation_def transaction_def randomUUID_def Some sum_bind_eq_Inr
          Let_def split: sum.splits)
  next
    case False
    then show ?thesis
      by (auto simp: claimPendingInvocation_def transaction_def randomUUID_def Some tick_steps)
  qed
qed

lemma discardPendingInvocation_steps: "ledger_steps db (fst (discardPendingInvocation iid db))"
proof -
  have "fst (discardPendingInvocation iid db) = delete_invocations (\<lambda>r. i_id r = iid \<and> i_status r = Pending) db"
    by (simp add: discardPendingInvocation_def delete_invocations_def)
  moreover have "ledger_step db (delete_invocations (\<lambda>r. i_id r = iid \<and> i_status r = Pending) db)"
    by (rule ledger_step.Delete) (auto simp: in_flight_def)
  ultimately show ?thesis by (simp add: steps_one)
qed

lemma cancel_in_transaction_cases:
  "fst (cancel_in_transaction opt row reason nowMs abandon rv checked db) = db
   \<or> (\<exists>iid. fst (cancel_in_transaction opt row reason nowMs abandon rv checked db)
          = fst (finishInvocationAsFailed opt iid reason nowMs abandon db))"
proof (cases "revisionMismatch row rv")
  case None
  show ?thesis
  proof (cases row)
    case (Some r)
    have c: "fst (case x of (db1, True) \<Rightarrow> (db1, Cancelled) | (db1, False) \<Rightarrow> (db1, CancelTreeUnsettled)) = fst x"
      for x :: "store \<times> bool" by (simp split: prod.split bool.split)
    show ?thesis using None
      by (simp add: cancel_in_transaction_def Some c split: option.split) blast
  qed (use None in \<open>simp add: cancel_in_transaction_def\<close>)
qed (simp add: cancel_in_transaction_def)

lemma cancel_in_transaction_steps:
  "keys_ok db \<Longrightarrow> ledger_steps db (fst (cancel_in_transaction opt row reason nowMs abandon rv checked db))"
  using cancel_in_transaction_cases [of opt row reason nowMs abandon rv checked db]
    finish_steps [of db opt _ reason nowMs abandon]
  by (elim disjE exE) simp_all

lemma cancelInvocation_steps:
  "ledger_ok db \<Longrightarrow> ledger_steps db (fst (cancelInvocation opt iid reason nowMs abandon rv db))"
  by (simp add: cancelInvocation_def cancel_in_transaction_steps ok_keys)

lemma tree_row_touches:
  "same_key r (tree_row tree error r) \<and> i_status (tree_row tree error r) = i_status r
   \<and> i_attempt (tree_row tree error r) = i_attempt r \<and> i_token (tree_row tree error r) = i_token r"
  by (simp add: tree_row_def same_key_def Let_def)

lemma recordInvocationTree_steps:
  "ledger_ok db \<Longrightarrow> ledger_steps db (fst (recordInvocationTree iid token tree error db))"
  unfolding recordInvocationTree_def Let_def fst_conv
  by (rule touch_steps [where iid = iid])
    (auto simp: tree_row_touches ok_keys tree_bearing_def in_flight_def)

lemma write_tree_steps:
  "ledger_ok db \<Longrightarrow> ledger_steps db (fst (write_tree_by_attempt iid attempt tree db))"
  unfolding write_tree_by_attempt_def Let_def fst_conv
  by (rule touch_steps [where iid = iid]) (auto simp: tree_row_touches ok_keys tree_bearing_def)

lemma finalizeCancellation_steps:
  assumes "ledger_ok db"
  shows "ledger_steps db (fst (finalizeCancellation opt input db))"
proof -
  have cancel: "ledger_steps db (fst (cancel_in_transaction opt row reason nowMs abandon rv checked db))"
    for row reason nowMs abandon rv checked
    by (rule cancel_in_transaction_steps [OF ok_keys [OF assms]])
  have tree: "ledger_steps db db1"
    "ledger_steps db (fst (cancel_in_transaction opt row reason nowMs abandon rv checked db1))"
    if "write_tree_by_attempt iid attempt t db = (db1, ok)" for iid attempt t db1 ok row reason nowMs abandon rv checked
  proof -
    show s: "ledger_steps db db1" using write_tree_steps [OF assms, of iid attempt t] that by simp
    show "ledger_steps db (fst (cancel_in_transaction opt row reason nowMs abandon rv checked db1))"
      by (rule steps_trans [OF s]) (rule cancel_in_transaction_steps [OF ok_keys [OF steps_ok [OF s assms]]])
  qed
  show ?thesis
    unfolding finalizeCancellation_def Let_def
    by (auto split: option.splits prod.splits bool.splits intro: cancel tree)
qed

lemma beginInvocation_steps:
  assumes "ledger_ok db"
  shows "ledger_steps db (fst (beginInvocation opt iid token nowMs executor db))"
proof -
  let ?p = "\<lambda>r. i_id r = iid \<and> i_token r = Some token \<and> i_status r = Claimed"
  let ?f = "\<lambda>r. r\<lparr>i_status := Running, i_started := Some nowMs,
     i_lease := Some (nowMs + o_claim_lease opt), i_executor_pid := map_option x_pid executor,
     i_executor_start := map_option x_start executor, i_probed_at := None\<rparr>"
  have "ledger_steps db (update_invocations ?p ?f db)"
  proof (rule update_id_cases [OF ok_keys [OF assms], of ?p iid ?f])
    fix row assume row: "row \<in> set (invocations db)" "?p row"
      "update_invocations ?p ?f db = replace_row row (?f row) db"
    have "ledger_step db (replace_row row (?f row) db)"
      using row by (intro ledger_step.Begin) (simp_all add: same_key_def)
    then show ?thesis unfolding row(3) by (rule steps_one)
  qed simp_all
  then show ?thesis by (simp add: beginInvocation_def Let_def)
qed

lemma renewLease_steps: "ledger_ok db \<Longrightarrow> ledger_steps db (fst (renewLease opt iid token nowMs db))"
  unfolding renewLease_def Let_def fst_conv
  by (rule touch_steps [where iid = iid]) (auto simp: ok_keys same_key_def)

lemma completeInvocation_steps:
  assumes "ledger_ok db"
  shows "ledger_steps db (fst (completeInvocation opt input db))"
proof (cases "find_invocation db (co_id input)")
  case None
  then show ?thesis by (simp add: completeInvocation_def)
next
  case (Some row)
  then have row: "row \<in> set (invocations db)" "i_id row = co_id input" using find_invocation_Some by blast+
  let ?db1 = "update_invocations (\<lambda>r. i_id r = co_id input) (complete_row input) db"
  have s1: "ledger_steps db ?db1"
    by (rule settle_steps [OF ok_keys [OF assms] row]) (rule complete_row_settles)+
  have s2: "ledger_steps ?db1 (update_schedules (\<lambda>s. s_id s = i_schedule row)
      (\<lambda>s. s\<lparr>s_last_run := Some (co_now input), s_last_error := None, s_updated := co_now input\<rparr>) ?db1)"
    by (rule annotate_steps) simp_all
  show ?thesis
    using steps_trans [OF s1 s2] steps_trans [OF steps_trans [OF s1 s2] reconcile_steps]
    by (simp add: completeInvocation_def Some Let_def)
qed

lemma owned_row:
  assumes "find_invocation db iid = Some row" and "owns token (Some row)"
  shows "row \<in> set (invocations db)" "i_id row = iid" "in_flight row" "i_token row = Some token"
  using assms find_invocation_Some by (auto simp: owns_def)

lemma failInvocation_steps:
  assumes "ledger_ok db"
  shows "ledger_steps db (fst (failInvocation opt iid token error nowMs terminal db))"
proof (cases "find_invocation db iid")
  case None
  then show ?thesis by (simp add: failInvocation_def transaction_def)
next
  case (Some row)
  let ?f = "\<lambda>r. r\<lparr>i_status := invocation_status.Retry, i_retry_at := Some (nowMs + o_retry_backoff opt),
     i_error := Some error, i_claimed_by := None, i_token := None, i_lease := None\<rparr>"
  have retry: "ledger_steps db (update_invocations (\<lambda>r. i_id r = iid) ?f db)" if own: "owns token (Some row)"
  proof -
    note row = owned_row [OF Some own]
    have "update_invocations (\<lambda>r. i_id r = iid) ?f db = replace_row row (?f row) db"
      by (rule update_at [OF ok_keys [OF assms] row(1)]) (simp_all add: row(2))
    moreover have "ledger_step db (replace_row row (?f row) db)"
      by (rule ledger_step.Retry [OF row(1) _ row(3)]) (simp_all add: same_key_def)
    ultimately show ?thesis by (simp add: steps_one)
  qed
  have "ledger_steps db (markTerminalFailure opt row error nowMs db)"
    by (rule mark_terminal_steps [OF ok_keys [OF assms]])
  then show ?thesis using retry
    by (auto simp: failInvocation_def transaction_def Some Let_def sum_bind_eq_Inr split: sum.splits)
qed

lemma update_schedules_replace:
  "update_schedules p f (replace_row row row' db) = replace_row row row' (update_schedules p f db)"
  by (cases db) (simp add: update_schedules_def replace_row_def update_invocations_def)

lemma reclassify_steps:
  assumes "ledger_ok db"
  shows "ledger_steps db (fst (reclassifyTimedOutInvocation opt iid attempt error timedOutAt nowMs db))"
proof (cases "find_invocation db iid")
  case None
  then show ?thesis by (simp add: reclassifyTimedOutInvocation_def transaction_def)
next
  case (Some row)
  then have row: "row \<in> set (invocations db)" "i_id row = iid" using find_invocation_Some by blast+
  let ?clear = "\<lambda>r. r\<lparr>i_thread := None, i_output := None, i_pending_actions := JsonText (JArray [])\<rparr>"
  let ?db1 = "update_invocations (\<lambda>r. i_id r = iid) ?clear db"
  have s1: "ledger_steps db ?db1"
    by (rule touch_steps [OF ok_keys [OF assms], where iid = iid]) (simp_all add: same_key_def)
  have mark: "ledger_steps db (markTerminalFailure opt row error nowMs ?db1)"
    by (rule steps_trans [OF s1]) (rule mark_terminal_steps [OF ok_keys [OF steps_ok [OF s1 assms]]])
  let ?f = "\<lambda>r. r\<lparr>i_status := invocation_status.Retry, i_retry_at := Some (nowMs + o_retry_backoff opt),
     i_error := Some error, i_finished := None, i_claimed_by := None,
     i_token := None, i_lease := None, i_thread := None, i_output := None,
     i_pending_actions := JsonText (JArray [])\<rparr>"
  let ?g = "update_schedules (\<lambda>s. s_id s = i_schedule row)
     (\<lambda>s. s\<lparr>s_last_error := Some error, s_updated := nowMs\<rparr>)"
  have up: "update_invocations (\<lambda>r. i_id r = iid) ?f db = replace_row row (?f row) db"
    by (rule update_at [OF ok_keys [OF assms] row(1)]) (simp_all add: row(2))
  have ann: "ledger_steps db (?g db)" by (rule annotate_steps) simp_all
  have reopen: "ledger_steps db (if i_mode row = Scheduled
      then reconcileRounds (i_schedule row) nowMs (?g (update_invocations (\<lambda>r. i_id r = iid) ?f db))
      else ?g (update_invocations (\<lambda>r. i_id r = iid) ?f db))"
    if st: "i_status row \<in> {Done, NeedsConfirmation}" and att: "\<not> i_max_attempts row \<le> i_attempt row"
  proof -
    have "ledger_step (?g db) (if i_mode row = Scheduled
        then reconcileRounds (i_schedule row) nowMs (replace_row row (?f row) (?g db))
        else replace_row row (?f row) (?g db))"
    proof (cases "i_mode row")
      case Scheduled
      then show ?thesis using row(1) st att
        by (simp only: refl if_True) (rule ledger_step.Reopen, simp_all add: same_key_def)
    next
      case Manual
      then show ?thesis using row(1) st att
        by simp (rule ledger_step.Reopen_Manual, simp_all add: same_key_def)
    qed
    then show ?thesis unfolding up update_schedules_replace by (rule steps_trans [OF ann steps_one])
  qed
  show ?thesis
    using mark reopen
    by (auto simp: reclassifyTimedOutInvocation_def transaction_def Some Let_def sum_bind_eq_Inr not_le
        split: sum.splits)
qed

lemma prepareWorkerShutdown_steps:
  "ledger_ok db \<Longrightarrow> ledger_steps db (fst (prepareWorkerShutdown opt worker reason nowMs db))"
  unfolding prepareWorkerShutdown_def
  by (rule transaction_steps) (auto simp: Let_def sum_bind_eq_Inr intro: fail_all_steps)

lemma insertThreadReference_steps:
  assumes "insertThreadReference opt row input nowMs db = Inr (db', r)"
  shows "ledger_steps db db'"
proof (cases "first_where (\<lambda>r. r_invocation r = tr_invocation input \<and> r_attempt r = tr_attempt input)
    (thread_refs db)")
  case None
  then have new: "(tr_invocation input, tr_attempt input) \<notin> (\<lambda>r. (r_invocation r, r_attempt r)) ` set (thread_refs db)"
    by (auto simp: first_where_def find_None_iff)
  have "ledger_steps db (db\<lparr>thread_refs := thread_refs db @ [ref]\<rparr>)"
    if "r_invocation ref = tr_invocation input" "r_attempt ref = tr_attempt input" for ref
    using new that by (intro steps_one ledger_step.Refer) simp
  then show ?thesis using assms None
    by (auto simp: insertThreadReference_def sum_bind_eq_Inr Let_def split: option.splits)
qed (use assms in \<open>auto simp: insertThreadReference_def split: if_splits\<close>)

lemma reference_transaction_steps:
  "ledger_steps db (fst (transaction db (\<lambda>db. case q db of
     None \<Rightarrow> Inr (db, None) | Some row \<Rightarrow> insertThreadReference opt row input nowMs db)))"
  by (rule transaction_steps) (auto split: option.splits intro: insertThreadReference_steps)

lemma reference_steps:
  "ledger_steps db (fst (registerThreadReference opt input token nowMs db))"
  "ledger_steps db (fst (backfillThreadReference opt input nowMs db))"
  by (simp_all add: registerThreadReference_def backfillThreadReference_def reference_transaction_steps)

lemma excess_terminal:
  assumes "keys_ok db" and "r \<in> set (invocations db)" and "excess keep db r"
  shows "terminal_status (i_status r)"
proof -
  from assms(3) obtain r' where r': "r' \<in> set (newest_terminal db (i_schedule r))" "i_id r' = i_id r"
    by (auto simp: excess_def dest: in_set_dropD)
  then have "r' \<in> set (invocations db)" "terminal_status (i_status r')" by (auto simp: newest_terminal_def)
  with id_inj [OF assms(1) _ assms(2)] r'(2) show ?thesis by blast
qed

lemma pruneInvocations_steps:
  assumes "ledger_ok db"
  shows "ledger_steps db (fst (pruneInvocations opt nowMs db))"
proof -
  let ?db1 = "delete_invocations (aged (nowMs - o_retention_ms opt)) db"
  have s1: "ledger_steps db ?db1"
    by (rule steps_one, rule ledger_step.Delete) (auto simp: aged_def in_flight_def terminal_status_def)
  have k: "keys_ok ?db1" by (rule ok_keys [OF steps_ok [OF s1 assms]])
  have "ledger_steps ?db1 (delete_invocations (excess (o_retention_count opt) ?db1) ?db1)"
    by (rule steps_one, rule ledger_step.Delete) (auto dest!: excess_terminal [OF k] simp: in_flight_def terminal_status_def)
  with s1 show ?thesis by (simp add: pruneInvocations_def Let_def steps_trans)
qed

section \<open>Claiming\<close>

text \<open>A row read at the start of a claim is still current: the stored row with its identifier has its
  key, status, attempt and token.\<close>

definition current :: "store \<Rightarrow> invocation_row \<Rightarrow> bool" where
  "current db row \<longleftrightarrow>
     (\<exists>r \<in> set (invocations db). same_key row r \<and> i_status r = i_status row
        \<and> i_attempt r = i_attempt row)"

lemma current_update:
  assumes "current db row"
    and "\<And>r. i_id r = i_id row \<Longrightarrow> p r \<Longrightarrow> same_key r (f r) \<and> i_status (f r) = i_status r \<and> i_attempt (f r) = i_attempt r"
  shows "current (update_invocations p f db) row"
proof -
  from assms(1) obtain r where r: "r \<in> set (invocations db)" "same_key row r" "i_status r = i_status row"
    "i_attempt r = i_attempt row" unfolding current_def by blast
  let ?r = "if p r then f r else r"
  have "?r \<in> set (invocations (update_invocations p f db))"
    using r(1) by (auto simp: update_invocations_def)
  moreover have "same_key row ?r" "i_status ?r = i_status row" "i_attempt ?r = i_attempt row"
    using r(2-4) assms(2) [of r] by (auto simp: same_key_def)
  ultimately show ?thesis unfolding current_def by blast
qed

lemma current_frame: "current db row \<Longrightarrow> invocations db' = invocations db \<Longrightarrow> current db' row"
  by (simp add: current_def)

lemma current_other:
  assumes "current db row" and "i_id row \<noteq> iid"
  shows "current (update_invocations (\<lambda>r. i_id r = iid) f db) row"
  using assms by (intro current_update) auto

lemma current_finish:
  assumes "current db row" and "i_id row \<noteq> iid"
  shows "current (fst (finishInvocationAsFailed opt iid error nowMs force db)) row"
proof -
  have "current (update_invocations (\<lambda>r. i_id r = iid) (fail_row error nowMs) db) row"
    by (rule current_other [OF assms])
  then show ?thesis using assms(1)
    by (auto simp: finishInvocationAsFailed_def Let_def split: option.splits intro: current_frame)
qed

lemma current_mark:
  assumes "current db row" and "i_id row \<noteq> i_id row'"
  shows "current (markTerminalFailure opt row' error nowMs db) row"
  using current_finish [OF assms, of opt error nowMs False]
  by (auto simp: markTerminalFailure_def split: prod.splits bool.splits intro: current_frame)

lemma current_defer:
  "current db row \<Longrightarrow> current (defer_row opt nowMs row' db) row"
  unfolding defer_row_def by (rule current_update) (auto simp: same_key_def)

lemma defer_steps: "keys_ok db \<Longrightarrow> ledger_steps db (defer_row opt nowMs row db)"
  unfolding defer_row_def by (rule touch_steps [where iid = "i_id row"]) (auto simp: same_key_def)

lemma load_for_claim_steps:
  assumes "load_for_claim opt sid nowMs db = (db', s)"
  shows "ledger_steps db db'" "invocations db' = invocations db" "s \<noteq> None \<Longrightarrow> db' = db"
proof -
  have "ledger_steps db (pause_invalid x e nowMs db)" for x e
    unfolding pause_invalid_def by (rule switch_steps) simp_all
  then show "ledger_steps db db'" using assms
    by (auto simp: load_for_claim_def decode_for_claim_def split: option.splits sum.splits)
  show "invocations db' = invocations db" "s \<noteq> None \<Longrightarrow> db' = db" using assms
    by (auto simp: load_for_claim_def decode_for_claim_def pause_invalid_def split: option.splits sum.splits)
qed

text \<open>One reclaimable row: the store moves by steps, and every other row stays current.\<close>

lemma reclaim_row_steps:
  assumes "ledger_ok db" and "current db row" and "live_status (i_status row)"
    and "reclaim_row opt input row db = Inr (db', c)"
  shows "ledger_steps db db' \<and> (\<forall>x. current db x \<and> i_id x \<noteq> i_id row \<longrightarrow> current db' x)"
proof (cases "parseTrackedGroupsResult (i_tree_pgids row) = None")
  case True
  then show ?thesis using assms(4) defer_steps [OF ok_keys [OF assms(1)]] current_defer
    by (auto simp: reclaim_row_def Let_def)
next
  case parsed: False
  obtain db1 s where l: "load_for_claim opt (i_schedule row) (cd_now input) db = (db1, s)" by fastforce
  note load = load_for_claim_steps [OF l]
  have ok1: "ledger_ok db1" by (rule steps_ok [OF load(1) assms(1)])
  note k1 = ok_keys [OF ok1]
  have cur1: "current db1 x" if "current db x" for x using current_frame [OF that load(2)] .
  show ?thesis
  proof (cases s)
    case None
    have "ledger_steps db (defer_row opt (cd_now input) row db1)"
      by (rule steps_trans [OF load(1) defer_steps [OF k1]])
    then show ?thesis using assms(4) parsed None l load(1) cur1 current_defer
      by (auto simp: reclaim_row_def Let_def split: if_splits)
  next
    case (Some schedule)
    then have db1: "db1 = db" using load(3) by simp
    note l' = l [unfolded Some db1]
    let ?now = "cd_now input"
    have dfr: "ledger_steps db (defer_row opt ?now row db)" by (rule defer_steps [OF ok_keys [OF assms(1)]])
    have fin: "ledger_steps db (fst (finishInvocationAsFailed opt (i_id row) PausedDropsRun ?now False db))"
      by (rule finish_steps [OF ok_keys [OF assms(1)]])
    have mark: "ledger_steps db (markTerminalFailure opt row e ?now db)" for e
      by (rule mark_terminal_steps [OF ok_keys [OF assms(1)]])
    let ?attempt = "if i_status row = Pending then 1 else i_attempt row + 1"
    consider (paused) "i_mode row = Scheduled \<and> sr_status schedule = Paused"
      | (busy) "\<not> (i_mode row = Scheduled \<and> sr_status schedule = Paused)" "other_occupying db (i_schedule row) (i_id row)"
      | (spent) "\<not> (i_mode row = Scheduled \<and> sr_status schedule = Paused)"
          "\<not> other_occupying db (i_schedule row) (i_id row)" "?attempt > i_max_attempts row"
      | (claim) "\<not> (i_mode row = Scheduled \<and> sr_status schedule = Paused)"
          "\<not> other_occupying db (i_schedule row) (i_id row)" "?attempt \<le> i_max_attempts row"
      by linarith
    then show ?thesis
    proof cases
      case paused
      then have "db' = (if treeBlocksTerminal opt row then defer_row opt ?now row db
          else fst (finishInvocationAsFailed opt (i_id row) PausedDropsRun ?now False db))"
        using assms(4) parsed by (simp add: reclaim_row_def Let_def l')
      then show ?thesis using dfr fin current_defer current_finish by (auto split: if_splits)
    next
      case busy
      then have "db' = db" using assms(4) parsed by (auto simp: reclaim_row_def Let_def l')
      then show ?thesis by simp
    next
      case spent
      then have "db' = (if treeBlocksTerminal opt row then defer_row opt ?now row db
          else markTerminalFailure opt row (BudgetExhausted (i_max_attempts row) (i_error row)) ?now db)"
        using assms(4) parsed by (auto simp: reclaim_row_def Let_def l')
      then show ?thesis using dfr mark current_defer current_mark by (auto split: if_splits)
    next
      case claim
      from assms(2) obtain r where r: "r \<in> set (invocations db)" "same_key row r" "i_status r = i_status row"
        "i_attempt r = i_attempt row" unfolding current_def by blast
      let ?db2 = "update_invocations (\<lambda>r. i_id r = i_id row)
        (claim_row opt (cd_worker input) (fresh db) ?attempt ?now) (db\<lparr>fresh := Suc (fresh db)\<rparr>)"
      have "db' = ?db2" using assms(4) parsed claim
        by (auto simp: reclaim_row_def Let_def l' randomUUID_def sum_bind_eq_Inr split: if_splits)
      moreover have "ledger_steps db ?db2"
      proof -
        have "i_id r = i_id row" "i_schedule r = i_schedule row" "i_max_attempts r = i_max_attempts row"
          using r(2) by (simp_all add: same_key_def)
        moreover have "ledger_steps db (update_invocations (\<lambda>x. i_id x = i_id r)
          (claim_row opt (cd_worker input) (fresh db) ?attempt ?now) (db\<lparr>fresh := Suc (fresh db)\<rparr>))"
          using claim(2,3) assms(3) r(3,4) calculation
          by (intro claim_steps [OF ok_keys [OF assms(1)] r(1)] not_other_occupying) simp_all
        ultimately show ?thesis by simp
      qed
      moreover have "current ?db2 x" if "current db x" "i_id x \<noteq> i_id row" for x
        by (rule current_other [OF current_frame [OF that(1)] that(2)]) simp
      ultimately show ?thesis by blast
    qed
  qed
qed

text \<open>Probing and renewing leases touch rows only.\<close>

lemma lease_steps:
  assumes "ledger_ok db"
  shows "ledger_steps db (extend_lease iid t db)" "current db x \<Longrightarrow> current (extend_lease iid t db) x"
  unfolding extend_lease_def
  by (rule touch_steps [OF ok_keys [OF assms], where iid = iid], simp_all add: same_key_def)
    (rule current_update, simp_all add: same_key_def)

lemma probed_steps:
  assumes "ledger_ok db"
  shows "ledger_steps db (update_invocations (\<lambda>r. i_id r = iid) (\<lambda>r. r\<lparr>i_probed_at := t\<rparr>) db)"
    "current db x \<Longrightarrow> current (update_invocations (\<lambda>r. i_id r = iid) (\<lambda>r. r\<lparr>i_probed_at := t\<rparr>) db) x"
  by (rule touch_steps [OF ok_keys [OF assms], where iid = iid], simp_all add: same_key_def)
    (rule current_update, simp_all add: same_key_def)

lemma probe_loop_steps:
  "ledger_ok db \<Longrightarrow> ledger_steps db (fst (probe_loop opt nowMs n rows results db))
     \<and> (\<forall>x. current db x \<longrightarrow> current (fst (probe_loop opt nowMs n rows results db)) x)"
proof (induction rows arbitrary: n results db)
  case (Cons row rows)
  let ?db = "update_invocations (\<lambda>r. i_id r = i_id row) (\<lambda>r. r\<lparr>i_probed_at := Some nowMs\<rparr>) db"
  have p: "ledger_steps db ?db" "\<And>x. current db x \<Longrightarrow> current ?db x"
    using probed_steps [OF Cons.prems] by blast+
  have ok: "ledger_ok ?db" by (rule steps_ok [OF p(1) Cons.prems])
  show ?case using Cons.IH [OF Cons.prems] Cons.IH [OF ok] p steps_trans [OF p(1)]
    by (auto split: option.split)
qed simp

lemma sift_loop_steps:
  "ledger_ok db \<Longrightarrow> ledger_steps db (fst (sift_loop opt input probes rows acc db))
     \<and> (\<forall>x. current db x \<longrightarrow> current (fst (sift_loop opt input probes rows acc db)) x)"
proof (induction rows arbitrary: acc db)
  case (Cons row rows)
  have e: "ledger_steps db (extend_lease (i_id row) t db)"
    "ledger_ok (extend_lease (i_id row) t db)"
    "\<And>x. current db x \<Longrightarrow> current (extend_lease (i_id row) t db) x" for t
    using lease_steps [OF Cons.prems] steps_ok [OF _ Cons.prems] by blast+
  have "ledger_steps db (fst (sift_loop opt input probes rows acc (extend_lease (i_id row) t db)))" for t acc
    using steps_trans [OF e(1)] Cons.IH [OF e(2)] by blast
  then show ?case using Cons.IH [OF Cons.prems] Cons.IH [OF e(2)] e(3) by simp
qed simp

lemma sift_loop_rows:
  "snd (sift_loop opt input probes rows acc db) = acc @ filter (\<lambda>row.
     \<not> (in_flight row \<and> (i_id row \<in> set (cd_held input) \<or> probes (i_id row) = Some ProbedNotDead))
     \<and> probes (i_id row) \<noteq> Some Deferred) rows"
  by (induction rows arbitrary: acc db) auto

lemma live_rows_current:
  assumes "keys_ok db"
  shows "distinct (map i_id (live_rows nowMs db))"
    and "row \<in> set (live_rows nowMs db) \<Longrightarrow> current db row \<and> live_status (i_status row)"
proof -
  have "distinct (invocations db)" using assms by (simp add: keys_ok_def distinct_map)
  then have "distinct (live_rows nowMs db)" by (simp add: live_rows_def)
  moreover have sub: "set (live_rows nowMs db) \<subseteq> set (invocations db)" by (auto simp: live_rows_def)
  moreover have "inj_on i_id (set (invocations db))" using assms by (simp add: keys_ok_def distinct_map)
  ultimately show "distinct (map i_id (live_rows nowMs db))"
    using inj_on_subset by (simp add: distinct_map) blast
  show "current db row \<and> live_status (i_status row)" if r: "row \<in> set (live_rows nowMs db)"
  proof -
    have "claimable nowMs row" "row \<in> set (invocations db)" using r by (auto simp: live_rows_def)
    then show ?thesis unfolding current_def
      by (auto simp: claimable_def in_flight_def live_status_def same_key_def intro!: bexI [of _ row])
  qed
qed

lemma sift_steps:
  assumes "ledger_ok db" and "sift_live_rows opt input db = (db1, rows)"
  shows "ledger_steps db db1" "distinct (map i_id rows)"
    "row \<in> set rows \<Longrightarrow> current db1 row \<and> live_status (i_status row)"
proof -
  let ?live = "live_rows (cd_now input) db"
  obtain dbp probes where p: "probe_loop opt (cd_now input)
      (if cd_limit input \<le> 0 then 0 else o_max_probes opt) (probe_candidates input ?live) Map.empty db
      = (dbp, probes)" by fastforce
  have pl: "ledger_steps db dbp" "\<And>x. current db x \<Longrightarrow> current dbp x"
    using probe_loop_steps [OF assms(1)] p by (metis fst_conv)+
  have okp: "ledger_ok dbp" by (rule steps_ok [OF pl(1) assms(1)])
  from assms(2) have s: "sift_loop opt input probes ?live [] dbp = (db1, rows)"
    by (simp add: sift_live_rows_def Let_def p)
  have sl: "ledger_steps dbp db1" "\<And>x. current dbp x \<Longrightarrow> current db1 x"
    using sift_loop_steps [OF okp, of opt input probes ?live "[]"] s by (metis fst_conv)+
  have rows: "\<exists>q. rows = filter q ?live"
    using sift_loop_rows [of opt input probes ?live "[]" dbp] s by auto
  show "ledger_steps db db1" by (rule steps_trans [OF pl(1) sl(1)])
  show "distinct (map i_id rows)"
    using rows live_rows_current(1) [OF ok_keys [OF assms(1)]] by (auto intro: distinct_map_filter)
  show "current db1 row \<and> live_status (i_status row)" if "row \<in> set rows"
    using that rows live_rows_current(2) [OF ok_keys [OF assms(1)]] pl(2) sl(2) by fastforce
qed

lemma reclaim_loop_steps:
  assumes "ledger_ok db" and "distinct (map i_id rows)"
    and "\<And>row. row \<in> set rows \<Longrightarrow> current db row \<and> live_status (i_status row)"
    and "reclaim_loop opt input rows claimed db = Inr (db', claimed')"
  shows "ledger_steps db db'"
  using assms
proof (induction rows arbitrary: db claimed)
  case (Cons row rows)
  show ?case
  proof (cases "int (length claimed) \<ge> cd_limit input")
    case True
    then show ?thesis using Cons.prems(4) by simp
  next
    case False
    with Cons.prems(4) obtain db1 c where r: "reclaim_row opt input row db = Inr (db1, c)"
      and l: "reclaim_loop opt input rows (add_claim claimed c) db1 = Inr (db', claimed')"
      by (auto simp: sum_bind_eq_Inr)
    have s: "ledger_steps db db1" "\<And>x. current db x \<Longrightarrow> i_id x \<noteq> i_id row \<Longrightarrow> current db1 x"
      using reclaim_row_steps [OF Cons.prems(1) _ _ r] Cons.prems(3) by simp_all
    have rest: "current db1 x \<and> live_status (i_status x)" if "x \<in> set rows" for x
    proof -
      have "i_id x \<noteq> i_id row" using Cons.prems(2) that by (metis distinct.simps(2) image_eqI list.set_map list.simps(9))
      then show ?thesis using Cons.prems(3) [of x] that s(2) by simp
    qed
    have "distinct (map i_id rows)" using Cons.prems(2) by simp
    then have "ledger_steps db1 db'"
      by (rule Cons.IH [OF steps_ok [OF s(1) Cons.prems(1)] _ rest l])
    then show ?thesis by (rule steps_trans [OF s(1)])
  qed
qed simp

text \<open>A due schedule may fire as long as nothing changed it and no run of it is live.\<close>

definition fire_ready :: "store \<Rightarrow> schedule_row \<Rightarrow> bool" where
  "fire_ready db s \<longleftrightarrow>
     s \<in> set (schedules db) \<and> s_status s = Active \<and> \<not> rounds_used_up s \<and> \<not> has_live db (s_id s)"

lemma fire_ready_update:
  assumes "fire_ready db x" and "s_id x \<noteq> sid"
  shows "fire_ready (update_schedules (\<lambda>s. s_id s = sid) f db) x"
  using assms by (auto simp: fire_ready_def has_live_def update_schedules_def intro: image_eqI [of _ _ x])

lemma fire_ready_append:
  assumes "fire_ready db x" and "s_id x \<noteq> i_schedule row"
  shows "fire_ready (db\<lparr>invocations := invocations db @ [row], fresh := n\<rparr>) x"
  using assms by (auto simp: fire_ready_def has_live_def)

lemma fire_ready_fresh: "fire_ready (db\<lparr>fresh := n\<rparr>) x = fire_ready db x"
  by (simp add: fire_ready_def has_live_def)

lemma due_schedules_ready:
  assumes "keys_ok db"
  shows "distinct (map s_id (due_schedules opt nowMs db))"
    and "s \<in> set (due_schedules opt nowMs db) \<Longrightarrow> fire_ready db s"
proof -
  let ?ready = "filter (\<lambda>s. s_status s = Active \<and> due nowMs (s_next_run s) \<and> \<not> rounds_used_up s
      \<and> \<not> list_ex (\<lambda>r. i_schedule r = s_id s \<and> live_status (i_status r)) (invocations db)) (schedules db)"
  let ?sorted = "sort_key (\<lambda>s. the (s_next_run s)) (sort_key s_created ?ready)"
  have "distinct (schedules db)" "inj_on s_id (set (schedules db))"
    using assms by (simp_all add: keys_ok_def distinct_map)
  then have "distinct ?sorted" "inj_on s_id (set ?sorted)" by (auto intro: inj_on_subset)
  then have "distinct (map s_id ?sorted)" by (simp add: distinct_map)
  then have "distinct (take (o_max_schedules opt) (map s_id ?sorted))" by (rule distinct_take)
  then show "distinct (map s_id (due_schedules opt nowMs db))" by (simp only: due_schedules_def take_map)
  show "fire_ready db s" if "s \<in> set (due_schedules opt nowMs db)"
  proof -
    from that have "s \<in> set ?ready" unfolding due_schedules_def by (auto dest: in_set_takeD)
    then show ?thesis by (auto simp: fire_ready_def has_live_def list_ex_iff)
  qed
qed

lemma fire_schedule_steps:
  assumes "ledger_ok db" and "fire_ready db s" and "1 \<le> o_retry_budget opt"
    and "fire_schedule opt input s db = Inr (db', c)"
  shows "ledger_steps db db' \<and> (\<forall>x. fire_ready db x \<and> s_id x \<noteq> s_id s \<longrightarrow> fire_ready db' x)"
proof (cases "toScheduleRecord opt s db")
  case (Inl e)
  then have d: "db' = pause_invalid (s_id s) e (cd_now input) db"
    using assms(4) by (simp add: fire_schedule_def Let_def decode_for_claim_def)
  have "ledger_steps db db'" unfolding d pause_invalid_def by (rule switch_steps) simp_all
  then show ?thesis using fire_ready_update by (auto simp: d pause_invalid_def)
next
  case (Inr schedule)
  let ?now = "cd_now input"
  let ?slot = "case s_next_run s of None \<Rightarrow> ?now | Some t \<Rightarrow> t"
  let ?new = "claim_row opt (cd_worker input) (Suc (fresh db)) 1 ?now
    (new_row (fresh db) (s_id s) Scheduled ?slot (o_retry_budget opt) ?now)"
  let ?db3 = "db\<lparr>fresh := Suc (Suc (fresh db))\<rparr>"
  have s: "s \<in> set (schedules db)" "s_status s = Active" "\<not> rounds_used_up s" "\<not> has_live db (s_id s)"
    using assms(2) by (simp_all add: fire_ready_def)
  show ?thesis
  proof (cases "insert_or_ignore ?new ?db3")
    case None
    then obtain n where d: "db' = update_schedules (\<lambda>x. s_id x = s_id s) (start_round 0 n ?now) ?db3"
      using assms(4) Inr by (auto simp: fire_schedule_def Let_def decode_for_claim_def randomUUID_def
          sum_bind_eq_Inr split: if_splits)
    have t: "ledger_steps db ?db3" using steps_trans [OF tick_steps tick_steps, of db] by simp
    have "ledger_step ?db3 (update_schedules (\<lambda>x. s_id x = s_id s) (start_round 0 n ?now) ?db3)"
      by (rule ledger_step.Skip) (use s in simp_all)
    then show ?thesis unfolding d
      using steps_trans [OF t steps_one] by (auto intro: fire_ready_update simp: fire_ready_fresh)
  next
    case (Some db4)
    note new = slot_not_taken [OF Some]
    have d4: "db4 = db\<lparr>invocations := invocations db @ [?new], fresh := Suc (Suc (fresh db))\<rparr>"
      by (simp add: new(2) fresh_commute)
    obtain n where d: "db' = update_schedules (\<lambda>x. s_id x = s_id s) (start_round 1 n ?now) db4"
      using assms(4) Inr Some by (auto simp: fire_schedule_def Let_def decode_for_claim_def randomUUID_def
          sum_bind_eq_Inr split: if_splits)
    have "ledger_step db (update_schedules (\<lambda>x. s_id x = s_id s) (start_round 1 n ?now)
        (db\<lparr>invocations := invocations db @ [?new], fresh := Suc (Suc (fresh db))\<rparr>))"
      by (rule ledger_step.Fire) (use s new(1) assms(3) in \<open>simp_all add: claim_row_def new_row_def no_tree_def\<close>)
    moreover have "fire_ready db4 x" if "fire_ready db x" "s_id x \<noteq> s_id s" for x
      unfolding d4 by (rule fire_ready_append) (use that in \<open>simp_all add: claim_row_def new_row_def\<close>)
    ultimately show ?thesis unfolding d d4 [symmetric]
      using fire_ready_update by (auto simp: steps_one d4)
  qed
qed

lemma fire_loop_steps:
  assumes "ledger_ok db" and "distinct (map s_id ss)" and "\<And>s. s \<in> set ss \<Longrightarrow> fire_ready db s"
    and "1 \<le> o_retry_budget opt" and "fire_loop opt input ss claimed db = Inr (db', claimed')"
  shows "ledger_steps db db'"
  using assms
proof (induction ss arbitrary: db claimed)
  case (Cons s ss)
  show ?case
  proof (cases "int (length claimed) \<ge> cd_limit input")
    case True
    then show ?thesis using Cons.prems(5) by simp
  next
    case False
    with Cons.prems(5) obtain db1 c where f: "fire_schedule opt input s db = Inr (db1, c)"
      and l: "fire_loop opt input ss (add_claim claimed c) db1 = Inr (db', claimed')"
      by (auto simp: sum_bind_eq_Inr)
    have st: "ledger_steps db db1" "\<And>x. fire_ready db x \<Longrightarrow> s_id x \<noteq> s_id s \<Longrightarrow> fire_ready db1 x"
      using fire_schedule_steps [OF Cons.prems(1) _ Cons.prems(4) f] Cons.prems(3) by simp_all
    have rest: "fire_ready db1 x" if "x \<in> set ss" for x
    proof -
      have "s_id x \<noteq> s_id s" using Cons.prems(2) that by (metis distinct.simps(2) image_eqI list.set_map list.simps(9))
      then show ?thesis using Cons.prems(3) [of x] that st(2) by simp
    qed
    have "distinct (map s_id ss)" using Cons.prems(2) by simp
    then have "ledger_steps db1 db'"
      by (rule Cons.IH [OF steps_ok [OF st(1) Cons.prems(1)] _ rest Cons.prems(4) l])
    then show ?thesis by (rule steps_trans [OF st(1)])
  qed
qed simp

lemma claimDue_steps:
  assumes "ledger_ok db" and "1 \<le> o_retry_budget opt"
  shows "ledger_steps db (fst (claimDue opt input db))"
  unfolding claimDue_def
proof (rule transaction_steps)
  fix db' claims assume c: "claim_in_transaction opt input db = Inr (db', claims)"
  obtain db1 rows where s: "sift_live_rows opt input db = (db1, rows)" by fastforce
  note sift = sift_steps [OF assms(1) s]
  have ok1: "ledger_ok db1" by (rule steps_ok [OF sift(1) assms(1)])
  show "ledger_steps db db'"
  proof (cases "cd_limit input \<le> 0")
    case True
    then show ?thesis using c sift(1) by (simp add: claim_in_transaction_def s)
  next
    case False
    with c obtain db2 claimed where r: "reclaim_loop opt input rows [] db1 = Inr (db2, claimed)"
      and f: "db' = db2 \<or> fire_loop opt input (due_schedules opt (cd_now input) db2) claimed db2 = Inr (db', claims)"
      by (auto simp: claim_in_transaction_def s sum_bind_eq_Inr split: if_splits)
    have rs: "ledger_steps db1 db2" by (rule reclaim_loop_steps [OF ok1 sift(2,3) r])
    then have ok2: "ledger_ok db2" by (rule steps_ok [OF _ ok1])
    have "ledger_steps db2 db'"
      using f fire_loop_steps [OF ok2 due_schedules_ready [OF ok_keys [OF ok2]] assms(2)] by auto
    then show ?thesis by (rule steps_trans [OF sift(1) steps_trans [OF rs]])
  qed
qed

end
