(* ===== verification/SchedProps.thy ===== *)
theory SchedProps
  imports SchedRefine
begin

text \<open>
  The schedule store as a state machine over all its writing operations, and what holds in every
  reachable store: at most one run of a schedule is in flight, rounds never exceed their limit,
  retries are bounded, tokens fence off workers that lost their claim, extensions are applied once.
\<close>

section \<open>The operations as a state machine\<close>

text \<open>Every operation carries the options of the store object that runs it and the moment it runs:
  several processes with different options, clocks and probes work on one ledger.\<close>

datatype operation =
    Op_Create options create_input int
  | Op_CreateIdempotent options create_input int
  | Op_SetAuthority uuid string int
  | Op_Resume uuid string int
  | Op_Extend options extend_input int
  | Op_SetStatus options uuid schedule_status int
  | Op_Shutdown options string error_note int
  | Op_Remove uuid bool
  | Op_Enqueue options uuid int "int option"
  | Op_ClaimPending options uuid string int
  | Op_Discard uuid
  | Op_Cancel options uuid error_note int bool revision
  | Op_Finalize options finalize_input
  | Op_ClaimDue options claim_input
  | Op_Begin options uuid uuid int "executor option"
  | Op_Renew options uuid uuid int
  | Op_Complete options complete_input
  | Op_Reclassify options uuid int error_note int int
  | Op_RecordTree uuid uuid tree_input "error_note option"
  | Op_Fail options uuid uuid error_note int bool
  | Op_Register options reference_input uuid int
  | Op_Backfill options reference_input int
  | Op_Prune options int

fun run_op :: "operation \<Rightarrow> store \<Rightarrow> store" where
  "run_op (Op_Create opt input now) db = fst (createSchedule opt input now db)"
| "run_op (Op_CreateIdempotent opt input now) db = fst (createScheduleIdempotent opt input now db)"
| "run_op (Op_SetAuthority sid digest now) db = fst (setAuthorityDigest sid digest now db)"
| "run_op (Op_Resume sid digest now) db = fst (resumeSchedule sid digest now db)"
| "run_op (Op_Extend opt input now) db = fst (extendSchedule opt input now db)"
| "run_op (Op_SetStatus opt sid status now) db = fst (setScheduleStatus opt sid status now db)"
| "run_op (Op_Shutdown opt worker reason now) db = fst (prepareWorkerShutdown opt worker reason now db)"
| "run_op (Op_Remove sid abandon) db = fst (removeSchedule sid abandon db)"
| "run_op (Op_Enqueue opt sid now attempts) db = fst (enqueueManualInvocation opt sid now attempts db)"
| "run_op (Op_ClaimPending opt iid worker now) db = fst (claimPendingInvocation opt iid worker now db)"
| "run_op (Op_Discard iid) db = fst (discardPendingInvocation iid db)"
| "run_op (Op_Cancel opt iid reason now abandon rv) db = fst (cancelInvocation opt iid reason now abandon rv db)"
| "run_op (Op_Finalize opt input) db = fst (finalizeCancellation opt input db)"
| "run_op (Op_ClaimDue opt input) db = fst (claimDue opt input db)"
| "run_op (Op_Begin opt iid token now executor) db = fst (beginInvocation opt iid token now executor db)"
| "run_op (Op_Renew opt iid token now) db = fst (renewLease opt iid token now db)"
| "run_op (Op_Complete opt input) db = fst (completeInvocation opt input db)"
| "run_op (Op_Reclassify opt iid attempt error timedOut now) db =
     fst (reclassifyTimedOutInvocation opt iid attempt error timedOut now db)"
| "run_op (Op_RecordTree iid token tree error) db = fst (recordInvocationTree iid token tree error db)"
| "run_op (Op_Fail opt iid token error now terminal) db = fst (failInvocation opt iid token error now terminal db)"
| "run_op (Op_Register opt input token now) db = fst (registerThreadReference opt input token now db)"
| "run_op (Op_Backfill opt input now) db = fst (backfillThreadReference opt input now db)"
| "run_op (Op_Prune opt now) db = fst (pruneInvocations opt now db)"

text \<open>A claiming store allows at least one attempt.\<close>

fun sensible :: "operation \<Rightarrow> bool" where
  "sensible (Op_ClaimDue opt input) = (1 \<le> o_retry_budget opt)"
| "sensible _ = True"

inductive reachable :: "store \<Rightarrow> bool" where
  start: "reachable empty_store"
| run: "reachable db \<Longrightarrow> sensible op \<Longrightarrow> reachable (run_op op db)"

definition run_ops :: "operation list \<Rightarrow> store \<Rightarrow> store" where
  "run_ops ops db = fold run_op ops db"

lemma run_ops_simps [simp]:
  "run_ops [] db = db" "run_ops (op # ops) db = run_ops ops (run_op op db)"
  by (simp_all add: run_ops_def)

lemma reachable_run_ops: "reachable db \<Longrightarrow> list_all sensible ops \<Longrightarrow> reachable (run_ops ops db)"
  by (induction ops arbitrary: db) (auto intro: reachable.run)

lemma run_op_steps:
  assumes "ledger_ok db" and "sensible op"
  shows "ledger_steps db (run_op op db)"
  using assms
  by (cases op)
    (simp_all add: createSchedule_steps createScheduleIdempotent_steps setAuthorityDigest_steps
      resumeSchedule_steps extendSchedule_steps setScheduleStatus_steps prepareWorkerShutdown_steps
      removeSchedule_steps enqueueManualInvocation_steps claimPendingInvocation_steps
      discardPendingInvocation_steps cancelInvocation_steps finalizeCancellation_steps claimDue_steps
      beginInvocation_steps renewLease_steps completeInvocation_steps reclassify_steps
      recordInvocationTree_steps failInvocation_steps reference_steps pruneInvocations_steps)

lemma reachable_ok: "reachable db \<Longrightarrow> ledger_ok db"
  by (induction rule: reachable.induct) (use ledger_ok_empty run_op_steps steps_ok in blast)+

lemma run_ops_steps: "ledger_ok db \<Longrightarrow> list_all sensible ops \<Longrightarrow> ledger_steps db (run_ops ops db)"
proof (induction ops arbitrary: db)
  case (Cons op ops)
  then have s: "ledger_steps db (run_op op db)" by (intro run_op_steps) simp_all
  have "ledger_steps (run_op op db) (run_ops ops (run_op op db))"
    by (rule Cons.IH [OF steps_ok [OF s Cons.prems(1)]]) (use Cons.prems(2) in simp)
  then show ?case using steps_trans [OF s] by simp
qed simp

section \<open>Invariants of reachable stores\<close>

text \<open>
  C1: The store refines the abstract ledger. Every writing operation, run with any options, clock and
  probes on a reachable ledger, is a sequence of atomic ledger steps, and the ledger invariant holds
  again after it.
\<close>

theorem operations_refine_ledger:
  assumes "reachable db" and "sensible op"
  shows "ledger_steps db (run_op op db) \<and> ledger_ok (run_op op db)"
  using run_op_steps [OF reachable_ok [OF assms(1)] assms(2)]
    reachable_ok [OF reachable.run [OF assms]] by simp

text \<open>
  C2: Runs of one schedule never overlap. In every reachable ledger, however many workers claimed,
  reclaimed, cancelled or enqueued, two rows that are claimed or running for the same schedule are
  the same row.
\<close>

theorem one_run_in_flight:
  assumes "reachable db" and "r1 \<in> set (invocations db)" and "r2 \<in> set (invocations db)"
    and "in_flight r1" and "in_flight r2" and "i_schedule r1 = i_schedule r2"
  shows "r1 = r2"
proof -
  have ok: "ledger_ok db" by (rule reachable_ok [OF assms(1)])
  then have "held_once flight_key db" by (simp add: ledger_ok_def exclusive_def)
  from held_onceD [OF this assms(2,3)] assms(4-6) have "i_id r1 = i_id r2" by (simp add: flight_key_def)
  then show ?thesis by (rule id_inj [OF ok_keys [OF ok] assms(2,3)])
qed

text \<open>
  C4: Rounds are bounded and completion is settled. In every reachable ledger a limited schedule has
  started at most its limit of rounds, one that used them up has no next run, and one that is marked
  completed has used them up and has no scheduled run that is live or holds a process tree.
\<close>

theorem rounds_bounded_and_settled:
  assumes "reachable db" and "s \<in> set (schedules db)"
  shows "(case s_max_rounds s of None \<Rightarrow> True | Some m \<Rightarrow> s_rounds_started s \<le> m)
    \<and> (rounds_used_up s \<longrightarrow> s_next_run s = None)
    \<and> (s_status s = Completed \<longrightarrow> rounds_used_up s \<and> \<not> scheduled_unsettled db (s_id s))"
proof -
  have "schedule_ok db s"
    using reachable_ok [OF assms(1)] assms(2) by (simp add: ledger_ok_def schedules_ok_def)
  then show ?thesis by (auto simp: schedule_ok_def split: option.splits)
qed

text \<open>
  C5: Rows are well formed. In every reachable ledger a row holds an ownership token exactly while it
  is claimed or running, its attempts stay within its budget, pending rows are untried manual runs,
  and finished rows hold no process tree.
\<close>

theorem rows_well_formed:
  assumes "reachable db" and "r \<in> set (invocations db)"
  shows "(i_token r \<noteq> None \<longleftrightarrow> in_flight r)
    \<and> 0 \<le> i_attempt r \<and> i_attempt r \<le> i_max_attempts r
    \<and> (i_status r = Pending \<longrightarrow> i_mode r = Manual \<and> i_attempt r = 0)
    \<and> (terminal_status (i_status r) \<longrightarrow> i_tree_pgids r = None \<and> \<not> i_tree_unsettled r)"
proof -
  have "row_ok r"
    using reachable_ok [OF assms(1)] assms(2) by (simp add: ledger_ok_def rows_ok_def)
  then show ?thesis
    by (auto simp: row_ok_def no_tree_def tree_bearing_def terminal_status_def)
qed

section \<open>Fencing\<close>

text \<open>A token a row does not hold, once drawn, is never given to it again.\<close>

definition not_held :: "uuid \<Rightarrow> uuid \<Rightarrow> store \<Rightarrow> bool" where
  "not_held iid t db \<longleftrightarrow>
     t < fresh db \<and> (\<forall>r \<in> set (invocations db). i_id r = iid \<longrightarrow> i_token r \<noteq> Some t)"

lemma not_held_replace:
  assumes "keys_ok db" and "row \<in> set (invocations db)" and "not_held iid t db" and "same_key row row'"
    and "i_token row' = i_token row \<or> i_token row' = None \<or> i_token row' = Some n \<and> t \<noteq> n"
  shows "\<forall>r \<in> set (invocations (replace_row row row' db)). i_id r = iid \<longrightarrow> i_token r \<noteq> Some t"
proof (rule ball_replace [OF assms(1,2)])
  show "\<forall>r \<in> set (invocations db). i_id r = iid \<longrightarrow> i_token r \<noteq> Some t"
    using assms(3) by (simp add: not_held_def)
  then show "i_id row' = iid \<longrightarrow> i_token row' \<noteq> Some t"
    using assms(2,4,5) by (auto simp: same_key_def)
qed

lemma step_not_held:
  assumes "ledger_step db db'" and "keys_ok db" and "not_held iid t db"
  shows "not_held iid t db'"
proof -
  note rep = not_held_replace [OF assms(2) _ assms(3)]
  have t: "t < fresh db" "\<forall>r \<in> set (invocations db). i_id r = iid \<longrightarrow> i_token r \<noteq> Some t"
    using assms(3) by (simp_all add: not_held_def)
  from assms(1) show ?thesis
  proof (cases rule: ledger_step.cases)
    case (Touch row row')
    then show ?thesis using rep [of row row'] t by (simp add: not_held_def)
  next
    case (Claim row row')
    then show ?thesis using rep [of row row' "fresh db"] t by (simp add: not_held_def)
  next
    case (Begin row row')
    then show ?thesis using rep [of row row'] t by (simp add: not_held_def)
  next
    case (Settle row row')
    then show ?thesis using rep [of row row'] t by (simp add: not_held_def)
  next
    case (Retry row row')
    then show ?thesis using rep [of row row'] t by (simp add: not_held_def)
  next
    case (Reopen row row' nowMs)
    then show ?thesis using rep [of row row'] t by (simp add: not_held_def)
  next
    case (Reopen_Manual row row')
    then show ?thesis using rep [of row row'] t by (simp add: not_held_def)
  next
    case (Delete p)
    then show ?thesis using t by (simp add: not_held_def delete_invocations_def)
  next
    case (Remove sid)
    then show ?thesis using t by (simp add: not_held_def)
  qed (use t in \<open>simp_all add: not_held_def less_SucI\<close>)
qed

lemma steps_not_held:
  assumes "ledger_steps db db'" and "ledger_ok db" and "not_held iid t db"
  shows "not_held iid t db' \<and> ledger_ok db'"
  using assms(1)
proof (induction rule: rtranclp_induct)
  case (step y z)
  then show ?case using step_not_held [OF step.hyps(2) ok_keys] ledger_step_ok by blast
qed (use assms(2,3) in simp)

text \<open>The calls a worker makes with the token of its claim.\<close>

definition stale_calls_inert :: "options \<Rightarrow> uuid \<Rightarrow> uuid \<Rightarrow> store \<Rightarrow> bool" where
  "stale_calls_inert opt iid t db \<longleftrightarrow>
     (\<forall>now x. beginInvocation opt iid t now x db = (db, Inr None))
     \<and> (\<forall>now. renewLease opt iid t now db = (db, False))
     \<and> (\<forall>input. co_id input = iid \<and> co_token input = t
          \<longrightarrow> completeInvocation opt input db = (db, CompleteLostClaim))
     \<and> (\<forall>e now b. failInvocation opt iid t e now b db = (db, Inr FailLostClaim))
     \<and> (\<forall>tree e. recordInvocationTree iid t tree e db = (db, False))
     \<and> (\<forall>input now. tr_invocation input = iid
          \<longrightarrow> fst (registerThreadReference opt input t now db) = db)"

lemma stale_inert:
  assumes "not_held iid t db"
  shows "stale_calls_inert opt iid t db"
proof -
  have none: "\<not> (i_id r = iid \<and> i_token r = Some t \<and> q r)" if "r \<in> set (invocations db)" for r q
    using assms that unfolding not_held_def by blast
  have upd: "update_invocations (\<lambda>r. i_id r = iid \<and> i_token r = Some t \<and> q r) f db = db" for q f
    by (rule update_none) (use none in blast)
  have ex: "\<not> list_ex (\<lambda>r. i_id r = iid \<and> i_token r = Some t \<and> q r) (invocations db)" for q
    using none unfolding list_ex_iff by blast
  have own: "\<not> owns t (Some row)" if "find_invocation db iid = Some row" for row
    using find_invocation_Some [OF that] assms by (auto simp: owns_def not_held_def)
  have find: "first_where (\<lambda>r. i_id r = iid \<and> i_attempt r = a \<and> i_token r = Some t \<and> i_status r = Running)
      (invocations db) = None" for a
    using assms by (auto simp: first_where_def find_None_iff not_held_def)
  show ?thesis
    unfolding stale_calls_inert_def
  proof (intro conjI allI impI)
    show "beginInvocation opt iid t now x db = (db, Inr None)" for now x
      by (simp add: beginInvocation_def Let_def upd ex)
    show "renewLease opt iid t now db = (db, False)" for now
      by (simp add: renewLease_def Let_def upd ex)
    show "completeInvocation opt input db = (db, CompleteLostClaim)"
      if "co_id input = iid \<and> co_token input = t" for input
      using that own by (auto simp: completeInvocation_def split: option.splits)
    show "failInvocation opt iid t e now b db = (db, Inr FailLostClaim)" for e now b
      using own by (auto simp: failInvocation_def transaction_def split: option.splits)
    show "recordInvocationTree iid t tree e db = (db, False)" for tree e
      by (simp add: recordInvocationTree_def Let_def upd ex)
    show "fst (registerThreadReference opt input t now db) = db" if "tr_invocation input = iid" for input now
      using that find by (simp add: registerThreadReference_def transaction_def)
  qed
qed

text \<open>
  C3: A worker that lost its claim can do nothing. Once a row no longer holds a token that was drawn
  for it, no later sequence of operations, by any process, makes any call with that token take
  effect: beginning, renewing, completing, failing, recording a process tree and registering a
  thread all leave the ledger as it is.
\<close>

theorem lost_claim_is_fenced:
  assumes "reachable db" and "t < fresh db"
    and "\<forall>r \<in> set (invocations db). i_id r = iid \<longrightarrow> i_token r \<noteq> Some t"
    and "list_all sensible ops"
  shows "stale_calls_inert opt iid t (run_ops ops db)"
proof -
  have ok: "ledger_ok db" by (rule reachable_ok [OF assms(1)])
  have "not_held iid t db" using assms(2,3) by (simp add: not_held_def)
  from steps_not_held [OF run_ops_steps [OF ok assms(4)] ok this] show ?thesis
    by (simp add: stale_inert)
qed

section \<open>An example ledger\<close>

text \<open>A store on an unstaffed machine: every probed executor is dead, leases last two minutes.\<close>

definition example_options :: options where
  "example_options =
     \<lparr>o_intl = gap_intl, o_max_schedules = 20, o_claim_lease = 120000, o_retry_budget = 3,
      o_retry_backoff = 10000, o_executor_liveness = (\<lambda>x. Dead), o_tree_liveness = None,
      o_max_probes = 1, o_probe_deferral = 15000, o_retention_count = 1,
      o_retention_ms = 2592000000\<rparr>"

definition example_create :: create_input where
  "example_create =
     \<lparr>ci_host = None, ci_name = ''report'', ci_prompt = ''write the report'', ci_cwd = ''/work'',
      ci_trigger = Interval 60000 None None, ci_fire_immediately = True, ci_expected_first = None,
      ci_authority = Some ''a'', ci_max_run = None, ci_max_rounds = Some 1\<rparr>"

definition example_claim :: "int \<Rightarrow> claim_input" where
  "example_claim now = \<lparr>cd_worker = ''w'', cd_now = now, cd_limit = 2, cd_held = []\<rparr>"

definition example_executor :: executor where
  "example_executor = \<lparr>x_pid = 7, x_start = ''s''\<rparr>"

definition example_complete :: complete_input where
  "example_complete =
     \<lparr>co_id = 1, co_token = 2, co_confirm = False, co_now = 5000, co_thread = None,
      co_output = None, co_actions = None\<rparr>"

text \<open>A schedule of one round is created, its round claimed and begun; then either it completes, or
  the lease runs out and the round is claimed again with a new token.\<close>

definition example_started :: "operation list" where
  "example_started =
     [Op_Create example_options example_create 0,
      Op_ClaimDue example_options (example_claim 0),
      Op_Begin example_options 1 2 1000 (Some example_executor)]"

definition example_running :: store where
  "example_running = run_ops example_started empty_store"

definition example_completed :: store where
  "example_completed = run_op (Op_Complete example_options example_complete) example_running"

definition example_reclaimed :: store where
  "example_reclaimed = run_op (Op_ClaimDue example_options (example_claim 200000)) example_running"

lemma example_running_reachable: "reachable example_running"
  unfolding example_running_def example_started_def
  by (rule reachable_run_ops [OF reachable.start]) (simp add: example_options_def)

lemma example_completed_reachable: "reachable example_completed"
  unfolding example_completed_def
  by (rule reachable.run [OF example_running_reachable]) simp

lemma example_reclaimed_reachable: "reachable example_reclaimed"
  unfolding example_reclaimed_def
  by (rule reachable.run [OF example_running_reachable]) (simp add: example_options_def)

lemma example_row: "invocations example_running = [hd (invocations example_running)]"
  "in_flight (hd (invocations example_running))"
  by code_simp+

lemma example_schedule: "schedules example_completed = [hd (schedules example_completed)]"
  "s_status (hd (schedules example_completed)) = Completed"
  by code_simp+

lemma one_run_in_flight_witness:
  "last (invocations example_running) = hd (invocations example_running)"
proof -
  have m: "hd (invocations example_running) \<in> set (invocations example_running)"
    "last (invocations example_running) \<in> set (invocations example_running)"
    by (rule hd_in_set last_in_set; use example_row(1) in fastforce)+
  have "in_flight (last (invocations example_running))"
    "i_schedule (last (invocations example_running)) = i_schedule (hd (invocations example_running))"
    by code_simp+
  then show ?thesis
    using one_run_in_flight [OF example_running_reachable m(2,1)] example_row(2) by simp
qed

lemma operations_refine_ledger_witness:
  "ledger_steps example_running example_reclaimed \<and> ledger_ok example_reclaimed
   \<and> map i_token (invocations example_reclaimed) = [Some 3]"
proof -
  have "map i_token (invocations example_reclaimed) = [Some 3]" by code_simp
  then show ?thesis
    using operations_refine_ledger [OF example_running_reachable,
        of "Op_ClaimDue example_options (example_claim 200000)"]
    by (simp add: example_reclaimed_def example_options_def)
qed

lemma rounds_bounded_and_settled_witness:
  "rounds_used_up (hd (schedules example_completed))
   \<and> \<not> scheduled_unsettled example_completed (s_id (hd (schedules example_completed)))"
proof -
  have "hd (schedules example_completed) \<in> set (schedules example_completed)"
    by (subst (2) example_schedule(1)) simp
  from rounds_bounded_and_settled [OF example_completed_reachable this] show ?thesis
    by (simp add: example_schedule(2))
qed

lemma rows_well_formed_witness:
  "i_token (hd (invocations example_running)) \<noteq> None"
proof -
  have "hd (invocations example_running) \<in> set (invocations example_running)"
    by (subst (2) example_row(1)) simp
  from rows_well_formed [OF example_running_reachable this] show ?thesis
    by (simp add: example_row(2))
qed

lemma lost_claim_is_fenced_witness:
  "stale_calls_inert example_options 1 2 (run_ops [Op_Prune example_options 900000] example_reclaimed)"
proof -
  have "2 < fresh example_reclaimed" by code_simp
  moreover have "\<forall>r \<in> set (invocations example_reclaimed). i_id r = 1 \<longrightarrow> i_token r \<noteq> Some 2" by code_simp
  ultimately show ?thesis
    by (rule lost_claim_is_fenced [OF example_reclaimed_reachable]) simp
qed

end
