(* ===== verification/SchedOps.thy ===== *)
theory SchedOps
  imports SchedProps
begin

text \<open>
  What single operations of the schedule store promise, on every reachable ledger: extensions apply
  once, cancelling waits for dead executors and settled trees, claims are bounded and owned, pruning
  bounds the history, the wake-up is exact, process-tree metadata survives the store, and creating
  the same task twice creates it once.
\<close>

section \<open>Extensions\<close>

text \<open>A receipt is on record, or its schedule is gone for good.\<close>

definition receipt_kept :: "extension_row \<Rightarrow> store \<Rightarrow> bool" where
  "receipt_kept x db \<longleftrightarrow>
     e_schedule x < fresh db
     \<and> (x \<in> set (extensions db) \<or> e_schedule x \<notin> s_id ` set (schedules db))"

lemma step_receipt_kept:
  assumes "ledger_step db db'" and "receipt_kept x db"
  shows "receipt_kept x db'"
proof -
  have upd: "s_id ` set (schedules (update_schedules p f db)) = s_id ` set (schedules db)"
    if "\<And>s. s_id (f s) = s_id s" for p f db
    by (rule image_s_id [OF sids_update [OF that]])
  note rec = image_s_id [OF sids_reconcile]
  from assms(1) show ?thesis
  proof (cases rule: ledger_step.cases)
    case (Remove sid)
    then show ?thesis using assms(2) by (auto simp: receipt_kept_def)
  qed (use assms(2) in \<open>simp_all add: receipt_kept_def upd rec start_round_def less_SucI\<close>)
qed

lemma steps_receipt_kept:
  assumes "ledger_steps db db'" and "receipt_kept x db" shows "receipt_kept x db'"
  using assms by (induction rule: rtranclp_induct) (auto intro: step_receipt_kept)

lemma first_where_in: "first_where p xs = Some x \<Longrightarrow> x \<in> set xs \<and> p x"
  by (auto simp: first_where_def find_Some_iff)

lemma find_schedule_gone: "sid \<notin> s_id ` set (schedules db) \<Longrightarrow> find_schedule db sid = None"
  by (auto simp: find_schedule_def first_where_def find_None_iff)

lemma extension_receipt:
  assumes "extendSchedule opt input now db = (db', Inr res)"
  shows "\<exists>x \<in> set (extensions db'). e_request x = xi_request input \<and> e_schedule x = xi_schedule input"
proof -
  have t: "extend_in_transaction opt input now db = Inr (db', res)"
    using assms by (auto simp: extendSchedule_def transaction_def split: sum.splits prod.splits)
  show ?thesis
  proof (cases "getScheduleExtension db (xi_request input)")
    case (Some receipt)
    then have "receipt \<in> set (extensions db)" "e_request receipt = xi_request input"
      by (auto simp: getScheduleExtension_def dest: first_where_in)
    then show ?thesis using t Some
      by (auto simp: extend_in_transaction_def sum_bind_def split: if_splits sum.splits)
  next
    case None
    then obtain schedule nextRunAt where
      s: "requireSchedule opt db (xi_schedule input) = Inr schedule"
      and g: "grant_extension opt input schedule nextRunAt now db = Inr (db', res)"
      using t by (auto simp: extend_in_transaction_def sum_bind_def split: if_splits sum.splits)
    have "sr_id schedule = xi_schedule input"
      using requireSchedule_row [OF s] toScheduleRecord_fields(1) by metis
    then show ?thesis using g
      by (auto simp: grant_extension_def Let_def sum_bind_def split: if_splits sum.splits)
  qed
qed

lemma replay_inert:
  assumes "receipt_kept x db" and "e_request x = xi_request input" and "e_schedule x = xi_schedule input"
  shows "fst (extendSchedule opt input now db) = db"
proof (cases "getScheduleExtension db (xi_request input)")
  case (Some receipt)
  then show ?thesis
    by (simp add: extendSchedule_def transaction_def extend_in_transaction_def sum_bind_def split: sum.splits)
next
  case None
  then have "x \<notin> set (extensions db)"
    using assms(2) by (auto simp: getScheduleExtension_def first_where_def find_None_iff)
  then have "find_schedule db (xi_schedule input) = None"
    using assms(1,3) by (auto simp: receipt_kept_def intro: find_schedule_gone)
  then show ?thesis using None
    by (simp add: extendSchedule_def transaction_def extend_in_transaction_def requireSchedule_def
        getSchedule_def sum_bind_def split: sum.splits)
qed

text \<open>
  C21: An extension is applied once. After an extension request succeeded, the same request id for the
  same schedule never changes the ledger again, whatever amounts it names, with whatever options and
  clock it is replayed and whatever operations ran in between, removing the schedule included.
\<close>

theorem extension_applied_once:
  assumes "reachable db" and "extendSchedule opt input now db = (db', Inr res)"
    and "list_all sensible ops"
    and "xi_request input' = xi_request input" and "xi_schedule input' = xi_schedule input"
  shows "fst (extendSchedule opt' input' now' (run_ops ops db')) = run_ops ops db'"
proof -
  have "ledger_ok db" by (rule reachable_ok [OF assms(1)])
  from extendSchedule_steps [OF this, of opt input now] have ok: "ledger_ok db'"
    using steps_ok \<open>ledger_ok db\<close> assms(2) by fastforce
  obtain x where x: "x \<in> set (extensions db')" "e_request x = xi_request input"
    "e_schedule x = xi_schedule input"
    using extension_receipt [OF assms(2)] by blast
  have "\<exists>s \<in> set (schedules db'). s_id s = e_schedule x"
    using ok x(1) unfolding ledger_ok_def extensions_ok_def by blast
  then have "e_schedule x < fresh db'"
    using ok by (auto simp: ledger_ok_def keys_ok_def)
  then have "receipt_kept x db'" using x(1) by (simp add: receipt_kept_def)
  from steps_receipt_kept [OF run_ops_steps [OF ok assms(3)] this]
  show ?thesis by (rule replay_inert) (use x assms(4,5) in simp_all)
qed

definition example_extend :: extend_input where
  "example_extend = \<lparr>xi_schedule = 0, xi_additional = 2, xi_expected = 1, xi_request = ''q'',
     xi_authority = ''a''\<rparr>"

lemma extension_applied_once_witness:
  "fst (extendSchedule example_options (example_extend\<lparr>xi_additional := 5\<rparr>) 900000
     (run_ops [Op_Remove 0 True] (fst (extendSchedule example_options example_extend 9000 example_completed))))
   = run_ops [Op_Remove 0 True] (fst (extendSchedule example_options example_extend 9000 example_completed))"
proof -
  let ?r = "extendSchedule example_options example_extend 9000 example_completed"
  have "isl (snd ?r) = False" by code_simp
  then obtain res where "?r = (fst ?r, Inr res)" by (cases ?r; cases "snd ?r") auto
  from extension_applied_once [OF example_completed_reachable this, of "[Op_Remove 0 True]"]
  show ?thesis by simp
qed

section \<open>Cancelling\<close>

lemma block_outcomes:
  "executorBlocksCancel opt row abandon \<noteq> Some Cancelled" "revisionMismatch r rv \<noteq> Some Cancelled"
  by (auto simp: executorBlocksCancel_def revisionMismatch_def
      split: if_splits liveness.splits option.splits)

lemma executor_allows:
  "executorBlocksCancel opt row False = None \<longleftrightarrow>
     (i_status row = Running \<longrightarrow>
        (\<exists>x. toExecutorIdentity row = Some x \<and> o_executor_liveness opt x = Dead))"
  by (auto simp: executorBlocksCancel_def split: if_splits liveness.splits option.splits)

lemma cancel_row_result:
  assumes "cancel_in_transaction opt (Some row) reason now False rv False db = (db', out)"
    and "find_invocation db (i_id row) = Some row" and "keys_ok db"
  shows "if out = Cancelled
    then live_status (i_status row) \<and> executorBlocksCancel opt row False = None
      \<and> \<not> treeBlocksTerminal opt row
      \<and> invocations db' = invocations (replace_row row (fail_row reason now row) db)
    else db' = db"
proof -
  have upd: "update_invocations (\<lambda>r. i_id r = i_id row) (fail_row reason now) db
      = replace_row row (fail_row reason now row) db"
    using find_invocation_Some [OF assms(2)] by (intro update_at [OF assms(3)]) simp_all
  show ?thesis
    using assms(1) block_outcomes
    by (auto simp: cancel_in_transaction_def finishInvocationAsFailed_def assms(2) upd Let_def
        split: option.splits if_splits prod.splits bool.splits)
qed

text \<open>
  C22: Cancelling without abandoning is safe and exact. It succeeds only for a live row whose process
  tree does not block, and a running one only when its executor was probed dead; then exactly that
  row is failed with the given reason and no other row changes. Every other outcome leaves the ledger
  as it was.
\<close>

theorem cancel_only_settled:
  assumes "reachable db" and "cancelInvocation opt iid reason now False rv db = (db', out)"
  shows "if out = Cancelled
    then \<exists>row \<in> set (invocations db). i_id row = iid \<and> live_status (i_status row)
      \<and> \<not> treeBlocksTerminal opt row
      \<and> (i_status row = Running \<longrightarrow>
           (\<exists>x. toExecutorIdentity row = Some x \<and> o_executor_liveness opt x = Dead))
      \<and> invocations db' = invocations (replace_row row (fail_row reason now row) db)
    else db' = db"
proof (cases "find_invocation db iid")
  case None
  then show ?thesis using assms(2)
    by (auto simp: cancelInvocation_def cancel_in_transaction_def revisionMismatch_def)
next
  case (Some row)
  have k: "keys_ok db" by (rule ok_keys [OF reachable_ok [OF assms(1)]])
  have row: "row \<in> set (invocations db)" "i_id row = iid" using find_invocation_Some [OF Some] by auto
  have "cancel_in_transaction opt (Some row) reason now False rv False db = (db', out)"
    using assms(2) Some by (simp add: cancelInvocation_def)
  from cancel_row_result [OF this _ k] Some row show ?thesis
    by (simp add: executor_allows split: if_splits) blast
qed

definition no_revision :: revision where
  "no_revision = \<lparr>rv_token = None, rv_attempt = None, rv_claimed_by = None\<rparr>"

lemma cancel_only_settled_witness:
  "\<exists>row \<in> set (invocations example_running). i_status row = Running
     \<and> (\<exists>x. toExecutorIdentity row = Some x \<and> o_executor_liveness example_options x = Dead)"
proof -
  let ?r = "cancelInvocation example_options 1 (CallerText ''stop'') 3000 False no_revision example_running"
  have "snd ?r = Cancelled" by code_simp
  then have "?r = (fst ?r, Cancelled)" by (metis prod.collapse)
  from cancel_only_settled [OF example_running_reachable this] obtain row
    where "row \<in> set (invocations example_running)"
      "i_status row = Running \<longrightarrow> (\<exists>x. toExecutorIdentity row = Some x
         \<and> o_executor_liveness example_options x = Dead)" by auto
  moreover have "\<forall>r \<in> set (invocations example_running). i_status r = Running" by code_simp
  ultimately show ?thesis by blast
qed

section \<open>Claims\<close>

text \<open>The row of a claim, as the worker was told: claimed by it, with the token and a fresh lease.\<close>

definition claim_held :: "options \<Rightarrow> claim_input \<Rightarrow> store \<Rightarrow> claim \<Rightarrow> bool" where
  "claim_held opt input db c \<longleftrightarrow>
     (\<exists>r \<in> set (invocations db). i_id r = ir_id (cl_invocation c) \<and> i_status r = Claimed
        \<and> i_token r = Some (cl_token c) \<and> i_claimed_by r = Some (cd_worker input)
        \<and> i_lease r = Some (cd_now input + o_claim_lease opt))"

text \<open>Rows other than one are kept.\<close>

definition others_kept :: "uuid \<Rightarrow> store \<Rightarrow> store \<Rightarrow> bool" where
  "others_kept iid db db' \<longleftrightarrow>
     (\<forall>r \<in> set (invocations db). i_id r \<noteq> iid \<longrightarrow> r \<in> set (invocations db'))"

lemma others_kept_basic [simp]:
  "others_kept iid db db"
  "others_kept iid db (db\<lparr>fresh := n\<rparr>)"
  "others_kept iid db (update_schedules p f db)"
  "others_kept iid db (reconcileRounds sid now db)"
  "others_kept iid db (update_invocations (\<lambda>r. i_id r = iid) g db)"
  "others_kept iid db ((update_invocations (\<lambda>r. i_id r = iid) g db)\<lparr>fresh := n\<rparr>)"
  by (auto simp: others_kept_def update_invocations_def image_iff)

lemma others_kept_trans:
  "others_kept iid db db1 \<Longrightarrow> others_kept iid db1 db2 \<Longrightarrow> others_kept iid db db2"
  by (simp add: others_kept_def)

lemma others_kept_claim:
  "others_kept iid db db' \<Longrightarrow> claim_held opt input db c \<Longrightarrow> ir_id (cl_invocation c) \<noteq> iid
   \<Longrightarrow> claim_held opt input db' c"
  unfolding others_kept_def claim_held_def by metis

lemma finish_kept: "others_kept iid db (fst (finishInvocationAsFailed opt iid error now force db))"
  by (auto simp: finishInvocationAsFailed_def Let_def split: option.splits
      intro: others_kept_trans [OF others_kept_basic(5) others_kept_basic(4)])

lemma mark_kept: "others_kept (i_id row) db (markTerminalFailure opt row error now db)"
  using finish_kept [of "i_id row" db opt error now False]
  by (auto simp: markTerminalFailure_def split: prod.splits bool.splits
      intro: others_kept_trans [OF _ others_kept_basic(3)])

lemma defer_kept: "others_kept (i_id row) db (defer_row opt now row db)"
  by (simp add: defer_row_def)

lemma load_kept: "load_for_claim opt sid now db = (db1, s) \<Longrightarrow> others_kept iid db db1"
  by (auto simp: load_for_claim_def decode_for_claim_def pause_invalid_def split: option.splits sum.splits)

lemma reclaim_row_kept:
  assumes "reclaim_row opt input row db = Inr (db', c)" shows "others_kept (i_id row) db db'"
proof -
  obtain db1 s where l: "load_for_claim opt (i_schedule row) (cd_now input) db = (db1, s)"
    by fastforce
  note k = others_kept_trans [OF load_kept [OF l]]
  note kept = load_kept [OF l] k [OF defer_kept] k [OF finish_kept] k [OF mark_kept] k [OF others_kept_basic(6)]
  from assms l show ?thesis
    by (auto simp: reclaim_row_def Let_def randomUUID_def sum_bind_eq_Inr update_fresh defer_kept kept
        split: option.splits if_splits intro: load_kept)
qed

lemma toInvocationRecord_id: "toInvocationRecord row = Inr r \<Longrightarrow> ir_id r = i_id row"
  by (auto simp: toInvocationRecord_def sum_bind_eq_Inr)

lemma loadClaim_Some:
  assumes "loadClaim opt db iid token = Inr (Some c)"
  shows "ir_id (cl_invocation c) = iid" "cl_token c = token"
proof -
  obtain r where r: "getInvocation db iid = Inr (Some r)" "cl_invocation c = r" "cl_token c = token"
    using assms by (auto simp: loadClaim_def sum_bind_eq_Inr split: option.splits)
  then obtain row where "find_invocation db iid = Some row" "toInvocationRecord row = Inr r"
    by (auto simp: getInvocation_def sum_bind_eq_Inr split: option.splits)
  then show "ir_id (cl_invocation c) = iid" "cl_token c = token"
    using r toInvocationRecord_id find_invocation_Some by metis+
qed

lemma reclaim_row_claim:
  assumes "reclaim_row opt input row db = Inr (db', Some c)"
    and "row \<in> set (invocations db) \<or> i_id row \<in> i_id ` set (invocations db)"
  shows "claim_held opt input db' c" "ir_id (cl_invocation c) = i_id row"
proof -
  obtain db1 s where l: "load_for_claim opt (i_schedule row) (cd_now input) db = (db1, s)"
    by fastforce
  have i: "invocations db1 = invocations db"
    using l by (auto simp: load_for_claim_def decode_for_claim_def pause_invalid_def split: option.splits sum.splits)
  obtain token attempt where
    t: "db' = update_invocations (\<lambda>r. i_id r = i_id row)
          (claim_row opt (cd_worker input) token attempt (cd_now input)) (snd (randomUUID db1))"
    "loadClaim opt db' (i_id row) token = Inr (Some c)"
    using assms(1) l
    by (auto simp: reclaim_row_def Let_def randomUUID_def sum_bind_eq_Inr split: option.splits if_splits)
  note c = loadClaim_Some [OF t(2)]
  from assms(2) obtain r where r: "r \<in> set (invocations db)" "i_id r = i_id row" by auto
  let ?r = "claim_row opt (cd_worker input) token attempt (cd_now input) r"
  have "?r \<in> set (invocations db')"
    using r unfolding t(1) by (force simp: update_invocations_def randomUUID_def i)
  moreover have "i_id ?r = i_id row" "i_status ?r = Claimed" "i_token ?r = Some token"
    "i_claimed_by ?r = Some (cd_worker input)" "i_lease ?r = Some (cd_now input + o_claim_lease opt)"
    using r(2) by (simp_all add: claim_row_def)
  ultimately show "claim_held opt input db' c" unfolding claim_held_def c by metis
  show "ir_id (cl_invocation c) = i_id row" by (rule c)
qed

lemma fire_schedule_kept:
  assumes "fire_schedule opt input row db = Inr (db', c)" and "r \<in> set (invocations db)"
  shows "r \<in> set (invocations db')"
  using assms
  by (auto simp: fire_schedule_def Let_def decode_for_claim_def pause_invalid_def randomUUID_def
      insert_or_ignore_def sum_bind_eq_Inr split: option.splits sum.splits if_splits)

lemma fire_schedule_claim:
  assumes "fire_schedule opt input row db = Inr (db', Some c)"
  shows "claim_held opt input db' c"
proof -
  obtain iid token slot where
    n: "claim_row opt (cd_worker input) token 1 (cd_now input)
          (new_row iid (s_id row) Scheduled slot (o_retry_budget opt) (cd_now input)) \<in> set (invocations db')"
    and l: "loadClaim opt db' iid token = Inr (Some c)"
    using assms
    by (fastforce simp: fire_schedule_def Let_def decode_for_claim_def pause_invalid_def randomUUID_def
        insert_or_ignore_def sum_bind_eq_Inr split: option.splits sum.splits if_splits)
  show ?thesis
    unfolding claim_held_def loadClaim_Some [OF l]
    by (rule bexI [OF _ n]) (simp add: claim_row_def new_row_def)
qed

definition claims_ok :: "options \<Rightarrow> claim_input \<Rightarrow> store \<Rightarrow> claim list \<Rightarrow> bool" where
  "claims_ok opt input db cs \<longleftrightarrow>
     (\<forall>c \<in> set cs. claim_held opt input db c) \<and> distinct (map (\<lambda>c. ir_id (cl_invocation c)) cs)"

lemma claims_ok_add:
  assumes "claims_ok opt input db cs" and "\<And>c. c \<in> set cs \<Longrightarrow> claim_held opt input db c \<Longrightarrow> claim_held opt input db' c"
    and "\<And>x. c = Some x \<Longrightarrow> claim_held opt input db' x
           \<and> ir_id (cl_invocation x) \<notin> (\<lambda>c. ir_id (cl_invocation c)) ` set cs"
  shows "claims_ok opt input db' (add_claim cs c)"
  using assms by (cases c) (auto simp: claims_ok_def add_claim_def)

lemma length_add_claim: "length (add_claim cs c) \<le> Suc (length cs)"
  by (simp add: add_claim_def split: option.splits)

lemma reclaim_loop_claims:
  assumes "reclaim_loop opt input rows claimed db = Inr (db', cs)"
    and "distinct (map i_id rows)" and "i_id ` set rows \<subseteq> i_id ` set (invocations db)"
    and "claims_ok opt input db claimed"
    and "(\<lambda>c. ir_id (cl_invocation c)) ` set claimed \<inter> i_id ` set rows = {}"
    and "int (length claimed) \<le> cd_limit input"
  shows "claims_ok opt input db' cs \<and> int (length cs) \<le> cd_limit input"
  using assms
proof (induction rows arbitrary: claimed db)
  case (Cons row rows)
  show ?case
  proof (cases "int (length claimed) \<ge> cd_limit input")
    case True
    then show ?thesis using Cons.prems(1,4,6) by simp
  next
    case False
    then obtain db1 c where r: "reclaim_row opt input row db = Inr (db1, c)"
      and l: "reclaim_loop opt input rows (add_claim claimed c) db1 = Inr (db', cs)"
      using Cons.prems(1) by (auto simp: sum_bind_eq_Inr)
    note kept = reclaim_row_kept [OF r]
    have new: "claim_held opt input db1 x \<and> ir_id (cl_invocation x) = i_id row" if "c = Some x" for x
      using reclaim_row_claim [of opt input row db db1 x] r that Cons.prems(3) by simp
    have nin: "i_id row \<notin> (\<lambda>c. ir_id (cl_invocation c)) ` set claimed" using Cons.prems(5) by auto
    show ?thesis
    proof (rule Cons.IH [OF l])
      show "i_id ` set rows \<subseteq> i_id ` set (invocations db1)"
      proof
        fix x assume x: "x \<in> i_id ` set rows"
        then obtain r where "r \<in> set (invocations db)" "i_id r = x" using Cons.prems(3) by auto
        moreover have "x \<noteq> i_id row" using Cons.prems(2) x by (simp only: list.map distinct.simps set_map) blast
        ultimately show "x \<in> i_id ` set (invocations db1)" using kept unfolding others_kept_def by blast
      qed
      show "claims_ok opt input db1 (add_claim claimed c)"
        by (rule claims_ok_add [OF Cons.prems(4)])
          (use others_kept_claim [OF kept] nin new in \<open>force+\<close>)
      show "(\<lambda>c. ir_id (cl_invocation c)) ` set (add_claim claimed c) \<inter> i_id ` set rows = {}"
        using Cons.prems(2,5) new by (auto simp: add_claim_def split: option.splits)
      show "int (length (add_claim claimed c)) \<le> cd_limit input"
        using False length_add_claim [of claimed c] by linarith
    qed (use Cons.prems(2) in simp)
  qed
qed simp

lemma fire_schedule_new_id:
  assumes "fire_schedule opt input row db = Inr (db', Some c)" and "r \<in> set (invocations db)"
  shows "i_id r \<noteq> ir_id (cl_invocation c)"
proof -
  obtain iid token where "find_invocation db iid = None" and l: "loadClaim opt db' iid token = Inr (Some c)"
    using assms(1)
    by (auto simp: fire_schedule_def Let_def decode_for_claim_def pause_invalid_def randomUUID_def
        insert_or_ignore_def sum_bind_eq_Inr new_row_def claim_row_def
        split: option.splits sum.splits if_splits)
  then show ?thesis using assms(2) loadClaim_Some [OF l] by (auto simp: find_invocation_None)
qed

lemma fire_loop_claims:
  assumes "fire_loop opt input rows claimed db = Inr (db', cs)"
    and "claims_ok opt input db claimed" and "int (length claimed) \<le> cd_limit input"
  shows "claims_ok opt input db' cs \<and> int (length cs) \<le> cd_limit input"
  using assms
proof (induction rows arbitrary: claimed db)
  case (Cons row rows)
  show ?case
  proof (cases "int (length claimed) \<ge> cd_limit input")
    case True
    then show ?thesis using Cons.prems by simp
  next
    case False
    then obtain db1 c where f: "fire_schedule opt input row db = Inr (db1, c)"
      and l: "fire_loop opt input rows (add_claim claimed c) db1 = Inr (db', cs)"
      using Cons.prems(1) by (auto simp: sum_bind_eq_Inr)
    have held: "claim_held opt input db1 x" if "claim_held opt input db x" for x
      using that fire_schedule_kept [OF f] unfolding claim_held_def by blast
    have new: "ir_id (cl_invocation x) \<notin> (\<lambda>c. ir_id (cl_invocation c)) ` set claimed" if "c = Some x" for x
    proof
      assume "ir_id (cl_invocation x) \<in> (\<lambda>c. ir_id (cl_invocation c)) ` set claimed"
      then obtain c' where "c' \<in> set claimed" "ir_id (cl_invocation x) = ir_id (cl_invocation c')" by auto
      then obtain r where "r \<in> set (invocations db)" "i_id r = ir_id (cl_invocation x)"
        using Cons.prems(2) unfolding claims_ok_def claim_held_def by metis
      then show False using fire_schedule_new_id [of opt input row db db1 x] f that by metis
    qed
    show ?thesis
    proof (rule Cons.IH [OF l])
      show "claims_ok opt input db1 (add_claim claimed c)"
        by (rule claims_ok_add [OF Cons.prems(2)])
          (use held new fire_schedule_claim f in \<open>force+\<close>)
      show "int (length (add_claim claimed c)) \<le> cd_limit input"
        using False length_add_claim [of claimed c] by linarith
    qed
  qed
qed simp

text \<open>
  A claim hands out owned runs, no more than asked for. When \<open>claimDue\<close> succeeds it returns at
  most as many claims as its limit, for different rows, and in the ledger it leaves each of these
  rows is claimed by this worker, holds the token of its claim and a lease from now.
\<close>

theorem claims_bounded_and_owned:
  assumes "reachable db" and "claimDue opt input db = (db', Inr cs)"
  shows "int (length cs) \<le> max 0 (cd_limit input)
    \<and> distinct (map (\<lambda>c. ir_id (cl_invocation c)) cs) \<and> list_all (claim_held opt input db') cs"
proof -
  have ok: "ledger_ok db" by (rule reachable_ok [OF assms(1)])
  obtain db1 rows where s: "sift_live_rows opt input db = (db1, rows)" by fastforce
  note sifted = sift_steps [OF ok s]
  have w: "claim_in_transaction opt input db = Inr (db', cs)"
    using assms(2) by (auto simp: claimDue_def transaction_def split: sum.splits prod.splits)
  have "claims_ok opt input db' cs \<and> int (length cs) \<le> max 0 (cd_limit input)"
  proof (cases "cd_limit input \<le> 0")
    case True
    then show ?thesis using w s by (simp add: claim_in_transaction_def claims_ok_def)
  next
    case False
    then obtain db2 claimed where r: "reclaim_loop opt input rows [] db1 = Inr (db2, claimed)"
      and f: "db' = db2 \<and> cs = claimed
        \<or> fire_loop opt input (due_schedules opt (cd_now input) db2) claimed db2 = Inr (db', cs)"
      using w s by (auto simp: claim_in_transaction_def sum_bind_eq_Inr split: if_splits)
    have "i_id row \<in> i_id ` set (invocations db1)" if "row \<in> set rows" for row
      using sifted(3) [OF that] unfolding current_def same_key_def by (metis image_eqI)
    then have "i_id ` set rows \<subseteq> i_id ` set (invocations db1)" by blast
    from reclaim_loop_claims [OF r sifted(2) this] False
    have "claims_ok opt input db2 claimed \<and> int (length claimed) \<le> cd_limit input"
      by (simp add: claims_ok_def)
    then show ?thesis using f fire_loop_claims by fastforce
  qed
  then show ?thesis by (simp add: claims_ok_def list_all_iff)
qed

lemma claims_bounded_and_owned_witness:
  "list_all (claim_held example_options (example_claim 200000) example_reclaimed)
     (projr (snd (claimDue example_options (example_claim 200000) example_running)))
   \<and> length (projr (snd (claimDue example_options (example_claim 200000) example_running))) = 1"
proof -
  let ?r = "claimDue example_options (example_claim 200000) example_running"
  have "\<not> isl (snd ?r)" "length (projr (snd ?r)) = 1" by code_simp+
  moreover from this have "?r = (example_reclaimed, Inr (projr (snd ?r)))"
    by (cases ?r; cases "snd ?r") (auto simp: example_reclaimed_def)
  ultimately show ?thesis using claims_bounded_and_owned [OF example_running_reachable] by metis
qed

section \<open>Retention and wake-up\<close>

lemma min_of_due: "due now (min_of xs) \<longleftrightarrow> (\<exists>x \<in> set xs. x \<le> now)"
  by (auto simp: min_of_def due_def Min_le_iff)

lemma map_filter_due: "(\<exists>x \<in> set (List.map_filter f xs). x \<le> now) \<longleftrightarrow> (\<exists>r \<in> set xs. due now (f r))"
  by (auto simp: List.map_filter_def due_def split: option.splits)

text \<open>
  The wake-up misses nothing and never comes for nothing. \<open>nextWakeAtMs\<close> is at or before a
  moment exactly when then some active schedule with rounds left is due, some retry is due, some
  lease has run out or the slot of some pending run has come.
\<close>

theorem wake_exact:
  "due now (nextWakeAtMs db) \<longleftrightarrow>
     (\<exists>s \<in> set (schedules db). s_status s = Active \<and> \<not> rounds_used_up s \<and> due now (s_next_run s))
     \<or> (\<exists>r \<in> set (invocations db). (i_status r = Retry \<and> due now (i_retry_at r))
          \<or> (in_flight r \<and> due now (i_lease r)) \<or> (i_status r = Pending \<and> i_scheduled_for r \<le> now))"
proof -
  have "due now (nextWakeAtMs db) \<longleftrightarrow>
      (\<exists>s \<in> set (filter (\<lambda>s. s_status s = Active \<and> \<not> rounds_used_up s) (schedules db)). due now (s_next_run s))
      \<or> (\<exists>r \<in> set (filter (\<lambda>r. i_status r = Retry) (invocations db)). due now (i_retry_at r))
      \<or> (\<exists>r \<in> set (filter in_flight (invocations db)). due now (i_lease r))
      \<or> (\<exists>r \<in> set (filter (\<lambda>r. i_status r = Pending) (invocations db)). i_scheduled_for r \<le> now)"
    unfolding nextWakeAtMs_def min_of_due set_append bex_Un map_filter_due by simp
  then show ?thesis by auto
qed

lemma sort_rev_drop:
  assumes "x \<in> set (take k (rev (sort_key f xs)))" and "y \<in> set (drop k (rev (sort_key f xs)))"
  shows "f y \<le> f x"
proof -
  have "sorted_wrt (\<lambda>a b. f b \<le> f a) (rev (sort_key f xs))"
    using sorted_sort_key [of f xs] by (simp add: sorted_wrt_rev sorted_wrt_map)
  then have "sorted_wrt (\<lambda>a b. f b \<le> f a) (take k (rev (sort_key f xs)) @ drop k (rev (sort_key f xs)))"
    by simp
  then show ?thesis using assms unfolding sorted_wrt_append by blast
qed

definition kept_terminal :: "store \<Rightarrow> uuid \<Rightarrow> invocation_row list" where
  "kept_terminal db sid = filter (\<lambda>r. i_schedule r = sid \<and> terminal_status (i_status r)) (invocations db)"

lemma newest_set: "set (newest_terminal db sid) = set (kept_terminal db sid)"
  "length (newest_terminal db sid) = length (kept_terminal db sid)"
  by (simp_all add: newest_terminal_def kept_terminal_def)

lemma excess_rows:
  assumes "keys_ok db" and "r \<in> set (invocations db)"
  shows "excess n db r \<longleftrightarrow> r \<in> set (drop n (newest_terminal db (i_schedule r)))"
proof
  assume "excess n db r"
  then obtain r' where "r' \<in> set (drop n (newest_terminal db (i_schedule r)))" "i_id r' = i_id r"
    by (auto simp: excess_def)
  moreover from this have "r' \<in> set (invocations db)"
    using in_set_dropD newest_set(1) by (fastforce simp: kept_terminal_def)
  ultimately show "r \<in> set (drop n (newest_terminal db (i_schedule r)))"
    using id_inj [OF assms(1)] assms(2) by metis
qed (simp add: excess_def)

lemma delete_keys: "keys_ok db \<Longrightarrow> keys_ok (delete_invocations p db)"
  by (auto simp: keys_ok_def delete_invocations_def intro: distinct_map_filter)

lemma excess_bound:
  assumes "keys_ok db"
  shows "length (kept_terminal (delete_invocations (excess n db) db) sid) \<le> n"
proof -
  let ?new = "newest_terminal db sid" and ?kept = "kept_terminal (delete_invocations (excess n db) db) sid"
  have "set ?kept \<subseteq> set (take n ?new)"
  proof
    fix r assume r: "r \<in> set ?kept"
    then have a: "r \<in> set (invocations db)" "i_schedule r = sid" "terminal_status (i_status r)" "\<not> excess n db r"
      by (auto simp: kept_terminal_def delete_invocations_def)
    then have "r \<in> set ?new" by (simp add: newest_set kept_terminal_def)
    moreover have "r \<notin> set (drop n ?new)" using excess_rows [OF assms a(1)] a(2,4) by simp
    ultimately show "r \<in> set (take n ?new)" by (metis append_take_drop_id set_append Un_iff)
  qed
  moreover have "distinct ?kept"
    using assms by (auto simp: kept_terminal_def delete_invocations_def keys_ok_def distinct_map)
  ultimately have "length ?kept \<le> card (set (take n ?new))"
    by (metis List.finite_set card_mono distinct_card)
  also have "\<dots> \<le> n" using card_length [of "take n ?new"] by simp
  finally show ?thesis .
qed

lemma excess_newest:
  assumes "keys_ok db" and "r \<in> set (invocations db)" and "excess n db r"
    and "r' \<in> set (invocations db)" and "\<not> excess n db r'" and "i_schedule r' = i_schedule r"
    and "terminal_status (i_status r')"
  shows "finish_key r \<le> finish_key r'"
proof -
  let ?new = "newest_terminal db (i_schedule r)"
  have "r' \<in> set ?new" using assms(4,6,7) by (simp add: newest_set kept_terminal_def)
  moreover have "r' \<notin> set (drop n ?new)" using excess_rows [OF assms(1,4)] assms(5,6) by simp
  ultimately have "r' \<in> set (take n ?new)" by (metis append_take_drop_id set_append Un_iff)
  moreover have "r \<in> set (drop n ?new)" using excess_rows [OF assms(1,2)] assms(3) by simp
  ultimately show ?thesis unfolding newest_terminal_def by (rule sort_rev_drop)
qed

text \<open>
  C23: Pruning bounds the history and touches nothing else. It deletes only finished rows, and reports
  how many; afterwards no finished row is older than the retention time, no schedule keeps more than
  the retention count of finished rows, and what was deleted for the count finished no later than
  what the schedule keeps.
\<close>

theorem prune_bounds_history:
  assumes "reachable db" and "pruneInvocations opt now db = (db', n)"
  shows "schedules db' = schedules db \<and> n + length (invocations db') = length (invocations db)
    \<and> set (invocations db') \<subseteq> set (invocations db)
    \<and> (\<forall>r \<in> set (invocations db) - set (invocations db'). terminal_status (i_status r))
    \<and> (\<forall>r \<in> set (invocations db'). \<not> aged (now - o_retention_ms opt) r)
    \<and> (\<forall>sid. length (kept_terminal db' sid) \<le> o_retention_count opt)
    \<and> (\<forall>r \<in> set (invocations db) - set (invocations db'). \<not> aged (now - o_retention_ms opt) r
         \<longrightarrow> list_all (\<lambda>r'. finish_key r \<le> finish_key r') (kept_terminal db' (i_schedule r)))"
proof -
  let ?old = "aged (now - o_retention_ms opt)"
  define db1 where "db1 = delete_invocations ?old db"
  have k: "keys_ok db1"
    unfolding db1_def by (rule delete_keys [OF ok_keys [OF reachable_ok [OF assms(1)]]])
  have db': "db' = delete_invocations (excess (o_retention_count opt) db1) db1"
    and cnt: "n = length (invocations db) - length (invocations db')"
    using assms(2) by (auto simp: pruneInvocations_def Let_def db1_def)
  have i1: "invocations db1 = filter (\<lambda>r. \<not> ?old r) (invocations db)"
    by (simp add: db1_def delete_invocations_def)
  have i': "invocations db' = filter (\<lambda>r. \<not> excess (o_retention_count opt) db1 r) (invocations db1)"
    by (simp add: db' delete_invocations_def)
  have "length (invocations db') \<le> length (invocations db)"
    unfolding i' i1 by (metis le_trans length_filter_le)
  moreover have fin: "terminal_status (i_status r)" if "r \<in> set (invocations db1)"
    "excess (o_retention_count opt) db1 r" for r
    using excess_rows [OF k that(1)] that(2) in_set_dropD newest_set(1)
    by (fastforce simp: kept_terminal_def)
  moreover have "finish_key r \<le> finish_key r'"
    if "r \<in> set (invocations db)" "r \<notin> set (invocations db')" "\<not> ?old r"
      "r' \<in> set (kept_terminal db' (i_schedule r))" for r r'
    using that by (intro excess_newest [OF k]) (auto simp: kept_terminal_def i' i1)
  moreover have "length (kept_terminal db' sid) \<le> o_retention_count opt" for sid
    unfolding db' by (rule excess_bound [OF k])
  moreover have "terminal_status (i_status r)"
    if "r \<in> set (invocations db)" "r \<notin> set (invocations db')" for r
    using that fin [of r] unfolding i' i1 by (cases "?old r") (simp_all, simp add: aged_def)
  moreover have "schedules db' = schedules db" "set (invocations db') \<subseteq> set (invocations db)"
    "\<forall>r \<in> set (invocations db'). \<not> ?old r"
    by (auto simp: db' db1_def delete_invocations_def)
  ultimately show ?thesis using cnt by (simp add: list_all_iff)
qed

definition example_finish :: "operation list" where
  "example_finish =
     [Op_Enqueue example_options 0 6000 None, Op_ClaimPending example_options 3 ''w'' 6000,
      Op_Cancel example_options 3 (CallerText ''stop'') 7000 False no_revision]"

lemma prune_bounds_history_witness:
  "length (kept_terminal (fst (pruneInvocations example_options 9000 (run_ops example_finish example_completed))) 0) \<le> 1
   \<and> length (kept_terminal (run_ops example_finish example_completed) 0) = 2"
proof -
  have r: "reachable (run_ops example_finish example_completed)"
    by (rule reachable_run_ops [OF example_completed_reachable]) (simp add: example_finish_def)
  have "length (kept_terminal (run_ops example_finish example_completed) 0) = 2" by code_simp
  moreover have "o_retention_count example_options = 1" by (simp add: example_options_def)
  ultimately show ?thesis
    using prune_bounds_history [OF r surjective_pairing [of "pruneInvocations example_options 9000 (run_ops example_finish example_completed)"]]
    by simp
qed

section \<open>Process-tree metadata\<close>

text \<open>What the parser gives for what was written: positive, distinct process groups, no empty token.\<close>

definition normal_groups :: "tracked_group list \<Rightarrow> bool" where
  "normal_groups gs \<longleftrightarrow>
     distinct (map g_pgid gs) \<and> list_all (\<lambda>g. 0 < g_pgid g \<and> g_start g \<noteq> Some []) gs"

lemma map_set_fresh: "g_pgid g \<notin> g_pgid ` set gs \<Longrightarrow> map_set g gs = gs @ [g]"
  by (induction gs) auto

lemma map_set_ids: "g_pgid ` set (map_set g gs) = insert (g_pgid g) (g_pgid ` set gs)"
  by (induction gs) auto

lemma map_set_normal:
  "normal_groups gs \<Longrightarrow> 0 < g_pgid g \<Longrightarrow> g_start g \<noteq> Some [] \<Longrightarrow> normal_groups (map_set g gs)"
proof (induction gs)
  case (Cons x xs)
  then have "normal_groups (map_set g xs)" by (simp add: normal_groups_def)
  then show ?case using Cons.prems map_set_ids [of g xs] by (auto simp: normal_groups_def)
qed (simp add: normal_groups_def)

lemma encode_normal: "normal_groups acc \<Longrightarrow> normal_groups (encode_groups_loop acc gs)"
proof (induction gs arbitrary: acc)
  case (Cons g gs)
  show ?case
  proof (cases "g_pgid g \<le> 0")
    case False
    have "normal_groups (map_set (case g_start g of Some [] \<Rightarrow> g\<lparr>g_start := None\<rparr> | _ \<Rightarrow> g) acc)"
      by (rule map_set_normal [OF Cons.prems]) (use False in \<open>auto split: option.splits list.splits\<close>)
    then show ?thesis using Cons.IH False by simp
  qed (use Cons in simp)
qed simp

lemma encode_id:
  "normal_groups (acc @ gs) \<Longrightarrow> encode_groups_loop acc gs = acc @ gs"
proof (induction gs arbitrary: acc)
  case (Cons g gs)
  then have "0 < g_pgid g" "g_start g \<noteq> Some []" "g_pgid g \<notin> g_pgid ` set acc"
    by (auto simp: normal_groups_def)
  then show ?case using Cons.IH [of "acc @ [g]"] Cons.prems
    by (simp add: map_set_fresh split: option.split list.split)
qed simp

lemma parse_group_json:
  assumes "0 < g_pgid g" and "g_start g \<noteq> Some []" shows "parseTrackedGroup (group_json g) = Some g"
  using assms
  by (cases g; cases "g_start g"; cases "g_leader g")
    (simp_all add: parseTrackedGroup_def group_json_def isPositivePid_def isTrackedLeaderState_def leader_text_def)

lemma parse_encoded:
  "normal_groups (acc @ gs) \<Longrightarrow> parse_groups_loop acc (map group_json gs) = Some (acc @ gs)"
proof (induction gs arbitrary: acc)
  case (Cons g gs)
  then have g: "0 < g_pgid g" "g_start g \<noteq> Some []" "g_pgid g \<notin> g_pgid ` set acc"
    by (auto simp: normal_groups_def)
  show ?case using Cons.IH [of "acc @ [g]"] Cons.prems
    by (simp add: parse_group_json [OF g(1,2)] map_set_fresh [OF g(3)])
qed simp

text \<open>
  Process-tree metadata survives the store. Whatever groups are recorded, the column written for
  them parses again, to their normal form, which is what was recorded when that had positive,
  distinct group ids and no empty start token.
\<close>

theorem tree_groups_round_trip:
  "parseTrackedGroupsResult (Some (encodeTrackedGroups gs)) = Some (encode_groups_loop [] gs)
   \<and> normal_groups (encode_groups_loop [] gs)
   \<and> (normal_groups gs \<longrightarrow> encode_groups_loop [] gs = gs)"
proof -
  have n: "normal_groups (encode_groups_loop [] gs)" by (rule encode_normal) (simp add: normal_groups_def)
  then show ?thesis using parse_encoded [of "[]"] encode_id [of "[]" gs]
    by (simp add: parseTrackedGroupsResult_def encodeTrackedGroups_def)
qed

lemma tree_groups_round_trip_witness:
  "parseTrackedGroupsResult (Some (encodeTrackedGroups [\<lparr>g_pgid = 7, g_leader = LeaderExited, g_start = Some ''t''\<rparr>]))
   = Some [\<lparr>g_pgid = 7, g_leader = LeaderExited, g_start = Some ''t''\<rparr>]"
  using tree_groups_round_trip [of "[\<lparr>g_pgid = 7, g_leader = LeaderExited, g_start = Some ''t''\<rparr>]"]
  by (simp add: normal_groups_def)

section \<open>Creating once\<close>

lemma first_where_append:
  "first_where p (xs @ ys) = (case first_where p xs of None \<Rightarrow> first_where p ys | Some x \<Rightarrow> Some x)"
  by (induction xs) (simp_all add: first_where_def)

lemma first_where_map: "(\<And>x. p (f x) = p x) \<Longrightarrow> first_where p (map f xs) = map_option f (first_where p xs)"
  by (induction xs) (simp_all add: first_where_def)

lemma require_is:
  assumes "requireSchedule opt db sid = Inr r" and "keys_ok db" and "s \<in> set (schedules db)" and "s_id s = sid"
  shows "toScheduleRecord opt s db = Inr r"
proof -
  obtain row where "row \<in> set (schedules db)" "s_id row = sid" "toScheduleRecord opt row db = Inr r"
    using requireSchedule_row [OF assms(1)] .
  then show ?thesis using sid_inj [OF assms(2,3)] assms(4) by metis
qed

lemma inserted_schedule:
  assumes "insertSchedule opt valid input now db = Inr (db', r)"
  shows "\<exists>s. schedules db' = schedules db @ [s] \<and> same_task valid input s
    \<and> s_authority s = ci_authority input \<and> requireSchedule opt db' (s_id s) = Inr r"
  using assms
  by (auto simp: insertSchedule_def Let_def randomUUID_def sum_bind_eq_Inr same_task_def split: if_splits)

text \<open>What makes the second request find the first one's schedule.\<close>

lemma creation_on_record:
  assumes "keys_ok db'" and "create_or_reuse opt valid input now db = Inr (db', res)"
  shows "\<exists>e. first_where (same_task valid input) (schedules db') = Some e
    \<and> s_authority e = ci_authority input \<and> toScheduleRecord opt e db' = Inr (cr_schedule res)"
proof (cases "first_where (same_task valid input) (schedules db)")
  case None
  then obtain r where i: "insertSchedule opt valid input now db = Inr (db', r)" "cr_schedule res = r"
    using assms(2) by (auto simp: create_or_reuse_def sum_bind_eq_Inr)
  then obtain s where s: "schedules db' = schedules db @ [s]" "same_task valid input s"
    "s_authority s = ci_authority input" "requireSchedule opt db' (s_id s) = Inr r"
    using inserted_schedule by blast
  have "s \<in> set (schedules db')" by (simp add: s(1))
  from require_is [OF s(4) assms(1) this refl] show ?thesis
    using s None i(2) by (simp add: first_where_append) (simp add: first_where_def)
next
  case (Some e)
  show ?thesis
  proof (cases "s_authority e = ci_authority input")
    case True
    then show ?thesis using assms(2) Some by (auto simp: create_or_reuse_def sum_bind_eq_Inr)
  next
    case False
    define f where "f (s :: schedule_row) = (if s_id s = s_id e then s\<lparr>s_authority := ci_authority input, s_updated := now\<rparr> else s)" for s
    obtain r where db': "schedules db' = map f (schedules db)"
      and r: "requireSchedule opt db' (s_id e) = Inr r" "cr_schedule res = r"
      using assms(2) Some False
      by (auto simp: create_or_reuse_def Let_def sum_bind_eq_Inr update_schedules_def f_def)
    have "same_task valid input (f s) = same_task valid input s" for s
      by (simp add: f_def same_task_def)
    then have found: "first_where (same_task valid input) (schedules db') = Some (f e)"
      by (simp add: db' first_where_map Some)
    have "f e \<in> set (schedules db')" using Some by (auto simp: db' first_where_def find_Some_iff)
    from require_is [OF r(1) assms(1) this] have "toScheduleRecord opt (f e) db' = Inr r"
      by (simp add: f_def)
    then show ?thesis using found r(2) by (simp add: f_def)
  qed
qed

text \<open>
  Creating the same task again creates nothing. After an idempotent creation succeeded, the same
  request at any later moment succeeds, creates no schedule, changes no authority and leaves the
  ledger as it is.
\<close>

theorem create_once:
  assumes "reachable db" and "createScheduleIdempotent opt input now db = (db', Inr res)"
  shows "\<exists>r. createScheduleIdempotent opt input now' db' = (db', Inr r)
    \<and> \<not> cr_created r \<and> \<not> cr_reauthorized r \<and> cr_schedule r = cr_schedule res"
proof -
  obtain valid where v: "validateCreateInput opt input = Inr valid"
    and c: "create_or_reuse opt valid input now db = Inr (db', res)"
    using assms(2) by (auto simp: createScheduleIdempotent_def transaction_def split: sum.splits prod.splits)
  have "keys_ok (fst (createScheduleIdempotent opt input now db))"
    using steps_ok [OF createScheduleIdempotent_steps reachable_ok [OF assms(1)]] ok_keys by blast
  then have "keys_ok db'" by (simp add: assms(2))
  from creation_on_record [OF this c] obtain e where
    "first_where (same_task valid input) (schedules db') = Some e"
    "s_authority e = ci_authority input" "toScheduleRecord opt e db' = Inr (cr_schedule res)" by blast
  then show ?thesis
    by (simp add: createScheduleIdempotent_def v transaction_def create_or_reuse_def)
qed

lemma create_once_witness:
  "fst (createScheduleIdempotent example_options example_create 777
      (fst (createScheduleIdempotent example_options example_create 0 empty_store)))
    = fst (createScheduleIdempotent example_options example_create 0 empty_store)
   \<and> length (schedules (fst (createScheduleIdempotent example_options example_create 0 empty_store))) = 1"
proof -
  let ?r = "createScheduleIdempotent example_options example_create 0 empty_store"
  have l: "\<not> isl (snd ?r)" "length (schedules (fst ?r)) = 1" by code_simp+
  then obtain res where "?r = (fst ?r, Inr res)" by (cases ?r; cases "snd ?r") auto
  from create_once [OF reachable.start this] l(2) show ?thesis by (metis fst_conv)
qed

end
