(* ===== verification/CompanionLeases.thy ===== *)
theory CompanionLeases
  imports Prelude
begin

text \<open>
  The leases that keep a companion's runtime alive (\<open>WorkspaceLeaseManager\<close> in
  \<open>lease-manager.ts\<close>). An acquisition is an attachment object the returned closure shares with the
  map and with later attachments of the same key, so attachments live in a heap: a list that only
  grows, an attachment's address being its position.
\<close>

section \<open>The manager\<close>

datatype lease_kind = ClientLease | TurnLease | ShellSessionLease | ApprovalLease

datatype lease = Lease lease_kind string

record attachment =
  at_lease :: lease
  at_previous :: "nat option"
  at_released :: bool

text \<open>\<open>leaseKey\<close> joins kind and id with a colon; kinds hold no colon, so keys are leases. The map
  keeps insertion order: \<open>set\<close> on a present key keeps its place.\<close>

record lease_manager =
  lm_heap :: "attachment list"
  lm_leases :: "(lease \<times> nat) list"

definition newLeaseManager :: lease_manager where
  "newLeaseManager = \<lparr>lm_heap = [], lm_leases = []\<rparr>"

fun lease_set :: "lease \<Rightarrow> nat \<Rightarrow> (lease \<times> nat) list \<Rightarrow> (lease \<times> nat) list" where
  "lease_set k a [] = [(k, a)]"
| "lease_set k a ((k', a') # xs) = (if k' = k then (k, a) # xs else (k', a') # lease_set k a xs)"

definition lease_delete :: "lease \<Rightarrow> (lease \<times> nat) list \<Rightarrow> (lease \<times> nat) list" where
  "lease_delete k xs = filter (\<lambda>x. fst x \<noteq> k) xs"

text \<open>\<open>acquire\<close>: the state and the address the closure holds.\<close>

definition lease_acquire :: "lease \<Rightarrow> lease_manager \<Rightarrow> lease_manager \<times> nat" where
  "lease_acquire lease m =
     (let attachment = \<lparr>at_lease = lease, at_previous = map_of (lm_leases m) lease, at_released = False\<rparr>;
          a = length (lm_heap m)
      in (\<lparr>lm_heap = lm_heap m @ [attachment], lm_leases = lease_set lease a (lm_leases m)\<rparr>, a))"

text \<open>The walk to the newest attachment that is not released; addresses decrease on the way.\<close>

function replacement :: "attachment list \<Rightarrow> nat option \<Rightarrow> nat option" where
  "replacement heap None = None"
| "replacement heap (Some a) =
     (if a < length heap \<and> at_released (heap ! a)
      then (case at_previous (heap ! a) of
              None \<Rightarrow> None
            | Some p \<Rightarrow> if p < a then replacement heap (Some p) else None)
      else Some a)"
  by pat_completeness auto
termination
  by (relation "measure (\<lambda>(heap, p). case p of None \<Rightarrow> 0 | Some a \<Rightarrow> Suc a)") auto

text \<open>The closure \<open>acquire\<close> returned.\<close>

definition lease_detach :: "nat \<Rightarrow> lease_manager \<Rightarrow> lease_manager" where
  "lease_detach a m =
     (if a \<ge> length (lm_heap m) \<or> at_released (lm_heap m ! a) then m
      else
        let attachment = lm_heap m ! a;
            heap = (lm_heap m)[a := attachment\<lparr>at_released := True\<rparr>];
            key = at_lease attachment
        in if map_of (lm_leases m) key \<noteq> Some a then m\<lparr>lm_heap := heap\<rparr>
           else (case replacement heap (at_previous attachment) of
                   None \<Rightarrow> m\<lparr>lm_heap := heap, lm_leases := lease_delete key (lm_leases m)\<rparr>
                 | Some r \<Rightarrow> m\<lparr>lm_heap := heap, lm_leases := lease_set key r (lm_leases m)\<rparr>))"

definition lease_has :: "lease \<Rightarrow> lease_manager \<Rightarrow> bool" where
  "lease_has lease m = (map_of (lm_leases m) lease \<noteq> None)"

definition lease_release :: "lease \<Rightarrow> lease_manager \<Rightarrow> lease_manager \<times> bool" where
  "lease_release lease m = (m\<lparr>lm_leases := lease_delete lease (lm_leases m)\<rparr>, lease_has lease m)"

definition releaseClient :: "string \<Rightarrow> lease_manager \<Rightarrow> lease_manager \<times> bool" where
  "releaseClient clientId m = lease_release (Lease ClientLease clientId) m"

definition canStopRuntime :: "lease_manager \<Rightarrow> bool" where
  "canStopRuntime m = (lm_leases m = [])"

definition lease_list :: "lease_manager \<Rightarrow> lease list" where
  "lease_list m = map (\<lambda>x. at_lease (lm_heap m ! snd x)) (lm_leases m)"

section \<open>What leases mean\<close>

text \<open>The specification keeps, for every lease, the acquisitions that still hold it: those neither
  detached nor made before the lease was last released outright.\<close>

datatype lease_step = Acquire lease | Detach nat | Release lease

fun run_lease_step :: "lease_step \<Rightarrow> lease_manager \<Rightarrow> lease_manager" where
  "run_lease_step (Acquire k) m = fst (lease_acquire k m)"
| "run_lease_step (Detach a) m = lease_detach a m"
| "run_lease_step (Release k) m = fst (lease_release k m)"

type_synonym holders = "nat \<times> (lease \<Rightarrow> nat set)"

fun holders_step :: "lease_step \<Rightarrow> holders \<Rightarrow> holders" where
  "holders_step (Acquire k) (n, h) = (Suc n, h(k := insert n (h k)))"
| "holders_step (Detach a) (n, h) = (n, \<lambda>k. h k - {a})"
| "holders_step (Release k) (n, h) = (n, h(k := {}))"

definition no_holders :: holders where
  "no_holders = (0, \<lambda>k. {})"

lemma map_of_lease_set: "map_of (lease_set k a xs) = (map_of xs)(k \<mapsto> a)"
  by (induction xs) auto

lemma map_of_lease_delete: "map_of (lease_delete k xs) = (map_of xs)(k := None)"
  by (induction xs) (auto simp: lease_delete_def)

lemma keys_lease_set: "set (map fst (lease_set k a xs)) = insert k (set (map fst xs))"
  by (induction k a xs rule: lease_set.induct) (simp_all add: insert_commute)

lemma distinct_lease_set: "distinct (map fst xs) \<Longrightarrow> distinct (map fst (lease_set k a xs))"
proof (induction k a xs rule: lease_set.induct)
  case (2 k a k' a' xs)
  then show ?case using keys_lease_set [of k a xs] by (cases "k' = k") auto
qed simp

lemma distinct_lease_delete: "distinct (map fst xs) \<Longrightarrow> distinct (map fst (lease_delete k xs))"
  by (simp add: lease_delete_def distinct_map_filter)

text \<open>The unreleased attachments on the chain from an address.\<close>

function chain :: "attachment list \<Rightarrow> nat option \<Rightarrow> nat set" where
  "chain heap None = {}"
| "chain heap (Some a) =
     (if at_released (heap ! a) then {} else {a})
     \<union> (case at_previous (heap ! a) of None \<Rightarrow> {} | Some p \<Rightarrow> if p < a then chain heap (Some p) else {})"
  by pat_completeness auto
termination
  by (relation "measure (\<lambda>(heap, p). case p of None \<Rightarrow> 0 | Some a \<Rightarrow> Suc a)") auto

declare chain.simps(2) [simp del] replacement.simps(2) [simp del]

definition heap_ok :: "attachment list \<Rightarrow> bool" where
  "heap_ok heap \<longleftrightarrow>
     (\<forall>a p. a < length heap \<and> at_previous (heap ! a) = Some p
        \<longrightarrow> p < a \<and> at_lease (heap ! p) = at_lease (heap ! a))"

lemma heap_okD:
  "heap_ok heap \<Longrightarrow> a < length heap \<Longrightarrow> at_previous (heap ! a) = Some p
   \<Longrightarrow> p < a \<and> at_lease (heap ! p) = at_lease (heap ! a)"
  by (simp add: heap_ok_def)

definition key_ok :: "attachment list \<Rightarrow> lease \<Rightarrow> nat option \<Rightarrow> nat set \<Rightarrow> bool" where
  "key_ok heap k current holding \<longleftrightarrow>
     (case current of
        None \<Rightarrow> holding = {}
      | Some a \<Rightarrow> a < length heap \<and> at_lease (heap ! a) = k \<and> \<not> at_released (heap ! a)
          \<and> holding = chain heap (Some a))"

definition leases_ok :: "lease_manager \<Rightarrow> holders \<Rightarrow> bool" where
  "leases_ok m s \<longleftrightarrow>
     fst s = length (lm_heap m) \<and> heap_ok (lm_heap m) \<and> distinct (map fst (lm_leases m))
     \<and> (\<forall>k. key_ok (lm_heap m) k (map_of (lm_leases m) k) (snd s k))"

lemma chain_less: "x \<in> chain heap p \<Longrightarrow> \<exists>a. p = Some a \<and> x \<le> a"
proof (induction heap p rule: chain.induct)
  case (2 heap a)
  then show ?case unfolding chain.simps(2) [of heap a] by (fastforce split: if_splits option.splits)
qed simp

lemma chain_unreleased: "x \<in> chain heap p \<Longrightarrow> \<not> at_released (heap ! x)"
proof (induction heap p rule: chain.induct)
  case (2 heap a)
  then show ?case unfolding chain.simps(2) [of heap a] by (auto split: if_splits option.splits)
qed simp

lemma chain_append: "a < length heap \<Longrightarrow> chain (heap @ [x]) (Some a) = chain heap (Some a)"
proof (induction heap "Some a" arbitrary: a rule: chain.induct)
  case (2 heap a)
  then show ?case by (auto simp: chain.simps(2) [of _ a] nth_append split: option.splits)
qed

lemma chain_mark:
  "a < length heap \<Longrightarrow> b < length heap
   \<Longrightarrow> chain (heap[a := (heap ! a)\<lparr>at_released := True\<rparr>]) (Some b) = chain heap (Some b) - {a}"
proof (induction heap "Some b" arbitrary: b rule: chain.induct)
  case (2 heap b)
  then show ?case
    unfolding chain.simps(2) [of _ b]
    by (cases "b = a") (auto split: option.splits dest: chain_less)
qed

lemma heap_ok_mark: "heap_ok heap \<Longrightarrow> heap_ok (heap[a := (heap ! a)\<lparr>at_released := True\<rparr>])"
  by (cases "a < length heap") (auto simp: heap_ok_def nth_list_update list_update_beyond)

lemma replacement_chain:
  assumes "heap_ok heap" and "a < length heap"
  shows "case replacement heap (Some a) of
      None \<Rightarrow> chain heap (Some a) = {}
    | Some r \<Rightarrow> r < length heap \<and> \<not> at_released (heap ! r) \<and> chain heap (Some r) = chain heap (Some a)
        \<and> at_lease (heap ! r) = at_lease (heap ! a)"
  using assms
proof (induction heap "Some a" arbitrary: a rule: replacement.induct)
  case (2 heap a)
  show ?case
  proof (cases "at_released (heap ! a)")
    case rel: True
    show ?thesis
    proof (cases "at_previous (heap ! a)")
      case None
      then show ?thesis using "2.prems" rel unfolding replacement.simps(2) [of heap a] chain.simps(2) [of heap a] by simp
    next
      case (Some q)
      note q = heap_okD [OF "2.prems" Some]
      have "replacement heap (Some a) = replacement heap (Some q)" "chain heap (Some a) = chain heap (Some q)"
        using rel Some q "2.prems" by (simp_all add: replacement.simps(2) [of _ a] chain.simps(2) [of _ a])
      then show ?thesis using "2.hyps" [of q] "2.prems" rel Some q by (simp split: option.splits)
    qed
  qed (use 2 in \<open>simp add: replacement.simps(2)\<close>)
qed

text \<open>Every step keeps the invariant, so the map is what the specification says.\<close>

lemma acquire_ok:
  assumes "leases_ok m (n, h)"
  shows "leases_ok (fst (lease_acquire k m)) (Suc n, h(k := insert n (h k)))"
proof -
  let ?heap = "lm_heap m" and ?cur = "map_of (lm_leases m) k"
  let ?new = "\<lparr>at_lease = k, at_previous = ?cur, at_released = False\<rparr>"
  have ok: "n = length ?heap" "heap_ok ?heap" "distinct (map fst (lm_leases m))"
    "\<And>k. key_ok ?heap k (map_of (lm_leases m) k) (h k)"
    using assms by (simp_all add: leases_ok_def)
  have cur: "p < length ?heap \<and> at_lease (?heap ! p) = k" if "?cur = Some p" for p
    using ok(4) [of k] that by (simp add: key_ok_def)
  have "heap_ok (?heap @ [?new])"
    unfolding heap_ok_def
  proof (intro allI impI)
    fix a p assume a: "a < length (?heap @ [?new]) \<and> at_previous ((?heap @ [?new]) ! a) = Some p"
    show "p < a \<and> at_lease ((?heap @ [?new]) ! p) = at_lease ((?heap @ [?new]) ! a)"
    proof (cases "a < length ?heap")
      case True
      then show ?thesis using heap_okD [OF ok(2) True] a by (simp add: nth_append)
    next
      case False
      then have "a = length ?heap" using a by simp
      then show ?thesis using cur [of p] a by (simp add: nth_append)
    qed
  qed
  moreover have "key_ok (?heap @ [?new]) k (Some n) (insert n (h k))"
    using ok(4) [of k] cur
    by (cases ?cur) (auto simp: key_ok_def ok(1) chain.simps(2) [of _ "length ?heap"] chain_append nth_append)
  moreover have "key_ok (?heap @ [?new]) k' (map_of (lm_leases m) k') (h k')" for k'
    using ok(4) [of k'] by (auto simp: key_ok_def chain_append nth_append split: option.splits)
  ultimately show ?thesis using ok(1,3)
    by (simp add: leases_ok_def lease_acquire_def Let_def map_of_lease_set distinct_lease_set)
qed

lemma release_ok:
  "leases_ok m (n, h) \<Longrightarrow> leases_ok (fst (lease_release k m)) (n, h(k := {}))"
  by (simp add: leases_ok_def lease_release_def map_of_lease_delete distinct_lease_delete)
    (simp add: key_ok_def)

lemma detach_ok:
  assumes "leases_ok m (n, h)"
  shows "leases_ok (lease_detach a m) (n, \<lambda>k. h k - {a})"
proof -
  let ?heap = "lm_heap m" and ?k = "at_lease (lm_heap m ! a)"
  have ok: "n = length ?heap" "heap_ok ?heap" "distinct (map fst (lm_leases m))"
    "\<And>k. key_ok ?heap k (map_of (lm_leases m) k) (h k)"
    using assms by (simp_all add: leases_ok_def)
  show ?thesis
  proof (cases "a \<ge> length ?heap \<or> at_released (?heap ! a)")
    case True
    have "a \<notin> h k" for k
      using ok(4) [of k] True chain_unreleased chain_less
      by (fastforce simp: key_ok_def split: option.splits)
    then have "(\<lambda>k. h k - {a}) = h" by auto
    then show ?thesis using True assms by (simp add: lease_detach_def)
  next
    case False
    define heap where "heap = ?heap[a := (?heap ! a)\<lparr>at_released := True\<rparr>]"
    have h: "length heap = length ?heap" "heap_ok heap"
      using heap_ok_mark [OF ok(2)] by (simp_all add: heap_def)
    have nth: "heap ! b = (if b = a then (?heap ! a)\<lparr>at_released := True\<rparr> else ?heap ! b)" for b
      using False by (simp add: heap_def nth_list_update)
    have chain: "b < length ?heap \<Longrightarrow> chain heap (Some b) = chain ?heap (Some b) - {a}" for b
      using False by (simp add: heap_def chain_mark)
    have other: "key_ok heap k (map_of (lm_leases m) k) (h k - {a})" if "map_of (lm_leases m) k \<noteq> Some a" for k
      using ok(4) [of k] that by (auto simp: key_ok_def h nth chain split: option.splits)
    have "key_ok heap ?k (replacement heap (at_previous (?heap ! a))) (h ?k - {a})"
      if cur: "map_of (lm_leases m) ?k = Some a"
    proof -
      have hk: "h ?k = chain ?heap (Some a)" using ok(4) [of ?k] cur by (simp add: key_ok_def)
      show ?thesis
      proof (cases "at_previous (?heap ! a)")
        case None
        then show ?thesis using hk by (auto simp: key_ok_def chain.simps(2))
      next
        case (Some p)
        have p: "p < a" "at_lease (?heap ! p) = ?k" using heap_okD [OF ok(2) _ Some] False by auto
        have "h ?k - {a} = chain heap (Some p)"
          using hk p False Some chain [of p] by (auto simp: chain.simps(2) [of ?heap a])
        moreover have "at_lease (heap ! p) = ?k" using p by (simp add: nth)
        ultimately show ?thesis
          using replacement_chain [OF h(2), of p] p(1) False
          by (auto simp: key_ok_def Some h split: option.splits)
      qed
    qed
    note head = this
    have k: "k = ?k" if "map_of (lm_leases m) k = Some a" for k
      using ok(4) [of k] that by (simp add: key_ok_def)
    have "key_ok heap k (map_of (lm_leases (lease_detach a m)) k) (h k - {a})" for k
    proof (cases "map_of (lm_leases m) ?k = Some a")
      case True
      show ?thesis
      proof (cases "k = ?k")
        case False
        then have unheld: "map_of (lm_leases m) k \<noteq> Some a" using k by blast
        show ?thesis using other [OF unheld] False True \<open>\<not> (_ \<or> _)\<close>
          by (cases "replacement heap (at_previous (?heap ! a))")
            (simp_all add: lease_detach_def Let_def heap_def [symmetric] map_of_lease_delete map_of_lease_set
              del: map_of_eq_Some_iff)
      next
        case eq: True
        show ?thesis using head [OF True] True \<open>\<not> (_ \<or> _)\<close> unfolding eq
          by (cases "replacement heap (at_previous (?heap ! a))")
            (simp_all add: lease_detach_def Let_def heap_def [symmetric] map_of_lease_delete map_of_lease_set
              del: map_of_eq_Some_iff)
      qed
    next
      case unheld: False
      then have "map_of (lm_leases m) k \<noteq> Some a" using k by blast
      from other [OF this] unheld False show ?thesis
        by (simp add: lease_detach_def Let_def heap_def [symmetric] del: map_of_eq_Some_iff)
    qed
    moreover have "lm_heap (lease_detach a m) = heap"
      using False by (simp add: lease_detach_def Let_def heap_def split: option.split)
    moreover have "distinct (map fst (lm_leases (lease_detach a m)))"
      using False ok(3) distinct_lease_delete distinct_lease_set
      by (simp add: lease_detach_def Let_def split: option.split)
    ultimately show ?thesis using ok(1) h by (simp add: leases_ok_def)
  qed
qed

lemma step_ok: "leases_ok m s \<Longrightarrow> leases_ok (run_lease_step st m) (holders_step st s)"
  by (cases st; cases s) (simp_all add: acquire_ok release_ok detach_ok)

definition run_leases :: "lease_step list \<Rightarrow> lease_manager" where
  "run_leases steps = fold run_lease_step steps newLeaseManager"

definition holders_of :: "lease_step list \<Rightarrow> lease \<Rightarrow> nat set" where
  "holders_of steps = snd (fold holders_step steps no_holders)"

lemma run_leases_ok: "leases_ok (run_leases steps) (fold holders_step steps no_holders)"
proof -
  have "leases_ok m s \<Longrightarrow> leases_ok (fold run_lease_step steps m) (fold holders_step steps s)" for m s
    by (induction steps arbitrary: m s) (simp_all add: step_ok)
  moreover have "leases_ok newLeaseManager no_holders"
    by (simp add: leases_ok_def newLeaseManager_def no_holders_def heap_ok_def key_ok_def)
  ultimately show ?thesis by (simp add: run_leases_def)
qed

section \<open>The interface\<close>

text \<open>
  What a component that keeps a runtime alive relies on: every acquisition gets an address of its own
  and holds its lease until it is detached or the lease is released outright.
\<close>

locale leasing =
  fixes ok :: "'m \<Rightarrow> bool"
    and holders :: "'m \<Rightarrow> 'k \<Rightarrow> nat set"
    and issued :: "'m \<Rightarrow> nat"
    and acquire :: "'k \<Rightarrow> 'm \<Rightarrow> 'm \<times> nat"
    and detach :: "nat \<Rightarrow> 'm \<Rightarrow> 'm"
    and release :: "'k \<Rightarrow> 'm \<Rightarrow> 'm \<times> bool"
    and has :: "'k \<Rightarrow> 'm \<Rightarrow> bool"
  assumes acquire_law: "ok m \<Longrightarrow> ok (fst (acquire k m)) \<and> snd (acquire k m) = issued m
      \<and> issued (fst (acquire k m)) = Suc (issued m)
      \<and> holders (fst (acquire k m)) = (holders m)(k := insert (issued m) (holders m k))"
    and detach_law: "ok m \<Longrightarrow> ok (detach a m) \<and> issued (detach a m) = issued m
      \<and> holders (detach a m) = (\<lambda>k. holders m k - {a})"
    and release_law: "ok m \<Longrightarrow> ok (fst (release k m)) \<and> issued (fst (release k m)) = issued m
      \<and> holders (fst (release k m)) = (holders m)(k := {})"
    and has_law: "ok m \<Longrightarrow> has k m \<longleftrightarrow> holders m k \<noteq> {}"
    and issued_law: "ok m \<Longrightarrow> a \<in> holders m k \<Longrightarrow> a < issued m"
begin

text \<open>A tenant holds some addresses on some leases. Its own acquisitions and detachments, and those of
  others on other addresses and leases, change its holding as the tenant expects.\<close>

definition tenant :: "'m \<Rightarrow> ('k \<times> nat) set \<Rightarrow> 'k set \<Rightarrow> bool" where
  "tenant m held keys \<longleftrightarrow> ok m \<and> (\<forall>k \<in> keys. holders m k = {a. (k, a) \<in> held})"

lemma tenant_ok: "tenant m held keys \<Longrightarrow> ok m"
  by (simp add: tenant_def)

lemma tenant_has: "tenant m held keys \<Longrightarrow> k \<in> keys \<Longrightarrow> has k m \<longleftrightarrow> (\<exists>a. (k, a) \<in> held)"
  by (auto simp: tenant_def has_law)

lemma tenant_acquire:
  "tenant m held keys \<Longrightarrow> tenant (fst (acquire k m)) (insert (k, issued m) held) keys"
  using acquire_law [of m k] by (auto simp: tenant_def)

lemma tenant_detach:
  "tenant m held keys \<Longrightarrow> tenant (detach a m) {x \<in> held. snd x \<noteq> a} keys"
  using detach_law [of m a] by (auto simp: tenant_def)

lemma tenant_other_acquire:
  "tenant m held keys \<Longrightarrow> k \<notin> keys \<Longrightarrow> tenant (fst (acquire k m)) held keys"
  using acquire_law [of m k] by (auto simp: tenant_def)

lemma tenant_other_release:
  "tenant m held keys \<Longrightarrow> k \<notin> keys \<Longrightarrow> tenant (fst (release k m)) held keys"
  using release_law [of m k] by (auto simp: tenant_def)

lemma tenant_other_detach:
  "tenant m held keys \<Longrightarrow> \<forall>k. (k, a) \<notin> held \<Longrightarrow> tenant (detach a m) held keys"
  using detach_law [of m a] by (auto simp: tenant_def)

end

definition holders_in :: "lease_manager \<Rightarrow> lease \<Rightarrow> nat set" where
  "holders_in m k = chain (lm_heap m) (map_of (lm_leases m) k)"

definition manager_ok :: "lease_manager \<Rightarrow> bool" where
  "manager_ok m = leases_ok m (length (lm_heap m), holders_in m)"

lemma leases_ok_holders: "leases_ok m s \<Longrightarrow> s = (length (lm_heap m), holders_in m)"
proof -
  assume ok: "leases_ok m s"
  have "snd s k = holders_in m k" for k
  proof -
    have "key_ok (lm_heap m) k (map_of (lm_leases m) k) (snd s k)" using ok by (simp add: leases_ok_def)
    then show ?thesis by (auto simp: key_ok_def holders_in_def split: option.splits)
  qed
  then show ?thesis using ok by (intro prod_eqI ext) (simp_all add: leases_ok_def)
qed

lemma manager_okI: "leases_ok m s \<Longrightarrow> manager_ok m"
  using leases_ok_holders by (simp add: manager_ok_def)

lemma manager_step: 
  "manager_ok m \<Longrightarrow> manager_ok (run_lease_step st m)
     \<and> (length (lm_heap (run_lease_step st m)), holders_in (run_lease_step st m))
        = holders_step st (length (lm_heap m), holders_in m)"
  using step_ok [of m "(length (lm_heap m), holders_in m)" st] leases_ok_holders manager_okI
  by (metis manager_ok_def)

interpretation lm: leasing manager_ok holders_in "\<lambda>m. length (lm_heap m)" lease_acquire lease_detach
  lease_release lease_has
proof
  fix m k a assume ok: "manager_ok m"
  show "manager_ok (fst (lease_acquire k m)) \<and> snd (lease_acquire k m) = length (lm_heap m)
      \<and> length (lm_heap (fst (lease_acquire k m))) = Suc (length (lm_heap m))
      \<and> holders_in (fst (lease_acquire k m))
        = (holders_in m)(k := insert (length (lm_heap m)) (holders_in m k))"
    using manager_step [OF ok, of "Acquire k"] by (simp add: lease_acquire_def Let_def)
  show "manager_ok (lease_detach a m) \<and> length (lm_heap (lease_detach a m)) = length (lm_heap m)
      \<and> holders_in (lease_detach a m) = (\<lambda>k. holders_in m k - {a})"
    using manager_step [OF ok, of "Detach a"] by simp
  show "manager_ok (fst (lease_release k m))
      \<and> length (lm_heap (fst (lease_release k m))) = length (lm_heap m)
      \<and> holders_in (fst (lease_release k m)) = (holders_in m)(k := {})"
    using manager_step [OF ok, of "Release k"] by simp
  have key: "key_ok (lm_heap m) k (map_of (lm_leases m) k) (holders_in m k)"
    using ok by (simp add: manager_ok_def leases_ok_def)
  then show "lease_has k m \<longleftrightarrow> holders_in m k \<noteq> {}"
    by (auto simp: key_ok_def lease_has_def chain.simps(2) split: option.splits)
  show "a < length (lm_heap m)" if "a \<in> holders_in m k"
    using key that by (auto simp: key_ok_def dest!: chain_less split: option.splits)
qed

lemma newLeaseManager_ok: "manager_ok newLeaseManager" "holders_in newLeaseManager k = {}"
  by (simp_all add: manager_ok_def leases_ok_def holders_in_def newLeaseManager_def heap_ok_def key_ok_def)

section \<open>Properties\<close>

text \<open>
  C27: A lease lasts as long as it is held. After any sequence of acquisitions, detachments (in any
  order, repeated or not) and outright releases, the manager reports a lease exactly when some
  acquisition of it was neither detached nor made before its last release, and the runtime may stop
  exactly when no lease is held.
\<close>

theorem lease_held_iff:
  "lease_has k (run_leases steps) = (holders_of steps k \<noteq> {})
   \<and> canStopRuntime (run_leases steps) = (\<forall>k. holders_of steps k = {})"
proof -
  let ?m = "run_leases steps"
  have key: "key_ok (lm_heap ?m) k (map_of (lm_leases ?m) k) (holders_of steps k)" for k
    using run_leases_ok [of steps] by (simp add: leases_ok_def holders_of_def)
  have has: "lease_has k ?m = (holders_of steps k \<noteq> {})" for k
    using key [of k] by (auto simp: key_ok_def lease_has_def chain.simps(2) split: option.splits)
  have "canStopRuntime ?m = (\<forall>k. \<not> lease_has k ?m)"
    by (simp add: canStopRuntime_def lease_has_def) (metis list.exhaust map_of.simps(1,2) fun_upd_same option.distinct(1))
  then show ?thesis by (simp add: has)
qed

end
