(* ===== verification/CompanionBroker.thy ===== *)
theory CompanionBroker
  imports CompanionLeases
begin

text \<open>
  The broker of a companion's interactions (\<open>CompanionInteractionBroker\<close> in
  \<open>interaction-broker.ts\<close>): what the runtime asks (an approval or a form) is kept pending and
  published to the relay; candidates that come back pass the responder's policy and, to approve, the
  local policy. Every asynchronous function is split at its awaits: a candidate in progress is a
  process in the state, and each continuation is a step of its own, so steps interleave freely.

  Pending interactions and candidate processes are objects the code compares by identity: they live in
  lists that only grow and are named by their position. The calls of \<open>publish\<close> and of the promises'
  \<open>resolve\<close> and \<open>reject\<close> are logged. The clock, the identifiers drawn, the outcomes of the policies
  and the results of the schema checks come in with the steps; dates are read and written by the
  environment. Errors are values: renaming an error that another holder shares is not modelled.
\<close>

section \<open>Errors\<close>

datatype js_error = JsError (err_name: string) (err_message: string)

text \<open>What an abort signal carries, or what was thrown.\<close>

datatype abort_reason = NoReason | ErrorReason js_error | OtherReason string

definition asError :: "abort_reason \<Rightarrow> string \<Rightarrow> js_error" where
  "asError reason fallback =
     (case reason of
        NoReason \<Rightarrow> JsError ''Error'' fallback
      | ErrorReason e \<Rightarrow> e
      | OtherReason s \<Rightarrow> JsError ''Error'' s)"

definition localApprovalDenied :: "string \<Rightarrow> js_error" where
  "localApprovalDenied message = JsError ''LocalApprovalDeniedError'' message"

definition localConfirmationRequired :: "string \<Rightarrow> js_error" where
  "localConfirmationRequired message = JsError ''LocalConfirmationRequiredError'' message"

definition responderDenied :: "string \<Rightarrow> js_error" where
  "responderDenied message = JsError ''RemoteInteractionResponderDeniedError'' message"

definition candidateAborted :: "abort_reason \<Rightarrow> js_error" where
  "candidateAborted reason =
     (let error = asError reason ''The Relay connection generation is no longer active''
      in if err_name error = ''Error''
         then JsError ''RemoteInteractionCandidateAbortedError'' (err_message error) else error)"

definition interactionCancelled :: "abort_reason \<Rightarrow> string \<Rightarrow> js_error" where
  "interactionCancelled reason fallback =
     (let error = asError reason fallback
      in if err_name error = ''Error''
         then JsError ''CompanionInteractionCancelledError'' (err_message error) else error)"

definition quoted :: "string \<Rightarrow> string \<Rightarrow> string \<Rightarrow> string" where
  "quoted before x behind = before @ [CHR 0x22] @ x @ [CHR 0x22] @ behind"

section \<open>Interactions\<close>

datatype interaction_method = ApprovalRequest | UserInputRequest

text \<open>What settles an interaction: \<open>'u\<close> is a normalised answer to a form.\<close>

datatype 'u interaction_result = Approved | Rejected "string option" | Answered 'u

text \<open>\<open>ap_private\<close> stands for what never leaves the companion: previews and tool input.\<close>

record 'p approval =
  ap_id :: string
  ap_turn :: string
  ap_agent :: string
  ap_tool :: string
  ap_explanation :: "string option"
  ap_private :: 'p

text \<open>\<open>rp_interaction\<close> is absent in parameters of protocol 1.1, \<open>rp_expires\<close> optional there.\<close>

record 'p approval_params =
  rp_interaction :: "string option"
  rp_thread :: string
  rp_approval :: "'p approval"
  rp_expires :: "string option"

record 'c input_params =
  ip_interaction :: string
  ip_thread :: string
  ip_turn :: string
  ip_expires :: string
  ip_sensitivity :: string
  ip_title :: "string option"
  ip_description :: "string option"
  ip_controls :: 'c

datatype ('p, 'c) details = ApprovalDetails "'p approval" | InputDetails "'c input_params"

record ('p, 'c) pending =
  p_id :: string
  p_thread :: string
  p_turn :: string
  p_expires :: string
  p_details :: "('p, 'c) details"
  p_runtime :: "abort_reason option"
  p_listener :: bool
  p_lease :: nat
  p_timer :: "int option"
  p_published :: bool
  p_active :: "nat option"

definition method_of :: "('p, 'c) details \<Rightarrow> interaction_method" where
  "method_of d = (case d of ApprovalDetails _ \<Rightarrow> ApprovalRequest | InputDetails _ \<Rightarrow> UserInputRequest)"

text \<open>The frames published, before a relay sequence is assigned.\<close>

datatype 'c projection =
    ApprovalProjection string string string "string option"
  | FormProjection "string option" "string option" 'c

datatype 'c interaction_frame =
    RequestFrame string string string string string "'c projection"
  | ResolvedFrame string string string interaction_method
  | CancelledFrame string string string interaction_method

text \<open>The request frame of \<open>registerApproval\<close> and of \<open>registerUserInput\<close>.\<close>

definition request_frame :: "('p, 'c) pending \<Rightarrow> 'c interaction_frame" where
  "request_frame p =
     (case p_details p of
        ApprovalDetails a \<Rightarrow> RequestFrame (p_id p) (p_thread p) (p_turn p) (p_expires p) ''normal''
          (ApprovalProjection (ap_id a) (ap_agent a) (ap_tool a) (ap_explanation a))
      | InputDetails i \<Rightarrow> RequestFrame (p_id p) (p_thread p) (p_turn p) (p_expires p) (ip_sensitivity i)
          (FormProjection (ip_title i) (ip_description i) (ip_controls i)))"

type_synonym 'u outcome = "js_error + 'u interaction_result"

definition terminal_frame :: "'u outcome \<Rightarrow> ('p, 'c) pending \<Rightarrow> 'c interaction_frame" where
  "terminal_frame outcome p =
     (case outcome of
        Inl _ \<Rightarrow> CancelledFrame (p_id p) (p_thread p) (p_turn p) (method_of (p_details p))
      | Inr _ \<Rightarrow> ResolvedFrame (p_id p) (p_thread p) (p_turn p) (method_of (p_details p)))"

section \<open>The state\<close>

text \<open>A candidate: a decision on an approval or an answer to a form, \<open>'v\<close> before it is normalised.\<close>

datatype 'v candidate = Approve | Reject "string option" | Answer 'v

datatype local_decision = Allow | Deny | RequireLocalConfirmation

text \<open>
  Where a candidate process stands: waiting for the responder's policy (a policy that is not even asked
  because a signal is aborted already has its error), between the two continuations of that await,
  waiting for the local policy, or finished, its result not yet or already observed by the handler that
  clears the active candidate.
\<close>

datatype phase =
    Authorizing "js_error option"
  | Authorized
  | Deciding "js_error option"
  | Finished "js_error + unit"
  | Observed "js_error + unit"

text \<open>\<open>c_signal\<close> is the process whose controller aborts this one; \<open>c_generation\<close> is the relay connection
  of the candidate, none for the legacy facade.\<close>

record 'v process =
  c_pending :: nat
  c_key :: string
  c_fingerprint :: string
  c_aborted :: "abort_reason option"
  c_generation :: "nat option"
  c_signal :: nat
  c_candidate :: "js_error + 'v candidate"
  c_phase :: phase

record ('p, 'c, 'u, 'v) broker =
  b_heap :: "('p, 'c) pending list"
  b_pending :: "(string \<times> nat) list"
  b_approvals :: "(string \<times> string) list"
  b_leases :: lease_manager
  b_workspace :: "(nat \<times> string) option"
  b_bindings :: nat
  b_closed :: bool
  b_processes :: "'v process list"
  b_generations :: "nat \<Rightarrow> abort_reason option"
  b_frames :: "(nat \<times> 'c interaction_frame) list"
  b_settled :: "(nat \<times> 'u outcome) list"
  b_foreign :: "nat list"

definition newBroker :: "('p, 'c, 'u, 'v) broker" where
  "newBroker = \<lparr>b_heap = [], b_pending = [], b_approvals = [], b_leases = newLeaseManager,
     b_workspace = None, b_bindings = 0, b_closed = False, b_processes = [],
     b_generations = (\<lambda>_. None), b_frames = [], b_settled = [], b_foreign = []\<rparr>"

record ('p, 'c, 'u, 'v) broker_env =
  env_date_parse :: "string \<Rightarrow> int"
  env_to_iso :: "int \<Rightarrow> string"
  env_legacy_timeout :: int
  env_normalize :: "'c input_params \<Rightarrow> 'v \<Rightarrow> js_error + 'u"

definition DEFAULT_LEGACY_APPROVAL_TIMEOUT_MS :: int where
  "DEFAULT_LEGACY_APPROVAL_TIMEOUT_MS = 5 * 60 * 1000"

definition MAX_TIMER_DELAY_MS :: int where
  "MAX_TIMER_DELAY_MS = 2147483647"

definition pending_at :: "('p, 'c, 'u, 'v) broker \<Rightarrow> nat \<Rightarrow> ('p, 'c) pending" where
  "pending_at b ref = b_heap b ! ref"

definition isStillPending :: "nat \<Rightarrow> ('p, 'c, 'u, 'v) broker \<Rightarrow> bool" where
  "isStillPending ref b = (map_of (b_pending b) (p_id (pending_at b ref)) = Some ref)"

definition no_longer_pending :: "nat \<Rightarrow> ('p, 'c, 'u, 'v) broker \<Rightarrow> js_error" where
  "no_longer_pending ref b =
     responderDenied (quoted ''Interaction '' (p_id (pending_at b ref)) '' is no longer pending'')"

definition requireWorkspace :: "('p, 'c, 'u, 'v) broker \<Rightarrow> js_error + (nat \<times> string)" where
  "requireWorkspace b =
     (if b_closed b then Inl (interactionCancelled NoReason ''Companion interaction broker is closed'')
      else (case b_workspace b of
              None \<Rightarrow> Inl (localApprovalDenied ''Companion interaction broker is not bound to a workspace'')
            | Some w \<Rightarrow> Inr w))"

text \<open>Assignments to the fields of a pending interaction and of a process, and \<open>controller.abort\<close>.\<close>

definition upd_pending ::
  "nat \<Rightarrow> (('p, 'c) pending \<Rightarrow> ('p, 'c) pending) \<Rightarrow> ('p, 'c, 'u, 'v) broker \<Rightarrow> ('p, 'c, 'u, 'v) broker" where
  "upd_pending ref f b = b\<lparr>b_heap := (b_heap b)[ref := f (b_heap b ! ref)]\<rparr>"

definition upd_process ::
  "nat \<Rightarrow> ('v process \<Rightarrow> 'v process) \<Rightarrow> ('p, 'c, 'u, 'v) broker \<Rightarrow> ('p, 'c, 'u, 'v) broker" where
  "upd_process n f b = b\<lparr>b_processes := (b_processes b)[n := f (b_processes b ! n)]\<rparr>"

definition abort_controller ::
  "nat option \<Rightarrow> js_error \<Rightarrow> ('p, 'c, 'u, 'v) broker \<Rightarrow> ('p, 'c, 'u, 'v) broker" where
  "abort_controller active e b =
     (case active of
        None \<Rightarrow> b
      | Some n \<Rightarrow> upd_process n
          (\<lambda>c. if c_aborted c = None then c\<lparr>c_aborted := Some (ErrorReason e)\<rparr> else c) b)"

definition forget_approval ::
  "('p, 'c) pending \<Rightarrow> ('p, 'c, 'u, 'v) broker \<Rightarrow> ('p, 'c, 'u, 'v) broker" where
  "forget_approval p b =
     (case p_details p of
        ApprovalDetails a \<Rightarrow> b\<lparr>b_approvals := filter (\<lambda>x. fst x \<noteq> ap_id a) (b_approvals b)\<rparr>
      | InputDetails _ \<Rightarrow> b)"

section \<open>Settling an interaction\<close>

definition finish ::
  "nat \<Rightarrow> 'u outcome \<Rightarrow> ('p, 'c, 'u, 'v) broker \<Rightarrow> ('p, 'c, 'u, 'v) broker \<times> bool" where
  "finish ref outcome b =
     (if \<not> isStillPending ref b then (b, False)
      else
        let p = pending_at b ref;
            b1 = b\<lparr>b_pending := filter (\<lambda>x. fst x \<noteq> p_id p) (b_pending b)\<rparr>;
            b2 = forget_approval p b1;
            b3 = upd_pending ref (\<lambda>p. p\<lparr>p_timer := None, p_listener := False\<rparr>) b2;
            b4 = b3\<lparr>b_leases := lease_detach (p_lease p) (b_leases b3)\<rparr>;
            b5 = abort_controller (p_active p)
                   (case outcome of Inl e \<Rightarrow> e
                    | Inr _ \<Rightarrow> interactionCancelled NoReason ''Interaction was resolved'') b4;
            b6 = (if p_published p \<and> b_workspace b5 \<noteq> None
                  then b5\<lparr>b_frames := b_frames b5 @ [(ref, terminal_frame outcome p)]\<rparr> else b5)
        in (b6\<lparr>b_settled := b_settled b6 @ [(ref, outcome)]\<rparr>, True))"

definition finishResolved ::
  "nat \<Rightarrow> 'u interaction_result \<Rightarrow> ('p, 'c, 'u, 'v) broker \<Rightarrow> ('p, 'c, 'u, 'v) broker \<times> bool" where
  "finishResolved ref result = finish ref (Inr result)"

definition finishCancelled ::
  "nat \<Rightarrow> js_error \<Rightarrow> ('p, 'c, 'u, 'v) broker \<Rightarrow> ('p, 'c, 'u, 'v) broker \<times> bool" where
  "finishCancelled ref e = finish ref (Inl e)"

definition cancelAll :: "js_error \<Rightarrow> ('p, 'c, 'u, 'v) broker \<Rightarrow> ('p, 'c, 'u, 'v) broker" where
  "cancelAll e b = fold (\<lambda>x b. fst (finishCancelled (snd x) e b)) (b_pending b) b"

fun cancel_turn_loop ::
  "string \<Rightarrow> string \<Rightarrow> js_error \<Rightarrow> (string \<times> nat) list \<Rightarrow> ('p, 'c, 'u, 'v) broker \<Rightarrow> nat
    \<Rightarrow> ('p, 'c, 'u, 'v) broker \<times> nat" where
  "cancel_turn_loop thread turn e [] b cancelled = (b, cancelled)"
| "cancel_turn_loop thread turn e ((_, ref) # rest) b cancelled =
     (if p_thread (pending_at b ref) = thread \<and> p_turn (pending_at b ref) = turn
      then (case finishCancelled ref e b of
              (b1, done') \<Rightarrow> cancel_turn_loop thread turn e rest b1 (if done' then cancelled + 1 else cancelled))
      else cancel_turn_loop thread turn e rest b cancelled)"

definition cancelTurn ::
  "string \<Rightarrow> string \<Rightarrow> abort_reason \<Rightarrow> ('p, 'c, 'u, 'v) broker \<Rightarrow> ('p, 'c, 'u, 'v) broker \<times> nat" where
  "cancelTurn thread turn reason b =
     cancel_turn_loop thread turn
       (interactionCancelled reason ''The Runtime turn reached a terminal state'') (b_pending b) b 0"

definition close_broker :: "abort_reason \<Rightarrow> ('p, 'c, 'u, 'v) broker \<Rightarrow> ('p, 'c, 'u, 'v) broker" where
  "close_broker reason b =
     (if b_closed b then b
      else (cancelAll (interactionCancelled reason ''Companion interaction broker was closed'')
              (b\<lparr>b_closed := True\<rparr>))\<lparr>b_workspace := None\<rparr>)"

text \<open>\<open>bindWorkspace\<close> and the function it returns; a binding is known by its number.\<close>

definition bindWorkspace ::
  "string \<Rightarrow> ('p, 'c, 'u, 'v) broker \<Rightarrow> ('p, 'c, 'u, 'v) broker \<times> (js_error + nat)" where
  "bindWorkspace workspaceId b =
     (if b_closed b then (b, Inl (JsError ''Error'' ''Companion interaction broker is closed''))
      else if b_workspace b \<noteq> None
      then (b, Inl (JsError ''Error'' ''Companion interaction broker is already bound to a workspace''))
      else (b\<lparr>b_workspace := Some (b_bindings b, workspaceId), b_bindings := b_bindings b + 1\<rparr>,
            Inr (b_bindings b)))"

definition unbind :: "nat \<Rightarrow> ('p, 'c, 'u, 'v) broker \<Rightarrow> ('p, 'c, 'u, 'v) broker" where
  "unbind binding b =
     (case b_workspace b of
        Some (n, _) \<Rightarrow>
          if n = binding
          then (cancelAll (interactionCancelled NoReason
                  ''Companion interaction workspace binding was released'') b)\<lparr>b_workspace := None\<rparr>
          else b
      | None \<Rightarrow> b)"

section \<open>Registering an interaction\<close>

text \<open>
  What a call of \<open>publish\<close> for a request does: it hands the frame on, in which case the runtime may
  abort the request while the call runs, or it throws, before anyone has seen the frame.
\<close>

datatype publish_outcome = Publishes "abort_reason option" | PublishFails js_error

text \<open>The abort event of a request's signal: the signal remembers its first reason; its listener cancels.\<close>

definition runtime_abort ::
  "nat \<Rightarrow> abort_reason \<Rightarrow> ('p, 'c, 'u, 'v) broker \<Rightarrow> ('p, 'c, 'u, 'v) broker" where
  "runtime_abort ref reason b =
     (if p_runtime (pending_at b ref) \<noteq> None then b
      else
        let b1 = upd_pending ref (\<lambda>p. p\<lparr>p_runtime := Some reason\<rparr>) b
        in if p_listener (pending_at b ref)
           then fst (finishCancelled ref (interactionCancelled reason ''Runtime cancelled the interaction'') b1)
           else b1)"

definition createPendingBase ::
  "string \<Rightarrow> string \<Rightarrow> string \<Rightarrow> string \<Rightarrow> ('p, 'c) details \<Rightarrow> abort_reason option \<Rightarrow> nat
    \<Rightarrow> ('p, 'c, 'u, 'v) broker \<Rightarrow> ('p, 'c, 'u, 'v) broker \<times> nat" where
  "createPendingBase interactionId threadId turnId expiresAt details signal lease b =
     (b\<lparr>b_heap := b_heap b @
         [\<lparr>p_id = interactionId, p_thread = threadId, p_turn = turnId, p_expires = expiresAt,
           p_details = details, p_runtime = signal, p_listener = True, p_lease = lease,
           p_timer = None, p_published = False, p_active = None\<rparr>]\<rparr>,
      length (b_heap b))"

definition expired_error :: "string \<Rightarrow> js_error" where
  "expired_error expiresAt = interactionCancelled NoReason (''Interaction expired at '' @ expiresAt)"

definition scheduleDeadline ::
  "('p, 'c, 'u, 'v) broker_env \<Rightarrow> int \<Rightarrow> nat \<Rightarrow> ('p, 'c, 'u, 'v) broker \<Rightarrow> ('p, 'c, 'u, 'v) broker" where
  "scheduleDeadline env now ref b =
     (let remaining = env_date_parse env (p_expires (pending_at b ref)) - now
      in if remaining \<le> 0
         then fst (finishCancelled ref (expired_error (p_expires (pending_at b ref))) b)
         else upd_pending ref (\<lambda>p. p\<lparr>p_timer := Some (min remaining MAX_TIMER_DELAY_MS)\<rparr>) b)"

text \<open>The three early exits of \<open>activatePending\<close>.\<close>

definition discard ::
  "nat \<Rightarrow> js_error \<Rightarrow> ('p, 'c, 'u, 'v) broker \<Rightarrow> ('p, 'c, 'u, 'v) broker" where
  "discard ref e b =
     (let p = pending_at b ref;
          b1 = upd_pending ref (\<lambda>p. p\<lparr>p_listener := False\<rparr>) b;
          b2 = b1\<lparr>b_leases := lease_detach (p_lease p) (b_leases b1)\<rparr>;
          b3 = forget_approval p b2
      in b3\<lparr>b_settled := b_settled b3 @ [(ref, Inl e)]\<rparr>)"

definition cancel_if_aborted :: "nat \<Rightarrow> ('p, 'c, 'u, 'v) broker \<Rightarrow> ('p, 'c, 'u, 'v) broker" where
  "cancel_if_aborted ref b =
     (case p_runtime (pending_at b ref) of
        Some reason \<Rightarrow>
          fst (finishCancelled ref (interactionCancelled reason ''Runtime cancelled the interaction'') b)
      | None \<Rightarrow> b)"

definition publish_request ::
  "publish_outcome \<Rightarrow> nat \<Rightarrow> ('p, 'c, 'u, 'v) broker \<Rightarrow> ('p, 'c, 'u, 'v) broker" where
  "publish_request pub ref b =
     (case pub of
        PublishFails e \<Rightarrow>
          fst (finishCancelled ref
                 (interactionCancelled (ErrorReason e) ''Failed to publish the interaction request'') b)
      | Publishes aborted \<Rightarrow>
          let b1 = upd_pending ref (\<lambda>p. p\<lparr>p_published := True\<rparr>) b;
              b2 = b1\<lparr>b_frames := b_frames b1 @ [(ref, request_frame (pending_at b1 ref))]\<rparr>
          in (case aborted of None \<Rightarrow> b2 | Some reason \<Rightarrow> runtime_abort ref reason b2))"

definition activatePending ::
  "('p, 'c, 'u, 'v) broker_env \<Rightarrow> int \<Rightarrow> publish_outcome \<Rightarrow> nat \<Rightarrow> ('p, 'c, 'u, 'v) broker
    \<Rightarrow> ('p, 'c, 'u, 'v) broker" where
  "activatePending env now pub ref b =
     (case requireWorkspace b of
        Inl e \<Rightarrow> discard ref e b
      | Inr _ \<Rightarrow>
          let p = pending_at b ref
          in if map_of (b_pending b) (p_id p) \<noteq> None
             then discard ref (responderDenied (quoted ''Interaction '' (p_id p) '' is already pending'')) b
             else if env_date_parse env (p_expires p) \<le> now
             then discard ref (expired_error (p_expires p)) b
             else
               let b1 = b\<lparr>b_pending := b_pending b @ [(p_id p, ref)]\<rparr>
               in if p_runtime p \<noteq> None then cancel_if_aborted ref b1
                  else
                    let b2 = publish_request pub ref b1
                    in (case pub of
                          PublishFails _ \<Rightarrow> b2
                        | Publishes _ \<Rightarrow>
                            if p_runtime (pending_at b2 ref) \<noteq> None then cancel_if_aborted ref b2
                            else scheduleDeadline env now ref b2))"

text \<open>The identifiers drawn, at most eight.\<close>

definition nextInteractionId :: "string list \<Rightarrow> ('p, 'c, 'u, 'v) broker \<Rightarrow> js_error + string" where
  "nextInteractionId drawn b =
     (case find (\<lambda>i. map_of (b_pending b) i = None) (take 8 drawn) of
        Some i \<Rightarrow> Inr i
      | None \<Rightarrow> Inl (JsError ''Error'' ''Unable to allocate a unique interaction id''))"

text \<open>The handlers the runtime calls: the state, and the error the promise is rejected with (or that is
  thrown) or the interaction whose promise is returned.\<close>

definition registerApproval ::
  "('p, 'c, 'u, 'v) broker_env \<Rightarrow> js_error + 'p approval_params \<Rightarrow> string list \<Rightarrow> abort_reason option
    \<Rightarrow> int \<Rightarrow> publish_outcome \<Rightarrow> ('p, 'c, 'u, 'v) broker
    \<Rightarrow> ('p, 'c, 'u, 'v) broker \<times> (js_error + nat)" where
  "registerApproval env parsed drawn signal now pub b =
     (case parsed of
        Inl e \<Rightarrow> (b, Inl e)
      | Inr params \<Rightarrow>
          (case (case rp_interaction params of
                   Some i \<Rightarrow> Inr i
                 | None \<Rightarrow> nextInteractionId drawn b) of
             Inl e \<Rightarrow> (b, Inl e)
           | Inr interactionId \<Rightarrow>
               let expiresAt = (case rp_expires params of
                     Some t \<Rightarrow> t | None \<Rightarrow> env_to_iso env (now + env_legacy_timeout env));
                   approval = rp_approval params;
                   approvalId = ap_id approval
               in if map_of (b_approvals b) approvalId \<noteq> None
                  then (b, Inl (localApprovalDenied (quoted ''Approval '' approvalId '' is already pending'')))
                  else
                    (case lease_acquire (Lease ApprovalLease approvalId) (b_leases b) of
                       (leases, lease) \<Rightarrow>
                         (case createPendingBase interactionId (rp_thread params) (ap_turn approval) expiresAt
                                 (ApprovalDetails approval) signal lease (b\<lparr>b_leases := leases\<rparr>) of
                            (b1, ref) \<Rightarrow>
                              (activatePending env now pub ref
                                 (b1\<lparr>b_approvals := b_approvals b1 @ [(approvalId, interactionId)]\<rparr>),
                               Inr ref)))))"

definition registerUserInput ::
  "('p, 'c, 'u, 'v) broker_env \<Rightarrow> js_error + 'c input_params \<Rightarrow> abort_reason option
    \<Rightarrow> int \<Rightarrow> publish_outcome \<Rightarrow> ('p, 'c, 'u, 'v) broker
    \<Rightarrow> ('p, 'c, 'u, 'v) broker \<times> (js_error + nat)" where
  "registerUserInput env parsed signal now pub b =
     (case parsed of
        Inl e \<Rightarrow> (b, Inl e)
      | Inr params \<Rightarrow>
          (case lease_acquire (Lease TurnLease (ip_turn params)) (b_leases b) of
             (leases, lease) \<Rightarrow>
               (case createPendingBase (ip_interaction params) (ip_thread params) (ip_turn params)
                       (ip_expires params) (InputDetails params) signal lease (b\<lparr>b_leases := leases\<rparr>) of
                  (b1, ref) \<Rightarrow> (activatePending env now pub ref b1, Inr ref))))"

text \<open>The timer of an interaction fires, if it is still set.\<close>

definition timer_fires ::
  "('p, 'c, 'u, 'v) broker_env \<Rightarrow> int \<Rightarrow> nat \<Rightarrow> ('p, 'c, 'u, 'v) broker \<Rightarrow> ('p, 'c, 'u, 'v) broker" where
  "timer_fires env now ref b =
     (if p_timer (pending_at b ref) = None then b else scheduleDeadline env now ref b)"

section \<open>Candidates\<close>

text \<open>
  A remote candidate with its context: \<open>ci_method\<close> is what the identity check reads, \<open>ci_parsed\<close> what
  the full schema makes of it after authorisation, \<open>ci_json\<close> its fingerprint.
\<close>

record 'v candidate_input =
  ci_workspace :: string
  ci_request :: string
  ci_interaction :: string
  ci_thread :: string
  ci_turn :: string
  ci_method :: interaction_method
  ci_json :: string
  ci_generation :: nat
  ci_parsed :: "js_error + 'v candidate"

datatype submission = Accepted | InProgress nat

text \<open>The reason a combined signal carries: that of the first aborted one.\<close>

fun first_abort :: "abort_reason option list \<Rightarrow> abort_reason option" where
  "first_abort [] = None"
| "first_abort (Some r # rest) = Some r"
| "first_abort (None # rest) = first_abort rest"

definition process_at :: "('p, 'c, 'u, 'v) broker \<Rightarrow> nat \<Rightarrow> 'v process" where
  "process_at b n = b_processes b ! n"

definition generation_aborted :: "('p, 'c, 'u, 'v) broker \<Rightarrow> 'v process \<Rightarrow> abort_reason option" where
  "generation_aborted b c =
     (case c_generation c of Some g \<Rightarrow> b_generations b g | None \<Rightarrow> c_aborted c)"

definition set_phase :: "nat \<Rightarrow> phase \<Rightarrow> ('p, 'c, 'u, 'v) broker \<Rightarrow> ('p, 'c, 'u, 'v) broker" where
  "set_phase n ph b = upd_process n (\<lambda>c. c\<lparr>c_phase := ph\<rparr>) b"

definition add_process :: "'v process \<Rightarrow> ('p, 'c, 'u, 'v) broker \<Rightarrow> ('p, 'c, 'u, 'v) broker \<times> nat" where
  "add_process c b = (b\<lparr>b_processes := b_processes b @ [c]\<rparr>, length (b_processes b))"

text \<open>\<open>raceWithAbort\<close> does not start its work under an aborted signal.\<close>

definition race_start :: "string \<Rightarrow> abort_reason option list \<Rightarrow> js_error option" where
  "race_start fallback signals = map_option (\<lambda>r. asError r fallback) (first_abort signals)"

text \<open>\<open>process\<close> up to its first await; \<open>superseded\<close> is the active attempt it runs beside, if any.\<close>

definition start_process ::
  "'v candidate_input \<Rightarrow> nat \<Rightarrow> nat option \<Rightarrow> ('p, 'c, 'u, 'v) broker
    \<Rightarrow> ('p, 'c, 'u, 'v) broker \<times> nat" where
  "start_process input ref superseded b =
     (let attempt = (case superseded of None \<Rightarrow> None | Some a \<Rightarrow> c_aborted (process_at b a));
          forced = race_start ''Remote responder policy was aborted''
            [p_runtime (pending_at b ref), b_generations b (ci_generation input), attempt]
      in add_process
           \<lparr>c_pending = ref, c_key = ci_request input, c_fingerprint = ci_json input, c_aborted = None,
             c_generation = Some (ci_generation input),
             c_signal = (case superseded of None \<Rightarrow> length (b_processes b) | Some a \<Rightarrow> a),
             c_candidate = ci_parsed input, c_phase = Authorizing forced\<rparr> b)"

definition assertCandidateIdentity ::
  "'v candidate_input \<Rightarrow> ('p, 'c, 'u, 'v) broker \<Rightarrow> js_error + nat" where
  "assertCandidateIdentity input b =
     (case map_of (b_pending b) (ci_interaction input) of
        None \<Rightarrow> Inl (responderDenied (quoted ''Interaction '' (ci_interaction input) '' is no longer pending''))
      | Some ref \<Rightarrow>
          if p_thread (pending_at b ref) \<noteq> ci_thread input \<or> p_turn (pending_at b ref) \<noteq> ci_turn input
             \<or> method_of (p_details (pending_at b ref)) \<noteq> ci_method input
          then Inl (responderDenied (quoted ''Interaction '' (ci_interaction input)
                 '' does not match its thread, turn, and method''))
          else Inr ref)"

text \<open>An active attempt whose own connection is gone is aborted and dropped.\<close>

definition drop_stale ::
  "nat \<Rightarrow> ('p, 'c, 'u, 'v) broker \<Rightarrow> ('p, 'c, 'u, 'v) broker \<times> nat option" where
  "drop_stale ref b =
     (case p_active (pending_at b ref) of
        None \<Rightarrow> (b, None)
      | Some a \<Rightarrow>
          (case c_generation (process_at b a) of
             None \<Rightarrow> (b, Some a)
           | Some g \<Rightarrow>
               (case b_generations b g of
                  None \<Rightarrow> (b, Some a)
                | Some reason \<Rightarrow>
                    (upd_pending ref (\<lambda>p. p\<lparr>p_active := None\<rparr>)
                       (abort_controller (Some a) (candidateAborted reason) b), None))))"

definition submit_pending ::
  "'v candidate_input \<Rightarrow> nat \<Rightarrow> ('p, 'c, 'u, 'v) broker
    \<Rightarrow> ('p, 'c, 'u, 'v) broker \<times> (js_error + submission)" where
  "submit_pending input ref b =
     (case drop_stale ref b of
        (b1, None) \<Rightarrow>
          (case start_process input ref None b1 of
             (b2, n) \<Rightarrow> (upd_pending ref (\<lambda>p. p\<lparr>p_active := Some n\<rparr>) b2, Inr (InProgress n)))
      | (b1, Some a) \<Rightarrow>
          if c_key (process_at b1 a) = ci_request input
          then if c_fingerprint (process_at b1 a) \<noteq> ci_json input
               then (b1, Inl (responderDenied (quoted ''Relay request '' (ci_request input)
                      '' conflicts with its active candidate'')))
               else (b1, Inr (InProgress a))
          else (case start_process input ref (Some a) b1 of (b2, n) \<Rightarrow> (b2, Inr (InProgress n))))"

definition submitCandidate ::
  "'v candidate_input \<Rightarrow> ('p, 'c, 'u, 'v) broker \<Rightarrow> ('p, 'c, 'u, 'v) broker \<times> (js_error + submission)" where
  "submitCandidate input b =
     (case requireWorkspace b of
        Inl e \<Rightarrow> (b, Inl e)
      | Inr (_, workspaceId) \<Rightarrow>
          if ci_workspace input \<noteq> workspaceId
          then (b, Inl (responderDenied ''Remote interaction candidate belongs to another workspace''))
          else (case assertCandidateIdentity input b of
                  Inl e \<Rightarrow> (b, Inl e)
                | Inr ref \<Rightarrow>
                    (case b_generations b (ci_generation input) of
                       Some reason \<Rightarrow> (b, Inl (candidateAborted reason))
                     | None \<Rightarrow> submit_pending input ref b)))"

text \<open>The rest of \<open>authorizeResponder\<close>, when the responder's policy has answered, failed or been
  aborted.\<close>

definition responder_failure :: "nat \<Rightarrow> js_error \<Rightarrow> ('p, 'c, 'u, 'v) broker \<Rightarrow> js_error" where
  "responder_failure n e b =
     (let c = process_at b n
      in case generation_aborted b c of
           Some reason \<Rightarrow> candidateAborted reason
         | None \<Rightarrow>
             (case c_aborted (process_at b (c_signal c)) of
                Some reason \<Rightarrow> candidateAborted reason
              | None \<Rightarrow>
                  if \<not> isStillPending (c_pending c) b
                  then interactionCancelled (ErrorReason e) ''Interaction is no longer pending''
                  else responderDenied ''Remote responder policy failed closed''))"

definition responder_settles ::
  "nat \<Rightarrow> js_error + bool \<Rightarrow> ('p, 'c, 'u, 'v) broker \<Rightarrow> ('p, 'c, 'u, 'v) broker" where
  "responder_settles n answer b =
     (let c = process_at b n
      in case c_phase c of
           Authorizing forced \<Rightarrow>
             set_phase n
               (case (case forced of Some e \<Rightarrow> Inl e | None \<Rightarrow> answer) of
                  Inl e \<Rightarrow> Finished (Inl (responder_failure n e b))
                | Inr allowed \<Rightarrow>
                    (case generation_aborted b c of
                       Some reason \<Rightarrow> Finished (Inl (candidateAborted reason))
                     | None \<Rightarrow>
                         if \<not> isStillPending (c_pending c) b
                         then Finished (Inl (no_longer_pending (c_pending c) b))
                         else if \<not> allowed
                         then Finished (Inl (responderDenied
                                ''Remote responder policy denied the interaction candidate''))
                         else Authorized)) b
         | _ \<Rightarrow> b)"

text \<open>\<open>approveCandidate\<close> up to its await.\<close>

definition approve_start :: "nat \<Rightarrow> ('p, 'c, 'u, 'v) broker \<Rightarrow> ('p, 'c, 'u, 'v) broker" where
  "approve_start n b =
     (let c = process_at b n; p = pending_at b (c_pending c)
      in set_phase n
           (case requireWorkspace b of
              Inl e \<Rightarrow> Finished (Inl e)
            | Inr _ \<Rightarrow> Deciding (race_start ''Local Companion policy was aborted''
                [p_runtime p, generation_aborted b c,
                 (case p_active p of None \<Rightarrow> None | Some a \<Rightarrow> c_aborted (process_at b a))])) b)"

text \<open>The rest of \<open>process\<close> after authorisation.\<close>

definition settle_process ::
  "nat \<Rightarrow> js_error + unit \<Rightarrow> ('p, 'c, 'u, 'v) broker \<Rightarrow> ('p, 'c, 'u, 'v) broker" where
  "settle_process n result b = set_phase n (Finished result) b"

definition occupied :: "nat \<Rightarrow> 'v candidate \<Rightarrow> ('p, 'c, 'u, 'v) broker \<Rightarrow> bool" where
  "occupied n cand b =
     (case p_active (pending_at b (c_pending (process_at b n))) of
        None \<Rightarrow> False
      | Some a \<Rightarrow> c_key (process_at b a) \<noteq> c_key (process_at b n)
          \<and> (case cand of Reject _ \<Rightarrow> False | _ \<Rightarrow> True))"

definition method_changed :: js_error where
  "method_changed = responderDenied ''Remote interaction method no longer matches the pending request''"

definition process_candidate ::
  "('p, 'c, 'u, 'v) broker_env \<Rightarrow> nat \<Rightarrow> 'v candidate \<Rightarrow> ('p, 'c, 'u, 'v) broker \<Rightarrow> ('p, 'c, 'u, 'v) broker" where
  "process_candidate env n cand b =
     (let ref = c_pending (process_at b n); p = pending_at b ref
      in case cand of
           Answer v \<Rightarrow>
             (case p_details p of
                ApprovalDetails _ \<Rightarrow> settle_process n (Inl method_changed) b
              | InputDetails i \<Rightarrow>
                  (case env_normalize env i v of
                     Inl e \<Rightarrow> settle_process n (Inl e) b
                   | Inr u \<Rightarrow> settle_process n (Inr ()) (fst (finishResolved ref (Answered u) b))))
         | Reject reason \<Rightarrow>
             (case p_details p of
                InputDetails _ \<Rightarrow> settle_process n (Inl method_changed) b
              | ApprovalDetails _ \<Rightarrow>
                  settle_process n (Inr ())
                    (fst (finishResolved ref (Rejected reason)
                       (abort_controller (p_active p)
                          (localApprovalDenied ''A remote rejection superseded the approval candidate'') b))))
         | Approve \<Rightarrow>
             (case p_details p of
                InputDetails _ \<Rightarrow> settle_process n (Inl method_changed) b
              | ApprovalDetails _ \<Rightarrow> approve_start n b))"

definition resume :: "('p, 'c, 'u, 'v) broker_env \<Rightarrow> nat \<Rightarrow> ('p, 'c, 'u, 'v) broker \<Rightarrow> ('p, 'c, 'u, 'v) broker" where
  "resume env n b =
     (let c = process_at b n
      in case c_phase c of
           Authorized \<Rightarrow>
             (case c_candidate c of
                Inl e \<Rightarrow> settle_process n (Inl e) b
              | Inr cand \<Rightarrow>
                  if \<not> isStillPending (c_pending c) b
                  then settle_process n (Inl (no_longer_pending (c_pending c) b)) b
                  else if occupied n cand b
                  then settle_process n (Inl (responderDenied (quoted ''Interaction ''
                         (p_id (pending_at b (c_pending c))) '' already has a candidate in progress''))) b
                  else process_candidate env n cand b)
         | _ \<Rightarrow> b)"

text \<open>The rest of \<open>approveCandidate\<close>: no decision stands for an invalid one.\<close>

definition decide ::
  "nat \<Rightarrow> js_error + local_decision \<Rightarrow> ('p, 'c, 'u, 'v) broker \<Rightarrow> ('p, 'c, 'u, 'v) broker" where
  "decide n decision b =
     (let c = process_at b n; ref = c_pending c
      in case generation_aborted b c of
           Some reason \<Rightarrow> settle_process n (Inl (candidateAborted reason)) b
         | None \<Rightarrow>
             (case decision of
                Inl e \<Rightarrow>
                  if \<not> isStillPending ref b
                  then settle_process n (Inl (interactionCancelled (ErrorReason e)
                         ''Approval is no longer pending'')) b
                  else
                    let denied = localApprovalDenied ''Local Companion policy failed''
                    in settle_process n (Inl denied) (fst (finishCancelled ref denied b))
              | Inr d \<Rightarrow>
                  if \<not> isStillPending ref b then settle_process n (Inl (no_longer_pending ref b)) b
                  else (case d of
                     Deny \<Rightarrow>
                       let message = ''Local Companion policy denied remote approval''
                       in settle_process n (Inl (localApprovalDenied message))
                            (fst (finishResolved ref (Rejected (Some message)) b))
                   | RequireLocalConfirmation \<Rightarrow>
                       settle_process n (Inl (localConfirmationRequired
                         ''Local confirmation is required before this approval can continue'')) b
                   | Allow \<Rightarrow> settle_process n (Inr ()) (fst (finishResolved ref Approved b)))))"

definition parseLocalApprovalDecision :: "local_decision option \<Rightarrow> js_error + local_decision" where
  "parseLocalApprovalDecision d =
     (case d of
        Some d \<Rightarrow> Inr d
      | None \<Rightarrow> Inl (localApprovalDenied ''Local Companion policy returned an invalid approval decision''))"

definition local_settles ::
  "nat \<Rightarrow> js_error + local_decision option \<Rightarrow> ('p, 'c, 'u, 'v) broker \<Rightarrow> ('p, 'c, 'u, 'v) broker" where
  "local_settles n answer b =
     (case c_phase (process_at b n) of
        Deciding forced \<Rightarrow>
          decide n (case forced of
                      Some e \<Rightarrow> Inl e
                    | None \<Rightarrow> sum_bind answer parseLocalApprovalDecision) b
      | _ \<Rightarrow> b)"

text \<open>The handler attached to an attempt's result: \<open>clearCandidateAttempt\<close>.\<close>

definition observe :: "nat \<Rightarrow> ('p, 'c, 'u, 'v) broker \<Rightarrow> ('p, 'c, 'u, 'v) broker" where
  "observe n b =
     (case c_phase (process_at b n) of
        Finished result \<Rightarrow>
          let ref = c_pending (process_at b n);
              b1 = (if p_active (pending_at b ref) = Some n
                    then upd_pending ref (\<lambda>p. p\<lparr>p_active := None\<rparr>) b else b)
          in set_phase n (Observed result) b1
      | _ \<Rightarrow> b)"

text \<open>The legacy facade: no responder policy, only a decision on an approval.\<close>

record legacy_input =
  li_approval :: string
  li_thread :: string
  li_turn :: string
  li_reject :: "string option option"
  li_json :: string

definition legacy_pending :: "legacy_input \<Rightarrow> ('p, 'c, 'u, 'v) broker \<Rightarrow> js_error + nat" where
  "legacy_pending params b =
     (let gone = Inl (localApprovalDenied (quoted ''Approval '' (li_approval params) '' is no longer pending''))
      in case map_of (b_approvals b) (li_approval params) of
           None \<Rightarrow> gone
         | Some interactionId \<Rightarrow>
             (case map_of (b_pending b) interactionId of
                None \<Rightarrow> gone
              | Some ref \<Rightarrow>
                  if method_of (p_details (pending_at b ref)) \<noteq> ApprovalRequest then gone
                  else if p_thread (pending_at b ref) \<noteq> li_thread params
                       \<or> p_turn (pending_at b ref) \<noteq> li_turn params
                  then Inl (localApprovalDenied (quoted ''Approval '' (li_approval params)
                         '' does not belong to the requested thread and turn''))
                  else Inr ref))"

definition submitLegacyApprovalCandidate ::
  "js_error + legacy_input \<Rightarrow> ('p, 'c, 'u, 'v) broker \<Rightarrow> ('p, 'c, 'u, 'v) broker \<times> (js_error + submission)" where
  "submitLegacyApprovalCandidate parsed b =
     (case sum_bind parsed (\<lambda>params. sum_bind (legacy_pending params b) (\<lambda>ref. Inr (params, ref))) of
        Inl e \<Rightarrow> (b, Inl e)
      | Inr (params, ref) \<Rightarrow>
          (case li_reject params of
             Some reason \<Rightarrow>
               (fst (finishResolved ref (Rejected reason)
                  (abort_controller (p_active (pending_at b ref))
                     (localApprovalDenied ''A legacy rejection superseded the approval candidate'') b)),
                Inr Accepted)
           | None \<Rightarrow>
               if p_active (pending_at b ref) \<noteq> None
               then (b, Inl (localApprovalDenied (quoted ''Approval '' (li_approval params)
                      '' already has a candidate in progress'')))
               else
                 (case add_process
                    \<lparr>c_pending = ref, c_key = ''legacy:'' @ li_approval params, c_fingerprint = li_json params,
                      c_aborted = None, c_generation = None, c_signal = length (b_processes b),
                      c_candidate = Inr Approve, c_phase = Authorized\<rparr> b of
                    (b1, n) \<Rightarrow>
                      (upd_pending ref (\<lambda>p. p\<lparr>p_active := Some n\<rparr>) (approve_start n b1),
                       Inr (InProgress n)))))"

definition generation_abort ::
  "nat \<Rightarrow> abort_reason \<Rightarrow> ('p, 'c, 'u, 'v) broker \<Rightarrow> ('p, 'c, 'u, 'v) broker" where
  "generation_abort g reason b =
     (if b_generations b g \<noteq> None then b
      else b\<lparr>b_generations := (b_generations b)(g := Some reason)\<rparr>)"

section \<open>Steps\<close>

text \<open>
  Everything that happens to a broker. The last three steps are the workspace's own use of the lease
  manager the broker exposes; \<open>b_foreign\<close> holds the addresses behind the functions it was given. A step
  that names an interaction or process that does not exist does nothing.
\<close>

datatype ('p, 'c, 'v) broker_event =
    Register_Approval "js_error + 'p approval_params" "string list" "abort_reason option" int publish_outcome
  | Register_Input "js_error + 'c input_params" "abort_reason option" int publish_outcome
  | Runtime_Aborts nat abort_reason
  | Generation_Aborts nat abort_reason
  | Timer_Fires nat int
  | Submit "'v candidate_input"
  | Submit_Legacy "js_error + legacy_input"
  | Responder_Settles nat "js_error + bool"
  | Resume nat
  | Local_Settles nat "js_error + local_decision option"
  | Observe nat
  | Cancel_Turn string string abort_reason
  | Bind string
  | Unbind nat
  | Close abort_reason
  | Workspace_Acquire lease
  | Workspace_Detach nat
  | Workspace_Release lease

fun broker_step ::
  "('p, 'c, 'u, 'v) broker_env \<Rightarrow> ('p, 'c, 'v) broker_event \<Rightarrow> ('p, 'c, 'u, 'v) broker
    \<Rightarrow> ('p, 'c, 'u, 'v) broker" where
  "broker_step env (Register_Approval params drawn signal now pub) b =
     fst (registerApproval env params drawn signal now pub b)"
| "broker_step env (Register_Input params signal now pub) b =
     fst (registerUserInput env params signal now pub b)"
| "broker_step env (Runtime_Aborts ref reason) b =
     (if ref < length (b_heap b) then runtime_abort ref reason b else b)"
| "broker_step env (Generation_Aborts g reason) b = generation_abort g reason b"
| "broker_step env (Timer_Fires ref now) b =
     (if ref < length (b_heap b) then timer_fires env now ref b else b)"
| "broker_step env (Submit input) b = fst (submitCandidate input b)"
| "broker_step env (Submit_Legacy params) b = fst (submitLegacyApprovalCandidate params b)"
| "broker_step env (Responder_Settles n answer) b =
     (if n < length (b_processes b) then responder_settles n answer b else b)"
| "broker_step env (Resume n) b = (if n < length (b_processes b) then resume env n b else b)"
| "broker_step env (Local_Settles n answer) b =
     (if n < length (b_processes b) then local_settles n answer b else b)"
| "broker_step env (Observe n) b = (if n < length (b_processes b) then observe n b else b)"
| "broker_step env (Cancel_Turn thread turn reason) b = fst (cancelTurn thread turn reason b)"
| "broker_step env (Bind workspaceId) b = fst (bindWorkspace workspaceId b)"
| "broker_step env (Unbind binding) b = unbind binding b"
| "broker_step env (Close reason) b = close_broker reason b"
| "broker_step env (Workspace_Acquire k) b =
     (case lease_acquire k (b_leases b) of
        (leases, a) \<Rightarrow> b\<lparr>b_leases := leases, b_foreign := b_foreign b @ [a]\<rparr>)"
| "broker_step env (Workspace_Detach i) b =
     (if i < length (b_foreign b) then b\<lparr>b_leases := lease_detach (b_foreign b ! i) (b_leases b)\<rparr> else b)"
| "broker_step env (Workspace_Release k) b = b\<lparr>b_leases := fst (lease_release k (b_leases b))\<rparr>"

definition run_broker ::
  "('p, 'c, 'u, 'v) broker_env \<Rightarrow> ('p, 'c, 'v) broker_event list \<Rightarrow> ('p, 'c, 'u, 'v) broker" where
  "run_broker env steps = fold (broker_step env) steps newBroker"

end
