(* ===== verification/CompanionBrokerProps.thy ===== *)
theory CompanionBrokerProps
  imports CompanionBroker
begin

text \<open>
  What the interaction broker guarantees over every sequence of steps: an invariant of the part of the
  state that interactions share, each field of which every operation either leaves alone or changes in
  one of five ways (an interaction is created, entered, published, closed or discarded), and the
  properties read off it.
\<close>

section \<open>The part of the state that matters\<close>

text \<open>The core of an interaction: what its timer, listener, signal and active candidate do not touch.\<close>

definition pcore :: "('p, 'c) pending \<Rightarrow> ('p, 'c) pending" where
  "pcore p = p\<lparr>p_runtime := None, p_listener := False, p_timer := None, p_active := None\<rparr>"

lemma pcore_simps [simp]:
  "p_id (pcore p) = p_id p" "p_thread (pcore p) = p_thread p" "p_turn (pcore p) = p_turn p"
  "p_expires (pcore p) = p_expires p" "p_details (pcore p) = p_details p" "p_lease (pcore p) = p_lease p"
  "p_published (pcore p) = p_published p"
  by (simp_all add: pcore_def)

lemma pcore_updates [simp]:
  "pcore (p\<lparr>p_runtime := a\<rparr>) = pcore p" "pcore (p\<lparr>p_listener := l\<rparr>) = pcore p"
  "pcore (p\<lparr>p_timer := t\<rparr>) = pcore p" "pcore (p\<lparr>p_active := c\<rparr>) = pcore p"
  by (simp_all add: pcore_def)

lemma frames_pcore [simp]:
  "request_frame (pcore p) = request_frame p" "terminal_frame res (pcore p) = terminal_frame res p"
  by (simp_all add: request_frame_def terminal_frame_def split: details.split sum.split)

definition cores :: "('p, 'c, 'u, 'v) broker \<Rightarrow> ('p, 'c) pending list" where
  "cores b = map pcore (b_heap b)"

lemma length_cores [simp]: "length (cores b) = length (b_heap b)"
  by (simp add: cores_def)

lemma nth_cores: "r < length (b_heap b) \<Longrightarrow> cores b ! r = pcore (pending_at b r)"
  by (simp add: cores_def pending_at_def)

record ('p, 'c, 'u) core =
  k_items :: "('p, 'c) pending list"
  k_open :: "(string \<times> nat) list"
  k_approvals :: "(string \<times> string) list"
  k_leases :: lease_manager
  k_bound :: bool
  k_frames :: "(nat \<times> 'c interaction_frame) list"
  k_settled :: "(nat \<times> 'u outcome) list"
  k_foreign :: "nat list"

definition core_of :: "('p, 'c, 'u, 'v) broker \<Rightarrow> ('p, 'c, 'u) core" where
  "core_of b = \<lparr>k_items = cores b, k_open = b_pending b, k_approvals = b_approvals b,
     k_leases = b_leases b, k_bound = (b_workspace b \<noteq> None), k_frames = b_frames b,
     k_settled = b_settled b, k_foreign = b_foreign b\<rparr>"

subsection \<open>Closing and discarding on the core\<close>

definition is_open :: "nat \<Rightarrow> ('p, 'c, 'u) core \<Rightarrow> bool" where
  "is_open r k \<longleftrightarrow> (p_id (k_items k ! r), r) \<in> set (k_open k)"

definition approval_of :: "('p, 'c) pending \<Rightarrow> string option" where
  "approval_of p = (case p_details p of ApprovalDetails a \<Rightarrow> Some (ap_id a) | InputDetails _ \<Rightarrow> None)"

lemma approval_of_pcore [simp]: "approval_of (pcore p) = approval_of p"
  by (simp add: approval_of_def)

definition k_drop :: "nat \<Rightarrow> ('p, 'c, 'u) core \<Rightarrow> ('p, 'c, 'u) core" where
  "k_drop r k =
     (let p = k_items k ! r
      in k\<lparr>k_approvals := filter (\<lambda>x. Some (fst x) \<noteq> approval_of p) (k_approvals k),
           k_leases := lease_detach (p_lease p) (k_leases k)\<rparr>)"

definition k_settle :: "nat \<Rightarrow> 'u outcome \<Rightarrow> ('p, 'c, 'u) core \<Rightarrow> ('p, 'c, 'u) core" where
  "k_settle r res k = k\<lparr>k_settled := k_settled k @ [(r, res)]\<rparr>"

definition k_close :: "nat \<Rightarrow> 'u outcome \<Rightarrow> ('p, 'c, 'u) core \<Rightarrow> ('p, 'c, 'u) core" where
  "k_close r res k =
     (let p = k_items k ! r; k1 = k_drop r k
      in k_settle r res
           (k1\<lparr>k_open := filter (\<lambda>x. fst x \<noteq> p_id p) (k_open k1),
               k_frames := (if p_published p \<and> k_bound k1 then k_frames k1 @ [(r, terminal_frame res p)]
                            else k_frames k1)\<rparr>))"

section \<open>The invariant\<close>

text \<open>\<open>X\<close> holds the interaction under construction, which is not entered yet.\<close>

definition live :: "nat set \<Rightarrow> ('p, 'c, 'u) core \<Rightarrow> nat \<Rightarrow> bool" where
  "live X k r \<longleftrightarrow> r < length (k_items k) \<and> (is_open r k \<or> r \<in> X)"

definition outcomes_of :: "nat \<Rightarrow> (nat \<times> 'o) list \<Rightarrow> 'o list" where
  "outcomes_of r xs = map snd (filter (\<lambda>x. fst x = r) xs)"

lemma outcomes_of_simps [simp]:
  "outcomes_of r [] = []"
  "outcomes_of r (xs @ [(r', x)]) = outcomes_of r xs @ (if r = r' then [x] else [])"
  by (auto simp: outcomes_of_def)

definition open_inv :: "('p, 'c, 'u) core \<Rightarrow> bool" where
  "open_inv k \<longleftrightarrow> distinct (map fst (k_open k)) \<and> (k_open k \<noteq> [] \<longrightarrow> k_bound k)
     \<and> (\<forall>x \<in> set (k_open k). snd x < length (k_items k) \<and> p_id (k_items k ! snd x) = fst x)"

definition settled_inv :: "nat set \<Rightarrow> ('p, 'c, 'u) core \<Rightarrow> bool" where
  "settled_inv X k \<longleftrightarrow>
     (\<forall>r. if r < length (k_items k) \<and> \<not> live X k r then length (outcomes_of r (k_settled k)) = 1
          else outcomes_of r (k_settled k) = [])"

definition framed :: "('p, 'c, 'u) core \<Rightarrow> nat \<Rightarrow> 'c interaction_frame list" where
  "framed k r =
     (if r < length (k_items k) \<and> p_published (k_items k ! r)
      then request_frame (k_items k ! r)
        # map (\<lambda>res. terminal_frame res (k_items k ! r)) (outcomes_of r (k_settled k))
      else [])"

definition frames_inv :: "('p, 'c, 'u) core \<Rightarrow> bool" where
  "frames_inv k \<longleftrightarrow> (\<forall>r. outcomes_of r (k_frames k) = framed k r)"

definition approvals_inv :: "nat set \<Rightarrow> ('p, 'c, 'u) core \<Rightarrow> bool" where
  "approvals_inv X k \<longleftrightarrow>
     (\<forall>r r' a. live X k r \<longrightarrow> live X k r' \<longrightarrow> approval_of (k_items k ! r) = Some a
        \<longrightarrow> approval_of (k_items k ! r') = Some a \<longrightarrow> r = r')
     \<and> (\<forall>a. a \<in> fst ` set (k_approvals k) \<longleftrightarrow> (\<exists>r. live X k r \<and> approval_of (k_items k ! r) = Some a))"

definition approval_keys :: "lease set" where
  "approval_keys = range (Lease ApprovalLease)"

definition lease_key :: "('p, 'c) pending \<Rightarrow> lease" where
  "lease_key p = (case p_details p of
     ApprovalDetails a \<Rightarrow> Lease ApprovalLease (ap_id a) | InputDetails i \<Rightarrow> Lease TurnLease (ip_turn i))"

lemma lease_key_pcore [simp]: "lease_key (pcore p) = lease_key p"
  by (simp add: lease_key_def)

lemma lease_key_approval: "lease_key p = Lease ApprovalLease a \<longleftrightarrow> approval_of p = Some a"
  by (simp add: lease_key_def approval_of_def split: details.split)

definition held :: "nat set \<Rightarrow> ('p, 'c, 'u) core \<Rightarrow> (lease \<times> nat) set" where
  "held X k = {(lease_key (k_items k ! r), p_lease (k_items k ! r)) | r. live X k r}"

definition addresses :: "('p, 'c, 'u) core \<Rightarrow> nat set" where
  "addresses k = p_lease ` set (k_items k)"

definition leases_inv :: "nat set \<Rightarrow> ('p, 'c, 'u) core \<Rightarrow> bool" where
  "leases_inv X k \<longleftrightarrow>
     lm.tenant (k_leases k) (held X k) approval_keys
     \<and> (\<forall>key r. r < length (k_items k) \<longrightarrow> p_lease (k_items k ! r) \<in> holders_in (k_leases k) key
          \<longrightarrow> live X k r)
     \<and> distinct (map p_lease (k_items k))
     \<and> (\<forall>a \<in> addresses k. a < length (lm_heap (k_leases k)))
     \<and> (\<forall>a \<in> set (k_foreign k). a < length (lm_heap (k_leases k)) \<and> a \<notin> addresses k)"

lemma nth_address: "r < length (k_items k) \<Longrightarrow> p_lease (k_items k ! r) \<in> addresses k"
  by (simp add: addresses_def)

definition core_inv :: "nat set \<Rightarrow> ('p, 'c, 'u) core \<Rightarrow> bool" where
  "core_inv X k \<longleftrightarrow> open_inv k \<and> settled_inv X k \<and> frames_inv k \<and> approvals_inv X k \<and> leases_inv X k"

lemma core_invD:
  "core_inv X k \<Longrightarrow> open_inv k" "core_inv X k \<Longrightarrow> settled_inv X k" "core_inv X k \<Longrightarrow> frames_inv k"
  "core_inv X k \<Longrightarrow> approvals_inv X k" "core_inv X k \<Longrightarrow> leases_inv X k"
  by (simp_all add: core_inv_def)

lemma is_open_less: "open_inv k \<Longrightarrow> is_open r k \<Longrightarrow> r < length (k_items k)"
  by (force simp: open_inv_def is_open_def)

lemma is_open_unique:
  "open_inv k \<Longrightarrow> is_open r k \<Longrightarrow> is_open r' k \<Longrightarrow> p_id (k_items k ! r) = p_id (k_items k ! r') \<Longrightarrow> r = r'"
  unfolding open_inv_def is_open_def using eq_key_imp_eq_value by fastforce

lemma live_open: "open_inv k \<Longrightarrow> is_open r k \<Longrightarrow> live X k r"
  by (simp add: live_def is_open_less)

subsection \<open>Closing\<close>

lemma k_drop_simps [simp]:
  "k_items (k_drop r k) = k_items k" "k_open (k_drop r k) = k_open k" "k_bound (k_drop r k) = k_bound k"
  "k_frames (k_drop r k) = k_frames k" "k_settled (k_drop r k) = k_settled k"
  "k_foreign (k_drop r k) = k_foreign k"
  "k_leases (k_drop r k) = lease_detach (p_lease (k_items k ! r)) (k_leases k)"
  "k_approvals (k_drop r k)
    = filter (\<lambda>x. Some (fst x) \<noteq> approval_of (k_items k ! r)) (k_approvals k)"
  by (simp_all add: k_drop_def Let_def)

lemma k_settle_simps [simp]:
  "k_items (k_settle r res k) = k_items k" "k_open (k_settle r res k) = k_open k"
  "k_bound (k_settle r res k) = k_bound k" "k_frames (k_settle r res k) = k_frames k"
  "k_foreign (k_settle r res k) = k_foreign k" "k_leases (k_settle r res k) = k_leases k"
  "k_approvals (k_settle r res k) = k_approvals k"
  "k_settled (k_settle r res k) = k_settled k @ [(r, res)]"
  by (simp_all add: k_settle_def)

lemma k_close_simps [simp]:
  "k_items (k_close r res k) = k_items k"
  "k_open (k_close r res k) = filter (\<lambda>x. fst x \<noteq> p_id (k_items k ! r)) (k_open k)"
  "k_bound (k_close r res k) = k_bound k" "k_foreign (k_close r res k) = k_foreign k"
  "k_leases (k_close r res k) = lease_detach (p_lease (k_items k ! r)) (k_leases k)"
  "k_approvals (k_close r res k)
    = filter (\<lambda>x. Some (fst x) \<noteq> approval_of (k_items k ! r)) (k_approvals k)"
  "k_settled (k_close r res k) = k_settled k @ [(r, res)]"
  "k_frames (k_close r res k)
    = (if p_published (k_items k ! r) \<and> k_bound k
       then k_frames k @ [(r, terminal_frame res (k_items k ! r))] else k_frames k)"
  by (simp_all add: k_close_def Let_def)

text \<open>A core whose interaction \<open>r\<close> left the live ones.\<close>

definition gone :: "nat \<Rightarrow> nat set \<Rightarrow> ('p, 'c, 'u) core \<Rightarrow> nat set \<Rightarrow> ('p, 'c, 'u) core \<Rightarrow> bool" where
  "gone r X k X' k' \<longleftrightarrow> r < length (k_items k) \<and> live X k r \<and> k_items k' = k_items k
     \<and> (\<forall>r'. live X' k' r' \<longleftrightarrow> live X k r' \<and> r' \<noteq> r)
     \<and> k_leases k' = lease_detach (p_lease (k_items k ! r)) (k_leases k)
     \<and> k_approvals k' = filter (\<lambda>x. Some (fst x) \<noteq> approval_of (k_items k ! r)) (k_approvals k)
     \<and> k_foreign k' = k_foreign k \<and> (\<exists>res. k_settled k' = k_settled k @ [(r, res)])"

lemma gone_settled: "gone r X k X' k' \<Longrightarrow> settled_inv X k \<Longrightarrow> settled_inv X' k'"
  by (auto simp: gone_def settled_inv_def live_def split: if_splits)

lemma gone_approvals:
  assumes "gone r X k X' k'" and "approvals_inv X k" shows "approvals_inv X' k'"
proof -
  have g: "k_items k' = k_items k" "\<And>r'. live X' k' r' \<longleftrightarrow> live X k r' \<and> r' \<noteq> r" "live X k r"
    "k_approvals k' = filter (\<lambda>x. Some (fst x) \<noteq> approval_of (k_items k ! r)) (k_approvals k)"
    using assms(1) by (auto simp: gone_def)
  have u: "\<And>r r' a. live X k r \<Longrightarrow> live X k r' \<Longrightarrow> approval_of (k_items k ! r) = Some a
      \<Longrightarrow> approval_of (k_items k ! r') = Some a \<Longrightarrow> r = r'"
    and m: "\<And>a. a \<in> fst ` set (k_approvals k) \<longleftrightarrow> (\<exists>r. live X k r \<and> approval_of (k_items k ! r) = Some a)"
    using assms(2) unfolding approvals_inv_def by blast+
  have "a \<in> fst ` set (k_approvals k') \<longleftrightarrow> a \<in> fst ` set (k_approvals k) \<and> Some a \<noteq> approval_of (k_items k ! r)" for a
    by (auto simp: g(4))
  then have "a \<in> fst ` set (k_approvals k') \<longleftrightarrow> (\<exists>r. live X' k' r \<and> approval_of (k_items k' ! r) = Some a)" for a
    unfolding g(1,2) m using u g(3) by metis
  then show ?thesis unfolding approvals_inv_def g(1,2) using u by blast
qed

lemma gone_leases:
  assumes "gone r X k X' k'" and "leases_inv X k" shows "leases_inv X' k'"
proof -
  have g: "k_items k' = k_items k" "\<And>r'. live X' k' r' \<longleftrightarrow> live X k r' \<and> r' \<noteq> r" "r < length (k_items k)"
    "k_leases k' = lease_detach (p_lease (k_items k ! r)) (k_leases k)" "k_foreign k' = k_foreign k"
    using assms(1) by (auto simp: gone_def)
  have i: "lm.tenant (k_leases k) (held X k) approval_keys" "distinct (map p_lease (k_items k))"
    using assms(2) by (simp_all add: leases_inv_def)
  note d = lm.detach_law [OF lm.tenant_ok [OF i(1)], of "p_lease (k_items k ! r)"]
  have "r' = r" if "live X k r'" "p_lease (k_items k ! r') = p_lease (k_items k ! r)" for r'
    using that i(2) g(3) by (auto simp: live_def distinct_conv_nth)
  then have "held X' k' = {x \<in> held X k. snd x \<noteq> p_lease (k_items k ! r)}"
    by (auto simp: held_def g(1,2))
  then have "lm.tenant (k_leases k') (held X' k') approval_keys"
    using lm.tenant_detach [OF i(1), of "p_lease (k_items k ! r)"] by (simp add: g(4))
  then show ?thesis using assms(2) d by (auto simp: leases_inv_def g addresses_def)
qed

lemma open_filter: "open_inv k \<Longrightarrow> open_inv (k\<lparr>k_open := filter P (k_open k)\<rparr>)"
  by (auto simp: open_inv_def distinct_map_filter)

lemma close_gone:
  assumes "open_inv k" and "is_open r k"
  shows "gone r {} k {} (k_close r res k)"
proof -
  have "is_open r' (k_close r res k) \<longleftrightarrow> is_open r' k \<and> r' \<noteq> r" for r'
    using is_open_unique [OF assms(1) _ assms(2), of r'] by (auto simp: is_open_def)
  then show ?thesis using is_open_less [OF assms] assms(2) by (auto simp: gone_def live_def)
qed

lemma frames_settled:
  assumes "frames_inv k" and "r < length (k_items k)"
    and "k_items k' = k_items k" and "k_settled k' = k_settled k @ [(r, res)]"
    and "k_frames k' = (if p_published (k_items k ! r)
           then k_frames k @ [(r, terminal_frame res (k_items k ! r))] else k_frames k)"
  shows "frames_inv k'"
  using assms by (auto simp: frames_inv_def framed_def)

lemma inv_close:
  assumes "core_inv {} k" and "is_open r k"
  shows "core_inv {} (k_close r res k)"
proof -
  note i = core_invD [OF assms(1)]
  note g = close_gone [OF i(1) assms(2), of res]
  have "k_bound k" using i(1) assms(2) by (auto simp: open_inv_def is_open_def)
  then have "frames_inv (k_close r res k)"
    using frames_settled [OF i(3) is_open_less [OF i(1) assms(2)]] by simp
  moreover have "open_inv (k_close r res k)"
    using open_filter [OF i(1)] by (simp add: open_inv_def)
  ultimately show ?thesis
    using gone_settled [OF g i(2)] gone_approvals [OF g i(4)] gone_leases [OF g i(5)]
    by (simp add: core_inv_def)
qed

lemma inv_discard:
  assumes "core_inv {r} k" and "r < length (k_items k)" and "\<not> is_open r k" and "\<not> p_published (k_items k ! r)"
  shows "core_inv {} (k_settle r (Inl e) (k_drop r k))"
proof -
  note i = core_invD [OF assms(1)]
  have g: "gone r {r} k {} (k_settle r (Inl e) (k_drop r k))"
    using assms(2,3) by (auto simp: gone_def live_def is_open_def)
  have "frames_inv (k_settle r (Inl e) (k_drop r k))"
    using frames_settled [OF i(3) assms(2)] assms(4) by simp
  moreover have "open_inv (k_settle r (Inl e) (k_drop r k))" using i(1) by (simp add: open_inv_def)
  ultimately show ?thesis
    using gone_settled [OF g i(2)] gone_approvals [OF g i(4)] gone_leases [OF g i(5)]
    by (simp add: core_inv_def)
qed

subsection \<open>Creating, entering, publishing\<close>

definition k_create :: "('p, 'c) pending \<Rightarrow> ('p, 'c, 'u) core \<Rightarrow> ('p, 'c, 'u) core" where
  "k_create p k = k\<lparr>k_items := k_items k @ [p], k_leases := fst (lease_acquire (lease_key p) (k_leases k)),
     k_approvals := k_approvals k @ (case approval_of p of None \<Rightarrow> [] | Some a \<Rightarrow> [(a, p_id p)])\<rparr>"

lemma k_create_simps [simp]:
  "k_items (k_create p k) = k_items k @ [p]" "k_open (k_create p k) = k_open k"
  "k_bound (k_create p k) = k_bound k" "k_frames (k_create p k) = k_frames k"
  "k_settled (k_create p k) = k_settled k" "k_foreign (k_create p k) = k_foreign k"
  "k_leases (k_create p k) = fst (lease_acquire (lease_key p) (k_leases k))"
  "k_approvals (k_create p k)
    = k_approvals k @ (case approval_of p of None \<Rightarrow> [] | Some a \<Rightarrow> [(a, p_id p)])"
  by (simp_all add: k_create_def)

lemma live_create:
  "open_inv k \<Longrightarrow> live {length (k_items k)} (k_create p k) r \<longleftrightarrow> live {} k r \<or> r = length (k_items k)"
  by (auto simp: live_def is_open_def nth_append open_inv_def)

lemma not_live_beyond: "\<not> live {} k (length (k_items k))"
  by (simp add: live_def)

lemma create_approvals:
  assumes "open_inv k" and "approvals_inv {} k" and "\<And>a. approval_of p = Some a \<Longrightarrow> a \<notin> fst ` set (k_approvals k)"
  shows "approvals_inv {length (k_items k)} (k_create p k)"
proof -
  let ?n = "length (k_items k)"
  note l = live_create [OF assms(1), of p]
  have u: "\<And>r r' a. live {} k r \<Longrightarrow> live {} k r' \<Longrightarrow> approval_of (k_items k ! r) = Some a
      \<Longrightarrow> approval_of (k_items k ! r') = Some a \<Longrightarrow> r = r'"
    and m: "\<And>a. a \<in> fst ` set (k_approvals k) \<longleftrightarrow> (\<exists>r. live {} k r \<and> approval_of (k_items k ! r) = Some a)"
    using assms(2) unfolding approvals_inv_def by blast+
  have nth: "(k_items k @ [p]) ! r = (if r = ?n then p else k_items k ! r)" if "live {} k r \<or> r = ?n" for r
    using that by (auto simp: live_def nth_append)
  show ?thesis unfolding approvals_inv_def l
  proof (intro conjI allI impI)
    fix r r' a
    assume "live {} k r \<or> r = ?n" "live {} k r' \<or> r' = ?n"
      "approval_of (k_items (k_create p k) ! r) = Some a" "approval_of (k_items (k_create p k) ! r') = Some a"
    then show "r = r'" using u m assms(3) nth by (auto split: if_splits)
  next
    fix a
    have "a \<in> fst ` set (k_approvals (k_create p k))
        \<longleftrightarrow> a \<in> fst ` set (k_approvals k) \<or> approval_of p = Some a"
      by (auto split: option.splits)
    moreover have "(\<exists>r. (live {} k r \<or> r = ?n) \<and> approval_of (k_items (k_create p k) ! r) = Some a)
        \<longleftrightarrow> (\<exists>r. live {} k r \<and> approval_of (k_items (k_create p k) ! r) = Some a)
          \<or> approval_of (k_items (k_create p k) ! ?n) = Some a" by blast
    moreover have "k_items (k_create p k) ! r = k_items k ! r" if "live {} k r" for r
      using that by (auto simp: live_def nth_append)
    ultimately show "a \<in> fst ` set (k_approvals (k_create p k))
        \<longleftrightarrow> (\<exists>r. (live {} k r \<or> r = ?n) \<and> approval_of (k_items (k_create p k) ! r) = Some a)"
      using m by auto
  qed
qed

lemma create_leases:
  assumes "open_inv k" and "leases_inv {} k" and "p_lease p = length (lm_heap (k_leases k))"
  shows "leases_inv {length (k_items k)} (k_create p k)"
proof -
  let ?n = "length (k_items k)"
  note l = live_create [OF assms(1), of p]
  have t: "lm.tenant (k_leases k) (held {} k) approval_keys" using assms(2) by (simp add: leases_inv_def)
  note a = lm.acquire_law [OF lm.tenant_ok [OF t], of "lease_key p"]
  have nth: "(k_items k @ [p]) ! r = k_items k ! r" if "live {} k r" for r
    using that by (auto simp: live_def nth_append)
  have "held {?n} (k_create p k) = insert (lease_key p, length (lm_heap (k_leases k))) (held {} k)"
    using nth assms(3) by (auto simp: held_def l) force+
  then have "lm.tenant (k_leases (k_create p k)) (held {?n} (k_create p k)) approval_keys"
    using lm.tenant_acquire [OF t, of "lease_key p"] by simp
  moreover have "live {} k r" if "r < ?n" "p_lease (k_items k ! r) \<in> holders_in (k_leases (k_create p k)) key" for r key
  proof -
    have "p_lease (k_items k ! r) < length (lm_heap (k_leases k))"
      using assms(2) nth_address [OF that(1)] by (auto simp: leases_inv_def)
    then have "p_lease (k_items k ! r) \<in> holders_in (k_leases k) key"
      using that(2) a by (simp split: if_splits)
    then show ?thesis using assms(2) that(1) by (simp add: leases_inv_def)
  qed
  moreover have "p_lease p \<notin> addresses k"
    using assms(2,3) by (auto simp: leases_inv_def)
  ultimately show ?thesis using assms(2,3) a
    by (auto simp: leases_inv_def l nth_append less_Suc_eq addresses_def)
qed

lemma inv_create:
  assumes "core_inv {} k" and "p_lease p = length (lm_heap (k_leases k))" and "\<not> p_published p"
    and "\<And>a. approval_of p = Some a \<Longrightarrow> a \<notin> fst ` set (k_approvals k)"
  shows "core_inv {length (k_items k)} (k_create p k)"
proof -
  note i = core_invD [OF assms(1)]
  note l = live_create [OF i(1), of p]
  have "open_inv (k_create p k)" using i(1) by (fastforce simp: open_inv_def nth_append)
  moreover have "settled_inv {length (k_items k)} (k_create p k)"
    using i(2) by (auto simp: settled_inv_def l less_Suc_eq not_live_beyond split: if_splits)
  moreover have "frames_inv (k_create p k)"
    using i(3) assms(3) by (auto simp: frames_inv_def framed_def nth_append less_Suc_eq)
  ultimately show ?thesis
    using create_approvals [OF i(1,4) assms(4)] create_leases [OF i(1,5) assms(2)] by (simp add: core_inv_def)
qed

lemma inv_enter:
  assumes "core_inv {r} k" and "r < length (k_items k)" and "k_bound k"
    and "p_id (k_items k ! r) \<notin> fst ` set (k_open k)"
  shows "core_inv {} (k\<lparr>k_open := k_open k @ [(p_id (k_items k ! r), r)]\<rparr>)" (is "core_inv {} ?k")
proof -
  have l: "live {} ?k r' \<longleftrightarrow> live {r} k r'" for r'
    using assms(2) by (auto simp: live_def is_open_def)
  have "held {} ?k = held {r} k" by (simp add: held_def l)
  then show ?thesis using assms
    unfolding core_inv_def open_inv_def settled_inv_def frames_inv_def framed_def approvals_inv_def leases_inv_def addresses_def l
    by auto
qed

lemma inv_publish:
  assumes "core_inv {} k" and "is_open r k" and "\<not> p_published (k_items k ! r)"
    and p: "p = (k_items k ! r)\<lparr>p_published := True\<rparr>"
  shows "core_inv {} (k\<lparr>k_items := (k_items k)[r := p], k_frames := k_frames k @ [(r, request_frame p)]\<rparr>)"
    (is "core_inv {} ?k")
proof -
  note i = core_invD [OF assms(1)]
  note less = is_open_less [OF i(1) assms(2)]
  have pf [simp]: "p_lease p = p_lease (k_items k ! r)" "p_id p = p_id (k_items k ! r)"
    "p_details p = p_details (k_items k ! r)" "p_published p" "approval_of p = approval_of (k_items k ! r)"
    "lease_key p = lease_key (k_items k ! r)"
    by (simp_all add: p approval_of_def lease_key_def)
  have nth: "f ((k_items k)[r := p] ! r') = f (k_items k ! r')" if "f p = f (k_items k ! r)" for f :: "('a, 'b) pending \<Rightarrow> 'd" and r'
    using that by (cases "r' = r") (simp_all add: less)
  have map: "map p_lease ((k_items k)[r := p]) = map p_lease (k_items k)"
    by (rule nth_equalityI) (simp_all add: nth)
  have sets: "addresses ?k = addresses k"
    using arg_cong [OF map, of set] by (simp add: addresses_def)
  have l: "live {} ?k r' \<longleftrightarrow> live {} k r'" for r' by (simp add: live_def is_open_def nth)
  have h: "held {} ?k = held {} k"
    unfolding held_def l by (simp add: nth)
  have "outcomes_of r (k_settled k) = []"
    using i(2) assms(2) less by (auto simp: settled_inv_def live_def)
  moreover have "outcomes_of r (k_frames k) = []"
    using i(3) assms(3) by (simp add: frames_inv_def framed_def)
  ultimately have "frames_inv ?k"
    using i(3) less by (auto simp: frames_inv_def framed_def nth_list_update)
  moreover have "open_inv ?k" using i(1) by (simp add: open_inv_def nth)
  moreover have "approvals_inv {} ?k" using i(4) unfolding approvals_inv_def l by (simp add: nth)
  moreover have "settled_inv {} ?k" using i(2) unfolding settled_inv_def l by simp
  moreover have "leases_inv {} ?k"
    using i(5) unfolding leases_inv_def l h sets by (simp add: map nth)
  ultimately show ?thesis by (simp add: core_inv_def)
qed

subsection \<open>Bindings and the workspace's leases\<close>

lemma live_other: "k_items k' = k_items k \<Longrightarrow> k_open k' = k_open k \<Longrightarrow> live X k' r \<longleftrightarrow> live X k r"
  by (simp add: live_def is_open_def)

lemma inv_bound: "core_inv {} k \<Longrightarrow> k_open k = [] \<or> v \<Longrightarrow> core_inv {} (k\<lparr>k_bound := v\<rparr>)"
  unfolding core_inv_def open_inv_def settled_inv_def frames_inv_def framed_def approvals_inv_def
    leases_inv_def held_def addresses_def
  by (simp add: live_other [of "k\<lparr>k_bound := v\<rparr>" k]) blast

text \<open>A use of the lease manager that is not on an approval.\<close>

lemma inv_lease_use:
  assumes "core_inv {} k"
    and "lm.tenant leases (held {} k) approval_keys"
    and "\<And>p key. p \<in> set (k_items k) \<Longrightarrow> p_lease p \<in> holders_in leases key \<Longrightarrow> p_lease p \<in> holders_in (k_leases k) key"
    and "length (lm_heap (k_leases k)) \<le> length (lm_heap leases)"
    and "\<And>a. a \<in> set foreign \<Longrightarrow> a \<in> set (k_foreign k) \<or> length (lm_heap (k_leases k)) \<le> a \<and> a < length (lm_heap leases)"
  shows "core_inv {} (k\<lparr>k_leases := leases, k_foreign := foreign\<rparr>)" (is "core_inv {} ?k")
proof -
  note i = core_invD [OF assms(1)]
  have l: "live {} ?k r \<longleftrightarrow> live {} k r" for r by (simp add: live_def is_open_def)
  have "held {} ?k = held {} k" by (simp add: held_def l)
  moreover have "addresses ?k = addresses k" by (simp add: addresses_def)
  moreover have "live {} k r" if "r < length (k_items k)" "p_lease (k_items k ! r) \<in> holders_in leases key" for r key
    using assms(3) [OF nth_mem [OF that(1)] that(2)] i(5) that(1) by (simp add: leases_inv_def)
  moreover have old: "a < length (lm_heap (k_leases k))" if "a \<in> addresses k" for a
    using i(5) that by (simp add: leases_inv_def)
  then have "\<forall>a \<in> addresses k. a < length (lm_heap leases)"
    using assms(4) order.strict_trans2 by blast
  moreover have "a < length (lm_heap leases) \<and> a \<notin> addresses k" if "a \<in> set foreign" for a
    using assms(5) [OF that]
  proof
    assume "a \<in> set (k_foreign k)"
    then have "a < length (lm_heap (k_leases k)) \<and> a \<notin> addresses k" using i(5) by (simp add: leases_inv_def)
    then show ?thesis using assms(4) by simp
  qed (use old [of a] in auto)
  moreover have "distinct (map p_lease (k_items k))" using i(5) by (simp add: leases_inv_def)
  ultimately have "leases_inv {} ?k"
    using assms(2) by (simp add: leases_inv_def l)
  moreover have "open_inv ?k" using i(1) by (simp add: open_inv_def)
  moreover have "settled_inv {} ?k" using i(2) by (simp add: settled_inv_def l)
  moreover have "frames_inv ?k" using i(3) by (simp add: frames_inv_def framed_def)
  moreover have "approvals_inv {} ?k" using i(4) by (simp only: approvals_inv_def l) simp
  ultimately show ?thesis by (simp only: core_inv_def simp_thms)
qed

section \<open>Every operation keeps it\<close>

named_theorems silent

lemma core_of_upd_pending [silent]:
  assumes "\<And>p. pcore (f p) = pcore p"
  shows "core_of (upd_pending r f b) = core_of b"
proof -
  have "cores (upd_pending r f b) = cores b"
    using assms by (cases "r < length (b_heap b)")
      (auto simp: cores_def upd_pending_def map_update list_update_beyond intro!: nth_equalityI simp: nth_list_update)
  then show ?thesis by (simp add: core_of_def) (simp add: upd_pending_def)
qed

lemma core_of_upd_process [silent]: "core_of (upd_process n g b) = core_of b"
  by (simp add: core_of_def cores_def upd_process_def)

lemma core_of_silent [silent]:
  "core_of (abort_controller active e b) = core_of b" "core_of (set_phase n ph b) = core_of b"
  "core_of (settle_process n result b) = core_of b" "core_of (fst (add_process c b)) = core_of b"
  "core_of (generation_abort g reason b) = core_of b"
  by (simp_all add: abort_controller_def set_phase_def settle_process_def core_of_upd_process
      split: option.split)
    (simp_all add: core_of_def cores_def add_process_def generation_abort_def)

lemma core_of_simps [simp]:
  "k_items (core_of b) = cores b" "k_open (core_of b) = b_pending b" "k_approvals (core_of b) = b_approvals b"
  "k_leases (core_of b) = b_leases b" "k_bound (core_of b) = (b_workspace b \<noteq> None)"
  "k_frames (core_of b) = b_frames b" "k_settled (core_of b) = b_settled b"
  "k_foreign (core_of b) = b_foreign b"
  by (simp_all add: core_of_def)

lemma still_open:
  assumes "open_inv (core_of b)"
  shows "isStillPending r b \<longleftrightarrow> r < length (b_heap b) \<and> is_open r (core_of b)"
proof -
  have d: "distinct (map fst (b_pending b))" "\<And>x. x \<in> set (b_pending b) \<Longrightarrow> snd x < length (b_heap b)"
    using assms by (simp_all add: open_inv_def)
  show ?thesis
  proof (cases "r < length (b_heap b)")
    case True
    then show ?thesis using d(1) by (simp add: isStillPending_def is_open_def nth_cores)
  next
    case False
    then show ?thesis using d(2) by (auto simp: isStillPending_def dest: map_of_SomeD)
  qed
qed

text \<open>Every interaction entered is published, but for those in \<open>U\<close>.\<close>

definition shown :: "nat set \<Rightarrow> ('p, 'c, 'u) core \<Rightarrow> bool" where
  "shown U k \<longleftrightarrow> (\<forall>r. live {} k r \<longrightarrow> r \<notin> U \<longrightarrow> p_published (k_items k ! r))"

definition broker_inv :: "nat set \<Rightarrow> ('p, 'c, 'u, 'v) broker \<Rightarrow> bool" where
  "broker_inv U b \<longleftrightarrow> core_inv {} (core_of b) \<and> shown U (core_of b)"

lemma shown_close: "open_inv k \<Longrightarrow> is_open r k \<Longrightarrow> shown (insert r U) k \<Longrightarrow> shown U (k_close r res k)"
  using close_gone [of k r res] by (auto simp: shown_def gone_def)

lemma core_finish:
  assumes "isStillPending r b" and "r < length (b_heap b)"
  shows "core_of (fst (finish r res b)) = k_close r res (core_of b)"
proof -
  define b2 where "b2 = forget_approval (pending_at b r)
    (b\<lparr>b_pending := filter (\<lambda>x. fst x \<noteq> p_id (pending_at b r)) (b_pending b)\<rparr>)"
  have b2: "cores b2 = cores b" "b_pending b2 = filter (\<lambda>x. fst x \<noteq> p_id (pending_at b r)) (b_pending b)"
    "b_approvals b2 = filter (\<lambda>x. Some (fst x) \<noteq> approval_of (pending_at b r)) (b_approvals b)"
    "b_leases b2 = b_leases b" "b_workspace b2 = b_workspace b" "b_frames b2 = b_frames b"
    "b_settled b2 = b_settled b" "b_foreign b2 = b_foreign b"
    by (simp_all add: b2_def forget_approval_def approval_of_def cores_def split: details.split)
  define b3 where "b3 = upd_pending r (\<lambda>p. p\<lparr>p_timer := None, p_listener := False\<rparr>) b2"
  have b3: "core_of b3 = core_of b2"
    unfolding b3_def by (rule core_of_upd_pending) (simp add: pcore_def)
  define b5 where "b5 = abort_controller (p_active (pending_at b r))
      (case res of Inl e \<Rightarrow> e | Inr _ \<Rightarrow> interactionCancelled NoReason ''Interaction was resolved'')
      (b3\<lparr>b_leases := lease_detach (p_lease (pending_at b r)) (b_leases b3)\<rparr>)"
  have "core_of b5 = core_of (b3\<lparr>b_leases := lease_detach (p_lease (pending_at b r)) (b_leases b3)\<rparr>)"
    unfolding b5_def by (rule core_of_silent(1))
  also have "\<dots> = (core_of b3)\<lparr>k_leases := lease_detach (p_lease (pending_at b r)) (b_leases b3)\<rparr>"
    by (simp add: core_of_def cores_def)
  finally have b5: "core_of b5 = (core_of b2)\<lparr>k_leases := lease_detach (p_lease (pending_at b r)) (b_leases b)\<rparr>"
    using b3 b2(4) by (metis core_of_simps(4))
  have sel: "cores b5 = cores b2" "b_pending b5 = b_pending b2" "b_approvals b5 = b_approvals b2"
    "b_leases b5 = lease_detach (p_lease (pending_at b r)) (b_leases b)"
    "(b_workspace b5 \<noteq> None) = (b_workspace b2 \<noteq> None)" "b_frames b5 = b_frames b2" "b_settled b5 = b_settled b2"
    "b_foreign b5 = b_foreign b2"
    using arg_cong [OF b5, of k_items] arg_cong [OF b5, of k_open] arg_cong [OF b5, of k_approvals]
      arg_cong [OF b5, of k_leases] arg_cong [OF b5, of k_bound] arg_cong [OF b5, of k_frames]
      arg_cong [OF b5, of k_settled] arg_cong [OF b5, of k_foreign] by (simp_all del: not_None_eq)
  have unbound: "(b_workspace b5 = None) = (b_workspace b = None)" using sel(5) b2(5) by auto
  have "fst (finish r res b)
      = (let b6 = (if p_published (pending_at b r) \<and> b_workspace b5 \<noteq> None
           then b5\<lparr>b_frames := b_frames b5 @ [(r, terminal_frame res (pending_at b r))]\<rparr> else b5)
         in b6\<lparr>b_settled := b_settled b6 @ [(r, res)]\<rparr>)"
    using assms(1) by (simp add: finish_def Let_def b5_def b3_def b2_def)
  then show ?thesis
    by (simp add: Let_def core_of_def cores_def [of "_\<lparr>b_settled := _\<rparr>"] cores_def [of "_\<lparr>b_frames := _\<rparr>"]
        cores_def [symmetric] sel b2 unbound k_close_def k_drop_def k_settle_def nth_cores assms(2) del: not_None_eq)
qed

lemma inv_finish_own:
  assumes "broker_inv (insert r U) b" and "isStillPending r b"
  shows "broker_inv U (fst (finish r res b))"
proof -
  have o: "r < length (b_heap b)" "is_open r (core_of b)"
    using assms still_open core_invD(1) by (auto simp: broker_inv_def)
  have i: "core_inv {} (core_of b)" "shown (insert r U) (core_of b)" using assms(1) by (simp_all add: broker_inv_def)
  show ?thesis using inv_close [OF i(1) o(2)] shown_close [OF core_invD(1) [OF i(1)] o(2) i(2)]
    by (simp add: broker_inv_def core_finish [OF assms(2) o(1)])
qed

lemma inv_mono: "broker_inv U b \<Longrightarrow> broker_inv (insert r U) b"
  by (simp add: broker_inv_def shown_def)

lemma inv_finish: "broker_inv U b \<Longrightarrow> broker_inv U (fst (finish r res b))"
  by (cases "isStillPending r b") (blast intro: inv_finish_own inv_mono, simp add: finish_def)

lemma inv_silent [simp]:
  "(\<And>p. pcore (f p) = pcore p) \<Longrightarrow> broker_inv U (upd_pending r f b) = broker_inv U b"
  "broker_inv U (abort_controller active e b) = broker_inv U b" "broker_inv U (set_phase n ph b) = broker_inv U b"
  "broker_inv U (settle_process n result b) = broker_inv U b" "broker_inv U (fst (add_process c b)) = broker_inv U b"
  "broker_inv U (generation_abort g reason b) = broker_inv U b"
  "broker_inv U (b\<lparr>b_processes := ps\<rparr>) = broker_inv U b"
  by (simp_all add: broker_inv_def silent) (simp_all add: core_of_def cores_def)

lemma inv_settling [simp]:
  "broker_inv U b \<Longrightarrow> broker_inv U (fst (finishResolved r result b))"
  "broker_inv U b \<Longrightarrow> broker_inv U (fst (finishCancelled r e b))"
  by (simp_all add: finishResolved_def finishCancelled_def inv_finish)

text \<open>Operations made of finishing and silent updates.\<close>

lemma inv_runtime_abort: "broker_inv U b \<Longrightarrow> broker_inv U (runtime_abort r reason b)"
  by (simp add: runtime_abort_def Let_def)

lemma inv_cancelAll: "broker_inv U b \<Longrightarrow> broker_inv U (cancelAll e b)"
proof -
  have "broker_inv U b \<Longrightarrow> broker_inv U (fold (\<lambda>x b. fst (finishCancelled (snd x) e b)) xs b)"
    for xs :: "(string \<times> nat) list"
    by (induction xs arbitrary: b) simp_all
  then show "broker_inv U b \<Longrightarrow> broker_inv U (cancelAll e b)" by (simp add: cancelAll_def)
qed

lemma inv_cancelTurn: "broker_inv U b \<Longrightarrow> broker_inv U (fst (cancelTurn thread turn reason b))"
proof -
  have "broker_inv U b \<Longrightarrow> broker_inv U (fst (cancel_turn_loop thread turn e xs b n))" for e xs n
  proof (induction thread turn e xs b n rule: cancel_turn_loop.induct)
    case (2 thread turn e i r rest b n)
    then show ?case using inv_settling(2) [OF "2.prems", of r e]
      by (cases "finishCancelled r e b") simp
  qed simp
  then show "broker_inv U b \<Longrightarrow> broker_inv U (fst (cancelTurn thread turn reason b))" by (simp add: cancelTurn_def)
qed

lemma inv_scheduleDeadline: "broker_inv U b \<Longrightarrow> broker_inv U (scheduleDeadline env now r b)"
  by (simp add: scheduleDeadline_def Let_def)

lemma inv_cancel_if_aborted: "broker_inv U b \<Longrightarrow> broker_inv U (cancel_if_aborted r b)"
  by (simp add: cancel_if_aborted_def split: option.split)

lemma drop_stale_core: "core_of (fst (drop_stale r b)) = core_of b"
  by (simp add: drop_stale_def silent split: option.split)

lemma inv_submitCandidate: "broker_inv U b \<Longrightarrow> broker_inv U (fst (submitCandidate input b))"
proof -
  assume i: "broker_inv U b"
  have s: "broker_inv U (fst (start_process input r a c))" if "broker_inv U c" for r a and c :: "('a, 'b, 'c, 'd) broker"
    using that by (simp add: start_process_def Let_def)
  have "broker_inv U (fst (submit_pending input r b))" for r
  proof -
    have "broker_inv U (fst (drop_stale r b))" using i drop_stale_core [of r b] by (simp add: broker_inv_def)
    then show ?thesis using s [of "fst (drop_stale r b)" r]
      by (auto simp: submit_pending_def split: prod.split option.split) (metis fst_conv)+
  qed
  then show ?thesis using i by (simp add: submitCandidate_def split: sum.split option.split prod.split)
qed

lemma inv_responder_settles: "broker_inv U b \<Longrightarrow> broker_inv U (responder_settles n answer b)"
  by (simp add: responder_settles_def Let_def split: phase.split)

lemma inv_approve_start: "broker_inv U b \<Longrightarrow> broker_inv U (approve_start n b)"
  by (simp add: approve_start_def Let_def)

lemma inv_resume: "broker_inv U b \<Longrightarrow> broker_inv U (resume env n b)"
  by (simp add: resume_def process_candidate_def Let_def inv_approve_start
      split: phase.split sum.split candidate.split details.split)

lemma inv_local_settles: "broker_inv U b \<Longrightarrow> broker_inv U (local_settles n answer b)"
  by (simp add: local_settles_def decide_def Let_def split: phase.split sum.split option.split local_decision.split)

lemma inv_observe: "broker_inv U b \<Longrightarrow> broker_inv U (observe n b)"
  by (simp add: observe_def Let_def split: phase.split)

lemma inv_submitLegacy: "broker_inv U b \<Longrightarrow> broker_inv U (fst (submitLegacyApprovalCandidate parsed b))"
  by (simp add: submitLegacyApprovalCandidate_def inv_approve_start add_process_def
      split: sum.split option.split prod.split)

lemma core_discard:
  assumes "r < length (b_heap b)"
  shows "core_of (discard r e b) = k_settle r (Inl e) (k_drop r (core_of b))"
proof -
  define b1 where "b1 = upd_pending r (\<lambda>p. p\<lparr>p_listener := False\<rparr>) b"
  have b1: "core_of b1 = core_of b" unfolding b1_def by (rule core_of_upd_pending) simp
  define b3 where "b3 = forget_approval (pending_at b r)
    (b1\<lparr>b_leases := lease_detach (p_lease (pending_at b r)) (b_leases b1)\<rparr>)"
  have "core_of b3 = (core_of b1)
      \<lparr>k_approvals := filter (\<lambda>x. Some (fst x) \<noteq> approval_of (pending_at b r)) (k_approvals (core_of b1)),
       k_leases := lease_detach (p_lease (pending_at b r)) (k_leases (core_of b1))\<rparr>"
    by (simp add: b3_def forget_approval_def approval_of_def core_of_def cores_def split: details.split)
  also have "\<dots> = k_drop r (core_of b)"
    unfolding b1 by (simp add: k_drop_def nth_cores assms)
  finally have b3: "core_of b3 = k_drop r (core_of b)" .
  have "core_of (discard r e b) = k_settle r (Inl e) (core_of b3)"
    by (simp add: discard_def Let_def b3_def [symmetric] b1_def [symmetric])
      (simp add: core_of_def cores_def k_settle_def)
  then show ?thesis by (simp add: b3)
qed

text \<open>A pending interaction fresh from \<open>createPendingBase\<close>.\<close>

definition created :: "nat \<Rightarrow> ('p, 'c, 'u, 'v) broker \<Rightarrow> bool" where
  "created r b \<longleftrightarrow> core_inv {r} (core_of b) \<and> shown {} (core_of b) \<and> r < length (b_heap b)
     \<and> \<not> is_open r (core_of b) \<and> \<not> p_published (pending_at b r)"

lemma inv_discard_op: "created r b \<Longrightarrow> broker_inv {} (discard r e b)"
  using inv_discard [of r "core_of b" e]
  by (auto simp: created_def broker_inv_def core_discard nth_cores shown_def live_def is_open_def)

lemma inv_entered:
  assumes "created r b" and "b_workspace b \<noteq> None" and "map_of (b_pending b) (p_id (pending_at b r)) = None"
  shows "broker_inv {r} (b\<lparr>b_pending := b_pending b @ [(p_id (pending_at b r), r)]\<rparr>)
    \<and> isStillPending r (b\<lparr>b_pending := b_pending b @ [(p_id (pending_at b r), r)]\<rparr>)"
    (is "broker_inv _ ?b \<and> _")
proof -
  have r: "r < length (b_heap b)" using assms(1) by (simp add: created_def)
  have k: "core_of ?b = (core_of b)\<lparr>k_open := k_open (core_of b) @ [(p_id (k_items (core_of b) ! r), r)]\<rparr>"
    by (simp add: core_of_def cores_def) (simp add: pending_at_def r)
  have "core_inv {} (core_of ?b)"
    unfolding k by (rule inv_enter) (use assms r in \<open>auto simp: created_def nth_cores map_of_eq_None_iff\<close>)
  moreover have "shown {r} (core_of ?b)"
    using assms(1) unfolding k by (auto simp: created_def shown_def live_def is_open_def)
  moreover have "isStillPending r ?b"
    using assms(3) by (simp add: isStillPending_def pending_at_def map_add_Some_iff)
  ultimately show ?thesis by (simp add: broker_inv_def)
qed

text \<open>Publishing a pending interaction.\<close>

lemma inv_published:
  assumes "broker_inv {r} b" and "isStillPending r b" and "\<not> p_published (pending_at b r)"
  shows "broker_inv {} (let b1 = upd_pending r (\<lambda>p. p\<lparr>p_published := True\<rparr>) b
    in b1\<lparr>b_frames := b_frames b1 @ [(r, request_frame (pending_at b1 r))]\<rparr>)" (is "broker_inv _ ?b")
proof -
  have o: "r < length (b_heap b)" "is_open r (core_of b)"
    using assms(1,2) still_open core_invD(1) by (auto simp: broker_inv_def)
  define p where "p = (k_items (core_of b) ! r)\<lparr>p_published := True\<rparr>"
  have pc: "pcore ((b_heap b ! r)\<lparr>p_published := True\<rparr>) = p"
    using o(1) by (simp add: p_def nth_cores) (simp add: pcore_def pending_at_def)
  have "core_of ?b = (core_of b)\<lparr>k_items := (k_items (core_of b))[r := p],
      k_frames := k_frames (core_of b) @ [(r, request_frame p)]\<rparr>"
    by (simp add: core_of_def cores_def Let_def upd_pending_def map_update pc pending_at_def o(1))
      (simp add: pc [symmetric])
  moreover have "core_inv {} \<dots>"
    by (rule inv_publish) (use assms o in \<open>auto simp: broker_inv_def nth_cores p_def\<close>)
  moreover have "shown {} \<dots>"
    using assms(1) o(1)
    by (auto simp: broker_inv_def shown_def live_def is_open_def p_def nth_list_update split: if_splits)
  ultimately show ?thesis by (simp add: broker_inv_def)
qed

lemma inv_publish_request:
  assumes "broker_inv {r} b" and "isStillPending r b" and "\<not> p_published (pending_at b r)"
  shows "broker_inv {} (publish_request pub r b)"
  using inv_published [OF assms] inv_finish_own [OF assms(1,2)]
  by (auto simp: publish_request_def finishCancelled_def Let_def inv_runtime_abort
      split: publish_outcome.split option.split)

lemma inv_activatePending: "created r b \<Longrightarrow> broker_inv {} (activatePending env now pub r b)"
proof -
  assume c: "created r b"
  let ?b = "b\<lparr>b_pending := b_pending b @ [(p_id (pending_at b r), r)]\<rparr>"
  have p: "pending_at ?b r = pending_at b r" by (simp add: pending_at_def)
  show ?thesis
  proof (cases "requireWorkspace b")
    case (Inl e)
    then show ?thesis by (simp add: activatePending_def inv_discard_op c)
  next
    case (Inr w)
    then have w: "b_workspace b \<noteq> None" by (auto simp: requireWorkspace_def split: if_splits option.splits)
    show ?thesis
    proof (cases "map_of (b_pending b) (p_id (pending_at b r))")
      case None
      have e: "broker_inv {r} ?b" "isStillPending r ?b" using inv_entered [OF c w None] by blast+
      have "\<not> p_published (pending_at ?b r)" using c p by (simp add: created_def)
      note i = inv_publish_request [OF e this, of pub]
      have "broker_inv {} (cancel_if_aborted r ?b)" if "p_runtime (pending_at b r) \<noteq> None"
        using that inv_finish_own [OF e] by (auto simp: cancel_if_aborted_def finishCancelled_def p)
      then show ?thesis
        using None Inr c i
        by (cases pub) (simp_all add: activatePending_def Let_def inv_discard_op inv_cancel_if_aborted inv_scheduleDeadline)
    qed (use Inr c in \<open>simp add: activatePending_def inv_discard_op\<close>)
  qed
qed

subsection \<open>Registration and the rest\<close>

lemma core_create:
  assumes "lease_acquire (lease_key p) (b_leases b) = (leases, lease)"
  shows "core_of (b\<lparr>b_leases := leases, b_heap := b_heap b @ [p],
      b_approvals := b_approvals b @ (case approval_of p of None \<Rightarrow> [] | Some a \<Rightarrow> [(a, p_id p)])\<rparr>)
    = k_create (pcore p) (core_of b)"
  using assms by (simp add: k_create_def core_of_def cores_def split: option.split)

lemma created_pending:
  assumes "broker_inv {} b" and "lease_acquire (lease_key p) (b_leases b) = (leases, lease)"
    and "p_lease p = lease" and "\<not> p_published p"
    and "\<And>a. approval_of p = Some a \<Longrightarrow> map_of (b_approvals b) a = None"
  shows "created (length (b_heap b)) (b\<lparr>b_leases := leases, b_heap := b_heap b @ [p],
      b_approvals := b_approvals b @ (case approval_of p of None \<Rightarrow> [] | Some a \<Rightarrow> [(a, p_id p)])\<rparr>)"
    (is "created ?n ?b")
proof -
  have i: "core_inv {} (core_of b)" "shown {} (core_of b)" using assms(1) by (simp_all add: broker_inv_def)
  have t: "manager_ok (b_leases b)"
    using core_invD(5) [OF i(1)] lm.tenant_ok by (auto simp: leases_inv_def)
  have k: "core_of ?b = k_create (pcore p) (core_of b)"
    by (rule core_create [OF assms(2)])
  have "lease = length (lm_heap (b_leases b))"
    using lm.acquire_law [OF t, of "lease_key p"] assms(2) by simp
  then have "core_inv {?n} (core_of ?b)"
    using inv_create [OF i(1), of "pcore p"] assms(3,4,5) unfolding k by (simp add: map_of_eq_None_iff)
  moreover have o: "open_inv (core_of b)" by (rule core_invD [OF i(1)])
  then have "\<not> is_open ?n (core_of ?b)" "shown {} (core_of ?b)"
    using i(2) unfolding k
    by (auto simp: shown_def live_def is_open_def open_inv_def nth_append)
  ultimately show ?thesis using assms(4) by (simp add: created_def pending_at_def nth_append)
qed

lemma inv_registerApproval:
  assumes "broker_inv {} b" shows "broker_inv {} (fst (registerApproval env parsed drawn signal now pub b))"
proof (cases parsed)
  case (Inr params)
  let ?a = "rp_approval params"
  let ?expires = "case rp_expires params of Some t \<Rightarrow> t | None \<Rightarrow> env_to_iso env (now + env_legacy_timeout env)"
  obtain leases lease where l: "lease_acquire (Lease ApprovalLease (ap_id ?a)) (b_leases b) = (leases, lease)"
    by (cases "lease_acquire (Lease ApprovalLease (ap_id ?a)) (b_leases b)")
  let ?p = "\<lambda>i. \<lparr>p_id = i, p_thread = rp_thread params, p_turn = ap_turn ?a, p_expires = ?expires,
    p_details = ApprovalDetails ?a, p_runtime = signal, p_listener = True, p_lease = lease,
    p_timer = None, p_published = False, p_active = None\<rparr>"
  show ?thesis
  proof (cases "map_of (b_approvals b) (ap_id ?a)")
    case None
    have "created (length (b_heap b)) (b\<lparr>b_leases := leases, b_heap := b_heap b @ [?p i],
        b_approvals := b_approvals b @ [(ap_id ?a, i)]\<rparr>)" for i
      using created_pending [OF assms, of "?p i" leases lease] l None
      by (simp add: lease_key_def approval_of_def)
    note act = inv_activatePending [OF this]
    show ?thesis
    proof (cases "case rp_interaction params of Some i \<Rightarrow> Inr i | None \<Rightarrow> nextInteractionId drawn b")
      case (Inr i)
      show ?thesis using \<open>parsed = Inr params\<close> Inr None l act [of env now pub i]
        by (simp add: registerApproval_def createPendingBase_def Let_def)
    qed (use \<open>parsed = Inr params\<close> assms in \<open>simp add: registerApproval_def\<close>)
  qed (use Inr assms in \<open>simp add: registerApproval_def Let_def split: option.split sum.split\<close>)
qed (simp add: registerApproval_def assms)

lemma inv_registerUserInput:
  assumes "broker_inv {} b" shows "broker_inv {} (fst (registerUserInput env parsed signal now pub b))"
proof (cases parsed)
  case (Inr params)
  obtain leases lease where l: "lease_acquire (Lease TurnLease (ip_turn params)) (b_leases b) = (leases, lease)"
    by (cases "lease_acquire (Lease TurnLease (ip_turn params)) (b_leases b)")
  let ?p = "\<lparr>p_id = ip_interaction params, p_thread = ip_thread params, p_turn = ip_turn params,
    p_expires = ip_expires params, p_details = InputDetails params, p_runtime = signal, p_listener = True,
    p_lease = lease, p_timer = None, p_published = False, p_active = None\<rparr>"
  have "created (length (b_heap b)) (b\<lparr>b_leases := leases, b_heap := b_heap b @ [?p]\<rparr>)"
    using created_pending [OF assms, of "?p" leases lease] l by (simp add: lease_key_def approval_of_def)
  from inv_activatePending [OF this] show ?thesis using Inr l
    by (simp add: registerUserInput_def createPendingBase_def)
qed (simp add: registerUserInput_def assms)

lemma pending_finish:
  assumes "broker_inv U b"
  shows "set (b_pending (fst (finish r res b))) = {x \<in> set (b_pending b). snd x \<noteq> r}"
proof -
  have o: "open_inv (core_of b)" using assms core_invD(1) by (auto simp: broker_inv_def)
  have id: "p_id (pending_at b (snd x)) = fst x \<and> snd x < length (b_heap b)" if "x \<in> set (b_pending b)" for x
    using o that nth_cores [of "snd x" b] by (auto simp: open_inv_def)
  have d: "distinct (map fst (b_pending b))" using o by (simp add: open_inv_def)
  show ?thesis
  proof (cases "isStillPending r b")
    case True
    then have m: "(p_id (pending_at b r), r) \<in> set (b_pending b)"
      by (simp add: isStillPending_def map_of_SomeD)
    have "b_pending (fst (finish r res b)) = filter (\<lambda>x. fst x \<noteq> p_id (pending_at b r)) (b_pending b)"
      using arg_cong [OF core_finish [OF True, of res], of k_open] id [OF m] by (simp add: nth_cores)
    moreover have "fst x \<noteq> p_id (pending_at b r) \<longleftrightarrow> snd x \<noteq> r" if "x \<in> set (b_pending b)" for x
      using id [OF that] eq_key_imp_eq_value [OF d, of "fst x" "snd x" r] that m by auto
    ultimately show ?thesis by auto
  next
    case False
    have "snd x \<noteq> r" if "x \<in> set (b_pending b)" for x
      using False id [OF that] that d by (auto simp: isStillPending_def)
    then show ?thesis using False by (auto simp: finish_def)
  qed
qed

lemma cancelAll_none: "broker_inv U b \<Longrightarrow> b_pending (cancelAll e b) = []"
proof -
  have "broker_inv U b \<Longrightarrow> set (b_pending (fold (\<lambda>x b. fst (finishCancelled (snd x) e b)) xs b))
      = {x \<in> set (b_pending b). snd x \<notin> snd ` set xs}" for xs :: "(string \<times> nat) list"
  proof (induction xs arbitrary: b)
    case (Cons x xs)
    have "broker_inv U (fst (finishCancelled (snd x) e b))" using Cons.prems by simp
    from Cons.IH [OF this] pending_finish [OF Cons.prems, of "snd x" "Inl e"]
    show ?case by (auto simp: finishCancelled_def)
  qed simp
  from this [of "b_pending b"] show "broker_inv U b \<Longrightarrow> b_pending (cancelAll e b) = []"
    by (simp add: cancelAll_def) (metis (no_types, lifting) image_eqI empty_Collect_eq set_empty)
qed

lemma inv_unbound:
  assumes "broker_inv {} b" and "b_pending b = [] \<or> w \<noteq> None"
  shows "broker_inv {} (b\<lparr>b_workspace := w\<rparr>)"
proof -
  have k: "core_of (b\<lparr>b_workspace := w\<rparr>) = (core_of b)\<lparr>k_bound := (w \<noteq> None)\<rparr>"
    by (simp add: core_of_def cores_def)
  have "core_inv {} (core_of (b\<lparr>b_workspace := w\<rparr>))"
    unfolding k by (rule inv_bound) (use assms in \<open>simp_all add: broker_inv_def\<close>)
  moreover have "shown {} (core_of (b\<lparr>b_workspace := w\<rparr>))"
    using assms(1) unfolding k by (simp add: broker_inv_def shown_def live_def is_open_def)
  ultimately show ?thesis by (simp add: broker_inv_def)
qed

lemma inv_fields [simp]:
  "broker_inv U (b\<lparr>b_closed := c\<rparr>) = broker_inv U b" "broker_inv U (b\<lparr>b_bindings := n\<rparr>) = broker_inv U b"
  by (simp_all add: broker_inv_def core_of_def cores_def)

lemma inv_close_broker: "broker_inv {} b \<Longrightarrow> broker_inv {} (close_broker reason b)"
  by (auto simp: close_broker_def intro!: inv_unbound inv_cancelAll intro: cancelAll_none)

lemma inv_unbind: "broker_inv {} b \<Longrightarrow> broker_inv {} (unbind n b)"
  by (auto simp: unbind_def intro!: inv_unbound inv_cancelAll intro: cancelAll_none split: option.split)

lemma inv_bindWorkspace: "broker_inv {} b \<Longrightarrow> broker_inv {} (fst (bindWorkspace w b))"
  using inv_unbound [of b "Some (b_bindings b, w)"]
  by (simp add: bindWorkspace_def)

text \<open>Steps of the workspace on other leases than approvals.\<close>

fun spares_approvals :: "('p, 'c, 'v) broker_event \<Rightarrow> bool" where
  "spares_approvals (Workspace_Acquire (Lease kind i)) = (kind \<noteq> ApprovalLease)"
| "spares_approvals (Workspace_Release (Lease kind i)) = (kind \<noteq> ApprovalLease)"
| "spares_approvals _ = True"

lemma inv_foreign:
  assumes "broker_inv {} b" and "core_inv {} ((core_of b)\<lparr>k_leases := leases, k_foreign := foreign\<rparr>)"
  shows "broker_inv {} (b\<lparr>b_leases := leases, b_foreign := foreign\<rparr>)"
proof -
  have k: "core_of (b\<lparr>b_leases := leases, b_foreign := foreign\<rparr>)
      = (core_of b)\<lparr>k_leases := leases, k_foreign := foreign\<rparr>"
    by (simp add: core_of_def cores_def)
  show ?thesis unfolding broker_inv_def k using assms
    by (simp add: broker_inv_def shown_def live_def is_open_def)
qed

lemma inv_workspace_leases:
  assumes "broker_inv {} b"
  shows "kind \<noteq> ApprovalLease \<Longrightarrow> broker_inv {} (broker_step env (Workspace_Acquire (Lease kind i)) b)"
    and "broker_inv {} (broker_step env (Workspace_Detach j) b)"
    and "kind \<noteq> ApprovalLease \<Longrightarrow> broker_inv {} (broker_step env (Workspace_Release (Lease kind i)) b)"
proof -
  let ?k = "core_of b"
  have i: "core_inv {} ?k" using assms by (simp add: broker_inv_def)
  have l: "leases_inv {} ?k" by (rule core_invD [OF i])
  then have t: "lm.tenant (b_leases b) (held {} ?k) approval_keys" by (simp add: leases_inv_def)
  note ok = lm.tenant_ok [OF t]
  have other: "p_lease p \<noteq> length (lm_heap (b_leases b))" if "p \<in> set (cores b)" for p
    using l that by (auto simp: leases_inv_def addresses_def)
  show "broker_inv {} (broker_step env (Workspace_Acquire (Lease kind i)) b)" if "kind \<noteq> ApprovalLease"
  proof -
    obtain leases a where a: "lease_acquire (Lease kind i) (b_leases b) = (leases, a)"
      by (cases "lease_acquire (Lease kind i) (b_leases b)")
    have k: "Lease kind i \<notin> approval_keys" using that by (auto simp: approval_keys_def)
    note q = lm.acquire_law [OF ok, of "Lease kind i"]
    have "core_inv {} (?k\<lparr>k_leases := leases, k_foreign := b_foreign b @ [a]\<rparr>)"
      by (rule inv_lease_use [OF i])
        (use lm.tenant_other_acquire [OF t k] q other a in \<open>auto split: if_splits\<close>)
    then show ?thesis using inv_foreign [OF assms] a by simp
  qed
  show "broker_inv {} (broker_step env (Workspace_Detach j) b)"
  proof (cases "j < length (b_foreign b)")
    case True
    have "b_foreign b ! j \<notin> addresses ?k" using l True by (simp add: leases_inv_def)
    then have f: "\<forall>k. (k, b_foreign b ! j) \<notin> held {} ?k"
      by (auto simp: held_def addresses_def live_def)
    note q = lm.detach_law [OF ok, of "b_foreign b ! j"]
    have "core_inv {} (?k\<lparr>k_leases := lease_detach (b_foreign b ! j) (b_leases b), k_foreign := b_foreign b\<rparr>)"
      by (rule inv_lease_use [OF i]) (use lm.tenant_other_detach [OF t f] q in auto)
    from inv_foreign [OF assms this] show ?thesis using True by simp
  qed (simp add: assms)
  show "broker_inv {} (broker_step env (Workspace_Release (Lease kind i)) b)" if "kind \<noteq> ApprovalLease"
  proof -
    have k: "Lease kind i \<notin> approval_keys" using that by (auto simp: approval_keys_def)
    note q = lm.release_law [OF ok, of "Lease kind i"]
    have "core_inv {} (?k\<lparr>k_leases := fst (lease_release (Lease kind i) (b_leases b)), k_foreign := b_foreign b\<rparr>)"
      by (rule inv_lease_use [OF i])
        (use lm.tenant_other_release [OF t k] q in \<open>auto split: if_splits\<close>)
    from inv_foreign [OF assms this] show ?thesis by simp
  qed
qed

lemma inv_newBroker: "broker_inv {} newBroker"
  using newLeaseManager_ok
  by (simp add: broker_inv_def core_inv_def open_inv_def settled_inv_def frames_inv_def framed_def
      approvals_inv_def leases_inv_def addresses_def lm.tenant_def held_def shown_def live_def is_open_def
      core_of_def cores_def newBroker_def)

lemma inv_step: "broker_inv {} b \<Longrightarrow> spares_approvals st \<Longrightarrow> broker_inv {} (broker_step env st b)"
proof (induction st rule: spares_approvals.induct)
  case (1 kind i)
  then show ?case using inv_workspace_leases(1) by fastforce
next
  case (2 kind i)
  then show ?case using inv_workspace_leases(3) by fastforce
qed (simp_all add: inv_registerApproval inv_registerUserInput inv_runtime_abort timer_fires_def
    inv_scheduleDeadline inv_submitCandidate inv_submitLegacy inv_responder_settles inv_resume
    inv_local_settles inv_observe inv_cancelTurn inv_bindWorkspace inv_unbind inv_close_broker
    inv_workspace_leases(2) [simplified])

lemma inv_run: "list_all spares_approvals steps \<Longrightarrow> broker_inv {} (run_broker env steps)"
proof -
  have "broker_inv {} b \<Longrightarrow> list_all spares_approvals steps \<Longrightarrow> broker_inv {} (fold (broker_step env) steps b)"
    for b
    by (induction steps arbitrary: b) (simp_all add: inv_step)
  then show "list_all spares_approvals steps \<Longrightarrow> broker_inv {} (run_broker env steps)"
    by (simp add: run_broker_def inv_newBroker)
qed

section \<open>Who approved\<close>

text \<open>What a process keeps while others run: everything but the abort reason of its controller.\<close>

definition pview :: "'v process \<Rightarrow> 'v process" where
  "pview c = c\<lparr>c_aborted := None\<rparr>"

lemma pview_eq:
  "pview c = pview c' \<Longrightarrow> c_pending c = c_pending c' \<and> c_generation c = c_generation c'
     \<and> c_candidate c = c_candidate c' \<and> c_phase c = c_phase c'"
  unfolding pview_def by (cases c; cases c') simp

text \<open>Changes that approve nothing and leave every process where it stands.\<close>

definition quiet :: "('p, 'c, 'u, 'v) broker \<Rightarrow> ('p, 'c, 'u, 'v) broker \<Rightarrow> bool" where
  "quiet b b' \<longleftrightarrow> map pview (b_processes b') = map pview (b_processes b)
     \<and> set (b_settled b) \<subseteq> set (b_settled b')
     \<and> (\<forall>r. (r, Inr Approved) \<in> set (b_settled b') \<longrightarrow> (r, Inr Approved) \<in> set (b_settled b))"

lemma quiet_refl [simp]: "quiet b b"
  by (simp add: quiet_def)

lemma quiet_trans: "quiet b b' \<Longrightarrow> quiet b' b'' \<Longrightarrow> quiet b b''"
  by (auto simp: quiet_def)

lemma quiet_same: "b_processes b' = b_processes b \<Longrightarrow> b_settled b' = b_settled b \<Longrightarrow> quiet a b' = quiet a b"
  by (simp add: quiet_def)

lemma quiet_fields [simp]:
  "quiet a (upd_pending r f b) = quiet a b" "quiet a (forget_approval p b) = quiet a b"
  "quiet a (generation_abort g reason b) = quiet a b"
  "quiet a (b\<lparr>b_pending := x1\<rparr>) = quiet a b" "quiet a (b\<lparr>b_leases := x2\<rparr>) = quiet a b"
  "quiet a (b\<lparr>b_frames := x3\<rparr>) = quiet a b" "quiet a (b\<lparr>b_heap := x4\<rparr>) = quiet a b"
  "quiet a (b\<lparr>b_approvals := x5\<rparr>) = quiet a b" "quiet a (b\<lparr>b_workspace := x6\<rparr>) = quiet a b"
  "quiet a (b\<lparr>b_closed := x7\<rparr>) = quiet a b" "quiet a (b\<lparr>b_bindings := x8\<rparr>) = quiet a b"
  "quiet a (b\<lparr>b_foreign := x9\<rparr>) = quiet a b"
  by (rule quiet_same; simp add: upd_pending_def forget_approval_def generation_abort_def split: details.split)+

lemma quiet_abort_controller [simp]: "quiet a (abort_controller active e b) = quiet a b"
proof (cases active)
  case (Some n)
  have "map pview (b_processes (abort_controller active e b)) = map pview (b_processes b)"
    using Some by (cases "n < length (b_processes b)")
      (auto simp: abort_controller_def upd_process_def pview_def map_update list_update_beyond
        intro!: nth_equalityI simp: nth_list_update)
  moreover have "b_settled (abort_controller active e b) = b_settled b"
    using Some by (simp add: abort_controller_def upd_process_def)
  ultimately show ?thesis by (simp add: quiet_def)
qed (simp add: abort_controller_def)

lemma quiet_settled: "quiet a b \<Longrightarrow> res \<noteq> Inr Approved \<Longrightarrow> quiet a (b\<lparr>b_settled := b_settled b @ [(r, res)]\<rparr>)"
  by (auto simp: quiet_def)

lemma quiet_finish [simp]: "quiet a b \<Longrightarrow> res \<noteq> Inr Approved \<Longrightarrow> quiet a (fst (finish r res b))"
  by (simp add: finish_def Let_def quiet_settled)

lemma quiet_settling [simp]:
  "quiet a b \<Longrightarrow> quiet a (fst (finishCancelled r e b))"
  "quiet a b \<Longrightarrow> result \<noteq> Approved \<Longrightarrow> quiet a (fst (finishResolved r result b))"
  by (simp_all add: finishCancelled_def finishResolved_def)

lemma quiet_runtime_abort [simp]: "quiet a b \<Longrightarrow> quiet a (runtime_abort r reason b)"
  by (simp add: runtime_abort_def Let_def)

lemma quiet_cancelAll [simp]: "quiet a b \<Longrightarrow> quiet a (cancelAll e b)"
proof -
  have "quiet a b \<Longrightarrow> quiet a (fold (\<lambda>x b. fst (finishCancelled (snd x) e b)) xs b)" for xs :: "(string \<times> nat) list"
    by (induction xs arbitrary: b) simp_all
  then show "quiet a b \<Longrightarrow> quiet a (cancelAll e b)" by (simp add: cancelAll_def)
qed

lemma quiet_cancelTurn [simp]: "quiet a b \<Longrightarrow> quiet a (fst (cancelTurn thread turn reason b))"
proof -
  have "quiet a b \<Longrightarrow> quiet a (fst (cancel_turn_loop thread turn e xs b n))" for e xs n
  proof (induction thread turn e xs b n rule: cancel_turn_loop.induct)
    case (2 thread turn e i r rest b n)
    then show ?case using quiet_settling(1) [OF "2.prems", of r e]
      by (cases "finishCancelled r e b") simp
  qed simp
  then show "quiet a b \<Longrightarrow> quiet a (fst (cancelTurn thread turn reason b))" by (simp add: cancelTurn_def)
qed

lemma quiet_activation [simp]:
  "quiet a b \<Longrightarrow> quiet a (discard r e b)"
  "quiet a b \<Longrightarrow> quiet a (scheduleDeadline env now r b)"
  "quiet a b \<Longrightarrow> quiet a (cancel_if_aborted r b)"
  "quiet a b \<Longrightarrow> quiet a (publish_request pub r b)"
  by (simp_all add: discard_def Let_def quiet_settled scheduleDeadline_def cancel_if_aborted_def
      publish_request_def split: option.split publish_outcome.split)

lemma quiet_activatePending [simp]: "quiet a b \<Longrightarrow> quiet a (activatePending env now pub r b)"
  by (simp add: activatePending_def Let_def split: sum.split publish_outcome.split)

lemma quiet_register [simp]:
  "quiet b (fst (registerApproval env parsed drawn signal now pub b))"
  "quiet b (fst (registerUserInput env params signal now pub b))"
  by (simp_all add: registerApproval_def registerUserInput_def createPendingBase_def Let_def
      split: sum.split option.split prod.split)

lemma quiet_lifecycle [simp]:
  "quiet b (close_broker reason b)" "quiet b (unbind n b)" "quiet b (fst (bindWorkspace w b))"
  by (simp_all add: close_broker_def unbind_def bindWorkspace_def split: option.split)

text \<open>What has happened to a process by the time it stands where it does.\<close>

definition authorized_by :: "('p, 'c, 'v) broker_event list \<Rightarrow> nat \<Rightarrow> 'v process \<Rightarrow> bool" where
  "authorized_by steps n c \<longleftrightarrow> c_generation c = None \<or> Responder_Settles n (Inr True) \<in> set steps"

definition process_ok ::
  "('p, 'c, 'v) broker_event list \<Rightarrow> (nat \<times> 'u outcome) set \<Rightarrow> nat \<Rightarrow> 'v process \<Rightarrow> bool" where
  "process_ok steps settled n c \<longleftrightarrow>
     (case c_phase c of
        Authorizing _ \<Rightarrow> True
      | Authorized \<Rightarrow> authorized_by steps n c
      | Deciding _ \<Rightarrow> authorized_by steps n c \<and> c_candidate c = Inr Approve
      | Finished result \<Rightarrow> result = Inr () \<longrightarrow> (\<exists>res. (c_pending c, Inr res) \<in> settled)
      | Observed result \<Rightarrow> result = Inr () \<longrightarrow> (\<exists>res. (c_pending c, Inr res) \<in> settled))"

definition granted :: "('p, 'c, 'v) broker_event list \<Rightarrow> nat \<Rightarrow> nat \<Rightarrow> 'v process \<Rightarrow> bool" where
  "granted steps r n c \<longleftrightarrow> c_pending c = r \<and> c_candidate c = Inr Approve \<and> authorized_by steps n c
     \<and> Local_Settles n (Inr (Some Allow)) \<in> set steps"

definition approvals_granted ::
  "('p, 'c, 'v) broker_event list \<Rightarrow> ('p, 'c, 'u, 'v) broker \<Rightarrow> bool" where
  "approvals_granted steps b \<longleftrightarrow>
     (\<forall>n < length (b_processes b). process_ok steps (set (b_settled b)) n (process_at b n))
     \<and> (\<forall>r. (r, Inr Approved) \<in> set (b_settled b)
          \<longrightarrow> (\<exists>n < length (b_processes b). granted steps r n (process_at b n)))"

lemma process_ok_pview:
  "process_ok steps S n c \<Longrightarrow> pview c' = pview c \<Longrightarrow> S \<subseteq> S' \<Longrightarrow> process_ok steps S' n c'"
  using pview_eq [of c' c] by (auto simp: process_ok_def authorized_by_def split: phase.splits)

lemma granted_pview: "granted steps r n c \<Longrightarrow> pview c' = pview c \<Longrightarrow> granted steps r n c'"
  using pview_eq [of c' c] by (simp add: granted_def authorized_by_def)

lemma quiet_process:
  "quiet b b' \<Longrightarrow> length (b_processes b') = length (b_processes b)
     \<and> (n < length (b_processes b) \<longrightarrow> pview (process_at b' n) = pview (process_at b n))"
  unfolding quiet_def process_at_def by (metis length_map nth_map)

lemma granted_quiet:
  assumes "approvals_granted steps b" and "quiet b b'" shows "approvals_granted steps b'"
proof -
  have S: "set (b_settled b) \<subseteq> set (b_settled b')"
    "\<And>r. (r, Inr Approved) \<in> set (b_settled b') \<Longrightarrow> (r, Inr Approved) \<in> set (b_settled b)"
    using assms(2) by (auto simp: quiet_def)
  note q = quiet_process [OF assms(2)]
  have "process_ok steps (set (b_settled b')) n (process_at b' n)" if "n < length (b_processes b')" for n
  proof (rule process_ok_pview [OF _ _ S(1)])
    show "process_ok steps (set (b_settled b)) n (process_at b n)"
      using assms(1) that q by (simp add: approvals_granted_def)
  qed (use q that in simp)
  moreover have "\<exists>n < length (b_processes b'). granted steps r n (process_at b' n)"
    if "(r, Inr Approved) \<in> set (b_settled b')" for r
    using assms(1) S(2) [OF that] q granted_pview unfolding approvals_granted_def by metis
  ultimately show ?thesis by (simp add: approvals_granted_def)
qed

lemma authorized_by_more: "authorized_by steps n c \<Longrightarrow> authorized_by (steps @ [st]) n c"
  by (auto simp: authorized_by_def)

lemma granted_more: "approvals_granted steps b \<Longrightarrow> approvals_granted (steps @ [st]) b"
proof -
  assume a: "approvals_granted steps b"
  have "process_ok (steps @ [st]) S n c" if "process_ok steps S n c" for S n c
    using that by (auto simp: process_ok_def authorized_by_more split: phase.splits)
  moreover have "granted (steps @ [st]) r n c" if "granted steps r n c" for r n c
    using that by (auto simp: granted_def authorized_by_more)
  ultimately show ?thesis using a unfolding approvals_granted_def by metis
qed

lemma process_at_phase:
  "n < length (b_processes b) \<Longrightarrow> process_at (set_phase n ph b) m
     = (if m = n then (process_at b n)\<lparr>c_phase := ph\<rparr> else process_at b m)"
  by (simp add: process_at_def set_phase_def upd_process_def nth_list_update)

lemma set_phase_fields [simp]:
  "b_settled (set_phase n ph b) = b_settled b" "length (b_processes (set_phase n ph b)) = length (b_processes b)"
  by (simp_all add: set_phase_def upd_process_def)

lemma granted_phase:
  assumes "approvals_granted steps b" and "n < length (b_processes b)"
    and "process_ok steps (set (b_settled b)) n ((process_at b n)\<lparr>c_phase := ph\<rparr>)"
  shows "approvals_granted steps (set_phase n ph b)"
proof -
  have "granted steps r m (process_at (set_phase n ph b) m) = granted steps r m (process_at b m)" for r m
    using assms(2) by (simp add: process_at_phase granted_def authorized_by_def)
  then show ?thesis using assms by (simp add: approvals_granted_def process_at_phase)
qed

lemma granted_add:
  assumes "approvals_granted steps b" and "process_ok steps (set (b_settled b)) (length (b_processes b)) c"
  shows "approvals_granted steps (fst (add_process c b))"
proof -
  have p: "process_at (fst (add_process c b)) m = (if m = length (b_processes b) then c else process_at b m)"
    if "m < Suc (length (b_processes b))" for m
    using that by (simp add: add_process_def process_at_def nth_append)
  have l: "length (b_processes (fst (add_process c b))) = Suc (length (b_processes b))"
    "b_settled (fst (add_process c b)) = b_settled b"
    by (simp_all add: add_process_def)
  show ?thesis unfolding approvals_granted_def l
  proof (intro conjI allI impI)
    fix n assume "n < Suc (length (b_processes b))"
    then show "process_ok steps (set (b_settled b)) n (process_at (fst (add_process c b)) n)"
      using assms by (cases "n = length (b_processes b)") (simp_all add: p approvals_granted_def)
  next
    fix r assume "(r, Inr Approved) \<in> set (b_settled b)"
    then obtain n where "n < length (b_processes b)" "granted steps r n (process_at b n)"
      using assms(1) by (auto simp: approvals_granted_def)
    then show "\<exists>n < Suc (length (b_processes b)). granted steps r n (process_at (fst (add_process c b)) n)"
      using p [of n] by (intro exI [of _ n]) simp
  qed
qed

text \<open>Every step keeps it.\<close>

lemma granted_upd_pending: "approvals_granted steps b \<Longrightarrow> approvals_granted steps (upd_pending r f b)"
  by (erule granted_quiet) simp

lemma granted_start: "approvals_granted steps b \<Longrightarrow> approvals_granted steps (fst (start_process input r a b))"
  by (simp add: start_process_def Let_def granted_add process_ok_def)

lemma granted_submit:
  assumes "approvals_granted steps b" shows "approvals_granted steps (fst (submitCandidate input b))"
proof -
  have "approvals_granted steps (fst (submit_pending input r b))" for r
  proof -
    have "quiet b (fst (drop_stale r b))" by (simp add: drop_stale_def split: option.split)
    then have d: "approvals_granted steps (fst (drop_stale r b))" by (rule granted_quiet [OF assms])
    have s: "approvals_granted steps b2" if "start_process input r a (fst (drop_stale r b)) = (b2, n)" for a b2 n
      using granted_start [OF d, of input r a] that by simp
    obtain b1 act where e: "drop_stale r b = (b1, act)" by (cases "drop_stale r b")
    show ?thesis using d s unfolding submit_pending_def e
      by (auto split: option.split prod.split intro: granted_upd_pending)
  qed
  then show ?thesis using assms by (simp add: submitCandidate_def split: sum.split option.split prod.split)
qed

lemma granted_responder:
  assumes "approvals_granted steps b" and "n < length (b_processes b)"
  shows "approvals_granted (steps @ [Responder_Settles n answer]) (responder_settles n answer b)"
proof -
  note a = granted_more [OF assms(1), of "Responder_Settles n answer"]
  show ?thesis
  proof (cases "c_phase (process_at b n)")
    case (Authorizing forced)
    show ?thesis unfolding responder_settles_def Authorizing Let_def phase.case
      by (rule granted_phase [OF a assms(2)])
        (auto simp: process_ok_def authorized_by_def split: sum.splits option.splits)
  qed (use a in \<open>simp_all add: responder_settles_def\<close>)
qed

lemma granted_finished:
  assumes "approvals_granted steps b" and "n < length (b_processes b)"
    and "result = Inr () \<Longrightarrow> \<exists>res. (c_pending (process_at b n), Inr res) \<in> set (b_settled b)"
  shows "approvals_granted steps (settle_process n result b)"
  unfolding settle_process_def by (rule granted_phase) (use assms in \<open>simp_all add: process_ok_def\<close>)

lemma granted_approve_start:
  assumes "approvals_granted steps b" and "n < length (b_processes b)"
    and "authorized_by steps n (process_at b n)" and "c_candidate (process_at b n) = Inr Approve"
  shows "approvals_granted steps (approve_start n b)"
  unfolding approve_start_def Let_def
  by (rule granted_phase) (use assms in \<open>simp_all add: process_ok_def authorized_by_def split: sum.split\<close>)

lemma finish_settles: "isStillPending r b \<Longrightarrow> (r, res) \<in> set (b_settled (fst (finish r res b)))"
  by (simp add: finish_def Let_def)

lemma still_pending_abort [simp]: "isStillPending r (abort_controller active e b) = isStillPending r b"
  by (simp add: isStillPending_def abort_controller_def upd_process_def pending_at_def split: option.split)

text \<open>Settling an interaction other than by an approval, and marking the process finished.\<close>

lemma granted_settled:
  assumes "approvals_granted steps b" and "n < length (b_processes b)"
    and "quiet b b1" and "quiet b (fst (finish r res b1))"
    and "result = Inr () \<Longrightarrow> isStillPending r b1 \<and> c_pending (process_at b n) = r \<and> (\<exists>x. res = Inr x)"
  shows "approvals_granted steps (settle_process n result (fst (finish r res b1)))"
proof (rule granted_finished)
  show "approvals_granted steps (fst (finish r res b1))" by (rule granted_quiet [OF assms(1,4)])
  show "n < length (b_processes (fst (finish r res b1)))" using quiet_process [OF assms(4)] assms(2) by simp
  assume "result = Inr ()"
  then have i: "isStillPending r b1" "c_pending (process_at b n) = r" "\<exists>x. res = Inr x"
    using assms(5) by blast+
  have "pview (process_at (fst (finish r res b1)) n) = pview (process_at b n)"
    using quiet_process [OF assms(4)] assms(2) by simp
  then have "c_pending (process_at (fst (finish r res b1)) n) = r" using pview_eq i(2) by metis
  then show "\<exists>x. (c_pending (process_at (fst (finish r res b1)) n), Inr x) \<in> set (b_settled (fst (finish r res b1)))"
    using finish_settles [OF i(1), of res] i(3) by auto
qed

lemma granted_resume:
  assumes "approvals_granted steps b" and "n < length (b_processes b)"
  shows "approvals_granted steps (resume env n b)"
proof (cases "c_phase (process_at b n) = Authorized")
  case True
  let ?r = "c_pending (process_at b n)"
  have auth: "authorized_by steps n (process_at b n)"
    using assms True by (force simp: approvals_granted_def process_ok_def split: phase.splits)
  note f = granted_finished [OF assms, of "Inl _"]
  have "approvals_granted steps (process_candidate env n cand b)"
    if "isStillPending ?r b" "c_candidate (process_at b n) = Inr cand" for cand
  proof (cases cand)
    case (Answer v)
    then show ?thesis using that f granted_settled [OF assms quiet_refl]
      by (simp add: process_candidate_def Let_def finishResolved_def split: details.split sum.split)
  next
    case (Reject reason)
    then show ?thesis using that f
        granted_settled [OF assms, of "abort_controller (p_active (pending_at b ?r)) _ b" ?r "Inr (Rejected reason)" "Inr ()"]
      by (simp add: process_candidate_def Let_def finishResolved_def split: details.split)
  next
    case Approve
    then show ?thesis using that f granted_approve_start [OF assms auth]
      by (simp add: process_candidate_def Let_def split: details.split)
  qed
  then show ?thesis using True f by (simp add: resume_def Let_def split: sum.split)
next
  case False
  then have "resume env n b = b" by (simp add: resume_def Let_def split: phase.split)
  then show ?thesis using assms(1) by simp
qed

lemma settled_silent [simp]:
  "b_settled (abort_controller a e b) = b_settled b" "b_settled (upd_pending r f b) = b_settled b"
  "b_settled (forget_approval p b) = b_settled b"
  by (simp_all add: abort_controller_def upd_process_def upd_pending_def forget_approval_def
      split: option.split details.split)

lemma settled_processes:
  "map pview (b_processes (fst (finish r res b))) = map pview (b_processes b)
   \<and> set (b_settled (fst (finish r res b))) \<subseteq> insert (r, res) (set (b_settled b))
   \<and> set (b_settled b) \<subseteq> set (b_settled (fst (finish r res b)))"
proof -
  have "b_settled (fst (finish r res b)) = (if isStillPending r b then b_settled b @ [(r, res)] else b_settled b)"
    by (simp add: finish_def Let_def)
  moreover have "map pview (b_processes (fst (finish r res b))) = map pview (b_processes b)"
  proof -
    have "quiet b (abort_controller a e (upd_pending r f (forget_approval p (b\<lparr>b_pending := x\<rparr>)) \<lparr>b_leases := l\<rparr>))"
      for a e f p x l by simp
    then have "map pview (b_processes (abort_controller a e
        (upd_pending r f (forget_approval p (b\<lparr>b_pending := x\<rparr>)) \<lparr>b_leases := l\<rparr>)))
        = map pview (b_processes b)" for a e f p x l
      unfolding quiet_def by blast
    then show ?thesis by (simp add: finish_def Let_def)
  qed
  ultimately show ?thesis by auto
qed

lemma granted_approved:
  assumes "approvals_granted steps b" and "n < length (b_processes b)"
    and "granted steps r n (process_at b n)" and "isStillPending r b"
  shows "approvals_granted steps (settle_process n (Inr ()) (fst (finishResolved r Approved b)))"
proof (rule granted_finished)
  let ?b = "fst (finishResolved r Approved b)"
  note q = settled_processes [of r "Inr Approved" b, folded finishResolved_def]
  have l: "length (b_processes ?b) = length (b_processes b)" using q by (metis length_map)
  have p: "pview (process_at ?b m) = pview (process_at b m)" if "m < length (b_processes b)" for m
    using q l that unfolding process_at_def by (metis nth_map)
  show "n < length (b_processes ?b)" using assms(2) l by simp
  show "approvals_granted steps ?b" unfolding approvals_granted_def l
  proof (intro conjI allI impI)
    fix m assume m: "m < length (b_processes b)"
    then have "process_ok steps (set (b_settled b)) m (process_at b m)"
      using assms(1) by (simp add: approvals_granted_def)
    then show "process_ok steps (set (b_settled ?b)) m (process_at ?b m)"
      by (rule process_ok_pview) (use p [OF m] q in auto)
  next
    fix r' assume "(r', Inr Approved) \<in> set (b_settled ?b)"
    then consider "r' = r" | "(r', Inr Approved) \<in> set (b_settled b)" using q by auto
    then show "\<exists>m < length (b_processes b). granted steps r' m (process_at ?b m)"
    proof cases
      case 1
      then show ?thesis using assms(2,3) granted_pview p by blast
    next
      case 2
      then show ?thesis using assms(1) granted_pview p unfolding approvals_granted_def by metis
    qed
  qed
  have "c_pending (process_at ?b n) = r"
    using pview_eq [OF p [OF assms(2)]] assms(3) by (simp add: granted_def)
  then show "\<exists>res. (c_pending (process_at ?b n), Inr res) \<in> set (b_settled ?b)"
    using finish_settles [OF assms(4), of "Inr Approved"] by (auto simp: finishResolved_def)
qed

lemma granted_local:
  assumes "approvals_granted steps b" and "n < length (b_processes b)"
  shows "approvals_granted (steps @ [Local_Settles n answer]) (local_settles n answer b)"
proof (cases "c_phase (process_at b n)")
  case (Deciding forced)
  let ?s = "steps @ [Local_Settles n answer]" and ?r = "c_pending (process_at b n)"
  note a = granted_more [OF assms(1), of "Local_Settles n answer"]
  have c: "authorized_by ?s n (process_at b n)" "c_candidate (process_at b n) = Inr Approve"
    using a assms(2) Deciding by (auto simp: approvals_granted_def process_ok_def split: phase.splits)
  note f = granted_finished [OF a assms(2), of "Inl _"]
  note q = granted_settled [OF a assms(2) quiet_refl, of ?r _ "Inl _"]
  have "approvals_granted ?s (decide n d b)" if "d = Inr Allow \<Longrightarrow> answer = Inr (Some Allow)" for d
  proof (cases "d = Inr Allow")
    case True
    then have "granted ?s ?r n (process_at b n)" using c that by (simp add: granted_def)
    from granted_approved [OF a assms(2) this] show ?thesis using True f
      by (simp add: decide_def Let_def split: option.split)
  next
    case False
    then show ?thesis using f q
      by (auto simp: decide_def Let_def finishResolved_def finishCancelled_def
          split: option.split sum.split local_decision.split)
  qed
  then show ?thesis unfolding local_settles_def Deciding phase.case
    by (auto simp: sum_bind_def parseLocalApprovalDecision_def split: option.splits sum.splits)
qed (use granted_more [OF assms(1)] in \<open>simp_all add: local_settles_def\<close>)

lemma granted_legacy:
  assumes "approvals_granted steps b"
  shows "approvals_granted steps (fst (submitLegacyApprovalCandidate parsed b))"
proof -
  have "approvals_granted steps (upd_pending r f (approve_start n b1))"
    if "add_process \<lparr>c_pending = r, c_key = key, c_fingerprint = json, c_aborted = None, c_generation = None,
        c_signal = sig, c_candidate = Inr Approve, c_phase = Authorized\<rparr> b = (b1, n)" for r f n b1 key json sig
  proof -
    have "approvals_granted steps b1"
      using granted_add [OF assms, of "\<lparr>c_pending = r, c_key = key, c_fingerprint = json, c_aborted = None,
          c_generation = None, c_signal = sig, c_candidate = Inr Approve, c_phase = Authorized\<rparr>"] that
      by (simp add: process_ok_def authorized_by_def)
    then have "approvals_granted steps (approve_start n b1)"
      by (rule granted_approve_start)
        (use that in \<open>auto simp: add_process_def process_at_def authorized_by_def\<close>)
    then show ?thesis by (rule granted_upd_pending)
  qed
  moreover have "approvals_granted steps (fst (finishResolved r (Rejected reason) (abort_controller a e b)))"
    for r reason a e by (rule granted_quiet [OF assms]) simp
  ultimately show ?thesis using assms
    by (simp add: submitLegacyApprovalCandidate_def split: sum.split option.split prod.split)
qed

lemma granted_observe:
  assumes "approvals_granted steps b" and "n < length (b_processes b)"
  shows "approvals_granted steps (observe n b)"
proof (cases "c_phase (process_at b n)")
  case (Finished result)
  let ?b = "if p_active (pending_at b (c_pending (process_at b n))) = Some n
    then upd_pending (c_pending (process_at b n)) (\<lambda>p. p\<lparr>p_active := None\<rparr>) b else b"
  have same: "process_at ?b n = process_at b n" "b_settled ?b = b_settled b"
    "length (b_processes ?b) = length (b_processes b)"
    by (simp_all add: process_at_def upd_pending_def)
  have "process_ok steps (set (b_settled b)) n (process_at b n)"
    using assms by (simp add: approvals_granted_def)
  then have "approvals_granted steps (set_phase n (Observed result) ?b)"
    using assms Finished by (intro granted_phase)
      (auto simp: same process_ok_def intro: granted_upd_pending split: if_splits)
  then show ?thesis by (simp add: observe_def Finished Let_def)
qed (simp_all add: observe_def assms)

lemma granted_step:
  assumes "approvals_granted steps b" shows "approvals_granted (steps @ [st]) (broker_step env st b)"
proof -
  note more = granted_more [OF assms, of st]
  have quiet: "approvals_granted (steps @ [st]) b'" if "quiet b b'" for b'
    using granted_quiet [OF more that] .
  show ?thesis
  proof (cases st)
    case (Submit input)
    then show ?thesis using granted_submit [OF more] by simp
  next
    case (Submit_Legacy params)
    then show ?thesis using granted_legacy [OF more] by simp
  next
    case (Responder_Settles n answer)
    then show ?thesis using granted_responder [OF assms] more by simp
  next
    case (Resume n)
    then show ?thesis using granted_resume [OF more] more by simp
  next
    case (Local_Settles n answer)
    then show ?thesis using granted_local [OF assms] more by simp
  next
    case (Observe n)
    then show ?thesis using granted_observe [OF more] more by simp
  qed (rule quiet, simp add: timer_fires_def split: prod.split)+
qed

lemma granted_run: "approvals_granted steps (run_broker env steps)"
proof (induction steps rule: rev_induct)
  case Nil
  then show ?case by (simp add: run_broker_def approvals_granted_def newBroker_def)
next
  case (snoc st steps)
  then show ?case using granted_step [OF snoc] by (simp add: run_broker_def)
qed

section \<open>Properties\<close>

text \<open>
  C18: Every interaction is settled exactly once, and the relay sees it. After any sequence of steps (of
  the runtime, the relay, the policies, timers and the workspace, which leaves the leases of approvals
  to the broker) an interaction that is still pending has not been settled and exactly its request has
  been published; any other has been settled exactly once, and if its request was published, that is
  followed by exactly one terminal frame saying whether it was resolved or cancelled; if not, nothing
  about it was.
\<close>

theorem interaction_settled_once:
  assumes "list_all spares_approvals steps" and "b = run_broker env steps" and "r < length (b_heap b)"
  shows "if isStillPending r b
    then outcomes_of r (b_settled b) = [] \<and> outcomes_of r (b_frames b) = [request_frame (pending_at b r)]
    else \<exists>res. outcomes_of r (b_settled b) = [res]
      \<and> outcomes_of r (b_frames b)
        = (if p_published (pending_at b r)
           then [request_frame (pending_at b r), terminal_frame res (pending_at b r)] else [])"
proof -
  have "broker_inv {} b" using inv_run [OF assms(1)] assms(2) by blast
  then have i: "core_inv {} (core_of b)" and s: "shown {} (core_of b)" by (simp_all add: broker_inv_def)
  have live: "live {} (core_of b) r \<longleftrightarrow> isStillPending r b"
    using still_open [OF core_invD(1) [OF i]] assms(3) by (simp add: live_def)
  have settled: "if isStillPending r b then outcomes_of r (b_settled b) = []
      else length (outcomes_of r (b_settled b)) = 1"
    using core_invD(2) [OF i] assms(3) live by (auto simp: settled_inv_def split: if_splits)
  have frames: "outcomes_of r (b_frames b) = framed (core_of b) r"
    using core_invD(3) [OF i] by (simp add: frames_inv_def)
  show ?thesis
  proof (cases "isStillPending r b")
    case True
    then have "p_published (pending_at b r)"
      using s live assms(3) nth_cores [OF assms(3)] by (auto simp: shown_def)
    then show ?thesis using True settled frames assms(3) by (simp add: framed_def nth_cores)
  next
    case False
    then obtain res where "outcomes_of r (b_settled b) = [res]" using settled by (auto simp: length_Suc_conv)
    then show ?thesis using False frames assms(3) by (simp add: framed_def nth_cores)
  qed
qed

text \<open>
  C20: The broker holds leases for exactly what is pending. After any sequence of steps in which the
  workspace leaves the leases of approvals to the broker, an approval's lease is held if and only if an
  interaction asking for that approval is pending, and no interaction that has been settled still holds
  a lease, whatever other leases the workspace took or released.
\<close>

theorem leases_follow_interactions:
  assumes "list_all spares_approvals steps" and "b = run_broker env steps"
  shows "lease_has (Lease ApprovalLease a) (b_leases b)
      = (\<exists>r < length (b_heap b). isStillPending r b \<and> approval_of (pending_at b r) = Some a)
    \<and> (\<forall>r < length (b_heap b). isStillPending r b \<or> p_lease (pending_at b r) \<notin> holders_in (b_leases b) k)"
proof -
  have i: "core_inv {} (core_of b)" using inv_run [OF assms(1)] assms(2) by (auto simp: broker_inv_def)
  have live: "live {} (core_of b) r \<longleftrightarrow> r < length (b_heap b) \<and> isStillPending r b" for r
    using still_open [OF core_invD(1) [OF i]] by (auto simp: live_def)
  have t: "lm.tenant (b_leases b) (held {} (core_of b)) approval_keys"
    using core_invD(5) [OF i] by (simp add: leases_inv_def)
  have "(\<exists>x. (Lease ApprovalLease a, x) \<in> held {} (core_of b))
      \<longleftrightarrow> (\<exists>r. live {} (core_of b) r \<and> approval_of (cores b ! r) = Some a)"
    by (auto simp: held_def lease_key_approval eq_commute [of "Lease _ _"])
  also have "\<dots> \<longleftrightarrow> (\<exists>r < length (b_heap b). isStillPending r b \<and> approval_of (pending_at b r) = Some a)"
    by (auto simp: live nth_cores)
  finally have "lease_has (Lease ApprovalLease a) (b_leases b)
      = (\<exists>r < length (b_heap b). isStillPending r b \<and> approval_of (pending_at b r) = Some a)"
    using lm.tenant_has [OF t, of "Lease ApprovalLease a"] by (simp add: approval_keys_def)
  moreover have "p_lease (pending_at b r) \<notin> holders_in (b_leases b) k"
    if "r < length (b_heap b)" "\<not> isStillPending r b" for r
    using core_invD(5) [OF i] that live nth_cores [OF that(1)] by (auto simp: leases_inv_def)
  ultimately show ?thesis by blast
qed

text \<open>
  C19: An approval needs both policies. Whenever an interaction has been settled by an approval, some
  candidate for it asked to approve, the local policy answered \<open>allow\<close> to that candidate, and unless it
  came through the legacy facade the responder's policy had answered \<open>true\<close> to it; and a candidate is
  only ever reported accepted when its interaction has been settled by a result.
\<close>

theorem approval_needs_policies:
  assumes "b = run_broker env steps"
  shows "(\<forall>r. (r, Inr Approved) \<in> set (b_settled b) \<longrightarrow>
      (\<exists>n < length (b_processes b). c_pending (process_at b n) = r \<and> c_candidate (process_at b n) = Inr Approve
        \<and> Local_Settles n (Inr (Some Allow)) \<in> set steps
        \<and> (c_generation (process_at b n) = None \<or> Responder_Settles n (Inr True) \<in> set steps)))
    \<and> (\<forall>n < length (b_processes b). c_phase (process_at b n) \<in> {Finished (Inr ()), Observed (Inr ())}
        \<longrightarrow> (\<exists>result. (c_pending (process_at b n), Inr result) \<in> set (b_settled b)))"
proof -
  have g: "approvals_granted steps b" using granted_run assms by blast
  have "\<exists>result. (c_pending (process_at b n), Inr result) \<in> set (b_settled b)"
    if "n < length (b_processes b)" "c_phase (process_at b n) \<in> {Finished (Inr ()), Observed (Inr ())}" for n
  proof -
    have "process_ok steps (set (b_settled b)) n (process_at b n)"
      using g that(1) by (simp add: approvals_granted_def)
    then show ?thesis using that(2) by (auto simp: process_ok_def)
  qed
  then show ?thesis using g unfolding approvals_granted_def granted_def authorized_by_def by blast
qed

section \<open>Witnesses\<close>

definition example_env :: "(unit, unit, unit, unit) broker_env" where
  "example_env = \<lparr>env_date_parse = (\<lambda>s. int (length s)), env_to_iso = (\<lambda>_. []), env_legacy_timeout = 1000,
     env_normalize = (\<lambda>_ _. Inr ())\<rparr>"

definition example_steps :: "(unit, unit, unit) broker_event list" where
  "example_steps =
     [Bind ''w'',
      Register_Approval (Inr \<lparr>rp_interaction = Some ''i'', rp_thread = ''t'',
        rp_approval = \<lparr>ap_id = ''a'', ap_turn = ''u'', ap_agent = ''g'', ap_tool = ''k'',
          ap_explanation = None, ap_private = ()\<rparr>, rp_expires = Some ''later''\<rparr>) [] None 0 (Publishes None),
      Submit \<lparr>ci_workspace = ''w'', ci_request = ''q'', ci_interaction = ''i'', ci_thread = ''t'',
        ci_turn = ''u'', ci_method = ApprovalRequest, ci_json = ''j'', ci_generation = 0,
        ci_parsed = Inr Approve\<rparr>,
      Responder_Settles 0 (Inr True), Resume 0, Local_Settles 0 (Inr (Some Allow))]"

definition example_broker :: "(unit, unit, unit, unit) broker" where
  "example_broker = run_broker example_env example_steps"

lemma example_facts:
  "list_all spares_approvals example_steps" "length (b_heap example_broker) = 1"
  "length (b_processes example_broker) = 1" "b_settled example_broker = [(0, Inr Approved)]"
  "isStillPending 0 example_broker = False" "length (b_frames example_broker) = 2"
  by code_simp+

lemma interaction_settled_once_witness:
  "\<exists>res. outcomes_of 0 (b_settled example_broker) = [res]
      \<and> outcomes_of 0 (b_frames example_broker)
        = (if p_published (pending_at example_broker 0)
           then [request_frame (pending_at example_broker 0), terminal_frame res (pending_at example_broker 0)]
           else [])"
  using interaction_settled_once [OF example_facts(1) example_broker_def, of 0] example_facts(2,5) by simp

lemma leases_follow_interactions_witness:
  "\<not> lease_has (Lease ApprovalLease ''a'') (b_leases example_broker)
   \<and> p_lease (pending_at example_broker 0) \<notin> holders_in (b_leases example_broker) (Lease ApprovalLease ''a'')"
  using leases_follow_interactions [OF example_facts(1) example_broker_def, of "''a''" "Lease ApprovalLease ''a''"]
    example_facts(2,5) by simp

lemma approval_needs_policies_witness:
  "\<exists>n < length (b_processes example_broker). c_pending (process_at example_broker n) = 0
     \<and> Local_Settles n (Inr (Some Allow)) \<in> set example_steps"
  using approval_needs_policies [OF example_broker_def] example_facts(4) by fastforce

end
