(* ===== verification/ReplayBuffer.thy ===== *)
theory ReplayBuffer
  imports Prelude
begin

text \<open>
  The interface between a companion's replay buffers and the bridges that send what they hold: a
  buffer numbers what is appended, keeps a window of it, and answers a replay with what it keeps and
  the gap of what it dropped. The laws are stated once as a locale; what a bridge relies on is
  proved from them, and both buffers of the companion are shown to be instances.
\<close>

section \<open>Numbered logs\<close>

text \<open>The abstract view: everything that was ever appended, numbered from zero.\<close>

definition numbered :: "'e list \<Rightarrow> (int \<times> 'e) list" where
  "numbered xs = zip [0..int (length xs) - 1] xs"

lemma length_numbered [simp]: "length (numbered xs) = length xs"
  by (simp add: numbered_def)

lemma numbered_Nil [simp]: "numbered [] = []"
  by (simp add: numbered_def)

lemma numbered_append [simp]: "numbered (xs @ [x]) = numbered xs @ [(int (length xs), x)]"
  by (simp add: numbered_def upto_rec2 zip_append1)

lemma map_fst_numbered: "map fst (numbered xs) = [0..int (length xs) - 1]"
  by (simp add: numbered_def)

lemma in_numbered: "e \<in> set (numbered xs) \<Longrightarrow> 0 \<le> fst e \<and> fst e < int (length xs)"
  unfolding numbered_def by (cases e) (auto dest: set_zip_leftD)

lemma filter_numbered_drop: "filter (\<lambda>e. int n \<le> fst e) (numbered xs) = drop n (numbered xs)"
proof (induction xs rule: rev_induct)
  case (snoc x xs)
  then show ?case by (cases "n \<le> length xs") auto
qed simp

lemma drop_upto: "drop n [0..m] = [int n..m]"
  by (rule nth_equalityI) (auto simp: nth_upto)

lemma drop_numbered:
  assumes "-1 \<le> m" shows "drop (nat (m + 1)) (numbered xs) = filter (\<lambda>e. m < fst e) (numbered xs)"
proof -
  have "int (nat (m + 1)) \<le> fst e \<longleftrightarrow> m < fst e" for e :: "int \<times> 'a" using assms by auto
  then show ?thesis unfolding filter_numbered_drop [symmetric] by (simp only:)
qed

lemma numbers_after:
  "-1 \<le> m \<Longrightarrow> map fst (filter (\<lambda>e. m < fst e) (numbered xs)) = [m + 1..int (length xs) - 1]"
  by (simp add: drop_numbered [symmetric] drop_map [symmetric] map_fst_numbered drop_upto)

text \<open>The history of a buffer: appends and acknowledgements, in any order.\<close>

datatype 'e buffer_step = Append 'e | Acknowledge int

fun appended :: "'e buffer_step list \<Rightarrow> 'e list" where
  "appended [] = []"
| "appended (Append e # steps) = e # appended steps"
| "appended (Acknowledge n # steps) = appended steps"

fun run_buffer :: "('e \<Rightarrow> 'b \<Rightarrow> 'b) \<Rightarrow> (int \<Rightarrow> 'b \<Rightarrow> 'b) \<Rightarrow> 'e buffer_step list \<Rightarrow> 'b \<Rightarrow> 'b" where
  "run_buffer push ack [] b = b"
| "run_buffer push ack (Append e # steps) b = run_buffer push ack steps (push e b)"
| "run_buffer push ack (Acknowledge n # steps) b = run_buffer push ack steps (ack n b)"

section \<open>The interface\<close>

text \<open>What a replay after a sequence number gives: the entries kept after it, and the gap of those
  dropped after it.\<close>

definition replay_of :: "int \<Rightarrow> int \<Rightarrow> (int \<times> 'e) list \<Rightarrow> (int \<times> 'e) list \<times> (int \<times> int) option" where
  "replay_of dropped after entries =
     (filter (\<lambda>e. after < fst e) entries,
      if after < dropped then Some (after + 1, dropped) else None)"

text \<open>The numbers a replay accounts for, its gap first.\<close>

definition covered :: "(int \<times> 'e) list \<times> (int \<times> int) option \<Rightarrow> int list" where
  "covered r = (case snd r of None \<Rightarrow> [] | Some (lo, hi) \<Rightarrow> [lo..hi]) @ map fst (fst r)"

text \<open>
  The laws: a valid buffer keeps a suffix \<open>drop k log\<close> of the numbered log of what was appended,
  remembers how much is gone, extends the log by what is pushed and drops only from the old end.
\<close>

locale replay_buffer =
  fixes valid :: "'e list \<Rightarrow> 'b \<Rightarrow> bool"
    and entries :: "'b \<Rightarrow> (int \<times> 'e) list"
    and dropped :: "'b \<Rightarrow> int"
    and push :: "'e \<Rightarrow> 'b \<Rightarrow> 'b"
    and ack :: "int \<Rightarrow> 'b \<Rightarrow> 'b"
    and replay :: "int \<Rightarrow> 'b \<Rightarrow> (int \<times> 'e) list \<times> (int \<times> int) option"
  assumes window: "valid log b \<Longrightarrow> -1 \<le> dropped b \<and> dropped b < int (length log)
      \<and> entries b = drop (nat (dropped b + 1)) (numbered log)"
    and push_valid: "valid log b \<Longrightarrow> valid (log @ [e]) (push e b)"
    and ack_valid: "valid log b \<Longrightarrow> valid log (ack n b)"
    and push_dropped: "valid log b \<Longrightarrow> dropped b \<le> dropped (push e b)"
    and ack_dropped: "valid log b \<Longrightarrow> dropped b \<le> dropped (ack n b)
      \<and> dropped (ack n b) \<le> max (dropped b) n"
    and replay_law: "valid log b \<Longrightarrow> -1 \<le> after \<Longrightarrow> replay after b = replay_of (dropped b) after (entries b)"
begin

lemma run_valid: "valid log b \<Longrightarrow> valid (log @ appended steps) (run_buffer push ack steps b)"
proof (induction steps arbitrary: log b rule: appended.induct)
  case (2 e steps)
  then show ?case using push_valid [OF "2.prems", of e] by fastforce
qed (auto dest: ack_valid)

lemma run_dropped: "valid log b \<Longrightarrow> dropped b \<le> dropped (run_buffer push ack steps b)"
proof (induction steps arbitrary: log b rule: appended.induct)
  case (2 e steps)
  then show ?case using push_valid [OF "2.prems", of e] push_dropped [OF "2.prems", of e] by fastforce
next
  case (3 n steps)
  then show ?case using ack_valid [OF "3.prems", of n] ack_dropped [OF "3.prems", of n] by fastforce
qed simp

text \<open>A replay gives the log: exactly what was appended after the point asked for, less the gap.\<close>

lemma replay_log:
  assumes "valid log b" and "-1 \<le> after"
  shows "replay after b =
    (filter (\<lambda>e. max after (dropped b) < fst e) (numbered log),
     if after < dropped b then Some (after + 1, dropped b) else None)"
proof -
  have "entries b = filter (\<lambda>e. dropped b < fst e) (numbered log)"
    using window [OF assms(1)] by (simp add: drop_numbered)
  then have e: "filter (\<lambda>e. after < fst e) (entries b)
      = filter (\<lambda>e. max after (dropped b) < fst e) (numbered log)"
    by (simp add: conj_commute)
  show ?thesis unfolding replay_law [OF assms] replay_of_def e ..
qed

text \<open>Nothing is lost silently: what was appended after the point asked for is replayed with its
  number, or its number lies in the gap.\<close>

lemma replay_complete:
  assumes "valid log b" and "-1 \<le> after" and "after < int i" and "i < length log"
    and "replay after b = (es, gap)"
  shows "(int i, log ! i) \<in> set es
    \<or> (case gap of None \<Rightarrow> False | Some (lo, hi) \<Rightarrow> lo \<le> int i \<and> int i \<le> hi)"
proof -
  have "(int i, log ! i) \<in> set (numbered log)"
    using assms(4) by (auto simp: numbered_def in_set_conv_nth nth_upto intro!: exI [of _ i])
  then show ?thesis using replay_log [OF assms(1,2)] assms(3,5) by (auto split: if_splits)
qed

text \<open>A replay is contiguous: with the gap in front, its numbers run from the point asked for to
  the end of the log.\<close>

lemma replay_contiguous:
  assumes "valid log b" and "-1 \<le> after" and "after < int (length log)"
  shows "covered (replay after b) = [after + 1..int (length log) - 1]"
proof -
  have d: "-1 \<le> dropped b" "dropped b < int (length log)" using window [OF assms(1)] by auto
  have "map fst (filter (\<lambda>e. max after (dropped b) < fst e) (numbered log))
      = [max after (dropped b) + 1..int (length log) - 1]"
    by (rule numbers_after) (use assms(2) in simp)
  then show ?thesis
    using d assms(3) upto_split2 [of "after + 1" "dropped b" "int (length log) - 1"]
    by (auto simp: covered_def replay_log [OF assms(1,2)])
qed

end

text \<open>A buffer with limits: it keeps as much of the log as its limits allow.\<close>

locale bounded_replay_buffer = replay_buffer +
  fixes within :: "(int \<times> 'a) list \<Rightarrow> bool"
  assumes within_drop: "within es \<Longrightarrow> within (drop n es)"
    and push_within: "valid log b \<Longrightarrow> within (entries (push e b))"
    and push_minimal: "valid log b \<Longrightarrow> dropped b \<le> j \<Longrightarrow> j < dropped (push e b)
      \<Longrightarrow> \<not> within (drop (nat (j + 1)) (numbered (log @ [e])))"
begin

lemma ack_within: "valid log b \<Longrightarrow> within (entries b) \<Longrightarrow> within (entries (ack n b))"
proof -
  assume v: "valid log b" and w: "within (entries b)"
  note e = window [OF v] window [OF ack_valid [OF v, of n]] and d = ack_dropped [OF v, of n]
  have "entries (ack n b) = drop (nat (dropped (ack n b) - dropped b)) (entries b)"
    using e d by (simp add: drop_drop) (simp add: nat_add_distrib [symmetric])
  then show ?thesis using within_drop [OF w] by simp
qed

lemma run_within: "valid log b \<Longrightarrow> within (entries b) \<Longrightarrow> within (entries (run_buffer push ack steps b))"
proof (induction steps arbitrary: log b rule: appended.induct)
  case (2 e steps)
  then show ?case using push_valid [OF "2.prems"(1), of e] push_within [OF "2.prems"(1), of e] by fastforce
next
  case (3 n steps)
  then show ?case using ack_valid [OF "3.prems"(1), of n] ack_within [OF "3.prems", of n] by fastforce
qed simp

text \<open>Without acknowledgements a drop is never needless: whatever longer part of the log one takes
  exceeds the limits.\<close>

lemma drops_needed:
  assumes "valid log b" and "dropped b \<le> j" and "j < dropped (push e b)"
  shows "\<not> within (drop (nat (j + 1)) (numbered (log @ [e])))"
  using assms by (rule push_minimal)

end

end
