(* ===== verification/CompanionBuffers.thy ===== *)
theory CompanionBuffers
  imports ReplayBuffer
begin

text \<open>
  The replay buffers of a companion: \<open>CompanionEventBuffer\<close> (\<open>event-buffer.ts\<close>) for wire 1.0 and
  \<open>CompanionRelayFrameBuffer\<close> (\<open>relay-frame-buffer.ts\<close>) for the later wires, each shown to be a
  bounded replay buffer. The serialised size of an event or frame, the projection of a runtime event
  to the wire and the check of an interaction draft are parameters.
\<close>

section \<open>The event buffer\<close>

definition RUNTIME_V13_DEFAULT_REPLAY_BUFFER_BYTES :: int where
  "RUNTIME_V13_DEFAULT_REPLAY_BUFFER_BYTES = 32 * 1024 * 1024"

definition DEFAULT_COMPANION_MAX_EVENTS :: int where
  "DEFAULT_COMPANION_MAX_EVENTS = 10000"

definition DEFAULT_COMPANION_MAX_BYTES :: int where
  "DEFAULT_COMPANION_MAX_BYTES = RUNTIME_V13_DEFAULT_REPLAY_BUFFER_BYTES"

datatype buffer_error = BadMaxEvents | BadMaxBytes | BadReplayPoint | BadAckPoint

record 'e stored_event =
  se_seq :: int
  se_event :: 'e
  se_bytes :: int

record 'e event_buffer =
  eb_maxEvents :: int
  eb_maxBytes :: int
  eb_entries :: "'e stored_event list"
  eb_next :: int
  eb_bytes :: int
  eb_dropped :: int

definition newEventBuffer :: "int option \<Rightarrow> int option \<Rightarrow> buffer_error + 'e event_buffer" where
  "newEventBuffer maxEvents maxBytes =
     (let me = (case maxEvents of None \<Rightarrow> DEFAULT_COMPANION_MAX_EVENTS | Some n \<Rightarrow> n);
          mb = (case maxBytes of None \<Rightarrow> DEFAULT_COMPANION_MAX_BYTES | Some n \<Rightarrow> n)
      in if me < 1 then Inl BadMaxEvents
         else if mb < 1 then Inl BadMaxBytes
         else Inr \<lparr>eb_maxEvents = me, eb_maxBytes = mb, eb_entries = [], eb_next = 0, eb_bytes = 0,
                   eb_dropped = -1\<rparr>)"

text \<open>The loops recurse on the entries, which each turn shortens.\<close>

function eb_enforceLimits :: "'e event_buffer \<Rightarrow> 'e event_buffer" where
  "eb_enforceLimits b =
     (case eb_entries b of
        [] \<Rightarrow> b
      | removed # rest \<Rightarrow>
          if int (length (eb_entries b)) > eb_maxEvents b \<or> eb_bytes b > eb_maxBytes b
          then eb_enforceLimits (b\<lparr>eb_entries := rest, eb_bytes := eb_bytes b - se_bytes removed,
                                   eb_dropped := se_seq removed\<rparr>)
          else b)"
  by pat_completeness auto
termination
  by (relation "measure (\<lambda>b. length (eb_entries b))") auto

declare eb_enforceLimits.simps [simp del]

definition eb_append :: "('e \<Rightarrow> nat) \<Rightarrow> 'e \<Rightarrow> 'e event_buffer \<Rightarrow> 'e event_buffer \<times> (int \<times> 'e)" where
  "eb_append sz event b =
     (let stored = \<lparr>se_seq = eb_next b, se_event = event, se_bytes = int (sz event)\<rparr>;
          b1 = b\<lparr>eb_next := eb_next b + 1, eb_entries := eb_entries b @ [stored],
                 eb_bytes := eb_bytes b + se_bytes stored\<rparr>
      in (eb_enforceLimits b1, (se_seq stored, event)))"

definition eb_replay_from :: "int \<Rightarrow> 'e event_buffer \<Rightarrow> (int \<times> 'e) list \<times> (int \<times> int) option" where
  "eb_replay_from after b =
     (map (\<lambda>entry. (se_seq entry, se_event entry)) (filter (\<lambda>entry. se_seq entry > after) (eb_entries b)),
      if after < eb_dropped b then Some (after + 1, eb_dropped b) else None)"

definition eb_replay ::
  "int \<Rightarrow> 'e event_buffer \<Rightarrow> buffer_error + (int \<times> 'e) list \<times> (int \<times> int) option" where
  "eb_replay after b = (if after < -1 then Inl BadReplayPoint else Inr (eb_replay_from after b))"

definition eb_highest :: "'e event_buffer \<Rightarrow> int" where
  "eb_highest b = eb_next b - 1"

function eb_ack_loop :: "int \<Rightarrow> 'e event_buffer \<Rightarrow> 'e event_buffer" where
  "eb_ack_loop through b =
     (case eb_entries b of
        [] \<Rightarrow> b
      | removed # rest \<Rightarrow>
          if se_seq removed \<le> through
          then eb_ack_loop through (b\<lparr>eb_entries := rest, eb_bytes := eb_bytes b - se_bytes removed,
                                      eb_dropped := max (eb_dropped b) (se_seq removed)\<rparr>)
          else b)"
  by pat_completeness auto
termination
  by (relation "measure (\<lambda>(t, b). length (eb_entries b))") auto

declare eb_ack_loop.simps [simp del]

definition eb_ack_through :: "int \<Rightarrow> 'e event_buffer \<Rightarrow> 'e event_buffer" where
  "eb_ack_through through b = (if through > eb_highest b then b else eb_ack_loop through b)"

definition eb_acknowledge :: "int \<Rightarrow> 'e event_buffer \<Rightarrow> buffer_error + 'e event_buffer" where
  "eb_acknowledge through b =
     (if through < -1 then Inl BadAckPoint else Inr (eb_ack_through through b))"

subsection \<open>It is a bounded replay buffer\<close>

definition store_event :: "('e \<Rightarrow> nat) \<Rightarrow> int \<times> 'e \<Rightarrow> 'e stored_event" where
  "store_event sz e = \<lparr>se_seq = fst e, se_event = snd e, se_bytes = int (sz (snd e))\<rparr>"

lemma store_event_simps [simp]:
  "se_seq (store_event sz e) = fst e" "se_event (store_event sz e) = snd e"
  "se_bytes (store_event sz e) = int (sz (snd e))"
  by (simp_all add: store_event_def)

definition eb_view :: "'e event_buffer \<Rightarrow> (int \<times> 'e) list" where
  "eb_view b = map (\<lambda>s. (se_seq s, se_event s)) (eb_entries b)"

definition total_size :: "('a \<Rightarrow> nat) \<Rightarrow> 'a list \<Rightarrow> int" where
  "total_size sz es = sum_list (map (\<lambda>e. int (sz e)) es)"

lemma total_size_simps [simp]:
  "total_size sz [] = 0" "total_size sz (e # es) = int (sz e) + total_size sz es"
  "total_size sz (es @ es') = total_size sz es + total_size sz es'"
  by (simp_all add: total_size_def)

lemma total_size_nonneg: "0 \<le> total_size sz es"
  by (induction es) simp_all

lemma total_size_drop: "total_size sz (drop n es) \<le> total_size sz es"
proof -
  have "total_size sz es = total_size sz (take n es) + total_size sz (drop n es)"
    by (metis append_take_drop_id total_size_simps(3))
  then show ?thesis using total_size_nonneg [of sz "take n es"] by simp
qed

definition fits :: "(int \<times> 'e \<Rightarrow> nat) \<Rightarrow> int \<Rightarrow> int \<Rightarrow> (int \<times> 'e) list \<Rightarrow> bool" where
  "fits sz maxEvents maxBytes es \<longleftrightarrow> int (length es) \<le> maxEvents \<and> total_size sz es \<le> maxBytes"

lemma fits_drop: "fits sz n m es \<Longrightarrow> fits sz n m (drop k es)"
  using total_size_drop [of sz k es] order_trans [of "int (length (drop k es))" "int (length es)" n]
  by (simp add: fits_def)

definition eb_valid :: "('e \<Rightarrow> nat) \<Rightarrow> int \<Rightarrow> int \<Rightarrow> 'e list \<Rightarrow> 'e event_buffer \<Rightarrow> bool" where
  "eb_valid sz maxEvents maxBytes log b \<longleftrightarrow>
     eb_maxEvents b = maxEvents \<and> eb_maxBytes b = maxBytes \<and> 1 \<le> maxEvents \<and> 1 \<le> maxBytes
     \<and> eb_next b = int (length log) \<and> -1 \<le> eb_dropped b \<and> eb_dropped b < int (length log)
     \<and> eb_entries b = map (store_event sz) (drop (nat (eb_dropped b + 1)) (numbered log))
     \<and> eb_bytes b = total_size (\<lambda>e. sz (snd e)) (drop (nat (eb_dropped b + 1)) (numbered log))"

lemma numbered_head:
  assumes "drop n (numbered xs) = e # es"
  shows "fst e = int n \<and> n < length xs \<and> drop (Suc n) (numbered xs) = es"
proof -
  have n: "n < length xs" using assms by (metis drop_all length_numbered list.distinct(1) not_le)
  then have "e = numbered xs ! n" using assms by (metis Cons_nth_drop_Suc length_numbered list.inject)
  then show ?thesis using n assms
    by (auto simp: numbered_def nth_upto) (metis Cons_nth_drop_Suc length_numbered list.inject numbered_def)
qed

lemma eb_valid_view: "eb_valid sz N B log b \<Longrightarrow> eb_view b = drop (nat (eb_dropped b + 1)) (numbered log)"
  by (simp add: eb_valid_def eb_view_def comp_def)

lemma eb_valid_drop:
  assumes "eb_valid sz N B log b" and "eb_entries b = removed # rest"
  shows "eb_valid sz N B log (b\<lparr>eb_entries := rest, eb_bytes := eb_bytes b - se_bytes removed,
      eb_dropped := se_seq removed\<rparr>)"
    and "se_seq removed = eb_dropped b + 1"
proof -
  let ?d = "nat (eb_dropped b + 1)"
  obtain e es where d: "drop ?d (numbered log) = e # es" and r: "removed = store_event sz e"
    and rest: "rest = map (store_event sz) es"
    using assms by (auto simp: eb_valid_def Cons_eq_map_conv)
  note h = numbered_head [OF d]
  have n: "nat (2 + eb_dropped b) = Suc ?d" using assms(1) unfolding eb_valid_def by arith
  show "se_seq removed = eb_dropped b + 1" using h assms(1) by (simp add: r eb_valid_def)
  show "eb_valid sz N B log (b\<lparr>eb_entries := rest, eb_bytes := eb_bytes b - se_bytes removed,
      eb_dropped := se_seq removed\<rparr>)"
    using assms(1) h d n conjunct1 [OF conjunct2 [OF h]] by (simp add: eb_valid_def r rest nat_less_iff)
qed

lemma eb_enforce_valid:
  assumes "eb_valid sz N B log b"
  shows "eb_valid sz N B log (eb_enforceLimits b)" (is ?valid)
    and "eb_dropped b \<le> eb_dropped (eb_enforceLimits b)" (is ?mono)
    and "fits (\<lambda>e. sz (snd e)) N B (eb_view (eb_enforceLimits b))" (is ?fits)
    and "eb_dropped b \<le> j \<Longrightarrow> j < eb_dropped (eb_enforceLimits b)
      \<Longrightarrow> \<not> fits (\<lambda>e. sz (snd e)) N B (drop (nat (j + 1)) (numbered log))" (is "?p \<Longrightarrow> ?q \<Longrightarrow> ?r")
proof -
  have "?valid \<and> ?mono \<and> ?fits \<and> (?p \<longrightarrow> ?q \<longrightarrow> ?r)"
    using assms
  proof (induction b rule: eb_enforceLimits.induct)
    case (1 b)
    note v = eb_valid_view [OF "1.prems"]
    have lim: "eb_maxEvents b = N" "eb_maxBytes b = B" "1 \<le> N" "1 \<le> B"
      "eb_bytes b = total_size (\<lambda>e. sz (snd e)) (eb_view b)" "length (eb_entries b) = length (eb_view b)"
      using "1.prems" by (simp_all add: eb_valid_def v [symmetric] eb_view_def)
    show ?case
    proof (cases "eb_entries b")
      case Nil
      then show ?thesis using "1.prems" lim
        by (simp add: eb_enforceLimits.simps [of b] fits_def eb_view_def)
    next
      case (Cons removed rest)
      let ?b = "b\<lparr>eb_entries := rest, eb_bytes := eb_bytes b - se_bytes removed,
                 eb_dropped := se_seq removed\<rparr>"
      show ?thesis
      proof (cases "int (length (eb_entries b)) > eb_maxEvents b \<or> eb_bytes b > eb_maxBytes b")
        case False
        then show ?thesis using "1.prems" lim Cons
          by (simp add: eb_enforceLimits.simps [of b] fits_def)
      next
        case True
        note d = eb_valid_drop [OF "1.prems" Cons]
        have step: "eb_enforceLimits b = eb_enforceLimits ?b"
          using True by (subst eb_enforceLimits.simps) (simp add: Cons)
        have over: "\<not> fits (\<lambda>e. sz (snd e)) N B (drop (nat (eb_dropped b + 1)) (numbered log))"
          using True lim v by (auto simp: fits_def)
        show ?thesis using "1.IH" [OF Cons True d(1)] d(2) over unfolding step
          by (cases "j = eb_dropped b") auto
      qed
    qed
  qed
  then show ?valid ?mono ?fits "?p \<Longrightarrow> ?q \<Longrightarrow> ?r" by blast+
qed

lemma eb_append_valid:
  assumes "eb_valid sz N B log b"
  shows "eb_valid sz N B (log @ [e]) (fst (eb_append sz e b))"
    and "eb_dropped b \<le> eb_dropped (fst (eb_append sz e b))"
    and "fits (\<lambda>e. sz (snd e)) N B (eb_view (fst (eb_append sz e b)))"
    and "eb_dropped b \<le> j \<Longrightarrow> j < eb_dropped (fst (eb_append sz e b))
      \<Longrightarrow> \<not> fits (\<lambda>e. sz (snd e)) N B (drop (nat (j + 1)) (numbered (log @ [e])))"
proof -
  let ?s = "\<lparr>se_seq = eb_next b, se_event = e, se_bytes = int (sz e)\<rparr>"
  let ?b = "b\<lparr>eb_next := eb_next b + 1, eb_entries := eb_entries b @ [?s],
             eb_bytes := eb_bytes b + se_bytes ?s\<rparr>"
  have "eb_valid sz N B (log @ [e]) ?b"
    using assms by (auto simp: eb_valid_def store_event_def)
  note v = eb_enforce_valid [OF this]
  have a: "fst (eb_append sz e b) = eb_enforceLimits ?b" by (simp add: eb_append_def Let_def)
  show "eb_valid sz N B (log @ [e]) (fst (eb_append sz e b))"
    and "eb_dropped b \<le> eb_dropped (fst (eb_append sz e b))"
    and "fits (\<lambda>e. sz (snd e)) N B (eb_view (fst (eb_append sz e b)))"
    and "eb_dropped b \<le> j \<Longrightarrow> j < eb_dropped (fst (eb_append sz e b))
      \<Longrightarrow> \<not> fits (\<lambda>e. sz (snd e)) N B (drop (nat (j + 1)) (numbered (log @ [e])))"
    using v unfolding a by simp_all
qed

lemma eb_ack_loop_valid:
  assumes "eb_valid sz N B log b"
  shows "eb_valid sz N B log (eb_ack_loop n b) \<and> eb_dropped b \<le> eb_dropped (eb_ack_loop n b)
    \<and> eb_dropped (eb_ack_loop n b) \<le> max (eb_dropped b) n"
  using assms
proof (induction n b rule: eb_ack_loop.induct)
  case (1 n b)
  show ?case
  proof (cases "eb_entries b")
    case Nil
    then show ?thesis using "1.prems" by (simp add: eb_ack_loop.simps [of n b])
  next
    case (Cons removed rest)
    note d = eb_valid_drop [OF "1.prems" Cons]
    show ?thesis
    proof (cases "se_seq removed \<le> n")
      case False
      then show ?thesis using "1.prems" Cons by (simp add: eb_ack_loop.simps [of n b])
    next
      case True
      have m: "max (eb_dropped b) (se_seq removed) = se_seq removed" using d(2) by simp
      show ?thesis using "1.IH" [OF Cons True] d True
        by (simp add: eb_ack_loop.simps [of n b] Cons m)
    qed
  qed
qed

text \<open>An acknowledgement that throws leaves the buffer.\<close>

definition eb_ack :: "int \<Rightarrow> 'e event_buffer \<Rightarrow> 'e event_buffer" where
  "eb_ack n b = (case eb_acknowledge n b of Inl err \<Rightarrow> b | Inr b' \<Rightarrow> b')"

lemma eb_ack_valid:
  "eb_valid sz N B log b \<Longrightarrow> eb_valid sz N B log (eb_ack n b)
     \<and> eb_dropped b \<le> eb_dropped (eb_ack n b)
     \<and> eb_dropped (eb_ack n b) \<le> max (eb_dropped b) n"
  using eb_ack_loop_valid [of sz N B log b n]
  by (simp add: eb_ack_def eb_acknowledge_def eb_ack_through_def)

interpretation eb: bounded_replay_buffer "eb_valid sz N B" eb_view eb_dropped
    "\<lambda>e b. fst (eb_append sz e b)" eb_ack eb_replay_from "fits (\<lambda>e. sz (snd e)) N B"
  for sz :: "'e \<Rightarrow> nat" and N B
proof
  fix log :: "'e list" and b n e j
  assume v: "eb_valid sz N B log b"
  show "-1 \<le> eb_dropped b \<and> eb_dropped b < int (length log)
      \<and> eb_view b = drop (nat (eb_dropped b + 1)) (numbered log)"
    using v eb_valid_view [OF v] by (simp add: eb_valid_def)
  show "eb_valid sz N B (log @ [e]) (fst (eb_append sz e b))" by (rule eb_append_valid [OF v])
  show "eb_dropped b \<le> eb_dropped (fst (eb_append sz e b))" by (rule eb_append_valid [OF v])
  show "fits (\<lambda>e. sz (snd e)) N B (eb_view (fst (eb_append sz e b)))" by (rule eb_append_valid [OF v])
  show "eb_valid sz N B log (eb_ack n b)"
    and "eb_dropped b \<le> eb_dropped (eb_ack n b)
      \<and> eb_dropped (eb_ack n b) \<le> max (eb_dropped b) n"
    using eb_ack_valid [OF v] by blast+
  show "\<not> fits (\<lambda>e. sz (snd e)) N B (drop (nat (j + 1)) (numbered (log @ [e])))"
    if "eb_dropped b \<le> j" "j < eb_dropped (fst (eb_append sz e b))"
    using that by (rule eb_append_valid [OF v])
  show "eb_replay_from after b = replay_of (eb_dropped b) after (eb_view b)" for after
    by (simp add: eb_replay_from_def replay_of_def eb_view_def filter_map comp_def)
qed (rule fits_drop)


section \<open>The frame buffer\<close>

text \<open>\<open>'e\<close> is a projected runtime event, \<open>'d\<close> an interaction draft.\<close>

datatype ('e, 'd) relay_frame =
    RuntimeEventFrame (frame_seq: int) 'e
  | InteractionFrame (frame_seq: int) 'd

record ('e, 'd) stored_frame =
  sf_frame :: "('e, 'd) relay_frame"
  sf_bytes :: int

record ('e, 'd) frame_buffer =
  fb_maxEvents :: int
  fb_maxBytes :: int
  fb_entries :: "('e, 'd) stored_frame list"
  fb_next :: int
  fb_bytes :: int
  fb_dropped :: int

definition DEFAULT_COMPANION_RELAY_FRAME_MAX_EVENTS :: int where
  "DEFAULT_COMPANION_RELAY_FRAME_MAX_EVENTS = 10000"

definition DEFAULT_COMPANION_RELAY_FRAME_MAX_BYTES :: int where
  "DEFAULT_COMPANION_RELAY_FRAME_MAX_BYTES = RUNTIME_V13_DEFAULT_REPLAY_BUFFER_BYTES"

definition newFrameBuffer :: "int option \<Rightarrow> int option \<Rightarrow> buffer_error + ('e, 'd) frame_buffer" where
  "newFrameBuffer maxEvents maxBytes =
     (let me = (case maxEvents of None \<Rightarrow> DEFAULT_COMPANION_RELAY_FRAME_MAX_EVENTS | Some n \<Rightarrow> n);
          mb = (case maxBytes of None \<Rightarrow> DEFAULT_COMPANION_RELAY_FRAME_MAX_BYTES | Some n \<Rightarrow> n)
      in if me < 1 then Inl BadMaxEvents
         else if mb < 1 then Inl BadMaxBytes
         else Inr \<lparr>fb_maxEvents = me, fb_maxBytes = mb, fb_entries = [], fb_next = 0, fb_bytes = 0,
                   fb_dropped = -1\<rparr>)"

definition dropOldest :: "('e, 'd) frame_buffer \<Rightarrow> ('e, 'd) frame_buffer" where
  "dropOldest b =
     (case fb_entries b of
        [] \<Rightarrow> b
      | removed # rest \<Rightarrow>
          b\<lparr>fb_entries := rest, fb_bytes := fb_bytes b - sf_bytes removed,
            fb_dropped := max (fb_dropped b) (frame_seq (sf_frame removed))\<rparr>)"

function fb_enforceLimits :: "('e, 'd) frame_buffer \<Rightarrow> ('e, 'd) frame_buffer" where
  "fb_enforceLimits b =
     (if fb_entries b \<noteq> []
         \<and> (int (length (fb_entries b)) > fb_maxEvents b \<or> fb_bytes b > fb_maxBytes b)
      then fb_enforceLimits (dropOldest b) else b)"
  by pat_completeness auto
termination
  by (relation "measure (\<lambda>b. length (fb_entries b))") (auto simp: dropOldest_def split: list.splits)

declare fb_enforceLimits.simps [simp del]

lemma fb_enforceLimits_code [code]:
  "fb_enforceLimits b =
     (case fb_entries b of
        [] \<Rightarrow> b
      | _ # _ \<Rightarrow>
          if int (length (fb_entries b)) > fb_maxEvents b \<or> fb_bytes b > fb_maxBytes b
          then fb_enforceLimits (dropOldest b) else b)"
  by (subst fb_enforceLimits.simps) (simp split: list.split)

definition fb_append ::
  "(('e, 'd) relay_frame \<Rightarrow> nat) \<Rightarrow> ('e, 'd) relay_frame \<Rightarrow> ('e, 'd) frame_buffer
    \<Rightarrow> ('e, 'd) frame_buffer \<times> ('e, 'd) relay_frame" where
  "fb_append sz frame b =
     (let stored = \<lparr>sf_frame = frame, sf_bytes = int (sz frame)\<rparr>
      in (fb_enforceLimits (b\<lparr>fb_next := fb_next b + 1, fb_entries := fb_entries b @ [stored],
                             fb_bytes := fb_bytes b + sf_bytes stored\<rparr>), frame))"

definition appendRuntimeEvent ::
  "(('e, 'd) relay_frame \<Rightarrow> nat) \<Rightarrow> ('r \<Rightarrow> 'e option) \<Rightarrow> 'r \<Rightarrow> ('e, 'd) frame_buffer
    \<Rightarrow> ('e, 'd) frame_buffer \<times> ('e, 'd) relay_frame option" where
  "appendRuntimeEvent sz project event b =
     (case project event of
        None \<Rightarrow> (b, None)
      | Some projected \<Rightarrow>
          (case fb_append sz (RuntimeEventFrame (fb_next b) projected) b of
             (b1, frame) \<Rightarrow> (b1, Some frame)))"

definition appendInteraction ::
  "(('e, 'd) relay_frame \<Rightarrow> nat) \<Rightarrow> ('i \<Rightarrow> 'x + 'd) \<Rightarrow> 'i \<Rightarrow> ('e, 'd) frame_buffer
    \<Rightarrow> ('e, 'd) frame_buffer \<times> ('x + ('e, 'd) relay_frame)" where
  "appendInteraction sz parse draft b =
     (case parse draft of
        Inl err \<Rightarrow> (b, Inl err)
      | Inr parsed \<Rightarrow>
          (case fb_append sz (InteractionFrame (fb_next b) parsed) b of
             (b1, frame) \<Rightarrow> (b1, Inr frame)))"

definition fb_replay_from ::
  "int \<Rightarrow> ('e, 'd) frame_buffer \<Rightarrow> ('e, 'd) relay_frame list \<times> (int \<times> int) option" where
  "fb_replay_from after b =
     (map sf_frame (filter (\<lambda>entry. frame_seq (sf_frame entry) > after) (fb_entries b)),
      if after < fb_dropped b then Some (after + 1, fb_dropped b) else None)"

definition fb_replay ::
  "int \<Rightarrow> ('e, 'd) frame_buffer \<Rightarrow> buffer_error + ('e, 'd) relay_frame list \<times> (int \<times> int) option" where
  "fb_replay after b = (if after < -1 then Inl BadReplayPoint else Inr (fb_replay_from after b))"

definition fb_highest :: "('e, 'd) frame_buffer \<Rightarrow> int" where
  "fb_highest b = fb_next b - 1"

function fb_ack_loop :: "int \<Rightarrow> ('e, 'd) frame_buffer \<Rightarrow> ('e, 'd) frame_buffer" where
  "fb_ack_loop through b =
     (if fb_entries b \<noteq> [] \<and> frame_seq (sf_frame (hd (fb_entries b))) \<le> through
      then fb_ack_loop through (dropOldest b) else b)"
  by pat_completeness auto
termination
  by (relation "measure (\<lambda>(t, b). length (fb_entries b))")
    (auto simp: dropOldest_def split: list.splits)

declare fb_ack_loop.simps [simp del]

lemma fb_ack_loop_code [code]:
  "fb_ack_loop through b =
     (case fb_entries b of
        [] \<Rightarrow> b
      | removed # _ \<Rightarrow>
          if frame_seq (sf_frame removed) \<le> through then fb_ack_loop through (dropOldest b) else b)"
  by (subst fb_ack_loop.simps) (simp split: list.split)

definition fb_ack_through :: "int \<Rightarrow> ('e, 'd) frame_buffer \<Rightarrow> ('e, 'd) frame_buffer" where
  "fb_ack_through through b = (if through > fb_highest b then b else fb_ack_loop through b)"

definition fb_acknowledge :: "int \<Rightarrow> ('e, 'd) frame_buffer \<Rightarrow> buffer_error + ('e, 'd) frame_buffer" where
  "fb_acknowledge through b =
     (if through < -1 then Inl BadAckPoint else Inr (fb_ack_through through b))"

subsection \<open>It is a bounded replay buffer\<close>

text \<open>A frame is its number and its content, an event or a draft.\<close>

fun frame_of :: "int \<times> ('e + 'd) \<Rightarrow> ('e, 'd) relay_frame" where
  "frame_of (n, Inl e) = RuntimeEventFrame n e"
| "frame_of (n, Inr d) = InteractionFrame n d"

fun content_of :: "('e, 'd) relay_frame \<Rightarrow> 'e + 'd" where
  "content_of (RuntimeEventFrame n e) = Inl e"
| "content_of (InteractionFrame n d) = Inr d"

definition numbered_frame :: "('e, 'd) relay_frame \<Rightarrow> int \<times> ('e + 'd)" where
  "numbered_frame f = (frame_seq f, content_of f)"

lemma frame_of_seq [simp]: "frame_seq (frame_of e) = fst e"
  by (cases e rule: frame_of.cases) simp_all

lemma frame_of_inverse [simp]: "numbered_frame (frame_of e) = e" "frame_of (numbered_frame f) = f"
  by (cases e rule: frame_of.cases, simp_all add: numbered_frame_def) (cases f; simp)

definition fb_view :: "('e, 'd) frame_buffer \<Rightarrow> (int \<times> ('e + 'd)) list" where
  "fb_view b = map (\<lambda>s. numbered_frame (sf_frame s)) (fb_entries b)"

definition store_frame :: "(('e, 'd) relay_frame \<Rightarrow> nat) \<Rightarrow> int \<times> ('e + 'd) \<Rightarrow> ('e, 'd) stored_frame" where
  "store_frame sz e = \<lparr>sf_frame = frame_of e, sf_bytes = int (sz (frame_of e))\<rparr>"

lemma store_frame_simps [simp]:
  "sf_frame (store_frame sz e) = frame_of e" "sf_bytes (store_frame sz e) = int (sz (frame_of e))"
  by (simp_all add: store_frame_def)

definition fb_valid ::
  "(('e, 'd) relay_frame \<Rightarrow> nat) \<Rightarrow> int \<Rightarrow> int \<Rightarrow> ('e + 'd) list \<Rightarrow> ('e, 'd) frame_buffer \<Rightarrow> bool" where
  "fb_valid sz maxEvents maxBytes log b \<longleftrightarrow>
     fb_maxEvents b = maxEvents \<and> fb_maxBytes b = maxBytes \<and> 1 \<le> maxEvents \<and> 1 \<le> maxBytes
     \<and> fb_next b = int (length log) \<and> -1 \<le> fb_dropped b \<and> fb_dropped b < int (length log)
     \<and> fb_entries b = map (store_frame sz) (drop (nat (fb_dropped b + 1)) (numbered log))
     \<and> fb_bytes b = total_size (\<lambda>e. sz (frame_of e)) (drop (nat (fb_dropped b + 1)) (numbered log))"

lemma fb_valid_view: "fb_valid sz N B log b \<Longrightarrow> fb_view b = drop (nat (fb_dropped b + 1)) (numbered log)"
  by (simp add: fb_valid_def fb_view_def comp_def)

lemma fb_valid_drop:
  assumes "fb_valid sz N B log b" and "fb_entries b \<noteq> []"
  shows "fb_valid sz N B log (dropOldest b)"
    and "fb_dropped (dropOldest b) = fb_dropped b + 1"
    and "frame_seq (sf_frame (hd (fb_entries b))) = fb_dropped b + 1"
proof -
  let ?d = "nat (fb_dropped b + 1)"
  have es: "fb_entries b = map (store_frame sz) (drop ?d (numbered log))"
    using assms(1) by (simp add: fb_valid_def)
  then obtain e es where d: "drop ?d (numbered log) = e # es"
    using assms(2) by (cases "drop ?d (numbered log)") simp_all
  then have b: "fb_entries b = store_frame sz e # map (store_frame sz) es" by (simp add: es)
  note h = numbered_head [OF d]
  have n: "nat (2 + fb_dropped b) = Suc ?d" using assms(1) unfolding fb_valid_def by arith
  have s: "fst e = fb_dropped b + 1" using h assms(1) by (simp add: fb_valid_def)
  then show "frame_seq (sf_frame (hd (fb_entries b))) = fb_dropped b + 1"
    and "fb_dropped (dropOldest b) = fb_dropped b + 1"
    by (simp_all add: b dropOldest_def)
  then show "fb_valid sz N B log (dropOldest b)"
    using assms(1) h d n conjunct1 [OF conjunct2 [OF h]] s
    by (simp add: fb_valid_def b dropOldest_def nat_less_iff)
qed

lemma fb_enforce_valid:
  assumes "fb_valid sz N B log b"
  shows "fb_valid sz N B log (fb_enforceLimits b)" (is ?valid)
    and "fb_dropped b \<le> fb_dropped (fb_enforceLimits b)" (is ?mono)
    and "fits (\<lambda>e. sz (frame_of e)) N B (fb_view (fb_enforceLimits b))" (is ?fits)
    and "fb_dropped b \<le> j \<Longrightarrow> j < fb_dropped (fb_enforceLimits b)
      \<Longrightarrow> \<not> fits (\<lambda>e. sz (frame_of e)) N B (drop (nat (j + 1)) (numbered log))" (is "?p \<Longrightarrow> ?q \<Longrightarrow> ?r")
proof -
  have "?valid \<and> ?mono \<and> ?fits \<and> (?p \<longrightarrow> ?q \<longrightarrow> ?r)"
    using assms
  proof (induction b rule: fb_enforceLimits.induct)
    case (1 b)
    note v = fb_valid_view [OF "1.prems"]
    have lim: "fb_maxEvents b = N" "fb_maxBytes b = B" "1 \<le> N" "1 \<le> B"
      "fb_bytes b = total_size (\<lambda>e. sz (frame_of e)) (fb_view b)"
      "length (fb_entries b) = length (fb_view b)"
      using "1.prems" by (simp_all add: fb_valid_def v [symmetric] fb_view_def)
    show ?case
    proof (cases "fb_entries b \<noteq> [] \<and> (int (length (fb_entries b)) > fb_maxEvents b
        \<or> fb_bytes b > fb_maxBytes b)")
      case False
      then have "fb_enforceLimits b = b"
        by (subst fb_enforceLimits.simps) (rule if_not_P)
      moreover have "fits (\<lambda>e. sz (frame_of e)) N B (fb_view b)"
      proof (cases "fb_entries b = []")
        case True
        then show ?thesis using lim(3,4) by (simp add: fits_def fb_view_def)
      next
        case ne: False
        then show ?thesis using False lim by (simp add: fits_def)
      qed
      ultimately show ?thesis using "1.prems" by simp
    next
      case True
      note d = fb_valid_drop [OF "1.prems" conjunct1 [OF True]]
      have step: "fb_enforceLimits b = fb_enforceLimits (dropOldest b)"
        using True by (subst fb_enforceLimits.simps) simp
      have over: "\<not> fits (\<lambda>e. sz (frame_of e)) N B (drop (nat (fb_dropped b + 1)) (numbered log))"
        using True lim v by (auto simp: fits_def)
      show ?thesis using "1.IH" [OF True d(1)] d(2) over unfolding step
        by (cases "j = fb_dropped b") auto
    qed
  qed
  then show ?valid ?mono ?fits "?p \<Longrightarrow> ?q \<Longrightarrow> ?r" by blast+
qed

text \<open>Appending content under the next number, as both public operations do.\<close>

definition fb_push ::
  "(('e, 'd) relay_frame \<Rightarrow> nat) \<Rightarrow> 'e + 'd \<Rightarrow> ('e, 'd) frame_buffer \<Rightarrow> ('e, 'd) frame_buffer" where
  "fb_push sz content b = fst (fb_append sz (frame_of (fb_next b, content)) b)"

lemma append_is_push:
  "fst (appendRuntimeEvent sz project event b) =
     (case project event of None \<Rightarrow> b | Some e \<Rightarrow> fb_push sz (Inl e) b)"
  "fst (appendInteraction sz parse draft b) =
     (case parse draft of Inl err \<Rightarrow> b | Inr d \<Rightarrow> fb_push sz (Inr d) b)"
  by (simp_all add: appendRuntimeEvent_def appendInteraction_def fb_push_def
      split: option.split sum.split prod.split)

lemma fb_append_valid:
  assumes "fb_valid sz N B log b"
  shows "fb_valid sz N B (log @ [e]) (fb_push sz e b)"
    and "fb_dropped b \<le> fb_dropped (fb_push sz e b)"
    and "fits (\<lambda>e. sz (frame_of e)) N B (fb_view (fb_push sz e b))"
    and "fb_dropped b \<le> j \<Longrightarrow> j < fb_dropped (fb_push sz e b)
      \<Longrightarrow> \<not> fits (\<lambda>e. sz (frame_of e)) N B (drop (nat (j + 1)) (numbered (log @ [e])))"
proof -
  let ?s = "store_frame sz (fb_next b, e)"
  let ?b = "b\<lparr>fb_next := fb_next b + 1, fb_entries := fb_entries b @ [?s],
             fb_bytes := fb_bytes b + sf_bytes ?s\<rparr>"
  have "fb_valid sz N B (log @ [e]) ?b" using assms by (auto simp: fb_valid_def)
  note v = fb_enforce_valid [OF this]
  have a: "fb_push sz e b = fb_enforceLimits ?b"
    by (simp add: fb_push_def fb_append_def store_frame_def Let_def)
  show "fb_valid sz N B (log @ [e]) (fb_push sz e b)"
    and "fb_dropped b \<le> fb_dropped (fb_push sz e b)"
    and "fits (\<lambda>e. sz (frame_of e)) N B (fb_view (fb_push sz e b))"
    and "fb_dropped b \<le> j \<Longrightarrow> j < fb_dropped (fb_push sz e b)
      \<Longrightarrow> \<not> fits (\<lambda>e. sz (frame_of e)) N B (drop (nat (j + 1)) (numbered (log @ [e])))"
    using v unfolding a by simp_all
qed

lemma fb_ack_loop_valid:
  assumes "fb_valid sz N B log b"
  shows "fb_valid sz N B log (fb_ack_loop n b) \<and> fb_dropped b \<le> fb_dropped (fb_ack_loop n b)
    \<and> fb_dropped (fb_ack_loop n b) \<le> max (fb_dropped b) n"
  using assms
proof (induction n b rule: fb_ack_loop.induct)
  case (1 n b)
  show ?case
  proof (cases "fb_entries b \<noteq> [] \<and> frame_seq (sf_frame (hd (fb_entries b))) \<le> n")
    case False
    then show ?thesis using "1.prems" by (subst (1 2 3) fb_ack_loop.simps) auto
  next
    case True
    note d = fb_valid_drop [OF "1.prems" conjunct1 [OF True]]
    have "fb_ack_loop n b = fb_ack_loop n (dropOldest b)"
      using True by (subst fb_ack_loop.simps) simp
    then show ?thesis using "1.IH" [OF True d(1)] d True by simp
  qed
qed

definition fb_ack :: "int \<Rightarrow> ('e, 'd) frame_buffer \<Rightarrow> ('e, 'd) frame_buffer" where
  "fb_ack n b = (case fb_acknowledge n b of Inl err \<Rightarrow> b | Inr b' \<Rightarrow> b')"

lemma fb_ack_valid:
  "fb_valid sz N B log b \<Longrightarrow> fb_valid sz N B log (fb_ack n b)
     \<and> fb_dropped b \<le> fb_dropped (fb_ack n b)
     \<and> fb_dropped (fb_ack n b) \<le> max (fb_dropped b) n"
  using fb_ack_loop_valid [of sz N B log b n]
  by (simp add: fb_ack_def fb_acknowledge_def fb_ack_through_def)

definition fb_replay_numbered ::
  "int \<Rightarrow> ('e, 'd) frame_buffer \<Rightarrow> (int \<times> ('e + 'd)) list \<times> (int \<times> int) option" where
  "fb_replay_numbered after b = map_prod (map numbered_frame) id (fb_replay_from after b)"

interpretation fb: bounded_replay_buffer "fb_valid sz N B" fb_view fb_dropped
    "fb_push sz" fb_ack fb_replay_numbered "fits (\<lambda>e. sz (frame_of e)) N B"
  for sz :: "('e, 'd) relay_frame \<Rightarrow> nat" and N B
proof
  fix log :: "('e + 'd) list" and b n e j
  assume v: "fb_valid sz N B log b"
  show "-1 \<le> fb_dropped b \<and> fb_dropped b < int (length log)
      \<and> fb_view b = drop (nat (fb_dropped b + 1)) (numbered log)"
    using v fb_valid_view [OF v] by (simp add: fb_valid_def)
  show "fb_valid sz N B (log @ [e]) (fb_push sz e b)" by (rule fb_append_valid [OF v])
  show "fb_dropped b \<le> fb_dropped (fb_push sz e b)" by (rule fb_append_valid [OF v])
  show "fits (\<lambda>e. sz (frame_of e)) N B (fb_view (fb_push sz e b))" by (rule fb_append_valid [OF v])
  show "fb_valid sz N B log (fb_ack n b)"
    and "fb_dropped b \<le> fb_dropped (fb_ack n b)
      \<and> fb_dropped (fb_ack n b) \<le> max (fb_dropped b) n"
    using fb_ack_valid [OF v] by blast+
  show "\<not> fits (\<lambda>e. sz (frame_of e)) N B (drop (nat (j + 1)) (numbered (log @ [e])))"
    if "fb_dropped b \<le> j" "j < fb_dropped (fb_push sz e b)"
    using that by (rule fb_append_valid [OF v])
  show "fb_replay_numbered after b = replay_of (fb_dropped b) after (fb_view b)" for after
    by (simp add: fb_replay_numbered_def fb_replay_from_def replay_of_def fb_view_def filter_map comp_def
        numbered_frame_def)
qed (rule fits_drop)


section \<open>What the bridges rely on\<close>

lemma newEventBuffer_valid:
  "newEventBuffer me mb = Inr b
   \<Longrightarrow> eb_valid sz (eb_maxEvents b) (eb_maxBytes b) [] b \<and> eb_view b = []"
  by (auto simp: newEventBuffer_def eb_valid_def eb_view_def Let_def split: if_splits)

lemma newFrameBuffer_valid:
  "newFrameBuffer me mb = Inr b
   \<Longrightarrow> fb_valid sz (fb_maxEvents b) (fb_maxBytes b) [] b \<and> fb_view b = []"
  by (auto simp: newFrameBuffer_def fb_valid_def fb_view_def Let_def split: if_splits)

abbreviation event_buffer_after ::
  "('e \<Rightarrow> nat) \<Rightarrow> 'e buffer_step list \<Rightarrow> 'e event_buffer \<Rightarrow> 'e event_buffer" where
  "event_buffer_after sz \<equiv> run_buffer (\<lambda>e b. fst (eb_append sz e b)) eb_ack"

text \<open>
  C25: A replay of the event buffer accounts for everything. Whatever was appended and acknowledged
  before, a replay after a valid point below the newest event succeeds, every event it returns is
  the one appended under its number, and its gap followed by its events runs without hole or
  repetition from the next number to the newest.
\<close>

theorem event_replay_complete:
  assumes "newEventBuffer me mb = Inr b" and "-1 \<le> after" and "after < int (length (appended steps))"
  shows "\<exists>r. eb_replay after (event_buffer_after sz steps b) = Inr r
    \<and> set (fst r) \<subseteq> set (numbered (appended steps))
    \<and> covered r = [after + 1..int (length (appended steps)) - 1]"
proof -
  have "eb_valid sz (eb_maxEvents b) (eb_maxBytes b) [] b" using newEventBuffer_valid [OF assms(1)] by blast
  from eb.run_valid [OF this, of steps]
  have v: "eb_valid sz (eb_maxEvents b) (eb_maxBytes b) (appended steps) (event_buffer_after sz steps b)"
    by simp
  have "eb_replay after (event_buffer_after sz steps b)
      = Inr (eb_replay_from after (event_buffer_after sz steps b))"
    using assms(2) by (simp add: eb_replay_def)
  moreover have "set (fst (eb_replay_from after (event_buffer_after sz steps b)))
      \<subseteq> set (numbered (appended steps))"
    by (simp add: eb.replay_log [OF v assms(2)])
  ultimately show ?thesis using eb.replay_contiguous [OF v assms(2,3)] by blast
qed

abbreviation frame_buffer_after ::
  "(('e, 'd) relay_frame \<Rightarrow> nat) \<Rightarrow> ('e + 'd) buffer_step list \<Rightarrow> ('e, 'd) frame_buffer
    \<Rightarrow> ('e, 'd) frame_buffer" where
  "frame_buffer_after sz \<equiv> run_buffer (fb_push sz) fb_ack"

text \<open>
  C26: The frame buffer stays within its limits and drops no more than it must. After any history it
  holds at most \<open>maxEvents\<close> frames of at most \<open>maxBytes\<close> bytes in total; appending a runtime event
  that projects to the wire returns it under the next number, and whenever the append drops frames,
  keeping one more of them would have exceeded a limit.
\<close>

theorem frame_buffer_bounded:
  assumes "newFrameBuffer me mb = Inr b0" and "b = frame_buffer_after sz steps b0"
    and "project event = Some e" and "appendRuntimeEvent sz project event b = (b', frame)"
  shows "fits (\<lambda>x. sz (frame_of x)) (fb_maxEvents b0) (fb_maxBytes b0) (fb_view b)
    \<and> frame = Some (RuntimeEventFrame (int (length (appended steps))) e)
    \<and> fits (\<lambda>x. sz (frame_of x)) (fb_maxEvents b0) (fb_maxBytes b0) (fb_view b')
    \<and> (fb_dropped b < fb_dropped b' \<longrightarrow>
         \<not> fits (\<lambda>x. sz (frame_of x)) (fb_maxEvents b0) (fb_maxBytes b0)
             (drop (nat (fb_dropped b')) (numbered (appended steps @ [Inl e]))))"
proof -
  let ?N = "fb_maxEvents b0" and ?B = "fb_maxBytes b0"
  have v0: "fb_valid sz ?N ?B [] b0" "fb_view b0 = []" using newFrameBuffer_valid [OF assms(1)] by blast+
  have "fits (\<lambda>x. sz (frame_of x)) ?N ?B []"
    using v0(1) by (simp add: fits_def fb_valid_def)
  then have f: "fits (\<lambda>x. sz (frame_of x)) ?N ?B (fb_view b)"
    unfolding assms(2) using fb.run_within [OF v0(1)] v0(2) by simp
  have v: "fb_valid sz ?N ?B (appended steps) b" using fb.run_valid [OF v0(1), of steps] by (simp add: assms(2))
  have b': "b' = fb_push sz (Inl e) b" using assms(3,4) append_is_push(1) [of sz project event b] by simp
  have "\<not> fits (\<lambda>x. sz (frame_of x)) ?N ?B (drop (nat (fb_dropped b')) (numbered (appended steps @ [Inl e])))"
    if "fb_dropped b < fb_dropped b'"
    using that fb.drops_needed [OF v, of "fb_dropped b' - 1" "Inl e"] by (simp add: b')
  moreover have "frame = Some (RuntimeEventFrame (int (length (appended steps))) e)"
    using assms(3,4) v by (auto simp: appendRuntimeEvent_def fb_append_def fb_valid_def)
  ultimately show ?thesis using f fb.push_within [OF v, of "Inl e"] by (simp add: b')
qed

lemma event_replay_complete_witness:
  "projr (eb_replay 0 (event_buffer_after (\<lambda>e. 3) [Append ''a'', Append ''b'', Append ''c'', Append ''d'',
       Acknowledge 1] (projr (newEventBuffer (Some 3) None)))) = ([(2, ''c''), (3, ''d'')], Some (1, 1))
   \<and> covered (projr (eb_replay 0 (event_buffer_after (\<lambda>e. 3) [Append ''a'', Append ''b'', Append ''c'',
       Append ''d'', Acknowledge 1] (projr (newEventBuffer (Some 3) None))))) = [1..3]"
proof -
  let ?b = "projr (newEventBuffer (Some 3) None)"
  let ?s = "[Append ''a'', Append ''b'', Append ''c'', Append ''d'', Acknowledge 1]"
  have "newEventBuffer (Some 3) None = Inr ?b"
    by (simp add: newEventBuffer_def DEFAULT_COMPANION_MAX_BYTES_def RUNTIME_V13_DEFAULT_REPLAY_BUFFER_BYTES_def)
  from event_replay_complete [OF this, of 0 ?s "\<lambda>e. 3"]
  have "covered (projr (eb_replay 0 (event_buffer_after (\<lambda>e. 3) ?s ?b))) = [1..3]" by auto
  moreover have "projr (eb_replay 0 (event_buffer_after (\<lambda>e. 3) ?s ?b)) = ([(2, ''c''), (3, ''d'')], Some (1, 1))"
    by code_simp
  ultimately show ?thesis by simp
qed

lemma frame_buffer_bounded_witness:
  "fb_dropped (fst (appendRuntimeEvent (\<lambda>f. 3) Some ''c''
       (frame_buffer_after (\<lambda>f. 3) [Append (Inl ''a''), Append (Inr ())] (projr (newFrameBuffer None (Some 6)))))) = 0
   \<and> \<not> fits (\<lambda>x. 3) 10000 6 (numbered [Inl ''a'', Inr (), Inl ''c''])"
proof -
  let ?start = "projr (newFrameBuffer None (Some 6)) :: (string, unit) frame_buffer"
  let ?s = "[Append (Inl ''a''), Append (Inr ())]"
  let ?b = "frame_buffer_after (\<lambda>f. 3) ?s ?start"
  let ?r = "appendRuntimeEvent (\<lambda>f. 3) Some ''c'' ?b"
  have n: "newFrameBuffer None (Some 6) = Inr ?start" "fb_maxEvents ?start = 10000" "fb_maxBytes ?start = 6"
    by (simp_all add: newFrameBuffer_def DEFAULT_COMPANION_RELAY_FRAME_MAX_EVENTS_def)
  have d: "fb_dropped (fst ?r) = 0" "fb_dropped ?b = -1" by code_simp+
  have "fb_dropped ?b < fb_dropped (fst ?r)" by (simp only: d)
  with frame_buffer_bounded [of None "Some 6" ?start ?b "\<lambda>f. 3" ?s Some "''c''" "''c''" "fst ?r" "snd ?r",
      OF n(1) refl refl surjective_pairing]
  have "\<not> fits (\<lambda>x. 3) 10000 6 (drop (nat (fb_dropped (fst ?r))) (numbered (appended ?s @ [Inl ''c''])))"
    unfolding n(2,3) by blast
  moreover have "appended ?s @ [Inl ''c''] = [Inl ''a'', Inr (), Inl ''c'']" by simp
  ultimately have "\<not> fits (\<lambda>x. 3) 10000 6 (numbered [Inl ''a'', Inr (), Inl ''c''])"
    unfolding d(1) by (simp only: nat_zero_as_int [symmetric] nat_0 drop_0 not_False_eq_True)
  with d(1) show ?thesis by (rule conjI)
qed

end
