(* ===== verification/CompanionBridge.thy ===== *)
theory CompanionBridge
  imports CompanionBuffers
begin

text \<open>
  The relay bridge of wire 1.0 (\<open>relay-bridge.ts\<close>): what a companion's workspaces append is sent over
  the current transport, replayed from the last acknowledgement after a reconnect, and acknowledged by
  the relay only as far as it was advertised; a cache answers repeated requests; the outbound relay
  reconnects with a growing delay. A transport generation sends one task at a time, split at its
  awaits, so appends, acknowledgements and new connections interleave with a send in progress. What a
  transport that was replaced still does changes nothing and is not kept.
\<close>

section \<open>Messages and generations\<close>

text \<open>\<open>'r\<close> is a projected event, \<open>'m\<close> a response, \<open>'x\<close> a sealed payload.\<close>

datatype ('r, 'm, 'x) relay_message =
    DeviceConnect
  | RuntimeEvent string int 'r
  | RuntimeGap string int int
  | RuntimeResponse string 'm
  | EncryptedEvent string int 'x
  | EncryptedResponse string 'x

text \<open>A task of a generation's queue: send a message as it is, or seal a payload first.\<close>

datatype ('r, 'm, 'x) relay_task =
    Plain "('r, 'm, 'x) relay_message"
  | SealEvent string int 'r
  | SealResponse string 'm

datatype ('r, 'm, 'x) stage =
    Encrypting "('r, 'm, 'x) relay_task"
  | Sending "('r, 'm, 'x) relay_message"

record ('r, 'm, 'x) generation =
  g_advertised :: "string \<Rightarrow> int option"
  g_queue :: "('r, 'm, 'x) relay_task list"
  g_stage :: "('r, 'm, 'x) stage option"
  g_sent :: "('r, 'm, 'x) relay_message list"

record ('e, 'r, 'm, 'x) bridge =
  br_buffers :: "(string \<times> 'e event_buffer) list"
  br_acknowledged :: "string \<Rightarrow> int option"
  br_generation :: "('r, 'm, 'x) generation option"
  br_wire :: "('r, 'm, 'x) relay_message list"

text \<open>The environment: the serialised size of an event, the projection to the wire (none when the
  schema rejects the event) and the workspaces with a cipher.\<close>

record ('e, 'r) bridge_env =
  be_size :: "'e \<Rightarrow> nat"
  be_project :: "'e \<Rightarrow> 'r option"
  be_ciphers :: "string list"

section \<open>Acknowledgements\<close>

datatype ack_disposition = Advance | Duplicate | InvalidAck

definition classifyRelayAck :: "int \<Rightarrow> int \<Rightarrow> int \<Rightarrow> ack_disposition" where
  "classifyRelayAck acknowledgedThrough advertisedThrough incomingThrough =
     (if acknowledgedThrough < -1 \<or> advertisedThrough < -1 \<or> incomingThrough < -1
         \<or> incomingThrough > advertisedThrough
      then InvalidAck
      else if incomingThrough > acknowledgedThrough then Advance else Duplicate)"

definition or_none :: "int option \<Rightarrow> int" where
  "or_none n = (case n of None \<Rightarrow> -1 | Some n \<Rightarrow> n)"

text \<open>\<open>workspace.acknowledge\<close>, which an acknowledgement of at least \<open>-1\<close> never makes throw.\<close>

definition ack_workspace ::
  "string \<Rightarrow> int \<Rightarrow> (string \<times> 'e event_buffer) list \<Rightarrow> (string \<times> 'e event_buffer) list" where
  "ack_workspace w through bufs =
     map (\<lambda>(w', buf). (w', if w' = w then (case eb_acknowledge through buf of Inl _ \<Rightarrow> buf | Inr b \<Rightarrow> b) else buf))
       bufs"

definition handle_ack :: "string \<Rightarrow> int \<Rightarrow> ('e, 'r, 'm, 'x) bridge \<Rightarrow> ('e, 'r, 'm, 'x) bridge" where
  "handle_ack w through b =
     (case br_generation b of
        None \<Rightarrow> b
      | Some g \<Rightarrow>
          if map_of (br_buffers b) w = None then b
          else if classifyRelayAck (or_none (br_acknowledged b w)) (or_none (g_advertised g w)) through = Advance
          then b\<lparr>br_acknowledged := (br_acknowledged b)(w \<mapsto> through),
                 br_buffers := ack_workspace w through (br_buffers b)\<rparr>
          else b)"

section \<open>The queue of a generation\<close>

definition enqueue_task :: "('r, 'm, 'x) relay_task \<Rightarrow> ('e, 'r, 'm, 'x) bridge \<Rightarrow> ('e, 'r, 'm, 'x) bridge" where
  "enqueue_task t b =
     (case br_generation b of
        None \<Rightarrow> b
      | Some g \<Rightarrow> b\<lparr>br_generation := Some (g\<lparr>g_queue := g_queue g @ [t]\<rparr>)\<rparr>)"

definition sendRuntimeEvent ::
  "('e, 'r) bridge_env \<Rightarrow> string \<Rightarrow> int \<Rightarrow> 'e \<Rightarrow> ('e, 'r, 'm, 'x) bridge
    \<Rightarrow> ('e, 'r, 'm, 'x) bridge option" where
  "sendRuntimeEvent env w relaySequence event b =
     (case be_project env event of
        None \<Rightarrow> None
      | Some relayEvent \<Rightarrow>
          Some (enqueue_task
            (if w \<notin> set (be_ciphers env) then Plain (RuntimeEvent w relaySequence relayEvent)
             else SealEvent w relaySequence relayEvent) b))"

definition sendRuntimeResponse ::
  "('e, 'r) bridge_env \<Rightarrow> string \<Rightarrow> 'm \<Rightarrow> ('e, 'r, 'm, 'x) bridge \<Rightarrow> ('e, 'r, 'm, 'x) bridge" where
  "sendRuntimeResponse env w response b =
     enqueue_task (if w \<notin> set (be_ciphers env) then Plain (RuntimeResponse w response)
                   else SealResponse w response) b"

definition markAdvertised :: "string \<Rightarrow> int \<Rightarrow> ('r, 'm, 'x) generation \<Rightarrow> ('r, 'm, 'x) generation" where
  "markAdvertised w relaySequence g =
     g\<lparr>g_advertised := (g_advertised g)(w \<mapsto> max (or_none (g_advertised g w)) relaySequence)\<rparr>"

text \<open>What is marked once a message is sent.\<close>

definition mark_sent :: "('r, 'm, 'x) relay_message \<Rightarrow> ('r, 'm, 'x) generation \<Rightarrow> ('r, 'm, 'x) generation" where
  "mark_sent message g =
     (case message of
        RuntimeEvent w n _ \<Rightarrow> markAdvertised w n g
      | RuntimeGap w _ through \<Rightarrow> markAdvertised w through g
      | EncryptedEvent w n _ \<Rightarrow> markAdvertised w n g
      | _ \<Rightarrow> g)"

definition begin_send ::
  "('r, 'm, 'x) relay_message \<Rightarrow> ('r, 'm, 'x) generation \<Rightarrow> ('e, 'r, 'm, 'x) bridge
    \<Rightarrow> ('e, 'r, 'm, 'x) bridge" where
  "begin_send message g b = b\<lparr>br_generation := Some (g\<lparr>g_stage := Some (Sending message)\<rparr>)\<rparr>"

text \<open>The current generation starts its next task, if it has none in progress.\<close>

definition start_task :: "('e, 'r, 'm, 'x) bridge \<Rightarrow> ('e, 'r, 'm, 'x) bridge" where
  "start_task b =
     (case br_generation b of
        None \<Rightarrow> b
      | Some g \<Rightarrow>
          (case (g_stage g, g_queue g) of
             (None, Plain message # rest) \<Rightarrow> begin_send message (g\<lparr>g_queue := rest\<rparr>) b
           | (None, t # rest) \<Rightarrow>
               b\<lparr>br_generation := Some (g\<lparr>g_queue := rest, g_stage := Some (Encrypting t)\<rparr>)\<rparr>
           | _ \<Rightarrow> b))"

text \<open>\<open>releaseCurrentTransport\<close> and \<open>failTransportGeneration\<close>: the generation is dropped.\<close>

definition releaseCurrentTransport :: "('e, 'r, 'm, 'x) bridge \<Rightarrow> ('e, 'r, 'm, 'x) bridge" where
  "releaseCurrentTransport b = b\<lparr>br_generation := None\<rparr>"

text \<open>The encryption in progress succeeds with a sealed payload or fails.\<close>

definition encryption_done :: "'x option \<Rightarrow> ('e, 'r, 'm, 'x) bridge \<Rightarrow> ('e, 'r, 'm, 'x) bridge" where
  "encryption_done sealed b =
     (case br_generation b of
        None \<Rightarrow> b
      | Some g \<Rightarrow>
          (case (g_stage g, sealed) of
             (Some (Encrypting (SealEvent w n _)), Some x) \<Rightarrow> begin_send (EncryptedEvent w n x) g b
           | (Some (Encrypting (SealResponse w _)), Some x) \<Rightarrow> begin_send (EncryptedResponse w x) g b
           | (Some (Encrypting _), None) \<Rightarrow> releaseCurrentTransport b
           | _ \<Rightarrow> b))"

text \<open>The send in progress returns or throws; what was sent is logged, for the generation and for all.\<close>

definition send_done :: "bool \<Rightarrow> ('e, 'r, 'm, 'x) bridge \<Rightarrow> ('e, 'r, 'm, 'x) bridge" where
  "send_done succeeded b =
     (case br_generation b of
        None \<Rightarrow> b
      | Some g \<Rightarrow>
          (case g_stage g of
             Some (Sending message) \<Rightarrow>
               if succeeded
               then b\<lparr>br_generation := Some ((mark_sent message g)\<lparr>g_stage := None, g_sent := g_sent g @ [message]\<rparr>),
                      br_wire := br_wire b @ [message]\<rparr>
               else releaseCurrentTransport b
           | _ \<Rightarrow> b))"

section \<open>Connecting\<close>

text \<open>The loops of \<open>connect\<close>; a projection that throws leaves it, what was queued stays queued.\<close>

fun connect_events ::
  "('e, 'r) bridge_env \<Rightarrow> string \<Rightarrow> (int \<times> 'e) list \<Rightarrow> ('e, 'r, 'm, 'x) bridge
    \<Rightarrow> ('e, 'r, 'm, 'x) bridge \<times> bool" where
  "connect_events env w [] b = (b, True)"
| "connect_events env w ((n, event) # entries) b =
     (case sendRuntimeEvent env w n event b of
        None \<Rightarrow> (b, False)
      | Some b' \<Rightarrow> connect_events env w entries b')"

definition connect_workspace ::
  "('e, 'r) bridge_env \<Rightarrow> string \<Rightarrow> 'e event_buffer \<Rightarrow> ('e, 'r, 'm, 'x) bridge
    \<Rightarrow> ('e, 'r, 'm, 'x) bridge \<times> bool" where
  "connect_workspace env w buf b =
     (case eb_replay (or_none (br_acknowledged b w)) buf of
        Inl _ \<Rightarrow> (b, False)
      | Inr (entries, gap) \<Rightarrow>
          connect_events env w entries
            (case gap of
               None \<Rightarrow> b
             | Some (from', through) \<Rightarrow> enqueue_task (Plain (RuntimeGap w from' through)) b))"

fun connect_workspaces ::
  "('e, 'r) bridge_env \<Rightarrow> (string \<times> 'e event_buffer) list \<Rightarrow> ('e, 'r, 'm, 'x) bridge
    \<Rightarrow> ('e, 'r, 'm, 'x) bridge \<times> bool" where
  "connect_workspaces env [] b = (b, True)"
| "connect_workspaces env ((w, buf) # rest) b =
     (case connect_workspace env w buf b of
        (b', True) \<Rightarrow> connect_workspaces env rest b'
      | (b', False) \<Rightarrow> (b', False))"

text \<open>\<open>connect\<close>: the state and whether it returned.\<close>

definition connect ::
  "('e, 'r) bridge_env \<Rightarrow> ('e, 'r, 'm, 'x) bridge \<Rightarrow> ('e, 'r, 'm, 'x) bridge \<times> bool" where
  "connect env b =
     connect_workspaces env (br_buffers b)
       (enqueue_task (Plain DeviceConnect)
          ((releaseCurrentTransport b)\<lparr>br_generation :=
             Some \<lparr>g_advertised = (\<lambda>_. None), g_queue = [], g_stage = None, g_sent = []\<rparr>\<rparr>))"

text \<open>An event of a workspace: it is buffered, and the bridge's listener, whose exceptions the workspace
  swallows, sends it when there is a transport.\<close>

definition append_workspace ::
  "('e \<Rightarrow> nat) \<Rightarrow> string \<Rightarrow> 'e \<Rightarrow> (string \<times> 'e event_buffer) list \<Rightarrow> (string \<times> 'e event_buffer) list" where
  "append_workspace sz w event bufs =
     map (\<lambda>(w', buf). (w', if w' = w then fst (eb_append sz event buf) else buf)) bufs"

definition runtime_event ::
  "('e, 'r) bridge_env \<Rightarrow> string \<Rightarrow> 'e \<Rightarrow> ('e, 'r, 'm, 'x) bridge \<Rightarrow> ('e, 'r, 'm, 'x) bridge" where
  "runtime_event env w event b =
     (case map_of (br_buffers b) w of
        None \<Rightarrow> b
      | Some buf \<Rightarrow>
          let n = fst (snd (eb_append (be_size env) event buf));
              b1 = b\<lparr>br_buffers := append_workspace (be_size env) w event (br_buffers b)\<rparr>
          in if br_generation b1 = None then b1
             else (case sendRuntimeEvent env w n event b1 of None \<Rightarrow> b1 | Some b2 \<Rightarrow> b2))"

section \<open>Steps\<close>

datatype ('e, 'm, 'x) bridge_event =
    Connect
  | Runtime_Event string 'e
  | Ack_Received string int
  | Respond string 'm
  | Start_Task
  | Encryption_Done "'x option"
  | Send_Done bool
  | Transport_Closed

fun bridge_step ::
  "('e, 'r) bridge_env \<Rightarrow> ('e, 'm, 'x) bridge_event \<Rightarrow> ('e, 'r, 'm, 'x) bridge \<Rightarrow> ('e, 'r, 'm, 'x) bridge" where
  "bridge_step env Connect b = fst (connect env b)"
| "bridge_step env (Runtime_Event w event) b = runtime_event env w event b"
| "bridge_step env (Ack_Received w n) b = handle_ack w n b"
| "bridge_step env (Respond w response) b = sendRuntimeResponse env w response b"
| "bridge_step env Start_Task b = start_task b"
| "bridge_step env (Encryption_Done sealed) b = encryption_done sealed b"
| "bridge_step env (Send_Done succeeded) b = send_done succeeded b"
| "bridge_step env Transport_Closed b = releaseCurrentTransport b"

text \<open>A bridge starts with its workspaces' buffers, which may already hold events.\<close>

definition newBridge :: "(string \<times> 'e event_buffer) list \<Rightarrow> ('e, 'r, 'm, 'x) bridge" where
  "newBridge bufs = \<lparr>br_buffers = bufs, br_acknowledged = (\<lambda>_. None), br_generation = None, br_wire = []\<rparr>"

definition run_bridge ::
  "('e, 'r) bridge_env \<Rightarrow> ('e, 'm, 'x) bridge_event list \<Rightarrow> (string \<times> 'e event_buffer) list
    \<Rightarrow> ('e, 'r, 'm, 'x) bridge" where
  "run_bridge env steps bufs = fold (bridge_step env) steps (newBridge bufs)"

end
