(* ===== verification/CompanionBridgeProps.thy ===== *)
theory CompanionBridgeProps
  imports CompanionBridge
begin

text \<open>
  What the relay bridge guarantees of its stream, as a client of the replay buffers, in a run in which
  no call of \<open>connect\<close> throws: each transport generation sends a workspace's events in order and once,
  or the gap in front of them, and leaves out no event that has a projection to the wire; and the
  relay's acknowledgements cover nothing but what was sent and events without a projection. An event
  without a projection is lost, and makes a later \<open>connect\<close> throw that has to replay it.
\<close>

section \<open>Numbers on the wire\<close>

fun message_numbers :: "string \<Rightarrow> ('r, 'm, 'x) relay_message \<Rightarrow> int list" where
  "message_numbers w (RuntimeEvent w' n _) = (if w' = w then [n] else [])"
| "message_numbers w (EncryptedEvent w' n _) = (if w' = w then [n] else [])"
| "message_numbers w (RuntimeGap w' lo hi) = (if w' = w then [lo..hi] else [])"
| "message_numbers w _ = []"

fun task_numbers :: "string \<Rightarrow> ('r, 'm, 'x) relay_task \<Rightarrow> int list" where
  "task_numbers w (Plain message) = message_numbers w message"
| "task_numbers w (SealEvent w' n _) = (if w' = w then [n] else [])"
| "task_numbers w (SealResponse _ _) = []"

fun stage_numbers :: "string \<Rightarrow> ('r, 'm, 'x) stage option \<Rightarrow> int list" where
  "stage_numbers w None = []"
| "stage_numbers w (Some (Encrypting t)) = task_numbers w t"
| "stage_numbers w (Some (Sending message)) = message_numbers w message"

definition wire_numbers :: "string \<Rightarrow> ('r, 'm, 'x) relay_message list \<Rightarrow> int list" where
  "wire_numbers w ms = concat (map (message_numbers w) ms)"

definition queue_numbers :: "string \<Rightarrow> ('r, 'm, 'x) relay_task list \<Rightarrow> int list" where
  "queue_numbers w ts = concat (map (task_numbers w) ts)"

lemma numbers_append [simp]:
  "wire_numbers w [] = []" "wire_numbers w (xs @ ys) = wire_numbers w xs @ wire_numbers w ys"
  "wire_numbers w [m] = message_numbers w m"
  "queue_numbers w [] = []" "queue_numbers w (ts @ us) = queue_numbers w ts @ queue_numbers w us"
  "queue_numbers w (t # ts) = task_numbers w t @ queue_numbers w ts"
  by (simp_all add: wire_numbers_def queue_numbers_def)

text \<open>What a generation has sent, is sending and will send.\<close>

definition generation_numbers :: "string \<Rightarrow> ('r, 'm, 'x) generation \<Rightarrow> int list" where
  "generation_numbers w g =
     wire_numbers w (g_sent g) @ stage_numbers w (g_stage g) @ queue_numbers w (g_queue g)"

text \<open>The event appended under a number is one the wire schema rejects.\<close>

definition unprojectable :: "('e, 'r) bridge_env \<Rightarrow> 'e list \<Rightarrow> int \<Rightarrow> bool" where
  "unprojectable env log n \<longleftrightarrow> be_project env (log ! nat n) = None"

lemma unprojectable_more:
  "0 \<le> n \<Longrightarrow> n < int (length log) \<Longrightarrow> unprojectable env (log @ [e]) n = unprojectable env log n"
  by (simp add: unprojectable_def nth_append nat_less_iff)

lemma unprojectable_new: "unprojectable env (log @ [e]) (int (length log)) = (be_project env e = None)"
  by (simp add: unprojectable_def)

section \<open>The invariant\<close>

text \<open>\<open>L w\<close> is what was appended to the workspace \<open>w\<close>.\<close>

fun message_ok :: "('e, 'r) bridge_env \<Rightarrow> (string \<Rightarrow> 'e list) \<Rightarrow> ('r, 'm, 'x) relay_message \<Rightarrow> bool" where
  "message_ok env L (RuntimeEvent w n r)
     = (0 \<le> n \<and> nat n < length (L w) \<and> be_project env (L w ! nat n) = Some r)"
| "message_ok env L (RuntimeGap w lo hi) = (lo \<le> hi)"
| "message_ok env L _ = True"

fun task_ok :: "('e, 'r) bridge_env \<Rightarrow> (string \<Rightarrow> 'e list) \<Rightarrow> ('r, 'm, 'x) relay_task \<Rightarrow> bool" where
  "task_ok env L (Plain message) = message_ok env L message"
| "task_ok env L (SealEvent w n r)
     = (0 \<le> n \<and> nat n < length (L w) \<and> be_project env (L w ! nat n) = Some r)"
| "task_ok env L (SealResponse _ _) = True"

fun stage_ok :: "('e, 'r) bridge_env \<Rightarrow> (string \<Rightarrow> 'e list) \<Rightarrow> ('r, 'm, 'x) stage option \<Rightarrow> bool" where
  "stage_ok env L None = True"
| "stage_ok env L (Some (Encrypting t)) = task_ok env L t"
| "stage_ok env L (Some (Sending message)) = message_ok env L message"

definition buffer_ok :: "('e, 'r) bridge_env \<Rightarrow> 'e list \<Rightarrow> 'e event_buffer \<Rightarrow> bool" where
  "buffer_ok env log buf \<longleftrightarrow> eb_valid (be_size env) (eb_maxEvents buf) (eb_maxBytes buf) log buf"

text \<open>The stream of a workspace in a generation: in order, from the number after \<open>start\<close> on, with
  nothing left out but events without a projection; what was advertised is a number it sent.\<close>

definition stream_ok ::
  "('e, 'r) bridge_env \<Rightarrow> 'e list \<Rightarrow> string \<Rightarrow> int \<Rightarrow> ('r, 'm, 'x) generation \<Rightarrow> int \<Rightarrow> bool" where
  "stream_ok env log w acked g start \<longleftrightarrow> -1 \<le> start \<and> start \<le> acked
     \<and> sorted_wrt (<) (generation_numbers w g)
     \<and> set (generation_numbers w g) \<subseteq> {start + 1..int (length log) - 1}
     \<and> (\<forall>n \<in> {start + 1..int (length log) - 1}. n \<in> set (generation_numbers w g) \<or> unprojectable env log n)
     \<and> (or_none (g_advertised g w) = -1
        \<or> or_none (g_advertised g w) \<in> set (wire_numbers w (g_sent g)))"

definition generation_ok ::
  "('e, 'r) bridge_env \<Rightarrow> (string \<Rightarrow> 'e list) \<Rightarrow> ('e, 'r, 'm, 'x) bridge \<Rightarrow> ('r, 'm, 'x) generation \<Rightarrow> bool" where
  "generation_ok env L b g \<longleftrightarrow>
     list_all (message_ok env L) (g_sent g) \<and> stage_ok env L (g_stage g) \<and> list_all (task_ok env L) (g_queue g)
     \<and> set (g_sent g) \<subseteq> set (br_wire b)
     \<and> (\<forall>w \<in> fst ` set (br_buffers b).
          \<exists>start. stream_ok env (L w) w (or_none (br_acknowledged b w)) g start)"

definition acks_ok ::
  "('e, 'r) bridge_env \<Rightarrow> (string \<Rightarrow> 'e list) \<Rightarrow> ('e, 'r, 'm, 'x) bridge \<Rightarrow> bool" where
  "acks_ok env L b \<longleftrightarrow>
     (\<forall>w. -1 \<le> or_none (br_acknowledged b w) \<and> or_none (br_acknowledged b w) < int (length (L w))
        \<and> (\<forall>n \<in> {0..or_none (br_acknowledged b w)}.
              n \<in> set (wire_numbers w (br_wire b)) \<or> unprojectable env (L w) n))"

definition buffers_ok ::
  "('e, 'r) bridge_env \<Rightarrow> (string \<Rightarrow> 'e list) \<Rightarrow> ('e, 'r, 'm, 'x) bridge \<Rightarrow> bool" where
  "buffers_ok env L b \<longleftrightarrow> distinct (map fst (br_buffers b))
     \<and> (\<forall>x \<in> set (br_buffers b). buffer_ok env (L (fst x)) (snd x))"

definition bridge_inv ::
  "('e, 'r) bridge_env \<Rightarrow> (string \<Rightarrow> 'e list) \<Rightarrow> ('e, 'r, 'm, 'x) bridge \<Rightarrow> bool" where
  "bridge_inv env L b \<longleftrightarrow> buffers_ok env L b \<and> acks_ok env L b
     \<and> (\<forall>g. br_generation b = Some g \<longrightarrow> generation_ok env L b g)"

lemma bridge_invD:
  "bridge_inv env L b \<Longrightarrow> buffers_ok env L b" "bridge_inv env L b \<Longrightarrow> acks_ok env L b"
  "bridge_inv env L b \<Longrightarrow> br_generation b = Some g \<Longrightarrow> generation_ok env L b g"
  by (simp_all add: bridge_inv_def)

text \<open>Changes to the generation alone.\<close>

lemma inv_generation:
  assumes "bridge_inv env L b" and "generation_ok env L (b\<lparr>br_generation := Some g\<rparr>) g"
  shows "bridge_inv env L (b\<lparr>br_generation := Some g\<rparr>)"
  using assms by (simp add: bridge_inv_def buffers_ok_def acks_ok_def)

lemma inv_release: "bridge_inv env L b \<Longrightarrow> bridge_inv env L (releaseCurrentTransport b)"
  by (simp add: bridge_inv_def buffers_ok_def acks_ok_def releaseCurrentTransport_def)

text \<open>Moving a task from the queue to the stage, and from encrypting to sending, moves no number.\<close>

lemma generation_move:
  assumes "generation_ok env L b g" and "g_sent g' = g_sent g" and "g_advertised g' = g_advertised g"
    and "\<And>w. generation_numbers w g' = generation_numbers w g"
    and "stage_ok env L (g_stage g')" and "list_all (task_ok env L) (g_queue g')"
  shows "generation_ok env L (b\<lparr>br_generation := Some g'\<rparr>) g'"
  using assms by (simp add: generation_ok_def stream_ok_def)

lemma inv_start_task: "bridge_inv env L b \<Longrightarrow> bridge_inv env L (start_task b)"
proof -
  assume i: "bridge_inv env L b"
  show ?thesis
  proof (cases "br_generation b")
    case (Some g)
    note g = bridge_invD(3) [OF i Some]
    show ?thesis
    proof (cases "g_stage g = None \<and> g_queue g \<noteq> []")
      case True
      then obtain t rest where q: "g_stage g = None" "g_queue g = t # rest" by (auto simp: neq_Nil_conv)
      have "task_ok env L t" "list_all (task_ok env L) rest" using g q by (simp_all add: generation_ok_def)
      moreover have "stage_numbers w (Some (case t of Plain m \<Rightarrow> Sending m | _ \<Rightarrow> Encrypting t)) = task_numbers w t"
        "stage_ok env L (Some (case t of Plain m \<Rightarrow> Sending m | _ \<Rightarrow> Encrypting t)) = task_ok env L t" for w
        by (cases t; simp)+
      ultimately have "generation_ok env L
          (b\<lparr>br_generation := Some (g\<lparr>g_queue := rest, g_stage := Some (case t of Plain m \<Rightarrow> Sending m | _ \<Rightarrow> Encrypting t)\<rparr>)\<rparr>)
          (g\<lparr>g_queue := rest, g_stage := Some (case t of Plain m \<Rightarrow> Sending m | _ \<Rightarrow> Encrypting t)\<rparr>)"
        using g by (intro generation_move [OF g]) (simp_all add: generation_numbers_def q)
      from inv_generation [OF i this] show ?thesis using Some q
        by (cases t) (simp_all add: start_task_def begin_send_def)
    qed (use i Some in \<open>auto simp: start_task_def split: option.split list.split\<close>)
  qed (use i in \<open>simp add: start_task_def\<close>)
qed

lemma inv_encryption_done: "bridge_inv env L b \<Longrightarrow> bridge_inv env L (encryption_done sealed b)"
proof -
  assume i: "bridge_inv env L b"
  show ?thesis
  proof (cases "\<exists>g t x. br_generation b = Some g \<and> g_stage g = Some (Encrypting t) \<and> sealed = Some x")
    case True
    then obtain g t x where t: "br_generation b = Some g" "g_stage g = Some (Encrypting t)" "sealed = Some x"
      by blast
    note g = bridge_invD(3) [OF i t(1)]
    have move: "bridge_inv env L (begin_send m g b)"
      if "\<And>w. message_numbers w m = task_numbers w t" "message_ok env L m" for m
    proof -
      have "generation_ok env L (b\<lparr>br_generation := Some (g\<lparr>g_stage := Some (Sending m)\<rparr>)\<rparr>)
          (g\<lparr>g_stage := Some (Sending m)\<rparr>)"
        by (rule generation_move [OF g]) (use that g in \<open>simp_all add: generation_numbers_def t(2) generation_ok_def\<close>)
      from inv_generation [OF i this] show ?thesis by (simp add: begin_send_def)
    qed
    show ?thesis using i t move by (cases t) (simp_all add: encryption_done_def)
  next
    case False
    then have "encryption_done sealed b = b \<or> encryption_done sealed b = releaseCurrentTransport b"
      by (auto simp: encryption_done_def split: option.split stage.split relay_task.split)
    then show ?thesis using i inv_release by metis
  qed
qed

text \<open>Queueing a task that has no number, or the next one.\<close>

lemma inv_enqueue:
  assumes "bridge_inv env L b" and "\<And>w. task_numbers w t = []" and "task_ok env L t"
  shows "bridge_inv env L (enqueue_task t b)"
proof (cases "br_generation b")
  case (Some g)
  note g = bridge_invD(3) [OF assms(1) Some]
  have "generation_ok env L (b\<lparr>br_generation := Some (g\<lparr>g_queue := g_queue g @ [t]\<rparr>)\<rparr>) (g\<lparr>g_queue := g_queue g @ [t]\<rparr>)"
    by (rule generation_move [OF g]) (use assms g in \<open>simp_all add: generation_numbers_def generation_ok_def\<close>)
  from inv_generation [OF assms(1) this] show ?thesis by (simp add: enqueue_task_def Some)
qed (use assms(1) in \<open>simp add: enqueue_task_def\<close>)

lemma inv_respond: "bridge_inv env L b \<Longrightarrow> bridge_inv env L (sendRuntimeResponse env w response b)"
  unfolding sendRuntimeResponse_def by (rule inv_enqueue) (simp_all split: if_split)

text \<open>A send that succeeds: its numbers are the next ones, so what is marked stays within what was sent.\<close>

lemma mark_sent_fields [simp]:
  "g_sent (mark_sent m g) = g_sent g" "g_queue (mark_sent m g) = g_queue g" "g_stage (mark_sent m g) = g_stage g"
  by (simp_all add: mark_sent_def markAdvertised_def split: relay_message.split)

lemma advertised_cases:
  assumes "message_ok env L m"
  shows "or_none (g_advertised (mark_sent m g) w) = or_none (g_advertised g w)
    \<or> or_none (g_advertised (mark_sent m g) w) \<in> set (message_numbers w m)"
  using assms
  by (cases m) (auto simp: mark_sent_def markAdvertised_def or_none_def max_def split: option.splits)

lemma stream_sent:
  assumes "stream_ok env log w acked g start" and "g_stage g = Some (Sending m)" and "message_ok env L m"
  shows "stream_ok env log w acked ((mark_sent m g)\<lparr>g_stage := None, g_sent := g_sent g @ [m]\<rparr>) start"
    (is "stream_ok env log w acked ?g start")
proof -
  have gen: "generation_numbers w ?g = generation_numbers w g"
    using assms(2) by (simp add: generation_numbers_def)
  have "or_none (g_advertised ?g w) = -1
      \<or> or_none (g_advertised ?g w) \<in> set (wire_numbers w (g_sent ?g))"
    using advertised_cases [OF assms(3), of g w] assms(1) by (auto simp: stream_ok_def)
  then show ?thesis
    using assms(1) unfolding stream_ok_def gen by (elim conjE) (intro conjI; assumption)
qed

lemma inv_send_done: "bridge_inv env L b \<Longrightarrow> bridge_inv env L (send_done succeeded b)"
proof -
  assume i: "bridge_inv env L b"
  show ?thesis
  proof (cases "\<exists>g m. br_generation b = Some g \<and> g_stage g = Some (Sending m) \<and> succeeded")
    case True
    then obtain g m where m: "br_generation b = Some g" "g_stage g = Some (Sending m)" "succeeded" by blast
    let ?g = "(mark_sent m g)\<lparr>g_stage := None, g_sent := g_sent g @ [m]\<rparr>"
    let ?b = "b\<lparr>br_generation := Some ?g, br_wire := br_wire b @ [m]\<rparr>"
    note g = bridge_invD(3) [OF i m(1)]
    then have ok: "message_ok env L m" by (simp add: generation_ok_def m(2))
    have "\<exists>start. stream_ok env (L w) w (or_none (br_acknowledged b w)) ?g start"
      if "w \<in> fst ` set (br_buffers b)" for w
      using g that stream_sent [OF _ m(2) ok] unfolding generation_ok_def by blast
    then have "generation_ok env L ?b ?g" using g ok by (auto simp: generation_ok_def)
    moreover have "acks_ok env L ?b" using bridge_invD(2) [OF i] by (auto simp: acks_ok_def)
    moreover have "buffers_ok env L ?b" using bridge_invD(1) [OF i] by (simp add: buffers_ok_def)
    ultimately have "bridge_inv env L ?b" by (simp add: bridge_inv_def)
    then show ?thesis using m by (simp add: send_done_def)
  next
    case False
    then have "send_done succeeded b = b \<or> send_done succeeded b = releaseCurrentTransport b"
      by (auto simp: send_done_def split: option.split stage.split)
    then show ?thesis using i inv_release by metis
  qed
qed

subsection \<open>Acknowledgements\<close>

lemma wire_numbers_mono: "set ms \<subseteq> set ms' \<Longrightarrow> set (wire_numbers w ms) \<subseteq> set (wire_numbers w ms')"
  by (auto simp: wire_numbers_def)

text \<open>An acknowledgement that advances ends at a number that was sent or before it, and up to that
  number everything that has a projection was sent: what is still to be sent has larger numbers.\<close>

lemma stream_ack:
  assumes "stream_ok env log w acked g start"
    and "classifyRelayAck acked (or_none (g_advertised g w)) through = Advance"
  shows "acked < through" and "through < int (length log)" and "-1 \<le> through"
    and "\<And>n. n \<in> {acked + 1..through} \<Longrightarrow> n \<in> set (wire_numbers w (g_sent g)) \<or> unprojectable env log n"
proof -
  let ?S = "wire_numbers w (g_sent g)" and ?R = "stage_numbers w (g_stage g) @ queue_numbers w (g_queue g)"
  let ?adv = "or_none (g_advertised g w)"
  have gen: "generation_numbers w g = ?S @ ?R" by (simp add: generation_numbers_def)
  have s: "-1 \<le> start" "start \<le> acked" "sorted_wrt (<) (?S @ ?R)"
    "set ?S \<subseteq> {start + 1..int (length log) - 1}"
    and cover: "\<And>n. n \<in> {start + 1..int (length log) - 1} \<Longrightarrow> n \<in> set ?S \<or> n \<in> set ?R \<or> unprojectable env log n"
    and adv: "?adv = -1 \<or> ?adv \<in> set ?S"
    using assms(1) by (auto simp: stream_ok_def gen)
  have t: "acked < through" "through \<le> ?adv" "-1 \<le> through"
    using assms(2) by (auto simp: classifyRelayAck_def split: if_splits)
  then have sent: "?adv \<in> set ?S" using adv s(1,2) by linarith
  then have new: "?adv < int (length log)" using s(4) by auto
  have rest: "?adv < n" if "n \<in> set ?R" for n using s(3) sent that by (auto simp: sorted_wrt_append)
  show "acked < through" "through < int (length log)" "-1 \<le> through" using t new by simp_all
  fix n assume n: "n \<in> {acked + 1..through}"
  then have "n \<in> {start + 1..int (length log) - 1}" using t s(2) new by simp
  moreover have "n \<notin> set ?R" using rest [of n] n t(2) by auto
  ultimately show "n \<in> set ?S \<or> unprojectable env log n" using cover by blast
qed

lemma ack_workspace_buffers:
  "ack_workspace w n bufs = map (\<lambda>x. (fst x, if fst x = w then eb_ack n (snd x) else snd x)) bufs"
  by (auto simp: ack_workspace_def eb_ack_def case_prod_beta split: sum.split)

lemma buffer_ok_ack: "buffer_ok env log buf \<Longrightarrow> buffer_ok env log (eb_ack n buf)"
  using eb.ack_valid [of "be_size env" "eb_maxEvents buf" "eb_maxBytes buf" log buf n]
  by (simp add: buffer_ok_def eb_valid_def)

lemma inv_ack: "bridge_inv env L b \<Longrightarrow> bridge_inv env L (handle_ack w through b)"
proof -
  assume i: "bridge_inv env L b"
  show ?thesis
  proof (cases "\<exists>g. br_generation b = Some g \<and> map_of (br_buffers b) w \<noteq> None
      \<and> classifyRelayAck (or_none (br_acknowledged b w)) (or_none (g_advertised g w)) through = Advance")
    case True
    then obtain g where g: "br_generation b = Some g" "map_of (br_buffers b) w \<noteq> None"
      "classifyRelayAck (or_none (br_acknowledged b w)) (or_none (g_advertised g w)) through = Advance" by blast
    let ?b = "b\<lparr>br_acknowledged := (br_acknowledged b)(w \<mapsto> through), br_buffers := ack_workspace w through (br_buffers b)\<rparr>"
    note ok = bridge_invD(3) [OF i g(1)] and acks = bridge_invD(2) [OF i]
    have w: "w \<in> fst ` set (br_buffers b)" using g(2) by (meson map_of_eq_None_iff)
    then obtain start where st: "stream_ok env (L w) w (or_none (br_acknowledged b w)) g start"
      using ok by (auto simp: generation_ok_def)
    note a = stream_ack [OF st g(3)]
    have sub: "set (wire_numbers w (g_sent g)) \<subseteq> set (wire_numbers w (br_wire b))"
      using ok by (intro wire_numbers_mono) (simp add: generation_ok_def)
    have cov: "n \<in> set (wire_numbers w (br_wire b)) \<or> unprojectable env (L w) n" if "n \<in> {0..through}" for n
    proof (cases "n \<le> or_none (br_acknowledged b w)")
      case True
      then show ?thesis using that acks by (simp add: acks_ok_def)
    next
      case False
      then have "n \<in> {or_none (br_acknowledged b w) + 1..through}" using that by simp
      then show ?thesis using a(4) sub by blast
    qed
    have "acks_ok env L ?b" using acks a(2,3) cov by (simp add: acks_ok_def or_none_def)
    moreover have "buffers_ok env L ?b" using bridge_invD(1) [OF i]
      by (auto simp: buffers_ok_def ack_workspace_buffers comp_def buffer_ok_ack)
    moreover have "generation_ok env L ?b g"
    proof -
      have "stream_ok env (L w) w through g start" using st a(1) by (simp add: stream_ok_def)
      then show ?thesis using ok
        by (auto simp: generation_ok_def ack_workspace_buffers or_none_def [of "Some _"] image_image)
    qed
    ultimately have "bridge_inv env L ?b" using g(1) by (simp add: bridge_inv_def)
    then show ?thesis using g by (auto simp: handle_ack_def)
  qed (use i in \<open>auto simp: handle_ack_def split: option.split\<close>)
qed

subsection \<open>Events\<close>

lemma message_ok_more: "message_ok env L m \<Longrightarrow> message_ok env (L(w := L w @ [e])) m"
  by (cases m) (auto simp: nth_append)

lemma task_ok_more: "task_ok env L t \<Longrightarrow> task_ok env (L(w := L w @ [e])) t"
  by (cases t) (auto simp: nth_append message_ok_more)

lemma stage_ok_more: "stage_ok env L s \<Longrightarrow> stage_ok env (L(w := L w @ [e])) s"
proof (cases s)
  case (Some x)
  then show "stage_ok env L s \<Longrightarrow> ?thesis" by (cases x) (simp_all add: message_ok_more task_ok_more)
qed simp

lemmas ok_more = message_ok_more task_ok_more stage_ok_more

lemma append_workspace_buffers:
  "append_workspace sz w e bufs
   = map (\<lambda>x. (fst x, if fst x = w then fst (eb_append sz e (snd x)) else snd x)) bufs"
  by (auto simp: append_workspace_def)

lemma buffer_ok_append:
  "buffer_ok env log buf \<Longrightarrow> buffer_ok env (log @ [e]) (fst (eb_append (be_size env) e buf))
     \<and> fst (snd (eb_append (be_size env) e buf)) = int (length log)"
  using eb.push_valid [of "be_size env" "eb_maxEvents buf" "eb_maxBytes buf" log buf e]
  by (simp add: buffer_ok_def eb_valid_def eb_append_def Let_def)

definition event_task :: "('e, 'r) bridge_env \<Rightarrow> string \<Rightarrow> int \<times> 'e \<Rightarrow> ('r, 'm, 'x) relay_task" where
  "event_task env w entry =
     (if w \<notin> set (be_ciphers env) then Plain (RuntimeEvent w (fst entry) (the (be_project env (snd entry))))
      else SealEvent w (fst entry) (the (be_project env (snd entry))))"

lemma send_event:
  "be_project env e \<noteq> None \<Longrightarrow> sendRuntimeEvent env w n e b = Some (enqueue_task (event_task env w (n, e)) b)"
  by (auto simp: sendRuntimeEvent_def event_task_def)

lemma event_task_numbers [simp]: "task_numbers w' (event_task env w entry) = (if w' = w then [fst entry] else [])"
  by (simp add: event_task_def)

text \<open>The stream of a workspace goes on with the next number, or passes over an event that has no
  projection.\<close>

lemma stream_append:
  assumes st: "stream_ok env log w acked g start" and "acked < int (length log)"
    and same: "g_sent g' = g_sent g" "g_advertised g' = g_advertised g"
    and gen: "generation_numbers w g' = generation_numbers w g
      @ (if be_project env e = None then [] else [int (length log)])"
  shows "stream_ok env (log @ [e]) w acked g' start"
proof -
  let ?G = "generation_numbers w g"
  have s: "-1 \<le> start" "start \<le> acked" "sorted_wrt (<) ?G" "set ?G \<subseteq> {start + 1..int (length log) - 1}"
    and cover: "\<And>n. n \<in> {start + 1..int (length log) - 1} \<Longrightarrow> n \<in> set ?G \<or> unprojectable env log n"
    using st by (auto simp: stream_ok_def)
  have "\<forall>x \<in> set ?G. x < int (length log)" using s(4) by auto
  then have "sorted_wrt (<) (generation_numbers w g')" using s(3) by (simp add: gen sorted_wrt_append)
  moreover have "set (generation_numbers w g') \<subseteq> {start + 1..int (length (log @ [e])) - 1}"
    using s assms(2) by (auto simp: gen)
  moreover have "n \<in> set (generation_numbers w g') \<or> unprojectable env (log @ [e]) n"
    if n: "n \<in> {start + 1..int (length (log @ [e])) - 1}" for n
  proof (cases "n = int (length log)")
    case True
    then show ?thesis by (cases "be_project env e = None") (simp_all add: gen unprojectable_new)
  next
    case False
    then have "n \<in> {start + 1..int (length log) - 1}" using n by simp
    then show ?thesis using cover [of n] s(1) unprojectable_more [of n log env e] by (auto simp: gen)
  qed
  ultimately show ?thesis using st same by (simp add: stream_ok_def)
qed

lemma acks_more:
  assumes "acks_ok env L b" and "br_acknowledged b' = br_acknowledged b" and "br_wire b' = br_wire b"
  shows "acks_ok env (L(w := L w @ [e])) b'"
  unfolding acks_ok_def
proof
  fix w'
  have a: "-1 \<le> or_none (br_acknowledged b w')" "or_none (br_acknowledged b w') < int (length (L w'))"
    "\<And>n. n \<in> {0..or_none (br_acknowledged b w')}
       \<Longrightarrow> n \<in> set (wire_numbers w' (br_wire b)) \<or> unprojectable env (L w') n"
    using assms(1) by (simp_all add: acks_ok_def)
  have "n \<in> set (wire_numbers w' (br_wire b)) \<or> unprojectable env ((L(w := L w @ [e])) w') n"
    if "n \<in> {0..or_none (br_acknowledged b w')}" for n
    using a(3) [OF that] that a(2) unprojectable_more [of n "L w" env e] by (cases "w' = w") auto
  then show "-1 \<le> or_none (br_acknowledged b' w')
      \<and> or_none (br_acknowledged b' w') < int (length ((L(w := L w @ [e])) w'))
      \<and> (\<forall>n \<in> {0..or_none (br_acknowledged b' w')}.
           n \<in> set (wire_numbers w' (br_wire b')) \<or> unprojectable env ((L(w := L w @ [e])) w') n)"
    using a(1,2) unfolding assms(2,3) by auto
qed

lemma generation_append:
  assumes ok: "generation_ok env L b g" and acks: "acks_ok env L b"
    and b': "br_acknowledged b' = br_acknowledged b" "br_wire b' = br_wire b"
      "fst ` set (br_buffers b') = fst ` set (br_buffers b)"
    and g': "g' = (if be_project env e = None then g
      else g\<lparr>g_queue := g_queue g @ [event_task env w (int (length (L w)), e)]\<rparr>)"
  shows "generation_ok env (L(w := L w @ [e])) b' g'"
proof -
  have same: "g_sent g' = g_sent g" "g_advertised g' = g_advertised g" "g_stage g' = g_stage g"
    by (simp_all add: g')
  have "\<exists>start. stream_ok env ((L(w := L w @ [e])) w') w' (or_none (br_acknowledged b w')) g' start"
    if w': "w' \<in> fst ` set (br_buffers b)" for w'
  proof -
    obtain start where st: "stream_ok env (L w') w' (or_none (br_acknowledged b w')) g start"
      using ok w' by (auto simp: generation_ok_def)
    show ?thesis
    proof (cases "w' = w")
      case True
      have "or_none (br_acknowledged b w) < int (length (L w))" using acks by (simp add: acks_ok_def)
      moreover have "generation_numbers w g' = generation_numbers w g
          @ (if be_project env e = None then [] else [int (length (L w))])"
        by (simp add: g' generation_numbers_def)
      ultimately show ?thesis using stream_append [of env "L w" w _ g start g' e] st same True by auto
    next
      case False
      then have "generation_numbers w' g' = generation_numbers w' g" by (simp add: g' generation_numbers_def)
      then show ?thesis using st same False by (auto simp: stream_ok_def)
    qed
  qed
  moreover have "list_all (task_ok env (L(w := L w @ [e]))) (g_queue g')"
    using ok by (auto simp: generation_ok_def g' list_all_iff ok_more event_task_def)
  ultimately show ?thesis using ok
    by (auto simp: generation_ok_def same b' ok_more list_all_iff)
qed

lemma inv_event:
  assumes i: "bridge_inv env L b" and w: "w \<in> fst ` set (br_buffers b)"
  shows "bridge_inv env (L(w := L w @ [e])) (runtime_event env w e b)"
proof -
  let ?L = "L(w := L w @ [e])"
  let ?b = "b\<lparr>br_buffers := append_workspace (be_size env) w e (br_buffers b)\<rparr>"
  note bufs = bridge_invD(1) [OF i] and acks = bridge_invD(2) [OF i]
  obtain buf where buf: "map_of (br_buffers b) w = Some buf"
    using w by (metis map_of_eq_None_iff not_None_eq)
  then have "buffer_ok env (L w) buf" using bufs by (force simp: buffers_ok_def dest: map_of_SomeD)
  then have n: "fst (snd (eb_append (be_size env) e buf)) = int (length (L w))"
    using buffer_ok_append [of env "L w" buf e] by simp
  have B: "buffers_ok env ?L ?b" using bufs
    by (auto simp: buffers_ok_def append_workspace_buffers comp_def buffer_ok_append [THEN conjunct1])
  show ?thesis
  proof (cases "br_generation b")
    case None
    then have "runtime_event env w e b = ?b" by (simp add: runtime_event_def buf Let_def)
    then show ?thesis using acks_more [OF acks, of ?b] B None by (simp add: bridge_inv_def)
  next
    case (Some g)
    define g' where "g' = (if be_project env e = None then g
      else g\<lparr>g_queue := g_queue g @ [event_task env w (int (length (L w)), e)]\<rparr>)"
    have r: "runtime_event env w e b = ?b\<lparr>br_generation := Some g'\<rparr>"
    proof (cases "be_project env e = None")
      case True
      then show ?thesis using Some
        by (simp add: runtime_event_def buf Let_def sendRuntimeEvent_def g'_def)
    next
      case False
      then show ?thesis using Some
        by (simp add: runtime_event_def buf Let_def n send_event [OF False] enqueue_task_def g'_def)
    qed
    have "generation_ok env ?L (?b\<lparr>br_generation := Some g'\<rparr>) g'"
      by (rule generation_append [OF bridge_invD(3) [OF i Some] acks _ _ _ g'_def])
        (simp_all add: append_workspace_buffers image_image)
    moreover have "acks_ok env ?L (?b\<lparr>br_generation := Some g'\<rparr>)" by (rule acks_more [OF acks]) simp_all
    ultimately show ?thesis using B by (simp add: r bridge_inv_def buffers_ok_def)
  qed
qed

subsection \<open>Connecting\<close>

lemma in_numbered_nth: "(n, e) \<in> set (numbered xs) \<Longrightarrow> 0 \<le> n \<and> nat n < length xs \<and> xs ! nat n = e"
  unfolding numbered_def by (auto simp: in_set_zip nth_upto)

text \<open>A replay that runs to its end has a projection of every event it sends.\<close>

lemma connect_events_projected:
  "snd (connect_events env w es b) \<Longrightarrow> \<forall>x \<in> set es. be_project env (snd x) \<noteq> None"
proof (induction env w es b rule: connect_events.induct)
  case (2 env w n event entries b)
  then show ?case
    by (cases "be_project env event") (auto simp: sendRuntimeEvent_def)
qed simp

lemma connect_events_total:
  "\<forall>x \<in> set es. be_project env (snd x) \<noteq> None \<Longrightarrow> br_generation b = Some g
   \<Longrightarrow> connect_events env w es b
     = (b\<lparr>br_generation := Some (g\<lparr>g_queue := g_queue g @ map (event_task env w) es\<rparr>)\<rparr>, True)"
proof (induction es arbitrary: b g)
  case (Cons x es)
  obtain n e where x: "x = (n, e)" by (cases x)
  then have "be_project env e \<noteq> None" using Cons.prems(1) by simp
  then have "connect_events env w (x # es) b = connect_events env w es (enqueue_task (event_task env w (n, e)) b)"
    by (simp add: x send_event)
  then show ?case using Cons.IH [of "enqueue_task (event_task env w (n, e)) b" "g\<lparr>g_queue := g_queue g @ [event_task env w x]\<rparr>"] Cons.prems
    by (simp add: x enqueue_task_def)
qed simp

definition gap_tasks :: "string \<Rightarrow> (int \<times> int) option \<Rightarrow> ('r, 'm, 'x) relay_task list" where
  "gap_tasks w gap = (case gap of None \<Rightarrow> [] | Some (lo, hi) \<Rightarrow> [Plain (RuntimeGap w lo hi)])"

text \<open>What \<open>connect\<close> queues for a workspace.\<close>

definition workspace_tasks ::
  "('e, 'r) bridge_env \<Rightarrow> int \<Rightarrow> string \<Rightarrow> 'e event_buffer \<Rightarrow> ('r, 'm, 'x) relay_task list" where
  "workspace_tasks env acked w buf =
     gap_tasks w (snd (eb_replay_from acked buf)) @ map (event_task env w) (fst (eb_replay_from acked buf))"

lemma queue_numbers_events:
  "queue_numbers w' (map (event_task env w) es) = (if w' = w then map fst es else [])"
  by (induction es) auto

lemma event_task_ok:
  "0 \<le> fst x \<Longrightarrow> nat (fst x) < length (L w) \<Longrightarrow> L w ! nat (fst x) = snd x
   \<Longrightarrow> be_project env (snd x) \<noteq> None \<Longrightarrow> task_ok env L (event_task env w x)"
  by (auto simp: event_task_def)

lemma workspace_tasks_ok:
  assumes "buffer_ok env (L w) buf" and "-1 \<le> acked" and "acked < int (length (L w))"
    and p: "\<forall>x \<in> set (fst (eb_replay_from acked buf)). be_project env (snd x) \<noteq> None"
  shows "queue_numbers w' (workspace_tasks env acked w buf)
      = (if w' = w then [acked + 1..int (length (L w)) - 1] else [])"
    and "list_all (task_ok env L) (workspace_tasks env acked w buf)"
proof -
  have v: "eb_valid (be_size env) (eb_maxEvents buf) (eb_maxBytes buf) (L w) buf"
    using assms(1) by (simp add: buffer_ok_def)
  note r = eb.replay_log [OF v assms(2)] and c = eb.replay_contiguous [OF v assms(2,3)]
  have in_log: "0 \<le> fst x \<and> nat (fst x) < length (L w) \<and> L w ! nat (fst x) = snd x"
    if "x \<in> set (fst (eb_replay_from acked buf))" for x
    using that in_numbered_nth [of "fst x" "snd x" "L w"] by (simp add: r)
  show "queue_numbers w' (workspace_tasks env acked w buf)
      = (if w' = w then [acked + 1..int (length (L w)) - 1] else [])"
    using c by (auto simp: workspace_tasks_def queue_numbers_events gap_tasks_def covered_def
        split: option.split)
  show "list_all (task_ok env L) (workspace_tasks env acked w buf)"
    unfolding workspace_tasks_def list_all_iff
    using in_log p by (auto simp: gap_tasks_def r intro!: event_task_ok split: if_splits)
qed

lemma generation_same: "br_generation b = Some g \<Longrightarrow> b\<lparr>br_generation := Some g\<rparr> = b"
  by (cases b) simp

lemma connect_workspace_total:
  assumes "\<forall>x \<in> set (fst (eb_replay_from (or_none (br_acknowledged b w)) buf)). be_project env (snd x) \<noteq> None"
    and "-1 \<le> or_none (br_acknowledged b w)" and "br_generation b = Some g"
  shows "connect_workspace env w buf b = (b\<lparr>br_generation := Some (g\<lparr>g_queue := g_queue g
    @ workspace_tasks env (or_none (br_acknowledged b w)) w buf\<rparr>)\<rparr>, True)"
proof -
  let ?r = "eb_replay_from (or_none (br_acknowledged b w)) buf"
  have "connect_workspace env w buf b = connect_events env w (fst ?r)
      (b\<lparr>br_generation := Some (g\<lparr>g_queue := g_queue g @ gap_tasks w (snd ?r)\<rparr>)\<rparr>)"
    using assms(2,3)
    by (auto simp: connect_workspace_def eb_replay_def gap_tasks_def enqueue_task_def generation_same
        split: option.split prod.split)
  then show ?thesis using assms(1) by (simp add: connect_events_total workspace_tasks_def)
qed

lemma connect_workspace_projected:
  assumes "snd (connect_workspace env w buf b)" and "-1 \<le> or_none (br_acknowledged b w)"
  shows "\<forall>x \<in> set (fst (eb_replay_from (or_none (br_acknowledged b w)) buf)). be_project env (snd x) \<noteq> None"
  using assms connect_events_projected
  by (fastforce simp: connect_workspace_def eb_replay_def split: prod.splits)

lemma connect_workspaces_total:
  assumes "\<And>w. -1 \<le> or_none (acks w)"
  shows "snd (connect_workspaces env bufs b) \<Longrightarrow> br_generation b = Some g \<Longrightarrow> br_acknowledged b = acks
    \<Longrightarrow> fst (connect_workspaces env bufs b) = b\<lparr>br_generation := Some (g\<lparr>g_queue := g_queue g
        @ concat (map (\<lambda>x. workspace_tasks env (or_none (acks (fst x))) (fst x) (snd x)) bufs)\<rparr>)\<rparr>
      \<and> (\<forall>x \<in> set bufs. \<forall>y \<in> set (fst (eb_replay_from (or_none (acks (fst x))) (snd x))).
           be_project env (snd y) \<noteq> None)"
proof (induction bufs arbitrary: b g)
  case (Cons x bufs)
  obtain w buf where x: "x = (w, buf)" by (cases x)
  have low: "-1 \<le> or_none (br_acknowledged b w)" using assms Cons.prems(3) by simp
  have "snd (connect_workspace env w buf b)"
    using Cons.prems(1) by (auto simp: x split: prod.splits bool.splits)
  note p = connect_workspace_projected [OF this low]
  from connect_workspace_total [OF p low Cons.prems(2)] have t: "connect_workspace env w buf b
      = (b\<lparr>br_generation := Some (g\<lparr>g_queue := g_queue g @ workspace_tasks env (or_none (acks w)) w buf\<rparr>)\<rparr>, True)"
    using Cons.prems(3) by simp
  show ?case
    using Cons.IH [of "b\<lparr>br_generation := Some (g\<lparr>g_queue := g_queue g
      @ workspace_tasks env (or_none (acks w)) w buf\<rparr>)\<rparr>"] Cons.prems t p by (simp add: x)
qed simp

lemma queued_numbers:
  fixes acked :: "string \<Rightarrow> int"
  assumes "\<And>x. x \<in> set bufs \<Longrightarrow> buffer_ok env (L (fst x)) (snd x)"
    and "\<And>w. -1 \<le> acked w \<and> acked w < int (length (L w))"
    and "\<forall>x \<in> set bufs. \<forall>y \<in> set (fst (eb_replay_from (acked (fst x)) (snd x))). be_project env (snd y) \<noteq> None"
  shows "distinct (map fst bufs) \<Longrightarrow>
    queue_numbers w (concat (map (\<lambda>x. workspace_tasks env (acked (fst x)) (fst x) (snd x)) bufs))
    = (if w \<in> fst ` set bufs then [acked w + 1..int (length (L w)) - 1] else [])"
  using assms(1,3)
proof (induction bufs)
  case (Cons x xs)
  have "buffer_ok env (L (fst x)) (snd x)"
    "\<forall>y \<in> set (fst (eb_replay_from (acked (fst x)) (snd x))). be_project env (snd y) \<noteq> None"
    using Cons.prems(2,3) by simp_all
  note q = workspace_tasks_ok(1) [where L = L and w' = w, OF this(1) conjunct1 [OF assms(2)]
      conjunct2 [OF assms(2)] this(2)]
  show ?case using Cons q by (cases "w = fst x") simp_all
qed simp

lemma inv_connect:
  fixes b :: "('e, 'r, 'm, 'x) bridge"
  assumes i: "bridge_inv env L b" and returned: "snd (connect env b)"
  shows "bridge_inv env L (fst (connect env b))"
proof -
  note bufs = bridge_invD(1) [OF i] and acks = bridge_invD(2) [OF i]
  let ?acked = "\<lambda>w. or_none (br_acknowledged b w)"
  let ?ts = "concat (map (\<lambda>x. workspace_tasks env (?acked (fst x)) (fst x) (snd x)) (br_buffers b))
    :: ('r, 'm, 'x) relay_task list"
  let ?g = "\<lparr>g_advertised = (\<lambda>_. None), g_queue = Plain DeviceConnect # ?ts, g_stage = None, g_sent = []\<rparr>"
  have a: "-1 \<le> ?acked w \<and> ?acked w < int (length (L w))" for w using acks by (simp add: acks_ok_def)
  have ok: "buffer_ok env (L (fst x)) (snd x)" if "x \<in> set (br_buffers b)" for x
    using bufs that by (simp add: buffers_ok_def)
  let ?start = "\<lparr>g_advertised = (\<lambda>_. None), g_queue = [Plain DeviceConnect], g_stage = None, g_sent = []\<rparr>"
  have conn: "connect env b = connect_workspaces env (br_buffers b) (b\<lparr>br_generation := Some ?start\<rparr>)"
    by (simp add: connect_def releaseCurrentTransport_def enqueue_task_def)
  from connect_workspaces_total [where acks = "br_acknowledged b" and b = "b\<lparr>br_generation := Some ?start\<rparr>",
      OF conjunct1 [OF a] returned [unfolded conn]]
  have c: "fst (connect env b) = b\<lparr>br_generation := Some ?g\<rparr>"
    and p: "\<forall>x \<in> set (br_buffers b). \<forall>y \<in> set (fst (eb_replay_from (?acked (fst x)) (snd x))).
      be_project env (snd y) \<noteq> None"
    by (simp_all add: conn)
  have "\<exists>start. stream_ok env (L w) w (?acked w) ?g start" if w: "w \<in> fst ` set (br_buffers b)" for w
  proof -
    have "queue_numbers w ?ts
        = (if w \<in> fst ` set (br_buffers b) then [?acked w + 1..int (length (L w)) - 1] else [])"
      by (rule queued_numbers [OF ok a p]) (use bufs in \<open>simp_all add: buffers_ok_def\<close>)
    then have "generation_numbers w ?g = [?acked w + 1..int (length (L w)) - 1]"
      using w by (simp add: generation_numbers_def)
    then show ?thesis using a [of w]
      by (intro exI [of _ "?acked w"]) (simp add: stream_ok_def sorted_wrt_upto or_none_def [of None])
  qed
  moreover have "list_all (task_ok env L) ?ts"
    using workspace_tasks_ok(2) [where L = L, OF ok conjunct1 [OF a] conjunct2 [OF a]] p
    by (auto simp: list_all_iff)
  ultimately have "generation_ok env L (b\<lparr>br_generation := Some ?g\<rparr>) ?g" by (simp add: generation_ok_def)
  from inv_generation [OF i this] show ?thesis by (simp add: c)
qed

section \<open>Every run\<close>

text \<open>What the workspace \<open>w\<close> appended in a run.\<close>

fun events_of :: "string \<Rightarrow> ('e, 'm, 'x) bridge_event list \<Rightarrow> 'e list" where
  "events_of w [] = []"
| "events_of w (Runtime_Event w' e # steps) = (if w' = w then e # events_of w steps else events_of w steps)"
| "events_of w (_ # steps) = events_of w steps"

lemma events_of_append: "events_of w (steps @ steps') = events_of w steps @ events_of w steps'"
  by (induction w steps rule: events_of.induct) simp_all

definition logs :: "(string \<times> 'e event_buffer) list \<Rightarrow> ('e, 'm, 'x) bridge_event list \<Rightarrow> string \<Rightarrow> 'e list" where
  "logs bufs steps w = (if w \<in> fst ` set bufs then events_of w steps else [])"

lemma logs_Nil: "logs bufs [] = (\<lambda>_. [])"
  by (simp add: logs_def fun_eq_iff)

text \<open>The workspaces as they start out: their buffers are new.\<close>

definition fresh_buffers :: "(string \<times> 'e event_buffer) list \<Rightarrow> bool" where
  "fresh_buffers bufs \<longleftrightarrow> distinct (map fst bufs)
     \<and> list_all (\<lambda>x. newEventBuffer (Some (eb_maxEvents (snd x))) (Some (eb_maxBytes (snd x))) = Inr (snd x)) bufs"

lemma inv_newBridge:
  assumes "fresh_buffers bufs" shows "bridge_inv env (\<lambda>_. []) (newBridge bufs)"
proof -
  have "buffer_ok env [] (snd x)" if "x \<in> set bufs" for x
    using assms that newEventBuffer_valid by (fastforce simp: fresh_buffers_def buffer_ok_def list_all_iff)
  then show ?thesis using assms
    by (simp add: bridge_inv_def buffers_ok_def acks_ok_def newBridge_def or_none_def fresh_buffers_def)
qed

lemma same_buffers: "fst ` set (br_buffers (bridge_step env st b)) = fst ` set (br_buffers b)"
proof -
  have send: "br_buffers (enqueue_task t b) = br_buffers b" for t and b :: "('a, 'b, 'c, 'd) bridge"
    by (simp add: enqueue_task_def split: option.split)
  have ev: "br_buffers (fst (connect_events env w es b)) = br_buffers b" for w es and b :: "('a, 'b, 'c, 'd) bridge"
    by (induction env w es b rule: connect_events.induct)
      (auto simp: sendRuntimeEvent_def send split: option.splits)
  have "br_buffers (fst (connect_workspace env w buf b)) = br_buffers b" for w buf and b :: "('a, 'b, 'c, 'd) bridge"
    by (auto simp: connect_workspace_def ev send split: sum.split prod.split option.split)
  then have "br_buffers (fst (connect_workspaces env bufs b)) = br_buffers b" for bufs and b :: "('a, 'b, 'c, 'd) bridge"
    by (induction env bufs b rule: connect_workspaces.induct) (auto split: prod.split bool.split, (metis fst_conv)+)
  then show ?thesis
    by (cases st) (auto simp: connect_def send releaseCurrentTransport_def runtime_event_def Let_def
        sendRuntimeEvent_def append_workspace_buffers image_image handle_ack_def ack_workspace_buffers
        sendRuntimeResponse_def start_task_def begin_send_def encryption_done_def send_done_def
        split: option.splits list.splits relay_task.splits stage.splits)
qed

text \<open>No \<open>connect\<close> of a run throws. (It throws when an event it replays has no projection.)\<close>

definition step_returns ::
  "('e, 'r) bridge_env \<Rightarrow> ('e, 'm, 'x) bridge_event \<Rightarrow> ('e, 'r, 'm, 'x) bridge \<Rightarrow> bool" where
  "step_returns env st b = (case st of Connect \<Rightarrow> snd (connect env b) | _ \<Rightarrow> True)"

lemma step_returns_Connect [simp]: "step_returns env Connect b = snd (connect env b)"
  by (simp add: step_returns_def)

fun connects_return ::
  "('e, 'r) bridge_env \<Rightarrow> ('e, 'm, 'x) bridge_event list \<Rightarrow> ('e, 'r, 'm, 'x) bridge \<Rightarrow> bool" where
  "connects_return env [] b = True"
| "connects_return env (st # steps) b
     = (step_returns env st b \<and> connects_return env steps (bridge_step env st b))"

lemma connects_return_snoc:
  "connects_return env (steps @ [st]) b
   = (connects_return env steps b \<and> step_returns env st (fold (bridge_step env) steps b))"
  by (induction steps arbitrary: b) simp_all

lemma bridge_inv_step:
  assumes "bridge_inv env (logs bufs steps) b" and "fst ` set (br_buffers b) = fst ` set bufs"
    and "step_returns env st b"
  shows "bridge_inv env (logs bufs (steps @ [st])) (bridge_step env st b)"
proof (cases "\<exists>w e. st = Runtime_Event w e")
  case True
  then obtain w e where st: "st = Runtime_Event w e" by blast
  show ?thesis
  proof (cases "w \<in> fst ` set bufs")
    case True
    then have "logs bufs (steps @ [st]) = (logs bufs steps)(w := logs bufs steps w @ [e])"
      by (intro ext) (simp add: logs_def events_of_append st)
    then show ?thesis using inv_event [OF assms(1), of w e] True assms(2) by (simp add: st)
  next
    case False
    then have "map_of (br_buffers b) w = None" using assms(2) by (simp add: map_of_eq_None_iff)
    moreover have "logs bufs (steps @ [st]) = logs bufs steps"
      using False by (auto simp: logs_def events_of_append st)
    ultimately show ?thesis using assms(1) by (simp add: st runtime_event_def)
  qed
next
  case False
  then have "events_of w [st] = []" for w by (cases st) auto
  then have "logs bufs (steps @ [st]) = logs bufs steps" by (auto simp: logs_def events_of_append)
  moreover have "bridge_inv env (logs bufs steps) (bridge_step env st b)"
    using False assms(1,3) inv_connect [OF assms(1)]
    by (cases st) (simp_all add: inv_ack inv_respond inv_start_task inv_encryption_done inv_send_done inv_release)
  ultimately show ?thesis by simp
qed

lemma bridge_inv_run:
  fixes env :: "('e, 'r) bridge_env" and steps :: "('e, 'm, 'x) bridge_event list"
  assumes "fresh_buffers bufs" and "connects_return env steps (newBridge bufs)"
  shows "bridge_inv env (logs bufs steps) (run_bridge env steps bufs)
    \<and> fst ` set (br_buffers (run_bridge env steps bufs)) = fst ` set bufs"
  using assms(2)
proof (induction steps rule: rev_induct)
  case Nil
  show ?case using inv_newBridge [OF assms(1)] by (simp add: run_bridge_def logs_Nil) (simp add: newBridge_def)
next
  case (snoc st steps)
  then have r: "connects_return env steps (newBridge bufs)" "step_returns env st (run_bridge env steps bufs)"
    by (simp_all add: connects_return_snoc run_bridge_def)
  note IH = snoc.IH [OF r(1)]
  have "bridge_inv env (logs bufs (steps @ [st])) (bridge_step env st (run_bridge env steps bufs))"
    by (rule bridge_inv_step [OF conjunct1 [OF IH] conjunct2 [OF IH] r(2)])
  then show ?case using IH same_buffers [of env st] by (simp add: run_bridge_def)
qed

section \<open>Properties\<close>

text \<open>
  C34: The relay stream has no holes. In a run in which no \<open>connect\<close> throws, whatever was connected,
  disconnected, appended, acknowledged and sent before: the numbers the current connection has sent, is
  sending and has queued for a workspace (a gap counting for the numbers it reports) are in order and
  without repetition, they start after a point no later than the last acknowledgement, and from there to
  the newest event none is missing but that of an event the wire schema rejects. Every event sent in the
  clear is the projection of the one appended under its number.
\<close>

theorem relay_stream_gapless:
  fixes b :: "('e, 'r, 'm, 'x) bridge"
  assumes "fresh_buffers bufs" and "connects_return env steps (newBridge bufs :: ('e, 'r, 'm, 'x) bridge)"
    and "b = run_bridge env steps bufs" and "br_generation b = Some g" and "w \<in> fst ` set bufs"
  shows "(\<exists>start. -1 \<le> start \<and> start \<le> or_none (br_acknowledged b w)
      \<and> sorted_wrt (<) (generation_numbers w g)
      \<and> set (generation_numbers w g) \<subseteq> {start + 1..int (length (events_of w steps)) - 1}
      \<and> (\<forall>n \<in> {start + 1..int (length (events_of w steps)) - 1}.
           n \<in> set (generation_numbers w g) \<or> be_project env (events_of w steps ! nat n) = None))
    \<and> (\<forall>n r. RuntimeEvent w n r \<in> set (g_sent g)
        \<longrightarrow> 0 \<le> n \<and> n < int (length (events_of w steps)) \<and> be_project env (events_of w steps ! nat n) = Some r)"
proof -
  have i: "bridge_inv env (logs bufs steps) b" "w \<in> fst ` set (br_buffers b)"
    using bridge_inv_run [OF assms(1,2)] assms(3,5) by auto
  have l: "logs bufs steps w = events_of w steps" using assms(5) by (simp add: logs_def)
  have g: "generation_ok env (logs bufs steps) b g" by (rule bridge_invD(3) [OF i(1) assms(4)])
  have "0 \<le> n \<and> n < int (length (events_of w steps)) \<and> be_project env (events_of w steps ! nat n) = Some r"
    if "RuntimeEvent w n r \<in> set (g_sent g)" for n r
    using g that l by (fastforce simp: generation_ok_def list_all_iff)
  moreover obtain start where "stream_ok env (events_of w steps) w (or_none (br_acknowledged b w)) g start"
    using g i(2) l by (auto simp: generation_ok_def)
  ultimately show ?thesis unfolding stream_ok_def unprojectable_def by blast
qed

text \<open>
  C35: Acknowledgements never run ahead of what was sent. In a run in which no \<open>connect\<close> throws, every
  number up to the last acknowledgement the bridge accepted for a workspace was sent to the relay, as an
  event or within a reported gap, by a send that succeeded, unless its event is one the wire schema
  rejects; so what the bridge lets its buffer forget is never an event that could have been sent and
  that the relay has not heard of.
\<close>

theorem ack_covers_only_sent:
  fixes b :: "('e, 'r, 'm, 'x) bridge"
  assumes "fresh_buffers bufs" and "connects_return env steps (newBridge bufs :: ('e, 'r, 'm, 'x) bridge)"
    and "b = run_bridge env steps bufs" and "br_acknowledged b w = Some acked" and "0 \<le> i" and "i \<le> acked"
  shows "(i \<in> set (wire_numbers w (br_wire b)) \<or> be_project env (events_of w steps ! nat i) = None)
    \<and> i < int (length (events_of w steps))"
proof -
  have "acks_ok env (logs bufs steps) b" using bridge_inv_run [OF assms(1,2)] bridge_invD(2) assms(3) by blast
  moreover have "or_none (br_acknowledged b w) = acked" by (simp add: or_none_def assms(4))
  ultimately have a: "acked < int (length (logs bufs steps w))"
    "i \<in> set (wire_numbers w (br_wire b)) \<or> unprojectable env (logs bufs steps w) i"
    using assms(5,6) unfolding acks_ok_def by fastforce+
  then have "logs bufs steps w = events_of w steps" using assms(5,6) by (auto simp: logs_def split: if_splits)
  then show ?thesis using a assms(6) by (simp add: unprojectable_def)
qed

definition strict_env :: "(string, string) bridge_env" where
  "strict_env = \<lparr>be_size = length, be_project = (\<lambda>e. if e = ''new'' then None else Some e), be_ciphers = []\<rparr>"

definition one_workspace :: "(string \<times> string event_buffer) list" where
  "one_workspace = [(''w'', projr (newEventBuffer (Some 8) (Some 99)))]"

definition lossy_run :: "(string, unit, unit) bridge_event list" where
  "lossy_run = [Connect, Runtime_Event ''w'' ''new'', Runtime_Event ''w'' ''old'', Start_Task, Send_Done True,
     Start_Task, Send_Done True, Ack_Received ''w'' 1]"

text \<open>
  An event without a projection is lost. When the projection of an appended event throws, the
  exception is swallowed, the next event is sent and can be acknowledged, and that acknowledgement makes
  the buffer forget the lost one: it was never sent, no gap was reported, and no later replay has it or
  reports it. If it is still unacknowledged when the bridge reconnects, \<open>connect\<close> throws and leaves the
  events behind it unsent.
\<close>

theorem unprojectable_event_lost:
  "let b = run_bridge strict_env lossy_run one_workspace :: (string, string, unit, unit) bridge;
       b' = run_bridge strict_env [Runtime_Event ''w'' ''new'', Runtime_Event ''w'' ''old'', Connect] one_workspace
         :: (string, string, unit, unit) bridge
   in events_of ''w'' lossy_run = [''new'', ''old''] \<and> wire_numbers ''w'' (br_wire b) = [1]
      \<and> br_acknowledged b ''w'' = Some 1 \<and> eb_replay 1 (snd (hd (br_buffers b))) = Inr ([], None)
      \<and> \<not> snd (connect strict_env b') \<and> map_option g_queue (br_generation b') = Some [Plain DeviceConnect]"
  by code_simp

section \<open>Witnesses\<close>

definition lossy_bridge :: "(string, string, unit, unit) bridge" where
  "lossy_bridge = run_bridge strict_env lossy_run one_workspace"

lemma one_workspace_fresh: "fresh_buffers one_workspace" "''w'' \<in> fst ` set one_workspace"
  by (simp_all add: fresh_buffers_def one_workspace_def newEventBuffer_def)

lemma lossy_run_facts:
  "connects_return strict_env lossy_run (newBridge one_workspace :: (string, string, unit, unit) bridge)"
  "Option.is_none (br_generation lossy_bridge) = False" "length (events_of ''w'' lossy_run) = 2"
  "br_acknowledged lossy_bridge ''w'' = Some 1"
  by code_simp+

text \<open>The first of the two events of this run has no projection; the second is sent.\<close>

lemma relay_stream_gapless_witness:
  "\<exists>start. -1 \<le> start \<and> start \<le> 1
     \<and> sorted_wrt (<) (generation_numbers ''w'' (the (br_generation lossy_bridge)))
     \<and> set (generation_numbers ''w'' (the (br_generation lossy_bridge))) \<subseteq> {start + 1..1}"
proof -
  have g: "br_generation lossy_bridge = Some (the (br_generation lossy_bridge))"
    using lossy_run_facts(2) by (cases "br_generation lossy_bridge") simp_all
  from relay_stream_gapless [OF one_workspace_fresh(1) lossy_run_facts(1) lossy_bridge_def g one_workspace_fresh(2)]
  show ?thesis using lossy_run_facts(3,4) by (auto simp: or_none_def)
qed

lemma ack_covers_only_sent_witness:
  "1 \<in> set (wire_numbers ''w'' (br_wire lossy_bridge))
   \<or> be_project strict_env (events_of ''w'' lossy_run ! 1) = None"
  using ack_covers_only_sent [OF one_workspace_fresh(1) lossy_run_facts(1) lossy_bridge_def lossy_run_facts(4), of 1]
  by simp

end
