(* ===== verification/CompanionRelay.thy ===== *)
theory CompanionRelay
  imports Prelude
begin

text \<open>
  The two other halves of \<open>relay-bridge.ts\<close>: the cache that answers a repeated request from the first
  execution (\<open>resolveRuntimeRequest\<close>, \<open>settleRequest\<close>), and the outbound relay that keeps a bridge
  connected (\<open>OutboundCompanionRelay\<close>). Executions are numbered in the order they start; what they
  return is not modelled, a reply names the execution whose result it carries. Requests are identified
  by workspace and request id, both free of the colon that joins them in the code.
\<close>

section \<open>Requests\<close>

text \<open>\<open>rq_identity\<close> is what the fingerprint is computed from: method and params in canonical form.\<close>

record request =
  rq_workspace :: string
  rq_id :: string
  rq_mutation :: bool
  rq_identity :: string
  rq_decrypted :: bool

type_synonym request_key = "string \<times> string"

definition cache_key :: "request \<Rightarrow> request_key" where
  "cache_key r = (rq_workspace r, rq_id r)"

datatype reply =
    FromExecution nat
  | RequestIdConflict
  | EncryptionRequired
  | WorkspaceNotFound

record cached_response =
  cr_fingerprint :: string
  cr_execution :: nat

record execution =
  ex_key :: request_key
  ex_identity :: string
  ex_mutation :: bool

record request_cache =
  rc_max :: int
  rc_ciphers :: "string list"
  rc_workspaces :: "string list"
  rc_inflight :: "(request_key \<times> cached_response) list"
  rc_settled :: "(request_key \<times> cached_response) list"
  rc_executions :: "execution list"
  rc_replies :: "(request \<times> reply) list"

definition DEFAULT_MAX_REQUEST_CACHE_ENTRIES :: int where
  "DEFAULT_MAX_REQUEST_CACHE_ENTRIES = 10000"

text \<open>The constructor's part: none when the limit is not positive.\<close>

definition newRequestCache :: "int option \<Rightarrow> string list \<Rightarrow> string list \<Rightarrow> request_cache option" where
  "newRequestCache maxEntries workspaces ciphers =
     (let m = (case maxEntries of None \<Rightarrow> DEFAULT_MAX_REQUEST_CACHE_ENTRIES | Some n \<Rightarrow> n)
      in if m < 1 then None
         else Some \<lparr>rc_max = m, rc_ciphers = ciphers, rc_workspaces = workspaces, rc_inflight = [],
                    rc_settled = [], rc_executions = [], rc_replies = []\<rparr>)"

definition del_key :: "request_key \<Rightarrow> (request_key \<times> 'a) list \<Rightarrow> (request_key \<times> 'a) list" where
  "del_key k xs = filter (\<lambda>x. fst x \<noteq> k) xs"

definition executeRuntimeRequest :: "request \<Rightarrow> request_cache \<Rightarrow> request_cache \<times> nat" where
  "executeRuntimeRequest r c =
     (c\<lparr>rc_executions := rc_executions c @
         [\<lparr>ex_key = cache_key r, ex_identity = rq_identity r, ex_mutation = rq_mutation r\<rparr>]\<rparr>,
      length (rc_executions c))"

definition resolveRuntimeRequest :: "request \<Rightarrow> request_cache \<Rightarrow> request_cache \<times> reply" where
  "resolveRuntimeRequest r c =
     (let key = cache_key r;
          inFlight = map_of (rc_inflight c) key;
          settled = map_of (rc_settled c) key
      in case (case inFlight of Some e \<Rightarrow> Some e | None \<Rightarrow> settled) of
           Some existing \<Rightarrow>
             if cr_fingerprint existing = rq_identity r
             then ((case settled of
                      Some e \<Rightarrow> c\<lparr>rc_settled := del_key key (rc_settled c) @ [(key, e)]\<rparr>
                    | None \<Rightarrow> c),
                   FromExecution (cr_execution existing))
             else (c, RequestIdConflict)
         | None \<Rightarrow>
             (case executeRuntimeRequest r c of
                (c1, n) \<Rightarrow>
                  if \<not> rq_mutation r then (c1, FromExecution n)
                  else (c1\<lparr>rc_inflight := rc_inflight c1 @ [(key, \<lparr>cr_fingerprint = rq_identity r, cr_execution = n\<rparr>)]\<rparr>,
                        FromExecution n)))"

text \<open>The part of \<open>handleMessage\<close> that deals with a request.\<close>

definition handle_request :: "request \<Rightarrow> request_cache \<Rightarrow> request_cache" where
  "handle_request r c =
     (case (if \<not> rq_decrypted r \<and> rq_workspace r \<in> set (rc_ciphers c) then (c, EncryptionRequired)
            else if rq_workspace r \<notin> set (rc_workspaces c) then (c, WorkspaceNotFound)
            else resolveRuntimeRequest r c) of
        (c1, reply) \<Rightarrow> c1\<lparr>rc_replies := rc_replies c1 @ [(r, reply)]\<rparr>)"

text \<open>Dropping the oldest settled entries while there are too many.\<close>

fun evict :: "int \<Rightarrow> (request_key \<times> cached_response) list \<Rightarrow> (request_key \<times> cached_response) list" where
  "evict m [] = []"
| "evict m (x # xs) = (if int (length (x # xs)) > m then evict m xs else x # xs)"

definition settleRequest :: "request_key \<Rightarrow> cached_response \<Rightarrow> request_cache \<Rightarrow> request_cache" where
  "settleRequest key entry c =
     (if map_of (rc_inflight c) key \<noteq> Some entry then c
      else c\<lparr>rc_inflight := del_key key (rc_inflight c),
             rc_settled := evict (rc_max c) (del_key key (rc_settled c) @ [(key, entry)])\<rparr>)"

text \<open>An execution ends: the handler attached to a mutation's response settles its entry.\<close>

definition execution_ends :: "nat \<Rightarrow> request_cache \<Rightarrow> request_cache" where
  "execution_ends n c =
     (if n < length (rc_executions c) \<and> ex_mutation (rc_executions c ! n)
      then settleRequest (ex_key (rc_executions c ! n))
             \<lparr>cr_fingerprint = ex_identity (rc_executions c ! n), cr_execution = n\<rparr> c
      else c)"

datatype request_event = Request request | Execution_Ends nat

fun request_step :: "request_event \<Rightarrow> request_cache \<Rightarrow> request_cache" where
  "request_step (Request r) c = handle_request r c"
| "request_step (Execution_Ends n) c = execution_ends n c"

definition run_requests :: "request_event list \<Rightarrow> request_cache \<Rightarrow> request_cache" where
  "run_requests steps c = fold request_step steps c"

text \<open>The keys of the mutations requested.\<close>

fun mutation_keys :: "request_event list \<Rightarrow> request_key set" where
  "mutation_keys [] = {}"
| "mutation_keys (Request r # steps) =
     (if rq_mutation r then insert (cache_key r) (mutation_keys steps) else mutation_keys steps)"
| "mutation_keys (Execution_Ends n # steps) = mutation_keys steps"

subsection \<open>What the cache holds\<close>

definition entry_ok :: "execution list \<Rightarrow> request_key \<times> cached_response \<Rightarrow> bool" where
  "entry_ok exs x \<longleftrightarrow> cr_execution (snd x) < length exs
     \<and> exs ! cr_execution (snd x) = \<lparr>ex_key = fst x, ex_identity = cr_fingerprint (snd x), ex_mutation = True\<rparr>"

definition mutations :: "execution list \<Rightarrow> request_key list" where
  "mutations exs = map ex_key (filter ex_mutation exs)"

definition reply_ok :: "execution list \<Rightarrow> request \<times> reply \<Rightarrow> bool" where
  "reply_ok exs x \<longleftrightarrow>
     (case snd x of
        FromExecution n \<Rightarrow> n < length exs \<and> ex_key (exs ! n) = cache_key (fst x)
          \<and> ex_identity (exs ! n) = rq_identity (fst x)
      | _ \<Rightarrow> True)"

definition cache_keys :: "request_cache \<Rightarrow> request_key list" where
  "cache_keys c = map fst (rc_inflight c) @ map fst (rc_settled c)"

text \<open>As long as no more than \<open>rc_max\<close> keys have been seen, every mutation executed is in the cache.\<close>

definition cache_inv :: "request_key set \<Rightarrow> request_cache \<Rightarrow> bool" where
  "cache_inv K c \<longleftrightarrow>
     list_all (entry_ok (rc_executions c)) (rc_inflight c @ rc_settled c)
     \<and> list_all (reply_ok (rc_executions c)) (rc_replies c)
     \<and> distinct (cache_keys c) \<and> int (length (rc_settled c)) \<le> rc_max c
     \<and> set (cache_keys c) \<subseteq> K
     \<and> (int (card K) \<le> rc_max c \<longrightarrow> set (mutations (rc_executions c)) = set (cache_keys c)
          \<and> distinct (mutations (rc_executions c)))"

lemma entry_ok_more: "entry_ok exs x \<Longrightarrow> entry_ok (exs @ [e]) x"
  by (simp add: entry_ok_def nth_append)

lemma reply_ok_more: "reply_ok exs x \<Longrightarrow> reply_ok (exs @ [e]) x"
  by (auto simp: reply_ok_def nth_append split: reply.splits)

lemma mutations_append [simp]:
  "mutations (exs @ [e]) = mutations exs @ (if ex_mutation e then [ex_key e] else [])"
  by (simp add: mutations_def)

lemma set_evict: "set (evict m xs) \<subseteq> set xs"
  by (induction m xs rule: evict.induct) auto

lemma distinct_evict: "distinct (map fst xs) \<Longrightarrow> distinct (map fst (evict m xs))"
  by (induction m xs rule: evict.induct) auto

lemma length_evict: "0 \<le> m \<Longrightarrow> int (length (evict m xs)) \<le> m"
  by (induction m xs rule: evict.induct) auto

lemma evict_none: "int (length xs) \<le> m \<Longrightarrow> evict m xs = xs"
  by (cases xs) auto

lemma set_del_key: "set (del_key k xs) = {x \<in> set xs. fst x \<noteq> k}"
  by (auto simp: del_key_def)

lemma distinct_del_key: "distinct (map fst xs) \<Longrightarrow> distinct (map fst (del_key k xs))"
  by (simp add: del_key_def distinct_map_filter)

lemma inv_resolve:
  assumes i: "cache_inv K c" and "finite K" and "0 < rc_max c"
    and K: "rq_mutation r \<longrightarrow> cache_key r \<in> K'" "K \<subseteq> K'" "K' \<subseteq> insert (cache_key r) K"
    and e: "resolveRuntimeRequest r c = (c1, rep)"
  shows "cache_inv K' c1 \<and> reply_ok (rc_executions c1) (r, rep)"
proof -
  let ?k = "cache_key r"
  have fin: "finite K'" using K(3) assms(2) finite_subset by blast
  have small: "int (card K) \<le> rc_max c" if "int (card K') \<le> rc_max c"
    using that card_mono [OF fin K(2)] by simp
  have ok: "list_all (entry_ok (rc_executions c)) (rc_inflight c @ rc_settled c)"
    "list_all (reply_ok (rc_executions c)) (rc_replies c)" "distinct (cache_keys c)"
    "int (length (rc_settled c)) \<le> rc_max c" "set (cache_keys c) \<subseteq> K"
    using i by (simp_all add: cache_inv_def)
  show ?thesis
  proof (cases "case map_of (rc_inflight c) ?k of Some e \<Rightarrow> Some e | None \<Rightarrow> map_of (rc_settled c) ?k")
    case (Some x)
    then have m: "(?k, x) \<in> set (rc_inflight c @ rc_settled c)"
      by (auto dest: map_of_SomeD split: option.splits)
    then have x: "entry_ok (rc_executions c) (?k, x)" using ok(1) by (simp only: list_all_iff)
    then have rep: "reply_ok (rc_executions c) (r, rep)" 
      using e Some by (auto simp: resolveRuntimeRequest_def Let_def reply_ok_def entry_ok_def split: if_splits)
    have "c1 = c \<or> (\<exists>y. map_of (rc_settled c) ?k = Some y
        \<and> c1 = c\<lparr>rc_settled := del_key ?k (rc_settled c) @ [(?k, y)]\<rparr>)"
      using e Some by (auto simp: resolveRuntimeRequest_def Let_def split: if_splits option.splits)
    then show ?thesis
    proof
      assume "c1 = c"
      then show ?thesis using i rep K(2) small by (auto simp: cache_inv_def)
    next
      assume "\<exists>y. map_of (rc_settled c) ?k = Some y
        \<and> c1 = c\<lparr>rc_settled := del_key ?k (rc_settled c) @ [(?k, y)]\<rparr>"
      then obtain y where y: "(?k, y) \<in> set (rc_settled c)" "c1 = c\<lparr>rc_settled := del_key ?k (rc_settled c) @ [(?k, y)]\<rparr>"
        using map_of_SomeD by fast
      have keys: "set (map fst (del_key ?k (rc_settled c) @ [(?k, y)])) = set (map fst (rc_settled c))"
        using y(1) by (force simp: set_del_key)
      have d: "distinct (map fst (del_key ?k (rc_settled c) @ [(?k, y)]))"
        using ok(3) by (auto simp: cache_keys_def distinct_del_key set_del_key)
      have "length (map fst (del_key ?k (rc_settled c) @ [(?k, y)])) = length (map fst (rc_settled c))"
        using keys d ok(3) by (metis cache_keys_def distinct_append distinct_card)
      then have "int (length (rc_settled c1)) \<le> rc_max c" using ok(4) by (simp add: y(2))
      moreover have "distinct (cache_keys c1)" "set (cache_keys c1) = set (cache_keys c)"
        using d keys ok(3) by (auto simp: cache_keys_def y(2))
      moreover have "list_all (entry_ok (rc_executions c)) (rc_inflight c1 @ rc_settled c1)"
        using ok(1) y by (auto simp: list_all_iff set_del_key)
      ultimately show ?thesis using i rep K(2) small y(2) by (auto simp: cache_inv_def)
    qed
  next
    case None
    then have new: "?k \<notin> set (cache_keys c)"
      by (auto simp: cache_keys_def map_of_eq_None_iff split: option.splits)
    let ?e = "\<lparr>ex_key = ?k, ex_identity = rq_identity r, ex_mutation = rq_mutation r\<rparr>"
    have c1: "c1 = c\<lparr>rc_executions := rc_executions c @ [?e],
        rc_inflight := rc_inflight c @ (if rq_mutation r
          then [(?k, \<lparr>cr_fingerprint = rq_identity r, cr_execution = length (rc_executions c)\<rparr>)] else [])\<rparr>"
      and rep: "rep = FromExecution (length (rc_executions c))"
      using e None by (auto simp: resolveRuntimeRequest_def executeRuntimeRequest_def Let_def split: if_splits)
    have "set (mutations (rc_executions c1)) = set (cache_keys c1) \<and> distinct (mutations (rc_executions c1))"
      if "int (card K') \<le> rc_max c"
      using i small [OF that] new by (auto simp: cache_inv_def c1 cache_keys_def)
    moreover have "list_all (entry_ok (rc_executions c1)) (rc_inflight c1 @ rc_settled c1)"
      using ok(1) by (auto simp: c1 list_all_iff entry_ok_more) (simp_all add: entry_ok_def)
    moreover have "list_all (reply_ok (rc_executions c1)) (rc_replies c1)"
      using ok(2) by (simp add: c1 list_all_iff reply_ok_more)
    moreover have "set (cache_keys c1) \<subseteq> K'" using ok(5) K by (auto simp: c1 cache_keys_def)
    moreover have "distinct (cache_keys c1)" using ok(3) new by (auto simp: c1 cache_keys_def)
    ultimately show ?thesis using ok(4) by (simp add: cache_inv_def c1 rep reply_ok_def)
  qed
qed

lemma inv_reply: "cache_inv K c \<Longrightarrow> reply_ok (rc_executions c) x \<Longrightarrow> cache_inv K (c\<lparr>rc_replies := rc_replies c @ [x]\<rparr>)"
  by (simp add: cache_inv_def cache_keys_def)

lemma inv_handle:
  assumes i: "cache_inv K c" and "finite K" and "0 < rc_max c"
    and "rq_mutation r \<longrightarrow> cache_key r \<in> K'" "K \<subseteq> K'" "K' \<subseteq> insert (cache_key r) K"
  shows "cache_inv K' (handle_request r c)"
proof -
  have "finite K'" using assms(2,6) finite_subset by blast
  then have more: "cache_inv K' c"
    using i card_mono [OF _ assms(5)] assms(5) unfolding cache_inv_def by force
  show ?thesis using inv_reply [OF more, of "(r, _)"] inv_resolve [OF assms] inv_reply
    by (auto simp: handle_request_def reply_ok_def [of _ "(r, EncryptionRequired)"]
        reply_ok_def [of _ "(r, WorkspaceNotFound)"] split: prod.split if_splits)
qed

lemma inv_settle:
  assumes i: "cache_inv K c" and "finite K" and "0 < rc_max c"
  shows "cache_inv K (settleRequest k x c)"
proof (cases "map_of (rc_inflight c) k = Some x")
  case True
  then have m: "(k, x) \<in> set (rc_inflight c)" by (rule map_of_SomeD)
  have ok: "list_all (entry_ok (rc_executions c)) (rc_inflight c @ rc_settled c)"
    "distinct (cache_keys c)" "set (cache_keys c) \<subseteq> K" using i by (simp_all add: cache_inv_def)
  have gone: "del_key k (rc_settled c) = rc_settled c"
    using ok(2) m by (force simp: del_key_def cache_keys_def filter_id_conv)
  let ?s = "rc_settled c @ [(k, x)]"
  let ?c = "c\<lparr>rc_inflight := del_key k (rc_inflight c), rc_settled := evict (rc_max c) ?s\<rparr>"
  have c: "settleRequest k x c = ?c" using True by (simp add: settleRequest_def gone)
  have k: "k \<notin> fst ` set (rc_settled c)" using ok(2) m by (force simp: cache_keys_def)
  have d: "distinct (map fst (del_key k (rc_inflight c)) @ map fst ?s)"
    using ok(2) k by (auto simp: cache_keys_def distinct_del_key set_del_key)
  have "set (map fst (del_key k (rc_inflight c)) @ map fst ?s) = set (cache_keys c)"
    using m by (force simp: cache_keys_def set_del_key)
  note keys = this and sub = set_evict [of "rc_max c" ?s]
  have "distinct (cache_keys ?c)"
  proof -
    have "distinct (map fst ?s)" "distinct (map fst (del_key k (rc_inflight c)))"
      "set (map fst (del_key k (rc_inflight c))) \<inter> set (map fst ?s) = {}"
      using d by (simp_all only: distinct_append)
    moreover have "set (map fst (evict (rc_max c) ?s)) \<subseteq> set (map fst ?s)"
      unfolding set_map by (rule image_mono [OF sub])
    ultimately have "set (map fst (del_key k (rc_inflight c))) \<inter> set (map fst (evict (rc_max c) ?s)) = {}"
      "distinct (map fst (evict (rc_max c) ?s))" "distinct (map fst (del_key k (rc_inflight c)))"
      by (blast, metis distinct_evict, blast)
    then show ?thesis by (simp add: cache_keys_def)
  qed
  moreover have "set (cache_keys ?c) \<subseteq> K"
  proof -
    have "set (map fst (evict (rc_max c) ?s)) \<subseteq> set (map fst ?s)"
      unfolding set_map by (rule image_mono [OF sub])
    moreover have "set (map fst (del_key k (rc_inflight c))) \<subseteq> K" "set (map fst ?s) \<subseteq> K"
      using keys ok(3) by (simp_all only: set_append) blast+
    ultimately have "set (map fst (evict (rc_max c) ?s)) \<subseteq> K" by (rule_tac subset_trans)
    then show ?thesis using \<open>set (map fst (del_key k (rc_inflight c))) \<subseteq> K\<close> by (simp add: cache_keys_def)
  qed
  moreover have "list_all (entry_ok (rc_executions c)) (rc_inflight ?c @ rc_settled ?c)"
    using ok(1) m sub by (auto simp: list_all_iff set_del_key)
  moreover have "int (length (rc_settled ?c)) \<le> rc_max c" using length_evict [of "rc_max c" ?s] assms(3) by simp
  moreover have "set (cache_keys ?c) = set (cache_keys c)" if "int (card K) \<le> rc_max c"
  proof -
    have "set (map fst ?s) \<subseteq> K" using keys ok(3) by auto
    then have "card (set (map fst ?s)) \<le> card K" by (rule card_mono [OF assms(2)])
    moreover have "distinct (map fst ?s)" using d by (simp only: distinct_append)
    ultimately have "length (map fst ?s) \<le> card K" by (metis distinct_card)
    then have "evict (rc_max c) ?s = ?s" using that by (intro evict_none) simp
    then show ?thesis using keys by (simp add: cache_keys_def)
  qed
  ultimately show ?thesis using i unfolding c by (auto simp: cache_inv_def)
qed (use i in \<open>simp add: settleRequest_def\<close>)

lemma step_max: "rc_max (request_step st c) = rc_max c"
  by (cases st) (auto simp: handle_request_def resolveRuntimeRequest_def executeRuntimeRequest_def Let_def
      execution_ends_def settleRequest_def split: prod.splits if_splits option.splits)

lemma mutation_keys_append: "mutation_keys (steps @ steps') = mutation_keys steps \<union> mutation_keys steps'"
  by (induction steps rule: mutation_keys.induct) auto

lemma finite_mutation_keys: "finite (mutation_keys steps)"
  by (induction steps rule: mutation_keys.induct) auto

lemma inv_requests:
  assumes "newRequestCache m workspaces ciphers = Some c"
  shows "cache_inv (mutation_keys steps) (run_requests steps c) \<and> rc_max (run_requests steps c) = rc_max c"
proof (induction steps rule: rev_induct)
  case Nil
  then show ?case using assms
    by (auto simp: newRequestCache_def Let_def run_requests_def cache_inv_def cache_keys_def mutations_def split: if_splits)
next
  case (snoc st steps)
  have pos: "0 < rc_max (run_requests steps c)"
    using snoc assms by (auto simp: newRequestCache_def Let_def split: if_splits)
  show ?case
  proof (cases st)
    case (Request r)
    have "cache_inv (mutation_keys (steps @ [st])) (handle_request r (run_requests steps c))"
      by (rule inv_handle [OF _ finite_mutation_keys pos]) (use snoc Request in \<open>auto simp: mutation_keys_append\<close>)
    then show ?thesis using snoc Request step_max [of st] by (simp add: run_requests_def)
  next
    case (Execution_Ends n)
    have "cache_inv (mutation_keys steps) (execution_ends n (run_requests steps c))"
      using inv_settle [OF _ finite_mutation_keys pos] snoc by (simp add: execution_ends_def)
    then show ?thesis using snoc Execution_Ends step_max [of st] by (simp add: run_requests_def mutation_keys_append)
  qed
qed

text \<open>
  C36: A repeated mutation runs once. As long as no more different mutations have been requested than the
  cache may hold, no mutation is executed twice, however often and at whatever moments its request is
  repeated; every reply that carries a result carries that of an execution of the very request it
  answers, same workspace, request id, method and params; and the cache never exceeds its limit.
\<close>

theorem mutation_executed_once:
  assumes "newRequestCache m workspaces ciphers = Some c" and "int (card (mutation_keys steps)) \<le> rc_max c"
    and "c' = run_requests steps c"
  shows "distinct (map ex_key (filter ex_mutation (rc_executions c')))
    \<and> int (length (rc_settled c')) \<le> rc_max c
    \<and> (\<forall>r n. (r, FromExecution n) \<in> set (rc_replies c') \<longrightarrow> n < length (rc_executions c')
        \<and> ex_key (rc_executions c' ! n) = cache_key r \<and> ex_identity (rc_executions c' ! n) = rq_identity r)"
proof -
  have i: "cache_inv (mutation_keys steps) c'" "rc_max c' = rc_max c"
    using inv_requests [OF assms(1), of steps] assms(3) by auto
  have "n < length (rc_executions c') \<and> ex_key (rc_executions c' ! n) = cache_key r
      \<and> ex_identity (rc_executions c' ! n) = rq_identity r" if "(r, FromExecution n) \<in> set (rc_replies c')" for r n
  proof -
    have "reply_ok (rc_executions c') (r, FromExecution n)" using i(1) that by (simp add: cache_inv_def list_all_iff)
    then show ?thesis by (simp add: reply_ok_def)
  qed
  then show ?thesis using i assms(2) by (simp add: cache_inv_def mutations_def)
qed

definition example_request :: request where
  "example_request = \<lparr>rq_workspace = ''w'', rq_id = ''1'', rq_mutation = True, rq_identity = ''turn'', rq_decrypted = False\<rparr>"

lemma mutation_executed_once_witness:
  "distinct (map ex_key (filter ex_mutation (rc_executions (run_requests
     [Request example_request, Request example_request, Execution_Ends 0, Request example_request]
     (the (newRequestCache (Some 1) [''w''] []))))))"
  by (rule mutation_executed_once [THEN conjunct1, OF _ _ refl, of "Some 1" "[''w'']" "[]"])
    (simp_all add: newRequestCache_def)

end
