(* ===== verification/CompanionOutbound.thy ===== *)
theory CompanionOutbound
  imports Prelude
begin

text \<open>
  \<open>OutboundCompanionRelay\<close> (end of \<open>relay-bridge.ts\<close>): it keeps a bridge connected, one attempt at a
  time, and waits between attempts. \<open>connect\<close> is split at its await into a begin and an outcome.
  Transports are numbered in the order they are opened; \<open>ob_open\<close> are those opened and neither closed
  here nor by the peer, \<open>ob_bridge\<close> is the one the bridge's current generation uses. A close is told to
  the listeners later, as the interface asks, so a transport that was closed may still be the current one.
\<close>

record outbound =
  ob_min :: int
  ob_max :: int
  ob_reconnect :: int
  ob_timer :: "int option"
  ob_transport :: "nat option"
  ob_stopped :: bool
  ob_connecting :: bool
  ob_bridge :: "nat option"
  ob_open :: "nat list"
  ob_opened :: nat
  ob_delays :: "int list"

definition newOutbound :: "int option \<Rightarrow> int option \<Rightarrow> outbound" where
  "newOutbound minReconnectMs maxReconnectMs =
     (let mn = (case minReconnectMs of None \<Rightarrow> 500 | Some n \<Rightarrow> n);
          mx = (case maxReconnectMs of None \<Rightarrow> 30000 | Some n \<Rightarrow> n)
      in \<lparr>ob_min = mn, ob_max = mx, ob_reconnect = mn, ob_timer = None, ob_transport = None,
          ob_stopped = True, ob_connecting = False, ob_bridge = None, ob_open = [], ob_opened = 0,
          ob_delays = []\<rparr>)"

text \<open>\<open>transport.close()\<close>, and the bridge's \<open>releaseCurrentTransport(true)\<close>.\<close>

definition close_transport :: "nat option \<Rightarrow> outbound \<Rightarrow> outbound" where
  "close_transport t s = s\<lparr>ob_open := filter (\<lambda>u. Some u \<noteq> t) (ob_open s)\<rparr>"

definition close_bridge :: "outbound \<Rightarrow> outbound" where
  "close_bridge s = (close_transport (ob_bridge s) s)\<lparr>ob_bridge := None\<rparr>"

text \<open>\<open>bridge.connect(transport)\<close>: the new generation stays when replaying throws.\<close>

definition bridge_connect :: "nat \<Rightarrow> outbound \<Rightarrow> outbound" where
  "bridge_connect t s = (close_bridge s)\<lparr>ob_bridge := Some t\<rparr>"

definition scheduleReconnect :: "outbound \<Rightarrow> outbound" where
  "scheduleReconnect s =
     (if ob_stopped s \<or> ob_timer s \<noteq> None then s
      else s\<lparr>ob_reconnect := min (ob_reconnect s * 2) (ob_max s), ob_timer := Some (ob_reconnect s),
             ob_delays := ob_delays s @ [ob_reconnect s]\<rparr>)"

definition connect_begin :: "outbound \<Rightarrow> outbound" where
  "connect_begin s = (if ob_stopped s \<or> ob_connecting s then s else s\<lparr>ob_connecting := True\<rparr>)"

text \<open>\<open>connectTransport\<close> returned a transport; \<open>throws\<close> tells whether the bridge's \<open>connect\<close> throws.\<close>

definition connect_opened :: "bool \<Rightarrow> outbound \<Rightarrow> outbound" where
  "connect_opened throws s =
     (if \<not> ob_connecting s then s
      else let t = ob_opened s;
               s1 = s\<lparr>ob_opened := Suc t, ob_open := ob_open s @ [t]\<rparr>
           in (if ob_stopped s1 then close_transport (Some t) s1
               else let s2 = bridge_connect t (s1\<lparr>ob_transport := Some t, ob_reconnect := ob_min s1\<rparr>)
                    in if throws then scheduleReconnect s2 else s2)\<lparr>ob_connecting := False\<rparr>)"

definition connect_refused :: "outbound \<Rightarrow> outbound" where
  "connect_refused s = (if \<not> ob_connecting s then s else (scheduleReconnect s)\<lparr>ob_connecting := False\<rparr>)"

definition start :: "outbound \<Rightarrow> outbound" where
  "start s = (if \<not> ob_stopped s then s else connect_begin (s\<lparr>ob_stopped := False\<rparr>))"

definition stop :: "outbound \<Rightarrow> outbound" where
  "stop s = close_bridge ((close_transport (ob_transport s) (s\<lparr>ob_stopped := True, ob_timer := None\<rparr>))
              \<lparr>ob_transport := None\<rparr>)"

definition reconnect_due :: "outbound \<Rightarrow> outbound" where
  "reconnect_due s = (if ob_timer s = None then s else connect_begin (s\<lparr>ob_timer := None\<rparr>))"

text \<open>The close of a transport reaches its two listeners, first this relay's, then the bridge's.\<close>

definition transport_closed :: "nat \<Rightarrow> outbound \<Rightarrow> outbound" where
  "transport_closed t s =
     (let s1 = close_transport (Some t) s;
          s2 = (if ob_transport s1 = Some t then scheduleReconnect (s1\<lparr>ob_transport := None\<rparr>) else s1)
      in if ob_bridge s2 = Some t then s2\<lparr>ob_bridge := None\<rparr> else s2)"

text \<open>A send fails: the bridge drops its generation and closes the transport.\<close>

definition bridge_fails :: "outbound \<Rightarrow> outbound" where
  "bridge_fails s = close_bridge s"

datatype outbound_event = Start | Stop | Opened bool | Refused | Timer_Fires | Closed nat | Bridge_Fails

fun outbound_step :: "outbound_event \<Rightarrow> outbound \<Rightarrow> outbound" where
  "outbound_step Start s = start s"
| "outbound_step Stop s = stop s"
| "outbound_step (Opened throws) s = connect_opened throws s"
| "outbound_step Refused s = connect_refused s"
| "outbound_step Timer_Fires s = reconnect_due s"
| "outbound_step (Closed t) s = transport_closed t s"
| "outbound_step Bridge_Fails s = bridge_fails s"

definition run_outbound :: "outbound_event list \<Rightarrow> outbound \<Rightarrow> outbound" where
  "run_outbound steps s = fold outbound_step steps s"

section \<open>What every reachable state satisfies\<close>

definition delays_ok :: "outbound \<Rightarrow> bool" where
  "delays_ok s \<longleftrightarrow> ob_min s \<le> ob_reconnect s \<and> ob_reconnect s \<le> ob_max s
     \<and> (\<forall>d \<in> set (ob_delays s). ob_min s \<le> d \<and> d \<le> ob_max s)"

definition alive :: "outbound \<Rightarrow> bool" where
  "alive s \<longleftrightarrow> (if ob_stopped s then ob_timer s = None \<and> ob_transport s = None \<and> ob_bridge s = None
     else ob_connecting s \<or> ob_timer s \<noteq> None \<or> ob_transport s \<noteq> None)"

definition open_ok :: "outbound \<Rightarrow> bool" where
  "open_ok s \<longleftrightarrow> length (ob_open s) \<le> 1
     \<and> (\<forall>t \<in> set (ob_open s). ob_transport s = Some t \<and> ob_bridge s = Some t)"

lemmas outbound_defs = start_def stop_def connect_opened_def connect_refused_def reconnect_due_def
  transport_closed_def bridge_fails_def bridge_connect_def close_bridge_def close_transport_def
  scheduleReconnect_def connect_begin_def

lemma limits_step: "ob_min (outbound_step e s) = ob_min s \<and> ob_max (outbound_step e s) = ob_max s"
  by (cases e) (simp_all add: outbound_defs Let_def)

lemma delays_step:
  assumes "delays_ok s" and "0 \<le> ob_min s"
  shows "delays_ok (outbound_step e s)"
  using assms by (cases e) (auto simp: delays_ok_def outbound_defs Let_def)

lemma alive_step: "alive s \<Longrightarrow> alive (outbound_step e s)"
  by (cases e) (auto simp: alive_def outbound_defs Let_def split: if_splits)

lemma filter_one: "length xs \<le> 1 \<Longrightarrow> \<forall>x \<in> set xs. \<not> P x \<Longrightarrow> filter P xs = []"
  by auto

lemma open_step:
  assumes "open_ok s" and "alive s"
  shows "open_ok (outbound_step e s)"
proof -
  consider "ob_open s = []"
    | t where "ob_open s = [t]" "ob_transport s = Some t" "ob_bridge s = Some t"
    using assms(1) by (cases "ob_open s") (auto simp: open_ok_def)
  then show ?thesis
    using assms(2) by cases ((cases e; auto simp: open_ok_def alive_def outbound_defs Let_def)+)
qed

lemma outbound_reachable:
  assumes "newOutbound mn mx = s" and "0 \<le> ob_min s" and "ob_min s \<le> ob_max s"
  shows "delays_ok (run_outbound steps s) \<and> alive (run_outbound steps s) \<and> open_ok (run_outbound steps s)
    \<and> ob_min (run_outbound steps s) = ob_min s \<and> ob_max (run_outbound steps s) = ob_max s"
proof (induction steps rule: rev_induct)
  case Nil
  then show ?case using assms
    by (auto simp: run_outbound_def newOutbound_def Let_def delays_ok_def alive_def open_ok_def)
next
  case (snoc e steps)
  then show ?case
    using delays_step alive_step open_step limits_step assms(2) by (simp add: run_outbound_def)
qed

text \<open>Refused attempts in a row: the delays double up to the limit.\<close>

definition backoff :: "int \<Rightarrow> int \<Rightarrow> nat \<Rightarrow> int" where
  "backoff mn mx k = min (mn * 2 ^ k) mx"

lemma refused_run:
  assumes "ob_min s \<le> ob_max s" and "0 \<le> ob_min s" and "ob_connecting s" and "\<not> ob_stopped s"
    and "ob_timer s = None" and "ob_reconnect s = backoff (ob_min s) (ob_max s) j"
  shows "ob_delays (fold outbound_step (concat (replicate k [Refused, Timer_Fires])) s)
    = ob_delays s @ map (\<lambda>i. backoff (ob_min s) (ob_max s) (j + i)) [0..<k]"
  using assms
proof (induction k arbitrary: j s)
  case (Suc k)
  let ?s = "outbound_step Timer_Fires (outbound_step Refused s)"
  have s: "ob_connecting ?s" "\<not> ob_stopped ?s" "ob_timer ?s = None" "ob_min ?s = ob_min s"
    "ob_max ?s = ob_max s" "ob_delays ?s = ob_delays s @ [ob_reconnect s]"
    "ob_reconnect ?s = min (ob_reconnect s * 2) (ob_max s)"
    using Suc.prems by (simp_all add: outbound_defs)
  have "backoff (ob_min s) (ob_max s) (Suc j) = min (backoff (ob_min s) (ob_max s) j * 2) (ob_max s)"
    using Suc.prems(1,2) by (auto simp: backoff_def min_def)
  then have "ob_delays (fold outbound_step (concat (replicate k [Refused, Timer_Fires])) ?s)
      = ob_delays ?s @ map (\<lambda>i. backoff (ob_min ?s) (ob_max ?s) (Suc j + i)) [0..<k]"
    using Suc.prems s by (intro Suc.IH) simp_all
  then show ?case using s Suc.prems(6) by (simp add: upt_conv_Cons [of 0] map_Suc_upt [symmetric] del: upt_Suc)
qed simp

text \<open>
  C37: A started relay never gets stuck. Whatever happens, in every reachable state a relay that is not
  stopped is connecting, waits for its timer or has a transport, and one that is stopped has none of the
  latter two; at most one transport is open, the one the bridge uses; every delay lies between the two
  limits; and refused attempts in a row wait for delays that double up to the limit.
\<close>

theorem outbound_never_stuck:
  assumes "newOutbound mn mx = s0" and "0 \<le> ob_min s0" and "ob_min s0 \<le> ob_max s0"
    and "s = run_outbound steps s0"
  shows "(\<not> ob_stopped s \<longrightarrow> ob_connecting s \<or> ob_timer s \<noteq> None \<or> ob_transport s \<noteq> None)
    \<and> (ob_stopped s \<longrightarrow> ob_timer s = None \<and> ob_transport s = None \<and> ob_open s = [])
    \<and> length (ob_open s) \<le> 1 \<and> (\<forall>t \<in> set (ob_open s). ob_transport s = Some t \<and> ob_bridge s = Some t)
    \<and> (\<forall>d \<in> set (ob_delays s). ob_min s0 \<le> d \<and> d \<le> ob_max s0)
    \<and> ob_delays (run_outbound (Start # concat (replicate k [Refused, Timer_Fires])) s0)
        = map (\<lambda>i. min (ob_min s0 * 2 ^ i) (ob_max s0)) [0..<k]"
proof -
  have i: "delays_ok s" "alive s" "open_ok s" "ob_min s = ob_min s0" "ob_max s = ob_max s0"
    using outbound_reachable [OF assms(1-3), of steps] assms(4) by auto
  have "ob_open s = []" if "ob_stopped s"
    using i(2,3) that by (cases "ob_open s") (auto simp: alive_def open_ok_def)
  moreover have "ob_delays (run_outbound (Start # concat (replicate k [Refused, Timer_Fires])) s0)
      = map (\<lambda>i. min (ob_min s0 * 2 ^ i) (ob_max s0)) [0..<k]"
    using refused_run [of "outbound_step Start s0" 0 k] assms(1-3)
    by (auto simp: run_outbound_def newOutbound_def Let_def outbound_defs backoff_def)
  ultimately show ?thesis using i by (auto simp: delays_ok_def alive_def open_ok_def)
qed

lemma outbound_never_stuck_witness:
  "ob_delays (run_outbound (Start # concat (replicate 8 [Refused, Timer_Fires])) (newOutbound None None))
     = map (\<lambda>i. min (500 * 2 ^ i) 30000) [0..<8]"
  using outbound_never_stuck [OF refl, of None None _ "[]" 8] by (simp add: newOutbound_def)

end
