(* ===== verification/Utf8.thy ===== *)
theory Utf8
  imports Prelude "HOL-Library.Word"
begin

text \<open>
  The text encoding of the JavaScript runtime, as the file tools use it: \<open>writeFileSync(p, s, "utf8")\<close>
  and \<open>buffer.toString("utf8")\<close>. A string is a list of UTF-16 code units, a buffer a list of bytes;
  code points are natural numbers. Decoding is the standard's decoder, which replaces every maximal
  ill-formed part by U+FFFD; encoding replaces a lone surrogate by U+FFFD.
\<close>

type_synonym unit16 = "16 word"
type_synonym byte = "8 word"

definition is_high :: "nat \<Rightarrow> bool" where "is_high n \<longleftrightarrow> 0xD800 \<le> n \<and> n \<le> 0xDBFF"
definition is_low :: "nat \<Rightarrow> bool" where "is_low n \<longleftrightarrow> 0xDC00 \<le> n \<and> n \<le> 0xDFFF"

abbreviation (input) REPLACEMENT :: nat where "REPLACEMENT \<equiv> 0xFFFD"

section \<open>Strings and code points\<close>

text \<open>\<open>s.isWellFormed()\<close>: every surrogate has its partner.\<close>

fun well_formed :: "nat list \<Rightarrow> bool" where
  "well_formed [] = True"
| "well_formed [u] = (\<not> is_high u \<and> \<not> is_low u)"
| "well_formed (u # v # rest) =
     (if is_high u then is_low v \<and> well_formed rest
      else \<not> is_low u \<and> well_formed (v # rest))"

definition isWellFormed :: "unit16 list \<Rightarrow> bool" where
  "isWellFormed s = well_formed (map unat s)"

fun code_points :: "nat list \<Rightarrow> nat list" where
  "code_points [] = []"
| "code_points [u] = [if is_high u \<or> is_low u then REPLACEMENT else u]"
| "code_points (u # v # rest) =
     (if is_high u \<and> is_low v
      then (0x10000 + (u - 0xD800) * 0x400 + (v - 0xDC00)) # code_points rest
      else (if is_high u \<or> is_low u then REPLACEMENT else u) # code_points (v # rest))"

definition units :: "nat \<Rightarrow> nat list" where
  "units n =
     (if n < 0x10000 then [n]
      else [0xD800 + (n - 0x10000) div 0x400, 0xDC00 + (n - 0x10000) mod 0x400])"

definition scalar :: "nat \<Rightarrow> bool" where
  "scalar n \<longleftrightarrow> n < 0xD800 \<or> 0xE000 \<le> n \<and> n < 0x110000"

section \<open>Encoding\<close>

definition encode_point :: "nat \<Rightarrow> nat list" where
  "encode_point n =
     (if n < 0x80 then [n]
      else if n < 0x800 then [0xC0 + n div 0x40, 0x80 + n mod 0x40]
      else if n < 0x10000 then [0xE0 + n div 0x1000, 0x80 + n div 0x40 mod 0x40, 0x80 + n mod 0x40]
      else [0xF0 + n div 0x40000, 0x80 + n div 0x1000 mod 0x40, 0x80 + n div 0x40 mod 0x40, 0x80 + n mod 0x40])"

definition encode_utf8 :: "unit16 list \<Rightarrow> byte list" where
  "encode_utf8 s = map of_nat (concat (map encode_point (code_points (map unat s))))"

section \<open>Decoding\<close>

text \<open>The continuation bytes: how many, the bounds of the first, what has been read.\<close>

fun trail :: "nat \<Rightarrow> nat \<Rightarrow> nat \<Rightarrow> nat \<Rightarrow> nat list \<Rightarrow> nat option \<times> nat list" where
  "trail 0 lo hi acc bs = (Some acc, bs)"
| "trail (Suc k) lo hi acc [] = (None, [])"
| "trail (Suc k) lo hi acc (b # bs) =
     (if lo \<le> b \<and> b \<le> hi then trail k 0x80 0xBF (acc * 0x40 + (b - 0x80)) bs else (None, b # bs))"

text \<open>What a first byte announces; none for a byte that cannot start a sequence.\<close>

definition lead :: "nat \<Rightarrow> (nat \<times> nat \<times> nat \<times> nat) option" where
  "lead b =
     (if b < 0x80 then Some (0, 0, 0, b)
      else if 0xC2 \<le> b \<and> b \<le> 0xDF then Some (1, 0x80, 0xBF, b - 0xC0)
      else if 0xE0 \<le> b \<and> b \<le> 0xEF
      then Some (2, if b = 0xE0 then 0xA0 else 0x80, if b = 0xED then 0x9F else 0xBF, b - 0xE0)
      else if 0xF0 \<le> b \<and> b \<le> 0xF4
      then Some (3, if b = 0xF0 then 0x90 else 0x80, if b = 0xF4 then 0x8F else 0xBF, b - 0xF0)
      else None)"

lemma length_trail: "length (snd (trail k lo hi acc bs)) \<le> length bs"
  by (induction k lo hi acc bs rule: trail.induct) auto

function decode_points :: "nat list \<Rightarrow> nat list" where
  "decode_points [] = []"
| "decode_points (b # bs) =
     (case lead b of
        None \<Rightarrow> REPLACEMENT # decode_points bs
      | Some (k, lo, hi, acc) \<Rightarrow>
          (case fst (trail k lo hi acc bs) of None \<Rightarrow> REPLACEMENT | Some n \<Rightarrow> n)
            # decode_points (snd (trail k lo hi acc bs)))"
  by pat_completeness auto
termination
  by (relation "measure length") (auto simp: less_Suc_eq_le length_trail)

definition decode_utf8 :: "byte list \<Rightarrow> unit16 list" where
  "decode_utf8 bs = map of_nat (concat (map units (decode_points (map unat bs))))"

section \<open>Round trip\<close>

lemma trail_unfold:
  "trail 1 lo hi acc bs = trail (Suc 0) lo hi acc bs"
  "trail 2 lo hi acc bs = trail (Suc (Suc 0)) lo hi acc bs"
  "trail 3 lo hi acc bs = trail (Suc (Suc (Suc 0))) lo hi acc bs"
  by (simp_all add: numeral_2_eq_2 numeral_3_eq_3)

lemma split3: "n = n div 0x1000 * 0x1000 + n div 0x40 mod 0x40 * 0x40 + n mod 0x40" for n :: nat
proof -
  have "n div 0x1000 = n div 0x40 div 0x40" by (simp add: div_mult2_eq [symmetric])
  moreover have "n = n div 0x40 * 0x40 + n mod 0x40"
    "n div 0x40 = n div 0x40 div 0x40 * 0x40 + n div 0x40 mod 0x40" by (simp_all only: div_mult_mod_eq)
  ultimately show ?thesis by linarith
qed

lemma split4:
  "n = n div 0x40000 * 0x40000 + n div 0x1000 mod 0x40 * 0x1000 + n div 0x40 mod 0x40 * 0x40 + n mod 0x40" for n :: nat
proof -
  have "n div 0x40000 = n div 0x1000 div 0x40" by (simp add: div_mult2_eq [symmetric])
  moreover have "n div 0x1000 = n div 0x1000 div 0x40 * 0x40 + n div 0x1000 mod 0x40" by (simp only: div_mult_mod_eq)
  ultimately show ?thesis using split3 [of n] by linarith
qed

lemma decode_encode_point:
  assumes "scalar n"
  shows "decode_points (encode_point n @ bs) = n # decode_points bs"
proof -
  consider "n < 0x80" | "0x80 \<le> n" "n < 0x800" | "0x800 \<le> n" "n < 0x10000" "n < 0xD800 \<or> 0xE000 \<le> n"
    | "0x10000 \<le> n" "n < 0x110000"
    using assms unfolding scalar_def by linarith
  then show ?thesis
  proof cases
    case 1
    then show ?thesis by (simp add: encode_point_def lead_def)
  next
    case 2
    define q r where "q = n div 0x40" and "r = n mod 0x40"
    have n: "n = q * 0x40 + r" "r < 0x40" by (simp_all add: q_def r_def)
    have q: "2 \<le> q" "q \<le> 0x1F" using 2 n by linarith+
    have "encode_point n = [0xC0 + q, 0x80 + r]" using 2 by (simp add: encode_point_def q_def r_def)
    then show ?thesis using q n by (simp add: lead_def trail_unfold)
  next
    case 3
    define q r t where "q = n div 0x1000" and "r = n div 0x40 mod 0x40" and "t = n mod 0x40"
    have n: "n = q * 0x1000 + r * 0x40 + t" "r < 0x40" "t < 0x40"
      using split3 [of n] by (simp_all only: q_def r_def t_def)
    have q: "q \<le> 0xF" "q = 0 \<Longrightarrow> 0x20 \<le> r" "q = 0xD \<Longrightarrow> r < 0x20" using 3 n by linarith+
    have "encode_point n = [0xE0 + q, 0x80 + r, 0x80 + t]"
      using 3 by (simp add: encode_point_def q_def r_def t_def)
    then show ?thesis using q n by (cases "q = 0"; cases "q = 0xD") (simp_all add: lead_def trail_unfold)
  next
    case 4
    define q r t u where "q = n div 0x40000" and "r = n div 0x1000 mod 0x40" and "t = n div 0x40 mod 0x40"
      and "u = n mod 0x40"
    have n: "n = q * 0x40000 + r * 0x1000 + t * 0x40 + u" "r < 0x40" "t < 0x40" "u < 0x40"
      using split4 [of n] by (simp_all only: q_def r_def t_def u_def)
    have q: "q \<le> 4" "q = 0 \<Longrightarrow> 0x10 \<le> r" "q = 4 \<Longrightarrow> r < 0x10" using 4 n by linarith+
    have "encode_point n = [0xF0 + q, 0x80 + r, 0x80 + t, 0x80 + u]"
      using 4 by (simp add: encode_point_def q_def r_def t_def u_def)
    then show ?thesis using q n by (cases "q = 0"; cases "q = 4") (simp_all add: lead_def trail_unfold)
  qed
qed

lemma code_points_scalar: "\<forall>u \<in> set us. u < 0x10000 \<Longrightarrow> \<forall>n \<in> set (code_points us). scalar n"
  by (induction us rule: code_points.induct) (auto simp: scalar_def is_high_def is_low_def)

lemma decode_encode_points:
  "\<forall>n \<in> set ns. scalar n \<Longrightarrow> decode_points (concat (map encode_point ns)) = ns"
  by (induction ns) (simp_all add: decode_encode_point)

lemma encode_point_bytes: "scalar n \<Longrightarrow> b \<in> set (encode_point n) \<Longrightarrow> b < 0x100"
  by (auto simp: encode_point_def scalar_def split: if_splits)

lemma units_code_points:
  "well_formed us \<Longrightarrow> \<forall>u \<in> set us. u < 0x10000 \<Longrightarrow> concat (map units (code_points us)) = us"
proof (induction us rule: code_points.induct)
  case (3 u v rest)
  show ?case
  proof (cases "is_high u")
    case True
    have v: "is_low v" "well_formed rest" using 3(3) True by simp_all
    obtain x y where x: "u = 0xD800 + x" "x < 0x400" and y: "v = 0xDC00 + y" "y < 0x400"
      using True v(1) by (auto simp: is_high_def is_low_def le_iff_add)
    have "units (0x10000 + (u - 0xD800) * 0x400 + (v - 0xDC00)) = [u, v]"
      using x y by (simp add: units_def)
    then show ?thesis using 3(1,4) True v by simp
  next
    case False
    then show ?thesis using 3 by (simp add: units_def)
  qed
qed (auto simp: units_def)

lemma unat_units: "u < 0x10000 \<Longrightarrow> unat (of_nat u :: unit16) = u"
  by (simp add: unat_of_nat take_bit_eq_mod)

lemma unat_bytes: "b < 0x100 \<Longrightarrow> unat (of_nat b :: byte) = b"
  by (simp add: unat_of_nat take_bit_eq_mod)

lemma unat_unit_less: "unat (u :: unit16) < 0x10000"
  using unsigned_less [of u] by simp

lemma decode_encode: "isWellFormed s \<Longrightarrow> decode_utf8 (encode_utf8 s) = s"
proof -
  assume wf: "isWellFormed s"
  let ?ns = "code_points (map unat s)"
  have sc: "\<forall>n \<in> set ?ns. scalar n" by (rule code_points_scalar) (simp add: unat_unit_less)
  have "map unat (encode_utf8 s) = concat (map encode_point ?ns)"
    unfolding encode_utf8_def map_map comp_def
    by (rule map_idI) (use sc encode_point_bytes unat_bytes in auto)
  then have "decode_points (map unat (encode_utf8 s)) = ?ns" using decode_encode_points sc by simp
  moreover have "concat (map units ?ns) = map unat s"
    using wf unat_unit_less by (intro units_code_points) (auto simp: isWellFormed_def)
  ultimately show ?thesis by (simp add: decode_utf8_def comp_def)
qed

section \<open>What decoding yields\<close>

lemma trail_bounds:
  "fst (trail k lo hi acc bs) = Some n \<Longrightarrow> 0 < k \<Longrightarrow> 0x80 \<le> lo \<Longrightarrow> hi \<le> 0xBF \<Longrightarrow>
    (acc * 0x40 + (lo - 0x80)) * 0x40 ^ (k - 1) \<le> n \<and> n < (acc * 0x40 + (hi - 0x80) + 1) * 0x40 ^ (k - 1)"
proof (induction k lo hi acc bs rule: trail.induct)
  case (3 k lo hi acc b bs)
  have b: "lo \<le> b" "b \<le> hi" and r: "fst (trail k 0x80 0xBF (acc * 0x40 + (b - 0x80)) bs) = Some n"
    using 3(2) by (auto split: if_splits)
  show ?case
  proof (cases k)
    case 0
    then show ?thesis using r b 3(4,5) by auto
  next
    case (Suc j)
    let ?a = "acc * 0x40 + (b - 0x80)"
    have "?a * 0x40 * 0x40 ^ j \<le> n \<and> n < (?a * 0x40 + 0x3F + 1) * 0x40 ^ j"
      using 3(1) b r Suc by simp
    then have n: "?a * 0x40 ^ k \<le> n" "n < (?a + 1) * 0x40 ^ k" by (simp_all add: Suc algebra_simps)
    have "(acc * 0x40 + (lo - 0x80)) * 0x40 ^ k \<le> ?a * 0x40 ^ k" using b by (intro mult_le_mono1) simp
    moreover have "(?a + 1) * 0x40 ^ k \<le> (acc * 0x40 + (hi - 0x80) + 1) * 0x40 ^ k"
      using b by (intro mult_le_mono1) simp
    ultimately show ?thesis using n unfolding diff_Suc_1 by (meson le_trans less_le_trans)
  qed
qed simp_all

definition plain_or_wide :: "nat list \<Rightarrow> nat \<Rightarrow> bool" where
  "plain_or_wide bs n \<longleftrightarrow> scalar n \<and> (n < 0x80 \<longrightarrow> n \<in> set bs)"

lemma lead_point:
  assumes "lead b = Some (k, lo, hi, acc)" and "fst (trail k lo hi acc bs) = Some n"
  shows "plain_or_wide (b # bs) n"
proof -
  consider "k = 0" "n = b" "b < 0x80"
    | "0 < k" "0x80 \<le> lo" "hi \<le> 0xBF" "k = 1" "2 \<le> acc" "acc \<le> 0x1F"
    | "0 < k" "0x80 \<le> lo" "hi \<le> 0xBF" "k = 2" "acc \<le> 0xF" "acc = 0 \<Longrightarrow> 0xA0 \<le> lo" "acc = 0xD \<Longrightarrow> hi \<le> 0x9F"
    | "0 < k" "0x80 \<le> lo" "hi \<le> 0xBF" "k = 3" "acc \<le> 4" "acc = 0 \<Longrightarrow> 0x90 \<le> lo" "acc = 4 \<Longrightarrow> hi \<le> 0x8F"
    using assms by (auto simp: lead_def split: if_splits)
  then show ?thesis
  proof cases
    case 1
    then show ?thesis by (simp add: plain_or_wide_def scalar_def)
  next
    case 2
    then show ?thesis using trail_bounds [OF assms(2) 2(1-3)] by (auto simp: plain_or_wide_def scalar_def)
  next
    case 3
    then have n: "acc * 0x1000 + (lo - 0x80) * 0x40 \<le> n" "n < acc * 0x1000 + (hi - 0x80) * 0x40 + 0x40"
      using trail_bounds [OF assms(2) 3(1-3)] by (simp_all add: algebra_simps)
    have "0x800 \<le> n"
    proof (cases "acc = 0")
      case True
      then show ?thesis using n(1) 3(6) by linarith
    next
      case False
      then show ?thesis using n(1) by linarith
    qed
    moreover have "scalar n"
    proof -
      consider "acc < 0xD" | "acc = 0xD" | "0xD < acc" by linarith
      then show ?thesis
      proof cases
        case 1
        then have "n < 0xD800" using n(2) 3(3) by linarith
        then show ?thesis by (simp add: scalar_def)
      next
        case 2
        then have "n < 0xD800" using n(2) 3(7) by linarith
        then show ?thesis by (simp add: scalar_def)
      next
        case 3: 3
        then have "0xE000 \<le> n" "n < 0x110000" using n \<open>hi \<le> 0xBF\<close> \<open>acc \<le> 0xF\<close> by linarith+
        then show ?thesis by (simp add: scalar_def)
      qed
    qed
    ultimately show ?thesis by (simp add: plain_or_wide_def)
  next
    case 4
    then have n: "acc * 0x40000 + (lo - 0x80) * 0x1000 \<le> n" "n < acc * 0x40000 + (hi - 0x80) * 0x1000 + 0x1000"
      using trail_bounds [OF assms(2) 4(1-3)] by (simp_all add: algebra_simps numeral_2_eq_2)
    have "0x10000 \<le> n"
    proof (cases "acc = 0")
      case True
      then show ?thesis using n(1) 4(6) by linarith
    next
      case False
      then show ?thesis using n(1) by linarith
    qed
    moreover have "n < 0x110000"
    proof (cases "acc = 4")
      case True
      then show ?thesis using n(2) 4(7) by linarith
    next
      case False
      then have "acc \<le> 3" using 4(5) by linarith
      then show ?thesis using n(2) 4(3) by linarith
    qed
    ultimately show ?thesis by (simp add: plain_or_wide_def scalar_def)
  qed
qed

lemma trail_rest: "set (snd (trail k lo hi acc bs)) \<subseteq> set bs"
  by (induction k lo hi acc bs rule: trail.induct) auto

lemma decode_points_ok: "\<forall>n \<in> set (decode_points bs). plain_or_wide bs n"
proof (induction bs rule: decode_points.induct)
  case (2 b bs)
  have more: "plain_or_wide (b # bs) n" if "plain_or_wide bs' n" "set bs' \<subseteq> set bs" for bs' n
    using that by (auto simp: plain_or_wide_def)
  have repl: "plain_or_wide (b # bs) REPLACEMENT" by (simp add: plain_or_wide_def scalar_def)
  show ?case
  proof (cases "lead b")
    case None
    then show ?thesis using 2(1) more repl by auto
  next
    case (Some l)
    obtain k lo hi acc where l: "l = (k, lo, hi, acc)" by (cases l) auto
    have "plain_or_wide (b # bs) (case fst (trail k lo hi acc bs) of None \<Rightarrow> REPLACEMENT | Some n \<Rightarrow> n)"
      using lead_point [of b k lo hi acc bs] Some l repl by (auto split: option.splits)
    then show ?thesis using 2(2) [OF Some l [symmetric] refl refl] more trail_rest Some l by auto
  qed
qed simp

section \<open>Well-formed texts\<close>

lemma well_formed_Cons:
  "well_formed (u # s) \<longleftrightarrow>
     (if is_high u then s \<noteq> [] \<and> is_low (hd s) \<and> well_formed (tl s) else \<not> is_low u \<and> well_formed s)"
  by (cases s) auto

lemma high_not_low: "is_high u \<Longrightarrow> \<not> is_low u"
  by (simp add: is_high_def is_low_def)

lemma well_formed_append: "well_formed u \<Longrightarrow> well_formed v \<Longrightarrow> well_formed (u @ v)"
  by (induction u rule: well_formed.induct) (auto simp: well_formed_Cons [of _ v])

text \<open>A cut outside a pair of surrogates.\<close>

lemma well_formed_cut:
  "well_formed (u @ v) \<Longrightarrow> u = [] \<or> v = [] \<or> \<not> is_high (last u) \<or> \<not> is_low (hd v) \<Longrightarrow>
   well_formed u \<and> well_formed v"
proof (induction u rule: well_formed.induct)
  case (2 a)
  then show ?case by (auto simp: well_formed_Cons [of a] split: if_splits)
next
  case (3 a b rest)
  show ?case
  proof (cases "is_high a")
    case True
    then have w: "is_low b" "well_formed (rest @ v)" using 3(3) by simp_all
    then have "rest = [] \<or> v = [] \<or> \<not> is_high (last rest) \<or> \<not> is_low (hd v)" using 3(4) by auto
    then show ?thesis using 3(1) True w by simp
  next
    case False
    then show ?thesis using 3(2-4) by simp
  qed
qed simp

lemma well_formed_ends: "well_formed u \<Longrightarrow> u \<noteq> [] \<Longrightarrow> \<not> is_low (hd u) \<and> \<not> is_high (last u)"
  by (induction u rule: well_formed.induct) (auto simp: high_not_low split: if_splits)

lemma well_formed_middle:
  assumes "well_formed (u @ m @ v)" and "m \<noteq> []" and "\<not> is_low (hd m)" and "\<not> is_high (last m)"
  shows "well_formed u \<and> well_formed v"
proof -
  have "well_formed u \<and> well_formed (m @ v)" using assms by (intro well_formed_cut) auto
  then show ?thesis using well_formed_cut [of m v] assms by auto
qed

lemma units_well_formed: "scalar n \<Longrightarrow> well_formed (units n)"
  by (auto simp: units_def scalar_def is_high_def is_low_def)

lemma units_less: "scalar n \<Longrightarrow> u \<in> set (units n) \<Longrightarrow> u < 0x10000"
  by (auto simp: units_def scalar_def split: if_splits)

lemma decode_units:
  "map unat (decode_utf8 bs) = concat (map units (decode_points (map unat bs)))"
proof -
  have "unat (of_nat u :: unit16) = u" if "u \<in> set (concat (map units (decode_points (map unat bs))))" for u
    using that decode_points_ok [of "map unat bs"] units_less unat_units by (auto simp: plain_or_wide_def)
  then show ?thesis unfolding decode_utf8_def map_map comp_def by (rule map_idI)
qed

lemma decode_well_formed: "isWellFormed (decode_utf8 bs)"
proof -
  have "\<forall>n \<in> set ns. scalar n \<Longrightarrow> well_formed (concat (map units ns))" for ns
    by (induction ns) (auto simp: units_well_formed well_formed_append)
  then show ?thesis using decode_points_ok [of "map unat bs"]
    by (auto simp: isWellFormed_def decode_units plain_or_wide_def)
qed

lemma units_nonzero: "0 < n \<Longrightarrow> 0 \<notin> set (units n)"
  by (simp add: units_def)

lemma decode_no_nul:
  assumes "0 \<notin> set bs"
  shows "0 \<notin> set (decode_utf8 bs)"
proof
  assume "0 \<in> set (decode_utf8 bs)"
  then have "0 \<in> set (map unat (decode_utf8 bs))" by (force simp: image_iff)
  then obtain n where n: "n \<in> set (decode_points (map unat bs))" "0 \<in> set (units n)" by (auto simp: decode_units)
  then have "n = 0" using units_nonzero by auto
  then have "0 \<in> set (map unat bs)" using n(1) decode_points_ok [of "map unat bs"] by (auto simp: plain_or_wide_def)
  then show False using assms by (auto simp: unat_eq_0)
qed

lemma zero_in_unat: "0 \<in> unat ` A \<longleftrightarrow> 0 \<in> A" for A :: "'a :: len word set"
proof
  assume "0 \<in> unat ` A"
  then obtain x where x: "x \<in> A" "unat x = 0" by force
  then show "0 \<in> A" by (simp add: unat_eq_0)
qed (auto simp: image_iff intro: bexI [of _ 0])

lemma encode_no_nul:
  assumes "0 \<notin> set s"
  shows "0 \<notin> set (encode_utf8 s)"
proof
  assume a: "0 \<in> set (encode_utf8 s)"
  let ?ns = "code_points (map unat s)"
  have sc: "\<forall>n \<in> set ?ns. scalar n" by (rule code_points_scalar) (simp add: unat_unit_less)
  obtain n b where n: "n \<in> set ?ns" "b \<in> set (encode_point n)" "(of_nat b :: byte) = 0"
    using a by (auto simp: encode_utf8_def)
  then have "b = 0" using unat_bytes [of b] encode_point_bytes sc by force
  then have "n = 0" using n(2) by (auto simp: encode_point_def split: if_splits)
  moreover have "0 \<notin> set (code_points us)" if "0 \<notin> set us" for us
    using that by (induction us rule: code_points.induct) auto
  ultimately show False using n(1) assms by (metis list.set_map zero_in_unat)
qed

end
