(* ===== verification/FileTools.thy ===== *)
theory FileTools
  imports FileEdit NodePath
begin

text \<open>
  The file tools around the edit planner: \<open>file-io.ts\<close>, \<open>file-state-tracker.ts\<close>, \<open>file-write-state.ts\<close>,
  \<open>control-chars.ts\<close> and the handlers of \<open>read-file-tool.ts\<close>, \<open>edit-file-tool.ts\<close> and
  \<open>write-file-tool.ts\<close>. The disk maps existing paths to canonical ones and those to entries; the host
  gives the current directory, the digest, the canonical path a new file gets, and which files can be
  read and written. Paths are POSIX. A result of \<open>None\<close> is an exception of the file system; the wording
  of results is not modelled.
\<close>

section \<open>The disk\<close>

datatype entry = Directory | Special | Regular "byte list"

record disk =
  d_real :: "string \<Rightarrow> string option"
  d_symlink :: "string \<Rightarrow> bool"
  d_entry :: "string \<Rightarrow> entry option"

record 'd host =
  h_cwd :: string
  h_sha :: "byte list \<Rightarrow> 'd"
  h_created :: "string \<Rightarrow> string"
  h_readable :: "string \<Rightarrow> bool"
  h_writable :: "string \<Rightarrow> bool"

definition stat :: "disk \<Rightarrow> string \<Rightarrow> entry option" where
  "stat d path = Option.bind (d_real d path) (d_entry d)"

definition write_file :: "'d host \<Rightarrow> string \<Rightarrow> byte list \<Rightarrow> disk \<Rightarrow> disk option" where
  "write_file h path bytes d =
     (if \<not> h_writable h path then None
      else Some (case d_real d path of
          Some c \<Rightarrow> d\<lparr>d_entry := (d_entry d)(c \<mapsto> Regular bytes)\<rparr>
        | None \<Rightarrow> d\<lparr>d_real := (d_real d)(path \<mapsto> h_created h path),
                    d_entry := (d_entry d)(h_created h path \<mapsto> Regular bytes)\<rparr>))"

section \<open>Paths\<close>

definition resolveFilePath :: "'d host \<Rightarrow> string \<Rightarrow> string \<Rightarrow> string" where
  "resolveFilePath h workdir input =
     (if is_absolute input then posix_resolve (h_cwd h) [] input else posix_resolve (h_cwd h) workdir input)"

definition canonicalFileKey :: "disk \<Rightarrow> string \<Rightarrow> string" where
  "canonicalFileKey d path = (case d_real d path of Some c \<Rightarrow> c | None \<Rightarrow> path)"

definition isContainedRel :: "string \<Rightarrow> bool" where
  "isContainedRel rel \<longleftrightarrow>
     rel = [] \<or> rel \<noteq> ''..'' \<and> \<not> starts_with rel ''../'' \<and> \<not> is_absolute rel"

text \<open>The loop over the ancestors, on the reversed segments of a resolved path: \<open>dirname\<close> drops one,
  and the root is its own parent.\<close>

fun containment_loop :: "'d host \<Rightarrow> disk \<Rightarrow> string list \<Rightarrow> string list \<Rightarrow> string option" where
  "containment_loop h d ancestor below =
     (case d_real d (of_segs (rev ancestor)) of
        Some canonicalAncestor \<Rightarrow>
          Some (posix_resolve (h_cwd h) canonicalAncestor (join ''/'' below))
      | None \<Rightarrow>
          if d_symlink d (of_segs (rev ancestor)) then None
          else (case ancestor of [] \<Rightarrow> None | s # parent \<Rightarrow> containment_loop h d parent (s # below)))"

declare containment_loop.simps [simp del]

definition resolveContainmentPath :: "'d host \<Rightarrow> disk \<Rightarrow> string \<Rightarrow> string option" where
  "resolveContainmentPath h d path = containment_loop h d (rev (path_segs path)) []"

definition canonicalResourcePath :: "'d host \<Rightarrow> disk \<Rightarrow> string \<Rightarrow> string" where
  "canonicalResourcePath h d path =
     (case resolveContainmentPath h d path of Some p \<Rightarrow> p | None \<Rightarrow> path)"

definition escapesWorkdir :: "'d host \<Rightarrow> disk \<Rightarrow> string \<Rightarrow> string \<Rightarrow> bool" where
  "escapesWorkdir h d workdir path =
     (case d_real d workdir of
        None \<Rightarrow> True
      | Some canonicalWorkdir \<Rightarrow>
          (case resolveContainmentPath h d (resolveFilePath h workdir path) of
             None \<Rightarrow> True
           | Some p \<Rightarrow> \<not> isContainedRel (posix_relative (h_cwd h) canonicalWorkdir p)))"

record admission =
  admittedExternal :: bool
  admittedTarget :: "string option"

definition admittedTargetOf :: "'d host \<Rightarrow> disk \<Rightarrow> string \<Rightarrow> string \<Rightarrow> string option" where
  "admittedTargetOf h d workdir inputPath = resolveContainmentPath h d (resolveFilePath h workdir inputPath)"

definition captureFilePathAdmission :: "'d host \<Rightarrow> disk \<Rightarrow> string \<Rightarrow> string \<Rightarrow> admission" where
  "captureFilePathAdmission h d workdir inputPath =
     \<lparr>admittedExternal = escapesWorkdir h d workdir inputPath,
      admittedTarget = admittedTargetOf h d workdir inputPath\<rparr>"

text \<open>Whether a captured admission still allows the call.\<close>

definition revalidateFilePathAdmission :: "'d host \<Rightarrow> disk \<Rightarrow> string \<Rightarrow> string \<Rightarrow> admission \<Rightarrow> bool" where
  "revalidateFilePathAdmission h d workdir inputPath captured \<longleftrightarrow>
     (let escapedNow = escapesWorkdir h d workdir inputPath;
          targetNow = admittedTargetOf h d workdir inputPath;
          containmentDrift = (\<not> admittedExternal captured \<and> escapedNow);
          targetDrift = (admittedTarget captured \<noteq> targetNow)
      in \<not> (containmentDrift \<or> targetDrift))"

section \<open>Payloads\<close>

definition findRawNul :: "unit16 list \<Rightarrow> nat option" where
  "findRawNul t = index_of_char 0 t"

text \<open>Whether \<open>rejectInvalidTextPayload\<close> rejects a text.\<close>

definition rejectInvalidTextPayload :: "unit16 list \<Rightarrow> bool" where
  "rejectInvalidTextPayload t \<longleftrightarrow> findRawNul t \<noteq> None \<or> \<not> isWellFormed t"

section \<open>Loading and saving\<close>

definition UTF8_BOM :: "unit16 list" where "UTF8_BOM = [0xFEFF]"

definition splitUtf8Bom :: "unit16 list \<Rightarrow> unit16 list \<times> bool" where
  "splitUtf8Bom raw =
     (let hadBom = starts_with raw UTF8_BOM in (if hadBom then drop (length UTF8_BOM) raw else raw, hadBom))"

datatype load_failure = Missing | IsDirectory | NotRegular | TooLarge | Binary | CorruptImage

record 'd loaded =
  l_key :: string
  l_content :: "unit16 list"
  l_digest :: 'd
  l_bom :: bool
  l_suspect :: bool

definition loadTextFile :: "'d host \<Rightarrow> nat \<Rightarrow> string \<Rightarrow> disk \<Rightarrow> (load_failure + 'd loaded) option" where
  "loadTextFile h maxFileBytes path d =
     (case stat d path of
        None \<Rightarrow> Some (Inl Missing)
      | Some Directory \<Rightarrow> Some (Inl IsDirectory)
      | Some Special \<Rightarrow> Some (Inl NotRegular)
      | Some (Regular buffer) \<Rightarrow>
          if length buffer > maxFileBytes then Some (Inl TooLarge)
          else if \<not> h_readable h path then None
          else if 0 \<in> set buffer then Some (Inl Binary)
          else (case splitUtf8Bom (decode_utf8 buffer) of
                  (content, hadBom) \<Rightarrow>
                    Some (Inr \<lparr>l_key = canonicalFileKey d path, l_content = content, l_digest = h_sha h buffer,
                               l_bom = hadBom, l_suspect = (0xFFFD \<in> set content)\<rparr>)))"

definition saveTextFile :: "'d host \<Rightarrow> string \<Rightarrow> unit16 list \<Rightarrow> bool \<Rightarrow> disk \<Rightarrow> disk option" where
  "saveTextFile h path content hadBom d =
     write_file h path (encode_utf8 (if hadBom then UTF8_BOM @ content else content)) d"

section \<open>Images\<close>

datatype media = Png | Jpeg | Gif | Webp

definition sniffImageMediaType :: "byte list \<Rightarrow> media option" where
  "sniffImageMediaType header =
     (if length header \<ge> 8 \<and> take 8 header = [0x89, 0x50, 0x4E, 0x47, 0x0D, 0x0A, 0x1A, 0x0A] then Some Png
      else if length header \<ge> 3 \<and> take 3 header = [0xFF, 0xD8, 0xFF] then Some Jpeg
      else if length header \<ge> 6
        \<and> (take 6 header = [0x47, 0x49, 0x46, 0x38, 0x37, 0x61] \<or> take 6 header = [0x47, 0x49, 0x46, 0x38, 0x39, 0x61])
      then Some Gif
      else if length header \<ge> 12 \<and> take 4 header = [0x52, 0x49, 0x46, 0x46]
        \<and> Prelude.slice header 8 12 = [0x57, 0x45, 0x42, 0x50]
      then Some Webp
      else None)"

definition imageLooksComplete :: "byte list \<Rightarrow> media \<Rightarrow> bool" where
  "imageLooksComplete buffer m =
     (let n = length buffer in
      case m of
        Png \<Rightarrow> n \<ge> 8 \<and> drop (n - 8) buffer = [0x49, 0x45, 0x4E, 0x44, 0xAE, 0x42, 0x60, 0x82]
      | Jpeg \<Rightarrow> n \<ge> 2 \<and> buffer ! (n - 2) = 0xFF \<and> buffer ! (n - 1) = 0xD9
      | Gif \<Rightarrow> n \<ge> 1 \<and> buffer ! (n - 1) = 0x3B
      | Webp \<Rightarrow> n \<ge> 12
          \<and> unat (buffer ! 4) + unat (buffer ! 5) * 0x100 + unat (buffer ! 6) * 0x10000
              + unat (buffer ! 7) * 0x1000000 + 8 \<le> n)"

text \<open>\<open>loadImageFile\<close>: not an image, a failure, or an image.\<close>

definition loadImageFile :: "'d host \<Rightarrow> nat \<Rightarrow> string \<Rightarrow> disk \<Rightarrow> (load_failure + media) option" where
  "loadImageFile h maxImageBytes path d =
     (case stat d path of
        Some (Regular buffer) \<Rightarrow>
          if \<not> h_readable h path then None
          else (case sniffImageMediaType (take 12 buffer) of
                  None \<Rightarrow> None
                | Some m \<Rightarrow>
                    if length buffer > maxImageBytes then Some (Inl TooLarge)
                    else if 0 \<notin> set buffer then None
                    else if \<not> imageLooksComplete buffer m then Some (Inl CorruptImage)
                    else Some (Inr m))
      | _ \<Rightarrow> None)"

section \<open>The tracker\<close>

datatype freshness = Fresh | Stale | Unread

type_synonym 'd tracker = "(string \<times> 'd) list"

definition MAX_TRACKED_FILES :: nat where "MAX_TRACKED_FILES = 512"

definition contentDigest :: "'d host \<Rightarrow> unit16 list \<Rightarrow> 'd" where
  "contentDigest h content = h_sha h (encode_utf8 content)"

definition recordKnownContent :: "'d host \<Rightarrow> string \<Rightarrow> unit16 list \<Rightarrow> 'd tracker \<Rightarrow> 'd tracker" where
  "recordKnownContent h key content digests =
     (if map_of digests key \<noteq> None then filter (\<lambda>x. fst x \<noteq> key) digests
      else if length digests \<ge> MAX_TRACKED_FILES then tl digests
      else digests) @ [(key, contentDigest h content)]"

definition checkFreshness :: "'d host \<Rightarrow> string \<Rightarrow> unit16 list \<Rightarrow> 'd tracker \<Rightarrow> freshness" where
  "checkFreshness h key currentContent digests =
     (case map_of digests key of
        None \<Rightarrow> Unread
      | Some recorded \<Rightarrow> if recorded = contentDigest h currentContent then Fresh else Stale)"

section \<open>The tools\<close>

record settings =
  workdir :: string
  maxFileBytes :: nat
  maxImageFileBytes :: nat

datatype file_failure =
    InvalidPayload
  | PolicyDenied
  | LoadFailed load_failure
  | VersionChanged
  | NeverRead
  | ChangedSinceRead
  | PlanFailed edit_failure
  | OffsetBeyondEnd

datatype tool_result = Failed file_failure | Succeeded

record 'd tools =
  t_disk :: disk
  t_tracker :: "'d tracker"

text \<open>An approved baseline: none without approval, \<open>Some None\<close> when the approved file did not exist.\<close>

type_synonym 'd baseline = "'d option option"

definition fileWriteVersionGuard :: "'d baseline \<Rightarrow> 'd option \<Rightarrow> bool" where
  "fileWriteVersionGuard expected actual = (expected \<noteq> None \<and> expected \<noteq> Some actual)"

definition freshness_failure :: "freshness \<Rightarrow> file_failure option" where
  "freshness_failure f = (case f of Unread \<Rightarrow> Some NeverRead | Stale \<Rightarrow> Some ChangedSinceRead | Fresh \<Rightarrow> None)"

definition editFreshnessGuard :: "'d host \<Rightarrow> 'd tracker \<Rightarrow> 'd loaded \<Rightarrow> file_failure option" where
  "editFreshnessGuard h tracker l = freshness_failure (checkFreshness h (l_key l) (l_content l) tracker)"

definition rejectInvalidEditPayloads :: "edit_entry list \<Rightarrow> bool" where
  "rejectInvalidEditPayloads edits =
     list_ex (\<lambda>e. rejectInvalidTextPayload (old_string e) \<or> rejectInvalidTextPayload (new_string e)) edits"

text \<open>The checks that \<open>prepare\<close> and \<open>executeEditFile\<close> make after loading: the planned text or a failure.\<close>

definition edit_plan_of ::
  "'d host \<Rightarrow> 'd tracker \<Rightarrow> 'd loaded \<Rightarrow> edit_entry list \<Rightarrow> (file_failure + unit16 list) option" where
  "edit_plan_of h tracker l edits =
     (case editFreshnessGuard h tracker l of
        Some failure \<Rightarrow> Some (Inl failure)
      | None \<Rightarrow> map_option (\<lambda>r. case r of Inl e \<Rightarrow> Inl (PlanFailed e) | Inr p \<Rightarrow> Inr (fst p)) (planEdits (l_content l) edits))"

text \<open>The part of \<open>prepare\<close> of \<open>edit_file\<close> that decides what is shown for approval: the baseline digest
  and the planned text, from which the shown diff is computed.\<close>

definition prepare_edit ::
  "'d host \<Rightarrow> settings \<Rightarrow> bool \<Rightarrow> string \<Rightarrow> edit_entry list \<Rightarrow> 'd tools
    \<Rightarrow> (file_failure + 'd \<times> unit16 list) option" where
  "prepare_edit h s denied file_path edits t =
     (if rejectInvalidEditPayloads edits then Some (Inl InvalidPayload)
      else if denied then Some (Inl PolicyDenied)
      else Option.bind (loadTextFile h (maxFileBytes s) (resolveFilePath h (workdir s) file_path) (t_disk t)) (\<lambda>r.
        case r of
          Inl e \<Rightarrow> Some (Inl (LoadFailed e))
        | Inr l \<Rightarrow> map_option (\<lambda>p. case p of Inl e \<Rightarrow> Inl e | Inr planned \<Rightarrow> Inr (l_digest l, planned))
            (edit_plan_of h (t_tracker t) l edits)))"

definition executeEditFile ::
  "'d host \<Rightarrow> settings \<Rightarrow> string \<Rightarrow> edit_entry list \<Rightarrow> 'd baseline \<Rightarrow> 'd tools
    \<Rightarrow> tool_result option \<times> 'd tools" where
  "executeEditFile h s file_path edits approval t =
     (let path = resolveFilePath h (workdir s) file_path in
      if rejectInvalidEditPayloads edits then (Some (Failed InvalidPayload), t)
      else (case loadTextFile h (maxFileBytes s) path (t_disk t) of
              None \<Rightarrow> (None, t)
            | Some (Inl e) \<Rightarrow> (Some (Failed (LoadFailed e)), t)
            | Some (Inr l) \<Rightarrow>
                if fileWriteVersionGuard approval (Some (l_digest l)) then (Some (Failed VersionChanged), t)
                else (case edit_plan_of h (t_tracker t) l edits of
                        None \<Rightarrow> (None, t)
                      | Some (Inl failure) \<Rightarrow> (Some (Failed failure), t)
                      | Some (Inr planned) \<Rightarrow>
                          (case saveTextFile h path planned (l_bom l) (t_disk t) of
                             None \<Rightarrow> (None, t)
                           | Some d \<Rightarrow>
                               (Some Succeeded,
                                \<lparr>t_disk = d, t_tracker = recordKnownContent h (l_key l) planned (t_tracker t)\<rparr>)))))"

text \<open>\<open>existsAsFile\<close>.\<close>

definition existsAsFile :: "disk \<Rightarrow> string \<Rightarrow> bool option" where
  "existsAsFile d path =
     (case stat d path of None \<Rightarrow> Some False | Some Directory \<Rightarrow> None | Some _ \<Rightarrow> Some True)"

definition save_written ::
  "'d host \<Rightarrow> string \<Rightarrow> unit16 list \<Rightarrow> 'd tools \<Rightarrow> tool_result option \<times> 'd tools" where
  "save_written h path input t =
     (case splitUtf8Bom input of
        (content, hadBom) \<Rightarrow>
          (case saveTextFile h path content hadBom (t_disk t) of
             None \<Rightarrow> (None, t)
           | Some d \<Rightarrow>
               (Some Succeeded,
                \<lparr>t_disk = d, t_tracker = recordKnownContent h (canonicalFileKey d path) content (t_tracker t)\<rparr>)))"

definition executeWriteFile ::
  "'d host \<Rightarrow> settings \<Rightarrow> string \<Rightarrow> unit16 list \<Rightarrow> 'd baseline \<Rightarrow> 'd tools
    \<Rightarrow> tool_result option \<times> 'd tools" where
  "executeWriteFile h s file_path input approval t =
     (let path = resolveFilePath h (workdir s) file_path in
      if rejectInvalidTextPayload input then (Some (Failed InvalidPayload), t)
      else (case existsAsFile (t_disk t) path of
              None \<Rightarrow> (Some (Failed (LoadFailed IsDirectory)), t)
            | Some True \<Rightarrow>
                (case loadTextFile h (maxFileBytes s) path (t_disk t) of
                   None \<Rightarrow> (None, t)
                 | Some (Inl e) \<Rightarrow> (Some (Failed (LoadFailed e)), t)
                 | Some (Inr l) \<Rightarrow>
                     if fileWriteVersionGuard approval (Some (l_digest l)) then (Some (Failed VersionChanged), t)
                     else (case editFreshnessGuard h (t_tracker t) l of
                             Some failure \<Rightarrow> (Some (Failed failure), t)
                           | None \<Rightarrow> save_written h path input t))
            | Some False \<Rightarrow>
                if fileWriteVersionGuard approval None then (Some (Failed VersionChanged), t)
                else save_written h path input t))"

text \<open>Whether a rewrite drops more than half of a file of at least twenty lines.\<close>

definition SHRINK_MIN_ORIGINAL_LINES :: nat where "SHRINK_MIN_ORIGINAL_LINES = 20"

definition detectShrink :: "nat \<Rightarrow> load_failure + 'd loaded \<Rightarrow> bool" where
  "detectShrink newLineCount r =
     (case r of
        Inl _ \<Rightarrow> False
      | Inr l \<Rightarrow> let originalLineCount = length (split_on LF (l_content l))
                 in \<not> (originalLineCount < SHRINK_MIN_ORIGINAL_LINES \<or> 2 * newLineCount \<ge> originalLineCount))"

text \<open>\<open>prepare\<close> of \<open>write_file\<close>: the baseline, none for a new file, and whether a grant for the session may
  be offered.\<close>

definition prepare_write ::
  "'d host \<Rightarrow> settings \<Rightarrow> bool \<Rightarrow> string \<Rightarrow> unit16 list \<Rightarrow> 'd tools
    \<Rightarrow> (file_failure + 'd option \<times> bool) option" where
  "prepare_write h s denied file_path input t =
     (let path = resolveFilePath h (workdir s) file_path;
          external = escapesWorkdir h (t_disk t) (workdir s) file_path
      in if rejectInvalidTextPayload input then Some (Inl InvalidPayload)
         else if denied then Some (Inl PolicyDenied)
         else Option.bind (loadTextFile h (maxFileBytes s) path (t_disk t)) (\<lambda>r.
           let shrinking = detectShrink (length (split_on LF input)) r in
           case r of
             Inr l \<Rightarrow>
               (case editFreshnessGuard h (t_tracker t) l of
                  Some failure \<Rightarrow> Some (Inl failure)
                | None \<Rightarrow> Some (Inr (Some (l_digest l), \<not> (shrinking \<or> external))))
           | Inl e \<Rightarrow>
               if e \<noteq> Missing then Some (Inl (LoadFailed e))
               else Some (Inr (None, \<not> (shrinking \<or> external)))))"

definition executeReadFile ::
  "'d host \<Rightarrow> settings \<Rightarrow> string \<Rightarrow> nat option \<Rightarrow> 'd tools \<Rightarrow> tool_result option \<times> 'd tools" where
  "executeReadFile h s file_path offset t =
     (let path = resolveFilePath h (workdir s) file_path in
      case loadImageFile h (maxImageFileBytes s) path (t_disk t) of
        Some (Inl e) \<Rightarrow> (Some (Failed (LoadFailed e)), t)
      | Some (Inr _) \<Rightarrow> (Some Succeeded, t)
      | None \<Rightarrow>
          (case loadTextFile h (maxFileBytes s) path (t_disk t) of
             None \<Rightarrow> (None, t)
           | Some (Inl e) \<Rightarrow> (Some (Failed (LoadFailed e)), t)
           | Some (Inr l) \<Rightarrow>
               if (case offset of None \<Rightarrow> 1 | Some n \<Rightarrow> n) > length (split_on LF (l_content l))
               then (Some (Failed OffsetBeyondEnd), t)
               else (Some Succeeded,
                     t\<lparr>t_tracker := recordKnownContent h (l_key l) (l_content l) (t_tracker t)\<rparr>)))"

end
