(* ===== verification/FileEditProps.thy ===== *)
theory FileEditProps
  imports FileEdit
begin

text \<open>
  What the edit planner computes: the search loop returns and finds the leftmost non-overlapping
  occurrences, replacing them all is the textbook left-to-right replacement, a normalised match is a
  stretch of the text whose normal form is the normal form of the wanted one, and a plan is a run of a
  declarative relation, one step per edit.
\<close>

section \<open>Occurrences\<close>

lemma index_of_SomeD:
  "index_of s n = Some k \<Longrightarrow> k \<le> length s \<and> prefix n (drop k s) \<and> (\<forall>j < k. \<not> prefix n (drop j s))"
proof (induction s arbitrary: k)
  case Nil
  then show ?case by (auto simp: index_of.simps [of "[]"] starts_with_prefix split: if_splits)
next
  case (Cons c s)
  show ?case
  proof (cases "starts_with (c # s) n")
    case True
    then show ?thesis using Cons.prems by (auto simp: index_of.simps [of "c # s"] starts_with_prefix)
  next
    case False
    then obtain k' where "index_of s n = Some k'" "k = Suc k'"
      using Cons.prems by (auto simp: index_of.simps [of "c # s"])
    then show ?thesis using Cons.IH [of k'] False
      by (auto simp: starts_with_prefix nth_Cons' less_Suc_eq_0_disj)
  qed
qed

lemma index_of_NoneD: "index_of s n = None \<Longrightarrow> \<not> prefix n (drop j s)"
proof (induction s arbitrary: j)
  case Nil
  then show ?case by (auto simp: index_of.simps [of "[]"] starts_with_prefix split: if_splits)
next
  case (Cons c s)
  then show ?case
    by (cases j) (auto simp: index_of.simps [of "c # s"] starts_with_prefix split: if_splits)
qed

text \<open>The reference: the leftmost occurrences that do not overlap, and their replacement.\<close>

function occurrences :: "'a list \<Rightarrow> 'a list \<Rightarrow> nat list" where
  "occurrences n [] = []"
| "occurrences n (c # s) =
     (if n \<noteq> [] \<and> starts_with (c # s) n
      then 0 # map (\<lambda>k. length n + k) (occurrences n (drop (length n) (c # s)))
      else map Suc (occurrences n s))"
  by pat_completeness auto
termination by (relation "measure (\<lambda>(n, s). length s)") (auto simp: Suc_le_eq)

function replace_ref :: "'a list \<Rightarrow> 'a list \<Rightarrow> 'a list \<Rightarrow> 'a list" where
  "replace_ref n new [] = []"
| "replace_ref n new (c # s) =
     (if n \<noteq> [] \<and> starts_with (c # s) n
      then new @ replace_ref n new (drop (length n) (c # s))
      else c # replace_ref n new s)"
  by pat_completeness auto
termination by (relation "measure (\<lambda>(n, new, s). length s)") (auto simp: Suc_le_eq)

declare occurrences.simps(2) [simp del] replace_ref.simps(2) [simp del]

lemma occurrences_first:
  assumes "n \<noteq> []" and "prefix n (drop k s)" and "\<forall>j < k. \<not> prefix n (drop j s)"
  shows "occurrences n s = k # map (\<lambda>i. k + length n + i) (occurrences n (drop (k + length n) s))"
    and "replace_ref n new s = take k s @ new @ replace_ref n new (drop (k + length n) s)"
proof (atomize (full), use assms in \<open>induction k arbitrary: s\<close>)
  case 0
  then show ?case
    by (cases s) (auto simp: occurrences.simps(2) replace_ref.simps(2) starts_with_prefix)
next
  case (Suc k)
  then obtain c s' where s: "s = c # s'" by (cases s) auto
  have "\<not> prefix n s" using Suc.prems(3) by fastforce
  moreover have "\<forall>j < k. \<not> prefix n (drop j s')" using Suc.prems(3) s by (metis drop_Suc_Cons Suc_less_eq)
  ultimately show ?case using Suc.IH [of s'] Suc.prems(1,2)
    by (simp add: s occurrences.simps(2) replace_ref.simps(2) starts_with_prefix)
qed

lemma occurrences_none:
  assumes "\<forall>j. \<not> prefix n (drop j s)"
  shows "occurrences n s = []" and "replace_ref n new s = s"
proof (atomize (full), use assms in \<open>induction s\<close>)
  case (Cons c s)
  have "\<not> prefix n (c # s)" "\<forall>j. \<not> prefix n (drop j s)" using Cons.prems by (metis drop0, metis drop_Suc_Cons)
  then show ?case using Cons.IH by (simp add: occurrences.simps(2) replace_ref.simps(2) starts_with_prefix)
qed simp

lemma prefix_drop_length: "prefix n (drop k s) \<Longrightarrow> n \<noteq> [] \<Longrightarrow> k + length n \<le> length s"
  by (cases "k \<le> length s") (auto dest: prefix_length_le)

lemma prefix_split: "prefix n (drop k w) \<Longrightarrow> w = take k w @ n @ drop (k + length n) w"
proof -
  assume "prefix n (drop k w)"
  then obtain z where z: "drop k w = n @ z" by (rule prefixE)
  then have "drop (k + length n) w = z" by (metis add.commute append_eq_conv_conj drop_drop)
  then show ?thesis using z by (metis append_take_drop_id)
qed

text \<open>The search loop returns the occurrences, from any point.\<close>

lemma find_all_loop_returns:
  assumes "n \<noteq> []" and "i \<le> length s"
  shows "find_all_loop s n i acc = Some (acc @ map (\<lambda>k. (i + k, i + k + length n)) (occurrences n (drop i s)))"
  using assms(2)
proof (induction "length s - i" arbitrary: i acc rule: less_induct)
  case less
  have pos: "0 < length n" using assms(1) by simp
  show ?case
  proof (cases "\<exists>k. index_of (drop i s) n = Some k")
    case True
    then obtain k where k: "index_of (drop i s) n = Some k" by blast
    note p = index_of_SomeD [OF k]
    have le: "i + k + length n \<le> length s"
      using prefix_drop_length [of n "i + k" s] p assms(1) by (simp add: add.commute)
    have "find_all_loop s n i acc = find_all_loop s n (i + k + length n) (acc @ [(i + k, i + k + length n)])"
      using le k by (subst find_all_loop.simps) (simp add: index_of_from_def)
    also have "\<dots> = Some ((acc @ [(i + k, i + k + length n)])
        @ map (\<lambda>j. (i + k + length n + j, i + k + length n + j + length n)) (occurrences n (drop (i + k + length n) s)))"
      using le less.prems pos by (intro less.hyps) linarith+
    finally show ?thesis using occurrences_first(1) [OF assms(1), of k "drop i s"] p
      by (simp add: comp_def add.assoc add.commute add.left_commute)
  next
    case False
    then have none: "index_of (drop i s) n = None" by (cases "index_of (drop i s) n") auto
    then have "occurrences n (drop i s) = []" using index_of_NoneD occurrences_none(1) by metis
    then show ?thesis using none by (subst find_all_loop.simps) (simp add: index_of_from_def)
  qed
qed

lemma find_all_occurrences:
  "findAllExact s n = Some (map (\<lambda>k. (k, k + length n)) (if n = [] then [] else occurrences n s))"
  using find_all_loop_returns [of n 0 s "[]"] by (auto simp: findAllExact_def)

lemma occurrences_Nil_iff:
  assumes "n \<noteq> []"
  shows "occurrences n s = [] \<longleftrightarrow> (\<forall>j. \<not> prefix n (drop j s))"
proof (cases "index_of s n")
  case None
  then have "\<forall>j. \<not> prefix n (drop j s)" using index_of_NoneD by metis
  then show ?thesis using occurrences_none(1) [of n s] by simp
next
  case (Some k)
  then show ?thesis using index_of_SomeD [OF Some] occurrences_first(1) [OF assms, of k s] by auto
qed

text \<open>An occurrence that every other one overlaps.\<close>

definition sole_at :: "'a list \<Rightarrow> 'a list \<Rightarrow> nat \<Rightarrow> bool" where
  "sole_at n s k \<longleftrightarrow> prefix n (drop k s) \<and> (\<forall>j. prefix n (drop j s) \<longrightarrow> k \<le> j \<and> j < k + length n)"

lemma occurrences_one_iff:
  assumes "n \<noteq> []"
  shows "occurrences n s = [k] \<longleftrightarrow> sole_at n s k"
proof (cases "index_of s n")
  case None
  then have "\<forall>j. \<not> prefix n (drop j s)" using index_of_NoneD by metis
  then show ?thesis using occurrences_none(1) [of n s] by (auto simp: sole_at_def)
next
  case (Some i)
  note p = index_of_SomeD [OF Some]
  have o: "occurrences n s = i # map (\<lambda>j. i + length n + j) (occurrences n (drop (i + length n) s))"
    using occurrences_first(1) [OF assms] p by blast
  have rest: "occurrences n (drop (i + length n) s) = [] \<longleftrightarrow> (\<forall>j. \<not> prefix n (drop (j + i + length n) s))"
    using occurrences_Nil_iff [OF assms, of "drop (i + length n) s"] by (simp add: add.assoc)
  have first: "i \<le> j" if "prefix n (drop j s)" for j using p that by (meson not_le)
  have "(\<forall>j. \<not> prefix n (drop (j + i + length n) s)) \<longleftrightarrow> (\<forall>j. prefix n (drop j s) \<longrightarrow> j < i + length n)"
  proof safe
    fix j assume "\<forall>j. \<not> prefix n (drop (j + i + length n) s)" "prefix n (drop j s)"
    then show "j < i + length n" by (metis add.assoc le_add_diff_inverse2 not_le)
  next
    fix j assume "\<forall>j. prefix n (drop j s) \<longrightarrow> j < i + length n" "prefix n (drop (j + i + length n) s)"
    then have "j + i + length n < i + length n" by blast
    then show False by simp
  qed
  then have "occurrences n s = [k] \<longleftrightarrow> k = i \<and> (\<forall>j. prefix n (drop j s) \<longrightarrow> j < i + length n)"
    using o rest by auto
  also have "\<dots> \<longleftrightarrow> sole_at n s k"
  proof
    assume "sole_at n s k"
    moreover from this have "k = i" using first p unfolding sole_at_def by (meson le_antisym)
    ultimately show "k = i \<and> (\<forall>j. prefix n (drop j s) \<longrightarrow> j < i + length n)"
      unfolding sole_at_def by blast
  qed (use first p in \<open>auto simp: sole_at_def\<close>)
  finally show ?thesis .
qed

section \<open>Replacing all occurrences\<close>

lemma replace_spans_append:
  "replace_spans (xs @ ys) r w a = (case replace_spans xs r w a of (w', a') \<Rightarrow> replace_spans ys r w' a')"
  by (induction xs r w a rule: replace_spans.induct) (auto split: prod.splits)

lemma replace_spans_ref:
  assumes "n \<noteq> []"
  shows "fst (replace_spans (rev (map (\<lambda>k. (length p + k, length p + k + length n)) (occurrences n t))) new (p @ t) app)
    = p @ replace_ref n new t"
proof (induction "length t" arbitrary: p t app rule: less_induct)
  case less
  have pos: "0 < length n" using assms by simp
  show ?case
  proof (cases "index_of t n")
    case None
    then have "\<forall>j. \<not> prefix n (drop j t)" using index_of_NoneD by metis
    then show ?thesis using occurrences_none [of n t] by simp
  next
    case (Some k)
    note pk = index_of_SomeD [OF Some]
    let ?p = "p @ take (k + length n) t" and ?t = "drop (k + length n) t"
    have le: "k + length n \<le> length t" using prefix_drop_length pk assms by blast
    then have lp: "length ?p = length p + (k + length n)" by simp
    let ?spans = "rev (map (\<lambda>j. (length ?p + j, length ?p + j + length n)) (occurrences n ?t))"
    have o: "rev (map (\<lambda>k. (length p + k, length p + k + length n)) (occurrences n t))
        = ?spans @ [(length p + k, length p + k + length n)]"
      using occurrences_first(1) [OF assms, of k t] pk lp by (simp add: comp_def add.assoc)
    have "fst (replace_spans ?spans new (?p @ ?t) app) = ?p @ replace_ref n new ?t"
      by (rule less) (use le pos in \<open>unfold length_drop, linarith\<close>)
    then have i: "fst (replace_spans ?spans new (p @ t) app) = ?p @ replace_ref n new ?t" by simp
    show ?thesis unfolding o replace_spans_append
      using i occurrences_first(2) [OF assms, of k t new] pk le
      by (auto simp: applySpan_def split: prod.splits)
  qed
qed

lemma applyReplaceAll_ref:
  "n \<noteq> [] \<Longrightarrow> fst (applyReplaceAll w (map (\<lambda>k. (k, k + length n)) (occurrences n w)) new app) = replace_ref n new w"
  using replace_spans_ref [of n "[]" w new app] by (simp add: applyReplaceAll_def)

section \<open>Normal forms\<close>

definition norm_text :: "unit16 list \<Rightarrow> unit16 list" where
  "norm_text w = map fold_unit (filter (\<lambda>c. c \<noteq> CR) w)"

fun positions :: "nat \<Rightarrow> unit16 list \<Rightarrow> nat list" where
  "positions i [] = []"
| "positions i (c # w) = (if c = CR then positions (Suc i) w else i # positions (Suc i) w)"

lemma norm_text_simps [simp]:
  "norm_text [] = []"
  "norm_text (c # w) = (if c = CR then norm_text w else fold_unit c # norm_text w)"
  "norm_text (u @ v) = norm_text u @ norm_text v"
  by (simp_all add: norm_text_def)

lemma normalize_loop_eq: "normalize_loop i w t m = (t @ norm_text w, m @ positions i w)"
  by (induction i w t m rule: normalize_loop.induct) auto

lemma normalize_eq: "normalizeForMatch w = (norm_text w, positions 0 w)"
  by (simp add: normalizeForMatch_def normalize_loop_eq)

lemma length_positions [simp]: "length (positions i w) = length (norm_text w)"
  by (induction i w rule: positions.induct) auto

lemma positions_append: "positions i (u @ v) = positions i u @ positions (i + length u) v"
  by (induction i u rule: positions.induct) auto

lemma positions_split:
  "k < length (norm_text w) \<Longrightarrow>
   \<exists>u c v. w = u @ c # v \<and> c \<noteq> CR \<and> length (norm_text u) = k \<and> positions i w ! k = i + length u"
proof (induction i w arbitrary: k rule: positions.induct)
  case (2 i c w)
  show ?case
  proof (cases "c \<noteq> CR \<and> k = 0")
    case True
    then show ?thesis by (intro exI [of _ "[]"] exI [of _ c] exI [of _ w]) simp
  next
    case False
    let ?k = "if c = CR then k else k - 1"
    have k: "?k < length (norm_text w)" using 2(3) False by (auto split: if_splits)
    have "\<exists>u d v. w = u @ d # v \<and> d \<noteq> CR \<and> length (norm_text u) = ?k \<and> positions (Suc i) w ! ?k = Suc i + length u"
      by (cases "c = CR") (use 2(1,2) k in auto)
    then obtain u d v where "w = u @ d # v" "d \<noteq> CR" "length (norm_text u) = ?k"
      "positions (Suc i) w ! ?k = Suc i + length u" by blast
    then show ?thesis using False
      by (intro exI [of _ "c # u"] exI [of _ d] exI [of _ v]) (auto simp: nth_Cons')
  qed
qed simp

text \<open>A stretch of a text that a match in the normal form stands for.\<close>

definition stretch :: "unit16 list \<Rightarrow> unit16 list \<Rightarrow> unit16 list \<Rightarrow> unit16 list \<Rightarrow> bool" where
  "stretch n pre mid post \<longleftrightarrow> norm_text mid = n \<and> mid \<noteq> [] \<and> hd mid \<noteq> CR \<and> last mid \<noteq> CR"

lemma stretch_span:
  assumes "stretch n pre mid post"
  shows "spanFromNormalized (normalizeForMatch (pre @ mid @ post)) (length (norm_text pre)) (length n) l
    = (length pre, length pre + length mid)"
proof -
  obtain c rest where c: "mid = c # rest" "c \<noteq> CR" using assms by (cases mid) (auto simp: stretch_def)
  have mid: "mid = butlast mid @ [last mid]" "last mid \<noteq> CR" "n = norm_text mid" using assms by (auto simp: stretch_def)
  have "norm_text mid = norm_text (butlast mid) @ [fold_unit (last mid)]"
    using mid(2) by (subst mid(1)) simp
  then have n: "length n = Suc (length (norm_text (butlast mid)))" using mid(3) by simp
  have "positions 0 (pre @ mid @ post) ! length (norm_text pre) = length pre"
    using c by (simp add: positions_append nth_append)
  moreover have "positions 0 (pre @ mid @ post) ! (length (norm_text pre) + length n - 1)
      = positions (length pre) mid ! length (norm_text (butlast mid))"
    using n mid(3) by (simp add: positions_append nth_append)
  moreover have "positions (length pre) mid ! length (norm_text (butlast mid)) = length pre + (length mid - 1)"
    using mid(2) by (subst mid(1)) (simp add: positions_append nth_append)
  ultimately show ?thesis using n mid(3) c
    by (simp add: spanFromNormalized_def normalize_eq at_def)
qed

lemma match_stretch:
  assumes "n \<noteq> []" and "prefix n (drop k (norm_text w))"
  shows "\<exists>pre mid post. w = pre @ mid @ post \<and> length (norm_text pre) = k \<and> stretch n pre mid post"
proof -
  have len: "k + length n \<le> length (norm_text w)" using prefix_drop_length [OF assms(2,1)] .
  have pos: "0 < length n" using assms(1) by simp
  obtain u c v where u: "w = u @ c # v" "c \<noteq> CR" "length (norm_text u) = k"
    using positions_split [of k w 0] len pos by auto
  obtain u' c' v' where u': "w = u' @ c' # v'" "c' \<noteq> CR" "length (norm_text u') = k + length n - 1"
  proof -
    have "k + length n - 1 < length (norm_text w)" using len pos by linarith
    then show thesis using positions_split [of "k + length n - 1" w 0] that by blast
  qed
  have pu: "prefix u w" using u(1) by (rule prefixI)
  have pu': "prefix (u' @ [c']) w" using u'(1) by (intro prefixI [of _ _ v']) simp
  have le: "length u \<le> length u'"
  proof (rule ccontr)
    assume "\<not> ?thesis"
    then have "prefix (u' @ [c']) u" by (intro prefix_length_prefix [OF pu' pu]) simp
    then obtain x where "u = u' @ [c'] @ x" by (auto elim: prefixE)
    then show False using u(3) u'(2,3) pos by simp
  qed
  define mid where "mid = drop (length u) (u' @ [c'])"
  have u'u: "u' @ [c'] = u @ mid"
  proof -
    have "prefix u (u' @ [c'])" using le by (intro prefix_length_prefix [OF pu pu']) simp
    then show ?thesis by (auto simp: mid_def elim!: prefixE)
  qed
  have w: "w = u @ mid @ v'" using u'(1) u'u by (metis append_Cons append_Nil append_assoc)
  have "length (norm_text (u @ mid)) = k + length n" using u'(2,3) pos by (simp flip: u'u)
  then have "length (norm_text mid) = length n" using u(3) by simp
  moreover have "prefix n (norm_text mid @ norm_text v')" using assms(2) u(3) by (simp add: w)
  ultimately have n: "norm_text mid = n" by (metis append_eq_append_conv prefixE)
  have "mid \<noteq> []" using n assms(1) by auto
  moreover have "hd mid = c" using w u(1) \<open>mid \<noteq> []\<close> by (cases mid) auto
  moreover have "last mid = c'" using u'u \<open>mid \<noteq> []\<close> by (metis last_appendR last_snoc)
  ultimately have "stretch n u mid v'" using n u(2) u'(2) by (simp add: stretch_def)
  then show ?thesis using w u(3) by blast
qed

section \<open>Plans\<close>

text \<open>The declarative reading of one edit: all occurrences are replaced, or the one occurrence that all
  others overlap, or, when the old string does not occur, the stretch whose normal form is the one
  occurrence of the old string's normal form in that of the text that all others overlap.\<close>

inductive edit_step :: "bool \<Rightarrow> edit_entry \<Rightarrow> unit16 list \<Rightarrow> unit16 list \<Rightarrow> bool" for crlf e where
  everywhere:
    "replace_all e \<Longrightarrow> old = adaptLineEndings (old_string e) crlf \<Longrightarrow> new = adaptLineEndings (new_string e) crlf
     \<Longrightarrow> old \<noteq> new \<Longrightarrow> old \<noteq> [] \<Longrightarrow> prefix old (drop k w) \<Longrightarrow> edit_step crlf e w (replace_ref old new w)"
| exactly:
    "\<not> replace_all e \<Longrightarrow> old = adaptLineEndings (old_string e) crlf \<Longrightarrow> new = adaptLineEndings (new_string e) crlf
     \<Longrightarrow> old \<noteq> new \<Longrightarrow> old \<noteq> [] \<Longrightarrow> sole_at old (pre @ old @ post) (length pre)
     \<Longrightarrow> edit_step crlf e (pre @ old @ post) (pre @ new @ post)"
| normalised:
    "\<not> replace_all e \<Longrightarrow> old = adaptLineEndings (old_string e) crlf \<Longrightarrow> new = adaptLineEndings (new_string e) crlf
     \<Longrightarrow> old \<noteq> new \<Longrightarrow> norm_text old \<noteq> [] \<Longrightarrow> \<forall>j. \<not> prefix old (drop j (pre @ mid @ post))
     \<Longrightarrow> stretch (norm_text old) pre mid post
     \<Longrightarrow> sole_at (norm_text old) (norm_text (pre @ mid @ post)) (length (norm_text pre))
     \<Longrightarrow> edit_step crlf e (pre @ mid @ post) (pre @ new @ post)"

inductive edit_run :: "bool \<Rightarrow> edit_entry list \<Rightarrow> unit16 list \<Rightarrow> unit16 list \<Rightarrow> bool" for crlf where
  done_all: "edit_run crlf [] w w"
| one_more: "edit_step crlf e w w1 \<Longrightarrow> edit_run crlf es w1 w2 \<Longrightarrow> edit_run crlf (e # es) w w2"

inductive_cases edit_step_elim: "edit_step crlf e w w'"
inductive_simps edit_run_simps [simp]: "edit_run crlf [] w w'" "edit_run crlf (e # es) w w'"

text \<open>What a search for the old string returns, case by case.\<close>

lemma find_exact:
  assumes "n \<noteq> []" and "sole_at n w k"
  shows "findOldString w n = Some (Unique (k, k + length n) False)"
proof -
  have "occurrences n w = [k]" using occurrences_one_iff assms by blast
  then show ?thesis using assms(1) by (simp add: findOldString_def find_all_occurrences)
qed

lemma find_normalised:
  assumes "norm_text n \<noteq> []" and "\<forall>j. \<not> prefix n (drop j w)"
    and "sole_at (norm_text n) (norm_text w) (length (norm_text pre))"
    and "w = pre @ mid @ post" and "stretch (norm_text n) pre mid post"
  shows "findOldString w n = Some (Unique (length pre, length pre + length mid) True)"
proof -
  have o: "occurrences (norm_text n) (norm_text w) = [length (norm_text pre)]"
    using occurrences_one_iff assms(1,3) by blast
  show ?thesis
    using assms(1,2) o stretch_span [OF assms(5)] occurrences_none(1) [OF assms(2)]
    by (auto simp: findOldString_def find_all_occurrences normalize_eq assms(4) Let_def)
qed

lemma find_unique_cases:
  assumes "findOldString w n = Some (Unique s via)"
  obtains k where "n \<noteq> []" "sole_at n w k" "s = (k, k + length n)"
  | pre mid post where "norm_text n \<noteq> []" "\<forall>j. \<not> prefix n (drop j w)"
      "sole_at (norm_text n) (norm_text w) (length (norm_text pre))" "w = pre @ mid @ post"
      "stretch (norm_text n) pre mid post" "s = (length pre, length pre + length mid)"
proof (cases "\<exists>k. n \<noteq> [] \<and> occurrences n w = [k]")
  case True
  then obtain k where "n \<noteq> []" "occurrences n w = [k]" by blast
  then show ?thesis using assms that(1) [of k] occurrences_one_iff [of n w k] find_exact [of n w k] by simp
next
  case False
  let ?o = "occurrences (norm_text n) (norm_text w)"
  have few: "length (if n = [] then [] else occurrences n w) \<noteq> 1"
    using False by (auto simp: length_Suc_conv)
  then have none: "n = [] \<or> occurrences n w = []"
  proof -
    have "\<not> length (if n = [] then [] else occurrences n w) > 1"
      using assms few by (auto simp: findOldString_def find_all_occurrences split: if_splits)
    then have "length (if n = [] then [] else occurrences n w) = 0" using few by linarith
    then show ?thesis by (auto split: if_splits)
  qed
  then have norm: "norm_text n \<noteq> []" "length ?o = 1"
    using assms by (auto simp: findOldString_def find_all_occurrences normalize_eq Let_def split: if_splits)
  then obtain k where k: "?o = [k]" by (auto simp: length_Suc_conv)
  then have sole: "sole_at (norm_text n) (norm_text w) k" using occurrences_one_iff norm(1) by blast
  then obtain pre mid post where p: "w = pre @ mid @ post" "length (norm_text pre) = k"
    "stretch (norm_text n) pre mid post"
    using match_stretch [OF norm(1), of k w] by (auto simp: sole_at_def)
  have "n \<noteq> []" using norm(1) by auto
  then have no: "\<forall>j. \<not> prefix n (drop j w)" using none occurrences_Nil_iff by blast
  then have "s = (length pre, length pre + length mid)"
    using find_normalised [OF norm(1) no _ p(1,3)] sole p(2) assms by simp
  then show ?thesis using that(2) norm(1) no sole p by blast
qed

subsection \<open>Edits keep a text encodable\<close>

text \<open>What the tools let through: no NUL, no lone surrogate.\<close>

definition plain_text :: "unit16 list \<Rightarrow> bool" where
  "plain_text s \<longleftrightarrow> 0 \<notin> set s \<and> isWellFormed s"

lemma plain_append: "plain_text u \<Longrightarrow> plain_text v \<Longrightarrow> plain_text (u @ v)"
  by (auto simp: plain_text_def isWellFormed_def well_formed_append)

lemma plain_middle:
  assumes "plain_text (u @ m @ v)" and "m \<noteq> []" and "\<not> is_low (unat (hd m))" and "\<not> is_high (unat (last m))"
  shows "plain_text u \<and> plain_text v"
  using assms well_formed_middle [of "map unat u" "map unat m" "map unat v"]
  by (auto simp: plain_text_def isWellFormed_def hd_map last_map)

lemma plain_ends: "plain_text u \<Longrightarrow> u \<noteq> [] \<Longrightarrow> \<not> is_low (unat (hd u)) \<and> \<not> is_high (unat (last u))"
  using well_formed_ends [of "map unat u"] by (simp add: plain_text_def isWellFormed_def hd_map last_map)

lemma breaks_plain [simp]:
  "\<not> is_high 0x0D" "\<not> is_low 0x0D" "\<not> is_high 0x0A" "\<not> is_low 0x0A"
  by (simp_all add: is_high_def is_low_def)

lemma to_crlf_cases [simp]:
  "to_crlf (0x0A # r) = CR # LF # to_crlf r"
  "to_crlf (0x0D # 0x0A # r) = CR # LF # to_crlf r"
  "r = [] \<or> hd r \<noteq> LF \<Longrightarrow> to_crlf (0x0D # r) = CR # to_crlf r"
  "c \<noteq> LF \<Longrightarrow> c \<noteq> CR \<Longrightarrow> to_crlf (c # r) = c # to_crlf r"
  by (auto split: list.splits)

declare to_crlf.simps(2) [simp del]

lemma to_crlf_wf: "well_formed (map unat s) \<Longrightarrow> well_formed (map unat (to_crlf s))"
proof (induction "map unat s" arbitrary: s rule: well_formed.induct)
  case (3 u v rest)
  then obtain a b r where s: "s = a # b # r" "u = unat a" "v = unat b" "rest = map unat r" by auto
  show ?case
  proof (cases "is_high (unat a)")
    case True
    then have b: "is_low (unat b)" "well_formed (map unat r)" using 3(4) s(1) by simp_all
    have "a \<noteq> CR" "a \<noteq> LF" "b \<noteq> CR" "b \<noteq> LF" using True b(1) by auto
    then have "to_crlf s = a # b # to_crlf r" by (simp add: s(1))
    then show ?thesis using 3(1) True b s by simp
  next
    case False
    have "well_formed (map unat (to_crlf (b # r)))" by (rule 3(2)) (use False 3(4) s in auto)
    then have w: "\<not> is_low (unat a)" "well_formed (map unat (to_crlf (b # r)))"
      using False 3(4) s(1) by simp_all
    consider "a = LF" | "a = CR" "b = LF" | "a = CR" "b \<noteq> LF" | "a \<noteq> LF" "a \<noteq> CR" by blast
    then show ?thesis
    proof cases
      case 2
      then have "well_formed (map unat (to_crlf r))" using w(2) by (auto simp: well_formed_Cons split: if_splits)
      then show ?thesis using 2 s(1) by (simp add: well_formed_Cons)
    qed (use w False s(1) in \<open>simp_all add: well_formed_Cons\<close>)
  qed
next
  case (2 u)
  then obtain a where "s = [a]" "\<not> is_high (unat a)" "\<not> is_low (unat a)" by auto
  then show ?case by (cases "a = LF"; cases "a = CR") simp_all
qed simp

lemma to_crlf_units: "set (to_crlf s) \<subseteq> insert CR (insert LF (set s))"
proof (induction s rule: to_crlf.induct)
  case step: (2 c rest)
  consider "c = LF" | r where "c = CR" "rest = LF # r" | "c = CR" "rest = [] \<or> hd rest \<noteq> LF" | "c \<noteq> LF" "c \<noteq> CR"
    by (cases rest) auto
  then show ?case
  proof cases
    case (2 r)
    then show ?thesis using step(2) [of LF r] by auto
  next
    case 3
    then show ?thesis using step(3) by (cases rest) auto
  qed (use step in auto)
qed simp

lemma adapt_plain: "plain_text s \<Longrightarrow> plain_text (adaptLineEndings s crlf)"
  using to_crlf_wf [of s] subsetD [OF to_crlf_units, of 0 s]
  by (cases crlf) (simp_all add: adaptLineEndings_def plain_text_def isWellFormed_def, blast?)

lemma replace_ref_plain:
  assumes "plain_text old" and "plain_text new" and "old \<noteq> []"
  shows "plain_text w \<Longrightarrow> plain_text (replace_ref old new w)"
proof (induction "length w" arbitrary: w rule: less_induct)
  case less
  show ?case
  proof (cases "index_of w old")
    case None
    then have "\<forall>j. \<not> prefix old (drop j w)" using index_of_NoneD by metis
    then show ?thesis using occurrences_none(2) less.prems by metis
  next
    case (Some k)
    let ?rest = "drop (k + length old) w"
    have p: "prefix old (drop k w)" "\<forall>j < k. \<not> prefix old (drop j w)" using index_of_SomeD [OF Some] by blast+
    have w: "w = take k w @ old @ ?rest" by (rule prefix_split [OF p(1)])
    have cut: "plain_text (take k w) \<and> plain_text ?rest"
      by (rule plain_middle [of _ old]) (use less.prems plain_ends [OF assms(1,3)] assms(3) w in metis)+
    have "0 < length old" using assms(3) by simp
    then have "length ?rest < length w"
      using prefix_drop_length [OF p(1) assms(3)] unfolding length_drop by linarith
    then have "plain_text (replace_ref old new ?rest)" using less.hyps cut by blast
    then show ?thesis using occurrences_first(2) [OF assms(3) p] cut assms(2) plain_append by metis
  qed
qed

text \<open>Folding leaves surrogates alone, and removing carriage returns does not separate them.\<close>

lemma fold_unit_surrogates: "is_high (unat (fold_unit c)) = is_high (unat c) \<and> is_low (unat (fold_unit c)) = is_low (unat c)"
proof (cases "map_of CHAR_FOLD c")
  case (Some d)
  then have "(c, d) \<in> set CHAR_FOLD" by (rule map_of_SomeD)
  then show ?thesis using Some by (auto simp: fold_unit_def CHAR_FOLD_def is_high_def is_low_def)
qed (simp add: fold_unit_def)

lemma norm_ends:
  assumes "plain_text s" and "norm_text s \<noteq> []"
  shows "\<not> is_low (unat (hd (norm_text s))) \<and> \<not> is_high (unat (last (norm_text s)))"
proof -
  let ?keep = "\<lambda>c. c \<noteq> CR"
  have ne: "filter ?keep s \<noteq> []" using assms(2) by (simp add: norm_text_def)
  have "\<not> is_low (unat (hd (filter ?keep s)))" using assms(1) ne
  proof (induction s)
    case (Cons c s)
    then show ?case by (cases "c = CR") (auto simp: plain_text_def isWellFormed_def well_formed_Cons high_not_low split: if_splits)
  qed simp
  moreover have "\<not> is_high (unat (last (filter ?keep s)))" using assms(1) ne
  proof (induction s rule: rev_induct)
    case (snoc c s)
    show ?case
    proof (cases "c = CR")
      case True
      then have "plain_text s" using snoc.prems(1) well_formed_cut [of "map unat s" "[unat c]"]
        by (auto simp: plain_text_def isWellFormed_def)
      then show ?thesis using snoc True by simp
    next
      case False
      then show ?thesis using plain_ends [OF snoc.prems(1)] by simp
    qed
  qed simp
  ultimately show ?thesis using ne fold_unit_surrogates by (simp add: norm_text_def hd_map last_map)
qed

lemma stretch_ends:
  assumes "stretch n pre mid post"
  shows "hd n = fold_unit (hd mid) \<and> last n = fold_unit (last mid)"
proof -
  have m: "norm_text mid = n" "mid \<noteq> []" "hd mid \<noteq> CR" "last mid \<noteq> CR" using assms by (simp_all add: stretch_def)
  have "norm_text (butlast mid @ [last mid]) = n" using m(1,2) by simp
  then have "norm_text (butlast mid) @ [fold_unit (last mid)] = n" using m(4) by (simp del: append_butlast_last_id)
  moreover have "hd n = fold_unit (hd mid)" using m by (cases mid) auto
  ultimately show ?thesis by auto
qed

lemma edit_step_plain:
  assumes "edit_step crlf e w w'" and "plain_text w" and "plain_text (old_string e)" and "plain_text (new_string e)"
  shows "plain_text w'"
  using assms(1)
proof (cases rule: edit_step.cases)
  case (everywhere old new k)
  then show ?thesis using replace_ref_plain adapt_plain assms by blast
next
  case (exactly old new pre post)
  have p: "plain_text old" "plain_text new" using exactly adapt_plain assms(3,4) by blast+
  have "plain_text pre \<and> plain_text post"
    using assms(2) exactly(1,7) plain_ends [OF p(1)] plain_middle [of pre old post] by blast
  then show ?thesis using exactly p(2) plain_append by blast
next
  case (normalised old new pre mid post)
  have p: "plain_text old" "plain_text new" using normalised adapt_plain assms(3,4) by blast+
  have m: "mid \<noteq> []" "hd (norm_text old) = fold_unit (hd mid)" "last (norm_text old) = fold_unit (last mid)"
    using normalised(9) stretch_ends [OF normalised(9)] by (simp_all add: stretch_def)
  have "plain_text pre \<and> plain_text post"
  proof (rule plain_middle [of _ mid])
    show "plain_text (pre @ mid @ post)" using assms(2) normalised(1) by simp
    show "\<not> is_low (unat (hd mid))" "\<not> is_high (unat (last mid))"
      using norm_ends [OF p(1) normalised(7)] m(2,3) fold_unit_surrogates by metis+
  qed (rule m(1))
  then show ?thesis using normalised p(2) plain_append by blast
qed

lemma edit_run_plain:
  "edit_run crlf es w w' \<Longrightarrow> plain_text w \<Longrightarrow>
   \<forall>e \<in> set es. plain_text (old_string e) \<and> plain_text (new_string e) \<Longrightarrow> plain_text w'"
  by (induction rule: edit_run.induct) (auto intro: edit_step_plain)

lemma findOldString_returns: "\<exists>m. findOldString w n = Some m"
  by (simp add: findOldString_def find_all_occurrences Let_def)

lemma plan_edit_returns: "\<exists>r. plan_edit crlf i e w applied = Some r"
  using findOldString_returns [of w "adaptLineEndings (old_string e) crlf"]
  by (auto simp: plan_edit_def find_all_occurrences Let_def)

lemma plan_loop_returns: "\<exists>r. plan_loop crlf i es w applied = Some r"
proof (induction es arbitrary: i w applied)
  case (Cons e es)
  obtain r where "plan_edit crlf i e w applied = Some r" using plan_edit_returns by blast
  then show ?case using Cons.IH by (cases r) auto
qed simp

lemma plan_edit_sound:
  assumes "plan_edit crlf i e w applied = Some (Inr (w', applied'))"
  shows "edit_step crlf e w w'"
proof -
  let ?old = "adaptLineEndings (old_string e) crlf" and ?new = "adaptLineEndings (new_string e) crlf"
  have ne: "?old \<noteq> ?new" using assms by (auto simp: plan_edit_def Let_def split: if_splits)
  show ?thesis
  proof (cases "replace_all e")
    case True
    then have o: "?old \<noteq> []" "occurrences ?old w \<noteq> []"
      and w': "w' = fst (applyReplaceAll w (map (\<lambda>k. (k, k + length ?old)) (occurrences ?old w)) ?new applied)"
      using assms by (auto simp: plan_edit_def find_all_occurrences Let_def split: if_splits)
    obtain j where "prefix ?old (drop j w)" using o occurrences_Nil_iff by blast
    then show ?thesis using edit_step.everywhere [OF True refl refl ne o(1)] applyReplaceAll_ref [OF o(1)] w'
      by simp
  next
    case False
    then obtain s via where f: "findOldString w ?old = Some (Unique s via)"
      and w': "w' = take (fst s) w @ ?new @ drop (snd s) w"
      using assms by (auto simp: plan_edit_def applySpan_def Let_def split: if_splits bind_splits match_result.splits)
    from f show ?thesis
    proof (cases rule: find_unique_cases)
      case (1 k)
      then have "w = take k w @ ?old @ drop (k + length ?old) w" "k + length ?old \<le> length w"
        using prefix_drop_length [of ?old k w] prefix_split [of ?old k w] unfolding sole_at_def by blast+
      then show ?thesis
        using edit_step.exactly [OF False refl refl ne 1(1), of "take k w" "drop (k + length ?old) w"] 1(2,3) w'
        by (simp add: min_absorb2)
    next
      case (2 pre mid post)
      then show ?thesis using edit_step.normalised [OF False refl refl ne 2(1) _ 2(5)] w' by simp
    qed
  qed
qed

lemma plan_edit_complete:
  assumes "edit_step crlf e w w'"
  shows "\<exists>applied'. plan_edit crlf i e w applied = Some (Inr (w', applied'))"
  using assms
proof (cases rule: edit_step.cases)
  case (everywhere old new k)
  then have "old_string e \<noteq> new_string e" "occurrences old w \<noteq> []" using occurrences_Nil_iff [of old w] by auto
  moreover obtain w1 a1 where "applyReplaceAll w (map (\<lambda>k. (k, k + length old)) (occurrences old w)) new applied = (w1, a1)"
    by fastforce
  moreover from this have "w1 = replace_ref old new w" using applyReplaceAll_ref [of old w new applied] everywhere by simp
  ultimately show ?thesis using everywhere by (auto simp: plan_edit_def find_all_occurrences Let_def)
next
  case (exactly old new pre post)
  then have "old_string e \<noteq> new_string e" by auto
  then show ?thesis using exactly find_exact [of old w "length pre"]
    by (auto simp: plan_edit_def applySpan_def Let_def)
next
  case (normalised old new pre mid post)
  then have "old_string e \<noteq> new_string e" by auto
  then show ?thesis using normalised find_normalised [of old w pre mid post]
    by (auto simp: plan_edit_def applySpan_def Let_def)
qed

lemma plan_loop_iff: "(\<exists>a'. plan_loop crlf i es w a = Some (Inr (w', a'))) \<longleftrightarrow> edit_run crlf es w w'"
proof (induction es arbitrary: i w a)
  case (Cons e es)
  show ?case
  proof
    assume "\<exists>a'. plan_loop crlf i (e # es) w a = Some (Inr (w', a'))"
    then obtain w1 a1 a' where "plan_edit crlf i e w a = Some (Inr (w1, a1))"
      "plan_loop crlf (Suc i) es w1 a1 = Some (Inr (w', a'))"
      by (auto split: bind_splits sum.splits)
    then show "edit_run crlf (e # es) w w'" using plan_edit_sound Cons.IH by fastforce
  next
    assume "edit_run crlf (e # es) w w'"
    then obtain w1 where w1: "edit_step crlf e w w1" "edit_run crlf es w1 w'" by auto
    then obtain a1 where "plan_edit crlf i e w a = Some (Inr (w1, a1))" using plan_edit_complete by blast
    then show "\<exists>a'. plan_loop crlf i (e # es) w a = Some (Inr (w', a'))" using w1(2) Cons.IH by auto
  qed
qed auto

text \<open>
  C40: Planning terminates: for every text and every list of edits, whatever the strings are, the search
  loops return and the planner answers with a plan or a failure.
\<close>

theorem plan_terminates: "\<exists>result. planEdits content edits = Some result"
  using plan_loop_returns [of "detectCrlfOnly content" 0 edits content "[]"] by (auto simp: planEdits_def)

text \<open>
  C39: A plan is exactly a run of the edits. The planner accepts precisely when the edits, in order, lead
  from the text to a different one by the declarative steps, and the planned text is the end of that
  run. A step replaces every leftmost occurrence that overlaps no earlier one; or, for a single
  replacement, the leftmost occurrence, provided that every other occurrence overlaps it; or, when the
  old string does not occur, the stretch behind the leftmost occurrence of its normal form in the normal
  form of the text, under the same proviso. Everything around what is replaced stays untouched. Other
  places that overlap the replaced one do not make a step ambiguous.
\<close>

theorem planned_edit_exact:
  "(\<exists>applied. planEdits content edits = Some (Inr (planned, applied)))
    \<longleftrightarrow> edit_run (detectCrlfOnly content) edits content planned \<and> planned \<noteq> content"
proof -
  have "(\<exists>applied. planEdits content edits = Some (Inr (planned, applied)))
      \<longleftrightarrow> (\<exists>a. plan_loop (detectCrlfOnly content) 0 edits content [] = Some (Inr (planned, a))) \<and> planned \<noteq> content"
    by (auto simp: planEdits_def split: bind_splits sum.splits if_splits)
  then show ?thesis unfolding plan_loop_iff .
qed

text \<open>An occurrence that overlaps the first one does not make a match ambiguous.\<close>

lemma overlapping_occurrence_accepted:
  "planEdits [0x61, 0x61, 0x61] [\<lparr>old_string = [0x61, 0x61], new_string = [0x62], replace_all = False\<rparr>]
    = Some (Inr ([0x62, 0x61], [(0, 1)]))"
proof -
  have "findOldString [0x61, 0x61, 0x61] [0x61, 0x61] = Some (Unique (0, 0 + length [0x61, 0x61 :: unit16]) False)"
    by (rule find_exact) (auto simp: sole_at_def prefix_def drop_Cons' split: if_splits)
  then show ?thesis
    by (simp add: planEdits_def plan_edit_def detectCrlfOnly_def adaptLineEndings_def applySpan_def shiftApplied_def)
qed

text \<open>So it is with a match by normal form: of three fullwidth commas the first two are replaced when
  two plain commas are asked for, although the last two have the same normal form.\<close>

lemma overlapping_normal_forms_accepted:
  "planEdits [0xFF0C, 0xFF0C, 0xFF0C] [\<lparr>old_string = [0x2C, 0x2C], new_string = [0x62], replace_all = False\<rparr>]
    = Some (Inr ([0x62, 0xFF0C], [(0, 1)]))"
  by code_simp

text \<open>A later edit that spans an earlier replacement moves its record before the start of the text.\<close>

lemma applied_position_negative:
  "planEdits [0x61, 0x62, 0x63, 0x64]
     [\<lparr>old_string = [0x62], new_string = [0x78, 0x79], replace_all = False\<rparr>,
      \<lparr>old_string = [0x61, 0x78, 0x79, 0x63], new_string = [], replace_all = False\<rparr>]
   = Some (Inr ([0x64], [(-3, 2), (0, 0)]))"
  by code_simp

end
