(* ===== verification/FileToolsProps.thy ===== *)
theory FileToolsProps
  imports FileTools FileEditProps
begin

text \<open>
  What the file tools promise: texts survive the way to the disk and back, the tracker stays small and
  only knows what was read or written last, a path that does not escape lies below the working
  directory, and an approved edit writes exactly the text that was planned when it was approved, over
  exactly the bytes it was planned for, or nothing.
\<close>

section \<open>Loading\<close>

lemma findRawNul_None: "findRawNul t = None \<longleftrightarrow> 0 \<notin> set t"
  by (simp add: findRawNul_def index_of_char_None)

lemma accepted_payload: "\<not> rejectInvalidTextPayload t \<longleftrightarrow> plain_text t"
  by (auto simp: rejectInvalidTextPayload_def findRawNul_None plain_text_def)


lemma split_bom: "(if snd (splitUtf8Bom raw) then UTF8_BOM @ fst (splitUtf8Bom raw) else fst (splitUtf8Bom raw)) = raw"
  by (auto simp: splitUtf8Bom_def Let_def UTF8_BOM_def starts_with_iff)



lemma plain_without_bom: "plain_text raw \<Longrightarrow> plain_text (fst (splitUtf8Bom raw))"
  using well_formed_cut [of "map unat UTF8_BOM"]
  by (auto simp: splitUtf8Bom_def Let_def plain_text_def isWellFormed_def starts_with_iff UTF8_BOM_def is_high_def is_low_def)


lemma loadedD:
  assumes "loadTextFile h m path d = Some (Inr l)"
  obtains c buffer where "d_real d path = Some c" "d_entry d c = Some (Regular buffer)" "length buffer \<le> m"
    "0 \<notin> set buffer" "splitUtf8Bom (decode_utf8 buffer) = (l_content l, l_bom l)" "l_key l = c"
    "l_digest l = h_sha h buffer" "plain_text (l_content l)"
proof -
  obtain buffer where b: "stat d path = Some (Regular buffer)" "length buffer \<le> m" "0 \<notin> set buffer"
    and l: "splitUtf8Bom (decode_utf8 buffer) = (l_content l, l_bom l)" "l_digest l = h_sha h buffer"
      "l_key l = canonicalFileKey d path"
    using assms by (auto simp: loadTextFile_def split: option.splits entry.splits if_splits prod.splits)
  obtain c where c: "d_real d path = Some c" "d_entry d c = Some (Regular buffer)"
    using b(1) by (auto simp: stat_def split: bind_splits)
  have "plain_text (decode_utf8 buffer)"
    using decode_no_nul [OF b(3)] decode_well_formed by (simp add: plain_text_def)
  then have "plain_text (l_content l)" using plain_without_bom l(1) by (metis fst_conv)
  then show thesis using that [of c buffer] b c l by (simp add: canonicalFileKey_def)
qed


section \<open>The tracker\<close>

lemma record_lookup: "map_of (recordKnownContent h key content tr) key = Some (contentDigest h content)"
proof -
  have "map_of (filter (\<lambda>x. fst x \<noteq> key) tr) key = None" by (auto simp: map_of_eq_None_iff)
  moreover have "map_of (tl tr) key = None" if "map_of tr key = None"
    using that by (cases tr) (auto split: if_splits)
  ultimately show ?thesis by (auto simp: recordKnownContent_def map_add_def)
qed

definition tracker_ok :: "'d tracker \<Rightarrow> bool" where
  "tracker_ok tr \<longleftrightarrow> distinct (map fst tr) \<and> length tr \<le> MAX_TRACKED_FILES"

lemma record_ok: "tracker_ok tr \<Longrightarrow> tracker_ok (recordKnownContent h key content tr)"
proof -
  assume ok: "tracker_ok tr"
  have f: "length (filter (\<lambda>x. fst x \<noteq> key) tr) < length tr" if "map_of tr key = Some v" for v
    by (rule length_filter_less [of "(key, v)"]) (use that map_of_SomeD in auto)
  have t: "fst ` set (tl tr) \<subseteq> fst ` set tr" by (cases tr) auto
  show ?thesis
  proof (cases "map_of tr key")
    case None
    then have "key \<notin> fst ` set tr" by (simp add: map_of_eq_None_iff)
    then show ?thesis using ok None t
      by (auto simp: tracker_ok_def recordKnownContent_def MAX_TRACKED_FILES_def map_tl distinct_tl)
  next
    case (Some v)
    then show ?thesis using ok f
      by (fastforce simp: tracker_ok_def recordKnownContent_def distinct_map_filter Suc_le_eq)
  qed
qed

section \<open>Containment\<close>

lemma common_prefix_dotdot:
  assumes "isContainedRel (posix_relative dir root target)"
  shows "prefix (path_segs (posix_resolve dir [] root)) (path_segs (posix_resolve dir [] target))"
proof -
  let ?rs = "path_segs (posix_resolve dir [] root)"
  let ?ts = "path_segs (posix_resolve dir [] target)"
  let ?k = "common_prefix ?rs ?ts"
  have "length ?rs - ?k = 0"
  proof (rule ccontr)
    assume "length ?rs - ?k \<noteq> 0"
    then obtain m where "length ?rs - ?k = Suc m" by (metis not0_implies_Suc)
    then have r: "posix_relative dir root target = join ''/'' (''..'' # replicate m ''..'' @ drop ?k ?ts)"
      by (simp add: posix_relative_def Let_def)
    show False
    proof (cases "replicate m ''..'' @ drop ?k ?ts")
      case Nil
      then show ?thesis using assms r by (simp add: isContainedRel_def)
    next
      case (Cons x xs)
      then show ?thesis using assms r by (simp add: isContainedRel_def)
    qed
  qed
  then show ?thesis by (intro common_prefix_full) simp
qed

lemma not_escaping_below:
  assumes "\<not> escapesWorkdir h d w path"
  shows "\<exists>root target. d_real d w = Some root \<and> admittedTargetOf h d w path = Some target
    \<and> prefix (path_segs (posix_resolve (h_cwd h) [] root)) (path_segs (posix_resolve (h_cwd h) [] target))"
  using assms common_prefix_dotdot
  by (auto simp: escapesWorkdir_def admittedTargetOf_def split: option.splits)

text \<open>An admission that still holds names the same target, which is still inside when it was.\<close>

lemma admission_stable:
  assumes "revalidateFilePathAdmission h d' w path (captureFilePathAdmission h d w path)"
  shows "admittedTargetOf h d' w path = admittedTargetOf h d w path
    \<and> (\<not> escapesWorkdir h d w path \<longrightarrow> \<not> escapesWorkdir h d' w path)"
  using assms by (auto simp: revalidateFilePathAdmission_def captureFilePathAdmission_def Let_def)

section \<open>Edits\<close>

lemma case_sum_Inr [simp]:
  "(case r of Inl e \<Rightarrow> Inl (f e) | Inr p \<Rightarrow> Inr (g p)) = Inr y \<longleftrightarrow> (\<exists>p. r = Inr p \<and> g p = y)"
  by (cases r) auto








section \<open>Whole files\<close>

text \<open>Writing a whole file: an existing one is only overwritten when its text is what the tools last read
  or wrote and its bytes are the approved ones, a new one only when none was there at approval.\<close>

lemma save_written_outcome:
  assumes "save_written h path input t = (r, t')"
  shows "(r \<noteq> Some Succeeded \<longrightarrow> t' = t)
    \<and> (r = Some Succeeded \<longrightarrow> write_file h path (encode_utf8 input) (t_disk t) = Some (t_disk t')
        \<and> map_of (t_tracker t') (canonicalFileKey (t_disk t') path)
            = Some (contentDigest h (fst (splitUtf8Bom input))))"
proof -
  obtain content bom where c: "splitUtf8Bom input = (content, bom)" by fastforce
  then have "(if bom then UTF8_BOM @ content else content) = input"
    using split_bom [of input] by (simp only: c fst_conv snd_conv)
  then show ?thesis
    using assms by (auto simp: save_written_def saveTextFile_def record_lookup c simp del: if_split split: option.splits)
qed

lemma write_guarded:
  assumes "executeWriteFile h s file input approval t = (r, t')" and "path = resolveFilePath h (workdir s) file"
  shows "(r \<noteq> Some Succeeded \<longrightarrow> t' = t)
    \<and> (r = Some Succeeded \<longrightarrow> plain_text input
        \<and> write_file h path (encode_utf8 input) (t_disk t) = Some (t_disk t')
        \<and> (stat (t_disk t) path = None \<and> approval \<in> {None, Some None}
            \<or> (\<exists>l. loadTextFile h (maxFileBytes s) path (t_disk t) = Some (Inr l)
                \<and> approval \<in> {None, Some (Some (l_digest l))}
                \<and> map_of (t_tracker t) (l_key l) = Some (contentDigest h (l_content l)))))"
proof (cases "rejectInvalidTextPayload input \<or> existsAsFile (t_disk t) path = None")
  case False
  then have p: "plain_text input" using accepted_payload by blast
  show ?thesis
  proof (cases "existsAsFile (t_disk t) path = Some True")
    case True
    show ?thesis
    proof (cases "\<exists>l. loadTextFile h (maxFileBytes s) path (t_disk t) = Some (Inr l)
        \<and> \<not> fileWriteVersionGuard approval (Some (l_digest l)) \<and> editFreshnessGuard h (t_tracker t) l = None")
      case ok: True
      then obtain l where l: "loadTextFile h (maxFileBytes s) path (t_disk t) = Some (Inr l)"
        "\<not> fileWriteVersionGuard approval (Some (l_digest l))" "editFreshnessGuard h (t_tracker t) l = None" by blast
      then have "save_written h path input t = (r, t')" using assms False True by (simp add: executeWriteFile_def Let_def)
      moreover have "map_of (t_tracker t) (l_key l) = Some (contentDigest h (l_content l))"
        using l(3) by (auto simp: editFreshnessGuard_def freshness_failure_def checkFreshness_def
            split: freshness.splits option.splits if_splits)
      moreover have "approval \<in> {None, Some (Some (l_digest l))}" using l(2) by (auto simp: fileWriteVersionGuard_def)
      ultimately show ?thesis using save_written_outcome [of h path input t r t'] p l(1) by blast
    next
      case no: False
      then show ?thesis using assms False True
        by (auto simp: executeWriteFile_def Let_def split: option.splits sum.splits if_splits)
    qed
  next
    case no: False
    then have "stat (t_disk t) path = None"
      using False by (auto simp: existsAsFile_def split: option.splits entry.splits)
    then have "if fileWriteVersionGuard approval None then (r, t') = (Some (Failed VersionChanged), t)
        else save_written h path input t = (r, t')"
      using assms False by (auto simp: executeWriteFile_def Let_def existsAsFile_def)
    moreover have "approval \<in> {None, Some None}" if "\<not> fileWriteVersionGuard approval None"
      using that by (auto simp: fileWriteVersionGuard_def)
    ultimately show ?thesis using save_written_outcome [of h path input t r t'] p \<open>stat (t_disk t) path = None\<close>
      by (cases "fileWriteVersionGuard approval None") auto
  qed
next
  case True
  then have "t' = t \<and> r \<noteq> Some Succeeded"
    using assms by (cases "rejectInvalidTextPayload input") (auto simp: executeWriteFile_def Let_def)
  then show ?thesis by simp
qed

text \<open>An approved rewrite replaces exactly the file that was approved, or creates one where there was none
  then and now; a grant for the session is offered only for a target inside the working directory.\<close>

lemma approved_write:
  assumes "inj (h_sha h)" and "prepare_write h s denied file input t0 = Some (Inr (baseline, remember))"
    and "executeWriteFile h s file input (Some baseline) t1 = (Some Succeeded, t2)"
    and "path = resolveFilePath h (workdir s) file"
  shows "write_file h path (encode_utf8 input) (t_disk t1) = Some (t_disk t2)
    \<and> stat (t_disk t1) path = stat (t_disk t0) path
    \<and> (remember \<longrightarrow> \<not> escapesWorkdir h (t_disk t0) (workdir s) file)"
proof -
  have w: "write_file h path (encode_utf8 input) (t_disk t1) = Some (t_disk t2)"
    "stat (t_disk t1) path = None \<and> baseline = None
      \<or> (\<exists>l. loadTextFile h (maxFileBytes s) path (t_disk t1) = Some (Inr l) \<and> baseline = Some (l_digest l))"
    using write_guarded [OF assms(3,4)] by auto
  have e: "remember \<longrightarrow> \<not> escapesWorkdir h (t_disk t0) (workdir s) file"
    using assms(2) by (auto simp: prepare_write_def Let_def split: if_splits bind_splits sum.splits option.splits)
  have p: "baseline = None \<and> loadTextFile h (maxFileBytes s) path (t_disk t0) = Some (Inl Missing)
      \<or> (\<exists>l. loadTextFile h (maxFileBytes s) path (t_disk t0) = Some (Inr l) \<and> baseline = Some (l_digest l))"
    using assms(2,4) by (auto simp: prepare_write_def Let_def split: if_splits bind_splits sum.splits option.splits)
  have "stat (t_disk t1) path = stat (t_disk t0) path"
  proof (cases baseline)
    case None
    then have "loadTextFile h (maxFileBytes s) path (t_disk t0) = Some (Inl Missing)" using p by auto
    then have "stat (t_disk t0) path = None"
      by (auto simp: loadTextFile_def split: option.splits entry.splits if_splits prod.splits)
    then show ?thesis using w(2) None by simp
  next
    case (Some g)
    then obtain l0 l1 where l: "loadTextFile h (maxFileBytes s) path (t_disk t0) = Some (Inr l0)" "g = l_digest l0"
      "loadTextFile h (maxFileBytes s) path (t_disk t1) = Some (Inr l1)" "g = l_digest l1"
      using p w(2) by auto
    obtain c0 b0 where 0: "d_real (t_disk t0) path = Some c0" "d_entry (t_disk t0) c0 = Some (Regular b0)"
      "l_digest l0 = h_sha h b0" using loadedD [OF l(1)] by metis
    obtain c1 b1 where 1: "d_real (t_disk t1) path = Some c1" "d_entry (t_disk t1) c1 = Some (Regular b1)"
      "l_digest l1 = h_sha h b1" using loadedD [OF l(3)] by metis
    have "b0 = b1" using 0(3) 1(3) l(2,4) assms(1) by (auto dest: injD)
    then show ?thesis using 0 1 by (simp add: stat_def)
  qed
  then show ?thesis using w(1) e by blast
qed

text \<open>The tracker never grows beyond its limit, whichever tools run.\<close>

lemma tools_tracker_ok:
  assumes "tracker_ok (t_tracker t)"
  shows "tracker_ok (t_tracker (snd (executeReadFile h s file offset t)))"
    and "tracker_ok (t_tracker (snd (executeEditFile h s file edits approval t)))"
    and "tracker_ok (t_tracker (snd (executeWriteFile h s file input approval t)))"
  using assms record_ok
  by (auto simp: executeReadFile_def executeEditFile_def executeWriteFile_def save_written_def Let_def
      split: option.splits sum.splits prod.splits bool.splits)

section \<open>Witness\<close>















end
