(* ===== verification/ToolLocks.thy ===== *)
theory ToolLocks
  imports Prelude "HOL-Library.Char_ord" "HOL-Library.List_Lexorder"
begin

text \<open>
  The resource locks of the tool execution coordinator (\<open>ResourceLockManager\<close> in
  \<open>tool-execution-coordinator.ts\<close>): a run acquires the locks of its normalised resources one after the
  other, waits in the queue of a lock that is not available, executes its operation and releases. Lock
  states are kept in a heap, since releases hold on to the object they were granted from; a run is split
  at its awaits, so the steps of different runs interleave in every order. Abort signals are numbers; the
  listeners of a signal run to completion when it aborts, in the order they were added.
\<close>

section \<open>Resources\<close>

datatype mode = Read | Write

type_synonym resource = "string \<times> mode"

definition add_resource :: "resource \<Rightarrow> resource list \<Rightarrow> resource list" where
  "add_resource r byKey =
     (let key = trim (fst r) in
      if key = [] then byKey
      else (case map_of byKey key of
              None \<Rightarrow> byKey @ [(key, snd r)]
            | Some _ \<Rightarrow> if snd r = Write then map (\<lambda>(k, m). if k = key then (k, Write) else (k, m)) byKey else byKey))"

definition normalizeResources :: "resource list \<Rightarrow> resource list" where
  "normalizeResources resources = sort_key fst (fold add_resource resources [])"

section \<open>State\<close>

record waiter =
  w_run :: nat
  w_mode :: mode

record lock_state =
  k_readers :: int
  k_writer :: bool
  k_queue :: "waiter list"

text \<open>A run waits for a key at an address, is rejected (its \<open>finally\<close> still to run), executes its
  operation, or is between two awaits.\<close>

datatype run_phase = Acquiring | Waiting string nat mode | Rejected | Operating | Finished

record run =
  r_resources :: "resource list"
  r_signal :: "nat option"
  r_todo :: "resource list"
  r_held :: "(string \<times> nat \<times> mode) list"
  r_phase :: run_phase

record manager =
  m_locks :: "string \<Rightarrow> nat option"
  m_states :: "lock_state list"
  m_runs :: "run list"
  m_listeners :: "(nat \<times> nat) list"
  m_aborted :: "nat list"

definition newManager :: manager where
  "newManager = \<lparr>m_locks = (\<lambda>_. None), m_states = [], m_runs = [], m_listeners = [], m_aborted = []\<rparr>"

definition is_aborted :: "manager \<Rightarrow> nat \<Rightarrow> bool" where
  "is_aborted lm r = (case r_signal (m_runs lm ! r) of None \<Rightarrow> False | Some s \<Rightarrow> s \<in> set (m_aborted lm))"

definition upd_run :: "nat \<Rightarrow> (run \<Rightarrow> run) \<Rightarrow> manager \<Rightarrow> manager" where
  "upd_run r f lm = lm\<lparr>m_runs := (m_runs lm)[r := f (m_runs lm ! r)]\<rparr>"

definition upd_state :: "nat \<Rightarrow> (lock_state \<Rightarrow> lock_state) \<Rightarrow> manager \<Rightarrow> manager" where
  "upd_state a f lm = lm\<lparr>m_states := (m_states lm)[a := f (m_states lm ! a)]\<rparr>"

section \<open>Operations\<close>

definition grant :: "mode \<Rightarrow> lock_state \<Rightarrow> lock_state" where
  "grant m s = (if m = Read then s\<lparr>k_readers := k_readers s + 1\<rparr> else s\<lparr>k_writer := True\<rparr>)"

text \<open>A lock is granted to a run, which goes on acquiring.\<close>

definition give :: "nat \<Rightarrow> string \<Rightarrow> nat \<Rightarrow> mode \<Rightarrow> manager \<Rightarrow> manager" where
  "give r key a m lm =
     upd_run r (\<lambda>x. x\<lparr>r_held := r_held x @ [(key, a, m)], r_phase := Acquiring\<rparr>) (upd_state a (grant m) lm)"

definition resolve_waiter :: "string \<Rightarrow> nat \<Rightarrow> waiter \<Rightarrow> manager \<Rightarrow> manager" where
  "resolve_waiter key a w lm =
     give (w_run w) key a (w_mode w) (lm\<lparr>m_listeners := filter (\<lambda>l. snd l \<noteq> w_run w) (m_listeners lm)\<rparr>)"

definition reject_run :: "nat \<Rightarrow> manager \<Rightarrow> manager" where
  "reject_run r lm = upd_run r (\<lambda>x. x\<lparr>r_phase := Rejected\<rparr>) lm"

definition drain :: "string \<Rightarrow> nat \<Rightarrow> manager \<Rightarrow> manager" where
  "drain key a lm =
     (let s = m_states lm ! a in
      if k_writer s \<or> k_readers s > 0 then lm
      else let gone = takeWhile (\<lambda>w. is_aborted lm (w_run w)) (k_queue s);
               rest = dropWhile (\<lambda>w. is_aborted lm (w_run w)) (k_queue s);
               lm1 = fold (\<lambda>w. reject_run (w_run w)) gone (upd_state a (\<lambda>s. s\<lparr>k_queue := rest\<rparr>) lm)
           in (case rest of
                 [] \<Rightarrow> lm1\<lparr>m_locks := (m_locks lm1)(key := None)\<rparr>
               | w # ws \<Rightarrow>
                   if w_mode w = Write then resolve_waiter key a w (upd_state a (\<lambda>s. s\<lparr>k_queue := ws\<rparr>) lm1)
                   else fold (resolve_waiter key a) (takeWhile (\<lambda>w. w_mode w = Read) rest)
                          (upd_state a (\<lambda>s. s\<lparr>k_queue := dropWhile (\<lambda>w. w_mode w = Read) rest\<rparr>) lm1)))"

definition ungrant :: "mode \<Rightarrow> lock_state \<Rightarrow> lock_state" where
  "ungrant m s = (if m = Read then s\<lparr>k_readers := k_readers s - 1\<rparr> else s\<lparr>k_writer := False\<rparr>)"

definition release :: "string \<Rightarrow> nat \<Rightarrow> mode \<Rightarrow> manager \<Rightarrow> manager" where
  "release key a m lm = drain key a (upd_state a (ungrant m) lm)"

text \<open>The loop of \<open>finally\<close>, over the releases in reverse; what is left to release stays with the run.\<close>

fun release_all :: "nat \<Rightarrow> (string \<times> nat \<times> mode) list \<Rightarrow> manager \<Rightarrow> manager" where
  "release_all r [] lm = lm"
| "release_all r ((key, a, m) # hs) lm =
     release_all r hs (release key a m (upd_run r (\<lambda>x. x\<lparr>r_held := rev hs\<rparr>) lm))"

definition finish_run :: "nat \<Rightarrow> manager \<Rightarrow> manager" where
  "finish_run r lm =
     upd_run r (\<lambda>x. x\<lparr>r_phase := Finished\<rparr>) (release_all r (rev (r_held (m_runs lm ! r))) lm)"

text \<open>\<open>locks.get(key) ?? new state\<close>, stored.\<close>

definition lock_for :: "string \<Rightarrow> manager \<Rightarrow> nat \<times> manager" where
  "lock_for key lm =
     (case m_locks lm key of
        Some a \<Rightarrow> (a, lm)
      | None \<Rightarrow> (length (m_states lm),
                 lm\<lparr>m_states := m_states lm @ [\<lparr>k_readers = 0, k_writer = False, k_queue = []\<rparr>],
                    m_locks := (m_locks lm)(key \<mapsto> length (m_states lm))\<rparr>))"

definition available :: "mode \<Rightarrow> lock_state \<Rightarrow> bool" where
  "available m s =
     (if m = Read then \<not> k_writer s \<and> \<not> list_ex (\<lambda>w. w_mode w = Write) (k_queue s)
      else \<not> k_writer s \<and> k_readers s = 0 \<and> k_queue s = [])"

definition acquire :: "nat \<Rightarrow> string \<Rightarrow> mode \<Rightarrow> manager \<Rightarrow> manager" where
  "acquire r key m lm =
     (if is_aborted lm r then reject_run r lm
      else (case lock_for key lm of
              (a, lm1) \<Rightarrow>
                if available m (m_states lm1 ! a) then give r key a m lm1
                else (upd_run r (\<lambda>x. x\<lparr>r_phase := Waiting key a m\<rparr>)
                        (upd_state a (\<lambda>s. s\<lparr>k_queue := k_queue s @ [\<lparr>w_run = r, w_mode = m\<rparr>]\<rparr>) lm1))
                     \<lparr>m_listeners := m_listeners lm1 @
                       (case r_signal (m_runs lm ! r) of None \<Rightarrow> [] | Some s \<Rightarrow> [(s, r)])\<rparr>))"

text \<open>The listener of a waiting run.\<close>

definition on_abort :: "nat \<Rightarrow> manager \<Rightarrow> manager" where
  "on_abort r lm =
     (case r_phase (m_runs lm ! r) of
        Waiting key a m \<Rightarrow>
          drain key a (reject_run r (upd_state a (\<lambda>s. s\<lparr>k_queue := filter (\<lambda>w. w_run w \<noteq> r) (k_queue s)\<rparr>) lm))
      | _ \<Rightarrow> lm)"

section \<open>Steps\<close>

text \<open>A run goes on: it acquires the next lock, or, with none left, starts its operation unless aborted.\<close>

definition advance :: "nat \<Rightarrow> manager \<Rightarrow> manager" where
  "advance r lm =
     (case r_todo (m_runs lm ! r) of
        (key, m) # todo \<Rightarrow> acquire r key m (upd_run r (\<lambda>x. x\<lparr>r_todo := todo\<rparr>) lm)
      | [] \<Rightarrow> if is_aborted lm r then finish_run r lm else upd_run r (\<lambda>x. x\<lparr>r_phase := Operating\<rparr>) lm)"

datatype lock_event =
    Run "resource list" "nat option"
  | Advance nat
  | Operation_Ends nat
  | Unwind nat
  | Abort nat

fun lock_step :: "lock_event \<Rightarrow> manager \<Rightarrow> manager" where
  "lock_step (Run resources s) lm =
     lm\<lparr>m_runs := m_runs lm @ [\<lparr>r_resources = resources, r_signal = s, r_todo = normalizeResources resources,
                                r_held = [], r_phase = Acquiring\<rparr>]\<rparr>"
| "lock_step (Advance r) lm =
     (if r < length (m_runs lm) \<and> r_phase (m_runs lm ! r) = Acquiring then advance r lm else lm)"
| "lock_step (Operation_Ends r) lm =
     (if r < length (m_runs lm) \<and> r_phase (m_runs lm ! r) = Operating then finish_run r lm else lm)"
| "lock_step (Unwind r) lm =
     (if r < length (m_runs lm) \<and> r_phase (m_runs lm ! r) = Rejected then finish_run r lm else lm)"
| "lock_step (Abort s) lm =
     (if s \<in> set (m_aborted lm) then lm
      else fold (\<lambda>l. on_abort (snd l)) (filter (\<lambda>l. fst l = s) (m_listeners lm))
             (lm\<lparr>m_aborted := s # m_aborted lm,
                 m_listeners := filter (\<lambda>l. fst l \<noteq> s) (m_listeners lm)\<rparr>))"

definition run_locks :: "lock_event list \<Rightarrow> manager" where
  "run_locks steps = fold lock_step steps newManager"

end
