(* ===== verification/ToolLocksProps.thy ===== *)
theory ToolLocksProps
  imports ToolLocks
begin

text \<open>
  What the resource locks promise: the lock states agree with what the runs hold and wait for, so
  conflicting operations never overlap; and since every run acquires its keys in ascending order, some
  unfinished run can always go on.
\<close>

section \<open>Resources\<close>

lemma map_of_add:
  "distinct (map fst byKey) \<Longrightarrow> map_of (add_resource (k, m) byKey) =
    (if trim k = [] then map_of byKey
     else (map_of byKey)(trim k \<mapsto> if m = Write then Write else (case map_of byKey (trim k) of None \<Rightarrow> m | Some m' \<Rightarrow> m')))"
proof -
  have w: "map_of (map (\<lambda>(k', m'). if k' = key then (k', Write) else (k', m')) xs) key'
      = (if key' = key then map_option (\<lambda>_. Write) (map_of xs key') else map_of xs key')" for key key' xs
    by (induction xs) auto
  show ?thesis by (auto simp: add_resource_def Let_def fun_eq_iff w map_add_def split: option.splits)
qed

lemma keys_set_write: "map fst (map (\<lambda>(k, m). if k = key then (k, Write) else (k, m)) xs) = map fst xs"
  by (induction xs) auto

lemma distinct_add: "distinct (map fst byKey) \<Longrightarrow> distinct (map fst (add_resource r byKey))"
  unfolding add_resource_def Let_def
  by (auto simp: keys_set_write map_of_eq_None_iff simp del: map_map split: option.splits)

lemma fold_add_distinct: "distinct (map fst byKey) \<Longrightarrow> distinct (map fst (fold add_resource rs byKey))"
  by (induction rs arbitrary: byKey) (simp_all add: distinct_add)

text \<open>The key of a resource is kept, and a key is read-only only when all its uses are.\<close>

lemma fold_add_covers:
  "distinct (map fst byKey) \<Longrightarrow> (k, m) \<in> set rs \<or> map_of byKey (trim k) = Some m \<Longrightarrow> trim k \<noteq> [] \<Longrightarrow>
    \<exists>m'. map_of (fold add_resource rs byKey) (trim k) = Some m' \<and> (m = Write \<longrightarrow> m' = Write)"
proof (induction rs arbitrary: byKey m)
  case (Cons r rs)
  obtain k1 m1 where r: "r = (k1, m1)" by (cases r)
  have d: "distinct (map fst (add_resource r byKey))" using Cons.prems(1) by (rule distinct_add)
  have now: "\<exists>m2. map_of (add_resource r byKey) (trim k) = Some m2 \<and> (m = Write \<longrightarrow> m2 = Write)"
    if "(k, m) = r \<or> map_of byKey (trim k) = Some m"
    using that Cons.prems(3) unfolding r map_of_add [OF Cons.prems(1)]
    by (cases "trim k1 = trim k") (auto split: option.splits)
  show ?case
  proof (cases "(k, m) \<in> set rs")
    case True
    then show ?thesis using Cons.IH [OF d, of m] Cons.prems(3) by simp
  next
    case False
    then obtain m2 where "map_of (add_resource r byKey) (trim k) = Some m2" "m = Write \<longrightarrow> m2 = Write"
      using now Cons.prems(2) by auto
    then show ?thesis using Cons.IH [OF d, of m2] Cons.prems(3) by auto
  qed
qed auto

lemma normalize_sorted: "sorted_wrt (<) (map fst (normalizeResources rs))"
proof -
  have "distinct (map fst (normalizeResources rs))"
    unfolding normalizeResources_def distinct_map
    using fold_add_distinct [of "[]" rs] by (auto simp: distinct_map)
  moreover have "sorted (map fst (normalizeResources rs))" by (simp add: normalizeResources_def)
  ultimately show ?thesis by (simp add: strict_sorted_iff)
qed

lemma normalize_covers:
  assumes "(k, m) \<in> set rs" and "trim k \<noteq> []"
  shows "\<exists>m'. (trim k, m') \<in> set (normalizeResources rs) \<and> (m = Write \<longrightarrow> m' = Write)"
  using fold_add_covers [of "[]" k m rs] assms by (auto simp: normalizeResources_def dest: map_of_SomeD)

section \<open>The invariant\<close>

definition count :: "mode \<Rightarrow> string \<Rightarrow> run \<Rightarrow> nat" where
  "count m k x = length (filter (\<lambda>h. fst h = k \<and> snd (snd h) = m) (r_held x))"

definition total :: "mode \<Rightarrow> string \<Rightarrow> manager \<Rightarrow> nat" where
  "total m k lm = sum_list (map (count m k) (m_runs lm))"

definition counts_ok :: "string \<Rightarrow> lock_state \<Rightarrow> manager \<Rightarrow> bool" where
  "counts_ok k s lm \<longleftrightarrow> k_readers s = int (total Read k lm)
     \<and> total Write k lm = (if k_writer s then 1 else 0) \<and> (k_writer s \<longrightarrow> k_readers s = 0)"

definition queue_ok :: "string \<Rightarrow> nat \<Rightarrow> lock_state \<Rightarrow> manager \<Rightarrow> bool" where
  "queue_ok k a s lm \<longleftrightarrow> distinct (map w_run (k_queue s))
     \<and> (\<forall>w. w \<in> set (k_queue s)
          \<longleftrightarrow> w_run w < length (m_runs lm) \<and> r_phase (m_runs lm ! w_run w) = Waiting k a (w_mode w))"

definition taken :: "lock_state \<Rightarrow> bool" where
  "taken s \<longleftrightarrow> k_writer s \<or> k_readers s > 0"

definition lock_ok :: "string set \<Rightarrow> manager \<Rightarrow> string \<Rightarrow> nat \<Rightarrow> bool" where
  "lock_ok K lm k a \<longleftrightarrow> a < length (m_states lm) \<and> counts_ok k (m_states lm ! a) lm
     \<and> queue_ok k a (m_states lm ! a) lm \<and> (k \<notin> K \<longrightarrow> taken (m_states lm ! a))"

definition locks_ok :: "string set \<Rightarrow> manager \<Rightarrow> bool" where
  "locks_ok K lm \<longleftrightarrow> (\<forall>k a. m_locks lm k = Some a \<longrightarrow> lock_ok K lm k a)"

definition apart :: "manager \<Rightarrow> bool" where
  "apart lm \<longleftrightarrow> (\<forall>k k' a. m_locks lm k = Some a \<longrightarrow> m_locks lm k' = Some a \<longrightarrow> k = k')"

definition ref_ok :: "manager \<Rightarrow> run \<Rightarrow> bool" where
  "ref_ok lm x \<longleftrightarrow> (\<forall>h \<in> set (r_held x). m_locks lm (fst h) = Some (fst (snd h)))
     \<and> (\<forall>k a m. r_phase x = Waiting k a m \<longrightarrow> m_locks lm k = Some a)"

definition refs_ok :: "manager \<Rightarrow> bool" where
  "refs_ok lm \<longleftrightarrow> (\<forall>r < length (m_runs lm). ref_ok lm (m_runs lm ! r))"

definition is_waiting :: "run \<Rightarrow> bool" where
  "is_waiting x \<longleftrightarrow> (\<exists>k a m. r_phase x = Waiting k a m)"

definition signals_ok :: "nat set \<Rightarrow> manager \<Rightarrow> bool" where
  "signals_ok Y lm \<longleftrightarrow> distinct (map snd (m_listeners lm))
     \<and> (\<forall>s r. (s, r) \<in> set (m_listeners lm) \<longleftrightarrow>
          r < length (m_runs lm) \<and> is_waiting (m_runs lm ! r) \<and> r_signal (m_runs lm ! r) = Some s \<and> r \<notin> Y)
     \<and> (\<forall>r < length (m_runs lm). is_waiting (m_runs lm ! r) \<and> r \<notin> Y \<longrightarrow> \<not> is_aborted lm r)"

definition holds :: "run \<Rightarrow> resource list" where
  "holds x = map (\<lambda>h. (fst h, snd (snd h))) (r_held x)"

definition run_ok :: "run \<Rightarrow> bool" where
  "run_ok x \<longleftrightarrow>
     (case r_phase x of
        Acquiring \<Rightarrow> holds x @ r_todo x = normalizeResources (r_resources x)
      | Waiting k a m \<Rightarrow> holds x @ (k, m) # r_todo x = normalizeResources (r_resources x)
      | Rejected \<Rightarrow> True
      | Operating \<Rightarrow> holds x = normalizeResources (r_resources x)
      | Finished \<Rightarrow> r_held x = [])"

definition runs_ok :: "nat set \<Rightarrow> manager \<Rightarrow> bool" where
  "runs_ok X lm \<longleftrightarrow> (\<forall>r < length (m_runs lm). r \<notin> X \<longrightarrow> run_ok (m_runs lm ! r))"

definition locks_inv :: "string set \<Rightarrow> nat set \<Rightarrow> nat set \<Rightarrow> manager \<Rightarrow> bool" where
  "locks_inv K X Y lm \<longleftrightarrow> locks_ok K lm \<and> apart lm \<and> refs_ok lm \<and> signals_ok Y lm \<and> runs_ok X lm"

lemma locks_invD:
  assumes "locks_inv K X Y lm"
  shows "m_locks lm k = Some a \<Longrightarrow> lock_ok K lm k a"
    and "m_locks lm k = Some a \<Longrightarrow> m_locks lm k' = Some a \<Longrightarrow> k = k'"
    and "r < length (m_runs lm) \<Longrightarrow> ref_ok lm (m_runs lm ! r)"
    and "signals_ok Y lm"
    and "r < length (m_runs lm) \<Longrightarrow> r \<notin> X \<Longrightarrow> run_ok (m_runs lm ! r)"
  using assms unfolding locks_inv_def locks_ok_def apart_def refs_ok_def runs_ok_def by blast+

lemma locks_inv_mono: "locks_inv K X Y lm \<Longrightarrow> K \<subseteq> K' \<Longrightarrow> X \<subseteq> X' \<Longrightarrow> locks_inv K' X' Y lm"
  unfolding locks_inv_def locks_ok_def lock_ok_def runs_ok_def by blast

lemma upd_simps [simp]:
  "m_runs (upd_run r f lm) = (m_runs lm)[r := f (m_runs lm ! r)]"
  "m_locks (upd_run r f lm) = m_locks lm" "m_states (upd_run r f lm) = m_states lm"
  "m_listeners (upd_run r f lm) = m_listeners lm" "m_aborted (upd_run r f lm) = m_aborted lm"
  "m_states (upd_state a g lm) = (m_states lm)[a := g (m_states lm ! a)]"
  "m_locks (upd_state a g lm) = m_locks lm" "m_runs (upd_state a g lm) = m_runs lm"
  "m_listeners (upd_state a g lm) = m_listeners lm" "m_aborted (upd_state a g lm) = m_aborted lm"
  by (simp_all add: upd_run_def upd_state_def)

text \<open>One run and the state of one lock change.\<close>

definition changes :: "nat \<Rightarrow> run \<Rightarrow> nat \<Rightarrow> lock_state \<Rightarrow> manager \<Rightarrow> manager \<Rightarrow> bool" where
  "changes r x a s lm lm' \<longleftrightarrow> r < length (m_runs lm) \<and> m_runs lm' = (m_runs lm)[r := x]
     \<and> m_states lm' = (m_states lm)[a := s] \<and> m_locks lm' = m_locks lm"

lemma total_changes:
  assumes "changes r x a s lm lm'"
  shows "total m k lm' + count m k (m_runs lm ! r) = total m k lm + count m k x"
proof -
  have r: "r < length (map (count m k) (m_runs lm))" "m_runs lm' = (m_runs lm)[r := x]"
    using assms by (simp_all add: changes_def)
  have "count m k (m_runs lm ! r) \<le> total m k lm"
    unfolding total_def using r(1) by (intro member_le_sum_list) auto
  then show ?thesis unfolding total_def r(2) map_update sum_list_update [OF r(1)] using r(1) by simp
qed

lemma changes_nth:
  assumes "changes r x a s lm lm'"
  shows "length (m_runs lm') = length (m_runs lm)" "length (m_states lm') = length (m_states lm)"
    "m_runs lm' ! r = x" "r' \<noteq> r \<Longrightarrow> m_runs lm' ! r' = m_runs lm ! r'"
    "a < length (m_states lm) \<Longrightarrow> m_states lm' ! a = s" "a' \<noteq> a \<Longrightarrow> m_states lm' ! a' = m_states lm ! a'"
    "m_locks lm' = m_locks lm"
  using assms by (simp_all add: changes_def)

lemma lock_frame:
  assumes c: "changes r x a s lm lm'" and l: "lock_ok K lm k' a'" and "a' \<noteq> a \<or> s = m_states lm ! a"
    and n: "\<And>m. count m k' x = count m k' (m_runs lm ! r)"
    and w: "\<And>m. r_phase x = Waiting k' a' m \<longleftrightarrow> r_phase (m_runs lm ! r) = Waiting k' a' m"
  shows "lock_ok K lm' k' a'"
proof -
  have t: "total m k' lm' = total m k' lm" for m using total_changes [OF c, of m k'] n by simp
  have p: "r_phase (m_runs lm' ! i) = Waiting k' a' m \<longleftrightarrow> r_phase (m_runs lm ! i) = Waiting k' a' m" for i m
    using changes_nth [OF c] w by (cases "i = r") simp_all
  have s: "m_states lm' ! a' = m_states lm ! a'"
    using assms(3) c by (cases "a' = a") (simp_all add: changes_def)
  show ?thesis using l unfolding lock_ok_def counts_ok_def queue_ok_def t s changes_nth [OF c] p .
qed

lemma ref_frame: "m_locks lm' = m_locks lm \<Longrightarrow> ref_ok lm' x = ref_ok lm x"
  by (simp add: ref_ok_def)

text \<open>A change of one run and one lock keeps the invariant when it keeps that run and that lock right.\<close>

lemma inv_changes:
  assumes inv: "locks_inv K X Y lm" and c: "changes r x a s lm lm'"
    and k: "s = m_states lm ! a \<or> m_locks lm k = Some a"
    and own: "\<And>a'. m_locks lm k = Some a' \<Longrightarrow> lock_ok K' lm' k a'"
    and n: "\<And>k' m. k' \<noteq> k \<Longrightarrow> count m k' x = count m k' (m_runs lm ! r)"
    and w: "\<And>k' a' m. k' \<noteq> k \<Longrightarrow> r_phase x = Waiting k' a' m \<longleftrightarrow> r_phase (m_runs lm ! r) = Waiting k' a' m"
    and rx: "ref_ok lm x" and sg: "signals_ok Y' lm'" and ro: "r \<in> X' \<or> run_ok x"
    and K: "K - {k} \<subseteq> K'" and X: "X - {r} \<subseteq> X'"
  shows "locks_inv K' X' Y' lm'"
proof -
  note d = locks_invD [OF inv]
  have "lock_ok K' lm' k' a'" if g: "m_locks lm' k' = Some a'" for k' a'
  proof (cases "k' = k")
    case True
    then show ?thesis using g own changes_nth(7) [OF c] by simp
  next
    case False
    have g': "m_locks lm k' = Some a'" using g changes_nth(7) [OF c] by simp
    have "a' \<noteq> a \<or> s = m_states lm ! a" using d(2) [OF g'] k False by blast
    then have "lock_ok K lm' k' a'" using lock_frame [OF c d(1) [OF g']] n [OF False] w [OF False] by blast
    then show ?thesis using K False by (auto simp: lock_ok_def)
  qed
  moreover have "apart lm'" using inv changes_nth(7) [OF c] by (simp add: locks_inv_def apart_def)
  moreover have "ref_ok lm' (m_runs lm' ! i)" if "i < length (m_runs lm')" for i
    using that rx d(3) [of i] changes_nth(1,3,4) [OF c] unfolding ref_frame [OF changes_nth(7) [OF c]]
    by (cases "i = r") simp_all
  moreover have "run_ok (m_runs lm' ! i)" if "i < length (m_runs lm')" "i \<notin> X'" for i
    using that ro X d(5) [of i] changes_nth(1,3,4) [OF c] by (cases "i = r") auto
  ultimately show ?thesis using sg by (simp add: locks_inv_def locks_ok_def refs_ok_def runs_ok_def)
qed

lemma aborted_frame:
  "m_aborted lm' = m_aborted lm \<Longrightarrow> r_signal (m_runs lm' ! i) = r_signal (m_runs lm ! i)
    \<Longrightarrow> is_aborted lm' i = is_aborted lm i"
  by (simp add: is_aborted_def split: option.splits)

lemma signals_okD:
  assumes "signals_ok Y lm"
  shows "distinct (map snd (m_listeners lm))"
    and "(s, r) \<in> set (m_listeners lm) \<longleftrightarrow>
          r < length (m_runs lm) \<and> is_waiting (m_runs lm ! r) \<and> r_signal (m_runs lm ! r) = Some s \<and> r \<notin> Y"
    and "r < length (m_runs lm) \<Longrightarrow> is_waiting (m_runs lm ! r) \<Longrightarrow> r \<notin> Y \<Longrightarrow> \<not> is_aborted lm r"
  using assms unfolding signals_ok_def by blast+

text \<open>A run that does not wait, or no longer, has no listener.\<close>

lemma signals_stop:
  assumes g: "signals_ok Y lm" and c: "changes r x a s lm lm'" and b: "m_aborted lm' = m_aborted lm"
    and x: "\<not> is_waiting x" "r_signal x = r_signal (m_runs lm ! r)"
    and l: "m_listeners lm' = filter (\<lambda>l. snd l \<noteq> r) (m_listeners lm)"
    and Y: "Y - {r} \<subseteq> Y'" "Y' \<subseteq> Y"
  shows "signals_ok Y' lm'"
proof -
  note n = changes_nth [OF c]
  have ab: "is_aborted lm' i = is_aborted lm i" for i
    using aborted_frame [OF b, of i] x(2) n(3,4) by (cases "i = r") simp_all
  have "distinct (map snd (m_listeners lm'))"
    unfolding l using signals_okD(1) [OF g] by (simp add: distinct_map_filter)
  moreover have "(t, i) \<in> set (m_listeners lm') \<longleftrightarrow>
      i < length (m_runs lm') \<and> is_waiting (m_runs lm' ! i) \<and> r_signal (m_runs lm' ! i) = Some t \<and> i \<notin> Y'" for t i
    using signals_okD(2) [OF g, of t i] n(1,3,4) x(1) Y by (cases "i = r") (auto simp: l)
  moreover have "\<not> is_aborted lm' i" if "i < length (m_runs lm')" "is_waiting (m_runs lm' ! i)" "i \<notin> Y'" for i
    using signals_okD(3) [OF g, of i] that n(1,3,4) x(1) Y by (cases "i = r") (auto simp: ab)
  ultimately show ?thesis unfolding signals_ok_def by blast
qed

text \<open>A run that starts to wait gets one.\<close>

lemma signals_start:
  assumes g: "signals_ok Y lm" and c: "changes r x a s lm lm'" and b: "m_aborted lm' = m_aborted lm"
    and r: "\<not> is_waiting (m_runs lm ! r)" and ra: "\<not> is_aborted lm r" and rY: "r \<notin> Y"
    and x: "is_waiting x" "r_signal x = r_signal (m_runs lm ! r)"
    and l: "m_listeners lm' = m_listeners lm @
              (case r_signal (m_runs lm ! r) of None \<Rightarrow> [] | Some s \<Rightarrow> [(s, r)])"
  shows "signals_ok Y lm'"
proof -
  note n = changes_nth [OF c]
  have rl: "r < length (m_runs lm)" using c by (simp add: changes_def)
  have ab: "is_aborted lm' i = is_aborted lm i" for i
    using aborted_frame [OF b, of i] x(2) n(3,4) by (cases "i = r") simp_all
  have nr: "r \<notin> snd ` set (m_listeners lm)" using signals_okD(2) [OF g] r by force
  have "distinct (map snd (m_listeners lm'))"
    unfolding l using signals_okD(1) [OF g] nr by (cases "r_signal (m_runs lm ! r)") simp_all
  moreover have "(t, i) \<in> set (m_listeners lm') \<longleftrightarrow>
      i < length (m_runs lm') \<and> is_waiting (m_runs lm' ! i) \<and> r_signal (m_runs lm' ! i) = Some t \<and> i \<notin> Y" for t i
    using signals_okD(2) [OF g, of t i] n(1,3,4) x r rY rl by (cases "i = r") (auto simp: l split: option.splits)
  moreover have "\<not> is_aborted lm' i" if "i < length (m_runs lm')" "is_waiting (m_runs lm' ! i)" "i \<notin> Y" for i
    using signals_okD(3) [OF g, of i] that n(1,3,4) ra by (cases "i = r") (auto simp: ab)
  ultimately show ?thesis unfolding signals_ok_def by blast
qed

lemma no_listener:
  "signals_ok Y lm \<Longrightarrow> \<not> is_waiting (m_runs lm ! r) \<or> r \<in> Y \<Longrightarrow> filter (\<lambda>l. snd l \<noteq> r) (m_listeners lm) = m_listeners lm"
  using signals_okD(2) [of Y lm] by (force simp: filter_id_conv)

text \<open>Only a run changes, and neither what it holds nor that it does not wait.\<close>

lemma locks_run:
  assumes inv: "locks_inv K X Y lm" and r: "r < length (m_runs lm)" and f: "x = g (m_runs lm ! r)"
    and nw: "\<not> is_waiting (m_runs lm ! r)" "\<not> is_waiting x"
    and h: "r_held x = r_held (m_runs lm ! r)" "r_signal x = r_signal (m_runs lm ! r)"
    and ro: "r \<in> X' \<or> run_ok x" and X: "X - {r} \<subseteq> X'"
  shows "locks_inv K X' Y (upd_run r g lm)"
proof -
  have c: "changes r x b (m_states lm ! b) lm (upd_run r g lm)" for b
    using r f by (simp add: changes_def)
  have w: "r_phase x \<noteq> Waiting k' a' m" "r_phase (m_runs lm ! r) \<noteq> Waiting k' a' m" for k' a' m
    using nw by (auto simp: is_waiting_def)
  have n: "count m k' x = count m k' (m_runs lm ! r)" for m k' by (simp add: count_def h)
  have same: "lock_ok K (upd_run r g lm) k' a'" if "m_locks lm k' = Some a'" for k' a'
    using lock_frame [OF c [of a'] locks_invD(1) [OF inv that] _ n] w by simp
  have rf: "ref_ok lm x" using locks_invD(3) [OF inv r] w by (simp add: ref_ok_def h)
  have sg: "signals_ok Y (upd_run r g lm)"
    by (rule signals_stop [OF locks_invD(4) [OF inv] c [of 0]])
      (use nw h no_listener [OF locks_invD(4) [OF inv]] in auto)
  show ?thesis
    by (rule inv_changes [where k = "[]", OF inv c [of 0] _ same _ _ rf sg]) (use n w ro X in auto)
qed

section \<open>Operations\<close>

lemma count_add: "count m k (x\<lparr>r_held := r_held x @ [(k', a, m')]\<rparr>) = count m k x + (if k = k' \<and> m = m' then 1 else 0)"
  by (simp add: count_def)

lemma count_phase [simp]: "count m k (x\<lparr>r_phase := p\<rparr>) = count m k x" "count m k (x\<lparr>r_todo := q\<rparr>) = count m k x"
  by (simp_all add: count_def)

definition grantable :: "mode \<Rightarrow> lock_state \<Rightarrow> bool" where
  "grantable m s \<longleftrightarrow> \<not> k_writer s \<and> (m = Write \<longrightarrow> k_readers s = 0)"

lemma grant_queue [simp]: "k_queue (grant m s) = k_queue s" by (simp add: grant_def)

lemma counts_grant:
  assumes "counts_ok k s lm" and "grantable m s"
    and "\<And>m'. total m' k lm' = total m' k lm + (if m' = m then 1 else 0)"
  shows "counts_ok k (grant m s) lm'" "taken (grant m s)"
  using assms by (cases m; simp add: counts_ok_def grant_def grantable_def taken_def)+

lemma queue_irrelevant [simp]:
  "counts_ok k (s\<lparr>k_queue := q\<rparr>) lm = counts_ok k s lm" "taken (s\<lparr>k_queue := q\<rparr>) = taken s"
  by (simp_all add: counts_ok_def taken_def)

text \<open>A run that does not wait, or no longer, is not queued.\<close>

lemma queue_stop:
  assumes q: "queue_ok k a s lm" and c: "changes r x b s'' lm lm'" and x: "\<not> is_waiting x"
    and s: "k_queue s' = filter (\<lambda>w. w_run w \<noteq> r) (k_queue s)"
  shows "queue_ok k a s' lm'"
proof -
  have "distinct (map w_run (k_queue s'))" using q by (simp add: queue_ok_def s distinct_map_filter)
  moreover have "w \<in> set (k_queue s') \<longleftrightarrow>
      w_run w < length (m_runs lm') \<and> r_phase (m_runs lm' ! w_run w) = Waiting k a (w_mode w)" for w
    using q x changes_nth(1,3,4) [OF c] by (cases "w_run w = r") (auto simp: queue_ok_def s is_waiting_def)
  ultimately show ?thesis by (simp add: queue_ok_def)
qed

lemma queue_without:
  assumes "queue_ok k a s lm" and "\<not> is_waiting (m_runs lm ! r)"
  shows "filter (\<lambda>w. w_run w \<noteq> r) (k_queue s) = k_queue s"
  using assms by (auto simp: filter_id_conv queue_ok_def is_waiting_def)

lemma queue_tail:
  assumes "queue_ok k a s lm" and "k_queue s = w # q"
  shows "filter (\<lambda>w'. w_run w' \<noteq> w_run w) (k_queue s) = q"
proof -
  have "w_run w \<notin> w_run ` set q" using assms by (simp add: queue_ok_def)
  then have "w_run w' \<noteq> w_run w" if "w' \<in> set q" for w' using that by (metis image_eqI)
  then show ?thesis unfolding assms(2) by (simp add: filter_id_conv)
qed

text \<open>A lock is granted to a run that acquires, or to the first of its queue.\<close>

definition given :: "string \<Rightarrow> nat \<Rightarrow> mode \<Rightarrow> run \<Rightarrow> run" where
  "given k a m x = x\<lparr>r_held := r_held x @ [(k, a, m)], r_phase := Acquiring\<rparr>"

lemma given_simps [simp]:
  "r_held (given k a m x) = r_held x @ [(k, a, m)]" "r_phase (given k a m x) = Acquiring"
  "r_todo (given k a m x) = r_todo x" "r_signal (given k a m x) = r_signal x"
  "r_resources (given k a m x) = r_resources x" "\<not> is_waiting (given k a m x)"
  by (simp_all add: given_def is_waiting_def)

lemma count_given: "count m k (given k' a m' x) = count m k x + (if k = k' \<and> m = m' then 1 else 0)"
  by (simp add: count_def)

lemma inv_give:
  assumes inv: "locks_inv K X Y lm" and k: "m_locks lm k = Some a"
    and r: "r < length (m_runs lm)" and g: "grantable m (m_states lm ! a)"
    and c: "changes r (given k a m (m_runs lm ! r)) a (grant m (m_states lm ! a)\<lparr>k_queue := q\<rparr>) lm lm'"
    and q: "(\<not> is_waiting (m_runs lm ! r) \<and> q = k_queue (m_states lm ! a)
          \<or> r_phase (m_runs lm ! r) = Waiting k a m \<and> k_queue (m_states lm ! a) = \<lparr>w_run = r, w_mode = m\<rparr> # q)"
    and l: "m_listeners lm' = filter (\<lambda>l. snd l \<noteq> r) (m_listeners lm)" "m_aborted lm' = m_aborted lm"
    and ro: "r \<in> X' \<or> run_ok (given k a m (m_runs lm ! r))" and X: "X - {r} \<subseteq> X'"
  shows "locks_inv (K - {k}) X' Y lm'"
proof -
  let ?x = "given k a m (m_runs lm ! r)" and ?s = "m_states lm ! a"
  have lk: "a < length (m_states lm)" "counts_ok k ?s lm" "queue_ok k a ?s lm"
    using locks_invD(1) [OF inv k] by (simp_all add: lock_ok_def)
  have t: "total m' k lm' = total m' k lm + (if m' = m then 1 else 0)" for m'
    using total_changes [OF c, of m' k] by (simp add: count_given)
  have co: "counts_ok k (grant m ?s\<lparr>k_queue := q\<rparr>) lm'" "taken (grant m ?s\<lparr>k_queue := q\<rparr>)"
    using counts_grant [OF lk(2) g t] by simp_all
  have qf: "q = filter (\<lambda>w. w_run w \<noteq> r) (k_queue ?s)"
    using q queue_without [OF lk(3)] queue_tail [OF lk(3)] by auto
  have qo: "queue_ok k a (grant m ?s\<lparr>k_queue := q\<rparr>) lm'"
    by (rule queue_stop [OF lk(3) c]) (simp_all add: qf)
  have own: "lock_ok (K - {k}) lm' k a'" if "m_locks lm k = Some a'" for a'
    using that k co qo lk(1) changes_nth [OF c] by (simp add: lock_ok_def)
  have rf: "ref_ok lm ?x" using locks_invD(3) [OF inv r] k by (simp add: ref_ok_def)
  have sg: "signals_ok Y lm'" by (rule signals_stop [OF locks_invD(4) [OF inv] c l(2) _ _ l(1)]) simp_all
  have w: "r_phase ?x = Waiting k' a' m' \<longleftrightarrow> r_phase (m_runs lm ! r) = Waiting k' a' m'" if "k' \<noteq> k" for k' a' m'
    using q that by (auto simp: is_waiting_def)
  show ?thesis
    by (rule inv_changes [OF inv c _ own _ w rf sg ro]) (use k X in \<open>auto simp: count_given\<close>)
qed

lemma queue_update:
  assumes inv: "locks_inv K X Y lm" and k: "m_locks lm k = Some a" and w: "w \<in> set (k_queue (m_states lm ! a))"
  shows "w_run w < length (m_runs lm)" "r_phase (m_runs lm ! w_run w) = Waiting k a (w_mode w)"
  using locks_invD(1) [OF inv k] w by (simp_all add: lock_ok_def queue_ok_def)

lemma upd_state_upd: "upd_state a f (upd_state a g lm) = upd_state a (\<lambda>s. f (g s)) lm" if "a < length (m_states lm)"
  using that by (simp add: upd_state_def)

lemma run_ok_given: "run_ok x \<Longrightarrow> r_phase x = Waiting k a m \<Longrightarrow> run_ok (given k a m x)"
  by (simp add: run_ok_def holds_def)

lemma grant_swap [simp]: "grant m (s\<lparr>k_queue := q\<rparr>) = grant m s\<lparr>k_queue := q\<rparr>"
  by (cases s) (simp add: grant_def)

lemma upd_swap:
  "upd_state a f (upd_run r g lm) = upd_run r g (upd_state a f lm)"
  "upd_state a f (lm\<lparr>m_listeners := l\<rparr>) = upd_state a f lm\<lparr>m_listeners := l\<rparr>"
  by (cases lm, simp add: upd_run_def upd_state_def)+

lemma locks_resolve:
  assumes inv: "locks_inv K X Y lm" and k: "m_locks lm k = Some a"
    and q: "k_queue (m_states lm ! a) = w # ws" and g: "grantable (w_mode w) (m_states lm ! a)"
  shows "locks_inv (K - {k}) X Y (resolve_waiter k a w (upd_state a (\<lambda>s. s\<lparr>k_queue := ws\<rparr>) lm))" (is "locks_inv _ _ _ ?lm'")
proof -
  have w: "w_run w < length (m_runs lm)" "r_phase (m_runs lm ! w_run w) = Waiting k a (w_mode w)"
    using queue_update [OF inv k] q by simp_all
  have "a < length (m_states lm)" using locks_invD(1) [OF inv k] by (simp add: lock_ok_def)
  then have c: "changes (w_run w) (given k a (w_mode w) (m_runs lm ! w_run w)) a
      (grant (w_mode w) (m_states lm ! a)\<lparr>k_queue := ws\<rparr>) lm ?lm'"
    using w by (simp add: changes_def resolve_waiter_def give_def given_def)
  have ro: "w_run w \<in> X \<or> run_ok (given k a (w_mode w) (m_runs lm ! w_run w))"
    using locks_invD(5) [OF inv w(1)] run_ok_given [OF _ w(2)] by blast
  show ?thesis
    by (rule inv_give [OF inv k w(1) g c _ _ _ ro]) (use q w in \<open>auto simp: resolve_waiter_def give_def\<close>)
qed

lemma resolve_swap:
  "a < length (m_states lm) \<Longrightarrow> resolve_waiter k a w (upd_state a (\<lambda>s. s\<lparr>k_queue := q\<rparr>) lm)
     = upd_state a (\<lambda>s. s\<lparr>k_queue := q\<rparr>) (resolve_waiter k a w (upd_state a (\<lambda>s. s\<lparr>k_queue := q'\<rparr>) lm))"
  by (simp add: resolve_waiter_def give_def upd_swap upd_state_upd)

lemma resolve_simps [simp]:
  "m_locks (resolve_waiter k a w lm) = m_locks lm" "length (m_states (resolve_waiter k a w lm)) = length (m_states lm)"
  "length (m_runs (resolve_waiter k a w lm)) = length (m_runs lm)"
  by (simp_all add: resolve_waiter_def give_def)

lemma locks_resolve_readers:
  assumes "locks_inv K X Y lm" and "m_locks lm k = Some a"
    and "k_queue (m_states lm ! a) = ws @ rest" and "list_all (\<lambda>w. w_mode w = Read) ws"
    and "\<not> k_writer (m_states lm ! a)" and "ws \<noteq> []"
  shows "locks_inv (K - {k}) X Y (fold (resolve_waiter k a) ws (upd_state a (\<lambda>s. s\<lparr>k_queue := rest\<rparr>) lm))"
  using assms
proof (induction ws arbitrary: K lm)
  case (Cons w ws)
  let ?lm1 = "resolve_waiter k a w (upd_state a (\<lambda>s. s\<lparr>k_queue := ws @ rest\<rparr>) lm)"
  have a: "a < length (m_states lm)" using locks_invD(1) [OF Cons.prems(1,2)] by (simp add: lock_ok_def)
  have inv: "locks_inv (K - {k}) X Y ?lm1"
    using locks_resolve [OF Cons.prems(1,2), of w "ws @ rest"] Cons.prems(3-5) by (simp add: grantable_def)
  have st: "m_states ?lm1 ! a = grant Read (m_states lm ! a)\<lparr>k_queue := ws @ rest\<rparr>"
    using a Cons.prems(4) by (simp add: resolve_waiter_def give_def)
  have eq: "resolve_waiter k a w (upd_state a (\<lambda>s. s\<lparr>k_queue := rest\<rparr>) lm)
      = upd_state a (\<lambda>s. s\<lparr>k_queue := rest\<rparr>) ?lm1" by (rule resolve_swap [OF a])
  show ?case
  proof (cases "ws = []")
    case True
    then show ?thesis using inv by simp
  next
    case False
    have pre: "m_locks ?lm1 k = Some a" "k_queue (m_states ?lm1 ! a) = ws @ rest"
        "list_all (\<lambda>w. w_mode w = Read) ws" "\<not> k_writer (m_states ?lm1 ! a)"
      unfolding st using Cons.prems(2,4,5) by (simp_all add: grant_def)
    have "locks_inv (K - {k} - {k}) X Y (fold (resolve_waiter k a) ws (upd_state a (\<lambda>s. s\<lparr>k_queue := rest\<rparr>) ?lm1))"
      by (rule Cons.IH [OF inv pre False])
    then show ?thesis unfolding fold_simps eq Diff_idemp .
  qed
qed simp

lemma lock_same: "m_states lm' = m_states lm \<Longrightarrow> m_runs lm' = m_runs lm \<Longrightarrow> lock_ok K lm' k a = lock_ok K lm k a"
  unfolding lock_ok_def counts_ok_def queue_ok_def total_def by (simp only:)

lemma lock_longer:
  assumes "lock_ok K lm k a" and "m_states lm' ! a = m_states lm ! a"
    and "length (m_states lm) \<le> length (m_states lm')" and "m_runs lm' = m_runs lm"
  shows "lock_ok K lm' k a"
  using assms(1,3) less_le_trans unfolding lock_ok_def counts_ok_def queue_ok_def total_def assms(2,4) by blast

lemma counts_frame: "counts_ok k s lm \<Longrightarrow> (\<And>m. total m k lm' = total m k lm) \<Longrightarrow> counts_ok k s lm'"
  by (auto simp: counts_ok_def)

text \<open>The last lock of a key is forgotten when nobody holds it and nobody waits for it.\<close>

lemma count_member: "h \<in> set (r_held x) \<Longrightarrow> 0 < count (snd (snd h)) (fst h) x"
  unfolding count_def by (rule length_pos_if_in_set [of h]) simp

lemma total_member: "r < length (m_runs lm) \<Longrightarrow> count m k (m_runs lm ! r) \<le> total m k lm"
  unfolding total_def by (rule member_le_sum_list) auto

lemma not_taken:
  assumes "counts_ok k s lm" and "\<not> taken s"
  shows "total m k lm = 0" "grantable m s"
  using assms by (cases m; auto simp: counts_ok_def taken_def grantable_def)+

lemma inv_forget:
  assumes inv: "locks_inv K X Y lm" and k: "m_locks lm k = Some a"
    and q: "k_queue (m_states lm ! a) = []" and nt: "\<not> taken (m_states lm ! a)"
  shows "locks_inv (K - {k}) X Y (lm\<lparr>m_locks := (m_locks lm)(k := None)\<rparr>)" (is "locks_inv _ _ _ ?lm'")
proof -
  have ok: "counts_ok k (m_states lm ! a) lm" "queue_ok k a (m_states lm ! a) lm"
    using locks_invD(1) [OF inv k] by (simp_all add: lock_ok_def)
  have nh: "fst h \<noteq> k" if "r < length (m_runs lm)" "h \<in> set (r_held (m_runs lm ! r))" for r h
    using count_member [OF that(2)] total_member [OF that(1), of "snd (snd h)" k] not_taken(1) [OF ok(1) nt] by auto
  have nw: "k' \<noteq> k" if "r < length (m_runs lm)" "r_phase (m_runs lm ! r) = Waiting k' a' m" for r k' a' m
  proof
    assume "k' = k"
    then have "a' = a" using locks_invD(3) [OF inv that(1)] that(2) k by (simp add: ref_ok_def)
    then have "\<lparr>w_run = r, w_mode = m\<rparr> \<in> set (k_queue (m_states lm ! a))"
      using ok(2) that \<open>k' = k\<close> by (simp add: queue_ok_def)
    then show False using q by simp
  qed
  have same: "lock_ok (K - {k}) ?lm' k' a'" if "m_locks ?lm' k' = Some a'" for k' a'
  proof -
    have "k' \<noteq> k" "m_locks lm k' = Some a'" using that by (simp_all split: if_splits)
    then have "lock_ok (K - {k}) lm k' a'" using locks_invD(1) [OF inv, of k' a'] by (simp add: lock_ok_def)
    then show ?thesis using lock_same [of ?lm' lm] by simp
  qed
  have "ref_ok ?lm' (m_runs lm ! r)" if "r < length (m_runs lm)" for r
    using locks_invD(3) [OF inv that] nh [OF that] nw [OF that] by (auto simp: ref_ok_def)
  moreover have "signals_ok Y ?lm'"
    using locks_invD(4) [OF inv] by (simp add: signals_ok_def is_aborted_def cong: option.case_cong)
  moreover have "apart ?lm'" using inv by (simp add: locks_inv_def apart_def)
  moreover have "runs_ok X ?lm'" using inv by (simp add: locks_inv_def runs_ok_def)
  ultimately show ?thesis using same by (simp add: locks_inv_def locks_ok_def refs_ok_def)
qed

lemma drain_taken: "taken (m_states lm ! a) \<Longrightarrow> drain k a lm = lm"
  by (simp add: drain_def taken_def)

lemma inv_taken:
  assumes "locks_inv K X Y lm" and "m_locks lm k = Some a" and "taken (m_states lm ! a)"
  shows "locks_inv (K - {k}) X Y lm"
proof -
  have "lock_ok (K - {k}) lm k' a'" if "m_locks lm k' = Some a'" for k' a'
    using locks_invD(1) [OF assms(1) that] assms(2,3) that by (auto simp: lock_ok_def)
  then show ?thesis using assms(1) by (simp add: locks_inv_def locks_ok_def)
qed

text \<open>No waiting run is aborted, so none is dropped from the head of a queue.\<close>

lemma none_gone:
  assumes inv: "locks_inv K X {} lm" and k: "m_locks lm k = Some a"
  shows "takeWhile (\<lambda>w. is_aborted lm (w_run w)) (k_queue (m_states lm ! a)) = []"
    and "dropWhile (\<lambda>w. is_aborted lm (w_run w)) (k_queue (m_states lm ! a)) = k_queue (m_states lm ! a)"
proof -
  have "\<not> is_aborted lm (w_run w)" if "w \<in> set (k_queue (m_states lm ! a))" for w
    using queue_update [OF inv k that] signals_okD(3) [OF locks_invD(4) [OF inv]] by (simp add: is_waiting_def)
  then show "takeWhile (\<lambda>w. is_aborted lm (w_run w)) (k_queue (m_states lm ! a)) = []"
    and "dropWhile (\<lambda>w. is_aborted lm (w_run w)) (k_queue (m_states lm ! a)) = k_queue (m_states lm ! a)"
    by (cases "k_queue (m_states lm ! a)"; simp)+
qed

definition waked :: "waiter list \<Rightarrow> waiter list" where
  "waked q = (case q of [] \<Rightarrow> [] | w # ws \<Rightarrow> if w_mode w = Write then [w] else takeWhile (\<lambda>w. w_mode w = Read) q)"

text \<open>What \<open>drain\<close> does to a lock that is free: it forgets it, or wakes the head of its queue.\<close>

lemma drain_free:
  assumes inv: "locks_inv K X {} lm" and k: "m_locks lm k = Some a" and nt: "\<not> taken (m_states lm ! a)"
    and q: "q = k_queue (m_states lm ! a)"
  shows "drain k a lm =
    (if q = [] then lm\<lparr>m_locks := (m_locks lm)(k := None)\<rparr>
     else fold (resolve_waiter k a) (waked q) (upd_state a (\<lambda>s. s\<lparr>k_queue := drop (length (waked q)) q\<rparr>) lm))"
proof -
  have a: "a < length (m_states lm)" using locks_invD(1) [OF inv k] by (simp add: lock_ok_def)
  have id: "upd_state a (\<lambda>s. s\<lparr>k_queue := q\<rparr>) lm = lm" using a q by (simp add: upd_state_def)
  note n = none_gone [OF inv k]
  have d: "drop (length (takeWhile P xs)) xs = dropWhile P xs" for P and xs :: "waiter list"
    by (induction xs) auto
  show ?thesis
  proof (cases q)
    case Nil
    then show ?thesis using nt id q unfolding drain_def Let_def taken_def n by simp
  next
    case (Cons w ws)
    then show ?thesis using nt id q unfolding drain_def Let_def taken_def n
      by (simp add: waked_def d upd_state_upd [OF a])
  qed
qed

lemma waked_readers:
  assumes "q \<noteq> []" and "w_mode (hd q) = Read"
  shows "waked q \<noteq> []" "list_all (\<lambda>w. w_mode w = Read) (waked q)"
  using assms by (cases q; simp add: waked_def list_all_iff; blast dest: set_takeWhileD)+

lemma waked_append: "waked q @ drop (length (waked q)) q = q"
  by (auto simp: waked_def split: list.split) (metis append_eq_conv_conj takeWhile_dropWhile_id)

lemma inv_drain:
  assumes inv: "locks_inv {k} X {} lm" and k: "m_locks lm k = Some a"
  shows "locks_inv {} X {} (drain k a lm)"
proof (cases "taken (m_states lm ! a)")
  case True
  then show ?thesis using inv_taken [OF inv k] by (simp add: drain_taken)
next
  case nt: False
  let ?q = "k_queue (m_states lm ! a)"
  note f = drain_free [OF inv k nt refl]
  have c: "counts_ok k (m_states lm ! a) lm" using locks_invD(1) [OF inv k] by (simp add: lock_ok_def)
  show ?thesis
  proof (cases ?q)
    case Nil
    then show ?thesis using inv_forget [OF inv k _ nt] unfolding f by simp
  next
    case (Cons w ws)
    show ?thesis
    proof (cases "w_mode w")
      case Write
      then have wk: "waked ?q = [w]" "drop (length (waked ?q)) ?q = ws" by (simp_all add: waked_def Cons)
      show ?thesis using locks_resolve [OF inv k Cons not_taken(2) [OF c nt]] Cons unfolding f wk by simp
    next
      case Read
      then have r: "waked ?q \<noteq> []" "list_all (\<lambda>w. w_mode w = Read) (waked ?q)" using waked_readers [of ?q] Cons by simp_all
      have "locks_inv ({k} - {k}) X {} (fold (resolve_waiter k a) (waked ?q)
          (upd_state a (\<lambda>s. s\<lparr>k_queue := drop (length (waked ?q)) ?q\<rparr>) lm))"
        by (rule locks_resolve_readers [OF inv k waked_append [symmetric] r(2) _ r(1)])
          (use not_taken(2) [OF c nt] in \<open>simp add: grantable_def\<close>)
      then show ?thesis unfolding f using Cons by simp
    qed
  qed
qed

text \<open>What a drain leaves: the runs that do not wait are not touched, the others keep all but what they
  hold and that they wait.\<close>

definition untouched :: "manager \<Rightarrow> manager \<Rightarrow> bool" where
  "untouched lm lm' \<longleftrightarrow> length (m_runs lm') = length (m_runs lm)
     \<and> (\<forall>r < length (m_runs lm). \<not> is_waiting (m_runs lm ! r) \<longrightarrow> m_runs lm' ! r = m_runs lm ! r)
     \<and> (\<forall>r < length (m_runs lm). is_waiting (m_runs lm ! r) \<longrightarrow> r_todo (m_runs lm' ! r) = r_todo (m_runs lm ! r)
          \<and> (is_waiting (m_runs lm' ! r) \<or> r_phase (m_runs lm' ! r) = Acquiring))"

lemma resolve_nth:
  "r < length (m_runs lm) \<Longrightarrow> m_runs (resolve_waiter k a w lm) ! r =
     (if r = w_run w then given k a (w_mode w) (m_runs lm ! r) else m_runs lm ! r)"
  by (simp add: resolve_waiter_def give_def given_def)

lemma resolve_other:
  "r < length (m_runs lm) \<Longrightarrow> r \<notin> w_run ` set ws \<Longrightarrow> m_runs (fold (resolve_waiter k a) ws lm) ! r = m_runs lm ! r"
  by (induction ws arbitrary: lm) (simp_all add: resolve_nth)

lemma resolve_waked:
  "r < length (m_runs lm) \<Longrightarrow>
     r_todo (m_runs (fold (resolve_waiter k a) ws lm) ! r) = r_todo (m_runs lm ! r) \<and>
     (m_runs (fold (resolve_waiter k a) ws lm) ! r = m_runs lm ! r \<or> r_phase (m_runs (fold (resolve_waiter k a) ws lm) ! r) = Acquiring)"
proof (induction ws arbitrary: lm)
  case (Cons w ws)
  then show ?case using Cons.IH [of "resolve_waiter k a w lm"] by (auto simp: resolve_nth split: if_splits)
qed simp

lemma resolve_length: "length (m_runs (fold (resolve_waiter k a) ws lm)) = length (m_runs lm)"
  by (induction ws arbitrary: lm) simp_all

lemma untouchedI:
  assumes "length (m_runs lm') = length (m_runs lm)"
    and "\<And>r. r < length (m_runs lm) \<Longrightarrow> \<not> is_waiting (m_runs lm ! r) \<Longrightarrow> m_runs lm' ! r = m_runs lm ! r"
    and "\<And>r. r < length (m_runs lm) \<Longrightarrow> r_todo (m_runs lm' ! r) = r_todo (m_runs lm ! r) \<and>
      (m_runs lm' ! r = m_runs lm ! r \<or> r_phase (m_runs lm' ! r) = Acquiring)"
  shows "untouched lm lm'"
  unfolding untouched_def using assms by metis

lemma drain_untouched:
  assumes inv: "locks_inv {k} X {} lm" and k: "m_locks lm k = Some a"
  shows "untouched lm (drain k a lm)"
proof (cases "taken (m_states lm ! a)")
  case True
  then show ?thesis by (simp add: drain_taken untouched_def)
next
  case nt: False
  let ?q = "k_queue (m_states lm ! a)"
  let ?lm = "upd_state a (\<lambda>s. s\<lparr>k_queue := drop (length (waked ?q)) ?q\<rparr>) lm"
  have sub: "set (waked ?q) \<subseteq> set ?q" using arg_cong [OF waked_append [of ?q], of set] by auto
  have out: "r \<notin> w_run ` set (waked ?q)" if "\<not> is_waiting (m_runs lm ! r)" for r
    using that queue_update(2) [OF inv k] sub by (auto simp: is_waiting_def)
  have "untouched lm (fold (resolve_waiter k a) (waked ?q) ?lm)"
    by (rule untouchedI)
      (use resolve_length [of k a "waked ?q" ?lm] resolve_other [of _ ?lm "waked ?q" k a, OF _ out]
        resolve_waked [of _ ?lm k a "waked ?q"] in simp_all)
  then show ?thesis unfolding drain_free [OF inv k nt refl] by (simp add: untouched_def)
qed

section \<open>Releasing\<close>

lemma count_last: "r_held x = hs @ [(k, a, m)] \<Longrightarrow> count m' k' x = count m' k' (x\<lparr>r_held := hs\<rparr>) + (if k' = k \<and> m' = m then 1 else 0)"
  by (simp add: count_def)

lemma counts_ungrant:
  assumes "counts_ok k s lm" and "\<And>m'. total m' k lm = total m' k lm' + (if m' = m then 1 else 0)"
  shows "counts_ok k (ungrant m s) lm'"
  using assms(1) unfolding counts_ok_def assms(2) by (cases m; auto simp: ungrant_def split: if_splits)

lemma release_step:
  assumes inv: "locks_inv {} {r} {} lm" and r: "r < length (m_runs lm)" "\<not> is_waiting (m_runs lm ! r)"
    and h: "r_held (m_runs lm ! r) = hs @ [(k, a, m)]"
  shows "locks_inv {} {r} {} (release k a m (upd_run r (\<lambda>x. x\<lparr>r_held := hs\<rparr>) lm))"
    and "untouched (upd_run r (\<lambda>x. x\<lparr>r_held := hs\<rparr>) lm) (release k a m (upd_run r (\<lambda>x. x\<lparr>r_held := hs\<rparr>) lm))"
proof -
  let ?x = "(m_runs lm ! r)\<lparr>r_held := hs\<rparr>" and ?s = "ungrant m (m_states lm ! a)"
  let ?lm = "upd_state a (ungrant m) (upd_run r (\<lambda>x. x\<lparr>r_held := hs\<rparr>) lm)"
  have c: "changes r ?x a ?s lm ?lm" using r by (simp add: changes_def)
  have k: "m_locks lm k = Some a" using locks_invD(3) [OF inv r(1)] h by (simp add: ref_ok_def)
  have lk: "a < length (m_states lm)" "counts_ok k (m_states lm ! a) lm" "queue_ok k a (m_states lm ! a) lm"
    using locks_invD(1) [OF inv k] by (simp_all add: lock_ok_def)
  have t: "total m' k lm = total m' k ?lm + (if m' = m then 1 else 0)" for m'
    using total_changes [OF c, of m' k] count_last [OF h, of m' k] by simp
  have nw: "\<not> is_waiting ?x" using r(2) by (simp add: is_waiting_def)
  have "queue_ok k a ?s ?lm"
    by (rule queue_stop [OF lk(3) c nw]) (simp add: queue_without [OF lk(3) r(2)] ungrant_def)
  then have own: "lock_ok {k} ?lm k a'" if "m_locks lm k = Some a'" for a'
    using that k counts_ungrant [OF lk(2) t] lk(1) changes_nth [OF c] by (simp add: lock_ok_def)
  have rf: "ref_ok lm ?x" using locks_invD(3) [OF inv r(1)] h by (simp add: ref_ok_def)
  have sg: "signals_ok {} ?lm"
    by (rule signals_stop [OF locks_invD(4) [OF inv] c _ nw])
      (use no_listener [OF locks_invD(4) [OF inv]] r(2) in simp_all)
  have n: "count m' k' ?x = count m' k' (m_runs lm ! r)" if "k' \<noteq> k" for k' m'
    using count_last [OF h, of m' k'] that by simp
  have inv': "locks_inv {k} {r} {} ?lm"
    by (rule inv_changes [OF inv c _ own n _ rf sg]) (use k in simp_all)
  have k': "m_locks ?lm k = Some a" using k by simp
  show "locks_inv {} {r} {} (release k a m (upd_run r (\<lambda>x. x\<lparr>r_held := hs\<rparr>) lm))"
    unfolding release_def by (rule inv_drain [OF inv' k'])
  show "untouched (upd_run r (\<lambda>x. x\<lparr>r_held := hs\<rparr>) lm) (release k a m (upd_run r (\<lambda>x. x\<lparr>r_held := hs\<rparr>) lm))"
    using drain_untouched [OF inv' k'] unfolding release_def by (simp add: untouched_def)
qed

text \<open>How much a run still has to do.\<close>

definition weight :: "run \<Rightarrow> nat" where
  "weight x = (case r_phase x of
      Acquiring \<Rightarrow> 2 + length (r_todo x)
    | Waiting k a m \<Rightarrow> 2 + length (r_todo x)
    | Rejected \<Rightarrow> 1
    | Operating \<Rightarrow> 1
    | Finished \<Rightarrow> 0)"

definition weights :: "manager \<Rightarrow> nat list" where
  "weights lm = map weight (m_runs lm)"

lemma weight_held [simp]: "weight (x\<lparr>r_held := hs\<rparr>) = weight x"
  by (cases "r_phase x") (simp_all add: weight_def)

lemma untouched_weights: "untouched lm lm' \<Longrightarrow> weights lm' = weights lm"
proof -
  assume u: "untouched lm lm'"
  have "weight (m_runs lm' ! r) = weight (m_runs lm ! r)" if "r < length (m_runs lm)" for r
    using u that by (cases "is_waiting (m_runs lm ! r)") (auto simp: untouched_def is_waiting_def weight_def)
  then show ?thesis using u by (auto simp: weights_def untouched_def intro: nth_equalityI)
qed

lemma weights_upd: "r < length (m_runs lm) \<Longrightarrow> weights (upd_run r g lm) = (weights lm)[r := weight (g (m_runs lm ! r))]"
  by (simp add: weights_def map_update)

lemma weights_same: "r < length (m_runs lm) \<Longrightarrow> (weights lm)[r := weight (m_runs lm ! r)] = weights lm"
  by (simp add: weights_def list_update_same_conv)

lemma release_all_ok:
  assumes "locks_inv {} {r} {} lm" and "r < length (m_runs lm)" "\<not> is_waiting (m_runs lm ! r)"
    and "r_held (m_runs lm ! r) = rev hs"
  shows "locks_inv {} {r} {} (release_all r hs lm)"
    "length (m_runs (release_all r hs lm)) = length (m_runs lm)"
    "m_runs (release_all r hs lm) ! r = (m_runs lm ! r)\<lparr>r_held := []\<rparr>"
    "weights (release_all r hs lm) = weights lm"
proof -
  have "locks_inv {} {r} {} (release_all r hs lm)
      \<and> length (m_runs (release_all r hs lm)) = length (m_runs lm)
      \<and> m_runs (release_all r hs lm) ! r = (m_runs lm ! r)\<lparr>r_held := []\<rparr>
      \<and> weights (release_all r hs lm) = weights lm"
    using assms
  proof (induction hs arbitrary: lm)
    case Nil
    then show ?case by simp
  next
    case (Cons h hs)
    obtain k a m where h: "h = (k, a, m)" by (cases h)
    let ?u = "upd_run r (\<lambda>x. x\<lparr>r_held := rev hs\<rparr>) lm"
    let ?lm = "release k a m ?u"
    have held: "r_held (m_runs lm ! r) = rev hs @ [(k, a, m)]" using Cons.prems(4) h by simp
    note s = release_step [OF Cons.prems(1-3) held]
    have u: "m_runs ?lm ! r = (m_runs lm ! r)\<lparr>r_held := rev hs\<rparr>" "length (m_runs ?lm) = length (m_runs lm)"
      using s(2) Cons.prems(2,3) by (auto simp: untouched_def is_waiting_def)
    have w: "weights ?lm = weights lm"
      using untouched_weights [OF s(2)] Cons.prems(2) by (simp add: weights_upd weights_same)
    have "\<not> is_waiting (m_runs ?lm ! r)" using u Cons.prems(3) by (simp add: is_waiting_def)
    then show ?case using Cons.IH [OF s(1)] Cons.prems(2) u w by (simp add: h)
  qed
  then show "locks_inv {} {r} {} (release_all r hs lm)"
    "length (m_runs (release_all r hs lm)) = length (m_runs lm)"
    "m_runs (release_all r hs lm) ! r = (m_runs lm ! r)\<lparr>r_held := []\<rparr>"
    "weights (release_all r hs lm) = weights lm" by simp_all
qed

lemma finish_run_ok:
  assumes inv: "locks_inv {} {r} {} lm" and r: "r < length (m_runs lm)" "\<not> is_waiting (m_runs lm ! r)"
  shows "locks_inv {} {} {} (finish_run r lm)" "weights (finish_run r lm) = (weights lm)[r := 0]"
proof -
  let ?hs = "rev (r_held (m_runs lm ! r))"
  let ?lm = "release_all r ?hs lm"
  note a = release_all_ok [OF inv r, of ?hs, simplified]
  have n: "\<not> is_waiting (m_runs ?lm ! r)" using a(3) r(2) by (simp add: is_waiting_def)
  have r': "r < length (m_runs ?lm)" using a(2) r(1) by simp
  show "locks_inv {} {} {} (finish_run r lm)"
    unfolding finish_run_def
    by (rule locks_run [OF a(1) r' refl n]) (simp_all add: a(3) is_waiting_def run_ok_def)
  show "weights (finish_run r lm) = (weights lm)[r := 0]"
    unfolding finish_run_def weights_upd [OF r'] a(4) by (simp add: weight_def)
qed

section \<open>Acquiring\<close>

text \<open>A run that acquires a key after those it holds.\<close>

definition acquiring :: "manager \<Rightarrow> nat \<Rightarrow> string \<Rightarrow> mode \<Rightarrow> bool" where
  "acquiring lm r k m \<longleftrightarrow> r < length (m_runs lm) \<and> r_phase (m_runs lm ! r) = Acquiring
     \<and> holds (m_runs lm ! r) @ (k, m) # r_todo (m_runs lm ! r) = normalizeResources (r_resources (m_runs lm ! r))"

lemma lock_for_new:
  assumes inv: "locks_inv {} X Y lm" and k: "m_locks lm k = None"
    and l: "lm' = lm\<lparr>m_states := m_states lm @ [\<lparr>k_readers = 0, k_writer = False, k_queue = []\<rparr>],
                    m_locks := (m_locks lm)(k \<mapsto> length (m_states lm))\<rparr>"
  shows "locks_inv {k} X Y lm'"
proof -
  have rf: "ref_ok lm (m_runs lm ! r)" if "r < length (m_runs lm)" for r
    using locks_invD(3) [OF inv that] .
  have nh: "count m k x = 0" if "x \<in> set (m_runs lm)" for x m
    using rf k that by (fastforce simp: in_set_conv_nth count_def filter_empty_conv ref_ok_def)
  have nw: "r_phase (m_runs lm ! r) \<noteq> Waiting k a m" if "r < length (m_runs lm)" for r a m
    using rf [OF that] k by (auto simp: ref_ok_def)
  have new: "lock_ok {k} lm' k (length (m_states lm))"
    using nh nw by (simp add: lock_ok_def l counts_ok_def total_def queue_ok_def)
  have old: "lock_ok {k} lm' k' a \<and> a < length (m_states lm)" if "m_locks lm k' = Some a" for k' a
  proof -
    have o: "lock_ok {} lm k' a" using locks_invD(1) [OF inv that] .
    then have "lock_ok {} lm' k' a" by (rule lock_longer) (use o in \<open>simp_all add: l lock_ok_def nth_append\<close>)
    then show ?thesis using o by (simp add: lock_ok_def)
  qed
  have "locks_ok {k} lm'" using new old by (auto simp: locks_ok_def l)
  moreover have "apart lm'"
    using inv old unfolding locks_inv_def apart_def l by (fastforce split: if_splits)
  moreover have "ref_ok lm' (m_runs lm ! r)" if "r < length (m_runs lm)" for r
    using rf [OF that] k by (auto simp: ref_ok_def l)
  moreover have "signals_ok Y lm'"
    using locks_invD(4) [OF inv] by (simp add: l signals_ok_def is_aborted_def cong: option.case_cong)
  moreover have "runs_ok X lm'" using inv by (simp add: l locks_inv_def runs_ok_def)
  ultimately show ?thesis by (simp add: locks_inv_def refs_ok_def) (simp add: l)
qed

lemma unavailable_taken:
  assumes inv: "locks_inv {} X Y lm" and k: "m_locks lm k = Some a"
  shows "taken (m_states lm ! a)"
  using locks_invD(1) [OF inv k] by (simp add: lock_ok_def)

lemma available_grantable: "available m s \<Longrightarrow> grantable m s"
  by (cases m) (simp_all add: available_def grantable_def)

lemma inv_acquire_give:
  assumes inv: "locks_inv K {r} {} lm" and k: "m_locks lm k = Some a" and q: "acquiring lm r k m"
    and g: "available m (m_states lm ! a)"
  shows "locks_inv (K - {k}) {} {} (give r k a m lm)"
proof -
  have r: "r < length (m_runs lm)" "\<not> is_waiting (m_runs lm ! r)" using q by (simp_all add: acquiring_def is_waiting_def)
  have c: "changes r (given k a m (m_runs lm ! r)) a (grant m (m_states lm ! a)\<lparr>k_queue := k_queue (m_states lm ! a)\<rparr>) lm (give r k a m lm)"
    using r by (simp add: changes_def give_def given_def flip: grant_swap)
  have "run_ok (given k a m (m_runs lm ! r))" using q by (simp add: acquiring_def run_ok_def holds_def)
  then show ?thesis
    by (intro inv_give [OF inv k r(1) available_grantable [OF g] c])
      (use r no_listener [OF locks_invD(4) [OF inv]] in \<open>simp_all add: give_def\<close>)
qed

lemma waiter_eq: "w = \<lparr>w_run = r, w_mode = m\<rparr> \<longleftrightarrow> w_run w = r \<and> w_mode w = m"
  by (cases w) simp

lemma inv_acquire_wait:
  assumes inv: "locks_inv {} {r} {} lm" and k: "m_locks lm k = Some a" and q: "acquiring lm r k m"
    and ab: "\<not> is_aborted lm r"
  shows "locks_inv {} {} {} ((upd_run r (\<lambda>x. x\<lparr>r_phase := Waiting k a m\<rparr>)
      (upd_state a (\<lambda>s. s\<lparr>k_queue := k_queue s @ [\<lparr>w_run = r, w_mode = m\<rparr>]\<rparr>) lm))
      \<lparr>m_listeners := m_listeners lm @ (case r_signal (m_runs lm ! r) of None \<Rightarrow> [] | Some s \<Rightarrow> [(s, r)])\<rparr>)"
    (is "locks_inv _ _ _ ?lm")
proof -
  let ?x = "(m_runs lm ! r)\<lparr>r_phase := Waiting k a m\<rparr>"
  let ?s = "(m_states lm ! a)\<lparr>k_queue := k_queue (m_states lm ! a) @ [\<lparr>w_run = r, w_mode = m\<rparr>]\<rparr>"
  have r: "r < length (m_runs lm)" "\<not> is_waiting (m_runs lm ! r)" using q by (simp_all add: acquiring_def is_waiting_def)
  have c: "changes r ?x a ?s lm ?lm" using r by (simp add: changes_def)
  have lk: "a < length (m_states lm)" "counts_ok k (m_states lm ! a) lm" "queue_ok k a (m_states lm ! a) lm"
      "taken (m_states lm ! a)"
    using locks_invD(1) [OF inv k] by (simp_all add: lock_ok_def)
  have t: "total m' k ?lm = total m' k lm" for m' using total_changes [OF c, of m' k] by simp
  have nq: "r \<notin> w_run ` set (k_queue (m_states lm ! a))"
    using lk(3) r(2) by (auto simp: queue_ok_def is_waiting_def)
  have qs: "w \<in> set (k_queue ?s) \<longleftrightarrow> w_run w < length (m_runs ?lm) \<and> r_phase (m_runs ?lm ! w_run w) = Waiting k a (w_mode w)" for w
  proof (cases "w_run w = r")
    case True
    then have "w \<notin> set (k_queue (m_states lm ! a))" using nq by blast
    then have "w \<in> set (k_queue ?s) \<longleftrightarrow> w_mode w = m" using True by (simp add: waiter_eq)
    moreover have "(w_run w < length (m_runs ?lm) \<and> r_phase (m_runs ?lm ! w_run w) = Waiting k a (w_mode w)) \<longleftrightarrow> m = w_mode w"
      unfolding True changes_nth(1,3) [OF c] using r(1) by simp
    ultimately show ?thesis by blast
  next
    case False
    then have "w \<in> set (k_queue ?s) \<longleftrightarrow> w \<in> set (k_queue (m_states lm ! a))" by (simp add: waiter_eq)
    then show ?thesis using lk(3) unfolding queue_ok_def changes_nth(1) [OF c] changes_nth(4) [OF c False] by blast
  qed
  have "queue_ok k a ?s ?lm" unfolding queue_ok_def using qs lk(3) nq by (simp add: queue_ok_def)
  then have own: "lock_ok {} ?lm k a'" if "m_locks lm k = Some a'" for a'
    using that k lk counts_frame [OF lk(2) t] changes_nth [OF c] by (simp add: lock_ok_def)
  have rf: "ref_ok lm ?x" using locks_invD(3) [OF inv r(1)] k by (simp add: ref_ok_def)
  have sg: "signals_ok {} ?lm"
    by (rule signals_start [OF locks_invD(4) [OF inv] c]) (use r ab in \<open>simp_all add: is_waiting_def\<close>)
  have w: "r_phase ?x = Waiting k' a' m' \<longleftrightarrow> r_phase (m_runs lm ! r) = Waiting k' a' m'" if "k' \<noteq> k" for k' a' m'
    using q that by (simp add: acquiring_def)
  have ro: "r \<in> {} \<or> run_ok ?x" using q by (simp add: acquiring_def run_ok_def holds_def)
  show ?thesis by (rule inv_changes [OF inv c _ own _ w rf sg ro]) (use k in simp_all)
qed

lemma inv_acquire:
  assumes inv: "locks_inv {} {r} {} lm" and q: "acquiring lm r k m"
  shows "locks_inv {} {} {} (acquire r k m lm)"
proof (cases "is_aborted lm r")
  case True
  have r: "r < length (m_runs lm)" "\<not> is_waiting (m_runs lm ! r)" using q by (simp_all add: acquiring_def is_waiting_def)
  show ?thesis using True unfolding acquire_def reject_run_def
    by (auto intro!: locks_run [OF inv r(1) refl r(2)] simp: is_waiting_def run_ok_def)
next
  case na: False
  show ?thesis
  proof (cases "m_locks lm k")
    case None
    let ?lm = "snd (lock_for k lm)"
    have inv': "locks_inv {k} {r} {} ?lm"
      by (rule lock_for_new [OF inv None]) (simp add: lock_for_def None)
    have k: "m_locks ?lm k = Some (length (m_states lm))" and q': "acquiring ?lm r k m"
      and av: "available m (m_states ?lm ! length (m_states lm))"
      using q by (simp_all add: lock_for_def None acquiring_def available_def)
    have "acquire r k m lm = give r k (length (m_states lm)) m ?lm"
      using na av by (simp add: acquire_def lock_for_def None)
    then show ?thesis using inv_acquire_give [OF inv' k q' av] by simp
  next
    case (Some a)
    have l: "lock_for k lm = (a, lm)" by (simp add: lock_for_def Some)
    show ?thesis
    proof (cases "available m (m_states lm ! a)")
      case True
      then show ?thesis using inv_acquire_give [OF inv Some q] na by (simp add: acquire_def l)
    next
      case False
      then show ?thesis using inv_acquire_wait [OF inv Some q na] na by (simp add: acquire_def l)
    qed
  qed
qed

lemma inv_more: "locks_inv K X Y lm \<Longrightarrow> X \<subseteq> X' \<Longrightarrow> locks_inv K X' Y lm"
  by (rule locks_inv_mono [OF _ order_refl])

lemma inv_advance:
  assumes inv: "locks_inv {} {} {} lm" and r: "r < length (m_runs lm)" and p: "r_phase (m_runs lm ! r) = Acquiring"
  shows "locks_inv {} {} {} (advance r lm)"
proof -
  have nw: "\<not> is_waiting (m_runs lm ! r)" using p by (simp add: is_waiting_def)
  have ok: "holds (m_runs lm ! r) @ r_todo (m_runs lm ! r) = normalizeResources (r_resources (m_runs lm ! r))"
    using locks_invD(5) [OF inv r] p by (simp add: run_ok_def)
  show ?thesis
  proof (cases "r_todo (m_runs lm ! r)")
    case Nil
    have "locks_inv {} {} {} (upd_run r (\<lambda>x. x\<lparr>r_phase := Operating\<rparr>) lm)"
      by (rule locks_run [OF inv r refl nw]) (use ok Nil in \<open>simp_all add: is_waiting_def run_ok_def holds_def\<close>)
    then show ?thesis using finish_run_ok(1) [OF inv_more [OF inv] r nw] Nil by (simp add: advance_def)
  next
    case (Cons km todo)
    obtain k m where km: "km = (k, m)" by (cases km)
    let ?lm = "upd_run r (\<lambda>x. x\<lparr>r_todo := todo\<rparr>) lm"
    have inv': "locks_inv {} {r} {} ?lm"
      by (rule locks_run [OF inv r refl nw]) (use nw in \<open>simp_all add: is_waiting_def\<close>)
    have "acquiring ?lm r k m" using ok r p Cons km by (simp add: acquiring_def holds_def)
    then show ?thesis using inv_acquire [OF inv'] Cons km by (simp add: advance_def)
  qed
qed

section \<open>Aborting\<close>

lemma on_abort_waiting:
  assumes inv: "locks_inv {} {} Y lm" and r: "r \<in> Y" "r < length (m_runs lm)" and w: "r_phase (m_runs lm ! r) = Waiting k a m"
  shows "locks_inv {} {} (Y - {r}) (on_abort r lm)"
proof -
  let ?lm = "reject_run r (upd_state a (\<lambda>s. s\<lparr>k_queue := filter (\<lambda>w. w_run w \<noteq> r) (k_queue s)\<rparr>) lm)"
  let ?x = "(m_runs lm ! r)\<lparr>r_phase := Rejected\<rparr>"
  let ?s = "(m_states lm ! a)\<lparr>k_queue := filter (\<lambda>w. w_run w \<noteq> r) (k_queue (m_states lm ! a))\<rparr>"
  have k: "m_locks lm k = Some a" using locks_invD(3) [OF inv r(2)] w by (simp add: ref_ok_def)
  have c: "changes r ?x a ?s lm ?lm" using r by (simp add: changes_def reject_run_def)
  have nw: "\<not> is_waiting ?x" by (simp add: is_waiting_def)
  have lk: "a < length (m_states lm)" "counts_ok k (m_states lm ! a) lm" "queue_ok k a (m_states lm ! a) lm"
      "taken (m_states lm ! a)"
    using locks_invD(1) [OF inv k] by (simp_all add: lock_ok_def)
  have t: "total m' k ?lm = total m' k lm" for m' using total_changes [OF c, of m' k] by simp
  have "queue_ok k a ?s ?lm" by (rule queue_stop [OF lk(3) c nw]) simp
  then have own: "lock_ok {} ?lm k a'" if "m_locks lm k = Some a'" for a'
    using that k lk counts_frame [OF lk(2) t] changes_nth [OF c] by (simp add: lock_ok_def)
  have rf: "ref_ok lm ?x" using locks_invD(3) [OF inv r(2)] by (simp add: ref_ok_def)
  have sg: "signals_ok (Y - {r}) ?lm"
    by (rule signals_stop [OF locks_invD(4) [OF inv] c _ nw])
      (use no_listener [OF locks_invD(4) [OF inv], of r] r in \<open>auto simp: reject_run_def\<close>)
  have wf: "r_phase ?x = Waiting k' a' m' \<longleftrightarrow> r_phase (m_runs lm ! r) = Waiting k' a' m'" if "k' \<noteq> k" for k' a' m'
    using w that by simp
  have ro: "r \<in> {} \<or> run_ok ?x" by (simp add: run_ok_def)
  have "locks_inv {} {} (Y - {r}) ?lm"
    by (rule inv_changes [OF inv c _ own _ wf rf sg ro]) (use k in simp_all)
  moreover have "on_abort r lm = ?lm"
    using lk(1,4) changes_nth(5) [OF c] by (simp add: on_abort_def w drain_taken)
  ultimately show ?thesis by simp
qed

text \<open>The runs still to be told that their signal aborted wait, each with a signal that did.\<close>

lemma on_abort_inv:
  assumes inv: "locks_inv {} {} Y lm" and r: "r \<in> Y" "r < length (m_runs lm)" "is_waiting (m_runs lm ! r)"
  shows "locks_inv {} {} (Y - {r}) (on_abort r lm)" "length (m_runs (on_abort r lm)) = length (m_runs lm)"
    "r' \<noteq> r \<Longrightarrow> m_runs (on_abort r lm) ! r' = m_runs lm ! r'"
proof -
  obtain k a m where w: "r_phase (m_runs lm ! r) = Waiting k a m" using r(3) by (auto simp: is_waiting_def)
  show "locks_inv {} {} (Y - {r}) (on_abort r lm)" using on_abort_waiting [OF inv r(1,2) w] .
  have k: "m_locks lm k = Some a" using locks_invD(3) [OF inv r(2)] w by (simp add: ref_ok_def)
  have "taken (m_states lm ! a)" "a < length (m_states lm)"
    using locks_invD(1) [OF inv k] by (simp_all add: lock_ok_def)
  then have "on_abort r lm = reject_run r (upd_state a (\<lambda>s. s\<lparr>k_queue := filter (\<lambda>w. w_run w \<noteq> r) (k_queue s)\<rparr>) lm)"
    by (simp add: on_abort_def w drain_taken reject_run_def)
  then show "length (m_runs (on_abort r lm)) = length (m_runs lm)"
    "r' \<noteq> r \<Longrightarrow> m_runs (on_abort r lm) ! r' = m_runs lm ! r'" by (simp_all add: reject_run_def)
qed

lemma abort_all:
  assumes "locks_inv {} {} (set rs) lm" and "distinct rs"
    and "\<And>r. r \<in> set rs \<Longrightarrow> r < length (m_runs lm) \<and> is_waiting (m_runs lm ! r)"
  shows "locks_inv {} {} {} (fold on_abort rs lm)"
  using assms
proof (induction rs arbitrary: lm)
  case (Cons r rs)
  have r: "r \<in> set (r # rs)" "r < length (m_runs lm)" "is_waiting (m_runs lm ! r)" using Cons.prems(3) [of r] by simp_all
  note o = on_abort_inv [OF Cons.prems(1) r]
  have d: "set (r # rs) - {r} = set rs" using Cons.prems(2) by auto
  have "r' < length (m_runs (on_abort r lm)) \<and> is_waiting (m_runs (on_abort r lm) ! r')" if "r' \<in> set rs" for r'
  proof -
    have "r' \<noteq> r" using that Cons.prems(2) by auto
    then show ?thesis using Cons.prems(3) [of r'] o(2) o(3) that by simp
  qed
  then show ?case using Cons.IH [OF o(1) [unfolded d]] Cons.prems(2) by simp
qed simp

lemma inv_signals:
  assumes "locks_inv K X Y lm" and "m_states lm' = m_states lm" and "m_runs lm' = m_runs lm"
    and "m_locks lm' = m_locks lm" and "signals_ok Y' lm'"
  shows "locks_inv K X Y' lm'"
  using assms lock_same [OF assms(2,3)] ref_frame [OF assms(4)]
  by (simp add: locks_inv_def locks_ok_def apart_def refs_ok_def runs_ok_def)

lemma inv_abort:
  assumes inv: "locks_inv {} {} {} lm"
  shows "locks_inv {} {} {} (lock_step (Abort s) lm)"
proof (cases "s \<in> set (m_aborted lm)")
  case False
  let ?rs = "map snd (filter (\<lambda>l. fst l = s) (m_listeners lm))"
  let ?lm = "lm\<lparr>m_aborted := s # m_aborted lm, m_listeners := filter (\<lambda>l. fst l \<noteq> s) (m_listeners lm)\<rparr>"
  note sg = signals_okD [OF locks_invD(4) [OF inv]]
  have mem: "r \<in> set ?rs \<longleftrightarrow> r < length (m_runs lm) \<and> is_waiting (m_runs lm ! r) \<and> r_signal (m_runs lm ! r) = Some s" for r
    using sg(2) [of s r] by force
  have ab: "is_aborted ?lm r \<longleftrightarrow> is_aborted lm r \<or> r_signal (m_runs lm ! r) = Some s" for r
    by (auto simp: is_aborted_def split: option.splits)
  have "signals_ok (set ?rs) ?lm"
    unfolding signals_ok_def
  proof (intro conjI allI impI)
    show "distinct (map snd (m_listeners ?lm))" using sg(1) by (simp add: distinct_map_filter)
    show "(t, r) \<in> set (m_listeners ?lm) \<longleftrightarrow> r < length (m_runs ?lm) \<and> is_waiting (m_runs ?lm ! r)
        \<and> r_signal (m_runs ?lm ! r) = Some t \<and> r \<notin> set ?rs" for t r
      unfolding mem using sg(2) [of t r] by auto
    show "\<not> is_aborted ?lm r" if "r < length (m_runs ?lm)" "is_waiting (m_runs ?lm ! r) \<and> r \<notin> set ?rs" for r
      unfolding ab using that mem [of r] sg(3) [of r] by simp
  qed
  then have "locks_inv {} {} (set ?rs) ?lm"
    using inv_signals [OF inv, of ?lm] by simp
  moreover have "distinct ?rs" using sg(1) by (simp add: distinct_map_filter)
  ultimately have "locks_inv {} {} {} (fold on_abort ?rs ?lm)"
    by (rule abort_all) (use mem in simp)
  then show ?thesis using False by (simp add: fold_map comp_def)
qed (use inv in simp)

section \<open>Every reachable state\<close>

lemma inv_start:
  assumes inv: "locks_inv {} {} {} lm"
  shows "locks_inv {} {} {} (lock_step (Run resources s) lm)" (is "locks_inv _ _ _ ?lm")
proof -
  let ?x = "\<lparr>r_resources = resources, r_signal = s, r_todo = normalizeResources resources, r_held = [], r_phase = Acquiring\<rparr>"
  have m: "m_runs ?lm = m_runs lm @ [?x]" "m_states ?lm = m_states lm" "m_locks ?lm = m_locks lm"
      "m_listeners ?lm = m_listeners lm" "m_aborted ?lm = m_aborted lm" by simp_all
  have t: "total m' k ?lm = total m' k lm" for m' k by (simp add: total_def count_def)
  have q: "queue_ok k a s' ?lm" if "queue_ok k a s' lm" for k a s'
    using that unfolding queue_ok_def m by (auto simp: nth_append)
  have "lock_ok {} ?lm k a" if "m_locks lm k = Some a" for k a
    using locks_invD(1) [OF inv that] q counts_frame [OF _ t] unfolding lock_ok_def m by blast
  moreover have "ref_ok ?lm (m_runs ?lm ! r)" if "r < length (m_runs ?lm)" for r
    using that locks_invD(3) [OF inv, of r] unfolding m ref_frame [OF m(3)]
    by (cases "r < length (m_runs lm)") (auto simp: nth_append ref_ok_def less_Suc_eq)
  moreover have "run_ok (m_runs ?lm ! r)" if "r < length (m_runs ?lm)" for r
    using that locks_invD(5) [OF inv, of r] unfolding m
    by (cases "r < length (m_runs lm)") (auto simp: nth_append run_ok_def holds_def less_Suc_eq)
  moreover have "signals_ok {} ?lm"
  proof -
    have new: "\<not> is_waiting ?x" by (simp add: is_waiting_def)
    have ab: "is_aborted ?lm r = is_aborted lm r" if "r < length (m_runs lm)" for r
      by (rule aborted_frame) (use that in \<open>simp_all add: nth_append\<close>)
    show ?thesis
      using locks_invD(4) [OF inv] new ab unfolding signals_ok_def m
      by (auto simp: nth_append less_Suc_eq)
  qed
  moreover have "apart ?lm" using inv by (simp add: locks_inv_def apart_def)
  ultimately show ?thesis by (simp add: locks_inv_def locks_ok_def refs_ok_def runs_ok_def)
qed

lemma locks_step:
  assumes inv: "locks_inv {} {} {} lm"
  shows "locks_inv {} {} {} (lock_step e lm)"
proof (cases e)
  case (Run resources s)
  then show ?thesis using inv_start [OF inv] by simp
next
  case (Advance r)
  then show ?thesis using inv_advance [OF inv] inv by simp
next
  case (Operation_Ends r)
  then show ?thesis using finish_run_ok(1) [OF inv_more [OF inv], of r] inv by (simp add: is_waiting_def)
next
  case (Unwind r)
  then show ?thesis using finish_run_ok(1) [OF inv_more [OF inv], of r] inv by (simp add: is_waiting_def)
next
  case (Abort s)
  then show ?thesis using inv_abort [OF inv] by simp
qed

lemma inv_new: "locks_inv {} {} {} newManager"
  by (simp add: locks_inv_def newManager_def locks_ok_def apart_def refs_ok_def runs_ok_def signals_ok_def)

lemma inv_fold: "locks_inv {} {} {} lm \<Longrightarrow> locks_inv {} {} {} (fold lock_step steps lm)"
  by (induction steps arbitrary: lm) (simp_all add: locks_step del: lock_step.simps)

lemma inv_run_locks: "locks_inv {} {} {} (run_locks steps)"
  unfolding run_locks_def by (rule inv_fold [OF inv_new])

section \<open>Exclusion\<close>

lemma holds_count: "(k, m) \<in> set (holds x) \<Longrightarrow> 0 < count m k x"
  using count_member [of _ x] by (fastforce simp: holds_def)

lemma operating_holds:
  assumes inv: "locks_inv {} {} {} lm" and r: "r < length (m_runs lm)" "r_phase (m_runs lm ! r) = Operating"
    and k: "(k, m) \<in> set (r_resources (m_runs lm ! r))" "trim k \<noteq> []"
  shows "\<exists>m'. 0 < count m' (trim k) (m_runs lm ! r) \<and> (m = Write \<longrightarrow> m' = Write)"
proof -
  have h: "holds (m_runs lm ! r) = normalizeResources (r_resources (m_runs lm ! r))"
    using locks_invD(5) [OF inv r(1)] r(2) by (simp add: run_ok_def)
  show ?thesis using normalize_covers [OF k] holds_count unfolding h [symmetric] by blast
qed

lemma total_two:
  assumes "r < length (m_runs lm)" "r' < length (m_runs lm)" "r \<noteq> r'"
  shows "count m k (m_runs lm ! r) + count m k (m_runs lm ! r') \<le> total m k lm"
proof -
  have "(\<Sum>i \<in> {r, r'}. count m k (m_runs lm ! i)) \<le> (\<Sum>i \<in> {..<length (m_runs lm)}. count m k (m_runs lm ! i))"
    by (rule sum_mono2) (use assms in auto)
  then show ?thesis using assms(3) by (simp add: total_def sum_list_sum_nth atLeast0LessThan)
qed

lemma held_modes:
  assumes inv: "locks_inv {} {} {} lm" and r: "r < length (m_runs lm)" "r' < length (m_runs lm)" "r \<noteq> r'"
    and c: "0 < count m k (m_runs lm ! r)" "0 < count m' k (m_runs lm ! r')"
  shows "m = Read"
proof (rule ccontr)
  assume "m \<noteq> Read"
  then have m: "m = Write" by (cases m) simp_all
  have "r_held (m_runs lm ! r) \<noteq> []" using c(1) by (auto simp: count_def)
  then obtain a m2 where "(k, a, m2) \<in> set (r_held (m_runs lm ! r))"
    using c(1) unfolding count_def length_greater_0_conv filter_empty_conv by auto
  then have "m_locks lm k = Some a" using locks_invD(3) [OF inv r(1)] by (auto simp: ref_ok_def)
  then have co: "counts_ok k (m_states lm ! a) lm" using locks_invD(1) [OF inv] by (simp add: lock_ok_def)
  have "0 < total Write k lm" using total_member [OF r(1), of m k] c(1) m by simp
  then have "total Write k lm = 1" "total Read k lm = 0" using co by (auto simp: counts_ok_def split: if_splits)
  then show False
    using total_two [OF r, of Write k] total_member [OF r(2), of m' k] c m by (cases m') auto
qed

text \<open>C6: Operations that run at the same time and name the same resource (keys compared after trimming,
  blank keys ignored) both only read it, whatever order of runs, grants, aborts and releases led there.\<close>

theorem conflicting_operations_exclude:
  assumes "r < length (m_runs (run_locks steps))" and "r' < length (m_runs (run_locks steps))" and "r \<noteq> r'"
    and "r_phase (m_runs (run_locks steps) ! r) = Operating" and "r_phase (m_runs (run_locks steps) ! r') = Operating"
    and "(k, m) \<in> set (r_resources (m_runs (run_locks steps) ! r))"
    and "(k', m') \<in> set (r_resources (m_runs (run_locks steps) ! r'))"
    and "trim k = trim k'" and "trim k \<noteq> []"
  shows "m = Read \<and> m' = Read"
proof -
  note inv = inv_run_locks [of steps]
  obtain n where n: "0 < count n (trim k) (m_runs (run_locks steps) ! r)" "m = Write \<longrightarrow> n = Write"
    using operating_holds [OF inv assms(1,4,6,9)] by blast
  obtain n' where n': "0 < count n' (trim k) (m_runs (run_locks steps) ! r')" "m' = Write \<longrightarrow> n' = Write"
    using operating_holds [OF inv assms(2,5,7)] assms(8,9) by metis
  have "n = Read" "n' = Read"
    using held_modes [OF inv assms(1,2,3) n(1) n'(1)] held_modes [OF inv assms(2,1) _ n'(1) n(1)] assms(3) by simp_all
  then show ?thesis using n(2) n'(2) by (cases m; cases m') simp_all
qed

lemma conflicting_operations_exclude_witness:
  "(let lm = run_locks [Run [('' f '', Read)] None, Run [(''f'', Read)] None, Advance 0, Advance 1, Advance 0, Advance 1]
    in r_phase (m_runs lm ! 0) = Operating \<and> r_phase (m_runs lm ! 1) = Operating \<and> Read = Read \<and> Read = Read)"
proof -
  let ?steps = "[Run [('' f '', Read)] None, Run [(''f'', Read)] None, Advance 0, Advance 1, Advance 0, Advance 1]"
  have 1: "m_runs (run_locks ?steps) =
      [\<lparr>r_resources = [('' f '', Read)], r_signal = None, r_todo = [], r_held = [(''f'', 0, Read)], r_phase = Operating\<rparr>,
       \<lparr>r_resources = [(''f'', Read)], r_signal = None, r_todo = [], r_held = [(''f'', 0, Read)], r_phase = Operating\<rparr>]"
    by code_simp
  have t: "trim '' f '' = ''f''" "trim ''f'' = ''f''" by code_simp+
  have "Read = Read \<and> Read = Read"
    by (rule conflicting_operations_exclude [of 0 ?steps 1 "'' f ''" Read "''f''" Read]; (unfold 1)?; simp add: t)
  then show ?thesis unfolding Let_def 1 by simp
qed

section \<open>Progress\<close>

lemma weight_zero: "weight x = 0 \<longleftrightarrow> r_phase x = Finished"
  by (simp add: weight_def split: run_phase.split)

text \<open>A run waits for a key greater than those it holds.\<close>

lemma waiting_greater:
  assumes "run_ok x" and "r_phase x = Waiting k a m" and "0 < count m' k' x"
  shows "k' < k"
proof -
  have "sorted_wrt (<) (map fst (holds x @ (k, m) # r_todo x))"
    using assms(1,2) normalize_sorted [of "r_resources x"] by (simp add: run_ok_def)
  moreover have "k' \<in> set (map fst (holds x))"
    using assms(3) by (force simp: count_def holds_def filter_empty_conv)
  ultimately show ?thesis unfolding map_append list.map sorted_wrt_append fst_conv by (meson list.set_intros(1))
qed

lemma taken_holder:
  assumes inv: "locks_inv {} {} {} lm" and k: "m_locks lm k = Some a"
  shows "\<exists>r m. r < length (m_runs lm) \<and> 0 < count m k (m_runs lm ! r)"
proof -
  have "counts_ok k (m_states lm ! a) lm" "taken (m_states lm ! a)"
    using locks_invD(1) [OF inv k] by (simp_all add: lock_ok_def)
  then have "0 < total Read k lm \<or> 0 < total Write k lm" by (auto simp: counts_ok_def taken_def)
  then obtain m where "0 < total m k lm" by blast
  then have "\<not> (\<forall>n \<in> set (map (count m k) (m_runs lm)). n = 0)" unfolding total_def by (simp only: flip: sum_list_eq_0_iff)
  then obtain x where "x \<in> set (m_runs lm)" "0 < count m k x" by auto
  then show ?thesis by (metis in_set_conv_nth)
qed

text \<open>Of the waiting runs, the one with the greatest key waits for a run that does not wait.\<close>

lemma some_run_goes_on:
  assumes inv: "locks_inv {} {} {} lm" and r: "r < length (m_runs lm)" "r_phase (m_runs lm ! r) \<noteq> Finished"
  shows "\<exists>r < length (m_runs lm). r_phase (m_runs lm ! r) \<noteq> Finished \<and> \<not> is_waiting (m_runs lm ! r)"
proof (cases "\<exists>r < length (m_runs lm). is_waiting (m_runs lm ! r)")
  case False
  then show ?thesis using r by blast
next
  case True
  let ?K = "{k. \<exists>r a m. r < length (m_runs lm) \<and> r_phase (m_runs lm ! r) = Waiting k a m}"
  have "finite ?K"
    by (rule finite_subset [of _ "(\<lambda>r. case r_phase (m_runs lm ! r) of Waiting k a m \<Rightarrow> k) ` {..<length (m_runs lm)}"])
      (force simp: image_iff)+
  moreover have "?K \<noteq> {}" using True by (auto simp: is_waiting_def)
  ultimately have mx: "Max ?K \<in> ?K" "\<And>k. k \<in> ?K \<Longrightarrow> k \<le> Max ?K" by (rule Max_in, simp)
  then obtain r1 a m where r1: "r1 < length (m_runs lm)" "r_phase (m_runs lm ! r1) = Waiting (Max ?K) a m" by auto
  then have "m_locks lm (Max ?K) = Some a" using locks_invD(3) [OF inv r1(1)] by (simp add: ref_ok_def)
  then obtain r2 m2 where r2: "r2 < length (m_runs lm)" "0 < count m2 (Max ?K) (m_runs lm ! r2)"
    using taken_holder [OF inv] by blast
  have ok: "run_ok (m_runs lm ! r2)" using locks_invD(5) [OF inv r2(1)] by simp
  have "r_phase (m_runs lm ! r2) \<noteq> Finished" using ok r2(2) by (auto simp: run_ok_def count_def)
  moreover have "\<not> is_waiting (m_runs lm ! r2)"
  proof
    assume "is_waiting (m_runs lm ! r2)"
    then obtain k a' m' where w: "r_phase (m_runs lm ! r2) = Waiting k a' m'" by (auto simp: is_waiting_def)
    then have "k \<in> ?K" using r2(1) by blast
    then show False using waiting_greater [OF ok w r2(2)] mx(2) by (simp only: leD)
  qed
  ultimately show ?thesis using r2(1) by blast
qed

definition own_step :: "lock_event \<Rightarrow> bool" where
  "own_step e = (case e of Advance r \<Rightarrow> True | Operation_Ends r \<Rightarrow> True | Unwind r \<Rightarrow> True | _ \<Rightarrow> False)"

lemma sum_list_less:
  assumes "r < length ws" and "n < ws ! r"
  shows "sum_list (ws[r := n]) < sum_list (ws :: nat list)"
  using assms elem_le_sum_list [OF assms(1)] by (simp add: sum_list_update)

lemma nth_weights: "r < length (m_runs lm) \<Longrightarrow> weights lm ! r = weight (m_runs lm ! r)" "length (weights lm) = length (m_runs lm)"
  by (simp_all add: weights_def)

lemma acquire_weights:
  assumes "r < length (m_runs lm)"
  shows "\<exists>n \<le> 2 + length (r_todo (m_runs lm ! r)). weights (acquire r k m lm) = (weights lm)[r := n]"
proof -
  obtain a lm1 where f: "lock_for k lm = (a, lm1)" by (cases "lock_for k lm")
  have l: "m_runs lm1 = m_runs lm" using f by (auto simp: lock_for_def split: option.splits)
  consider "acquire r k m lm = reject_run r lm"
    | "m_runs (acquire r k m lm) = (m_runs lm)[r := given k a m (m_runs lm ! r)]"
    | "m_runs (acquire r k m lm) = (m_runs lm)[r := (m_runs lm ! r)\<lparr>r_phase := Waiting k a m\<rparr>]"
  proof (cases "is_aborted lm r")
    case False
    show thesis
    proof (cases "available m (m_states lm1 ! a)")
      case True
      with False show thesis using that(2) l by (simp add: acquire_def f give_def given_def)
    next
      case na: False
      with False show thesis using that(3) l by (simp add: acquire_def f)
    qed
  qed (use that(1) in \<open>simp add: acquire_def\<close>)
  then show ?thesis
  proof cases
    case 1
    then show ?thesis using assms by (intro exI [of _ 1]) (simp add: reject_run_def weights_upd weight_def)
  next
    case 2
    then show ?thesis
      by (intro exI [of _ "2 + length (r_todo (m_runs lm ! r))"]) (simp add: weights_def map_update weight_def)
  next
    case 3
    then show ?thesis
      by (intro exI [of _ "2 + length (r_todo (m_runs lm ! r))"]) (simp add: weights_def map_update weight_def)
  qed
qed

lemma advance_less:
  assumes inv: "locks_inv {} {} {} lm" and r: "r < length (m_runs lm)" "r_phase (m_runs lm ! r) = Acquiring"
  shows "sum_list (weights (advance r lm)) < sum_list (weights lm)"
proof -
  have w: "weights lm ! r = 2 + length (r_todo (m_runs lm ! r))" using r by (simp add: nth_weights weight_def)
  have "\<exists>n < weights lm ! r. weights (advance r lm) = (weights lm)[r := n]"
  proof (cases "r_todo (m_runs lm ! r)")
    case Nil
    have "\<not> is_waiting (m_runs lm ! r)" using r by (simp add: is_waiting_def)
    then have "weights (finish_run r lm) = (weights lm)[r := 0]" by (rule finish_run_ok(2) [OF inv_more [OF inv empty_subsetI] r(1)])
    moreover have "weights (upd_run r (\<lambda>x. x\<lparr>r_phase := Operating\<rparr>) lm) = (weights lm)[r := 1]"
      using r(1) by (simp add: weights_upd weight_def)
    ultimately show ?thesis using w Nil
      by (intro exI [of _ "if is_aborted lm r then 0 else 1"]) (simp add: advance_def)
  next
    case (Cons km todo)
    obtain k m where km: "km = (k, m)" by (cases km)
    let ?lm = "upd_run r (\<lambda>x. x\<lparr>r_todo := todo\<rparr>) lm"
    have "weights ?lm = (weights lm)[r := 2 + length todo]" using r by (simp add: weights_upd weight_def)
    moreover have "r < length (m_runs ?lm)" "r_todo (m_runs ?lm ! r) = todo" using r(1) by simp_all
    ultimately obtain n where "n \<le> 2 + length todo" "weights (acquire r k m ?lm) = (weights lm)[r := n]"
      using acquire_weights [of r ?lm k m] by auto
    then show ?thesis using w Cons km by (intro exI [of _ n]) (simp add: advance_def)
  qed
  then show ?thesis using sum_list_less [of r "weights lm"] r(1) nth_weights(2) [of lm] by auto
qed

lemma own_step_less:
  assumes inv: "locks_inv {} {} {} lm" and r: "r < length (m_runs lm)" "r_phase (m_runs lm ! r) \<noteq> Finished" "\<not> is_waiting (m_runs lm ! r)"
  shows "\<exists>e. own_step e \<and> sum_list (weights (lock_step e lm)) < sum_list (weights lm)"
proof (cases "r_phase (m_runs lm ! r) = Acquiring")
  case True
  then show ?thesis using advance_less [OF inv r(1) True] r(1) by (intro exI [of _ "Advance r"]) (simp add: own_step_def)
next
  case False
  have "0 < weights lm ! r" using r(1,2) by (simp add: nth_weights weight_zero [symmetric])
  then have "sum_list (weights (finish_run r lm)) < sum_list (weights lm)"
    unfolding finish_run_ok(2) [OF inv_more [OF inv empty_subsetI] r(1,3)]
    using sum_list_less [of r "weights lm" 0] r(1) nth_weights(2) [of lm] by simp
  moreover consider "r_phase (m_runs lm ! r) = Rejected" | "r_phase (m_runs lm ! r) = Operating"
    using r False by (cases "r_phase (m_runs lm ! r)") (auto simp: is_waiting_def)
  then have "lock_step (Unwind r) lm = finish_run r lm \<or> lock_step (Operation_Ends r) lm = finish_run r lm"
    using r(1) by cases simp_all
  moreover have "own_step (Unwind r)" "own_step (Operation_Ends r)" by (simp_all add: own_step_def)
  ultimately show ?thesis by metis
qed

lemma can_finish:
  assumes "locks_inv {} {} {} lm"
  shows "\<exists>steps. list_all own_step steps \<and> list_all (\<lambda>x. r_phase x = Finished) (m_runs (fold lock_step steps lm))"
  using assms
proof (induction "sum_list (weights lm)" arbitrary: lm rule: less_induct)
  case less
  show ?case
  proof (cases "\<exists>r < length (m_runs lm). r_phase (m_runs lm ! r) \<noteq> Finished")
    case False
    then show ?thesis by (intro exI [of _ "[]"]) (simp add: list_all_length)
  next
    case True
    then obtain e where e: "own_step e" "sum_list (weights (lock_step e lm)) < sum_list (weights lm)"
      using some_run_goes_on [OF less.prems] own_step_less [OF less.prems] by blast
    then obtain steps where "list_all own_step steps"
        "list_all (\<lambda>x. r_phase x = Finished) (m_runs (fold lock_step steps (lock_step e lm)))"
      using less.hyps [OF e(2) locks_step [OF less.prems]] by blast
    then show ?thesis using e(1) by (intro exI [of _ "e # steps"]) simp
  qed
qed

text \<open>C7: The locks never deadlock: from every state that runs, grants, aborts and releases can lead to,
  the runs can all be brought to their end by steps of their own (going on with their acquisition, ending
  their operation, unwinding a cancellation), with no abort and no new run needed.\<close>

theorem locks_never_deadlock:
  "\<exists>own. list_all own_step own
     \<and> list_all (\<lambda>x. r_phase x = Finished) (m_runs (fold lock_step own (run_locks steps)))"
  by (rule can_finish [OF inv_run_locks])

text \<open>When the first of a queue is a writer that is aborted while readers hold the lock, the readers behind it
  are not woken, although the lock is theirs to share: a reader that comes later is granted before them.\<close>

lemma overtaken_reader:
  "let lm = run_locks [Run [(''f'', Read)] None, Advance 0, Advance 0, Run [(''f'', Write)] (Some 0), Advance 1,
                       Run [(''f'', Read)] None, Advance 2, Abort 0, Run [(''f'', Read)] None, Advance 3]
   in r_phase (m_runs lm ! 2) = Waiting ''f'' 0 Read \<and> r_held (m_runs lm ! 3) = [(''f'', 0, Read)]"
  by code_simp

end
