(* ===== verification/ClientRequests.thy ===== *)
theory ClientRequests
  imports Prelude
begin

text \<open>
  The requests a runtime sends to its clients: \<open>RuntimeClientInteractionLifecycle\<close>
  (\<open>runtime-client-interaction-lifecycle.ts\<close>) and \<open>RuntimeClientRequestCoordinator\<close>
  (\<open>runtime-client-request_client-coordinator.ts\<close>). Interactions and attachments are objects with identity and
  live in heaps; the identity of an attachment's set of methods is a number. Everything is synchronous,
  so an operation is one step; a responder's \<open>send\<close> is taken not to call back into the coordinator and
  the clock to stand still during a step. Schemas, the clock, drawn identifiers and whether a transport
  still sends come in with the steps. A promise is the list of the calls that settle it, of which it takes
  the first.
\<close>

section \<open>Data\<close>

text \<open>Texts of errors are constructors.\<close>

datatype request_error =
    AlreadyConnected
  | KeyExists
  | MethodUnsupported
  | SchemaMissing
  | ParamsInvalid
  | DeadlineMismatch
  | InteractionIdInvalid
  | TimestampInvalid
  | NoTarget
  | NotNegotiated
  | SendFailed
  | ClientError string
  | Uncorrelated "string option"
  | InvalidResult

datatype cancel_reason = Given string | DefaultReason | ConnectionClosed | RequestExpired | Redelivered

record delivery =
  d_id :: nat
  d_key :: string
  d_attachment :: nat

datatype settlement = Response | CancelledBy cancel_reason | ExpiredAt string | FailedWith request_error

datatype interaction_state = Waiting | Delivered delivery | Settled settlement

datatype 'v promise_call = Resolve 'v | Reject request_error | RejectCancelled cancel_reason | RejectExpired string

text \<open>A deadline is kept with the moment \<open>Date.parse\<close> reads from it.\<close>

record ('p, 'v) interaction =
  x_key :: string
  x_method :: string
  x_params :: 'p
  x_scope :: string
  x_responder :: string
  x_version :: string
  x_id :: string
  x_approval :: "string option"
  x_expires :: "(string \<times> int) option"
  x_state :: interaction_state
  x_timer :: "int option"
  x_calls :: "'v promise_call list"

record responder_attachment =
  t_responder :: string
  t_scope :: string
  t_accepted :: "string list"
  t_set :: nat
  t_ack :: bool

datatype 'p outgoing =
    SendRequest nat string 'p
  | SendCancel string string nat "string option" cancel_reason

datatype rpc_id = NullId | DeliveryId nat | ForeignId string

datatype 'v client_reply = ResultReply 'v | ErrorReply string

datatype 'v incoming = NotAReply | Reply rpc_id "'v client_reply"

record ('p, 'v) coordinator =
  c_attachments :: "responder_attachment list"
  c_responders :: "string \<Rightarrow> nat option"
  c_heap :: "('p, 'v) interaction list"
  c_interactions :: "(string \<times> nat) list"
  c_deliveries :: "nat \<Rightarrow> delivery option"
  c_next :: nat
  c_sets :: nat
  c_sent :: "(nat \<times> 'p outgoing) list"
  c_closed :: "nat list"

definition newCoordinator :: "('p, 'v) coordinator" where
  "newCoordinator = \<lparr>c_attachments = [], c_responders = (\<lambda>_. None), c_heap = [], c_interactions = [],
     c_deliveries = (\<lambda>_. None), c_next = 0, c_sets = 0, c_sent = [], c_closed = []\<rparr>"

text \<open>What a step finds: the clock, the transports that throw on \<open>send\<close>, and the protocol's registries.\<close>

record ('p, 'v) env =
  e_now :: int
  e_gone :: "nat \<Rightarrow> bool"
  e_available :: "string \<Rightarrow> string \<Rightarrow> bool"
  e_defined :: "string \<Rightarrow> string \<Rightarrow> bool"
  e_negotiates :: "string \<Rightarrow> bool"
  e_params :: "string \<Rightarrow> string \<Rightarrow> 'p \<Rightarrow> 'p option"
  e_result :: "string \<Rightarrow> string \<Rightarrow> 'v \<Rightarrow> 'v option"
  e_expires_in :: "'p \<Rightarrow> string option"
  e_id_in :: "'p \<Rightarrow> string option"
  e_id_ok :: "string \<Rightarrow> bool"
  e_timestamp :: "string \<Rightarrow> int option"
  e_cancel_ok :: "string \<Rightarrow> string option \<Rightarrow> bool"

fun is_settled :: "interaction_state \<Rightarrow> bool" where
  "is_settled (Settled s) = True"
| "is_settled _ = False"

definition upd_x :: "nat \<Rightarrow> (('p, 'v) interaction \<Rightarrow> ('p, 'v) interaction) \<Rightarrow> ('p, 'v) coordinator \<Rightarrow> ('p, 'v) coordinator" where
  "upd_x i f c = c\<lparr>c_heap := (c_heap c)[i := f (c_heap c ! i)]\<rparr>"

definition upd_t :: "nat \<Rightarrow> (responder_attachment \<Rightarrow> responder_attachment) \<Rightarrow> ('p, 'v) coordinator \<Rightarrow> ('p, 'v) coordinator" where
  "upd_t a f c = c\<lparr>c_attachments := (c_attachments c)[a := f (c_attachments c ! a)]\<rparr>"

section \<open>The lifecycle of an interaction\<close>

definition get_interaction :: "string \<Rightarrow> ('p, 'v) coordinator \<Rightarrow> nat option" where
  "get_interaction key c = map_of (c_interactions c) key"

definition pending_interactions :: "('p, 'v) coordinator \<Rightarrow> nat list" where
  "pending_interactions c = map snd (c_interactions c)"

text \<open>\<open>register\<close>, after the coordinator's own check of the key.\<close>

definition register_interaction :: "('p, 'v) interaction \<Rightarrow> ('p, 'v) coordinator \<Rightarrow> ('p, 'v) coordinator \<times> nat" where
  "register_interaction x c =
     (c\<lparr>c_heap := c_heap c @ [x], c_interactions := c_interactions c @ [(x_key x, length (c_heap c))]\<rparr>,
      length (c_heap c))"

text \<open>\<open>getByDeliveryId\<close>: a delivery that is not the current one of its interaction is forgotten.\<close>

definition getByDeliveryId :: "nat \<Rightarrow> ('p, 'v) coordinator \<Rightarrow> ('p, 'v) coordinator \<times> (nat \<times> delivery) option" where
  "getByDeliveryId d c =
     (case c_deliveries c d of
        None \<Rightarrow> (c, None)
      | Some del \<Rightarrow>
          (case get_interaction (d_key del) c of
             None \<Rightarrow> (c\<lparr>c_deliveries := (c_deliveries c)(d := None)\<rparr>, None)
           | Some i \<Rightarrow>
               if x_state (c_heap c ! i) = Delivered del then (c, Some (i, del))
               else (c\<lparr>c_deliveries := (c_deliveries c)(d := None)\<rparr>, None)))"

definition activateDelivery :: "nat \<Rightarrow> nat \<Rightarrow> ('p, 'v) coordinator \<Rightarrow> ('p, 'v) coordinator \<times> delivery option" where
  "activateDelivery i a c =
     (let x = c_heap c ! i in
      if x_state x \<noteq> Waiting \<or> get_interaction (x_key x) c \<noteq> Some i then (c, None)
      else let d = \<lparr>d_id = c_next c, d_key = x_key x, d_attachment = a\<rparr>
           in ((upd_x i (\<lambda>x. x\<lparr>x_state := Delivered d\<rparr>) c)
                 \<lparr>c_deliveries := (c_deliveries c)(c_next c \<mapsto> d), c_next := c_next c + 1\<rparr>, Some d))"

definition beginDelivery :: "nat \<Rightarrow> nat \<Rightarrow> ('p, 'v) coordinator \<Rightarrow> ('p, 'v) coordinator \<times> delivery option" where
  "beginDelivery i a c = (if x_state (c_heap c ! i) \<noteq> Waiting then (c, None) else activateDelivery i a c)"

definition replaceDelivery ::
  "nat \<Rightarrow> nat \<Rightarrow> ('p, 'v) coordinator \<Rightarrow> ('p, 'v) coordinator \<times> (delivery \<times> delivery) option" where
  "replaceDelivery i a c =
     (case x_state (c_heap c ! i) of
        Delivered previous \<Rightarrow>
          (case activateDelivery i a
                  ((upd_x i (\<lambda>x. x\<lparr>x_state := Waiting\<rparr>) c)
                     \<lparr>c_deliveries := (c_deliveries c)(d_id previous := None)\<rparr>) of
             (c', None) \<Rightarrow> (c', None)
           | (c', Some d) \<Rightarrow> (c', Some (previous, d)))
      | _ \<Rightarrow> (c, None))"

text \<open>\<open>settle\<close>: whether it settled, and the delivery it retired.\<close>

definition settle :: "nat \<Rightarrow> settlement \<Rightarrow> ('p, 'v) coordinator \<Rightarrow> ('p, 'v) coordinator \<times> bool \<times> delivery option" where
  "settle i result c =
     (let x = c_heap c ! i in
      if is_settled (x_state x) \<or> get_interaction (x_key x) c \<noteq> Some i then (c, False, None)
      else let retired = (case x_state x of Delivered d \<Rightarrow> Some d | _ \<Rightarrow> None)
           in ((upd_x i (\<lambda>x. x\<lparr>x_timer := None, x_state := Settled result\<rparr>) c)
                 \<lparr>c_deliveries := (case retired of None \<Rightarrow> c_deliveries c | Some d \<Rightarrow> (c_deliveries c)(d_id d := None)),
                  c_interactions := filter (\<lambda>ki. fst ki \<noteq> x_key x) (c_interactions c)\<rparr>,
               True, retired))"

section \<open>Settling and sending\<close>

definition call :: "nat \<Rightarrow> 'v promise_call \<Rightarrow> ('p, 'v) coordinator \<Rightarrow> ('p, 'v) coordinator" where
  "call i k c = upd_x i (\<lambda>x. x\<lparr>x_calls := x_calls x @ [k]\<rparr>) c"

definition sends :: "nat \<Rightarrow> 'p outgoing \<Rightarrow> ('p, 'v) coordinator \<Rightarrow> ('p, 'v) coordinator" where
  "sends a m c = c\<lparr>c_sent := c_sent c @ [(a, m)]\<rparr>"

definition rejectInteraction :: "nat \<Rightarrow> request_error \<Rightarrow> ('p, 'v) coordinator \<Rightarrow> ('p, 'v) coordinator" where
  "rejectInteraction i err c =
     (case settle i (FailedWith err) c of
        (c', True, _) \<Rightarrow> call i (Reject err) c'
      | (c', False, _) \<Rightarrow> c')"

definition sendCancellation ::
  "('p, 'v) env \<Rightarrow> nat \<Rightarrow> delivery option \<Rightarrow> cancel_reason \<Rightarrow> ('p, 'v) coordinator \<Rightarrow> ('p, 'v) coordinator" where
  "sendCancellation e i retired cancel_reason c =
     (case retired of
        None \<Rightarrow> c
      | Some d \<Rightarrow>
          (let x = c_heap c ! i in
           if \<not> e_cancel_ok e (x_version x) (x_approval x) then c
           else if e_gone e (d_attachment d) then c
           else sends (d_attachment d) (SendCancel (x_version x) (x_id x) (d_id d) (x_approval x) cancel_reason) c))"

definition cancel_interaction :: "('p, 'v) env \<Rightarrow> cancel_reason \<Rightarrow> nat \<Rightarrow> ('p, 'v) coordinator \<Rightarrow> ('p, 'v) coordinator" where
  "cancel_interaction e cancel_reason i c =
     (case settle i (CancelledBy cancel_reason) c of
        (c', True, retired) \<Rightarrow> call i (RejectCancelled cancel_reason) (sendCancellation e i retired cancel_reason c')
      | (c', False, _) \<Rightarrow> c')"

definition isExpired :: "('p, 'v) env \<Rightarrow> ('p, 'v) interaction \<Rightarrow> bool" where
  "isExpired e x = (case x_expires x of None \<Rightarrow> False | Some (_, ms) \<Rightarrow> ms \<le> e_now e)"

definition expire :: "('p, 'v) env \<Rightarrow> nat \<Rightarrow> ('p, 'v) coordinator \<Rightarrow> ('p, 'v) coordinator" where
  "expire e i c =
     (case x_expires (c_heap c ! i) of
        None \<Rightarrow> c
      | Some (expiresAt, _) \<Rightarrow>
          if get_interaction (x_key (c_heap c ! i)) c \<noteq> Some i then c
          else (case settle i (ExpiredAt expiresAt) c of
                  (c', True, retired) \<Rightarrow>
                    call i (RejectExpired expiresAt) (sendCancellation e i retired RequestExpired c')
                | (c', False, _) \<Rightarrow> c'))"

definition MAX_TIMEOUT_DELAY_MS :: int where
  "MAX_TIMEOUT_DELAY_MS = 2147483647"

definition scheduleExpiration :: "('p, 'v) env \<Rightarrow> nat \<Rightarrow> ('p, 'v) coordinator \<Rightarrow> ('p, 'v) coordinator" where
  "scheduleExpiration e i c =
     (case x_expires (c_heap c ! i) of
        None \<Rightarrow> c
      | Some (_, expiresAtMs) \<Rightarrow>
          (let remainingMs = expiresAtMs - e_now e in
           if remainingMs \<le> 0 then expire e i c
           else upd_x i (\<lambda>x. x\<lparr>x_timer := Some (e_now e + min remainingMs MAX_TIMEOUT_DELAY_MS)\<rparr>) c))"

definition expiration_fires :: "('p, 'v) env \<Rightarrow> nat \<Rightarrow> ('p, 'v) coordinator \<Rightarrow> ('p, 'v) coordinator" where
  "expiration_fires e i c =
     (let c' = upd_x i (\<lambda>x. x\<lparr>x_timer := None\<rparr>) c in
      if get_interaction (x_key (c_heap c ! i)) c' \<noteq> Some i then c'
      else if isExpired e (c_heap c' ! i) then expire e i c'
      else scheduleExpiration e i c')"

definition sendDelivery :: "('p, 'v) env \<Rightarrow> nat \<Rightarrow> delivery \<Rightarrow> ('p, 'v) coordinator \<Rightarrow> ('p, 'v) coordinator" where
  "sendDelivery e i d c =
     (if e_gone e (d_attachment d) then rejectInteraction i SendFailed c
      else sends (d_attachment d) (SendRequest (d_id d) (x_method (c_heap c ! i)) (x_params (c_heap c ! i))) c)"

definition deliver :: "('p, 'v) env \<Rightarrow> nat \<Rightarrow> ('p, 'v) coordinator \<Rightarrow> ('p, 'v) coordinator" where
  "deliver e i c =
     (let x = c_heap c ! i in
      if isExpired e x then expire e i c
      else (case c_responders c (x_responder x) of
              None \<Rightarrow> rejectInteraction i NoTarget c
            | Some a \<Rightarrow>
                (let t = c_attachments c ! a in
                 if t_scope t \<noteq> x_scope x then rejectInteraction i NoTarget c
                 else if \<not> t_ack t then c
                 else if x_method x \<notin> set (t_accepted t) then rejectInteraction i NotNegotiated c
                 else (case beginDelivery i a c of
                         (c', None) \<Rightarrow> c'
                       | (c', Some d) \<Rightarrow> sendDelivery e i d c'))))"

section \<open>Operations of the coordinator\<close>

definition attachResponder ::
  "string \<Rightarrow> string \<Rightarrow> string list \<Rightarrow> bool \<Rightarrow> ('p, 'v) coordinator \<Rightarrow> request_error + ('p, 'v) coordinator \<times> nat" where
  "attachResponder responder scope methods ack c =
     (case c_responders c responder of
        Some _ \<Rightarrow> Inl AlreadyConnected
      | None \<Rightarrow>
          Inr (c\<lparr>c_attachments := c_attachments c @
                    [\<lparr>t_responder = responder, t_scope = scope, t_accepted = methods, t_set = c_sets c, t_ack = ack\<rparr>],
                  c_responders := (c_responders c)(responder \<mapsto> length (c_attachments c)), c_sets := c_sets c + 1\<rparr>,
               length (c_attachments c)))"

record request_options =
  o_key :: string
  o_scope :: string
  o_responder :: string
  o_approval :: "string option"
  o_expires :: "string option"
  o_version :: string

text \<open>\<open>request\<close>: the checks, in their order, and the interaction they let through. A protocol without
  interaction metadata gets a drawn identifier.\<close>

definition new_interaction ::
  "('p, 'v) env \<Rightarrow> string \<Rightarrow> 'p \<Rightarrow> request_options \<Rightarrow> string \<Rightarrow> ('p, 'v) coordinator \<Rightarrow> request_error + ('p, 'v) interaction" where
  "new_interaction e method params opt uuid c =
     (if get_interaction (o_key opt) c \<noteq> None then Inl KeyExists
      else if \<not> e_available e (o_version opt) method then Inl MethodUnsupported
      else if \<not> e_defined e (o_version opt) method then Inl SchemaMissing
      else (case e_params e (o_version opt) method params of
              None \<Rightarrow> Inl ParamsInvalid
            | Some parsed \<Rightarrow>
                if e_negotiates e (o_version opt) \<and> (o_expires opt = None \<or> e_expires_in e parsed \<noteq> o_expires opt)
                then Inl DeadlineMismatch
                else (case (if e_negotiates e (o_version opt) then e_id_in e parsed else Some uuid) of
                        None \<Rightarrow> Inl InteractionIdInvalid
                      | Some xid \<Rightarrow>
                          if \<not> e_id_ok e xid then Inl InteractionIdInvalid
                          else let x = \<lparr>x_key = o_key opt, x_method = method, x_params = parsed, x_scope = o_scope opt,
                                        x_responder = o_responder opt, x_version = o_version opt, x_id = xid,
                                        x_approval = o_approval opt, x_expires = None, x_state = Waiting,
                                        x_timer = None, x_calls = []\<rparr>
                               in (case o_expires opt of
                                     None \<Rightarrow> Inr x
                                   | Some s \<Rightarrow>
                                       (case e_timestamp e s of
                                          None \<Rightarrow> Inl TimestampInvalid
                                        | Some ms \<Rightarrow> Inr (x\<lparr>x_expires := Some (s, ms)\<rparr>))))))"

definition request_client ::
  "('p, 'v) env \<Rightarrow> string \<Rightarrow> 'p \<Rightarrow> request_options \<Rightarrow> string \<Rightarrow> ('p, 'v) coordinator \<Rightarrow> request_error + ('p, 'v) coordinator \<times> nat" where
  "request_client e method params opt uuid c =
     (case new_interaction e method params opt uuid c of
        Inl err \<Rightarrow> Inl err
      | Inr x \<Rightarrow>
          (case register_interaction x c of
             (c1, i) \<Rightarrow>
               let c2 = scheduleExpiration e i c1
               in Inr (if get_interaction (x_key x) c2 = Some i then deliver e i c2 else c2, i)))"

definition fail_one :: "nat \<Rightarrow> request_error \<Rightarrow> nat \<Rightarrow> ('p, 'v) coordinator \<Rightarrow> ('p, 'v) coordinator" where
  "fail_one a err i c =
     (let x = c_heap c ! i; t = c_attachments c ! a in
      if x_responder x \<noteq> t_responder t \<or> x_scope x \<noteq> t_scope t
         \<or> (case x_state x of Delivered d \<Rightarrow> d_attachment d \<noteq> a | _ \<Rightarrow> False)
      then c else rejectInteraction i err c)"

definition failAttachment :: "nat \<Rightarrow> request_error \<Rightarrow> ('p, 'v) coordinator \<Rightarrow> ('p, 'v) coordinator" where
  "failAttachment a err c = fold (fail_one a err) (pending_interactions c) c"

definition settle_response ::
  "('p, 'v) env \<Rightarrow> nat \<Rightarrow> 'v client_reply \<Rightarrow> ('p, 'v) coordinator \<Rightarrow> ('p, 'v) coordinator" where
  "settle_response e i client_reply c =
     (case client_reply of
        ErrorReply err \<Rightarrow> rejectInteraction i (ClientError err) c
      | ResultReply v \<Rightarrow>
          (case settle i Response c of
             (c', True, _) \<Rightarrow>
               call i (case e_result e (x_version (c_heap c ! i)) (x_method (c_heap c ! i)) v of
                         Some r \<Rightarrow> Resolve r | None \<Rightarrow> Reject InvalidResult) c'
           | (c', False, _) \<Rightarrow> c'))"

definition handleResponseFromAttachment ::
  "('p, 'v) env \<Rightarrow> nat \<Rightarrow> 'v incoming \<Rightarrow> ('p, 'v) coordinator \<Rightarrow> ('p, 'v) coordinator \<times> bool" where
  "handleResponseFromAttachment e a message c =
     (case message of
        NotAReply \<Rightarrow> (c, False)
      | Reply mid client_reply \<Rightarrow>
          (let responderId = t_responder (c_attachments c ! a) in
           if c_responders c responderId \<noteq> Some a then (c, False)
           else (case mid of
                   NullId \<Rightarrow>
                     (let c1 = failAttachment a (Uncorrelated (case client_reply of ErrorReply err \<Rightarrow> Some err | _ \<Rightarrow> None))
                                 (c\<lparr>c_responders := (c_responders c)(responderId := None)\<rparr>)
                      in (c1\<lparr>c_closed := c_closed c1 @ [a]\<rparr>, True))
                 | ForeignId _ \<Rightarrow> (c, False)
                 | DeliveryId d \<Rightarrow>
                     (case getByDeliveryId d c of
                        (c1, None) \<Rightarrow> (c1, False)
                      | (c1, Some (i, del)) \<Rightarrow>
                          if d_attachment del \<noteq> a then (c1, True)
                          else if t_scope (c_attachments c1 ! a) \<noteq> x_scope (c_heap c1 ! i) then (c1, True)
                          else if isExpired e (c_heap c1 ! i) then (expire e i c1, True)
                          else (settle_response e i client_reply c1, True)))))"

definition handleResponse ::
  "('p, 'v) env \<Rightarrow> string \<Rightarrow> 'v incoming \<Rightarrow> ('p, 'v) coordinator \<Rightarrow> ('p, 'v) coordinator \<times> bool" where
  "handleResponse e responderId message c =
     (case c_responders c responderId of
        Some a \<Rightarrow> handleResponseFromAttachment e a message c
      | None \<Rightarrow>
          (case message of
             NotAReply \<Rightarrow> (c, False)
           | Reply NullId _ \<Rightarrow> (c, True)
           | Reply (ForeignId _) _ \<Rightarrow> (c, False)
           | Reply (DeliveryId d) _ \<Rightarrow>
               (case getByDeliveryId d c of (c1, None) \<Rightarrow> (c1, False) | (c1, Some _) \<Rightarrow> (c1, True))))"

definition cancel :: "('p, 'v) env \<Rightarrow> string \<Rightarrow> string \<Rightarrow> ('p, 'v) coordinator \<Rightarrow> ('p, 'v) coordinator" where
  "cancel e key cancel_reason c =
     (case get_interaction key c of
        None \<Rightarrow> c
      | Some i \<Rightarrow> cancel_interaction e (if cancel_reason = [] then DefaultReason else Given cancel_reason) i c)"

definition cancelAllRequests :: "('p, 'v) env \<Rightarrow> string \<Rightarrow> ('p, 'v) coordinator \<Rightarrow> ('p, 'v) coordinator" where
  "cancelAllRequests e cancel_reason c = fold (\<lambda>i c. cancel e (x_key (c_heap c ! i)) cancel_reason c) (pending_interactions c) c"

definition detachResponder :: "('p, 'v) env \<Rightarrow> nat \<Rightarrow> ('p, 'v) coordinator \<Rightarrow> ('p, 'v) coordinator" where
  "detachResponder e a c =
     (let responderId = t_responder (c_attachments c ! a) in
      if c_responders c responderId \<noteq> Some a then c
      else fold (\<lambda>i c. if x_responder (c_heap c ! i) \<noteq> responderId then c else cancel_interaction e ConnectionClosed i c)
             (pending_interactions c) (c\<lparr>c_responders := (c_responders c)(responderId := None)\<rparr>))"

text \<open>The set of methods changes at once; the closure it returns, which opens the deliveries again, is known
  by the attachment and the set.\<close>

definition setServerRequestMethods ::
  "('p, 'v) env \<Rightarrow> nat \<Rightarrow> string list \<Rightarrow> string \<Rightarrow> ('p, 'v) coordinator \<Rightarrow> ('p, 'v) coordinator \<times> (nat \<times> nat) option" where
  "setServerRequestMethods e a methods cancel_reason c =
     (let t = c_attachments c ! a in
      if c_responders c (t_responder t) \<noteq> Some a then (c, None)
      else let removed = filter (\<lambda>m. m \<notin> set methods) (t_accepted t);
               c1 = (upd_t a (\<lambda>t. t\<lparr>t_accepted := methods, t_set := c_sets c, t_ack := False\<rparr>) c)\<lparr>c_sets := c_sets c + 1\<rparr>
           in (fold (\<lambda>i c. if x_responder (c_heap c ! i) \<noteq> t_responder t \<or> x_method (c_heap c ! i) \<notin> set removed
                            then c else cancel_interaction e (Given cancel_reason) i c) (pending_interactions c1) c1,
               Some (a, c_sets c)))"

definition commit_methods :: "('p, 'v) env \<Rightarrow> nat \<Rightarrow> nat \<Rightarrow> ('p, 'v) coordinator \<Rightarrow> ('p, 'v) coordinator" where
  "commit_methods e a st c =
     (let t = c_attachments c ! a in
      if c_responders c (t_responder t) \<noteq> Some a \<or> t_set t \<noteq> st then c
      else fold (\<lambda>i c. if x_responder (c_heap c ! i) = t_responder t \<and> x_state (c_heap c ! i) = Waiting
                        then deliver e i c else c)
             (pending_interactions c) (upd_t a (\<lambda>t. t\<lparr>t_ack := True\<rparr>) c))"

definition beginCapabilityNegotiation :: "nat \<Rightarrow> ('p, 'v) coordinator \<Rightarrow> ('p, 'v) coordinator" where
  "beginCapabilityNegotiation a c =
     (if c_responders c (t_responder (c_attachments c ! a)) \<noteq> Some a then c
      else (upd_t a (\<lambda>t. t\<lparr>t_accepted := [], t_set := c_sets c, t_ack := False\<rparr>) c)\<lparr>c_sets := c_sets c + 1\<rparr>)"

definition redeliver :: "('p, 'v) env \<Rightarrow> string \<Rightarrow> string \<Rightarrow> ('p, 'v) coordinator \<Rightarrow> ('p, 'v) coordinator \<times> bool" where
  "redeliver e key responderId c =
     (case get_interaction key c of
        None \<Rightarrow> (c, False)
      | Some i \<Rightarrow>
          (let x = c_heap c ! i in
           if (case c_responders c responderId of
                 None \<Rightarrow> True
               | Some a \<Rightarrow> x_responder x \<noteq> responderId \<or> t_scope (c_attachments c ! a) \<noteq> x_scope x
                   \<or> \<not> t_ack (c_attachments c ! a) \<or> x_method x \<notin> set (t_accepted (c_attachments c ! a))
                   \<or> isExpired e x)
           then (if isExpired e x then expire e i c else c, False)
           else (case replaceDelivery i (the (c_responders c responderId)) c of
                   (c1, None) \<Rightarrow> (c1, False)
                 | (c1, Some (previous, d)) \<Rightarrow>
                     (let c2 = sendCancellation e i (Some previous) Redelivered c1 in
                      case getByDeliveryId (d_id d) c2 of
                        (c3, active) \<Rightarrow>
                          if active \<noteq> Some (i, d) then (c3, False)
                          else if isExpired e (c_heap c3 ! i) then (expire e i c3, False)
                          else let c4 = sendDelivery e i d c3
                               in (c4, get_interaction (x_key x) c4 = Some i)))))"

section \<open>Projection of the pending interactions\<close>

text \<open>\<open>'u\<close> is what the schema of a user-input request reads from its parameters, \<open>'a\<close> that of an approval;
  the thread of either is projected out. A projection the protocol's schema rejects is thrown.\<close>

datatype ('a, 'u) pending_projection = ApprovalProjection string 'a | UserInputProjection 'u

record ('p, 'a, 'u) projector =
  j_approval :: "'p \<Rightarrow> 'a option"
  j_approval_thread :: "'a \<Rightarrow> string"
  j_input :: "'p \<Rightarrow> 'u option"
  j_input_thread :: "'u \<Rightarrow> string"
  j_ok :: "('a, 'u) pending_projection \<Rightarrow> bool"

definition APPROVAL_REQUEST :: string where
  "APPROVAL_REQUEST = ''approval.request''"

definition project_one :: "('p, 'a, 'u) projector \<Rightarrow> string \<Rightarrow> ('p, 'v) interaction \<Rightarrow> ('a, 'u) pending_projection option" where
  "project_one j threadId x =
     (if x_method x = APPROVAL_REQUEST
      then (case j_approval j (x_params x) of
              None \<Rightarrow> None
            | Some p \<Rightarrow> if j_approval_thread j p \<noteq> threadId then None else Some (ApprovalProjection (x_id x) p))
      else (case j_input j (x_params x) of
              None \<Rightarrow> None
            | Some p \<Rightarrow> if j_input_thread j p \<noteq> threadId then None else Some (UserInputProjection p)))"

definition projectable :: "('p, 'v) env \<Rightarrow> nat \<Rightarrow> ('p, 'v) coordinator \<Rightarrow> nat \<Rightarrow> bool" where
  "projectable e a c i \<longleftrightarrow>
     (let x = c_heap c ! i; t = c_attachments c ! a in
      x_responder x = t_responder t \<and> x_scope x = t_scope t
      \<and> (case x_state x of Delivered d \<Rightarrow> d_attachment d = a | _ \<Rightarrow> True)
      \<and> e_negotiates e (x_version x) \<and> x_method x \<in> set (t_accepted t))"

definition getPendingInteractionProjections ::
  "('p, 'v) env \<Rightarrow> ('p, 'a, 'u) projector \<Rightarrow> nat \<Rightarrow> string \<Rightarrow> ('p, 'v) coordinator \<Rightarrow> ('a, 'u) pending_projection list option" where
  "getPendingInteractionProjections e j a threadId c =
     (if c_responders c (t_responder (c_attachments c ! a)) \<noteq> Some a \<or> \<not> t_ack (c_attachments c ! a) then Some []
      else let ps = List.map_filter (\<lambda>i. project_one j threadId (c_heap c ! i)) (filter (projectable e a c) (pending_interactions c))
           in if list_all (j_ok j) ps then Some ps else None)"

section \<open>Steps\<close>

datatype ('p, 'v) client_request_event =
    Attach string string "string list" bool
  | Detach nat
  | Request string 'p request_options string
  | Response_From nat "'v incoming"
  | Response_Of string "'v incoming"
  | Cancel string string
  | Cancel_All string
  | Set_Methods nat "string list" string
  | Commit nat nat
  | Begin_Negotiation nat
  | Redeliver string string
  | Timer nat

text \<open>Closures exist only for attachments that were made; a timer that is not set does not fire.\<close>

fun client_request_step :: "('p, 'v) env \<Rightarrow> ('p, 'v) client_request_event \<Rightarrow> ('p, 'v) coordinator \<Rightarrow> ('p, 'v) coordinator" where
  "client_request_step e (Attach r s ms ack) c = (case attachResponder r s ms ack c of Inl _ \<Rightarrow> c | Inr (c', _) \<Rightarrow> c')"
| "client_request_step e (Detach a) c = (if a < length (c_attachments c) then detachResponder e a c else c)"
| "client_request_step e (Request m p opt uuid) c = (case request_client e m p opt uuid c of Inl _ \<Rightarrow> c | Inr (c', _) \<Rightarrow> c')"
| "client_request_step e (Response_From a msg) c =
     (if a < length (c_attachments c) then fst (handleResponseFromAttachment e a msg c) else c)"
| "client_request_step e (Response_Of r msg) c = fst (handleResponse e r msg c)"
| "client_request_step e (Cancel key cancel_reason) c = cancel e key cancel_reason c"
| "client_request_step e (Cancel_All cancel_reason) c = cancelAllRequests e cancel_reason c"
| "client_request_step e (Set_Methods a ms cancel_reason) c =
     (if a < length (c_attachments c) then fst (setServerRequestMethods e a ms cancel_reason c) else c)"
| "client_request_step e (Commit a st) c = (if a < length (c_attachments c) then commit_methods e a st c else c)"
| "client_request_step e (Begin_Negotiation a) c =
     (if a < length (c_attachments c) then beginCapabilityNegotiation a c else c)"
| "client_request_step e (Redeliver key r) c = fst (redeliver e key r c)"
| "client_request_step e (Timer i) c =
     (if i < length (c_heap c) \<and> x_timer (c_heap c ! i) \<noteq> None then expiration_fires e i c else c)"

definition run_client_requests :: "(('p, 'v) env \<times> ('p, 'v) client_request_event) list \<Rightarrow> ('p, 'v) coordinator" where
  "run_client_requests steps = fold (\<lambda>(e, s). client_request_step e s) steps newCoordinator"

end
