(* ===== verification/ClientRequestsInv.thy ===== *)
theory ClientRequestsInv
  imports ClientRequests
begin

text \<open>
  What the client-request coordinator promises over every sequence of steps: the maps of interactions and
  deliveries agree with the interactions' states, every request is settled exactly once and until then is
  with the one client it was meant for, only that client's answer resolves it, and a deadline is never
  passed unnoticed.
\<close>

section \<open>The invariant\<close>

definition map_ok :: "('p, 'v) coordinator \<Rightarrow> bool" where
  "map_ok c \<longleftrightarrow> distinct (map fst (c_interactions c))
     \<and> (\<forall>k i. (k, i) \<in> set (c_interactions c) \<longrightarrow> i < length (c_heap c) \<and> x_key (c_heap c ! i) = k
          \<and> \<not> is_settled (x_state (c_heap c ! i)) \<and> x_calls (c_heap c ! i) = [])"

definition done_ok :: "('p, 'v) coordinator \<Rightarrow> bool" where
  "done_ok c \<longleftrightarrow> (\<forall>i < length (c_heap c). i \<notin> set (pending_interactions c) \<longrightarrow>
     is_settled (x_state (c_heap c ! i)) \<and> length (x_calls (c_heap c ! i)) = 1 \<and> x_timer (c_heap c ! i) = None)"

definition deliveries_ok :: "('p, 'v) coordinator \<Rightarrow> bool" where
  "deliveries_ok c \<longleftrightarrow>
     (\<forall>n d. c_deliveries c n = Some d \<longleftrightarrow>
        d_id d = n \<and> n < c_next c \<and> (\<exists>i \<in> set (pending_interactions c). x_state (c_heap c ! i) = Delivered d))
     \<and> (\<forall>i \<in> set (pending_interactions c). \<forall>d. x_state (c_heap c ! i) = Delivered d \<longrightarrow> d_key d = x_key (c_heap c ! i) \<and> d_id d < c_next c)
     \<and> (\<forall>i \<in> set (pending_interactions c). \<forall>j \<in> set (pending_interactions c). \<forall>d d'. x_state (c_heap c ! i) = Delivered d \<longrightarrow>
          x_state (c_heap c ! j) = Delivered d' \<longrightarrow> d_id d = d_id d' \<longrightarrow> i = j)"

definition responders_ok :: "('p, 'v) coordinator \<Rightarrow> bool" where
  "responders_ok c \<longleftrightarrow> (\<forall>r a. c_responders c r = Some a \<longrightarrow>
     a < length (c_attachments c) \<and> t_responder (c_attachments c ! a) = r)"

text \<open>Where an interaction is: it waits for the capabilities of the attached client, or was sent to it.\<close>

definition at_home :: "('p, 'v) coordinator \<Rightarrow> nat \<Rightarrow> bool" where
  "at_home c i \<longleftrightarrow>
     (\<exists>a. c_responders c (x_responder (c_heap c ! i)) = Some a
        \<and> t_scope (c_attachments c ! a) = x_scope (c_heap c ! i)
        \<and> (x_state (c_heap c ! i) = Waiting \<and> \<not> t_ack (c_attachments c ! a)
           \<or> (\<exists>d. x_state (c_heap c ! i) = Delivered d \<and> d_attachment d = a
                \<and> (a, SendRequest (d_id d) (x_method (c_heap c ! i)) (x_params (c_heap c ! i))) \<in> set (c_sent c))))"

definition armed :: "('p, 'v) interaction \<Rightarrow> bool" where
  "armed x \<longleftrightarrow> (\<forall>s ms. x_expires x = Some (s, ms) \<longrightarrow> (\<exists>due. x_timer x = Some due \<and> due \<le> ms))"

definition places_ok :: "nat set \<Rightarrow> nat set \<Rightarrow> ('p, 'v) coordinator \<Rightarrow> bool" where
  "places_ok S D c \<longleftrightarrow> (\<forall>i \<in> set (pending_interactions c). (i \<notin> S \<longrightarrow> at_home c i) \<and> (i \<notin> D \<longrightarrow> armed (c_heap c ! i)))"

definition cr_ok :: "nat set \<Rightarrow> nat set \<Rightarrow> ('p, 'v) coordinator \<Rightarrow> bool" where
  "cr_ok S D c \<longleftrightarrow> map_ok c \<and> done_ok c \<and> deliveries_ok c \<and> responders_ok c \<and> places_ok S D c"

lemma cr_okD:
  assumes "cr_ok S D c"
  shows "map_ok c" "done_ok c" "deliveries_ok c" "responders_ok c" "places_ok S D c"
  using assms by (simp_all add: cr_ok_def)

lemma pendingD:
  assumes "map_ok c" and "i \<in> set (pending_interactions c)"
  shows "i < length (c_heap c)" "(x_key (c_heap c ! i), i) \<in> set (c_interactions c)"
    "\<not> is_settled (x_state (c_heap c ! i))" "x_calls (c_heap c ! i) = []"
    "get_interaction (x_key (c_heap c ! i)) c = Some i"
proof -
  obtain k where k: "(k, i) \<in> set (c_interactions c)" using assms(2) unfolding pending_interactions_def by auto
  then show "i < length (c_heap c)" "\<not> is_settled (x_state (c_heap c ! i))" "x_calls (c_heap c ! i) = []"
    and e: "(x_key (c_heap c ! i), i) \<in> set (c_interactions c)"
    using assms(1) unfolding map_ok_def by metis+
  show "get_interaction (x_key (c_heap c ! i)) c = Some i"
    unfolding get_interaction_def by (rule map_of_is_SomeI [OF _ e]) (use assms(1) map_ok_def in blast)
qed

lemma get_pending:
  assumes "map_ok c" and "get_interaction k c = Some i"
  shows "i \<in> set (pending_interactions c)" "x_key (c_heap c ! i) = k"
proof -
  have mem: "(k, i) \<in> set (c_interactions c)" using assms(2) by (simp add: get_interaction_def map_of_SomeD)
  show "x_key (c_heap c ! i) = k" using mem assms(1) unfolding map_ok_def by blast
  show "i \<in> set (pending_interactions c)" using mem unfolding pending_interactions_def by (metis image_eqI list.set_map snd_conv)
qed

lemma places_okD:
  assumes "places_ok S D c" and "i \<in> set (pending_interactions c)"
  shows "i \<notin> S \<Longrightarrow> at_home c i" "i \<notin> D \<Longrightarrow> armed (c_heap c ! i)"
  using assms unfolding places_ok_def by blast+

section \<open>Closing an interaction\<close>

definition live :: "nat \<Rightarrow> ('p, 'v) coordinator \<Rightarrow> bool" where
  "live i c \<longleftrightarrow> \<not> is_settled (x_state (c_heap c ! i)) \<and> get_interaction (x_key (c_heap c ! i)) c = Some i"

lemma live_pending: "map_ok c \<Longrightarrow> live i c \<longleftrightarrow> i \<in> set (pending_interactions c)"
  using pendingD get_pending unfolding live_def by blast

definition close :: "nat \<Rightarrow> settlement \<Rightarrow> 'v promise_call \<Rightarrow> ('p, 'v) coordinator \<Rightarrow> ('p, 'v) coordinator" where
  "close i s k c =
     (let x = c_heap c ! i in
      (upd_x i (\<lambda>x. x\<lparr>x_timer := None, x_state := Settled s, x_calls := x_calls x @ [k]\<rparr>) c)
        \<lparr>c_deliveries := (case x_state x of Delivered d \<Rightarrow> (c_deliveries c)(d_id d := None) | _ \<Rightarrow> c_deliveries c),
         c_interactions := filter (\<lambda>ki. fst ki \<noteq> x_key x) (c_interactions c)\<rparr>)"

definition more_sent :: "('p, 'v) coordinator \<Rightarrow> ('p, 'v) coordinator \<Rightarrow> bool" where
  "more_sent c c' \<longleftrightarrow> (\<exists>ms. c' = c\<lparr>c_sent := c_sent c @ ms\<rparr>)"

definition closes :: "nat \<Rightarrow> 'v promise_call \<Rightarrow> ('p, 'v) coordinator \<Rightarrow> ('p, 'v) coordinator \<Rightarrow> bool" where
  "closes i k c c' \<longleftrightarrow> (if live i c then \<exists>s. more_sent (close i s k c) c' else c' = c)"

lemma more_sent_refl [simp]: "more_sent c c"
  unfolding more_sent_def by (rule exI [of _ "[]"]) simp

lemma sendCancellation_sent: "more_sent c (sendCancellation e i d r c)"
proof -
  have "more_sent c (sends a m c)" for a m unfolding more_sent_def sends_def by blast
  then show ?thesis by (simp add: sendCancellation_def Let_def split: option.split)
qed

lemma settle_dead: "\<not> live i c \<Longrightarrow> settle i s c = (c, False, None)"
  by (simp add: settle_def live_def)

lemma settle_live:
  assumes "live i c"
  shows "\<exists>c' r. settle i s c = (c', True, r) \<and> (\<forall>k. call i k c' = close i s k c)"
proof (intro exI conjI allI)
  show "settle i s c = (fst (settle i s c), True, case x_state (c_heap c ! i) of Delivered d \<Rightarrow> Some d | _ \<Rightarrow> None)"
    using assms by (simp add: settle_def live_def Let_def)
  show "call i k (fst (settle i s c)) = close i s k c" for k
    using assms
    by (cases c; cases "i < length (c_heap c)"; cases "x_state (c_heap c ! i)")
      (simp_all add: settle_def live_def Let_def call_def close_def upd_x_def list_update_beyond)
qed

lemma more_sent_call: "more_sent c c' \<Longrightarrow> more_sent (call i k c) (call i k c')"
  unfolding more_sent_def call_def upd_x_def by (cases c) auto

lemma closes_reject: "closes i (Reject err) c (rejectInteraction i err c)"
proof (cases "live i c")
  case True
  obtain c' r where "settle i (FailedWith err) c = (c', True, r)" "\<forall>k. call i k c' = close i (FailedWith err) k c"
    using settle_live [OF True] by blast
  then show ?thesis using True by (auto simp: rejectInteraction_def closes_def intro!: exI [of _ "FailedWith err"])
qed (simp add: closes_def rejectInteraction_def settle_dead)

lemma closes_cancel: "closes i (RejectCancelled r) c (cancel_interaction e r i c)"
proof (cases "live i c")
  case True
  obtain c' d where "settle i (CancelledBy r) c = (c', True, d)" "\<forall>k. call i k c' = close i (CancelledBy r) k c"
    using settle_live [OF True] by blast
  then show ?thesis
    using True more_sent_call [OF sendCancellation_sent [of c' e i d r], of i "RejectCancelled r"]
    by (auto simp: cancel_interaction_def closes_def intro!: exI [of _ "CancelledBy r"])
qed (simp add: closes_def cancel_interaction_def settle_dead)

lemma closes_expire:
  assumes "x_expires (c_heap c ! i) = Some (s, ms)"
  shows "closes i (RejectExpired s) c (expire e i c)"
proof (cases "live i c")
  case True
  obtain c' d where "settle i (ExpiredAt s) c = (c', True, d)" "\<forall>k. call i k c' = close i (ExpiredAt s) k c"
    using settle_live [OF True] by blast
  then show ?thesis
    using True assms more_sent_call [OF sendCancellation_sent [of c' e i d RequestExpired], of i "RejectExpired s"]
    by (auto simp: expire_def closes_def live_def intro!: exI [of _ "ExpiredAt s"])
qed (use assms in \<open>auto simp: closes_def expire_def settle_dead\<close>)

lemma closes_expired: "isExpired e (c_heap c ! i) \<Longrightarrow> \<exists>s. closes i (RejectExpired s) c (expire e i c)"
  using closes_expire unfolding isExpired_def by (metis case_prod_conv option.case_eq_if option.exhaust_sel surj_pair)

lemma closes_response: "\<exists>k. closes i k c (settle_response e i client_reply c)
    \<and> (\<forall>v. k = Resolve v \<longrightarrow> (\<exists>v'. client_reply = ResultReply v' \<and> e_result e (x_version (c_heap c ! i)) (x_method (c_heap c ! i)) v' = Some v))"
proof (cases client_reply)
  case (ErrorReply err)
  then show ?thesis using closes_reject [of i "ClientError err" c] by (auto simp: settle_response_def)
next
  case (ResultReply v')
  let ?k = "case e_result e (x_version (c_heap c ! i)) (x_method (c_heap c ! i)) v' of Some r \<Rightarrow> Resolve r | None \<Rightarrow> Reject InvalidResult"
  have "closes i ?k c (settle_response e i client_reply c)"
  proof (cases "live i c")
    case True
    obtain c' d where "settle i Response c = (c', True, d)" "\<forall>k. call i k c' = close i Response k c"
      using settle_live [OF True] by blast
    then show ?thesis using True ResultReply by (auto simp: settle_response_def closes_def intro!: exI [of _ Response])
  qed (simp add: closes_def settle_response_def ResultReply settle_dead)
  then show ?thesis using ResultReply by (intro exI [of _ ?k]) (auto split: option.splits)
qed

lemma upd_x_simps [simp]:
  "c_heap (upd_x i f c) = (c_heap c)[i := f (c_heap c ! i)]"
  "c_attachments (upd_x i f c) = c_attachments c" "c_responders (upd_x i f c) = c_responders c"
  "c_interactions (upd_x i f c) = c_interactions c" "c_deliveries (upd_x i f c) = c_deliveries c"
  "c_next (upd_x i f c) = c_next c" "c_sent (upd_x i f c) = c_sent c" "c_sets (upd_x i f c) = c_sets c"
  "c_attachments (upd_t a g c) = (c_attachments c)[a := g (c_attachments c ! a)]"
  "c_heap (upd_t a g c) = c_heap c" "c_responders (upd_t a g c) = c_responders c"
  "c_interactions (upd_t a g c) = c_interactions c" "c_deliveries (upd_t a g c) = c_deliveries c"
  "c_next (upd_t a g c) = c_next c" "c_sent (upd_t a g c) = c_sent c"
  by (simp_all add: upd_x_def upd_t_def)

lemma at_home_frame:
  assumes "at_home c j" and "c_responders c' = c_responders c" and "c_attachments c' = c_attachments c"
    and "c_heap c' ! j = c_heap c ! j" and "set (c_sent c) \<subseteq> set (c_sent c')"
  shows "at_home c' j"
  using assms(1,5) unfolding at_home_def assms(2-4) by blast

lemma close_simps:
  "c_attachments (close i s k c) = c_attachments c" "c_responders (close i s k c) = c_responders c"
  "c_next (close i s k c) = c_next c" "c_sent (close i s k c) = c_sent c"
  "c_heap (close i s k c) = (c_heap c)[i := (c_heap c ! i)\<lparr>x_timer := None, x_state := Settled s, x_calls := x_calls (c_heap c ! i) @ [k]\<rparr>]"
  "c_interactions (close i s k c) = filter (\<lambda>ki. fst ki \<noteq> x_key (c_heap c ! i)) (c_interactions c)"
  "c_deliveries (close i s k c) = (case x_state (c_heap c ! i) of Delivered d \<Rightarrow> (c_deliveries c)(d_id d := None) | _ \<Rightarrow> c_deliveries c)"
  by (simp_all add: close_def Let_def)

lemma map_okD:
  assumes "map_ok c"
  shows "distinct (map fst (c_interactions c))"
    and "(k, i) \<in> set (c_interactions c) \<Longrightarrow> x_key (c_heap c ! i) = k"
  using assms unfolding map_ok_def by blast+

lemma close_pending:
  assumes m: "map_ok c" and i: "i \<in> set (pending_interactions c)"
  shows "set (pending_interactions (close i s k c)) = set (pending_interactions c) - {i}"
proof -
  have "(k', j) \<in> set (c_interactions c) \<Longrightarrow> k' \<noteq> x_key (c_heap c ! i) \<longleftrightarrow> j \<noteq> i" for k' j
    using map_okD [OF m] pendingD(2,5) [OF m i] pendingD(5) [OF m, of j]
    by (metis get_interaction_def map_of_is_SomeI option.inject)
  then show ?thesis by (force simp: pending_interactions_def close_simps)
qed

text \<open>Everything a delivery table must say, read per interaction.\<close>

lemma deliveries_okD:
  assumes "deliveries_ok c"
  shows "c_deliveries c n = Some d \<longleftrightarrow>
        d_id d = n \<and> n < c_next c \<and> (\<exists>i \<in> set (pending_interactions c). x_state (c_heap c ! i) = Delivered d)"
    and "i \<in> set (pending_interactions c) \<Longrightarrow> x_state (c_heap c ! i) = Delivered d \<Longrightarrow> d_key d = x_key (c_heap c ! i) \<and> d_id d < c_next c"
    and "i \<in> set (pending_interactions c) \<Longrightarrow> j \<in> set (pending_interactions c) \<Longrightarrow> x_state (c_heap c ! i) = Delivered d \<Longrightarrow>
          x_state (c_heap c ! j) = Delivered d' \<Longrightarrow> d_id d = d_id d' \<Longrightarrow> i = j"
  using assms unfolding deliveries_ok_def by blast+

lemma close_deliveries:
  assumes m: "map_ok c" and d: "deliveries_ok c" and i: "i \<in> set (pending_interactions c)"
  shows "deliveries_ok (close i s k c)"
proof -
  let ?c = "close i s k c"
  note p = close_pending [OF m i, of s k]
  have x: "c_heap ?c ! j = c_heap c ! j" if "j \<in> set (pending_interactions ?c)" for j
    using that p by (simp add: close_simps)
  have 1: "c_deliveries ?c n = Some del \<longleftrightarrow>
      d_id del = n \<and> n < c_next c \<and> (\<exists>j \<in> set (pending_interactions ?c). x_state (c_heap c ! j) = Delivered del)" for n del
  proof (cases "\<exists>d0. x_state (c_heap c ! i) = Delivered d0")
    case True
    then obtain d0 where d0: "x_state (c_heap c ! i) = Delivered d0" by blast
    have "c_deliveries ?c n = Some del \<longleftrightarrow> n \<noteq> d_id d0 \<and> c_deliveries c n = Some del" by (simp add: close_simps d0)
    also have "\<dots> \<longleftrightarrow> d_id del = n \<and> n < c_next c \<and> (\<exists>j \<in> set (pending_interactions ?c). x_state (c_heap c ! j) = Delivered del)"
      unfolding deliveries_okD(1) [OF d] p using deliveries_okD(3) [OF d _ i _ d0] d0 by auto
    finally show ?thesis .
  next
    case False
    then have "c_deliveries ?c = c_deliveries c" by (simp add: close_simps split: interaction_state.split)
    then show ?thesis unfolding p using deliveries_okD(1) [OF d] False by auto
  qed
  have 2: "(\<exists>j \<in> set (pending_interactions ?c). x_state (c_heap ?c ! j) = Delivered del) \<longleftrightarrow>
      (\<exists>j \<in> set (pending_interactions ?c). x_state (c_heap c ! j) = Delivered del)" for del using x by auto
  have 3: "x_key (c_heap ?c ! j) = x_key (c_heap c ! j) \<and> x_state (c_heap ?c ! j) = x_state (c_heap c ! j) \<and> j \<in> set (pending_interactions c)"
    if "j \<in> set (pending_interactions ?c)" for j using that x p by simp
  have n: "c_next ?c = c_next c" by (simp add: close_simps)
  show ?thesis
    unfolding deliveries_ok_def n 2
  proof (intro conjI allI ballI impI)
    show "c_deliveries ?c n = Some del \<longleftrightarrow> d_id del = n \<and> n < c_next c \<and> (\<exists>j \<in> set (pending_interactions ?c). x_state (c_heap c ! j) = Delivered del)"
      for n del by (rule 1)
  qed (use 3 deliveries_okD(2,3) [OF d] in \<open>metis+\<close>)
qed

lemma close_ok:
  assumes ok: "cr_ok S D c" and l: "live i c"
  shows "cr_ok (S - {i}) (D - {i}) (close i s k c)"
proof -
  let ?c = "close i s k c"
  note m = cr_okD(1) [OF ok] and dn = cr_okD(2) [OF ok]
  have i: "i \<in> set (pending_interactions c)" using live_pending [OF m] l by simp
  note p = close_pending [OF m i, of s k] and il = pendingD(1) [OF m i]
  have x: "c_heap ?c ! j = c_heap c ! j" if "j \<noteq> i" for j using that by (simp add: close_simps)
  have "map_ok ?c"
  proof -
    have "(k', j) \<in> set (c_interactions ?c) \<Longrightarrow> (k', j) \<in> set (c_interactions c) \<and> j \<noteq> i" for k' j
      using map_okD(2) [OF m, of k' j] by (auto simp: close_simps)
    moreover have "distinct (map fst (c_interactions ?c))"
      using map_okD(1) [OF m] by (simp add: close_simps distinct_map_filter)
    moreover have "length (c_heap ?c) = length (c_heap c)" by (simp add: close_simps)
    ultimately show ?thesis using m x unfolding map_ok_def by metis
  qed
  moreover have "done_ok ?c"
    unfolding done_ok_def
  proof (intro allI impI)
    fix j assume j: "j < length (c_heap ?c)" "j \<notin> set (pending_interactions ?c)"
    show "is_settled (x_state (c_heap ?c ! j)) \<and> length (x_calls (c_heap ?c ! j)) = 1 \<and> x_timer (c_heap ?c ! j) = None"
    proof (cases "j = i")
      case True
      then show ?thesis using il pendingD(4) [OF m i] by (simp add: close_simps)
    next
      case False
      then show ?thesis using j p dn x [OF False] by (simp add: done_ok_def close_simps)
    qed
  qed
  moreover have "responders_ok ?c" using cr_okD(4) [OF ok] by (simp add: responders_ok_def close_simps)
  moreover have "places_ok (S - {i}) (D - {i}) ?c"
    unfolding places_ok_def
  proof (intro ballI conjI impI)
    fix j assume "j \<in> set (pending_interactions ?c)"
    then have j: "j \<in> set (pending_interactions c)" "j \<noteq> i" using p by auto
    show "at_home ?c j" if "j \<notin> S - {i}"
      by (rule at_home_frame [OF places_okD(1) [OF cr_okD(5) [OF ok] j(1)]])
        (use that j(2) x [OF j(2)] in \<open>simp_all add: close_simps\<close>)
    show "armed (c_heap ?c ! j)" if "j \<notin> D - {i}"
      using places_okD(2) [OF cr_okD(5) [OF ok] j(1)] that j(2) x [OF j(2)] by simp
  qed
  ultimately show ?thesis using close_deliveries [OF m cr_okD(3) [OF ok] i] by (simp add: cr_ok_def)
qed

lemma more_sent_simps:
  assumes "more_sent c c'"
  shows "c_attachments c' = c_attachments c" "c_responders c' = c_responders c" "c_next c' = c_next c"
    "c_heap c' = c_heap c" "c_interactions c' = c_interactions c" "c_deliveries c' = c_deliveries c"
    "pending_interactions c' = pending_interactions c" "set (c_sent c) \<subseteq> set (c_sent c')"
  using assms by (auto simp: more_sent_def pending_interactions_def)

lemma more_sent_ok:
  assumes ok: "cr_ok S D c" and m: "more_sent c c'"
  shows "cr_ok S D c'"
proof -
  note e = more_sent_simps [OF m]
  have "map_ok c'" "done_ok c'" "deliveries_ok c'" "responders_ok c'"
    using cr_okD(1-4) [OF ok] unfolding map_ok_def done_ok_def deliveries_ok_def responders_ok_def e by blast+
  moreover have "places_ok S D c'"
    using cr_okD(5) [OF ok] at_home_frame [OF _ e(2,1) _ e(8)] unfolding places_ok_def e(4,7) by metis
  ultimately show ?thesis by (simp add: cr_ok_def)
qed

lemma cr_ok_mono: "cr_ok S D c \<Longrightarrow> S \<inter> set (pending_interactions c) \<subseteq> S' \<Longrightarrow> D \<inter> set (pending_interactions c) \<subseteq> D' \<Longrightarrow> cr_ok S' D' c"
  unfolding cr_ok_def places_ok_def by blast

text \<open>What stays of every interaction.\<close>

definition same_request :: "('p, 'v) interaction \<Rightarrow> ('p, 'v) interaction \<Rightarrow> bool" where
  "same_request x y \<longleftrightarrow> x_key y = x_key x \<and> x_method y = x_method x \<and> x_params y = x_params x \<and> x_scope y = x_scope x
     \<and> x_responder y = x_responder x \<and> x_version y = x_version x \<and> x_expires y = x_expires x"

lemma same_request_refl [simp]: "same_request x x" by (simp add: same_request_def)

definition steady :: "('p, 'v) coordinator \<Rightarrow> ('p, 'v) coordinator \<Rightarrow> bool" where
  "steady c c' \<longleftrightarrow> c_attachments c' = c_attachments c \<and> c_responders c' = c_responders c
     \<and> length (c_heap c') = length (c_heap c)
     \<and> (\<forall>j < length (c_heap c). same_request (c_heap c ! j) (c_heap c' ! j))
     \<and> set (pending_interactions c') \<subseteq> set (pending_interactions c)"

lemma steady_refl [simp]: "steady c c" by (simp add: steady_def)

lemma same_request_trans: "same_request x y \<Longrightarrow> same_request y z \<Longrightarrow> same_request x z"
  by (simp add: same_request_def)

lemma steady_trans:
  assumes "steady c c'" and "steady c' c''"
  shows "steady c c''"
  using assms same_request_trans unfolding steady_def by (intro conjI allI impI) (simp_all, blast+)

lemma closes_facts:
  assumes ok: "cr_ok S D c" and cl: "closes i k c c'"
  shows "cr_ok (S - {i}) (D - {i}) c'" "steady c c'" "i \<notin> set (pending_interactions c')"
    "j \<noteq> i \<Longrightarrow> c_heap c' ! j = c_heap c ! j"
proof -
  note m = cr_okD(1) [OF ok]
  have "cr_ok (S - {i}) (D - {i}) c' \<and> steady c c' \<and> i \<notin> set (pending_interactions c') \<and> (j \<noteq> i \<longrightarrow> c_heap c' ! j = c_heap c ! j)"
  proof (cases "live i c")
    case True
    then obtain s where s: "more_sent (close i s k c) c'" using cl by (auto simp: closes_def)
    note p = close_pending [OF m, of i s k] and e = more_sent_simps [OF s]
    have i: "i \<in> set (pending_interactions c)" using True live_pending [OF m] by simp
    have "same_request (c_heap c ! n) (c_heap c' ! n)" if "n < length (c_heap c)" for n
      using that unfolding e(4) by (cases "n = i") (simp_all add: close_simps same_request_def)
    then have "steady c c'" using p [OF i] unfolding steady_def e by (simp add: close_simps)
    moreover have "j \<noteq> i \<Longrightarrow> c_heap c' ! j = c_heap c ! j" unfolding e(4) by (simp add: close_simps)
    moreover have "cr_ok (S - {i}) (D - {i}) c'" by (rule more_sent_ok [OF close_ok [OF ok True] s])
    ultimately show ?thesis using p [OF i] e(7) by simp
  next
    case False
    then have "i \<notin> set (pending_interactions c)" "c' = c" using cl live_pending [OF m] by (simp_all add: closes_def)
    moreover from this have "cr_ok (S - {i}) (D - {i}) c" by (intro cr_ok_mono [OF ok]) auto
    ultimately show ?thesis by simp
  qed
  then show "cr_ok (S - {i}) (D - {i}) c'" "steady c c'" "i \<notin> set (pending_interactions c')" "j \<noteq> i \<Longrightarrow> c_heap c' ! j = c_heap c ! j"
    by simp_all
qed

lemma steady_x:
  "steady c c' \<Longrightarrow> j < length (c_heap c) \<Longrightarrow> x_responder (c_heap c' ! j) = x_responder (c_heap c ! j)
    \<and> x_scope (c_heap c' ! j) = x_scope (c_heap c ! j) \<and> x_method (c_heap c' ! j) = x_method (c_heap c ! j)
    \<and> x_expires (c_heap c' ! j) = x_expires (c_heap c ! j)"
  by (simp add: steady_def same_request_def)

text \<open>A loop over interactions that settles some of them, or finds those it passes in order.\<close>

lemma fold_places:
  assumes "\<And>i S c. i \<in> set is \<Longrightarrow> cr_ok S {} c \<Longrightarrow> steady c0 c \<Longrightarrow> P S c \<Longrightarrow>
      cr_ok (S - {i}) {} (f i c) \<and> steady c (f i c) \<and> P (S - {i}) (f i c)"
    and "cr_ok S {} c" and "steady c0 c" and "P S c"
  shows "cr_ok (S - set is) {} (fold f is c) \<and> steady c0 (fold f is c)"
  using assms
proof (induction "is" arbitrary: S c)
  case (Cons i "is")
  have 1: "cr_ok (S - {i}) {} (f i c)" "steady c (f i c)" "P (S - {i}) (f i c)"
    using Cons.prems(1) [of i S c] Cons.prems(2-4) by auto
  have "cr_ok (S - {i} - set is) {} (fold f is (f i c)) \<and> steady c0 (fold f is (f i c))"
    by (rule Cons.IH [OF Cons.prems(1) 1(1) steady_trans [OF Cons.prems(3) 1(2)] 1(3)]) simp_all
  moreover have "S - {i} - set is = S - set (i # is)" by auto
  ultimately show ?case by simp
qed simp

section \<open>Delivering\<close>

text \<open>An interaction moves to a delivery at the attached client.\<close>

definition moved :: "nat \<Rightarrow> nat \<Rightarrow> ('p, 'v) coordinator \<Rightarrow> ('p, 'v) coordinator \<Rightarrow> delivery \<Rightarrow> bool" where
  "moved i a c c' d \<longleftrightarrow> d = \<lparr>d_id = c_next c, d_key = x_key (c_heap c ! i), d_attachment = a\<rparr>
     \<and> c_heap c' = (c_heap c)[i := (c_heap c ! i)\<lparr>x_state := Delivered d\<rparr>]
     \<and> c_deliveries c' = (case x_state (c_heap c ! i) of Delivered p \<Rightarrow> (c_deliveries c)(d_id p := None) | _ \<Rightarrow> c_deliveries c)(c_next c \<mapsto> d)
     \<and> c_next c' = c_next c + 1 \<and> c_attachments c' = c_attachments c \<and> c_responders c' = c_responders c
     \<and> c_interactions c' = c_interactions c \<and> c_sent c' = c_sent c"

lemma begin_moved:
  assumes ok: "cr_ok S D c" and i: "i \<in> set (pending_interactions c)" and w: "x_state (c_heap c ! i) = Waiting"
  obtains c' d where "beginDelivery i a c = (c', Some d)" "moved i a c c' d"
  using pendingD [OF cr_okD(1) [OF ok] i] w
  by (simp add: beginDelivery_def activateDelivery_def moved_def Let_def)

lemma replace_moved:
  assumes ok: "cr_ok S D c" and i: "i \<in> set (pending_interactions c)" and w: "x_state (c_heap c ! i) = Delivered p"
  obtains c' d where "replaceDelivery i a c = (c', Some (p, d))" "moved i a c c' d"
  using pendingD [OF cr_okD(1) [OF ok] i] w
  by (simp add: replaceDelivery_def activateDelivery_def moved_def Let_def get_interaction_def)

lemma moved_pending: "moved i a c c' d \<Longrightarrow> pending_interactions c' = pending_interactions c"
  by (simp add: moved_def pending_interactions_def)

lemma moved_deliveries:
  assumes m: "map_ok c" and dl: "deliveries_ok c" and i: "i \<in> set (pending_interactions c)" and mv: "moved i a c c' d"
  shows "deliveries_ok c'"
proof -
  note p = moved_pending [OF mv]
  have il: "i < length (c_heap c)" using pendingD(1) [OF m i] .
  have d: "d_id d = c_next c" "d_key d = x_key (c_heap c ! i)" and nx: "c_next c' = c_next c + 1"
    using mv by (simp_all add: moved_def)
  have xi: "x_state (c_heap c' ! i) = Delivered d" "x_key (c_heap c' ! i) = x_key (c_heap c ! i)"
    and x: "j \<noteq> i \<Longrightarrow> c_heap c' ! j = c_heap c ! j" for j
    using mv il by (simp_all add: moved_def)
  have old: "j \<in> set (pending_interactions c) \<Longrightarrow> x_state (c_heap c ! j) = Delivered d' \<Longrightarrow> d_id d' < c_next c" for j d'
    using deliveries_okD(2) [OF dl] by blast
  have tab: "c_deliveries c' n = Some del \<longleftrightarrow> (if n = c_next c then del = d else
      c_deliveries c n = Some del \<and> x_state (c_heap c ! i) \<noteq> Delivered del)" for n del
  proof (cases "\<exists>q. x_state (c_heap c ! i) = Delivered q")
    case True
    then obtain q where q: "x_state (c_heap c ! i) = Delivered q" by blast
    have "n \<noteq> d_id q \<longleftrightarrow> del \<noteq> q" if t: "c_deliveries c n = Some del"
    proof -
      obtain j where j: "d_id del = n" "j \<in> set (pending_interactions c)" "x_state (c_heap c ! j) = Delivered del"
        using t unfolding deliveries_okD(1) [OF dl] by blast
      have "del = q" if "d_id del = d_id q"
        using deliveries_okD(3) [OF dl j(2) i j(3) q that] j(3) q by simp
      then show ?thesis using j(1) by blast
    qed
    moreover have "c_deliveries c' = (c_deliveries c)(d_id q := None, c_next c \<mapsto> d)"
      using mv q by (simp add: moved_def)
    ultimately show ?thesis using q by (cases "n = c_next c"; cases "n = d_id q") auto
  next
    case False
    then have "c_deliveries c' = (c_deliveries c)(c_next c \<mapsto> d)"
      using mv by (simp add: moved_def split: interaction_state.split)
    then show ?thesis using False by auto
  qed
  have st: "(\<exists>j \<in> set (pending_interactions c). x_state (c_heap c' ! j) = Delivered del) \<longleftrightarrow>
      del = d \<or> (\<exists>j \<in> set (pending_interactions c). x_state (c_heap c ! j) = Delivered del) \<and> x_state (c_heap c ! i) \<noteq> Delivered del" for del
  proof -
    have o: "j \<in> set (pending_interactions c) \<Longrightarrow> x_state (c_heap c ! j) = Delivered del \<Longrightarrow> x_state (c_heap c ! i) = Delivered del \<Longrightarrow> j = i" for j
      using deliveries_okD(3) [OF dl _ i] by blast
    have "(\<exists>j \<in> set (pending_interactions c). x_state (c_heap c' ! j) = Delivered del) \<longleftrightarrow>
        del = d \<or> (\<exists>j \<in> set (pending_interactions c). j \<noteq> i \<and> x_state (c_heap c ! j) = Delivered del)"
      using xi(1) x i by (metis interaction_state.inject(1))
    moreover have "(\<exists>j \<in> set (pending_interactions c). j \<noteq> i \<and> x_state (c_heap c ! j) = Delivered del) \<longleftrightarrow>
        (\<exists>j \<in> set (pending_interactions c). x_state (c_heap c ! j) = Delivered del) \<and> x_state (c_heap c ! i) \<noteq> Delivered del"
      using o by metis
    ultimately show ?thesis by simp
  qed
  show ?thesis
    unfolding deliveries_ok_def p nx st
  proof (intro conjI allI ballI impI)
    show "c_deliveries c' n = Some del \<longleftrightarrow> d_id del = n \<and> n < c_next c + 1 \<and>
        (del = d \<or> (\<exists>j \<in> set (pending_interactions c). x_state (c_heap c ! j) = Delivered del) \<and> x_state (c_heap c ! i) \<noteq> Delivered del)" for n del
    proof -
      define E where "E \<longleftrightarrow> (\<exists>j \<in> set (pending_interactions c). x_state (c_heap c ! j) = Delivered del)"
      have "E \<Longrightarrow> d_id del < c_next c" unfolding E_def using old by blast
      then show ?thesis
        unfolding tab using deliveries_okD(1) [OF dl, of n del] d(1) unfolding E_def [symmetric] by (auto simp: less_Suc_eq)
    qed
  next
    fix j d' assume j: "j \<in> set (pending_interactions c)" "x_state (c_heap c' ! j) = Delivered d'"
    show "d_key d' = x_key (c_heap c' ! j)" using j xi x d deliveries_okD(2) [OF dl, of j d'] by (cases "j = i") auto
    show "d_id d' < c_next c + 1" using j xi d old [of j d'] x by (cases "j = i") auto
  next
    fix j k d1 d2 assume j: "j \<in> set (pending_interactions c)" "k \<in> set (pending_interactions c)" "x_state (c_heap c' ! j) = Delivered d1"
      "x_state (c_heap c' ! k) = Delivered d2" "d_id d1 = d_id d2"
    show "j = k"
      using j xi(1) x [of j] x [of k] d(1) old [of j d1] old [of k d2] deliveries_okD(3) [OF dl, of j k d1 d2]
      by (cases "j = i"; cases "k = i") auto
  qed
qed

lemma moved_ok:
  assumes ok: "cr_ok S D c" and i: "i \<in> set (pending_interactions c)" and mv: "moved i a c c' d"
  shows "cr_ok (insert i S) D c'"
proof -
  note m = cr_okD(1) [OF ok] and p = moved_pending [OF mv]
  have il: "i < length (c_heap c)" using pendingD(1) [OF m i] .
  have e: "c_attachments c' = c_attachments c" "c_responders c' = c_responders c" "c_interactions c' = c_interactions c"
      "c_sent c' = c_sent c" "length (c_heap c') = length (c_heap c)"
    using mv by (simp_all add: moved_def)
  have xi: "c_heap c' ! i = (c_heap c ! i)\<lparr>x_state := Delivered d\<rparr>" and x: "j \<noteq> i \<Longrightarrow> c_heap c' ! j = c_heap c ! j" for j
    using mv il by (simp_all add: moved_def)
  have "map_ok c'"
  proof -
    have "x_key (c_heap c' ! j) = x_key (c_heap c ! j) \<and> x_calls (c_heap c' ! j) = x_calls (c_heap c ! j)
      \<and> (is_settled (x_state (c_heap c' ! j)) \<longrightarrow> is_settled (x_state (c_heap c ! j)))" for j
    proof (cases "j = i")
      case True
      show ?thesis unfolding True xi by simp
    next
      case False
      show ?thesis unfolding x [OF False] by simp
    qed
    then show ?thesis using m unfolding map_ok_def e by metis
  qed
  moreover have "done_ok c'"
    using cr_okD(2) [OF ok] i x unfolding done_ok_def p e by metis
  moreover have "responders_ok c'" using cr_okD(4) [OF ok] unfolding responders_ok_def e .
  moreover have "places_ok (insert i S) D c'"
    unfolding places_ok_def p
  proof (intro ballI conjI impI)
    fix j assume j: "j \<in> set (pending_interactions c)"
    show "at_home c' j" if "j \<notin> insert i S"
      by (rule at_home_frame [OF places_okD(1) [OF cr_okD(5) [OF ok] j] e(2,1)]) (use that x [of j] e(4) in simp_all)
    show "armed (c_heap c' ! j)" if "j \<notin> D"
      using places_okD(2) [OF cr_okD(5) [OF ok] j that] xi x [of j] by (cases "j = i") (simp_all add: armed_def)
  qed
  ultimately show ?thesis using moved_deliveries [OF m cr_okD(3) [OF ok] i mv] by (simp add: cr_ok_def)
qed

lemma moved_steady:
  assumes mv: "moved i a c c' d"
  shows "steady c c'"
proof -
  have "same_request (c_heap c ! j) (c_heap c' ! j)" if "j < length (c_heap c)" for j
    using mv that by (cases "j = i") (simp_all add: moved_def same_request_def)
  then show ?thesis using mv moved_pending [OF mv] by (simp add: steady_def moved_def)
qed

text \<open>Sending what was moved brings the interaction home, or settles it when the transport is gone.\<close>

lemma cr_ok_home: "cr_ok S D c \<Longrightarrow> at_home c i \<Longrightarrow> cr_ok (S - {i}) D c"
  unfolding cr_ok_def places_ok_def by blast

lemma sendDelivery_ok:
  assumes ok: "cr_ok S D c" and i: "i \<in> set (pending_interactions c)" and x: "x_state (c_heap c ! i) = Delivered d"
    and a: "c_responders c (x_responder (c_heap c ! i)) = Some (d_attachment d)"
      "t_scope (c_attachments c ! d_attachment d) = x_scope (c_heap c ! i)"
  shows "cr_ok (S - {i}) D (sendDelivery e i d c)" "steady c (sendDelivery e i d c)"
proof -
  let ?c = "sends (d_attachment d) (SendRequest (d_id d) (x_method (c_heap c ! i)) (x_params (c_heap c ! i))) c"
  have ms: "more_sent c ?c" unfolding more_sent_def sends_def by blast
  have "at_home ?c i" using x a unfolding at_home_def by (simp add: sends_def)
  then have ok': "cr_ok (S - {i}) D ?c" by (rule cr_ok_home [OF more_sent_ok [OF ok ms]])
  note cl = closes_facts [OF ok closes_reject [of i SendFailed c]]
  have "cr_ok (S - {i}) D (rejectInteraction i SendFailed c)" by (rule cr_ok_mono [OF cl(1)]) auto
  then show "cr_ok (S - {i}) D (sendDelivery e i d c)" using ok' by (simp add: sendDelivery_def)
  have "steady c ?c" by (simp add: steady_def sends_def pending_interactions_def)
  then show "steady c (sendDelivery e i d c)" using cl(2) by (simp add: sendDelivery_def)
qed

lemma deliver_ok:
  assumes ok: "cr_ok S D c" and i: "i \<in> set (pending_interactions c)" and w: "x_state (c_heap c ! i) = Waiting"
  shows "cr_ok (S - {i}) D (deliver e i c)" "steady c (deliver e i c)"
proof -
  let ?x = "c_heap c ! i"
  have closed: "cr_ok (S - {i}) D c' \<and> steady c c'" if "closes i k c c'" for k c'
    using closes_facts(1,2) [OF ok that] cr_ok_mono [of "S - {i}" "D - {i}" c' "S - {i}" D] by auto
  have "cr_ok (S - {i}) D (deliver e i c) \<and> steady c (deliver e i c)"
  proof (cases "isExpired e ?x")
    case True
    then obtain s where "closes i (RejectExpired s) c (expire e i c)" using closes_expired by blast
    then show ?thesis using closed True by (simp add: deliver_def)
  next
    case ne: False
    show ?thesis
    proof (cases "c_responders c (x_responder ?x)")
      case None
      then show ?thesis using closed [OF closes_reject] ne by (simp add: deliver_def)
    next
      case (Some a)
      let ?t = "c_attachments c ! a"
      consider "t_scope ?t \<noteq> x_scope ?x" | "t_scope ?t = x_scope ?x" "\<not> t_ack ?t"
        | "t_scope ?t = x_scope ?x" "t_ack ?t" "x_method ?x \<notin> set (t_accepted ?t)"
        | "t_scope ?t = x_scope ?x" "t_ack ?t" "x_method ?x \<in> set (t_accepted ?t)" by blast
      then show ?thesis
      proof cases
        case 2
        then have "at_home c i" using Some w by (simp add: at_home_def)
        then show ?thesis using cr_ok_home [OF ok] ne Some 2 by (simp add: deliver_def)
      next
        case 4
        obtain c' d where b: "beginDelivery i a c = (c', Some d)" and mv: "moved i a c c' d"
          by (rule begin_moved [OF ok i w])
        have "deliver e i c = sendDelivery e i d c'" using ne Some 4 b by (simp add: deliver_def)
        moreover have d: "x_state (c_heap c' ! i) = Delivered d" "c_responders c' (x_responder (c_heap c' ! i)) = Some (d_attachment d)"
            "t_scope (c_attachments c' ! d_attachment d) = x_scope (c_heap c' ! i)" "i \<in> set (pending_interactions c')"
          using mv Some 4 pendingD(1) [OF cr_okD(1) [OF ok] i] i by (simp_all add: moved_def moved_pending [OF mv])
        note s = sendDelivery_ok [OF moved_ok [OF ok i mv] d(4,1,2,3), of e]
        have "cr_ok (S - {i}) D (sendDelivery e i d c')" by (rule cr_ok_mono [OF s(1)]) auto
        ultimately show ?thesis using steady_trans [OF moved_steady [OF mv] s(2)] by simp
      qed (use closed [OF closes_reject] ne Some in \<open>simp_all add: deliver_def\<close>)
    qed
  qed
  then show "cr_ok (S - {i}) D (deliver e i c)" "steady c (deliver e i c)" by simp_all
qed

section \<open>Every operation keeps the invariant\<close>

lemma attachments_ok:
  assumes ok: "cr_ok S D c" and e: "c_heap c' = c_heap c" "c_interactions c' = c_interactions c"
      "c_deliveries c' = c_deliveries c" "c_next c' = c_next c"
    and r: "responders_ok c'" and h: "\<And>j. j \<in> set (pending_interactions c) \<Longrightarrow> j \<notin> S' \<Longrightarrow> at_home c' j"
  shows "cr_ok S' D c'"
proof -
  have p: "pending_interactions c' = pending_interactions c" using e(2) by (simp add: pending_interactions_def)
  have "map_ok c'" "done_ok c'" "deliveries_ok c'"
    using cr_okD(1-3) [OF ok] unfolding map_ok_def done_ok_def deliveries_ok_def p e by blast+
  moreover have "places_ok S' D c'" using h cr_okD(5) [OF ok] unfolding places_ok_def p e by blast
  ultimately show ?thesis using r by (simp add: cr_ok_def)
qed

lemma home:
  assumes "cr_ok {} D c" and "i \<in> set (pending_interactions c)"
  obtains a where "c_responders c (x_responder (c_heap c ! i)) = Some a" "a < length (c_attachments c)"
    "t_responder (c_attachments c ! a) = x_responder (c_heap c ! i)" "t_scope (c_attachments c ! a) = x_scope (c_heap c ! i)"
    "x_state (c_heap c ! i) = Waiting \<and> \<not> t_ack (c_attachments c ! a)
      \<or> (\<exists>d. x_state (c_heap c ! i) = Delivered d \<and> d_attachment d = a
           \<and> (a, SendRequest (d_id d) (x_method (c_heap c ! i)) (x_params (c_heap c ! i))) \<in> set (c_sent c))"
proof -
  have "at_home c i" using places_okD(1) [OF cr_okD(5) [OF assms(1)] assms(2)] by simp
  then show thesis using that cr_okD(4) [OF assms(1)] unfolding at_home_def responders_ok_def by metis
qed

lemma attach_ok:
  assumes ok: "cr_ok {} {} c" and a: "attachResponder r s ms ack c = Inr (c', a)"
  shows "cr_ok {} {} c'"
proof -
  let ?t = "\<lparr>t_responder = r, t_scope = s, t_accepted = ms, t_set = c_sets c, t_ack = ack\<rparr>"
  have n: "c_responders c r = None" and c': "c' = c\<lparr>c_attachments := c_attachments c @ [?t],
      c_responders := (c_responders c)(r \<mapsto> length (c_attachments c)), c_sets := c_sets c + 1\<rparr>"
    using a by (auto simp: attachResponder_def split: option.splits)
  have "responders_ok c'"
    using cr_okD(4) [OF ok] by (auto simp: c' responders_ok_def nth_append less_Suc_eq)
  moreover have "at_home c' j" if jp: "j \<in> set (pending_interactions c)" for j
  proof -
    obtain b where b: "c_responders c (x_responder (c_heap c ! j)) = Some b" "b < length (c_attachments c)"
        "t_scope (c_attachments c ! b) = x_scope (c_heap c ! j)"
        "x_state (c_heap c ! j) = Waiting \<and> \<not> t_ack (c_attachments c ! b)
          \<or> (\<exists>d. x_state (c_heap c ! j) = Delivered d \<and> d_attachment d = b
            \<and> (b, SendRequest (d_id d) (x_method (c_heap c ! j)) (x_params (c_heap c ! j))) \<in> set (c_sent c))"
      by (rule home [OF ok jp])
    have "x_responder (c_heap c ! j) \<noteq> r" using b(1) n by auto
    then show ?thesis using b by (simp add: at_home_def c' nth_append)
  qed
  ultimately show ?thesis by (intro attachments_ok [OF ok]) (simp_all add: c')
qed

text \<open>The set of methods changes and the deliveries are suspended.\<close>

lemma suspend_ok:
  assumes ok: "cr_ok {} {} c" and a: "a < length (c_attachments c)"
  shows "cr_ok {} {} ((upd_t a (\<lambda>t. t\<lparr>t_accepted := ms, t_set := c_sets c, t_ack := False\<rparr>) c)\<lparr>c_sets := n\<rparr>)" (is "cr_ok _ _ ?c")
proof -
  have t: "t_scope (c_attachments ?c ! b) = t_scope (c_attachments c ! b)"
    "t_responder (c_attachments ?c ! b) = t_responder (c_attachments c ! b)"
    "t_ack (c_attachments ?c ! b) \<Longrightarrow> t_ack (c_attachments c ! b)" for b
    using a by (cases "b = a"; simp)+
  have "responders_ok ?c" using cr_okD(4) [OF ok] t(2) by (simp add: responders_ok_def)
  moreover have "at_home ?c j" if jp: "j \<in> set (pending_interactions c)" for j
  proof -
    obtain b where b: "c_responders c (x_responder (c_heap c ! j)) = Some b"
        "t_scope (c_attachments c ! b) = x_scope (c_heap c ! j)"
        "x_state (c_heap c ! j) = Waiting \<and> \<not> t_ack (c_attachments c ! b)
          \<or> (\<exists>d. x_state (c_heap c ! j) = Delivered d \<and> d_attachment d = b
            \<and> (b, SendRequest (d_id d) (x_method (c_heap c ! j)) (x_params (c_heap c ! j))) \<in> set (c_sent c))"
      by (rule home [OF ok jp])
    then show ?thesis unfolding at_home_def using t(1,3) by auto
  qed
  ultimately show ?thesis by (intro attachments_ok [OF ok]) simp_all
qed

lemma cancel_if_ok:
  assumes "cr_ok S {} c"
  shows "cr_ok (S - {i}) {} (cancel_interaction e r i c) \<and> steady c (cancel_interaction e r i c)"
  using closes_facts(1,2) [OF assms closes_cancel [of i r c e]] by simp

lemma setMethods_ok:
  assumes ok: "cr_ok {} {} c" and a: "a < length (c_attachments c)"
  shows "cr_ok {} {} (fst (setServerRequestMethods e a ms cancel_reason c))"
proof (cases "c_responders c (t_responder (c_attachments c ! a)) = Some a")
  case True
  let ?c = "(upd_t a (\<lambda>t. t\<lparr>t_accepted := ms, t_set := c_sets c, t_ack := False\<rparr>) c)\<lparr>c_sets := c_sets c + 1\<rparr>"
  let ?f = "\<lambda>i c'. if x_responder (c_heap c' ! i) \<noteq> t_responder (c_attachments c ! a)
      \<or> x_method (c_heap c' ! i) \<notin> set (filter (\<lambda>m. m \<notin> set ms) (t_accepted (c_attachments c ! a))) then c' else cancel_interaction e (Given cancel_reason) i c'"
  have "cr_ok ({} - set (pending_interactions ?c)) {} (fold ?f (pending_interactions ?c) ?c) \<and> steady ?c (fold ?f (pending_interactions ?c) ?c)"
  proof (rule fold_places [where P = "\<lambda>S c. S = {}", OF _ suspend_ok [OF ok a]])
    fix i S and c' :: "('a, 'b) coordinator"
    assume "cr_ok S {} c'" and "S = {}"
    then show "cr_ok (S - {i}) {} (?f i c') \<and> steady c' (?f i c') \<and> S - {i} = {}"
      using cancel_if_ok [of S c' i e "Given cancel_reason"] by simp
  qed simp_all
  then show ?thesis using True unfolding setServerRequestMethods_def Let_def by simp
qed (simp add: setServerRequestMethods_def Let_def ok)

lemma begin_ok:
  assumes "cr_ok {} {} c" and "a < length (c_attachments c)"
  shows "cr_ok {} {} (beginCapabilityNegotiation a c)"
  using assms suspend_ok [OF assms, where ms = "[]"] by (simp add: beginCapabilityNegotiation_def)

text \<open>A client goes: its interactions are settled.\<close>

lemma gone_ok:
  assumes ok: "cr_ok {} {} c"
  shows "cr_ok {i. x_responder (c_heap c ! i) = r} {} (c\<lparr>c_responders := (c_responders c)(r := None)\<rparr>)" (is "cr_ok ?S _ ?c")
proof (rule attachments_ok [OF ok])
  show "responders_ok ?c" using cr_okD(4) [OF ok] by (simp add: responders_ok_def)
  show "at_home ?c j" if "j \<in> set (pending_interactions c)" "j \<notin> ?S" for j
    using that places_okD(1) [OF cr_okD(5) [OF ok] that(1)] by (simp add: at_home_def)
qed simp_all

lemma steady_pending: "steady c c' \<Longrightarrow> set (pending_interactions c') \<subseteq> set (pending_interactions c)"
  by (simp add: steady_def)

lemma cr_ok_covered: "cr_ok (S - set is) {} c \<Longrightarrow> set (pending_interactions c) \<subseteq> set is \<Longrightarrow> cr_ok {} {} c"
  by (rule cr_ok_mono) auto

lemma cr_detach_ok:
  assumes ok: "cr_ok {} {} c"
  shows "cr_ok {} {} (detachResponder e a c)"
proof (cases "c_responders c (t_responder (c_attachments c ! a)) = Some a")
  case True
  let ?r = "t_responder (c_attachments c ! a)"
  let ?c = "c\<lparr>c_responders := (c_responders c)(?r := None)\<rparr>"
  let ?S = "{i. x_responder (c_heap c ! i) = ?r}"
  let ?f = "\<lambda>i c. if x_responder (c_heap c ! i) \<noteq> ?r then c else cancel_interaction e ConnectionClosed i c"
  let ?P = "\<lambda>S (c' :: ('a, 'b) coordinator). S \<subseteq> ?S"
  have pc: "pending_interactions ?c = pending_interactions c" by (simp add: pending_interactions_def)
  have f: "cr_ok (?S - set (pending_interactions c)) {} (fold ?f (pending_interactions c) ?c) \<and> steady ?c (fold ?f (pending_interactions c) ?c)"
  proof (rule fold_places [where P = ?P, OF _ gone_ok [OF ok]])
    fix i S and c' :: "('a, 'b) coordinator"
    assume i: "i \<in> set (pending_interactions c)" and c': "cr_ok S {} c'" "steady ?c c'" "S \<subseteq> ?S"
    have "x_responder (c_heap c' ! i) = x_responder (c_heap c ! i)"
      using steady_x [OF c'(2), of i] pendingD(1) [OF cr_okD(1) [OF ok] i] by simp
    then have "x_responder (c_heap c' ! i) \<noteq> ?r \<Longrightarrow> S - {i} = S" using c'(3) by auto
    then show "cr_ok (S - {i}) {} (?f i c') \<and> steady c' (?f i c') \<and> S - {i} \<subseteq> ?S"
      using c'(1,3) cancel_if_ok [OF c'(1), of i e ConnectionClosed] by auto
  qed simp_all
  have "cr_ok {} {} (fold ?f (pending_interactions c) ?c)"
    by (rule cr_ok_covered [OF conjunct1 [OF f]]) (use steady_pending [OF conjunct2 [OF f]] pc in simp)
  then show ?thesis using True unfolding detachResponder_def Let_def by simp
qed (simp add: detachResponder_def Let_def ok)

lemma fail_ok:
  assumes ok: "cr_ok {} {} c" and a: "c_responders c (t_responder (c_attachments c ! a)) = Some a"
  shows "cr_ok {} {} (failAttachment a err (c\<lparr>c_responders := (c_responders c)(t_responder (c_attachments c ! a) := None)\<rparr>))"
proof -
  let ?r = "t_responder (c_attachments c ! a)"
  let ?c = "c\<lparr>c_responders := (c_responders c)(?r := None)\<rparr>"
  let ?S = "{i. x_responder (c_heap c ! i) = ?r}"
  let ?P = "\<lambda>S (c' :: ('a, 'b) coordinator). S \<subseteq> ?S \<and> (\<forall>i \<in> S. i \<in> set (pending_interactions c) \<longrightarrow> c_heap c' ! i = c_heap c ! i)"
  have pc: "pending_interactions ?c = pending_interactions c" by (simp add: pending_interactions_def)
  have f: "cr_ok (?S - set (pending_interactions c)) {} (fold (fail_one a err) (pending_interactions c) ?c) \<and> steady ?c (fold (fail_one a err) (pending_interactions c) ?c)"
  proof (rule fold_places [where P = ?P, OF _ gone_ok [OF ok]])
    fix i S and c' :: "('a, 'b) coordinator"
    assume i: "i \<in> set (pending_interactions c)" and c': "cr_ok S {} c'" "steady ?c c'" "?P S c'"
    note cl = closes_facts [OF c'(1) closes_reject [of i err c']]
    have "fail_one a err i c' = rejectInteraction i err c'" if iS: "i \<in> S"
    proof -
      have x: "c_heap c' ! i = c_heap c ! i" "x_responder (c_heap c ! i) = ?r" using c'(3) i iS by auto
      have "c_attachments c' = c_attachments c" using c'(2) by (simp add: steady_def)
      moreover have "t_scope (c_attachments c ! a) = x_scope (c_heap c ! i)"
          "\<And>d. x_state (c_heap c ! i) = Delivered d \<Longrightarrow> d_attachment d = a"
        by (rule home [OF ok i]; use a x(2) in force)+
      ultimately show ?thesis using x by (simp add: fail_one_def Let_def split: interaction_state.split)
    qed
    moreover have two: "fail_one a err i c' = rejectInteraction i err c' \<or> fail_one a err i c' = c'"
      by (simp add: fail_one_def Let_def)
    moreover have "\<forall>j \<in> S - {i}. j \<in> set (pending_interactions c) \<longrightarrow> c_heap (fail_one a err i c') ! j = c_heap c ! j"
      using two cl(4) c'(3) by auto
    ultimately show "cr_ok (S - {i}) {} (fail_one a err i c') \<and> steady c' (fail_one a err i c') \<and> ?P (S - {i}) (fail_one a err i c')"
      using cl(1,2) c'(1,3) by (cases "i \<in> S") (elim disjE; simp; blast)+
  qed simp_all
  show ?thesis
    unfolding failAttachment_def pc
    by (rule cr_ok_covered [OF conjunct1 [OF f]]) (use steady_pending [OF conjunct2 [OF f]] pc in simp)
qed

lemma closes_other: "closes i k c c' \<Longrightarrow> j \<noteq> i \<Longrightarrow> c_heap c' ! j = c_heap c ! j"
  by (auto simp: closes_def close_simps dest: more_sent_simps(4) split: if_splits)

lemma deliver_other:
  assumes "j \<noteq> i"
  shows "c_heap (deliver e i c) ! j = c_heap c ! j"
proof -
  have r: "c_heap (rejectInteraction i err c') ! j = c_heap c' ! j" for err and c' :: "('a, 'b) coordinator"
    by (rule closes_other [OF closes_reject assms])
  have x: "isExpired e (c_heap c ! i) \<Longrightarrow> c_heap (expire e i c) ! j = c_heap c ! j"
    using closes_expired closes_other assms by blast
  have s: "c_heap (sendDelivery e i d c') ! j = c_heap c' ! j" for d and c' :: "('a, 'b) coordinator"
    using r by (simp add: sendDelivery_def sends_def)
  have b: "c_heap (fst (beginDelivery i a c)) ! j = c_heap c ! j" for a
    using assms by (simp add: beginDelivery_def activateDelivery_def Let_def)
  show ?thesis unfolding deliver_def Let_def
    using r x s b by (auto split: option.split prod.split) (metis fst_conv)+
qed

lemma cancel_ok: "cr_ok {} {} c \<Longrightarrow> cr_ok {} {} (cancel e key cancel_reason c)"
  unfolding cancel_def using cancel_if_ok [of "{}" c] by (auto split: option.split)

lemma cancelAll_ok: "cr_ok {} {} c \<Longrightarrow> cr_ok {} {} (cancelAllRequests e cancel_reason c)"
proof -
  have "cr_ok {} {} c \<Longrightarrow> cr_ok {} {} (fold (\<lambda>i c. cancel e (x_key (c_heap c ! i)) cancel_reason c) is c)" for "is"
    by (induction "is" arbitrary: c) (simp_all add: cancel_ok)
  then show "cr_ok {} {} c \<Longrightarrow> ?thesis" by (simp add: cancelAllRequests_def)
qed

lemma live_waiting:
  assumes "cr_ok S D c" and "i < length (c_heap c)" and "x_state (c_heap c ! i) = Waiting"
  shows "i \<in> set (pending_interactions c)"
  using cr_okD(2) [OF assms(1)] assms(2,3) unfolding done_ok_def by force

lemma commit_ok:
  assumes ok: "cr_ok {} {} c" and a: "a < length (c_attachments c)"
  shows "cr_ok {} {} (commit_methods e a st c)"
proof (cases "c_responders c (t_responder (c_attachments c ! a)) \<noteq> Some a \<or> t_set (c_attachments c ! a) \<noteq> st")
  case False
  let ?r = "t_responder (c_attachments c ! a)"
  let ?c = "upd_t a (\<lambda>t. t\<lparr>t_ack := True\<rparr>) c"
  let ?Q = "\<lambda>(c' :: ('a, 'b) coordinator) i. x_responder (c_heap c' ! i) = ?r \<and> x_state (c_heap c' ! i) = Waiting"
  let ?f = "\<lambda>i c'. if ?Q c' i then deliver e i c' else c'"
  let ?P = "\<lambda>S (c' :: ('a, 'b) coordinator). \<forall>i \<in> S. i \<in> set (pending_interactions c') \<longrightarrow> ?Q c' i"
  have pc: "pending_interactions ?c = pending_interactions c" by (simp add: pending_interactions_def)
  have t: "t_scope (c_attachments ?c ! b) = t_scope (c_attachments c ! b)"
    "t_responder (c_attachments ?c ! b) = t_responder (c_attachments c ! b)"
    "b \<noteq> a \<Longrightarrow> c_attachments ?c ! b = c_attachments c ! b" for b
    using a by (cases "b = a"; simp)+
  have start: "cr_ok {i. ?Q c i} {} ?c"
  proof (rule attachments_ok [OF ok])
    show "responders_ok ?c" using cr_okD(4) [OF ok] t(2) by (simp add: responders_ok_def)
    show "at_home ?c j" if j: "j \<in> set (pending_interactions c)" "j \<notin> {i. ?Q c i}" for j
    proof (rule home [OF ok j(1)])
      fix b assume b: "c_responders c (x_responder (c_heap c ! j)) = Some b"
        "t_responder (c_attachments c ! b) = x_responder (c_heap c ! j)" "t_scope (c_attachments c ! b) = x_scope (c_heap c ! j)"
        "x_state (c_heap c ! j) = Waiting \<and> \<not> t_ack (c_attachments c ! b)
          \<or> (\<exists>d. x_state (c_heap c ! j) = Delivered d \<and> d_attachment d = b
            \<and> (b, SendRequest (d_id d) (x_method (c_heap c ! j)) (x_params (c_heap c ! j))) \<in> set (c_sent c))"
      show "at_home ?c j"
      proof (cases "b = a")
        case True
        then show ?thesis using b j(2) t(1) unfolding at_home_def by auto
      next
        case False
        then show ?thesis using b t(3) [OF False] unfolding at_home_def by simp
      qed
    qed
  qed simp_all
  have f: "cr_ok ({i. ?Q c i} - set (pending_interactions c)) {} (fold ?f (pending_interactions c) ?c) \<and> steady ?c (fold ?f (pending_interactions c) ?c)"
  proof (rule fold_places [where P = ?P, OF _ start])
    fix i S and c' :: "('a, 'b) coordinator"
    assume i: "i \<in> set (pending_interactions c)" and c': "cr_ok S {} c'" "steady ?c c'" "?P S c'"
    have il: "i < length (c_heap c')" using pendingD(1) [OF cr_okD(1) [OF ok] i] c'(2) by (simp add: steady_def)
    show "cr_ok (S - {i}) {} (?f i c') \<and> steady c' (?f i c') \<and> ?P (S - {i}) (?f i c')"
    proof (cases "?Q c' i")
      case True
      then have ip: "i \<in> set (pending_interactions c')" using live_waiting [OF c'(1) il] by blast
      note d = deliver_ok [OF c'(1) ip conjunct2 [OF True], of e]
      have "?P (S - {i}) (deliver e i c')"
        using c'(3) steady_pending [OF d(2)] deliver_other [of _ i e c'] by (metis Diff_iff insertI1 subsetD)
      then show ?thesis using d True by simp
    next
      case False
      then have "cr_ok (S - {i}) {} c'" using c'(3) by (intro cr_ok_mono [OF c'(1)]) blast+
      then show ?thesis using c'(3) False by auto
    qed
  qed simp_all
  have "cr_ok {} {} (fold ?f (pending_interactions c) ?c)"
    by (rule cr_ok_covered [OF conjunct1 [OF f]]) (use steady_pending [OF conjunct2 [OF f]] pc in simp)
  then show ?thesis using False unfolding commit_methods_def Let_def by simp
qed (simp add: commit_methods_def Let_def ok)

section \<open>Requests and timers\<close>

lemma set_timer_ok:
  assumes ok: "cr_ok S D c" and i: "i \<in> set (pending_interactions c)"
  shows "cr_ok S (insert i D) (upd_x i (\<lambda>x. x\<lparr>x_timer := t\<rparr>) c)" (is "cr_ok _ _ ?c")
    and "steady c (upd_x i (\<lambda>x. x\<lparr>x_timer := t\<rparr>) c)"
proof -
  note m = cr_okD(1) [OF ok]
  have il: "i < length (c_heap c)" using pendingD(1) [OF m i] .
  have p: "pending_interactions ?c = pending_interactions c" by (simp add: pending_interactions_def)
  have xi: "c_heap ?c ! i = (c_heap c ! i)\<lparr>x_timer := t\<rparr>" and x: "j \<noteq> i \<Longrightarrow> c_heap ?c ! j = c_heap c ! j" for j
    using il by simp_all
  have "x_key (c_heap ?c ! j) = x_key (c_heap c ! j) \<and> x_state (c_heap ?c ! j) = x_state (c_heap c ! j)
    \<and> x_calls (c_heap ?c ! j) = x_calls (c_heap c ! j) \<and> same_request (c_heap c ! j) (c_heap ?c ! j)" for j
  proof (cases "j = i")
    case True
    show ?thesis unfolding True xi by (simp add: same_request_def)
  next
    case False
    show ?thesis unfolding x [OF False] by simp
  qed
  then have s: "x_key (c_heap ?c ! j) = x_key (c_heap c ! j)" "x_state (c_heap ?c ! j) = x_state (c_heap c ! j)"
    "x_calls (c_heap ?c ! j) = x_calls (c_heap c ! j)" "same_request (c_heap c ! j) (c_heap ?c ! j)" for j
    by blast+
  have l: "length (c_heap ?c) = length (c_heap c)" "c_interactions ?c = c_interactions c" by simp_all
  have "map_ok ?c" using m unfolding map_ok_def s l .
  moreover have "done_ok ?c" unfolding done_ok_def p l
  proof (intro allI impI)
    fix j assume j: "j < length (c_heap c)" "j \<notin> set (pending_interactions c)"
    then have "j \<noteq> i" using i by blast
    show "is_settled (x_state (c_heap ?c ! j)) \<and> length (x_calls (c_heap ?c ! j)) = 1 \<and> x_timer (c_heap ?c ! j) = None"
      unfolding x [OF \<open>j \<noteq> i\<close>] using cr_okD(2) [OF ok] j unfolding done_ok_def by blast
  qed
  moreover have "deliveries_ok ?c"
    using cr_okD(3) [OF ok] unfolding deliveries_ok_def p s by simp
  moreover have "responders_ok ?c" using cr_okD(4) [OF ok] by (simp add: responders_ok_def)
  moreover have "places_ok S (insert i D) ?c"
    unfolding places_ok_def p
  proof (intro ballI conjI impI)
    fix j assume j: "j \<in> set (pending_interactions c)"
    show "at_home ?c j" if "j \<notin> S"
      using places_okD(1) [OF cr_okD(5) [OF ok] j that] s(4) [of j] unfolding at_home_def s(2) by (simp add: same_request_def)
    show "armed (c_heap ?c ! j)" if "j \<notin> insert i D"
      using places_okD(2) [OF cr_okD(5) [OF ok] j] that x [of j] by simp
  qed
  ultimately show "cr_ok S (insert i D) ?c" by (simp add: cr_ok_def)
  show "steady c ?c" unfolding steady_def p using s(4) by simp
qed

lemma cr_ok_armed: "cr_ok S D c \<Longrightarrow> armed (c_heap c ! i) \<Longrightarrow> cr_ok S (D - {i}) c"
  unfolding cr_ok_def places_ok_def by blast

lemma scheduled_ok:
  assumes ok: "cr_ok S D c" and i: "i \<in> set (pending_interactions c)"
  shows "cr_ok S (D - {i}) (scheduleExpiration e i c)" "steady c (scheduleExpiration e i c)"
    "i \<in> set (pending_interactions (scheduleExpiration e i c)) \<Longrightarrow> x_state (c_heap (scheduleExpiration e i c) ! i) = x_state (c_heap c ! i)"
proof -
  have il: "i < length (c_heap c)" using pendingD(1) [OF cr_okD(1) [OF ok] i] .
  let ?c = "scheduleExpiration e i c"
  have "cr_ok S (D - {i}) ?c \<and> steady c ?c \<and> (i \<in> set (pending_interactions ?c) \<longrightarrow> x_state (c_heap ?c ! i) = x_state (c_heap c ! i))"
  proof (cases "x_expires (c_heap c ! i)")
    case None
    then have "armed (c_heap c ! i)" by (simp add: armed_def)
    then show ?thesis using cr_ok_armed [OF ok] None by (simp add: scheduleExpiration_def)
  next
    case (Some sm)
    obtain s ms where sm: "sm = (s, ms)" by (cases sm)
    show ?thesis
    proof (cases "ms - e_now e \<le> 0")
      case True
      note cl = closes_facts [OF ok closes_expire [OF Some [unfolded sm], of e]]
      have "cr_ok S (D - {i}) (expire e i c)" by (rule cr_ok_mono [OF cl(1)]) auto
      then show ?thesis using cl True Some sm by (simp add: scheduleExpiration_def)
    next
      case False
      let ?t = "Some (e_now e + min (ms - e_now e) MAX_TIMEOUT_DELAY_MS)"
      have c: "?c = upd_x i (\<lambda>x. x\<lparr>x_timer := ?t\<rparr>) c" using False Some sm by (simp add: scheduleExpiration_def)
      note t = set_timer_ok [OF ok i, of ?t]
      have "armed (c_heap ?c ! i)" unfolding c using il Some sm by (simp add: armed_def)
      from cr_ok_armed [OF t(1) [folded c] this] have "cr_ok S (D - {i}) ?c" by (rule cr_ok_mono) auto
      then show ?thesis using t(2) il unfolding c by simp
    qed
  qed
  then show "cr_ok S (D - {i}) ?c" "steady c ?c"
    "i \<in> set (pending_interactions ?c) \<Longrightarrow> x_state (c_heap ?c ! i) = x_state (c_heap c ! i)" by simp_all
qed

lemma timer_ok:
  assumes ok: "cr_ok {} {} c" and i: "i < length (c_heap c)" "x_timer (c_heap c ! i) \<noteq> None"
  shows "cr_ok {} {} (expiration_fires e i c)"
proof -
  let ?c = "upd_x i (\<lambda>x. x\<lparr>x_timer := None\<rparr>) c"
  have ip: "i \<in> set (pending_interactions c)"
  proof (rule ccontr)
    assume "i \<notin> set (pending_interactions c)"
    then have "x_timer (c_heap c ! i) = None" using cr_okD(2) [OF ok] i(1) unfolding done_ok_def by blast
    then show False using i(2) by simp
  qed
  note t = set_timer_ok [OF ok ip, of None]
  have pc: "pending_interactions ?c = pending_interactions c" by (simp add: pending_interactions_def)
  have g: "get_interaction (x_key (c_heap c ! i)) ?c = Some i"
    using pendingD(5) [OF cr_okD(1) [OF ok] ip] by (simp add: get_interaction_def)
  show ?thesis
  proof (cases "isExpired e (c_heap ?c ! i)")
    case True
    then obtain s where "closes i (RejectExpired s) ?c (expire e i ?c)" using closes_expired by blast
    from closes_facts(1) [OF t(1) this] show ?thesis using True g by (simp add: expiration_fires_def Let_def)
  next
    case False
    have "cr_ok {} (insert i {} - {i}) (scheduleExpiration e i ?c)"
      by (rule scheduled_ok(1) [OF t(1)]) (use ip pc in simp)
    then show ?thesis using False g by (simp add: expiration_fires_def Let_def)
  qed
qed

lemma new_interaction_fresh:
  assumes "new_interaction e m p opt uuid c = Inr x"
  shows "x_state x = Waiting" "x_calls x = []" "x_timer x = None" "get_interaction (x_key x) c = None"
  using assms by (auto simp: new_interaction_def Let_def split: if_splits option.splits)

lemma register_ok:
  assumes ok: "cr_ok {} {} c" and x: "x_state x = Waiting" "x_calls x = []" "get_interaction (x_key x) c = None"
    and r: "register_interaction x c = (c', i)"
  shows "cr_ok {i} {i} c'" "i \<in> set (pending_interactions c')" "x_state (c_heap c' ! i) = Waiting" "x_key (c_heap c' ! i) = x_key x"
proof -
  note m = cr_okD(1) [OF ok]
  have c': "c' = c\<lparr>c_heap := c_heap c @ [x], c_interactions := c_interactions c @ [(x_key x, length (c_heap c))]\<rparr>" "i = length (c_heap c)"
    using r by (auto simp: register_interaction_def)
  have il: "j \<in> set (pending_interactions c) \<Longrightarrow> j < length (c_heap c)" for j using pendingD(1) [OF m] .
  have p: "set (pending_interactions c') = insert i (set (pending_interactions c))" by (auto simp: pending_interactions_def c')
  have xi: "c_heap c' ! i = x" and xj: "j \<in> set (pending_interactions c) \<Longrightarrow> c_heap c' ! j = c_heap c ! j" for j
    using il by (simp_all add: c' nth_append)
  show "i \<in> set (pending_interactions c')" "x_state (c_heap c' ! i) = Waiting" "x_key (c_heap c' ! i) = x_key x"
    using p xi x by simp_all
  have nk: "x_key x \<notin> fst ` set (c_interactions c)"
    using x(3) by (simp add: get_interaction_def map_of_eq_None_iff)
  have "map_ok c'"
    unfolding map_ok_def
  proof (intro conjI allI impI)
    show "distinct (map fst (c_interactions c'))" using map_okD(1) [OF m] nk by (simp add: c')
    fix k j assume "(k, j) \<in> set (c_interactions c')"
    then consider "(k, j) \<in> set (c_interactions c)" | "k = x_key x" "j = i" by (auto simp: c')
    then have "j < length (c_heap c') \<and> x_key (c_heap c' ! j) = k \<and> \<not> is_settled (x_state (c_heap c' ! j)) \<and> x_calls (c_heap c' ! j) = []"
    proof cases
      case 1
      then have "j \<in> set (pending_interactions c)" by (force simp: pending_interactions_def)
      then show ?thesis using 1 m xj [of j] unfolding map_ok_def by (simp add: c' less_Suc_eq)
    next
      case 2
      then show ?thesis using xi x by (simp add: c')
    qed
    then show "j < length (c_heap c')" "x_key (c_heap c' ! j) = k" "\<not> is_settled (x_state (c_heap c' ! j))" "x_calls (c_heap c' ! j) = []"
      by simp_all
  qed
  moreover have "done_ok c'"
    using cr_okD(2) [OF ok] p unfolding done_ok_def by (auto simp: c' nth_append less_Suc_eq)
  moreover have "deliveries_ok c'"
  proof -
    have st: "(\<exists>j \<in> set (pending_interactions c'). x_state (c_heap c' ! j) = Delivered d) \<longleftrightarrow>
        (\<exists>j \<in> set (pending_interactions c). x_state (c_heap c ! j) = Delivered d)" for d
      unfolding p using xi x(1) xj by auto
    have old: "j \<in> set (pending_interactions c')  \<Longrightarrow> x_state (c_heap c' ! j) = Delivered d \<Longrightarrow> j \<in> set (pending_interactions c) \<and> x_state (c_heap c ! j) = Delivered d
        \<and> x_key (c_heap c' ! j) = x_key (c_heap c ! j)" for j d
      unfolding p using xi x(1) xj [of j] by auto
    have e: "c_deliveries c' = c_deliveries c" "c_next c' = c_next c" by (simp_all add: c')
    note d = deliveries_okD [OF cr_okD(3) [OF ok]]
    show ?thesis
      unfolding deliveries_ok_def st e
    proof (intro conjI allI ballI impI)
      show "c_deliveries c n = Some del \<longleftrightarrow> d_id del = n \<and> n < c_next c \<and>
          (\<exists>j \<in> set (pending_interactions c). x_state (c_heap c ! j) = Delivered del)" for n del by (rule d(1))
      show "d_key del = x_key (c_heap c' ! j)" "d_id del < c_next c"
        if "j \<in> set (pending_interactions c')" "x_state (c_heap c' ! j) = Delivered del" for j del
        using old [OF that] d(2) [of j del] by simp_all
      show "j = k" if "j \<in> set (pending_interactions c')" "k \<in> set (pending_interactions c')" "x_state (c_heap c' ! j) = Delivered d1"
          "x_state (c_heap c' ! k) = Delivered d2" "d_id d1 = d_id d2" for j k d1 d2
        using old [OF that(1,3)] old [OF that(2,4)] that(5) d(3) by blast
    qed
  qed
  moreover have "responders_ok c'" using cr_okD(4) [OF ok] by (simp add: responders_ok_def c')
  moreover have "places_ok {i} {i} c'"
    unfolding places_ok_def
  proof (intro ballI conjI impI)
    fix j assume "j \<in> set (pending_interactions c')"
    then have j: "j \<noteq> i \<Longrightarrow> j \<in> set (pending_interactions c)" using p by simp
    show "at_home c' j" if "j \<notin> {i}"
      by (rule at_home_frame [OF places_okD(1) [OF cr_okD(5) [OF ok] j]]) (use that xj j in \<open>simp_all add: c'(1)\<close>)
    show "armed (c_heap c' ! j)" if "j \<notin> {i}"
      using places_okD(2) [OF cr_okD(5) [OF ok] j] xj [OF j] that by simp
  qed
  ultimately show "cr_ok {i} {i} c'" by (simp add: cr_ok_def)
qed

lemma request_ok:
  assumes ok: "cr_ok {} {} c" and r: "request_client e m p opt uuid c = Inr (c', i)"
  shows "cr_ok {} {} c'"
proof -
  obtain x where x: "new_interaction e m p opt uuid c = Inr x" using r by (auto simp: request_client_def split: sum.splits)
  obtain c1 n where g: "register_interaction x c = (c1, n)" by (cases "register_interaction x c")
  note f = new_interaction_fresh [OF x] and k = register_ok [OF ok new_interaction_fresh(1,2,4) [OF x] g]
  let ?c = "scheduleExpiration e n c1"
  have c': "c' = (if get_interaction (x_key x) ?c = Some n then deliver e n ?c else ?c)"
    using r x g by (auto simp: request_client_def Let_def)
  have s: "cr_ok {n} {} ?c" using scheduled_ok(1) [OF k(1,2), of e] by simp
  show ?thesis
  proof (cases "get_interaction (x_key x) ?c = Some n")
    case True
    have np: "n \<in> set (pending_interactions ?c)" using get_pending(1) [OF cr_okD(1) [OF s] True] .
    have "x_state (c_heap ?c ! n) = Waiting" using scheduled_ok(3) [OF k(1,2) np] k(3) by simp
    then have "cr_ok ({n} - {n}) {} (deliver e n ?c)" by (rule deliver_ok(1) [OF s np])
    then show ?thesis using True by (simp add: c')
  next
    case False
    have st: "steady c1 ?c" by (rule scheduled_ok(2) [OF k(1,2)])
    have "n \<notin> set (pending_interactions ?c)"
    proof
      assume n: "n \<in> set (pending_interactions ?c)"
      have "x_key (c_heap ?c ! n) = x_key x"
        using st k(4) pendingD(1) [OF cr_okD(1) [OF k(1)] k(2)] by (simp add: steady_def same_request_def)
      then show False using pendingD(5) [OF cr_okD(1) [OF s] n] False by simp
    qed
    then have "cr_ok {} {} ?c" by (intro cr_ok_mono [OF s]) auto
    then show ?thesis using False by (simp add: c')
  qed
qed

section \<open>Responses\<close>

text \<open>The table never holds a delivery that is not current.\<close>

lemma lookup_delivery:
  assumes ok: "cr_ok S D c"
  shows "getByDeliveryId n c = (c, snd (getByDeliveryId n c))"
    and "snd (getByDeliveryId n c) = Some (i, d) \<Longrightarrow> i \<in> set (pending_interactions c) \<and> x_state (c_heap c ! i) = Delivered d \<and> d_id d = n"
proof -
  have key: "get_interaction (d_key del) c = Some j" if "j \<in> set (pending_interactions c)" "x_state (c_heap c ! j) = Delivered del" for j del
    using pendingD(5) [OF cr_okD(1) [OF ok] that(1)] deliveries_okD(2) [OF cr_okD(3) [OF ok] that] by simp
  have cur: "\<exists>j \<in> set (pending_interactions c). x_state (c_heap c ! j) = Delivered del" "d_id del = n" if "c_deliveries c n = Some del" for del
    using that deliveries_okD(1) [OF cr_okD(3) [OF ok]] by blast+
  show "getByDeliveryId n c = (c, snd (getByDeliveryId n c))"
    using key cur(1) by (fastforce simp: getByDeliveryId_def split: option.splits)
  show "snd (getByDeliveryId n c) = Some (i, d) \<Longrightarrow> i \<in> set (pending_interactions c) \<and> x_state (c_heap c ! i) = Delivered d \<and> d_id d = n"
    using key cur get_pending(1) [OF cr_okD(1) [OF ok]]
    by (auto simp: getByDeliveryId_def split: option.splits if_splits)
qed

lemma closed_ok: "cr_ok {} {} c \<Longrightarrow> closes i k c c' \<Longrightarrow> cr_ok {} {} c'"
  using closes_facts(1) [of "{}" "{}" c i k c'] by simp

lemma expire_ok: "cr_ok {} {} c \<Longrightarrow> isExpired e (c_heap c ! i) \<Longrightarrow> cr_ok {} {} (expire e i c)"
  using closes_expired closed_ok by blast

lemma close_transport_ok:
  assumes ok: "cr_ok {} {} c"
  shows "cr_ok {} {} (c\<lparr>c_closed := n\<rparr>)"
proof (rule attachments_ok [OF ok])
  show "responders_ok (c\<lparr>c_closed := n\<rparr>)" using cr_okD(4) [OF ok] by (simp add: responders_ok_def)
  show "at_home (c\<lparr>c_closed := n\<rparr>) j" if "j \<in> set (pending_interactions c)" for j
    by (rule at_home_frame [OF places_okD(1) [OF cr_okD(5) [OF ok] that]]) simp_all
qed simp_all

lemma response_ok:
  assumes ok: "cr_ok {} {} c"
  shows "cr_ok {} {} (fst (handleResponseFromAttachment e a msg c))"
proof (cases msg)
  case NotAReply
  then show ?thesis using ok by (simp add: handleResponseFromAttachment_def)
next
  case (Reply mid client_reply)
  show ?thesis
  proof (cases "c_responders c (t_responder (c_attachments c ! a)) = Some a")
    case False
    then show ?thesis using ok Reply by (simp add: handleResponseFromAttachment_def Let_def)
  next
    case True
    show ?thesis
    proof (cases mid)
      case NullId
      let ?err = "Uncorrelated (case client_reply of ErrorReply err \<Rightarrow> Some err | _ \<Rightarrow> None)"
      let ?c = "failAttachment a ?err (c\<lparr>c_responders := (c_responders c)(t_responder (c_attachments c ! a) := None)\<rparr>)"
      have "cr_ok {} {} ?c" by (rule fail_ok [OF ok True])
      then have "cr_ok {} {} (?c\<lparr>c_closed := n\<rparr>)" for n
        by (rule close_transport_ok)
      then show ?thesis using True Reply NullId by (simp add: handleResponseFromAttachment_def Let_def)
    next
      case (DeliveryId d)
      have "cr_ok {} {} (settle_response e i client_reply c)" for i using closes_response closed_ok [OF ok] by metis
      then show ?thesis
        using True Reply DeliveryId lookup_delivery(1) [OF ok, of d] ok expire_ok [OF ok]
        by (cases "snd (getByDeliveryId d c)") (auto simp: handleResponseFromAttachment_def Let_def split: prod.splits)
    next
      case (ForeignId s)
      then show ?thesis using ok Reply True by (simp add: handleResponseFromAttachment_def Let_def)
    qed
  qed
qed

lemma response_of_ok:
  assumes ok: "cr_ok {} {} c"
  shows "cr_ok {} {} (fst (handleResponse e r msg c))"
proof (cases "c_responders c r")
  case None
  have "c1 = c" if "getByDeliveryId d c = (c1, x)" for d c1 x using lookup_delivery(1) [OF ok, of d] that by simp
  then have "fst (handleResponse e r msg c) = c"
    using None by (auto simp: handleResponse_def split: incoming.split rpc_id.split prod.split option.split)
  then show ?thesis using ok by simp
next
  case (Some a)
  then show ?thesis using response_ok [OF ok] by (simp add: handleResponse_def)
qed

lemma redeliver_ok:
  assumes ok: "cr_ok {} {} c"
  shows "cr_ok {} {} (fst (redeliver e key r c))"
proof (cases "get_interaction key c")
  case None
  then show ?thesis using ok by (simp add: redeliver_def)
next
  case (Some i)
  note m = cr_okD(1) [OF ok]
  have ip: "i \<in> set (pending_interactions c)" and xk: "x_key (c_heap c ! i) = key" using get_pending [OF m Some] .
  let ?x = "c_heap c ! i"
  show ?thesis
  proof (cases "\<exists>a p. c_responders c r = Some a \<and> x_responder ?x = r \<and> t_scope (c_attachments c ! a) = x_scope ?x
      \<and> t_ack (c_attachments c ! a) \<and> x_method ?x \<in> set (t_accepted (c_attachments c ! a)) \<and> \<not> isExpired e ?x
      \<and> x_state ?x = Delivered p")
    case True
    then obtain a p where a: "c_responders c r = Some a" "x_responder ?x = r" "t_scope (c_attachments c ! a) = x_scope ?x"
        "t_ack (c_attachments c ! a)" "x_method ?x \<in> set (t_accepted (c_attachments c ! a))" "\<not> isExpired e ?x"
        "x_state ?x = Delivered p" by blast
    obtain c1 d where rp: "replaceDelivery i a c = (c1, Some (p, d))" and mv: "moved i a c c1 d"
      by (rule replace_moved [OF ok ip a(7)])
    let ?c2 = "sendCancellation e i (Some p) Redelivered c1"
    have ms: "more_sent c1 ?c2" by (rule sendCancellation_sent)
    note e2 = more_sent_simps [OF ms]
    have ok2: "cr_ok {i} {} ?c2" by (rule more_sent_ok [OF moved_ok [OF ok ip mv] ms])
    have ip2: "i \<in> set (pending_interactions ?c2)" using ip moved_pending [OF mv] e2(7) by simp
    have x2: "c_heap ?c2 ! i = ?x\<lparr>x_state := Delivered d\<rparr>" "d_attachment d = a" "c_responders ?c2 = c_responders c"
        "c_attachments ?c2 = c_attachments c"
      using mv pendingD(1) [OF m ip] e2 by (simp_all add: moved_def)
    have xs: "x_state (c_heap ?c2 ! i) = Delivered d" using x2(1) by simp
    have tab: "c_deliveries ?c2 (d_id d) = Some d" "d_key d = x_key (c_heap ?c2 ! i)"
      using deliveries_okD(1) [OF cr_okD(3) [OF ok2]] deliveries_okD(2) [OF cr_okD(3) [OF ok2] ip2 xs] ip2 xs by blast+
    have ac: "snd (getByDeliveryId (d_id d) ?c2) = Some (i, d)"
      using pendingD(5) [OF cr_okD(1) [OF ok2] ip2] tab xs by (simp add: getByDeliveryId_def)
    have "fst (redeliver e key r c) = sendDelivery e i d ?c2"
      using Some a rp ac x2(1) lookup_delivery(1) [OF ok2, of "d_id d"]
      by (simp add: redeliver_def Let_def isExpired_def split: prod.split)
    moreover have "cr_ok ({i} - {i}) {} (sendDelivery e i d ?c2)"
      by (rule sendDelivery_ok(1) [OF ok2 ip2]) (use x2 a in simp_all)
    ultimately show ?thesis by simp
  next
    case False
    have nr: "replaceDelivery i a c = (c, None)" if "\<nexists>p. x_state ?x = Delivered p" for a
      using that by (simp add: replaceDelivery_def split: interaction_state.split)
    have "fst (redeliver e key r c) = c \<or> isExpired e ?x \<and> fst (redeliver e key r c) = expire e i c"
      using False Some nr by (cases "c_responders c r") (auto simp: redeliver_def Let_def)
    then show ?thesis using ok expire_ok [OF ok] by metis
  qed
qed

lemma cr_step_ok:
  assumes ok: "cr_ok {} {} c"
  shows "cr_ok {} {} (client_request_step e s c)"
proof (cases s)
  case (Attach r sc ms ack)
  then show ?thesis using ok attach_ok [OF ok] by (auto split: sum.split)
next
  case (Request m p opt uuid)
  then show ?thesis using ok request_ok [OF ok] by (auto split: sum.split)
qed (use ok in \<open>simp_all add: cr_detach_ok response_ok response_of_ok cancel_ok cancelAll_ok setMethods_ok commit_ok
    begin_ok redeliver_ok timer_ok\<close>)

lemma new_ok: "cr_ok {} {} newCoordinator"
  by (simp add: cr_ok_def map_ok_def done_ok_def deliveries_ok_def responders_ok_def places_ok_def newCoordinator_def pending_interactions_def)

lemma run_ok: "cr_ok {} {} (run_client_requests steps)"
proof -
  have "cr_ok {} {} c \<Longrightarrow> cr_ok {} {} (fold (\<lambda>(e, s). client_request_step e s) steps c)" for c :: "('a, 'b) coordinator"
    by (induction steps arbitrary: c) (auto simp: cr_step_ok simp del: client_request_step.simps)
  then show ?thesis unfolding run_client_requests_def using new_ok by blast
qed

end
