(* ===== verification/ClientRequestsProps.thy ===== *)
theory ClientRequestsProps
  imports ClientRequestsInv
begin

text \<open>
  What the client-request coordinator promises of a request: it is settled exactly once, until then it is with
  the one client it was meant for, only that client's answer resolves it, and its deadline is enforced.
\<close>

section \<open>Who resolves a request\<close>

definition resolved :: "('p, 'v) coordinator \<Rightarrow> (nat \<times> 'v) set" where
  "resolved c = {(i, v). i < length (c_heap c) \<and> Resolve v \<in> set (x_calls (c_heap c ! i))}"

definition silent :: "('p, 'v) coordinator \<Rightarrow> ('p, 'v) coordinator \<Rightarrow> bool" where
  "silent c c' \<longleftrightarrow> resolved c' \<subseteq> resolved c"

lemma silent_refl [simp]: "silent c c" by (simp add: silent_def)

lemma silent_trans: "silent c c' \<Longrightarrow> silent c' c'' \<Longrightarrow> silent c c''" by (auto simp: silent_def)

lemma quiet_heap: "map x_calls (c_heap c') = map x_calls (c_heap c) \<Longrightarrow> silent c c'"
proof -
  assume e: "map x_calls (c_heap c') = map x_calls (c_heap c)"
  then have l: "length (c_heap c') = length (c_heap c)" by (rule map_eq_imp_length_eq)
  have "x_calls (c_heap c' ! j) = x_calls (c_heap c ! j)" if "j < length (c_heap c)" for j
    using arg_cong [OF e, of "\<lambda>xs. xs ! j"] that l by simp
  then show ?thesis by (auto simp: silent_def resolved_def l)
qed

lemma quiet_fold: "(\<And>i c. silent c (f i c)) \<Longrightarrow> silent c (fold f is c)"
proof (induction "is" arbitrary: c)
  case (Cons i "is")
  then show ?case using silent_trans [of c "f i c"] by simp
qed simp

lemma closes_resolved:
  assumes "closes i k c c'"
  shows "resolved c' \<subseteq> resolved c \<union> {(i, v) | v. k = Resolve v}"
proof (cases "live i c")
  case True
  then obtain s where s: "more_sent (close i s k c) c'" using assms by (auto simp: closes_def)
  have "x_calls (c_heap c' ! j) = (if j = i then x_calls (c_heap c ! i) @ [k] else x_calls (c_heap c ! j))"
    if "j < length (c_heap c)" for j
    unfolding more_sent_simps(4) [OF s] close_simps using that by (simp add: nth_list_update)
  moreover have "length (c_heap c') = length (c_heap c)" unfolding more_sent_simps(4) [OF s] close_simps by simp
  ultimately show ?thesis by (auto simp: resolved_def split: if_splits)
qed (use assms in \<open>simp add: closes_def\<close>)

lemma closes_quiet: "closes i k c c' \<Longrightarrow> (\<And>v. k \<noteq> Resolve v) \<Longrightarrow> silent c c'"
  using closes_resolved [of i k c c'] by (auto simp: silent_def)

lemma quiet_reject: "silent c (rejectInteraction i err c)"
  by (rule closes_quiet [OF closes_reject]) simp

lemma quiet_cancel: "silent c (cancel_interaction e r i c)"
  by (rule closes_quiet [OF closes_cancel]) simp

lemma quiet_expire: "silent c (expire e i c)"
proof (cases "x_expires (c_heap c ! i)")
  case None
  then show ?thesis by (simp add: expire_def)
next
  case (Some sm)
  then show ?thesis by (cases sm) (auto intro: closes_quiet [OF closes_expire])
qed

lemma map_upd: "(\<And>x. x_calls (f x) = x_calls x) \<Longrightarrow> map x_calls (xs[i := f (xs ! i)]) = map x_calls xs"
  by (cases "i < length xs") (simp_all add: map_update list_update_same_conv list_update_beyond)

lemma quiet_schedule: "silent c (scheduleExpiration e i c)"
proof -
  have "silent c (upd_x i (\<lambda>x. x\<lparr>x_timer := t\<rparr>) c)" for t by (rule quiet_heap) (simp add: map_upd)
  then show ?thesis by (simp add: scheduleExpiration_def Let_def quiet_expire split: option.split)
qed

lemma quiet_send: "silent c (sendDelivery e i d c)"
  unfolding sendDelivery_def by (simp add: quiet_reject sends_def quiet_heap)

lemma quiet_begin: "silent c (fst (beginDelivery i a c))" "silent c (fst (replaceDelivery i a c))"
proof -
  have a: "map x_calls (c_heap (fst (activateDelivery i a c))) = map x_calls (c_heap c)" for c :: "('a, 'b) coordinator"
    by (simp add: activateDelivery_def Let_def map_upd)
  then show "silent c (fst (beginDelivery i a c))" by (simp add: beginDelivery_def quiet_heap)
  show "silent c (fst (replaceDelivery i a c))"
  proof (cases "x_state (c_heap c ! i)")
    case (Delivered p)
    let ?c = "(upd_x i (\<lambda>x. x\<lparr>x_state := Waiting\<rparr>) c)\<lparr>c_deliveries := (c_deliveries c)(d_id p := None)\<rparr>"
    have "fst (replaceDelivery i a c) = fst (activateDelivery i a ?c)"
      by (simp add: replaceDelivery_def Delivered split: prod.split option.split)
    then show ?thesis by (intro quiet_heap) (simp add: a map_upd)
  qed (simp_all add: replaceDelivery_def)
qed

lemma quiet_deliver: "silent c (deliver e i c)"
proof -
  have "silent c (case beginDelivery i a c of (c', None) \<Rightarrow> c' | (c', Some d) \<Rightarrow> sendDelivery e i d c')" for a
    using quiet_begin(1) [where c = c and i = i and a = a] silent_trans [OF _ quiet_send]
    by (auto split: prod.split option.split)
  then show ?thesis
    unfolding deliver_def Let_def using quiet_expire [of c e i] quiet_reject [of c i]
    by (simp split: option.split)
qed

lemma quiet_request: "request_client e m p opt uuid c = Inr (c', i) \<Longrightarrow> silent c c'"
proof -
  assume r: "request_client e m p opt uuid c = Inr (c', i)"
  obtain x where x: "new_interaction e m p opt uuid c = Inr x" using r by (auto simp: request_client_def split: sum.splits)
  obtain c1 n where g: "register_interaction x c = (c1, n)" by (cases "register_interaction x c")
  have 1: "silent c c1"
    using new_interaction_fresh(2) [OF x] g by (auto simp: register_interaction_def silent_def resolved_def nth_append less_Suc_eq)
  have "c' = deliver e n (scheduleExpiration e n c1) \<or> c' = scheduleExpiration e n c1"
    using r x g by (auto simp: request_client_def Let_def split: if_splits)
  then show "silent c c'"
    using silent_trans [OF 1 quiet_schedule] silent_trans [OF silent_trans [OF 1 quiet_schedule] quiet_deliver] by blast
qed

lemma quiet_failAttachment: "silent c (failAttachment a err c)"
  unfolding failAttachment_def by (rule quiet_fold) (simp add: fail_one_def Let_def quiet_reject)

lemma quiet_cancel_key: "silent c (cancel e key cancel_reason c)"
  by (simp add: cancel_def quiet_cancel split: option.split)

lemma quiet_timer: "silent c (expiration_fires e i c)"
proof -
  have u: "silent c (upd_x i (\<lambda>x. x\<lparr>x_timer := None\<rparr>) c)" by (rule quiet_heap) (simp add: map_upd)
  show ?thesis
    unfolding expiration_fires_def Let_def using u silent_trans [OF u quiet_expire] silent_trans [OF u quiet_schedule] by simp
qed

lemma quiet_lookup: "silent c (fst (getByDeliveryId n c))"
  by (rule quiet_heap) (simp add: getByDeliveryId_def split: option.split)

lemma quiet_sendCancellation: "silent c (sendCancellation e i d r c)"
  using more_sent_simps(4) [OF sendCancellation_sent [of c e i d r]] by (intro quiet_heap) simp

lemma quiet_redeliver: "silent c (fst (redeliver e key r c))"
proof (cases "get_interaction key c")
  case (Some i)
  obtain c1 o1 where rp: "replaceDelivery i (the (c_responders c r)) c = (c1, o1)"
    by (cases "replaceDelivery i (the (c_responders c r)) c")
  have 1: "silent c c1" using quiet_begin(2) [where c = c and i = i and a = "the (c_responders c r)"] rp by simp
  show ?thesis
  proof (cases o1)
    case None
    then show ?thesis using Some rp 1 quiet_expire [of c e i] by (simp add: redeliver_def Let_def)
  next
    case o1: (Some pd)
    obtain p d where pd: "pd = (p, d)" by (cases pd)
    obtain c3 act where lk: "getByDeliveryId (d_id d) (sendCancellation e i (Some p) Redelivered c1) = (c3, act)"
      by (cases "getByDeliveryId (d_id d) (sendCancellation e i (Some p) Redelivered c1)")
    have 3: "silent c c3"
      using silent_trans [OF silent_trans [OF 1 quiet_sendCancellation [of c1 e i "Some p" Redelivered]] quiet_lookup [of _ "d_id d"]] lk
      by simp
    then have "silent c (expire e i c3)" "silent c (sendDelivery e i d c3)"
      using silent_trans [OF 3 quiet_expire] silent_trans [OF 3 quiet_send] by blast+
    then show ?thesis using Some rp o1 pd lk 3 quiet_expire [of c e i] by (simp add: redeliver_def Let_def)
  qed
qed (simp add: redeliver_def)

lemma quiet_attachments: "c_heap c' = c_heap c \<Longrightarrow> silent c c'"
  by (rule quiet_heap) simp

lemma quiet_loop: "c_heap c' = c_heap c \<Longrightarrow> (\<And>i c. silent c (f i c)) \<Longrightarrow> silent c (fold f is c')"
  using silent_trans [OF quiet_attachments quiet_fold] .

lemma quiet_detach: "silent c (detachResponder e a c)"
  unfolding detachResponder_def Let_def by (auto intro!: quiet_loop simp: quiet_cancel)

lemma quiet_setMethods: "silent c (fst (setServerRequestMethods e a ms cancel_reason c))"
  unfolding setServerRequestMethods_def Let_def by (auto intro!: quiet_loop simp: quiet_cancel)

lemma quiet_commit: "silent c (commit_methods e a st c)"
  unfolding commit_methods_def Let_def by (auto intro!: quiet_loop simp: quiet_deliver)

lemma silent_cancelAll: "silent c (cancelAllRequests e cancel_reason c)"
  unfolding cancelAllRequests_def by (auto intro!: quiet_loop simp: quiet_cancel_key)

text \<open>Of a message of an attached client, only the answer to its own current delivery resolves anything.\<close>

lemma response_resolves:
  assumes ok: "cr_ok {} {} c"
    and r: "(i, v) \<in> resolved (fst (handleResponseFromAttachment e a msg c))" "(i, v) \<notin> resolved c"
  shows "\<exists>d v'. msg = Reply (DeliveryId (d_id d)) (ResultReply v') \<and> x_state (c_heap c ! i) = Delivered d \<and> d_attachment d = a
    \<and> t_scope (c_attachments c ! a) = x_scope (c_heap c ! i) \<and> i \<in> set (pending_interactions c)
    \<and> \<not> isExpired e (c_heap c ! i) \<and> e_result e (x_version (c_heap c ! i)) (x_method (c_heap c ! i)) v' = Some v"
proof -
  have nq: "\<not> silent c (fst (handleResponseFromAttachment e a msg c))" using r by (auto simp: silent_def)
  obtain mid client_reply where m: "msg = Reply mid client_reply"
    using nq by (cases msg) (auto simp: handleResponseFromAttachment_def)
  have att: "c_responders c (t_responder (c_attachments c ! a)) = Some a"
    using nq m by (auto simp: handleResponseFromAttachment_def Let_def split: if_splits)
  obtain n where n: "mid = DeliveryId n"
  proof (cases mid)
    case NullId
    let ?c = "c\<lparr>c_responders := (c_responders c)(t_responder (c_attachments c ! a) := None)\<rparr>"
    have "silent c (failAttachment a err ?c)" for err
      by (rule silent_trans [OF quiet_attachments quiet_failAttachment]) simp
    moreover have "silent c (c'\<lparr>c_closed := ns\<rparr>)" if "silent c c'" for c' ns
      by (rule silent_trans [OF that quiet_attachments]) simp
    ultimately have "silent c (fst (handleResponseFromAttachment e a msg c))"
      using att m NullId by (simp add: handleResponseFromAttachment_def Let_def)
    then show ?thesis using nq by simp
  next
    case (ForeignId s)
    then show ?thesis using nq m att by (simp add: handleResponseFromAttachment_def Let_def)
  qed
  obtain j d where l: "getByDeliveryId n c = (c, Some (j, d))"
    using nq m att n lookup_delivery(1) [OF ok, of n]
    by (cases "snd (getByDeliveryId n c)") (auto simp: handleResponseFromAttachment_def Let_def)
  have j: "j \<in> set (pending_interactions c)" "x_state (c_heap c ! j) = Delivered d" "d_id d = n"
    using lookup_delivery(2) [OF ok, of n j d] l by simp_all
  have g: "d_attachment d = a" "t_scope (c_attachments c ! a) = x_scope (c_heap c ! j)" "\<not> isExpired e (c_heap c ! j)"
    using nq m att n l quiet_expire [of c e j]
    by (auto simp: handleResponseFromAttachment_def Let_def split: if_splits)
  have f: "fst (handleResponseFromAttachment e a msg c) = settle_response e j client_reply c"
    using m att n l g by (simp add: handleResponseFromAttachment_def Let_def)
  obtain k where k: "closes j k c (settle_response e j client_reply c)"
    "\<forall>v. k = Resolve v \<longrightarrow> (\<exists>v'. client_reply = ResultReply v' \<and> e_result e (x_version (c_heap c ! j)) (x_method (c_heap c ! j)) v' = Some v)"
    using closes_response [of j c e client_reply] by blast
  have "i = j" "k = Resolve v" using closes_resolved [OF k(1)] r unfolding f by auto
  then show ?thesis using k(2) m n j g by auto
qed

lemma step_quiet:
  assumes "\<And>a msg. s \<noteq> Response_From a msg" and "\<And>r msg. s \<noteq> Response_Of r msg"
  shows "silent c (client_request_step e s c)"
proof (cases s)
  case (Attach r sc ms ack)
  then show ?thesis by (auto simp: attachResponder_def quiet_attachments split: option.split)
next
  case (Request m p opt uuid)
  then show ?thesis using quiet_request [of e m p opt uuid c] by (auto split: sum.split)
qed (use assms in \<open>simp_all add: quiet_detach quiet_cancel_key silent_cancelAll quiet_setMethods quiet_commit
    quiet_redeliver quiet_timer beginCapabilityNegotiation_def quiet_attachments\<close>)

section \<open>Properties\<close>

text \<open>An environment and a run for the examples: one client, one request, with a deadline at 5000.\<close>

definition example_env :: "int \<Rightarrow> (unit, nat) env" where
  "example_env t = \<lparr>e_now = t, e_gone = (\<lambda>_. False), e_available = (\<lambda>_ _. True), e_defined = (\<lambda>_ _. True),
     e_negotiates = (\<lambda>_. False), e_params = (\<lambda>_ _ p. Some p), e_result = (\<lambda>_ _ v. Some v), e_expires_in = (\<lambda>_. None),
     e_id_in = (\<lambda>_. None), e_id_ok = (\<lambda>_. True), e_timestamp = (\<lambda>_. Some 5000), e_cancel_ok = (\<lambda>_ _. True)\<rparr>"

definition example_steps :: "((unit, nat) env \<times> (unit, nat) client_request_event) list" where
  "example_steps =
     [(example_env 0, Attach ''r'' ''s'' [''approval.request''] True),
      (example_env 1, Request ''approval.request'' ()
         \<lparr>o_key = ''k'', o_scope = ''s'', o_responder = ''r'', o_approval = None, o_expires = Some ''t'', o_version = ''1.1''\<rparr> ''u'')]"

definition example_answer :: "(unit, nat) client_request_event" where
  "example_answer = Response_From 0 (Reply (DeliveryId 0) (ResultReply 7))"

text \<open>C8: Every request is settled exactly once: while it is pending nothing has settled its promise; once it is not,
  exactly one call has, its timer is cleared and its delivery is gone: every delivery an answer could still
  match is the present one of another request that is still pending.\<close>

theorem request_settled_once:
  assumes "i < length (c_heap (run_client_requests steps))"
  shows "if i \<in> set (pending_interactions (run_client_requests steps)) then x_calls (c_heap (run_client_requests steps) ! i) = []
    else (\<exists>k. x_calls (c_heap (run_client_requests steps) ! i) = [k]) \<and> x_timer (c_heap (run_client_requests steps) ! i) = None
      \<and> (\<forall>n d. c_deliveries (run_client_requests steps) n = Some d \<longrightarrow>
           (\<exists>j \<in> set (pending_interactions (run_client_requests steps)). j \<noteq> i
              \<and> x_state (c_heap (run_client_requests steps) ! j) = Delivered d \<and> d_id d = n
              \<and> d_key d = x_key (c_heap (run_client_requests steps) ! j)))"
proof -
  let ?c = "run_client_requests steps"
  note ok = run_ok [of steps]
  show ?thesis
  proof (cases "i \<in> set (pending_interactions ?c)")
    case True
    then show ?thesis using pendingD(4) [OF cr_okD(1) [OF ok] True] by simp
  next
    case False
    then have "length (x_calls (c_heap ?c ! i)) = 1" "x_timer (c_heap ?c ! i) = None"
      using cr_okD(2) [OF ok] assms unfolding done_ok_def by blast+
    moreover have "\<exists>j \<in> set (pending_interactions ?c). j \<noteq> i \<and> x_state (c_heap ?c ! j) = Delivered d \<and> d_id d = n
        \<and> d_key d = x_key (c_heap ?c ! j)" if "c_deliveries ?c n = Some d" for n d
      using cr_okD(3) [OF ok] that False unfolding deliveries_ok_def by metis
    ultimately show ?thesis using False by (simp add: length_Suc_conv)
  qed
qed

lemma request_settled_once_witness:
  "x_timer (c_heap (run_client_requests (example_steps @ [(example_env 2, example_answer)])) ! 0) = None"
proof -
  let ?steps = "example_steps @ [(example_env 2, example_answer)]"
  have "0 < length (c_heap (run_client_requests ?steps))" "0 \<notin> set (pending_interactions (run_client_requests ?steps))" by code_simp+
  then show ?thesis using request_settled_once [of 0 ?steps] by simp
qed


text \<open>C10: No request is stranded: a pending request's client is attached in the request's scope, and the request waits
  for that client's capabilities to be acknowledged or is delivered to it, sent over its transport.\<close>

theorem no_request_stranded:
  assumes "i \<in> set (pending_interactions (run_client_requests steps))"
  shows "\<exists>a. c_responders (run_client_requests steps) (x_responder (c_heap (run_client_requests steps) ! i)) = Some a
    \<and> t_scope (c_attachments (run_client_requests steps) ! a) = x_scope (c_heap (run_client_requests steps) ! i)
    \<and> (x_state (c_heap (run_client_requests steps) ! i) = Waiting \<and> \<not> t_ack (c_attachments (run_client_requests steps) ! a)
       \<or> (\<exists>d. x_state (c_heap (run_client_requests steps) ! i) = Delivered d \<and> d_attachment d = a
            \<and> (a, SendRequest (d_id d) (x_method (c_heap (run_client_requests steps) ! i)) (x_params (c_heap (run_client_requests steps) ! i)))
                \<in> set (c_sent (run_client_requests steps))))"
  using places_okD(1) [OF cr_okD(5) [OF run_ok] assms] unfolding at_home_def by simp

lemma no_request_stranded_witness:
  "\<exists>a. c_responders (run_client_requests example_steps) (x_responder (c_heap (run_client_requests example_steps) ! 0)) = Some a"
proof -
  have "0 \<in> set (pending_interactions (run_client_requests example_steps))" by code_simp
  from no_request_stranded [OF this] show ?thesis by blast
qed


text \<open>C11: A deadline is not passed unnoticed: a pending request with a deadline has a timer due no later than the
  deadline, and when it fires at the deadline or after it the request is rejected as expired.\<close>

theorem deadline_enforced:
  assumes "i \<in> set (pending_interactions (run_client_requests steps))" and "x_expires (c_heap (run_client_requests steps) ! i) = Some (s, ms)"
    and "ms \<le> e_now e"
  shows "\<exists>due \<le> ms. x_timer (c_heap (run_client_requests steps) ! i) = Some due
    \<and> i \<notin> set (pending_interactions (client_request_step e (Timer i) (run_client_requests steps)))
    \<and> x_calls (c_heap (client_request_step e (Timer i) (run_client_requests steps)) ! i) = [RejectExpired s]"
proof -
  let ?c = "run_client_requests steps"
  let ?u = "upd_x i (\<lambda>x. x\<lparr>x_timer := None\<rparr>) ?c"
  note ok = run_ok [of steps] and i = assms(1)
  have il: "i < length (c_heap ?c)" and nc: "x_calls (c_heap ?c ! i) = []" using pendingD(1,4) [OF cr_okD(1) [OF ok] i] .
  obtain due where due: "x_timer (c_heap ?c ! i) = Some due" "due \<le> ms"
    using places_okD(2) [OF cr_okD(5) [OF ok] i] assms(2) unfolding armed_def by blast
  note t = set_timer_ok [OF ok i, of None]
  have x: "x_expires (c_heap ?u ! i) = Some (s, ms)" "x_calls (c_heap ?u ! i) = []" using il nc assms(2) by simp_all
  have st: "client_request_step e (Timer i) ?c = expire e i ?u"
    using due(1) il assms(2,3) pendingD(5) [OF cr_okD(1) [OF ok] i]
    by (simp add: expiration_fires_def Let_def get_interaction_def isExpired_def)
  have iu: "i \<in> set (pending_interactions ?u)" using i by (simp add: pending_interactions_def)
  have cl: "closes i (RejectExpired s) ?u (expire e i ?u)" by (rule closes_expire [OF x(1)])
  obtain k where k: "more_sent (close i k (RejectExpired s) ?u) (expire e i ?u)"
    using cl iu live_pending [OF cr_okD(1) [OF t(1)]] by (auto simp: closes_def)
  have "x_calls (c_heap (expire e i ?u) ! i) = [RejectExpired s]"
    unfolding more_sent_simps(4) [OF k] close_simps using il x(2) by simp
  then show ?thesis using due closes_facts(3) [OF t(1) cl] st by auto
qed

lemma deadline_enforced_witness:
  "0 \<notin> set (pending_interactions (client_request_step (example_env 6000) (Timer 0) (run_client_requests example_steps)))"
proof -
  have "0 \<in> set (pending_interactions (run_client_requests example_steps))"
    "x_expires (c_heap (run_client_requests example_steps) ! 0) = Some (''t'', 5000)" "5000 \<le> e_now (example_env 6000)" by code_simp+
  from deadline_enforced [OF this] show ?thesis by blast
qed


text \<open>C9: Only the client a request is addressed to can resolve it: a step that resolves it is the answer, to the
  identifier of its current delivery, of the client attached under its responder's id in its scope, before its
  deadline, with a result the protocol's schema accepts.\<close>

theorem only_addressee_resolves:
  assumes "i < length (c_heap (client_request_step e s (run_client_requests steps)))"
    and "Resolve v \<notin> set (x_calls (c_heap (run_client_requests steps) ! i))"
    and "Resolve v \<in> set (x_calls (c_heap (client_request_step e s (run_client_requests steps)) ! i))"
  shows "\<exists>a d v'. (s = Response_From a (Reply (DeliveryId (d_id d)) (ResultReply v'))
      \<or> s = Response_Of (x_responder (c_heap (run_client_requests steps) ! i)) (Reply (DeliveryId (d_id d)) (ResultReply v')))
    \<and> x_state (c_heap (run_client_requests steps) ! i) = Delivered d \<and> d_attachment d = a
    \<and> c_responders (run_client_requests steps) (x_responder (c_heap (run_client_requests steps) ! i)) = Some a
    \<and> t_scope (c_attachments (run_client_requests steps) ! a) = x_scope (c_heap (run_client_requests steps) ! i)
    \<and> \<not> isExpired e (c_heap (run_client_requests steps) ! i)
    \<and> e_result e (x_version (c_heap (run_client_requests steps) ! i)) (x_method (c_heap (run_client_requests steps) ! i)) v' = Some v"
proof -
  let ?c = "run_client_requests steps"
  note ok = run_ok [of steps]
  have r: "(i, v) \<notin> resolved ?c" using assms(2) by (simp add: resolved_def)
  have r': "(i, v) \<in> resolved (client_request_step e s ?c)" using assms(1,3) by (simp add: resolved_def)
  have from_a: ?thesis if h: "(i, v) \<in> resolved (fst (handleResponseFromAttachment e a msg ?c))"
      and s: "s = Response_From a msg \<or> s = Response_Of (t_responder (c_attachments ?c ! a)) msg" for a msg
  proof -
    obtain d v' where d: "msg = Reply (DeliveryId (d_id d)) (ResultReply v')" "x_state (c_heap ?c ! i) = Delivered d"
        "d_attachment d = a" "t_scope (c_attachments ?c ! a) = x_scope (c_heap ?c ! i)" "i \<in> set (pending_interactions ?c)"
        "\<not> isExpired e (c_heap ?c ! i)" "e_result e (x_version (c_heap ?c ! i)) (x_method (c_heap ?c ! i)) v' = Some v"
      using response_resolves [OF ok h r] by blast
    obtain b where b: "c_responders ?c (x_responder (c_heap ?c ! i)) = Some b" "t_responder (c_attachments ?c ! b) = x_responder (c_heap ?c ! i)"
        "x_state (c_heap ?c ! i) = Waiting \<and> \<not> t_ack (c_attachments ?c ! b)
          \<or> (\<exists>d. x_state (c_heap ?c ! i) = Delivered d \<and> d_attachment d = b
            \<and> (b, SendRequest (d_id d) (x_method (c_heap ?c ! i)) (x_params (c_heap ?c ! i))) \<in> set (c_sent ?c))"
      by (rule home [OF ok d(5)])
    have "b = a" using b(3) d(2,3) by auto
    then show ?thesis using s d b(1,2) by auto
  qed
  have nq: "\<not> silent ?c (client_request_step e s ?c)" using r r' by (auto simp: silent_def)
  then consider a msg where "s = Response_From a msg" | rs msg where "s = Response_Of rs msg"
    using step_quiet [of s ?c e] by blast
  then show ?thesis
  proof cases
    case 1
    then show ?thesis using from_a [of a msg] r r' by (simp split: if_splits)
  next
    case 2
    show ?thesis
    proof (cases "c_responders ?c rs")
      case None
      have "silent ?c (fst (handleResponse e rs msg ?c))"
        using None quiet_lookup [of ?c]
        by (auto simp: handleResponse_def split: incoming.split rpc_id.split prod.split option.split) (metis fst_conv)+
      then show ?thesis using nq 2 by simp
    next
      case (Some a)
      then have "t_responder (c_attachments ?c ! a) = rs" using cr_okD(4) [OF ok] by (simp add: responders_ok_def)
      then show ?thesis using from_a [of a msg] r' 2 Some by (simp add: handleResponse_def)
    qed
  qed
qed

lemma only_addressee_resolves_witness:
  "\<exists>a. c_responders (run_client_requests example_steps) (x_responder (c_heap (run_client_requests example_steps) ! 0)) = Some a
    \<and> \<not> isExpired (example_env 2) (c_heap (run_client_requests example_steps) ! 0)"
proof -
  have "0 < length (c_heap (client_request_step (example_env 2) example_answer (run_client_requests example_steps)))"
    "Resolve 7 \<notin> set (x_calls (c_heap (run_client_requests example_steps) ! 0))"
    "Resolve 7 \<in> set (x_calls (c_heap (client_request_step (example_env 2) example_answer (run_client_requests example_steps)) ! 0))"
    by code_simp+
  from only_addressee_resolves [OF this] show ?thesis by blast
qed


end
