(* ===== verification/EventRecovery.thy ===== *)
theory EventRecovery
  imports Prelude
begin

text \<open>
  The recovery of a thread's events on a client (\<open>RuntimeEventRecoveryManager\<close> in
  \<open>packages/client-node/src/runtime-event-recovery.ts\<close>): the application claims a thread; the manager
  buffers its durable events while it asks the runtime for a snapshot or a replay, then hands them to the
  application in order, each once, and goes back to a snapshot when the stream is broken.

  A claim (\<open>ThreadRecoveryState\<close>) is an object the code compares by identity: claims live in a list
  that only grows. Each has at most one asynchronous function in progress, the start of the claim or a
  drain of its buffer; where that function is suspended is part of the claim, and \<open>continue_claim\<close> runs
  it to its next await. A callback of the application is a logged call; it may settle in any way, at any
  time, and what it calls on the manager is a step of its own. Identifiers and digests are numbers, and
  the protocol version of an event has become its kind.
\<close>

section \<open>Cursors\<close>

text \<open>A cursor string names the log, the position in the thread and the event there.\<close>

record cursor_parts =
  cu_log :: nat
  cu_seq :: nat
  cu_event :: nat

type_synonym position = "cursor_parts option"

datatype snapshot_reason = SR_Initial | SR_RuntimeRestarted | SR_CursorExpired | SR_CursorGap
  | SR_StreamGap | SR_BufferOverflow | SR_CursorConflict | SR_ProtocolUnsupported

text \<open>Errors: a broken stream, a cursor the runtime refuses, the manager's own, and all others.\<close>

datatype recovery_error = RE_Integrity snapshot_reason | RE_Rpc snapshot_reason | RE_Stopped
  | RE_Closed | RE_Owned | RE_OtherThread | RE_NoCursor | RE_NoProjection | RE_Other nat

definition comparableCursors :: "cursor_parts \<Rightarrow> cursor_parts \<Rightarrow> bool" where
  "comparableCursors l r \<longleftrightarrow>
     cu_log l = cu_log r \<and> (cu_seq l = cu_seq r \<longrightarrow> cu_event l = cu_event r)"

definition cursor_conflict :: recovery_error where
  "cursor_conflict = RE_Integrity SR_CursorConflict"

definition stream_gap :: recovery_error where
  "stream_gap = RE_Integrity SR_StreamGap"

fun safeCompareCursors :: "position \<Rightarrow> position \<Rightarrow> recovery_error + int" where
  "safeCompareCursors None None = Inr 0"
| "safeCompareCursors None (Some r) = Inr (- 1)"
| "safeCompareCursors (Some l) None = Inr 1"
| "safeCompareCursors (Some l) (Some r) =
     (if \<not> comparableCursors l r then Inl cursor_conflict
      else if cu_seq l < cu_seq r then Inr (- 1)
      else if cu_seq l > cu_seq r then Inr 1 else Inr 0)"

fun safeCursorDistance :: "position \<Rightarrow> position \<Rightarrow> recovery_error + int" where
  "safeCursorDistance None None = Inr 0"
| "safeCursorDistance None (Some t) = Inr (int (cu_seq t) + 1)"
| "safeCursorDistance (Some f) None = Inr (- (int (cu_seq f) + 1))"
| "safeCursorDistance (Some f) (Some t) =
     (if \<not> comparableCursors f t then Inl cursor_conflict else Inr (int (cu_seq t) - int (cu_seq f)))"

section \<open>Data\<close>

datatype event_kind = Durable | Ephemeral | Unrecoverable

record recovery_event =
  ev_thread :: nat
  ev_instance :: nat
  ev_kind :: event_kind
  ev_id :: nat
  ev_cursor :: cursor_parts
  ev_print :: nat
  ev_bytes :: nat

record seen_event =
  sn_cursor :: cursor_parts
  sn_print :: nat

record recovery_checkpoint =
  cp_thread :: nat
  cp_instance :: nat
  cp_cursor :: position

record recovery_snapshot =
  ss_projection :: bool
  ss_cursor :: "position option"

record barrier =
  br_through :: position
  br_replayed :: nat

datatype recovery_phase = Buffering | Draining | Live | FailedPhase | StoppedPhase

text \<open>The calls of the application's callbacks.\<close>

datatype app_call = AppliedSnapshot snapshot_reason recovery_snapshot
  | DeliveredEvent recovery_event recovery_checkpoint
  | ObservedEphemeral recovery_event
  | ObservedError recovery_error

text \<open>Who called \<open>resumeFrom\<close> or \<open>deliverBatch\<close>: the start of a claim with a checkpoint, an attempt of
  \<open>snapshotAndResume\<close>, or the drain of a live claim.\<close>

datatype caller = FromCheckpoint | FromSnapshot nat | FromLive

text \<open>Where a claim's asynchronous function is suspended: at the request of a snapshot, at its
  application, at the request of a replay, at the delivery of an event with the rest of its batch; and,
  when an inner promise has settled and its caller has not run yet, after a batch, after an error in what
  a caller called, after a recovery that succeeded or failed, and before the \<open>finally\<close> of a drain.\<close>

datatype pc = AtSnapshot nat snapshot_reason
  | AtApply nat snapshot_reason recovery_snapshot
  | AtResume caller position
  | AtDeliver caller recovery_event "recovery_event list"
  | AfterBatch caller
  | AfterRaise caller recovery_error
  | AfterRecovery
  | AfterRecoveryError recovery_error
  | AfterDrain
  | NoTask

record claimed_thread =
  cl_thread :: nat
  cl_instance :: nat
  cl_given :: "recovery_checkpoint option"
  cl_buffer :: "recovery_event list"
  cl_bufferedById :: "(nat \<times> seen_event) list"
  cl_bufferedByCursor :: "(cursor_parts \<times> nat) list"
  cl_seenById :: "(nat \<times> seen_event) list"
  cl_seenByCursor :: "(cursor_parts \<times> nat) list"
  cl_phase :: recovery_phase
  cl_checkpoint :: recovery_checkpoint
  cl_bytes :: nat
  cl_error :: "snapshot_reason option"
  cl_liveDrain :: bool
  cl_starting :: bool
  cl_pc :: pc
  cl_stored :: "recovery_checkpoint option"
  cl_calls :: "app_call list"
  cl_accepted :: "recovery_event list"

text \<open>\<open>cl_starting\<close> tells the start of the claim from a drain, \<open>cl_stored\<close> is what the step in progress
  has put into the manager's map of checkpoints, and \<open>cl_accepted\<close> is a history: the durable events that
  came in since the last snapshot was applied.\<close>

record recovery_manager =
  mg_claims :: "claimed_thread list"
  mg_states :: "nat \<Rightarrow> nat option"
  mg_checkpoints :: "nat \<Rightarrow> recovery_checkpoint option"
  mg_closed :: bool

text \<open>A JavaScript \<open>Map\<close> keeps the order in which its keys were first set.\<close>

definition map_put :: "'k \<Rightarrow> 'v \<Rightarrow> ('k \<times> 'v) list \<Rightarrow> ('k \<times> 'v) list" where
  "map_put k v m = (if k \<in> fst ` set m then map (\<lambda>(a, b). if a = k then (a, v) else (a, b)) m
                   else m @ [(k, v)])"

definition map_drop :: "'k \<Rightarrow> ('k \<times> 'v) list \<Rightarrow> ('k \<times> 'v) list" where
  "map_drop k m = filter (\<lambda>(a, b). a \<noteq> k) m"

section \<open>The buffer of a claim\<close>

definition clearBuffer :: "claimed_thread \<Rightarrow> claimed_thread" where
  "clearBuffer c = c\<lparr>cl_buffer := [], cl_bytes := 0, cl_bufferedById := [], cl_bufferedByCursor := [],
     cl_error := None\<rparr>"

definition takeBuffer :: "claimed_thread \<Rightarrow> recovery_event list \<times> claimed_thread" where
  "takeBuffer c = (cl_buffer c,
     c\<lparr>cl_buffer := [], cl_bytes := 0, cl_bufferedById := [], cl_bufferedByCursor := []\<rparr>)"

text \<open>\<open>markIntegrityFailure\<close> and \<open>bufferDurableEvent\<close> without the drain they may schedule: both are
  called by \<open>acceptEvent\<close> only, which schedules it.\<close>

definition markIntegrityFailure :: "snapshot_reason \<Rightarrow> claimed_thread \<Rightarrow> claimed_thread" where
  "markIntegrityFailure r c =
     c\<lparr>cl_error := (case cl_error c of None \<Rightarrow> Some r | Some q \<Rightarrow> Some q)\<rparr>"

definition same_content :: "seen_event \<Rightarrow> recovery_event \<Rightarrow> bool" where
  "same_content s e \<longleftrightarrow> sn_cursor s = ev_cursor e \<and> sn_print s = ev_print e"

definition event_at_cursor :: "claimed_thread \<Rightarrow> cursor_parts \<Rightarrow> nat option" where
  "event_at_cursor c k = (case map_of (cl_bufferedByCursor c) k of
       Some i \<Rightarrow> Some i
     | None \<Rightarrow> map_of (cl_seenByCursor c) k)"

definition push_event :: "recovery_event \<Rightarrow> claimed_thread \<Rightarrow> claimed_thread" where
  "push_event e c = c\<lparr>cl_buffer := cl_buffer c @ [e], cl_bytes := cl_bytes c + ev_bytes e,
     cl_bufferedById :=
       map_put (ev_id e) \<lparr>sn_cursor = ev_cursor e, sn_print = ev_print e\<rparr> (cl_bufferedById c),
     cl_bufferedByCursor := map_put (ev_cursor e) (ev_id e) (cl_bufferedByCursor c)\<rparr>"

definition bufferDurableEvent :: "nat \<Rightarrow> nat \<Rightarrow> recovery_event \<Rightarrow> claimed_thread \<Rightarrow> claimed_thread" where
  "bufferDurableEvent N B e c = (case map_of (cl_seenById c) (ev_id e) of
       Some s \<Rightarrow> if same_content s e then c else markIntegrityFailure SR_CursorConflict c
     | None \<Rightarrow> (case map_of (cl_bufferedById c) (ev_id e) of
         Some s \<Rightarrow> if same_content s e then c else markIntegrityFailure SR_CursorConflict c
       | None \<Rightarrow>
           if event_at_cursor c (ev_cursor e) \<noteq> None \<and> event_at_cursor c (ev_cursor e) \<noteq> Some (ev_id e)
           then markIntegrityFailure SR_CursorConflict c
           else if length (cl_buffer c) + 1 > N \<or> cl_bytes c + ev_bytes e > B
           then markIntegrityFailure SR_BufferOverflow (clearBuffer c)
           else push_event e c))"

fun evict_seen :: "nat \<Rightarrow> (nat \<times> seen_event) list \<Rightarrow> (cursor_parts \<times> nat) list \<Rightarrow>
    (nat \<times> seen_event) list \<times> (cursor_parts \<times> nat) list" where
  "evict_seen N [] cs = ([], cs)"
| "evict_seen N ((i, s) # m) cs =
     (if length ((i, s) # m) > N then evict_seen N m (map_drop (sn_cursor s) cs)
      else ((i, s) # m, cs))"

definition rememberDelivered :: "nat \<Rightarrow> recovery_event \<Rightarrow> claimed_thread \<Rightarrow> claimed_thread" where
  "rememberDelivered N e c = (let
     (ids, cs) = evict_seen N
       (map_put (ev_id e) \<lparr>sn_cursor = ev_cursor e, sn_print = ev_print e\<rparr> (cl_seenById c))
       (map_put (ev_cursor e) (ev_id e) (cl_seenByCursor c))
     in c\<lparr>cl_seenById := ids, cl_seenByCursor := cs\<rparr>)"

section \<open>Batches\<close>

text \<open>\<open>batch.sort\<close>: a comparison sort that throws when it compares two cursors that cannot be compared.
  Neighbours of the sorted batch are always compared, so it throws exactly when some pair cannot be.\<close>

definition sort_batch :: "recovery_event list \<Rightarrow> recovery_error + recovery_event list" where
  "sort_batch b =
     (if \<forall>x \<in> set b. \<forall>y \<in> set b. comparableCursors (ev_cursor x) (ev_cursor y)
      then Inr (sort_key (\<lambda>e. cu_seq (ev_cursor e)) b) else Inl cursor_conflict)"

fun drop_seen :: "claimed_thread \<Rightarrow> recovery_event list \<Rightarrow> recovery_error + recovery_event list" where
  "drop_seen c [] = Inr []"
| "drop_seen c (e # es) = (case map_of (cl_seenById c) (ev_id e) of
       Some s \<Rightarrow> if same_content s e then drop_seen c es else Inl cursor_conflict
     | None \<Rightarrow>
         if map_of (cl_seenByCursor c) (ev_cursor e) \<noteq> None
            \<and> map_of (cl_seenByCursor c) (ev_cursor e) \<noteq> Some (ev_id e) then Inl cursor_conflict
         else sum_bind (drop_seen c es) (\<lambda>r. Inr (e # r)))"

definition prepareBatch ::
  "claimed_thread option \<Rightarrow> recovery_event list \<Rightarrow> recovery_error + recovery_event list" where
  "prepareBatch st b = sum_bind (sort_batch b) (\<lambda>s. case st of None \<Rightarrow> Inr s | Some c \<Rightarrow> drop_seen c s)"

text \<open>A \<open>filter\<close> whose predicate compares cursors, and throws with it.\<close>

fun filter_sum :: "('a \<Rightarrow> 'e + bool) \<Rightarrow> 'a list \<Rightarrow> 'e + 'a list" where
  "filter_sum f [] = Inr []"
| "filter_sum f (x # xs) = sum_bind (f x) (\<lambda>k. sum_bind (filter_sum f xs)
     (\<lambda>r. Inr (if k then x # r else r)))"

definition after_cursor :: "position \<Rightarrow> recovery_event \<Rightarrow> recovery_error + bool" where
  "after_cursor p e = (if p = None then Inr True
     else sum_bind (safeCompareCursors (Some (ev_cursor e)) p) (\<lambda>d. Inr (d > 0)))"

definition through_cursor :: "position \<Rightarrow> recovery_event \<Rightarrow> recovery_error + bool" where
  "through_cursor p e = sum_bind (safeCompareCursors (Some (ev_cursor e)) p) (\<lambda>d. Inr (d \<le> 0))"

definition check_barrier :: "position \<Rightarrow> barrier \<Rightarrow> recovery_event list \<Rightarrow> recovery_error + unit" where
  "check_barrier p b replayed =
     (if length replayed \<noteq> br_replayed b then Inl stream_gap
      else if br_replayed b = 0 then
        sum_bind (safeCompareCursors p (br_through b))
          (\<lambda>d. if d \<noteq> 0 then Inl stream_gap else Inr ())
      else if replayed = [] \<or> br_through b = None then Inl stream_gap
      else sum_bind (safeCompareCursors (Some (ev_cursor (last replayed))) (br_through b)) (\<lambda>d.
        if d \<noteq> 0 then Inl stream_gap
        else sum_bind (safeCursorDistance p (br_through b)) (\<lambda>k.
          if k \<noteq> int (br_replayed b) then Inl stream_gap else Inr ())))"

definition validateBarrier ::
  "recovery_event list \<Rightarrow> position \<Rightarrow> barrier \<Rightarrow> recovery_error + recovery_event list" where
  "validateBarrier batch p b =
     sum_bind (prepareBatch None batch) (\<lambda>prepared.
     sum_bind (filter_sum (after_cursor p) prepared) (\<lambda>after.
     sum_bind (if br_through b = None then Inr []
               else filter_sum (through_cursor (br_through b)) after) (\<lambda>replayed.
     sum_bind (check_barrier p b replayed) (\<lambda>_. Inr after))))"

section \<open>The asynchronous functions of a claim\<close>

text \<open>\<open>cur\<close> says that the manager is open and that the claim is the one of its thread.\<close>

definition isActive :: "bool \<Rightarrow> claimed_thread \<Rightarrow> bool" where
  "isActive cur c \<longleftrightarrow> cur \<and> cl_phase c \<noteq> StoppedPhase \<and> cl_phase c \<noteq> FailedPhase"

definition goto_pc :: "pc \<Rightarrow> claimed_thread \<Rightarrow> claimed_thread" where
  "goto_pc k c = c\<lparr>cl_pc := k\<rparr>"

definition call_app :: "app_call \<Rightarrow> claimed_thread \<Rightarrow> claimed_thread" where
  "call_app a c = c\<lparr>cl_calls := cl_calls c @ [a]\<rparr>"

definition failState :: "recovery_error \<Rightarrow> claimed_thread \<Rightarrow> claimed_thread" where
  "failState e c = (if cl_phase c = FailedPhase \<or> cl_phase c = StoppedPhase then c
     else call_app (ObservedError e) (clearBuffer (c\<lparr>cl_phase := FailedPhase\<rparr>)))"

text \<open>\<open>deliverBatch\<close> up to its next await.\<close>

fun deliverBatch :: "bool \<Rightarrow> caller \<Rightarrow> position \<Rightarrow> recovery_event list \<Rightarrow> claimed_thread \<Rightarrow> claimed_thread" where
  "deliverBatch cur k p [] c = goto_pc (AfterBatch k) c"
| "deliverBatch cur k p (e # es) c =
     (if \<not> isActive cur c then goto_pc (AfterRaise k RE_Stopped) c
      else (case safeCursorDistance p (Some (ev_cursor e)) of
          Inl err \<Rightarrow> goto_pc (AfterRaise k err) c
        | Inr d \<Rightarrow>
            if d \<le> 0 then deliverBatch cur k p es c
            else if d \<noteq> 1 then goto_pc (AfterRaise k stream_gap) c
            else goto_pc (AtDeliver k e es)
              (call_app (DeliveredEvent e \<lparr>cp_thread = cl_thread c, cp_instance = cl_instance c,
                 cp_cursor = Some (ev_cursor e)\<rparr>) c)))"

definition set_checkpoint :: "position \<Rightarrow> claimed_thread \<Rightarrow> claimed_thread" where
  "set_checkpoint p c = (let cp = \<lparr>cp_thread = cl_thread c, cp_instance = cl_instance c, cp_cursor = p\<rparr>
     in c\<lparr>cl_checkpoint := cp, cl_stored := Some cp\<rparr>)"

text \<open>After the callback of a delivery.\<close>

definition delivered :: "bool \<Rightarrow> nat \<Rightarrow> caller \<Rightarrow> recovery_event \<Rightarrow> recovery_event list \<Rightarrow> claimed_thread \<Rightarrow> claimed_thread" where
  "delivered cur N k e es c =
     (if \<not> isActive cur c then goto_pc (AfterRaise k RE_Stopped) c
      else deliverBatch cur k (Some (ev_cursor e)) es
        (rememberDelivered N e (set_checkpoint (Some (ev_cursor e)) c)))"

text \<open>The loop of \<open>resumeFrom\<close> and of \<open>drainLive\<close>: a broken stream is thrown, a buffer that is not empty
  is delivered, otherwise the function returns.\<close>

definition loop_end :: "caller \<Rightarrow> pc" where
  "loop_end k = (case k of FromLive \<Rightarrow> AfterDrain | _ \<Rightarrow> AfterRecovery)"

definition drain_loop :: "bool \<Rightarrow> caller \<Rightarrow> claimed_thread \<Rightarrow> claimed_thread" where
  "drain_loop cur k c = (case cl_error c of
       Some r \<Rightarrow> goto_pc (AfterRaise k (RE_Integrity r)) c
     | None \<Rightarrow>
         if cl_buffer c = [] then goto_pc (loop_end k) c
         else (let (b, c') = takeBuffer c in
           (case prepareBatch (Some c') b of
              Inl err \<Rightarrow> goto_pc (AfterRaise k err) c'
            | Inr s \<Rightarrow> deliverBatch cur k (cp_cursor (cl_checkpoint c')) s c')))"

definition scheduleLiveDrain :: "bool \<Rightarrow> claimed_thread \<Rightarrow> claimed_thread" where
  "scheduleLiveDrain cur c =
     (if cl_liveDrain c \<or> cl_phase c \<noteq> Live \<or> (cl_buffer c = [] \<and> cl_error c = None) then c
      else drain_loop cur FromLive (c\<lparr>cl_liveDrain := True\<rparr>))"

text \<open>\<open>resumeFrom\<close>, first up to its request and then from the runtime's answer.\<close>

definition resumeFrom :: "bool \<Rightarrow> caller \<Rightarrow> position \<Rightarrow> claimed_thread \<Rightarrow> claimed_thread" where
  "resumeFrom cur k p c =
     (if \<not> isActive cur c then goto_pc (AfterRaise k RE_Stopped) c
      else c\<lparr>cl_phase := Buffering, cl_error := None, cl_pc := AtResume k p\<rparr>)"

definition resume_answered :: "bool \<Rightarrow> caller \<Rightarrow> position \<Rightarrow> barrier \<Rightarrow> claimed_thread \<Rightarrow> claimed_thread" where
  "resume_answered cur k p b c =
     (if \<not> isActive cur c then goto_pc (AfterRaise k RE_Stopped) c
      else (let d = c\<lparr>cl_phase := Draining\<rparr> in
        (case cl_error d of
           Some r \<Rightarrow> goto_pc (AfterRaise k (RE_Integrity r)) d
         | None \<Rightarrow> (let (batch, d') = takeBuffer d in
             (case validateBarrier batch p b of
                Inl err \<Rightarrow> goto_pc (AfterRaise k err) d'
              | Inr es \<Rightarrow> deliverBatch cur k p es d')))))"

text \<open>\<open>snapshotAndResume\<close>: the beginning of an attempt, and what follows the snapshot and its
  application.\<close>

definition snapshot_attempt :: "bool \<Rightarrow> nat \<Rightarrow> snapshot_reason \<Rightarrow> claimed_thread \<Rightarrow> claimed_thread" where
  "snapshot_attempt cur a r c =
     (if \<not> isActive cur c then goto_pc (AfterRecoveryError RE_Stopped) c
      else c\<lparr>cl_phase := Buffering, cl_pc := AtSnapshot a r\<rparr>)"

definition snapshot_arrived :: "bool \<Rightarrow> nat \<Rightarrow> snapshot_reason \<Rightarrow> recovery_snapshot \<Rightarrow> claimed_thread \<Rightarrow> claimed_thread" where
  "snapshot_arrived cur a r s c =
     (if \<not> isActive cur c then goto_pc (AfterRecoveryError RE_Stopped) c
      else if \<not> ss_projection s then goto_pc (AfterRecoveryError RE_NoProjection) c
      else goto_pc (AtApply a r s) (call_app (AppliedSnapshot r s) c))"

definition snapshot_applied :: "bool \<Rightarrow> nat \<Rightarrow> recovery_snapshot \<Rightarrow> claimed_thread \<Rightarrow> claimed_thread" where
  "snapshot_applied cur a s c =
     (if \<not> isActive cur c then goto_pc (AfterRecoveryError RE_Stopped) c
      else (case ss_cursor s of
          None \<Rightarrow> goto_pc (AfterRecoveryError RE_NoCursor) c
        | Some p \<Rightarrow> resumeFrom cur (FromSnapshot a) p
            (set_checkpoint p ((clearBuffer c)\<lparr>cl_seenById := [], cl_seenByCursor := [], cl_accepted := []\<rparr>))))"

fun fallbackReason :: "recovery_error \<Rightarrow> snapshot_reason option" where
  "fallbackReason (RE_Rpc r) = Some r"
| "fallbackReason (RE_Integrity r) = Some r"
| "fallbackReason _ = None"

text \<open>The \<open>catch\<close> around what was called, and the ends of \<open>resumeThread\<close> and \<open>drainLive\<close>. When the start
  of a claim fails, the claim of its thread is forgotten by the manager (\<open>forget_start\<close> below).\<close>

definition raised :: "bool \<Rightarrow> caller \<Rightarrow> recovery_error \<Rightarrow> claimed_thread \<Rightarrow> claimed_thread" where
  "raised cur k e c = (case k of
       FromCheckpoint \<Rightarrow> (case fallbackReason e of
           None \<Rightarrow> goto_pc NoTask (failState e c)
         | Some r \<Rightarrow> snapshot_attempt cur 0 r c)
     | FromSnapshot a \<Rightarrow> (case fallbackReason e of
           None \<Rightarrow> goto_pc (AfterRecoveryError e) c
         | Some r \<Rightarrow> if a = 1 then goto_pc (AfterRecoveryError e) c
                     else snapshot_attempt cur (a + 1) r c)
     | FromLive \<Rightarrow> (case e of
           RE_Integrity r \<Rightarrow> snapshot_attempt cur 0 r c
         | _ \<Rightarrow> goto_pc AfterDrain (failState e c)))"

definition recovery_failed :: "recovery_error \<Rightarrow> claimed_thread \<Rightarrow> claimed_thread" where
  "recovery_failed e c = goto_pc (if cl_starting c then NoTask else AfterDrain) (failState e c)"

definition recovered :: "bool \<Rightarrow> claimed_thread \<Rightarrow> claimed_thread" where
  "recovered cur c =
     (if \<not> isActive cur c then recovery_failed RE_Stopped c
      else if cl_starting c then
        scheduleLiveDrain cur (c\<lparr>cl_phase := Live, cl_starting := False, cl_pc := NoTask\<rparr>)
      else c\<lparr>cl_phase := Live, cl_pc := AfterDrain\<rparr>)"

definition drain_settled :: "bool \<Rightarrow> claimed_thread \<Rightarrow> claimed_thread" where
  "drain_settled cur c = (let d = c\<lparr>cl_liveDrain := False, cl_pc := NoTask\<rparr> in
     if cl_phase d = Live then scheduleLiveDrain cur d else d)"

text \<open>What an awaited promise settles with.\<close>

datatype outcome = Rejected recovery_error | SnapshotResult recovery_snapshot | ResumeResult barrier | Done

fun continue_claim :: "bool \<Rightarrow> nat \<Rightarrow> outcome \<Rightarrow> pc \<Rightarrow> claimed_thread \<Rightarrow> claimed_thread" where
  "continue_claim cur N (Rejected e) (AtSnapshot a r) c = goto_pc (AfterRecoveryError e) c"
| "continue_claim cur N (SnapshotResult s) (AtSnapshot a r) c = snapshot_arrived cur a r s c"
| "continue_claim cur N (Rejected e) (AtApply a r s) c = goto_pc (AfterRecoveryError e) c"
| "continue_claim cur N Done (AtApply a r s) c = snapshot_applied cur a s c"
| "continue_claim cur N (Rejected e) (AtResume k p) c = goto_pc (AfterRaise k e) c"
| "continue_claim cur N (ResumeResult b) (AtResume k p) c = resume_answered cur k p b c"
| "continue_claim cur N (Rejected e) (AtDeliver k ev es) c = goto_pc (AfterRaise k e) c"
| "continue_claim cur N Done (AtDeliver k ev es) c = delivered cur N k ev es c"
| "continue_claim cur N Done (AfterBatch k) c = drain_loop cur k c"
| "continue_claim cur N Done (AfterRaise k e) c = raised cur k e c"
| "continue_claim cur N Done AfterRecovery c = recovered cur c"
| "continue_claim cur N Done (AfterRecoveryError e) c = recovery_failed e c"
| "continue_claim cur N Done AfterDrain c = drain_settled cur c"
| "continue_claim cur N _ _ c = c"

section \<open>The manager\<close>

definition is_current :: "recovery_manager \<Rightarrow> nat \<Rightarrow> bool" where
  "is_current m j \<longleftrightarrow> \<not> mg_closed m \<and> mg_states m (cl_thread (mg_claims m ! j)) = Some j"

text \<open>A step of claim \<open>j\<close>; a checkpoint it sets is also put into the manager's map.\<close>

definition run_claim :: "(claimed_thread \<Rightarrow> claimed_thread) \<Rightarrow> nat \<Rightarrow> recovery_manager \<Rightarrow> recovery_manager" where
  "run_claim f j m = (let c = f ((mg_claims m ! j)\<lparr>cl_stored := None\<rparr>) in
     m\<lparr>mg_claims := (mg_claims m)[j := c],
       mg_checkpoints := (case cl_stored c of None \<Rightarrow> mg_checkpoints m
         | Some cp \<Rightarrow> (mg_checkpoints m)(cl_thread c := Some cp))\<rparr>)"

text \<open>The last lines of \<open>resumeThread\<close>'s \<open>catch\<close>: the thread's entry is deleted, whichever claim it holds.\<close>

definition forget_start :: "nat \<Rightarrow> recovery_manager \<Rightarrow> recovery_manager" where
  "forget_start j m = (let c = mg_claims m ! j in
     if cl_starting c \<and> cl_pc c = NoTask then m\<lparr>mg_states := (mg_states m)(cl_thread c := None)\<rparr> else m)"

definition continueClaim :: "nat \<Rightarrow> nat \<Rightarrow> outcome \<Rightarrow> recovery_manager \<Rightarrow> recovery_manager" where
  "continueClaim N j x m =
     (if j < length (mg_claims m) \<and> cl_pc (mg_claims m ! j) \<noteq> NoTask
      then forget_start j
        (run_claim (continue_claim (is_current m j) N x (cl_pc (mg_claims m ! j))) j m)
      else m)"

definition new_claim :: "nat \<Rightarrow> recovery_checkpoint option \<Rightarrow> nat \<Rightarrow> claimed_thread" where
  "new_claim t given inst = \<lparr>cl_thread = t, cl_instance = inst, cl_given = given, cl_buffer = [],
     cl_bufferedById = [], cl_bufferedByCursor = [], cl_seenById = [], cl_seenByCursor = [],
     cl_phase = Buffering,
     cl_checkpoint = \<lparr>cp_thread = t, cp_instance = inst,
       cp_cursor = (case given of Some g \<Rightarrow> if cp_instance g = inst then cp_cursor g else None
                    | None \<Rightarrow> None)\<rparr>,
     cl_bytes = 0, cl_error = None, cl_liveDrain = False, cl_starting = True, cl_pc = NoTask,
     cl_stored = None, cl_calls = [], cl_accepted = []\<rparr>"

definition start_claim :: "claimed_thread \<Rightarrow> claimed_thread" where
  "start_claim c = (case cl_given c of
       None \<Rightarrow> snapshot_attempt True 0 SR_Initial c
     | Some g \<Rightarrow> if cp_instance g \<noteq> cl_instance c then snapshot_attempt True 0 SR_RuntimeRestarted c
                 else resumeFrom True FromCheckpoint (cp_cursor g) c)"

text \<open>\<open>resumeThread\<close> up to its first await. A runtime without durable recovery only gives a snapshot, and
  the thread is not claimed.\<close>

datatype start_result = StartRefused recovery_error | SnapshotOnly | Started nat

definition resumeThread ::
  "nat \<Rightarrow> recovery_checkpoint option \<Rightarrow> nat \<Rightarrow> bool \<Rightarrow> recovery_manager \<Rightarrow> recovery_manager \<times> start_result" where
  "resumeThread t given inst durable m =
     (if mg_closed m then (m, StartRefused RE_Closed)
      else if mg_states m t \<noteq> None then (m, StartRefused RE_Owned)
      else if (case given of Some g \<Rightarrow> cp_thread g \<noteq> t | None \<Rightarrow> False) then (m, StartRefused RE_OtherThread)
      else if \<not> durable then (m, SnapshotOnly)
      else (let c = new_claim t given inst; j = length (mg_claims m) in
        (m\<lparr>mg_claims := mg_claims m @ [start_claim c], mg_states := (mg_states m)(t := Some j),
           mg_checkpoints := (mg_checkpoints m)(t := Some (cl_checkpoint c))\<rparr>, Started j)))"

definition stop_claim :: "claimed_thread \<Rightarrow> claimed_thread" where
  "stop_claim c = clearBuffer (c\<lparr>cl_phase := StoppedPhase\<rparr>)"

definition stopThread :: "nat \<Rightarrow> recovery_manager \<Rightarrow> recovery_manager \<times> bool" where
  "stopThread t m = (case mg_states m t of
       None \<Rightarrow> (m, False)
     | Some j \<Rightarrow> ((run_claim stop_claim j m)\<lparr>mg_states := (mg_states m)(t := None)\<rparr>, True))"

text \<open>A loop over the claims of the manager's map.\<close>

definition map_current :: "(claimed_thread \<Rightarrow> claimed_thread) \<Rightarrow> recovery_manager \<Rightarrow> claimed_thread list" where
  "map_current f m = map (\<lambda>j. let c = mg_claims m ! j in
     if mg_states m (cl_thread c) = Some j then f c else c) [0..<length (mg_claims m)]"

definition close_recovery :: "recovery_manager \<Rightarrow> recovery_manager" where
  "close_recovery m = (if mg_closed m then m
     else m\<lparr>mg_closed := True, mg_claims := map_current stop_claim m, mg_states := (\<lambda>_. None)\<rparr>)"

definition acceptClientExit :: "recovery_error \<Rightarrow> recovery_manager \<Rightarrow> recovery_manager" where
  "acceptClientExit e m = m\<lparr>mg_claims := map_current (failState e) m\<rparr>"

definition accept_claim :: "bool \<Rightarrow> nat \<Rightarrow> nat \<Rightarrow> recovery_event \<Rightarrow> claimed_thread \<Rightarrow> claimed_thread" where
  "accept_claim cur N B e c =
     (if cl_phase c = StoppedPhase \<or> cl_phase c = FailedPhase then c
      else if ev_instance e \<noteq> cl_instance c then
        scheduleLiveDrain cur (markIntegrityFailure SR_CursorConflict c)
      else (case ev_kind e of
          Ephemeral \<Rightarrow> if cl_phase c = Live then call_app (ObservedEphemeral e) c else c
        | Unrecoverable \<Rightarrow> scheduleLiveDrain cur (markIntegrityFailure SR_CursorConflict c)
        | Durable \<Rightarrow> scheduleLiveDrain cur
            (bufferDurableEvent N B e (c\<lparr>cl_accepted := cl_accepted c @ [e]\<rparr>))))"

definition acceptEvent :: "nat \<Rightarrow> nat \<Rightarrow> recovery_event \<Rightarrow> recovery_manager \<Rightarrow> recovery_manager \<times> bool" where
  "acceptEvent N B e m = (case mg_states m (ev_thread e) of
       None \<Rightarrow> (m, False)
     | Some j \<Rightarrow> (run_claim (accept_claim (is_current m j) N B e) j m, True))"

definition getCheckpoint :: "nat \<Rightarrow> recovery_manager \<Rightarrow> recovery_checkpoint option" where
  "getCheckpoint t m = mg_checkpoints m t"

definition newRecoveryManager :: recovery_manager where
  "newRecoveryManager = \<lparr>mg_claims = [], mg_states = (\<lambda>_. None), mg_checkpoints = (\<lambda>_. None), mg_closed = False\<rparr>"

section \<open>Runs\<close>

datatype recovery_op = ResumeThread nat "recovery_checkpoint option" nat bool
  | StopThread nat | CloseManager | AcceptEvent recovery_event | ClientExit recovery_error
  | Continue nat outcome

fun recovery_step :: "nat \<Rightarrow> nat \<Rightarrow> recovery_op \<Rightarrow> recovery_manager \<Rightarrow> recovery_manager" where
  "recovery_step N B (ResumeThread t g i d) m = fst (resumeThread t g i d m)"
| "recovery_step N B (StopThread t) m = fst (stopThread t m)"
| "recovery_step N B CloseManager m = close_recovery m"
| "recovery_step N B (AcceptEvent e) m = fst (acceptEvent N B e m)"
| "recovery_step N B (ClientExit e) m = acceptClientExit e m"
| "recovery_step N B (Continue j x) m = continueClaim N j x m"

definition recovery_run :: "nat \<Rightarrow> nat \<Rightarrow> recovery_op list \<Rightarrow> recovery_manager" where
  "recovery_run N B ops = fold (recovery_step N B) ops newRecoveryManager"

end
