(* ===== verification/EventRecoveryInv.thy ===== *)
theory EventRecoveryInv
  imports EventRecovery
begin

text \<open>
  The invariant of a claimed thread: what its asynchronous function may do next, where the application is,
  that every event that came in is delivered, waiting or about to be replaced by a snapshot, and that the
  buffer stays within its bounds. Every function on a claim keeps it.
\<close>

section \<open>The application's view\<close>

text \<open>The position of the application: the cursor of its last snapshot or event.\<close>

fun position_after :: "position \<Rightarrow> app_call list \<Rightarrow> position" where
  "position_after p [] = p"
| "position_after p (AppliedSnapshot r s # as) =
     position_after (case ss_cursor s of None \<Rightarrow> p | Some q \<Rightarrow> q) as"
| "position_after p (DeliveredEvent e cp # as) = position_after (Some (ev_cursor e)) as"
| "position_after p (_ # as) = position_after p as"

text \<open>Every event delivered is the next one of the log after the position it is delivered at.\<close>

fun follows :: "position \<Rightarrow> app_call list \<Rightarrow> bool" where
  "follows p [] = True"
| "follows p (AppliedSnapshot r s # as) = follows (case ss_cursor s of None \<Rightarrow> p | Some q \<Rightarrow> q) as"
| "follows p (DeliveredEvent e cp # as) =
     (safeCursorDistance p (Some (ev_cursor e)) = Inr 1 \<and> cp_cursor cp = Some (ev_cursor e)
      \<and> follows (Some (ev_cursor e)) as)"
| "follows p (_ # as) = follows p as"

text \<open>Where a claim starts: the cursor of the checkpoint it was given, if that is of this runtime.\<close>

definition start_position :: "claimed_thread \<Rightarrow> position" where
  "start_position c = (case cl_given c of None \<Rightarrow> None
     | Some g \<Rightarrow> if cp_instance g = cl_instance c then cp_cursor g else None)"

lemma start_position_frame [simp]:
  "start_position (c\<lparr>cl_buffer := x_buffer\<rparr>) = start_position c"
  "start_position (c\<lparr>cl_bufferedById := x_bufferedById\<rparr>) = start_position c"
  "start_position (c\<lparr>cl_bufferedByCursor := x_bufferedByCursor\<rparr>) = start_position c"
  "start_position (c\<lparr>cl_seenById := x_seenById\<rparr>) = start_position c"
  "start_position (c\<lparr>cl_seenByCursor := x_seenByCursor\<rparr>) = start_position c"
  "start_position (c\<lparr>cl_phase := x_phase\<rparr>) = start_position c"
  "start_position (c\<lparr>cl_checkpoint := x_checkpoint\<rparr>) = start_position c"
  "start_position (c\<lparr>cl_bytes := x_bytes\<rparr>) = start_position c"
  "start_position (c\<lparr>cl_error := x_error\<rparr>) = start_position c"
  "start_position (c\<lparr>cl_liveDrain := x_liveDrain\<rparr>) = start_position c"
  "start_position (c\<lparr>cl_starting := x_starting\<rparr>) = start_position c"
  "start_position (c\<lparr>cl_pc := x_pc\<rparr>) = start_position c"
  "start_position (c\<lparr>cl_stored := x_stored\<rparr>) = start_position c"
  "start_position (c\<lparr>cl_calls := x_calls\<rparr>) = start_position c"
  "start_position (c\<lparr>cl_accepted := x_accepted\<rparr>) = start_position c"
  by (simp_all add: start_position_def cong: option.case_cong)

definition position_now :: "claimed_thread \<Rightarrow> position" where
  "position_now c = position_after (start_position c) (cl_calls c)"

lemma position_after_append: "position_after p (xs @ ys) = position_after (position_after p xs) ys"
  by (induction p xs rule: position_after.induct) simp_all

lemma follows_append: "follows p (xs @ ys) \<longleftrightarrow> follows p xs \<and> follows (position_after p xs) ys"
  by (induction p xs rule: follows.induct) auto

text \<open>A cursor the application is at or past.\<close>

definition covers :: "position \<Rightarrow> cursor_parts \<Rightarrow> bool" where
  "covers p k \<longleftrightarrow> (case safeCursorDistance p (Some k) of Inl _ \<Rightarrow> False | Inr d \<Rightarrow> d \<le> 0)"

lemma covers_refl [simp]: "covers (Some k) k"
  by (simp add: covers_def comparableCursors_def)

lemma covers_step:
  "safeCursorDistance p (Some q) = Inr 1 \<Longrightarrow> covers p k \<Longrightarrow> covers (Some q) k"
  by (cases p) (auto simp: covers_def comparableCursors_def split: if_splits)

lemma covers_compare:
  "safeCompareCursors (Some k) p = Inr d \<Longrightarrow> p \<noteq> None \<Longrightarrow> d \<le> 0 \<Longrightarrow> covers p k"
  by (cases p) (auto simp: covers_def comparableCursors_def split: if_splits)

section \<open>The invariant of a claim\<close>

fun caller_at :: "pc \<Rightarrow> caller option" where
  "caller_at (AtResume k p) = Some k"
| "caller_at (AtDeliver k e es) = Some k"
| "caller_at (AfterBatch k) = Some k"
| "caller_at (AfterRaise k e) = Some k"
| "caller_at _ = None"

definition ended :: "claimed_thread \<Rightarrow> bool" where
  "ended c \<longleftrightarrow> cl_phase c = FailedPhase \<or> cl_phase c = StoppedPhase"

fun live_at :: "pc \<Rightarrow> bool" where
  "live_at NoTask = True"
| "live_at AfterDrain = True"
| "live_at (AfterRecoveryError e) = True"
| "live_at k = (caller_at k = Some FromLive)"

definition flow_at :: "pc \<Rightarrow> claimed_thread \<Rightarrow> bool" where
  "flow_at k c \<longleftrightarrow>
     (cl_phase c = Live \<longrightarrow> \<not> cl_starting c \<and> live_at k)
   \<and> (cl_liveDrain c \<longleftrightarrow> \<not> cl_starting c \<and> k \<noteq> NoTask)
   \<and> (k = NoTask \<longrightarrow> ended c \<or>
        cl_phase c = Live \<and> cl_buffer c = [] \<and> cl_error c = None)
   \<and> (k = AfterDrain \<longrightarrow> (ended c \<or> cl_phase c = Live) \<and> \<not> cl_starting c)
   \<and> (caller_at k = Some FromCheckpoint \<longrightarrow> cl_starting c)
   \<and> (caller_at k = Some FromLive \<longrightarrow> \<not> cl_starting c \<and> (ended c \<or> cl_phase c = Live)
        \<and> (\<forall>q p. k \<noteq> AtResume q p))"

definition checkpoint_now :: "claimed_thread \<Rightarrow> position" where
  "checkpoint_now c = cp_cursor (cl_checkpoint c)"

fun pos_at :: "pc \<Rightarrow> claimed_thread \<Rightarrow> bool" where
  "pos_at (AtResume k p) c \<longleftrightarrow> p = position_now c \<and> checkpoint_now c = position_now c"
| "pos_at (AtDeliver k e es) c \<longleftrightarrow> position_now c = Some (ev_cursor e)
     \<and> safeCursorDistance (checkpoint_now c) (Some (ev_cursor e)) = Inr 1"
| "pos_at (AtApply a r s) c \<longleftrightarrow> (\<forall>q. ss_cursor s = Some q \<longrightarrow> position_now c = q)"
| "pos_at (AfterBatch k) c \<longleftrightarrow> checkpoint_now c = position_now c"
| "pos_at AfterRecovery c \<longleftrightarrow> checkpoint_now c = position_now c"
| "pos_at AfterDrain c \<longleftrightarrow> (cl_phase c = Live \<longrightarrow> checkpoint_now c = position_now c)"
| "pos_at NoTask c \<longleftrightarrow> (cl_phase c = Live \<longrightarrow> checkpoint_now c = position_now c)"
| "pos_at _ c \<longleftrightarrow> True"

text \<open>Every event that came in is delivered, waiting, or about to be replaced by a snapshot.\<close>

fun recovering_at :: "pc \<Rightarrow> bool" where
  "recovering_at (AtSnapshot a r) = True"
| "recovering_at (AtApply a r s) = True"
| "recovering_at (AfterRaise k e) = True"
| "recovering_at (AfterRecoveryError e) = True"
| "recovering_at _ = False"

fun in_progress :: "pc \<Rightarrow> recovery_event list" where
  "in_progress (AtDeliver k e es) = e # es"
| "in_progress _ = []"

definition accounted :: "recovery_event list \<Rightarrow> claimed_thread \<Rightarrow> bool" where
  "accounted es c \<longleftrightarrow> ended c \<or> cl_error c \<noteq> None \<or> (\<forall>e \<in> set (cl_accepted c).
     covers (checkpoint_now c) (ev_cursor e) \<or> ev_cursor e \<in> ev_cursor ` set (cl_buffer c @ es))"

definition cov_at :: "pc \<Rightarrow> claimed_thread \<Rightarrow> bool" where
  "cov_at k c \<longleftrightarrow> recovering_at k \<or> accounted (in_progress k) c"

definition core :: "nat \<Rightarrow> nat \<Rightarrow> claimed_thread \<Rightarrow> bool" where
  "core N B c \<longleftrightarrow> follows (start_position c) (cl_calls c)
   \<and> (\<forall>s \<in> snd ` set (cl_seenById c). covers (checkpoint_now c) (sn_cursor s))
   \<and> (\<forall>s \<in> snd ` set (cl_bufferedById c). sn_cursor s \<in> ev_cursor ` set (cl_buffer c))
   \<and> length (cl_buffer c) \<le> N \<and> cl_bytes c = sum_list (map ev_bytes (cl_buffer c)) \<and> cl_bytes c \<le> B"

definition ok_at :: "nat \<Rightarrow> nat \<Rightarrow> pc \<Rightarrow> claimed_thread \<Rightarrow> bool" where
  "ok_at N B k c \<longleftrightarrow> core N B c \<and> flow_at k c \<and> pos_at k c \<and> cov_at k c"

definition claim_ok :: "nat \<Rightarrow> nat \<Rightarrow> claimed_thread \<Rightarrow> bool" where
  "claim_ok N B c \<longleftrightarrow> ok_at N B (cl_pc c) c"

named_theorems ok_defs \<open>the definitions of the parts of a claim's invariant\<close>

lemmas [ok_defs] = ok_at_def flow_at_def cov_at_def core_def accounted_def ended_def checkpoint_now_def
  position_now_def

lemma now_frame [simp]:
  "position_now (c\<lparr>cl_pc := k\<rparr>) = position_now c" "position_now (c\<lparr>cl_stored := x\<rparr>) = position_now c"
  "checkpoint_now (c\<lparr>cl_pc := k\<rparr>) = checkpoint_now c"
  "checkpoint_now (c\<lparr>cl_stored := x\<rparr>) = checkpoint_now c"
  "ended (c\<lparr>cl_pc := k\<rparr>) = ended c" "ended (c\<lparr>cl_stored := x\<rparr>) = ended c"
  by (simp_all add: position_now_def checkpoint_now_def ended_def)

lemma ok_at_frame [simp]:
  "ok_at N B h (c\<lparr>cl_pc := k\<rparr>) = ok_at N B h c" "ok_at N B h (c\<lparr>cl_stored := x\<rparr>) = ok_at N B h c"
  unfolding ok_at_def core_def flow_at_def cov_at_def accounted_def by (cases h; simp)+

lemma goto_ok [simp]: "claim_ok N B (goto_pc k c) \<longleftrightarrow> ok_at N B k c"
  by (simp add: claim_ok_def goto_pc_def)

lemma stored_ok [simp]: "claim_ok N B (c\<lparr>cl_stored := x\<rparr>) \<longleftrightarrow> claim_ok N B c"
  by (simp add: claim_ok_def)

section \<open>Ends of a claim\<close>

lemma end_ok:
  assumes "claim_ok N B c" "cl_phase d = FailedPhase \<or> cl_phase d = StoppedPhase"
    "follows (start_position d) (cl_calls d)" "position_now d = position_now c"
    "cl_checkpoint d = cl_checkpoint c" "cl_seenById d = cl_seenById c" "cl_bufferedById d = []"
    "cl_buffer d = []" "cl_bytes d = 0" "cl_starting d = cl_starting c"
    "cl_liveDrain d = cl_liveDrain c" "cl_pc d = cl_pc c"
  shows "claim_ok N B d"
  using assms unfolding claim_ok_def ok_at_def
  by (cases "cl_pc c") (auto simp: flow_at_def cov_at_def core_def accounted_def ended_def checkpoint_now_def)

lemma stop_claim_ok: "claim_ok N B c \<Longrightarrow> claim_ok N B (stop_claim c)"
  by (rule end_ok) (auto simp: stop_claim_def clearBuffer_def claim_ok_def ok_defs)

lemma failState_ok: "claim_ok N B c \<Longrightarrow> claim_ok N B (failState e c)"
proof (cases "ended c")
  case True
  then have "failState e c = c" by (auto simp: failState_def ended_def)
  then show "claim_ok N B c \<Longrightarrow> ?thesis" by simp
next
  case False
  assume "claim_ok N B c"
  then show ?thesis
    by (rule end_ok)
      (use False \<open>claim_ok N B c\<close> in \<open>auto simp: failState_def clearBuffer_def call_app_def claim_ok_def ok_defs
        position_after_append follows_append\<close>)
qed

lemma failState_ended [simp]: "ended (failState e c)"
  by (auto simp: failState_def ended_def clearBuffer_def call_app_def)

lemma failState_core: "core N B c \<Longrightarrow> core N B (failState e c)"
  by (auto simp: failState_def clearBuffer_def call_app_def ok_defs follows_append)

lemma failState_fields [simp]:
  "cl_starting (failState e c) = cl_starting c" "cl_liveDrain (failState e c) = cl_liveDrain c"
  "cl_pc (failState e c) = cl_pc c" "cl_thread (failState e c) = cl_thread c"
  "cl_checkpoint (failState e c) = cl_checkpoint c" "cl_stored (failState e c) = cl_stored c"
  by (auto simp: failState_def clearBuffer_def call_app_def)

lemma ended_not_live [simp]: "ended c \<Longrightarrow> cl_phase c \<noteq> Live"
  by (auto simp: ended_def)

text \<open>After the failure of a claim its function ends.\<close>

lemma failed_ok_at:
  assumes "core N B c" "cl_starting c \<longrightarrow> k = NoTask" "\<not> cl_starting c \<longrightarrow> k = AfterDrain"
    "cl_liveDrain c \<longleftrightarrow> \<not> cl_starting c"
  shows "ok_at N B k (failState e c)"
  using assms failState_core [OF assms(1)] failState_ended [of e c]
  by (cases "cl_starting c") (auto simp: ok_at_def flow_at_def cov_at_def accounted_def)

section \<open>Batches\<close>

lemma sort_batch_set: "sort_batch b = Inr s \<Longrightarrow> set s = set b"
  by (auto simp: sort_batch_def split: if_splits)

lemma drop_seen_covers:
  "drop_seen c es = Inr rs \<Longrightarrow> \<forall>s \<in> snd ` set (cl_seenById c). covers p (sn_cursor s) \<Longrightarrow>
   e \<in> set es \<Longrightarrow> e \<in> set rs \<or> covers p (ev_cursor e)"
proof (induction es arbitrary: rs)
  case (Cons x es)
  show ?case
  proof (cases "map_of (cl_seenById c) (ev_id x)")
    case None
    with Cons show ?thesis by (auto simp: sum_bind_eq_Inr split: if_splits)
  next
    case (Some s)
    then have s: "same_content s x" "drop_seen c es = Inr rs" using Cons.prems(1) by (auto split: if_splits)
    have "s \<in> snd ` set (cl_seenById c)" using map_of_SomeD [OF Some] by force
    then have "covers p (ev_cursor x)" using Cons.prems(2) s(1) by (auto simp: same_content_def)
    with Cons.IH [OF s(2) Cons.prems(2)] Cons.prems(3) show ?thesis by auto
  qed
qed simp

lemma prepareBatch_covers:
  assumes "prepareBatch (Some c) b = Inr s" "\<forall>x \<in> snd ` set (cl_seenById c). covers p (sn_cursor x)" "e \<in> set b"
  shows "e \<in> set s \<or> covers p (ev_cursor e)"
  using assms drop_seen_covers [of c _ s p e] sort_batch_set
  by (auto simp: prepareBatch_def sum_bind_eq_Inr)

lemma filter_sum_covers:
  "filter_sum (after_cursor p) es = Inr rs \<Longrightarrow> e \<in> set es \<Longrightarrow> e \<in> set rs \<or> covers p (ev_cursor e)"
proof (induction es arbitrary: rs)
  case (Cons x es)
  then obtain k r where k: "after_cursor p x = Inr k" "filter_sum (after_cursor p) es = Inr r"
    "rs = (if k then x # r else r)" by (auto simp: sum_bind_eq_Inr)
  have "covers p (ev_cursor x)" if "\<not> k"
    using k(1) that covers_compare [of "ev_cursor x" p]
    by (auto simp: after_cursor_def sum_bind_eq_Inr split: if_splits)
  with Cons.IH [OF k(2)] Cons.prems(2) k(3) show ?case by auto
qed simp

lemma validateBarrier_covers:
  assumes "validateBarrier b p br = Inr s" "e \<in> set b"
  shows "e \<in> set s \<or> covers p (ev_cursor e)"
proof -
  obtain q where q: "sort_batch b = Inr q" "filter_sum (after_cursor p) q = Inr s"
    using assms(1) by (auto simp: validateBarrier_def prepareBatch_def sum_bind_eq_Inr)
  then show ?thesis using filter_sum_covers [OF q(2), of e] sort_batch_set [OF q(1)] assms(2) by blast
qed

section \<open>The functions keep the invariant\<close>

text \<open>The flow of control inside a function that \<open>k\<close> called.\<close>

definition runs_for :: "caller \<Rightarrow> claimed_thread \<Rightarrow> bool" where
  "runs_for k c \<longleftrightarrow> (cl_liveDrain c \<longleftrightarrow> \<not> cl_starting c) \<and> (k = FromCheckpoint \<longrightarrow> cl_starting c)
   \<and> (k = FromLive \<longrightarrow> \<not> cl_starting c \<and> (ended c \<or> cl_phase c = Live))
   \<and> (cl_phase c = Live \<longrightarrow> k = FromLive)"

lemma flow_at_runs:
  "flow_at (AfterBatch k) c \<longleftrightarrow> runs_for k c" "flow_at (AfterRaise k e) c \<longleftrightarrow> runs_for k c"
  "flow_at (AtDeliver k ev es) c \<longleftrightarrow> runs_for k c"
  "flow_at (AtResume k p) c \<longleftrightarrow> runs_for k c \<and> k \<noteq> FromLive"
  "flow_at (loop_end k) c \<longleftrightarrow> runs_for k c \<or> (loop_end k = AfterRecovery \<and> cl_phase c \<noteq> Live
     \<and> cl_liveDrain c = (\<not> cl_starting c))"
  by (cases k; auto simp: flow_at_def runs_for_def loop_end_def)+

lemma raise_ok: "core N B c \<Longrightarrow> runs_for k c \<Longrightarrow> ok_at N B (AfterRaise k e) c"
  by (simp add: ok_at_def flow_at_runs cov_at_def)

lemma call_app_frame [simp]:
  "cl_pc (call_app a c) = cl_pc c" "cl_phase (call_app a c) = cl_phase c" "cl_starting (call_app a c) = cl_starting c"
  "cl_liveDrain (call_app a c) = cl_liveDrain c" "cl_error (call_app a c) = cl_error c"
  "cl_accepted (call_app a c) = cl_accepted c" "cl_buffer (call_app a c) = cl_buffer c"
  "cl_checkpoint (call_app a c) = cl_checkpoint c" "ended (call_app a c) = ended c"
  "runs_for k (call_app a c) = runs_for k c" "checkpoint_now (call_app a c) = checkpoint_now c"
  "accounted es (call_app a c) = accounted es c"
  by (simp_all add: call_app_def ended_def runs_for_def checkpoint_now_def accounted_def)

lemma call_app_core:
  "core N B (call_app a c) \<longleftrightarrow> core N B c \<and> follows (position_now c) [a]"
  by (auto simp: call_app_def core_def follows_append position_now_def checkpoint_now_def)

lemma call_app_position [simp]: "position_now (call_app a c) = position_after (position_now c) [a]"
  by (simp add: call_app_def position_now_def position_after_append)

lemma deliverBatch_ok:
  "core N B c \<Longrightarrow> runs_for k c \<Longrightarrow> p = checkpoint_now c \<Longrightarrow> checkpoint_now c = position_now c \<Longrightarrow>
   accounted es c \<Longrightarrow> claim_ok N B (deliverBatch cur k p es c)"
proof (induction es)
  case Nil
  then show ?case by (simp add: ok_at_def flow_at_runs cov_at_def)
next
  case (Cons e es)
  show ?case
  proof (cases "isActive cur c")
    case False
    then show ?thesis using raise_ok Cons.prems by simp
  next
    case act: True
    show ?thesis
    proof (cases "safeCursorDistance p (Some (ev_cursor e))")
      case (Inl err)
      then show ?thesis using act raise_ok Cons.prems by simp
    next
      case (Inr d)
      show ?thesis
      proof (cases "d \<le> 0")
        case True
        then have "covers (checkpoint_now c) (ev_cursor e)" using Inr Cons.prems(3) by (simp add: covers_def)
        then have "accounted es c" using Cons.prems(5) by (auto simp: accounted_def)
        then show ?thesis using True act Inr Cons by simp
      next
        case False
        then show ?thesis using act Inr Cons.prems raise_ok
          by (auto simp: ok_at_def flow_at_runs cov_at_def call_app_core)
      qed
    qed
  qed
qed

lemma takeBuffer_core: "core N B c \<Longrightarrow> core N B (snd (takeBuffer c))"
  by (auto simp: takeBuffer_def core_def position_now_def checkpoint_now_def)

lemma takeBuffer_frame [simp]:
  "fst (takeBuffer c) = cl_buffer c" "runs_for k (snd (takeBuffer c)) = runs_for k c"
  "checkpoint_now (snd (takeBuffer c)) = checkpoint_now c" "position_now (snd (takeBuffer c)) = position_now c"
  "cl_accepted (snd (takeBuffer c)) = cl_accepted c" "cl_seenById (snd (takeBuffer c)) = cl_seenById c"
  "cl_buffer (snd (takeBuffer c)) = []" "cl_error (snd (takeBuffer c)) = cl_error c"
  "ended (snd (takeBuffer c)) = ended c"
  by (simp_all add: takeBuffer_def runs_for_def ended_def checkpoint_now_def position_now_def)

lemma takeBuffer_accounted:
  assumes "accounted [] c" "cl_error c = None"
    "\<And>e. e \<in> set (cl_buffer c) \<Longrightarrow> e \<in> set s \<or> covers (checkpoint_now c) (ev_cursor e)"
  shows "accounted s (snd (takeBuffer c))"
  using assms unfolding accounted_def by fastforce

lemma drain_loop_ok:
  assumes "core N B c" "runs_for k c" "checkpoint_now c = position_now c" "accounted [] c"
  shows "claim_ok N B (drain_loop cur k c)"
proof (cases "cl_error c")
  case (Some r)
  then show ?thesis using raise_ok assms by (simp add: drain_loop_def)
next
  case none: None
  let ?d = "snd (takeBuffer c)"
  have seen: "\<forall>s \<in> snd ` set (cl_seenById ?d). covers (checkpoint_now c) (sn_cursor s)"
    using assms(1) by (simp add: core_def)
  show ?thesis
  proof (cases "cl_buffer c = []")
    case True
    then show ?thesis using none assms
      by (cases k) (auto simp: drain_loop_def ok_at_def flow_at_runs loop_end_def cov_at_def flow_at_def
          runs_for_def)
  next
    case False
    show ?thesis
    proof (cases "prepareBatch (Some ?d) (cl_buffer c)")
      case (Inl e)
      then show ?thesis using none False raise_ok [OF takeBuffer_core [OF assms(1)], of k] assms(2)
        by (simp add: drain_loop_def case_prod_beta Let_def)
    next
      case (Inr s)
      have "accounted s ?d"
        using takeBuffer_accounted [OF assms(4) none] prepareBatch_covers [OF Inr seen] by blast
      then have "claim_ok N B (deliverBatch cur k (checkpoint_now ?d) s ?d)"
        using deliverBatch_ok [OF takeBuffer_core [OF assms(1)], of k "checkpoint_now ?d" s cur] assms by simp
      then show ?thesis using none False Inr
        by (simp add: drain_loop_def case_prod_beta Let_def checkpoint_now_def)
    qed
  qed
qed

lemma scheduleLiveDrain_ok:
  assumes "core N B c" "cl_phase c = Live \<longrightarrow> \<not> cl_starting c \<and> checkpoint_now c = position_now c"
    "accounted [] c" "\<not> cl_liveDrain c" "cl_pc c = NoTask" "ended c \<or> cl_phase c = Live" "\<not> cl_starting c"
  shows "claim_ok N B (scheduleLiveDrain cur c)"
proof (cases "cl_phase c \<noteq> Live \<or> (cl_buffer c = [] \<and> cl_error c = None)")
  case True
  then show ?thesis using assms
    by (auto simp: scheduleLiveDrain_def claim_ok_def ok_at_def flow_at_def cov_at_def)
next
  case False
  let ?d = "c\<lparr>cl_liveDrain := True\<rparr>"
  have "claim_ok N B (drain_loop cur FromLive ?d)"
    by (rule drain_loop_ok)
      (use assms False in \<open>auto simp: core_def runs_for_def accounted_def ended_def checkpoint_now_def position_now_def\<close>)
  with False assms(4) show ?thesis by (auto simp: scheduleLiveDrain_def)
qed

lemma core_frame [simp]:
  "core N B (c\<lparr>cl_phase := h\<rparr>) = core N B c" "core N B (c\<lparr>cl_pc := k\<rparr>) = core N B c"
  "core N B (c\<lparr>cl_error := x\<rparr>) = core N B c" "core N B (c\<lparr>cl_starting := b\<rparr>) = core N B c"
  "core N B (c\<lparr>cl_liveDrain := b\<rparr>) = core N B c" "core N B (c\<lparr>cl_accepted := es\<rparr>) = core N B c"
  by (simp_all add: core_def checkpoint_now_def)

lemma now_frame' [simp]:
  "position_now (c\<lparr>cl_phase := h\<rparr>) = position_now c" "position_now (c\<lparr>cl_error := x\<rparr>) = position_now c"
  "position_now (c\<lparr>cl_starting := b\<rparr>) = position_now c" "position_now (c\<lparr>cl_liveDrain := b\<rparr>) = position_now c"
  "position_now (c\<lparr>cl_accepted := es\<rparr>) = position_now c"
  "checkpoint_now (c\<lparr>cl_phase := h\<rparr>) = checkpoint_now c" "checkpoint_now (c\<lparr>cl_error := x\<rparr>) = checkpoint_now c"
  "checkpoint_now (c\<lparr>cl_starting := b\<rparr>) = checkpoint_now c"
  "checkpoint_now (c\<lparr>cl_liveDrain := b\<rparr>) = checkpoint_now c"
  "checkpoint_now (c\<lparr>cl_accepted := es\<rparr>) = checkpoint_now c"
  by (simp_all add: position_now_def checkpoint_now_def)

text \<open>A recovery in progress, outside \<open>resumeFrom\<close>.\<close>

definition between :: "claimed_thread \<Rightarrow> bool" where
  "between c \<longleftrightarrow> (cl_liveDrain c \<longleftrightarrow> \<not> cl_starting c)"

lemma runs_for_between [intro]: "runs_for k c \<Longrightarrow> between c"
  by (simp add: runs_for_def between_def)

lemma isActive_not_ended: "isActive cur c \<Longrightarrow> \<not> ended c"
  by (auto simp: isActive_def ended_def)

lemma recovery_error_ok: "core N B c \<Longrightarrow> between c \<Longrightarrow> (cl_phase c = Live \<Longrightarrow> \<not> cl_starting c) \<Longrightarrow>
   ok_at N B (AfterRecoveryError e) c"
  by (simp add: ok_at_def flow_at_def cov_at_def between_def)

lemma snapshot_attempt_ok:
  assumes "core N B c" "between c" "cl_phase c = Live \<Longrightarrow> \<not> cl_starting c"
  shows "claim_ok N B (snapshot_attempt cur a r c)"
proof (cases "isActive cur c")
  case True
  let ?d = "c\<lparr>cl_phase := Buffering\<rparr>"
  have "ok_at N B (AtSnapshot a r) ?d"
    using assms(1,2) by (simp add: ok_at_def flow_at_def cov_at_def between_def)
  then show ?thesis using True by (simp add: snapshot_attempt_def claim_ok_def)
next
  case False
  then show ?thesis using recovery_error_ok [OF assms] by (simp add: snapshot_attempt_def)
qed

lemma resumeFrom_ok:
  assumes "core N B c" "between c" "cl_phase c \<noteq> Live" "k \<noteq> FromLive" "k = FromCheckpoint \<Longrightarrow> cl_starting c"
    "p = position_now c" "checkpoint_now c = position_now c" "cl_accepted c = []"
  shows "claim_ok N B (resumeFrom cur k p c)"
proof (cases "isActive cur c")
  case True
  let ?d = "c\<lparr>cl_phase := Buffering, cl_error := None\<rparr>"
  have "ok_at N B (AtResume k p) ?d"
    using assms unfolding ok_at_def flow_at_runs
    by (simp add: runs_for_def cov_at_def accounted_def between_def)
  then show ?thesis using True by (simp add: resumeFrom_def claim_ok_def)
next
  case False
  have "runs_for k c" using assms(2-5) by (auto simp: runs_for_def between_def)
  then show ?thesis using False raise_ok [OF assms(1)] by (simp add: resumeFrom_def)
qed

lemma resume_answered_ok:
  assumes "ok_at N B (AtResume k p) c"
  shows "claim_ok N B (resume_answered cur k p b c)"
proof (cases "isActive cur c")
  case False
  then show ?thesis using assms raise_ok by (auto simp: resume_answered_def ok_at_def flow_at_runs)
next
  case act: True
  let ?d = "c\<lparr>cl_phase := Draining\<rparr>"
  have d: "core N B ?d" "runs_for k ?d" "checkpoint_now ?d = p" "position_now ?d = p" "\<not> ended c"
    using assms act isActive_not_ended by (auto simp: ok_at_def flow_at_runs runs_for_def)
  have acc: "accounted [] ?d" using assms d(5) by (auto simp: ok_at_def cov_at_def accounted_def)
  show ?thesis
  proof (cases "cl_error c")
    case (Some r)
    then show ?thesis using act raise_ok [OF d(1,2)] by (simp add: resume_answered_def)
  next
    case None
    let ?t = "snd (takeBuffer ?d)"
    show ?thesis
    proof (cases "validateBarrier (cl_buffer c) p b")
      case (Inl e)
      then show ?thesis using act None raise_ok [OF takeBuffer_core [OF d(1)], of k] d(2)
        by (simp add: resume_answered_def case_prod_beta Let_def)
    next
      case (Inr es)
      have "accounted es ?t"
        using takeBuffer_accounted [OF acc] None validateBarrier_covers [OF Inr] d(3) by auto
      then have "claim_ok N B (deliverBatch cur k p es ?t)"
        using deliverBatch_ok [OF takeBuffer_core [OF d(1)], of k p es cur] d by simp
      then show ?thesis using act None Inr by (simp add: resume_answered_def case_prod_beta Let_def)
    qed
  qed
qed

lemma set_checkpoint_frame [simp]:
  "checkpoint_now (set_checkpoint p c) = p" "position_now (set_checkpoint p c) = position_now c"
  "cl_phase (set_checkpoint p c) = cl_phase c" "cl_starting (set_checkpoint p c) = cl_starting c"
  "cl_liveDrain (set_checkpoint p c) = cl_liveDrain c" "cl_accepted (set_checkpoint p c) = cl_accepted c"
  "cl_buffer (set_checkpoint p c) = cl_buffer c" "cl_error (set_checkpoint p c) = cl_error c"
  "runs_for k (set_checkpoint p c) = runs_for k c" "ended (set_checkpoint p c) = ended c"
  by (simp_all add: set_checkpoint_def checkpoint_now_def position_now_def runs_for_def ended_def Let_def)

lemma set_checkpoint_core:
  "core N B c \<Longrightarrow> (\<And>k. covers (checkpoint_now c) k \<Longrightarrow> covers p k) \<Longrightarrow> core N B (set_checkpoint p c)"
  by (simp add: core_def) (simp add: set_checkpoint_def Let_def position_now_def)

lemma snapshot_applied_ok:
  assumes "ok_at N B (AtApply a r s) c"
  shows "claim_ok N B (snapshot_applied cur a s c)"
proof (cases "isActive cur c \<and> ss_cursor s \<noteq> None")
  case False
  then show ?thesis using assms recovery_error_ok [of N B c]
    by (auto simp: snapshot_applied_def ok_at_def flow_at_def between_def split: option.splits)
next
  case True
  then obtain p where p: "ss_cursor s = Some p" "isActive cur c" by auto
  let ?d = "(clearBuffer c)\<lparr>cl_seenById := [], cl_seenByCursor := [], cl_accepted := []\<rparr>"
  have c: "core N B c" "cl_phase c \<noteq> Live" "between c" "position_now c = p"
    using assms p by (auto simp: ok_at_def flow_at_def between_def)
  have d: "position_now ?d = p" "cl_phase ?d = cl_phase c" "between ?d" "cl_accepted ?d = []"
    using c by (auto simp: clearBuffer_def position_now_def between_def)
  have "core N B (set_checkpoint p ?d)"
    using c(1) by (auto simp: core_def set_checkpoint_def clearBuffer_def Let_def)
  then have "claim_ok N B (resumeFrom cur (FromSnapshot a) p (set_checkpoint p ?d))"
    by (rule resumeFrom_ok) (use c d in \<open>auto simp: between_def\<close>)
  then show ?thesis using p by (simp add: snapshot_applied_def)
qed

lemma snapshot_arrived_ok:
  assumes "ok_at N B (AtSnapshot a r) c"
  shows "claim_ok N B (snapshot_arrived cur a r s c)"
proof -
  have c: "core N B c" "between c" "cl_phase c \<noteq> Live"
    using assms by (auto simp: ok_at_def flow_at_def between_def)
  have "ok_at N B (AtApply a r s) (call_app (AppliedSnapshot r s) c)"
    using c by (auto simp: ok_at_def flow_at_def cov_at_def call_app_core between_def split: option.splits)
  then show ?thesis using recovery_error_ok [OF c(1,2)] c(3) by (simp add: snapshot_arrived_def)
qed

lemma raised_ok:
  assumes "ok_at N B (AfterRaise k e) c"
  shows "claim_ok N B (raised cur k e c)"
proof -
  have c: "core N B c" "runs_for k c" using assms by (auto simp: ok_at_def flow_at_runs)
  have b: "between c" "cl_phase c = Live \<Longrightarrow> \<not> cl_starting c" using c(2) by (auto simp: runs_for_def between_def)
  note at = snapshot_attempt_ok [OF c(1) b] recovery_error_ok [OF c(1) b]
  have f: "ok_at N B NoTask (failState e c)" if "k = FromCheckpoint"
    by (rule failed_ok_at) (use that c in \<open>auto simp: runs_for_def\<close>)
  have g: "ok_at N B AfterDrain (failState e c)" if "k = FromLive"
    by (rule failed_ok_at) (use that c in \<open>auto simp: runs_for_def\<close>)
  show ?thesis
    using at f g by (cases k) (auto simp: raised_def split: option.splits recovery_error.splits)
qed

lemma recovery_failed_ok:
  "core N B c \<Longrightarrow> between c \<Longrightarrow> claim_ok N B (recovery_failed e c)"
  by (auto simp: recovery_failed_def between_def intro!: failed_ok_at)

lemma recovered_ok:
  assumes "ok_at N B AfterRecovery c"
  shows "claim_ok N B (recovered cur c)"
proof -
  have c: "core N B c" "between c" "checkpoint_now c = position_now c" "cl_phase c \<noteq> Live"
    using assms by (auto simp: ok_at_def flow_at_def between_def)
  have acc: "isActive cur c \<Longrightarrow> accounted [] (c\<lparr>cl_phase := Live\<rparr>)"
    using assms isActive_not_ended [of cur c] by (auto simp: ok_at_def cov_at_def accounted_def)
  let ?d = "c\<lparr>cl_phase := Live, cl_starting := False, cl_pc := NoTask\<rparr>"
  have "claim_ok N B (scheduleLiveDrain cur ?d)" if "isActive cur c" "cl_starting c"
    by (rule scheduleLiveDrain_ok) (use c acc [OF that(1)] that in \<open>auto simp: between_def accounted_def ended_def\<close>)
  moreover have "claim_ok N B (c\<lparr>cl_phase := Live, cl_pc := AfterDrain\<rparr>)" if "isActive cur c" "\<not> cl_starting c"
    using c acc [OF that(1)] that
    by (auto simp: claim_ok_def ok_at_def flow_at_def cov_at_def between_def accounted_def ended_def)
  ultimately show ?thesis using recovery_failed_ok [OF c(1,2)] by (simp add: recovered_def)
qed

lemma drain_settled_ok:
  assumes "ok_at N B AfterDrain c"
  shows "claim_ok N B (drain_settled cur c)"
proof -
  let ?d = "c\<lparr>cl_liveDrain := False, cl_pc := NoTask\<rparr>"
  have c: "core N B c" "cl_phase c = Live \<longrightarrow> checkpoint_now c = position_now c"
    "ended c \<or> cl_phase c = Live" "\<not> cl_starting c" "accounted [] c"
    using assms by (auto simp: ok_at_def flow_at_def cov_at_def)
  have "claim_ok N B (scheduleLiveDrain cur ?d)"
    by (rule scheduleLiveDrain_ok) (use c in \<open>auto simp: accounted_def ended_def\<close>)
  moreover have "scheduleLiveDrain cur ?d = ?d" if "cl_phase c \<noteq> Live"
    using that by (simp add: scheduleLiveDrain_def)
  ultimately show ?thesis by (auto simp: drain_settled_def Let_def)
qed

lemma map_put_values: "v \<in> snd ` set (map_put k x m) \<Longrightarrow> v = x \<or> v \<in> snd ` set m"
  by (auto simp: map_put_def split: if_splits)

lemma evict_seen_subset: "set (fst (evict_seen N m cs)) \<subseteq> set m"
  by (induction N m cs rule: evict_seen.induct) auto

lemma rememberDelivered_frame [simp]:
  "cl_phase (rememberDelivered N e c) = cl_phase c" "cl_error (rememberDelivered N e c) = cl_error c"
  "checkpoint_now (rememberDelivered N e c) = checkpoint_now c"
  "position_now (rememberDelivered N e c) = position_now c"
  "runs_for k (rememberDelivered N e c) = runs_for k c"
  "accounted es (rememberDelivered N e c) = accounted es c"
  by (simp_all add: rememberDelivered_def case_prod_beta Let_def checkpoint_now_def position_now_def
      runs_for_def accounted_def ended_def)

lemma rememberDelivered_core:
  assumes "core N B c" "checkpoint_now c = Some (ev_cursor e)"
  shows "core N B (rememberDelivered M e c)"
proof -
  let ?s = "\<lparr>sn_cursor = ev_cursor e, sn_print = ev_print e\<rparr>"
  have "covers (checkpoint_now c) (sn_cursor s)" if "s \<in> snd ` set (cl_seenById (rememberDelivered M e c))" for s
  proof -
    have "set (cl_seenById (rememberDelivered M e c)) \<subseteq> set (map_put (ev_id e) ?s (cl_seenById c))"
      by (simp add: rememberDelivered_def case_prod_beta Let_def evict_seen_subset)
    then have "s \<in> snd ` set (map_put (ev_id e) ?s (cl_seenById c))" using that by blast
    from map_put_values [OF this] have "s = ?s \<or> s \<in> snd ` set (cl_seenById c)" .
    then show ?thesis using assms by (auto simp: core_def)
  qed
  then show ?thesis using assms(1)
    unfolding core_def by (simp add: rememberDelivered_def case_prod_beta Let_def checkpoint_now_def)
qed

lemma delivered_ok:
  assumes "ok_at N B (AtDeliver k e es) c"
  shows "claim_ok N B (delivered cur M k e es c)"
proof (cases "isActive cur c")
  case False
  then show ?thesis using assms raise_ok by (auto simp: delivered_def ok_at_def flow_at_runs)
next
  case True
  let ?p = "Some (ev_cursor e)"
  let ?d = "rememberDelivered M e (set_checkpoint ?p c)"
  have c: "core N B c" "runs_for k c" "position_now c = ?p" "accounted (e # es) c"
    and d: "safeCursorDistance (checkpoint_now c) ?p = Inr 1"
    using assms by (auto simp: ok_at_def flow_at_runs cov_at_def)
  have "core N B ?d"
    by (intro rememberDelivered_core set_checkpoint_core c) (use covers_step [OF d] in auto)
  moreover have "accounted es (set_checkpoint ?p c)"
    using c(4) covers_step [OF d] by (auto simp: accounted_def)
  ultimately have "claim_ok N B (deliverBatch cur k ?p es ?d)"
    using deliverBatch_ok [of N B ?d k ?p es cur] c by simp
  then show ?thesis using True by (simp add: delivered_def)
qed

lemma reject_ok:
  "ok_at N B (AtSnapshot a r) c \<Longrightarrow> ok_at N B (AfterRecoveryError e) c"
  "ok_at N B (AtApply a r s) c \<Longrightarrow> ok_at N B (AfterRecoveryError e) c"
  "ok_at N B (AtResume k p) c \<Longrightarrow> ok_at N B (AfterRaise k e) c"
  "ok_at N B (AtDeliver k ev es) c \<Longrightarrow> ok_at N B (AfterRaise k e) c"
  by (auto simp: ok_at_def flow_at_def cov_at_def)

lemma after_batch_ok:
  assumes "ok_at N B (AfterBatch k) c"
  shows "claim_ok N B (drain_loop cur k c)"
  by (rule drain_loop_ok) (use assms in \<open>auto simp: ok_at_def flow_at_runs cov_at_def\<close>)

lemma after_recovery_error_ok:
  "ok_at N B (AfterRecoveryError e) c \<Longrightarrow> claim_ok N B (recovery_failed e c)"
  by (rule recovery_failed_ok) (auto simp: ok_at_def flow_at_def between_def)

lemma continue_claim_ok:
  assumes "claim_ok N B c"
  shows "claim_ok N B (continue_claim cur M x (cl_pc c) c)"
proof -
  have "ok_at N B k c \<Longrightarrow> claim_ok N B c \<Longrightarrow> claim_ok N B (continue_claim cur M x k c)" for k
    by (cases k; cases x; simp; erule reject_ok snapshot_arrived_ok snapshot_applied_ok
        resume_answered_ok delivered_ok after_batch_ok raised_ok recovered_ok after_recovery_error_ok
        drain_settled_ok)
  then show ?thesis using assms by (auto simp: claim_ok_def)
qed

text \<open>What comes in changes the buffer and the error of a claim; a drain starts where none is running.\<close>

lemma absorb_ok:
  assumes "claim_ok N B c" "\<not> ended c" "core N B d"
    "cl_phase d = cl_phase c" "cl_starting d = cl_starting c" "cl_liveDrain d = cl_liveDrain c"
    "cl_pc d = cl_pc c" "checkpoint_now d = checkpoint_now c" "position_now d = position_now c"
    "\<not> recovering_at (cl_pc c) \<Longrightarrow> accounted (in_progress (cl_pc c)) d"
  shows "claim_ok N B (scheduleLiveDrain cur d)"
proof -
  have at: "flow_at (cl_pc c) c" "pos_at (cl_pc c) c" using assms(1) by (auto simp: claim_ok_def ok_at_def)
  have e: "\<not> ended d" using assms(2,4) by (simp add: ended_def)
  show ?thesis
  proof (cases "cl_pc c = NoTask")
    case True
    then have "cl_phase c = Live" "\<not> cl_starting c" "\<not> cl_liveDrain c" "checkpoint_now c = position_now c"
      using at assms(2) by (auto simp: flow_at_def)
    then show ?thesis using assms True by (intro scheduleLiveDrain_ok) auto
  next
    case False
    then have "flow_at (cl_pc c) d"
      using at(1) assms(4-6) e assms(2) by (simp add: flow_at_def)
    moreover have "pos_at (cl_pc c) d" using at(2) assms(4,8,9) by (cases "cl_pc c") simp_all
    ultimately have "claim_ok N B d"
      using assms(3,7,10) by (auto simp: claim_ok_def ok_at_def cov_at_def)
    moreover have "scheduleLiveDrain cur d = d"
      using at(1) False assms(4-6) by (auto simp: scheduleLiveDrain_def flow_at_def)
    ultimately show ?thesis by simp
  qed
qed

lemma markIntegrityFailure_frame [simp]:
  "core N B (markIntegrityFailure r c) = core N B c" "cl_error (markIntegrityFailure r c) \<noteq> None"
  "cl_phase (markIntegrityFailure r c) = cl_phase c" "cl_starting (markIntegrityFailure r c) = cl_starting c"
  "cl_liveDrain (markIntegrityFailure r c) = cl_liveDrain c" "cl_pc (markIntegrityFailure r c) = cl_pc c"
  "checkpoint_now (markIntegrityFailure r c) = checkpoint_now c"
  "position_now (markIntegrityFailure r c) = position_now c" "accounted es (markIntegrityFailure r c)"
  by (auto simp: markIntegrityFailure_def accounted_def split: option.splits)

lemma clearBuffer_frame [simp]:
  "core N B c \<Longrightarrow> core N B (clearBuffer c)"
  "cl_phase (clearBuffer c) = cl_phase c" "cl_starting (clearBuffer c) = cl_starting c"
  "cl_liveDrain (clearBuffer c) = cl_liveDrain c" "cl_pc (clearBuffer c) = cl_pc c"
  "checkpoint_now (clearBuffer c) = checkpoint_now c" "position_now (clearBuffer c) = position_now c"
  by (simp_all add: clearBuffer_def core_def checkpoint_now_def position_now_def)

lemma push_event_core:
  assumes "core N B c" "length (cl_buffer c) + 1 \<le> N" "cl_bytes c + ev_bytes e \<le> B"
  shows "core N B (push_event e c)"
proof -
  have "sn_cursor s \<in> ev_cursor ` set (cl_buffer (push_event e c))"
    if "s \<in> snd ` set (cl_bufferedById (push_event e c))" for s
    using map_put_values [of s "ev_id e" "\<lparr>sn_cursor = ev_cursor e, sn_print = ev_print e\<rparr>" "cl_bufferedById c"]
      that assms(1) by (auto simp: push_event_def core_def)
  then show ?thesis using assms
    unfolding core_def by (simp add: push_event_def checkpoint_now_def)
qed

lemma push_event_frame [simp]:
  "cl_phase (push_event e c) = cl_phase c" "cl_starting (push_event e c) = cl_starting c"
  "cl_liveDrain (push_event e c) = cl_liveDrain c" "cl_pc (push_event e c) = cl_pc c"
  "cl_error (push_event e c) = cl_error c" "cl_accepted (push_event e c) = cl_accepted c"
  "cl_buffer (push_event e c) = cl_buffer c @ [e]" "ended (push_event e c) = ended c"
  "checkpoint_now (push_event e c) = checkpoint_now c" "position_now (push_event e c) = position_now c"
  by (simp_all add: push_event_def checkpoint_now_def position_now_def ended_def)

lemma bufferDurableEvent_frame [simp]:
  "core N B c \<Longrightarrow> core N B (bufferDurableEvent N B e c)"
  "cl_phase (bufferDurableEvent N B e c) = cl_phase c" "cl_starting (bufferDurableEvent N B e c) = cl_starting c"
  "cl_liveDrain (bufferDurableEvent N B e c) = cl_liveDrain c" "cl_pc (bufferDurableEvent N B e c) = cl_pc c"
  "checkpoint_now (bufferDurableEvent N B e c) = checkpoint_now c"
  "position_now (bufferDurableEvent N B e c) = position_now c"
  by (auto simp: bufferDurableEvent_def push_event_core split: option.splits)

lemma buffered_accounted:
  assumes "core N B c" "accounted es c"
  shows "accounted es (bufferDurableEvent N B e (c\<lparr>cl_accepted := cl_accepted c @ [e]\<rparr>))"
proof -
  let ?a = "c\<lparr>cl_accepted := cl_accepted c @ [e]\<rparr>"
  have seen: "map_of (cl_seenById c) i = Some s \<Longrightarrow> covers (checkpoint_now c) (sn_cursor s)" for i s
    using assms(1) map_of_SomeD by (fastforce simp: core_def)
  have buf: "map_of (cl_bufferedById c) i = Some s \<Longrightarrow> sn_cursor s \<in> ev_cursor ` set (cl_buffer c)" for i s
    using assms(1) map_of_SomeD by (fastforce simp: core_def)
  have known: "accounted es ?a" if "covers (checkpoint_now c) (ev_cursor e) \<or> ev_cursor e \<in> ev_cursor ` set (cl_buffer c)"
    using assms(2) that by (auto simp: accounted_def ended_def)
  have "accounted es (push_event e ?a)"
    using assms(2) by (auto simp: accounted_def ended_def)
  moreover have "accounted es ?a" if "map_of (cl_seenById c) (ev_id e) = Some s" "same_content s e" for s
    using known seen [OF that(1)] that(2) by (simp add: same_content_def)
  moreover have "accounted es ?a" if "map_of (cl_bufferedById c) (ev_id e) = Some s" "same_content s e" for s
    using known buf [OF that(1)] that(2) by (simp add: same_content_def)
  ultimately show ?thesis
    by (simp add: bufferDurableEvent_def split: option.splits)
qed

lemma accept_claim_ok:
  assumes "claim_ok N B c"
  shows "claim_ok N B (accept_claim cur N B e c)"
proof (cases "ended c")
  case True
  then show ?thesis using assms by (auto simp: accept_claim_def ended_def)
next
  case False
  then have e: "\<not> (cl_phase c = StoppedPhase \<or> cl_phase c = FailedPhase)" by (simp add: ended_def)
  have core: "core N B c" and cov: "\<not> recovering_at (cl_pc c) \<Longrightarrow> accounted (in_progress (cl_pc c)) c"
    using assms by (auto simp: claim_ok_def ok_at_def cov_at_def)
  have "claim_ok N B (scheduleLiveDrain cur (markIntegrityFailure SR_CursorConflict c))"
    by (rule absorb_ok [OF assms False]) (use core in simp_all)
  moreover have "claim_ok N B (scheduleLiveDrain cur
      (bufferDurableEvent N B e (c\<lparr>cl_accepted := cl_accepted c @ [e]\<rparr>)))"
    by (rule absorb_ok [OF assms False]) (use core buffered_accounted [OF core cov] in simp_all)
  moreover have "claim_ok N B (call_app (ObservedEphemeral e) c)"
    using assms by (cases "cl_pc c") (simp_all add: claim_ok_def ok_at_def flow_at_def cov_at_def call_app_core)
  ultimately show ?thesis using assms e by (auto simp: accept_claim_def split: event_kind.splits)
qed

lemma start_claim_ok: "claim_ok N B (start_claim (new_claim t g i))"
proof -
  let ?c = "new_claim t g i"
  have "core N B ?c" "between ?c" "cl_phase ?c \<noteq> Live" "cl_starting ?c" "cl_accepted ?c = []"
    by (auto simp: new_claim_def core_def between_def)
  moreover have "checkpoint_now ?c = start_position ?c" "position_now ?c = start_position ?c"
    by (simp_all add: new_claim_def checkpoint_now_def position_now_def start_position_def cong: option.case_cong)
  moreover have "cl_given ?c = Some h \<Longrightarrow> cp_instance h = cl_instance ?c \<Longrightarrow> cp_cursor h = start_position ?c" for h
    by (simp add: start_position_def)
  ultimately show ?thesis
    by (auto simp: start_claim_def intro!: snapshot_attempt_ok resumeFrom_ok split: option.splits)
qed

section \<open>The checkpoints of the manager\<close>

text \<open>What a function leaves of a claim, apart from the checkpoint it may set.\<close>

definition keeps_store :: "claimed_thread \<Rightarrow> claimed_thread \<Rightarrow> bool" where
  "keeps_store c d \<longleftrightarrow> cl_thread d = cl_thread c \<and> cl_checkpoint d = cl_checkpoint c \<and> cl_stored d = cl_stored c"

lemma keeps_store_simps [simp]:
  "keeps_store c c" "keeps_store c (goto_pc k d) = keeps_store c d" "keeps_store c (call_app a d) = keeps_store c d"
  "keeps_store c (clearBuffer d) = keeps_store c d" "keeps_store c (failState e d) = keeps_store c d"
  "keeps_store c (snd (takeBuffer d)) = keeps_store c d"
  "keeps_store c (markIntegrityFailure r d) = keeps_store c d" "keeps_store c (push_event ev d) = keeps_store c d"
  "keeps_store c (rememberDelivered N ev d) = keeps_store c d"
  "keeps_store c (d\<lparr>cl_phase := h\<rparr>) = keeps_store c d" "keeps_store c (d\<lparr>cl_pc := k\<rparr>) = keeps_store c d"
  "keeps_store c (d\<lparr>cl_liveDrain := b\<rparr>) = keeps_store c d" "keeps_store c (d\<lparr>cl_starting := b\<rparr>) = keeps_store c d"
  "keeps_store c (d\<lparr>cl_error := x\<rparr>) = keeps_store c d" "keeps_store c (d\<lparr>cl_accepted := es\<rparr>) = keeps_store c d"
  by (auto simp: keeps_store_def goto_pc_def call_app_def clearBuffer_def failState_def takeBuffer_def
      markIntegrityFailure_def push_event_def rememberDelivered_def case_prod_beta Let_def)

lemma keeps_store_deliver [simp]: "keeps_store c (deliverBatch cur k p es d) = keeps_store c d"
  by (induction es) (auto split: sum.splits)

lemma keeps_store_drain [simp]: "keeps_store c (drain_loop cur k d) = keeps_store c d"
  using keeps_store_simps(6) [of c d]
  by (auto simp: drain_loop_def case_prod_beta Let_def split: option.splits sum.splits)

lemma keeps_store_live [simp]: "keeps_store c (scheduleLiveDrain cur d) = keeps_store c d"
  by (simp add: scheduleLiveDrain_def)

lemma keeps_store_resume [simp]:
  "keeps_store c (resumeFrom cur k p d) = keeps_store c d"
  "keeps_store c (snapshot_attempt cur a r d) = keeps_store c d"
  "keeps_store c (snapshot_arrived cur a r s d) = keeps_store c d"
  "keeps_store c (recovery_failed e d) = keeps_store c d"
  "keeps_store c (recovered cur d) = keeps_store c d" "keeps_store c (drain_settled cur d) = keeps_store c d"
  by (auto simp: resumeFrom_def snapshot_attempt_def snapshot_arrived_def recovery_failed_def recovered_def
      drain_settled_def Let_def)

lemma keeps_store_raised [simp]: "keeps_store c (raised cur k e d) = keeps_store c d"
  by (auto simp: raised_def split: caller.splits option.splits recovery_error.splits)

lemma keeps_store_answered [simp]: "keeps_store c (resume_answered cur k p b d) = keeps_store c d"
  using keeps_store_simps(6) [of c "d\<lparr>cl_phase := Draining\<rparr>"]
  by (auto simp: resume_answered_def case_prod_beta Let_def split: option.splits sum.splits)

lemma keeps_store_accept [simp]: "keeps_store c (accept_claim cur N B e d) = keeps_store c d"
  by (auto simp: accept_claim_def bufferDurableEvent_def split: event_kind.splits option.splits)

text \<open>A step either keeps the checkpoint, or sets one, stores it, and is a step of the current claim.\<close>

definition tracks :: "bool \<Rightarrow> claimed_thread \<Rightarrow> claimed_thread \<Rightarrow> bool" where
  "tracks cur c d \<longleftrightarrow> cl_thread d = cl_thread c
   \<and> (cl_checkpoint d = cl_checkpoint c \<and> cl_stored d = None \<or> cl_stored d = Some (cl_checkpoint d) \<and> cur)"

lemma keeps_tracks: "keeps_store c d \<Longrightarrow> cl_stored c = None \<Longrightarrow> tracks cur c d"
  by (auto simp: keeps_store_def tracks_def)

lemma sets_tracks:
  assumes "keeps_store (set_checkpoint p e) d" "cl_thread e = cl_thread c" "cur"
  shows "tracks cur c d"
  using assms by (auto simp: keeps_store_def tracks_def set_checkpoint_def Let_def)

lemma applied_tracks: "cl_stored c = None \<Longrightarrow> tracks cur c (snapshot_applied cur a s c)"
proof (cases "isActive cur c \<and> ss_cursor s \<noteq> None")
  case True
  then obtain p where p: "ss_cursor s = Some p" "isActive cur c" by auto
  let ?d = "(clearBuffer c)\<lparr>cl_seenById := [], cl_seenByCursor := [], cl_accepted := []\<rparr>"
  have "tracks cur c (resumeFrom cur (FromSnapshot a) p (set_checkpoint p ?d))"
    by (rule sets_tracks [of p ?d]) (use p in \<open>auto simp: isActive_def clearBuffer_def\<close>)
  then show ?thesis using p by (simp add: snapshot_applied_def)
qed (auto simp: snapshot_applied_def intro: keeps_tracks split: option.splits)

lemma delivered_tracks: "cl_stored c = None \<Longrightarrow> tracks cur c (delivered cur N k e es c)"
proof (cases "isActive cur c")
  case True
  then show ?thesis
    by (auto simp: delivered_def isActive_def intro!: sets_tracks [of "Some (ev_cursor e)" c])
qed (auto simp: delivered_def intro: keeps_tracks)

lemma continue_tracks:
  assumes "cl_stored c = None"
  shows "tracks cur c (continue_claim cur N x k c)"
  using assms keeps_tracks [OF _ assms, of _ cur] applied_tracks delivered_tracks
  by (cases k; cases x) simp_all

lemma stop_claim_keeps [simp]: "keeps_store c (stop_claim d) = keeps_store c d"
  by (simp add: stop_claim_def)

lemma start_claim_keeps: "keeps_store c (start_claim d) = keeps_store c d"
  by (simp add: start_claim_def split: option.splits)

lemma new_claim_fields [simp]: "cl_thread (new_claim t g i) = t" "cl_stored (new_claim t g i) = None"
  by (simp_all add: new_claim_def)

end
