(* ===== verification/EventRecoveryProps.thy ===== *)
theory EventRecoveryProps
  imports EventRecoveryInv
begin

text \<open>
  What the recovery manager promises over every run: what holds of each claim, stated once as the contract
  of an invariant of claims; which claim a thread has, and that its checkpoint is the one the manager
  shows; and a claim that was stopped calls the application no more.
\<close>

section \<open>Which claim a thread has\<close>

text \<open>The claim the manager has for a thread is one of that thread, and the checkpoint shown is its own.\<close>

definition mg_ok :: "recovery_manager \<Rightarrow> bool" where
  "mg_ok m \<longleftrightarrow> (\<forall>t j. mg_states m t = Some j \<longrightarrow> j < length (mg_claims m)
     \<and> cl_thread (mg_claims m ! j) = t \<and> mg_checkpoints m t = Some (cl_checkpoint (mg_claims m ! j)))"

lemma mg_okD:
  assumes "mg_ok m" "mg_states m t = Some j"
  shows "j < length (mg_claims m)" "cl_thread (mg_claims m ! j) = t"
    "mg_checkpoints m t = Some (cl_checkpoint (mg_claims m ! j))"
  using assms by (auto simp: mg_ok_def)

lemma run_claim_fields [simp]:
  "length (mg_claims (run_claim f j m)) = length (mg_claims m)" "mg_states (run_claim f j m) = mg_states m"
  "mg_closed (run_claim f j m) = mg_closed m"
  by (simp_all add: run_claim_def Let_def)

lemma run_claim_nth:
  "j < length (mg_claims m) \<Longrightarrow> mg_claims (run_claim f j m) ! i =
     (if i = j then f ((mg_claims m ! j)\<lparr>cl_stored := None\<rparr>) else mg_claims m ! i)"
  by (auto simp: run_claim_def Let_def)

lemma forget_start_fields [simp]:
  "mg_claims (forget_start j m) = mg_claims m" "mg_checkpoints (forget_start j m) = mg_checkpoints m"
  "mg_closed (forget_start j m) = mg_closed m"
  by (simp_all add: forget_start_def Let_def)

lemma forget_start_states: "mg_states (forget_start j m) t = Some i \<Longrightarrow> mg_states m t = Some i"
  by (auto simp: forget_start_def Let_def split: if_splits)

lemma map_current_fields [simp]: "length (map_current f m) = length (mg_claims m)"
  by (simp add: map_current_def)

lemma map_current_nth:
  "i < length (mg_claims m) \<Longrightarrow> map_current f m ! i =
     (if mg_states m (cl_thread (mg_claims m ! i)) = Some i then f (mg_claims m ! i) else mg_claims m ! i)"
  by (simp add: map_current_def Let_def)

lemma run_claim_mg_ok:
  assumes m: "mg_ok m" and j: "j < length (mg_claims m)"
    and t: "\<And>c. cl_stored c = None \<Longrightarrow> cl_thread c = cl_thread (mg_claims m ! j) \<Longrightarrow> tracks (is_current m j) c (f c)"
  shows "mg_ok (run_claim f j m)"
proof -
  let ?c = "(mg_claims m ! j)\<lparr>cl_stored := None\<rparr>"
  have tr: "tracks (is_current m j) ?c (f ?c)" by (rule t) simp_all
  have "mg_checkpoints (run_claim f j m) s = Some (cl_checkpoint (mg_claims (run_claim f j m) ! i))
      \<and> cl_thread (mg_claims (run_claim f j m) ! i) = s" if s: "mg_states m s = Some i" for s i
  proof (cases "i = j")
    case True
    then show ?thesis using tr j mg_okD [OF m s]
      by (auto simp: run_claim_nth [OF j] tracks_def) (auto simp: run_claim_def Let_def)
  next
    case False
    have "mg_checkpoints (run_claim f j m) s = mg_checkpoints m s"
      using tr s False by (auto simp: run_claim_def Let_def tracks_def is_current_def)
    then show ?thesis using mg_okD [OF m s] False by (simp add: run_claim_nth [OF j])
  qed
  then show ?thesis using m by (simp add: mg_ok_def)
qed

lemma map_current_mg_ok:
  assumes "mg_ok m" "\<And>c. keeps_store c (f c)"
  shows "mg_ok (m\<lparr>mg_claims := map_current f m\<rparr>)"
  using assms by (auto simp: mg_ok_def map_current_nth keeps_store_def)

lemma forget_start_mg_ok: "mg_ok m \<Longrightarrow> mg_ok (forget_start j m)"
  by (auto simp: mg_ok_def dest!: forget_start_states)

lemma unset_mg_ok: "mg_ok m \<Longrightarrow> mg_ok (m\<lparr>mg_states := (mg_states m)(t := None)\<rparr>)"
  by (auto simp: mg_ok_def)

lemma resume_mg_ok:
  assumes "mg_ok m"
  shows "mg_ok (fst (resumeThread t g i d m))"
  using assms start_claim_keeps [of "new_claim t g i" "new_claim t g i"]
  by (auto simp: resumeThread_def Let_def mg_ok_def nth_append keeps_store_def less_SucI
      split: option.splits)

lemma step_mg_ok:
  assumes "mg_ok m"
  shows "mg_ok (recovery_step N B x m)"
proof (cases x)
  case (ResumeThread t g i d)
  then show ?thesis using resume_mg_ok [OF assms] by simp
next
  case (StopThread t)
  show ?thesis
  proof (cases "mg_states m t")
    case (Some j)
    have "mg_ok (run_claim stop_claim j m)"
      by (rule run_claim_mg_ok [OF assms mg_okD(1) [OF assms Some]]) (auto intro: keeps_tracks)
    then show ?thesis using StopThread Some unset_mg_ok [of "run_claim stop_claim j m" t] by (simp add: stopThread_def)
  qed (use StopThread assms in \<open>simp add: stopThread_def\<close>)
next
  case CloseManager
  then show ?thesis using assms by (auto simp: close_recovery_def mg_ok_def)
next
  case (AcceptEvent e)
  show ?thesis
  proof (cases "mg_states m (ev_thread e)")
    case (Some j)
    have "mg_ok (run_claim (accept_claim (is_current m j) N B e) j m)"
      by (rule run_claim_mg_ok [OF assms mg_okD(1) [OF assms Some]]) (auto intro: keeps_tracks)
    then show ?thesis using AcceptEvent Some by (simp add: acceptEvent_def)
  qed (use AcceptEvent assms in \<open>simp add: acceptEvent_def\<close>)
next
  case (ClientExit e)
  then show ?thesis using map_current_mg_ok [OF assms] by (simp add: acceptClientExit_def)
next
  case (Continue j y)
  have "mg_ok (run_claim (continue_claim (is_current m j) N y (cl_pc (mg_claims m ! j))) j m)"
    if "j < length (mg_claims m)"
    by (rule run_claim_mg_ok [OF assms that]) (rule continue_tracks)
  then show ?thesis using Continue assms forget_start_mg_ok by (simp add: continueClaim_def)
qed

lemma run_mg_ok: "mg_ok (recovery_run N B ops)"
proof -
  have "mg_ok m \<Longrightarrow> mg_ok (fold (recovery_step N B) ops m)" for m
    by (induction ops arbitrary: m) (simp_all add: step_mg_ok)
  moreover have "mg_ok newRecoveryManager" by (simp add: mg_ok_def newRecoveryManager_def)
  ultimately show ?thesis by (simp add: recovery_run_def)
qed

section \<open>Invariants of claims\<close>

lemma in_list_update: "x \<in> set (xs[i := y]) \<Longrightarrow> x = y \<or> x \<in> set xs"
  by (metis insert_iff set_update_subset_insert subsetD)


text \<open>A property of claims that a new claim has and every function on a claim keeps.\<close>

locale claim_invariant =
  fixes N :: nat and B :: nat and P :: "claimed_thread \<Rightarrow> bool"
  assumes started: "P (start_claim (new_claim t g i))"
    and continued: "P c \<Longrightarrow> P (continue_claim cur N x (cl_pc c) c)"
    and accepted: "P c \<Longrightarrow> P (accept_claim cur N B e c)"
    and failed: "P c \<Longrightarrow> P (failState err c)"
    and stopped: "P c \<Longrightarrow> P (stop_claim c)"
    and stored: "P c \<Longrightarrow> P (c\<lparr>cl_stored := s\<rparr>)"
begin

definition all_claims :: "recovery_manager \<Rightarrow> bool" where
  "all_claims m \<longleftrightarrow> (\<forall>i < length (mg_claims m). P (mg_claims m ! i))"

lemma at_run_claim:
  assumes "all_claims m" "j < length (mg_claims m)"
    "\<And>c. P c \<Longrightarrow> cl_pc c = cl_pc (mg_claims m ! j) \<Longrightarrow> P (f c)"
  shows "all_claims (run_claim f j m)"
proof -
  have "P ((mg_claims m ! j)\<lparr>cl_stored := None\<rparr>)" using assms by (auto simp: all_claims_def intro: stored)
  then have "P (f ((mg_claims m ! j)\<lparr>cl_stored := None\<rparr>))" by (rule assms(3)) simp
  then show ?thesis using assms(1,2) by (simp add: all_claims_def run_claim_nth)
qed

lemma at_map_current:
  "all_claims m \<Longrightarrow> (\<And>c. P c \<Longrightarrow> P (f c)) \<Longrightarrow> all_claims (m\<lparr>mg_claims := map_current f m\<rparr>)"
  by (simp add: all_claims_def map_current_nth)

lemma all_claims_other:
  "all_claims (m\<lparr>mg_states := s\<rparr>) = all_claims m" "all_claims (m\<lparr>mg_closed := b\<rparr>) = all_claims m"
  "all_claims (forget_start j m) = all_claims m"
  by (simp_all add: all_claims_def)

lemma at_step:
  assumes m: "all_claims m" and ok: "mg_ok m"
  shows "all_claims (recovery_step N B x m)"
proof (cases x)
  case (ResumeThread t g i d)
  then show ?thesis using m started
    by (auto simp: resumeThread_def Let_def all_claims_def nth_append split: option.splits)
next
  case (StopThread t)
  have "all_claims (run_claim stop_claim j m)" if "mg_states m t = Some j" for j
    by (rule at_run_claim [OF m mg_okD(1) [OF ok that]]) (rule stopped)
  then show ?thesis using StopThread m by (auto simp: stopThread_def all_claims_other split: option.splits)
next
  case CloseManager
  then show ?thesis using at_map_current [OF m stopped] m by (auto simp: close_recovery_def all_claims_def)
next
  case (AcceptEvent e)
  have "all_claims (run_claim (accept_claim (is_current m j) N B e) j m)"
    if "mg_states m (ev_thread e) = Some j" for j
    by (rule at_run_claim [OF m mg_okD(1) [OF ok that]]) (rule accepted)
  then show ?thesis using AcceptEvent m by (auto simp: acceptEvent_def split: option.splits)
next
  case (ClientExit e)
  then show ?thesis using at_map_current [OF m failed] by (simp add: acceptClientExit_def)
next
  case (Continue j y)
  have "all_claims (run_claim (continue_claim (is_current m j) N y (cl_pc (mg_claims m ! j))) j m)"
    if "j < length (mg_claims m)"
    by (rule at_run_claim [OF m that]) (metis continued)
  then show ?thesis using Continue m by (simp add: continueClaim_def all_claims_other)
qed

lemma at_run:
  assumes "i < length (mg_claims (recovery_run N B ops))"
  shows "P (mg_claims (recovery_run N B ops) ! i)"
proof -
  have "all_claims m \<and> mg_ok m \<Longrightarrow> all_claims (fold (recovery_step N B) ops m)" for m
    by (induction ops arbitrary: m) (simp_all add: step_mg_ok at_step)
  moreover have "all_claims newRecoveryManager \<and> mg_ok newRecoveryManager"
    by (simp add: all_claims_def mg_ok_def newRecoveryManager_def)
  ultimately show ?thesis using assms by (simp add: recovery_run_def all_claims_def)
qed

end

interpretation recovery: claim_invariant N B "claim_ok N B" for N B
  by unfold_locales (simp_all add: start_claim_ok continue_claim_ok accept_claim_ok failState_ok stop_claim_ok)

lemma buffer_bounded:
  assumes "i < length (mg_claims (recovery_run N B ops))"
  defines "c \<equiv> mg_claims (recovery_run N B ops) ! i"
  shows "length (cl_buffer c) \<le> N" "sum_list (map ev_bytes (cl_buffer c)) \<le> B"
  using recovery.at_run [OF assms(1)] unfolding c_def by (auto simp: claim_ok_def ok_at_def core_def)

section \<open>A claim that ended\<close>

lemma ended_goto [simp]: "ended (goto_pc k c) = ended c" "cl_calls (goto_pc k c) = cl_calls c"
  by (simp_all add: ended_def goto_pc_def)

lemma ended_failState: "ended c \<Longrightarrow> failState e c = c"
  by (auto simp: failState_def ended_def)

lemma ended_inactive: "ended c \<Longrightarrow> \<not> isActive cur c"
  by (auto simp: isActive_def ended_def)

lemma ended_deliver: "ended c \<Longrightarrow> cl_calls (deliverBatch cur k p es c) = cl_calls c \<and> ended (deliverBatch cur k p es c)"
  using ended_inactive by (cases es) auto

lemma ended_drain: "ended c \<Longrightarrow> cl_calls (drain_loop cur k c) = cl_calls c \<and> ended (drain_loop cur k c)"
proof -
  assume e: "ended c"
  let ?d = "snd (takeBuffer c)"
  have "cl_calls ?d = cl_calls c" "ended ?d" using e by (simp_all add: takeBuffer_def ended_def)
  then show ?thesis using e ended_deliver [of ?d]
    by (auto simp: drain_loop_def case_prod_beta Let_def split: option.splits sum.splits)
qed

text \<open>What was stopped, or failed, is neither revived nor calls the application again.\<close>

definition silent :: "app_call list \<Rightarrow> claimed_thread \<Rightarrow> bool" where
  "silent as c \<longleftrightarrow> ended c \<and> cl_calls c = as"

lemma silent_continue: "silent as c \<Longrightarrow> silent as (continue_claim cur N x k c)"
proof -
  assume s: "silent as c"
  then have e: "ended c" "cl_calls c = as" "\<not> isActive cur c" by (auto simp: silent_def ended_inactive)
  have d: "cl_phase (c\<lparr>cl_liveDrain := False, cl_pc := NoTask\<rparr>) \<noteq> Live" using e(1) by simp
  have "silent as (raised cur h err c)" for h err
    using e by (auto simp: raised_def snapshot_attempt_def silent_def ended_failState
        split: caller.splits option.splits recovery_error.splits)
  moreover have "silent as (recovery_failed err c)" for err
    using e by (simp add: recovery_failed_def silent_def ended_failState)
  moreover have "silent as (drain_settled cur c)"
    using e d by (auto simp: drain_settled_def silent_def ended_def Let_def)
  ultimately show ?thesis using s e ended_drain [OF e(1)]
    by (cases k; cases x) (simp_all add: silent_def snapshot_arrived_def snapshot_applied_def
        resume_answered_def delivered_def recovered_def)
qed

lemma silent_others:
  "silent as c \<Longrightarrow> silent as (accept_claim cur N B e c)" "silent as c \<Longrightarrow> silent as (failState err c)"
  "silent as c \<Longrightarrow> silent as (stop_claim c)" "silent as c \<Longrightarrow> silent as (c\<lparr>cl_stored := x\<rparr>)"
  by (auto simp: silent_def accept_claim_def stop_claim_def clearBuffer_def ended_failState)
    (auto simp: ended_def)

lemma silent_step:
  assumes m: "mg_ok m" and i: "i < length (mg_claims m)" "silent as (mg_claims m ! i)"
  shows "i < length (mg_claims (recovery_step N B x m)) \<and> silent as (mg_claims (recovery_step N B x m) ! i)"
proof (cases x)
  case (ResumeThread t g h d)
  then show ?thesis using i by (auto simp: resumeThread_def Let_def nth_append split: option.splits)
next
  case (StopThread t)
  then show ?thesis using i silent_others(3,4) mg_okD(1) [OF m, of t]
    by (auto simp: stopThread_def run_claim_nth split: option.splits)
next
  case CloseManager
  then show ?thesis using i silent_others(3) by (simp add: close_recovery_def map_current_nth)
next
  case (AcceptEvent e)
  then show ?thesis using i silent_others(1,4) mg_okD(1) [OF m, of "ev_thread e"]
    by (auto simp: acceptEvent_def run_claim_nth split: option.splits)
next
  case (ClientExit e)
  then show ?thesis using i silent_others(2) by (simp add: acceptClientExit_def map_current_nth)
next
  case (Continue j y)
  then show ?thesis using i silent_continue [OF silent_others(4) [OF i(2)]]
    by (auto simp: continueClaim_def run_claim_nth)
qed

lemma silent_run:
  "mg_ok m \<Longrightarrow> i < length (mg_claims m) \<Longrightarrow> silent as (mg_claims m ! i) \<Longrightarrow>
   silent as (mg_claims (fold (recovery_step N B) ops m) ! i)"
proof (induction ops arbitrary: m)
  case (Cons x ops)
  then show ?case using silent_step [of m i as N B x] step_mg_ok [of m N B x] by simp
qed simp

section \<open>What the application sees\<close>

text \<open>
  C16: Whatever the application, the runtime and the transport do, and however the steps interleave, every
  event a claim hands to the application is the next one of the thread's log after the position the
  application is at: the checkpoint the claim was given, the last snapshot it applied, or the last event
  it got. So between two snapshots no event is missing and none comes twice or out of order, and each comes
  with the checkpoint that names it.
\<close>

theorem recovered_stream_gapless:
  assumes "i < length (mg_claims (recovery_run N B ops))"
  shows "follows (start_position (mg_claims (recovery_run N B ops) ! i)) (cl_calls (mg_claims (recovery_run N B ops) ! i))"
  using recovery.at_run [OF assms] by (simp add: claim_ok_def ok_at_def core_def)

definition sample_cursor :: "nat \<Rightarrow> cursor_parts" where
  "sample_cursor n = \<lparr>cu_log = 1, cu_seq = n, cu_event = n\<rparr>"

definition sample_event :: "nat \<Rightarrow> recovery_event" where
  "sample_event n = \<lparr>ev_thread = 1, ev_instance = 7, ev_kind = Durable, ev_id = n,
     ev_cursor = sample_cursor n, ev_print = n, ev_bytes = 1\<rparr>"

text \<open>A run with a snapshot, an event replayed twice, and the next events in the wrong order.\<close>

definition sample_run :: "recovery_op list" where
  "sample_run = [ResumeThread 1 None 7 True,
     Continue 0 (SnapshotResult \<lparr>ss_projection = True, ss_cursor = Some (Some (sample_cursor 2))\<rparr>),
     Continue 0 Done, AcceptEvent (sample_event 3), AcceptEvent (sample_event 3),
     Continue 0 (ResumeResult \<lparr>br_through = Some (sample_cursor 3), br_replayed = 1\<rparr>),
     AcceptEvent (sample_event 5), AcceptEvent (sample_event 4), Continue 0 Done, Continue 0 Done,
     Continue 0 Done, Continue 0 Done, Continue 0 Done, Continue 0 Done]"

theorem recovered_stream_gapless_witness:
  "follows (start_position (mg_claims (recovery_run 9 9 sample_run) ! 0))
     (cl_calls (mg_claims (recovery_run 9 9 sample_run) ! 0))
   \<and> length (cl_calls (mg_claims (recovery_run 9 9 sample_run) ! 0)) = 4"
proof -
  have "length (mg_claims (recovery_run 9 9 sample_run)) = 1
      \<and> length (cl_calls (mg_claims (recovery_run 9 9 sample_run) ! 0)) = 4" by code_simp
  then show ?thesis using recovered_stream_gapless [of 0 9 9 sample_run] by simp
qed

text \<open>
  C17: A live claim whose drain is not running has nothing waiting and no broken stream to repair, and the
  application is at or past every durable event that came in since the last snapshot: no event is left
  behind. For the thread's present claim, the checkpoint the manager shows is exactly that position, so a
  later claim that starts from it misses nothing and repeats nothing.
\<close>

theorem live_claim_complete:
  assumes "i < length (mg_claims (recovery_run N B ops))"
    "c = mg_claims (recovery_run N B ops) ! i" "cl_phase c = Live" "cl_pc c = NoTask"
  shows "cl_buffer c = [] \<and> cl_error c = None
    \<and> (\<forall>e \<in> set (cl_accepted c). covers (position_now c) (ev_cursor e))
    \<and> (mg_states (recovery_run N B ops) (cl_thread c) = Some i \<longrightarrow>
        getCheckpoint (cl_thread c) (recovery_run N B ops)
          = Some (cl_checkpoint c) \<and> cp_cursor (cl_checkpoint c) = position_now c)"
proof -
  have ok: "ok_at N B NoTask c" using recovery.at_run [OF assms(1)] assms(2,4) by (simp add: claim_ok_def)
  then have "cl_buffer c = []" "cl_error c = None" "checkpoint_now c = position_now c" "accounted [] c" "\<not> ended c"
    using assms(3) by (auto simp: ok_at_def flow_at_def cov_at_def ended_def)
  moreover have "mg_states (recovery_run N B ops) (cl_thread c) = Some i \<Longrightarrow>
      getCheckpoint (cl_thread c) (recovery_run N B ops) = Some (cl_checkpoint c)"
    using mg_okD(3) [OF run_mg_ok] assms(2) by (simp add: getCheckpoint_def)
  ultimately show ?thesis by (auto simp: accounted_def checkpoint_now_def)
qed

theorem live_claim_complete_witness:
  "\<exists>c. c = mg_claims (recovery_run 9 9 sample_run) ! 0 \<and> cl_phase c = Live
     \<and> length (cl_accepted c) = 4 \<and> (\<forall>e \<in> set (cl_accepted c). covers (position_now c) (ev_cursor e))"
proof -
  let ?c = "mg_claims (recovery_run 9 9 sample_run) ! 0"
  have "length (mg_claims (recovery_run 9 9 sample_run)) = 1 \<and> length (cl_accepted ?c) = 4" by code_simp
  moreover have "cl_phase ?c = Live" "cl_pc ?c = NoTask" by code_simp+
  ultimately show ?thesis using live_claim_complete [of 0 9 9 sample_run ?c] by simp
qed

text \<open>
  Once a thread was stopped, the claim it had never calls the application again, whatever was in
  progress for it: no event, no snapshot and no error.
\<close>

theorem stopped_claim_silent:
  assumes "mg_states (recovery_run N B ops) t = Some i"
  shows "cl_calls (mg_claims (recovery_run N B (ops @ StopThread t # later)) ! i)
    = cl_calls (mg_claims (recovery_run N B ops) ! i)"
proof -
  let ?m = "recovery_run N B ops"
  let ?s = "recovery_step N B (StopThread t) ?m"
  have i: "i < length (mg_claims ?m)" by (rule mg_okD(1) [OF run_mg_ok assms])
  have "silent (cl_calls (mg_claims ?m ! i)) (mg_claims ?s ! i)" "i < length (mg_claims ?s)"
    using assms i by (auto simp: stopThread_def run_claim_nth silent_def stop_claim_def clearBuffer_def ended_def)
  then have "silent (cl_calls (mg_claims ?m ! i)) (mg_claims (fold (recovery_step N B) later ?s) ! i)"
    using silent_run [OF step_mg_ok [OF run_mg_ok]] by blast
  then show ?thesis by (simp add: recovery_run_def silent_def)
qed

theorem stopped_claim_silent_witness:
  "cl_calls (mg_claims (recovery_run 9 9 (take 8 sample_run @ StopThread 1 # drop 8 sample_run)) ! 0)
    = cl_calls (mg_claims (recovery_run 9 9 (take 8 sample_run)) ! 0)"
proof -
  have "mg_states (recovery_run 9 9 (take 8 sample_run)) 1 = Some 0" by code_simp
  then show ?thesis by (rule stopped_claim_silent)
qed

text \<open>The application starts a thread, stops it while its snapshot is on the way, and starts it again.\<close>

definition stale_run :: "recovery_op list" where
  "stale_run = (let s = SnapshotResult \<lparr>ss_projection = True, ss_cursor = Some None\<rparr> in
     [ResumeThread 1 None 7 True, StopThread 1, ResumeThread 1 None 7 True, Continue 1 s, Continue 1 Done,
      Continue 1 (ResumeResult \<lparr>br_through = None, br_replayed = 0\<rparr>), Continue 1 Done, Continue 1 Done,
      Continue 0 s, Continue 0 Done])"

text \<open>
  The start of a claim that was stopped takes the thread from the claim that replaced it: when the
  first start of this run fails at last, the second claim is live and was told of no error, but the
  manager no longer routes the thread's events to it; before, it did.
\<close>

theorem stale_start_drops_claim:
  "let m = recovery_run 9 9 stale_run; c = mg_claims m ! 1; e = sample_event 0 in
     \<not> mg_closed m \<and> cl_phase c = Live \<and> cl_thread c = ev_thread e
     \<and> list_all (\<lambda>a. case a of AppliedSnapshot r s \<Rightarrow> True | _ \<Rightarrow> False) (cl_calls c)
     \<and> snd (acceptEvent 9 9 e (recovery_run 9 9 (take 9 stale_run))) \<and> \<not> snd (acceptEvent 9 9 e m)"
proof -
  let ?m = "recovery_run 9 9 stale_run"
  have "\<not> mg_closed ?m" by code_simp
  moreover have "cl_phase (mg_claims ?m ! 1) = Live" by code_simp
  moreover have "cl_thread (mg_claims ?m ! 1) = ev_thread (sample_event 0)" by code_simp
  moreover have "\<not> snd (acceptEvent 9 9 (sample_event 0) ?m)" by code_simp
  moreover have "snd (acceptEvent 9 9 (sample_event 0) (recovery_run 9 9 (take 9 stale_run)))" by code_simp
  moreover have "list_all (\<lambda>a. case a of AppliedSnapshot r s \<Rightarrow> True | _ \<Rightarrow> False) (cl_calls (mg_claims ?m ! 1))"
    by code_simp
  ultimately show ?thesis by (simp add: Let_def)
qed

end
