(* ===== verification/SessionClaims.thy ===== *)
theory SessionClaims
  imports Prelude
begin

text \<open>
  The claims on sessions (\<open>SessionClaims\<close> in \<open>packages/runtime/src/ownership/session-claims.ts\<close>): processes
  that share a library of threads claim a thread in a sidecar database before they write it, and a claim
  of a process that died is reaped. Several stores, of one process or of several, share the table.

  An operation runs without awaiting, but other processes act between its transactions: an acquisition in
  progress is part of a store, and each transaction and each probe of a process is a step. A transaction is
  atomic, and while one store keeps its write transaction open (\<open>beginLibraryInitialization\<close>) the writes of
  others fail. A probe and the deletion it allows are one step: a process that is dead stays dead. What a
  probe answers, whether the library is reached by another name, and what \<open>isNew\<close>
  returns come in with the steps. Identities and claim ids are numbers, thread ids too, zero being the
  empty string that is reserved for maintenance; the owner texts only go into errors.
\<close>

section \<open>Data\<close>

definition MAINTENANCE :: nat where
  "MAINTENANCE = 0"

record session_claim =
  cr_thread :: nat
  cr_id :: nat
  cr_identity :: nat

record held_claim =
  hc_claim :: session_claim
  hc_references :: nat

datatype probe_answer = Alive | Dead | Unknown

text \<open>A call in progress: before a transaction, or with the conflict it found, before the probe; with the
  number of attempts made. \<open>None\<close> for the claim is \<open>beginLibraryInitialization\<close>.\<close>

datatype claims_call = Trying "session_claim option" nat | Probing "session_claim option" nat session_claim

record claims_store =
  st_identity :: nat
  st_held :: "held_claim list"
  st_closed :: bool
  st_alive :: bool
  st_call :: "claims_call option"

record claim_handle =
  ch_store :: nat
  ch_claim :: session_claim
  ch_released :: bool

datatype claims_error = NoThread | ClaimsClosed | AmbiguousAlias | StaleClaim | Occupied nat | DatabaseBusy
  | IsNewFailed | UnsettledClaims

text \<open>The table is the list of its rows in rowid order; \<open>lb_lock\<close> is the store whose write transaction is
  open, and \<open>lb_undo\<close> the table before that transaction. \<open>lb_errors\<close> logs what calls throw.\<close>

record claims_library =
  lb_rows :: "session_claim list"
  lb_lock :: "nat option"
  lb_undo :: "session_claim list"
  lb_stores :: "claims_store list"
  lb_handles :: "claim_handle list"
  lb_next :: nat
  lb_errors :: "(nat \<times> claims_error) list"

section \<open>Table and stores\<close>

definition row_of :: "nat \<Rightarrow> session_claim list \<Rightarrow> session_claim option" where
  "row_of t rs = find (\<lambda>r. cr_thread r = t) rs"

definition first_row :: "session_claim list \<Rightarrow> session_claim option" where
  "first_row rs = (case rs of [] \<Rightarrow> None | r # _ \<Rightarrow> Some r)"

definition delete_row :: "session_claim \<Rightarrow> session_claim list \<Rightarrow> session_claim list" where
  "delete_row c rs = filter (\<lambda>r. \<not> (cr_thread r = cr_thread c \<and> cr_id r = cr_id c)) rs"

definition held_of :: "nat \<Rightarrow> claims_store \<Rightarrow> held_claim option" where
  "held_of t s = find (\<lambda>h. cr_thread (hc_claim h) = t) (st_held s)"

text \<open>\<open>read(MAINTENANCE) ?? (...)\<close>: what keeps a claim, or an initialisation, from being entered.\<close>

definition conflict_of :: "session_claim \<Rightarrow> session_claim list \<Rightarrow> session_claim option" where
  "conflict_of c rs = (case row_of MAINTENANCE rs of
       Some r \<Rightarrow> Some r
     | None \<Rightarrow> if cr_thread c = MAINTENANCE then first_row rs else row_of (cr_thread c) rs)"

definition init_conflict :: "bool \<Rightarrow> session_claim list \<Rightarrow> session_claim option" where
  "init_conflict fresh rs = (case row_of MAINTENANCE rs of
       Some r \<Rightarrow> Some r
     | None \<Rightarrow> if fresh then first_row rs else None)"

definition set_store :: "nat \<Rightarrow> (claims_store \<Rightarrow> claims_store) \<Rightarrow> claims_library \<Rightarrow> claims_library" where
  "set_store i f l = l\<lparr>lb_stores := (lb_stores l)[i := f (lb_stores l ! i)]\<rparr>"

definition set_call :: "nat \<Rightarrow> claims_call option \<Rightarrow> claims_library \<Rightarrow> claims_library" where
  "set_call i k = set_store i (\<lambda>s. s\<lparr>st_call := k\<rparr>)"

text \<open>A call that throws is over.\<close>

definition throws :: "nat \<Rightarrow> claims_error \<Rightarrow> claims_library \<Rightarrow> claims_library" where
  "throws i e l = (set_call i None l)\<lparr>lb_errors := lb_errors l @ [(i, e)]\<rparr>"

text \<open>A live store between two calls, and one in a call.\<close>

definition idle :: "claims_library \<Rightarrow> nat \<Rightarrow> bool" where
  "idle l i \<longleftrightarrow> i < length (lb_stores l) \<and> st_alive (lb_stores l ! i) \<and> st_call (lb_stores l ! i) = None"

definition call_of :: "claims_library \<Rightarrow> nat \<Rightarrow> claims_call option" where
  "call_of l i = (if i < length (lb_stores l) \<and> st_alive (lb_stores l ! i) then st_call (lb_stores l ! i) else None)"

definition checkOpen :: "bool \<Rightarrow> claims_store \<Rightarrow> claims_error option" where
  "checkOpen aliased s = (if st_closed s then Some ClaimsClosed
     else if aliased then Some AmbiguousAlias else None)"

definition assert_claim :: "bool \<Rightarrow> nat \<Rightarrow> session_claim \<Rightarrow> claims_library \<Rightarrow> claims_error option" where
  "assert_claim aliased i c l = (case checkOpen aliased (lb_stores l ! i) of
       Some e \<Rightarrow> Some e
     | None \<Rightarrow> if map_option cr_id (row_of (cr_thread c) (lb_rows l)) \<noteq> Some (cr_id c) then Some StaleClaim else None)"

definition add_handle :: "nat \<Rightarrow> session_claim \<Rightarrow> claims_library \<Rightarrow> claims_library" where
  "add_handle i c l = l\<lparr>lb_handles := lb_handles l @ [\<lparr>ch_store = i, ch_claim = c, ch_released = False\<rparr>]\<rparr>"

definition change_references :: "(nat \<Rightarrow> nat) \<Rightarrow> nat \<Rightarrow> claims_store \<Rightarrow> claims_store" where
  "change_references f t s = s\<lparr>st_held := map (\<lambda>h. if cr_thread (hc_claim h) = t
     then h\<lparr>hc_references := f (hc_references h)\<rparr> else h) (st_held s)\<rparr>"

section \<open>Acquiring\<close>

text \<open>\<open>acquireKey\<close> up to its first transaction.\<close>

definition acquireKey :: "bool \<Rightarrow> nat \<Rightarrow> nat \<Rightarrow> claims_library \<Rightarrow> claims_library" where
  "acquireKey aliased i t l = (let s = lb_stores l ! i in
     (case checkOpen aliased s of
        Some e \<Rightarrow> throws i e l
      | None \<Rightarrow> (case held_of t s of
          Some h \<Rightarrow> (case assert_claim aliased i (hc_claim h) l of
              Some e \<Rightarrow> throws i e l
            | None \<Rightarrow> add_handle i (hc_claim h) (set_store i (change_references Suc t) l))
        | None \<Rightarrow> set_call i (Some (Trying (Some \<lparr>cr_thread = t, cr_id = lb_next l, cr_identity = st_identity s\<rparr>) 0))
            (l\<lparr>lb_next := Suc (lb_next l)\<rparr>))))"

definition acquire_session :: "bool \<Rightarrow> nat \<Rightarrow> nat \<Rightarrow> claims_library \<Rightarrow> claims_library" where
  "acquire_session aliased i t l = (if t = MAINTENANCE then throws i NoThread l else acquireKey aliased i t l)"

definition maintenance :: "bool \<Rightarrow> nat \<Rightarrow> claims_library \<Rightarrow> claims_library" where
  "maintenance aliased i l = acquireKey aliased i MAINTENANCE l"

definition beginLibraryInitialization :: "bool \<Rightarrow> nat \<Rightarrow> claims_library \<Rightarrow> claims_library" where
  "beginLibraryInitialization aliased i l = (case checkOpen aliased (lb_stores l ! i) of
       Some e \<Rightarrow> throws i e l
     | None \<Rightarrow> set_call i (Some (Trying None 0)) l)"

text \<open>The transaction of an attempt: the claim is entered when nothing conflicts.\<close>

definition try_claim :: "nat \<Rightarrow> session_claim \<Rightarrow> nat \<Rightarrow> claims_library \<Rightarrow> claims_library" where
  "try_claim i c n l =
     (if lb_lock l \<noteq> None then throws i DatabaseBusy l
      else (case conflict_of c (lb_rows l) of
          Some r \<Rightarrow> set_call i (Some (Probing (Some c) n r)) l
        | None \<Rightarrow> add_handle i c (set_store i (\<lambda>s. s\<lparr>st_call := None,
              st_held := st_held s @ [\<lparr>hc_claim = c, hc_references = 1\<rparr>]\<rparr>)
            (l\<lparr>lb_rows := lb_rows l @ [c]\<rparr>))))"

text \<open>The transaction of an initialisation stays open when nothing conflicts; \<open>isNew\<close> may throw.\<close>

definition try_init :: "nat \<Rightarrow> bool option \<Rightarrow> nat \<Rightarrow> claims_library \<Rightarrow> claims_library" where
  "try_init i new n l =
     (if lb_lock l \<noteq> None then throws i DatabaseBusy l
      else (case new of
          None \<Rightarrow> throws i IsNewFailed l
        | Some fresh \<Rightarrow> (case init_conflict fresh (lb_rows l) of
            Some r \<Rightarrow> set_call i (Some (Probing None n r)) l
          | None \<Rightarrow> (set_call i None l)\<lparr>lb_lock := Some i, lb_undo := lb_rows l\<rparr>)))"

definition transact :: "nat \<Rightarrow> bool option \<Rightarrow> claims_library \<Rightarrow> claims_library" where
  "transact i new l = (case call_of l i of
       Some (Trying (Some c) n) \<Rightarrow> try_claim i c n l
     | Some (Trying None n) \<Rightarrow> try_init i new n l
     | _ \<Rightarrow> l)"

text \<open>\<open>reap\<close>, and the next of at most 32 attempts.\<close>

definition MAX_ATTEMPTS :: nat where
  "MAX_ATTEMPTS = 32"

definition wanted :: "session_claim option \<Rightarrow> nat" where
  "wanted c = (case c of None \<Rightarrow> MAINTENANCE | Some c \<Rightarrow> cr_thread c)"

definition reap :: "nat \<Rightarrow> probe_answer \<Rightarrow> claims_library \<Rightarrow> claims_library" where
  "reap i status l = (case call_of l i of
       Some (Probing c n r) \<Rightarrow>
         if status \<noteq> Dead then throws i (Occupied (wanted c)) l
         else if lb_lock l \<noteq> None then throws i DatabaseBusy l
         else (let d = l\<lparr>lb_rows := delete_row r (lb_rows l)\<rparr> in
           if n + 1 < MAX_ATTEMPTS then set_call i (Some (Trying c (n + 1))) d
           else throws i (Occupied (wanted c)) d)
     | _ \<Rightarrow> l)"

section \<open>Releasing\<close>

definition mark_released :: "nat \<Rightarrow> claims_library \<Rightarrow> claims_library" where
  "mark_released h l = l\<lparr>lb_handles := (lb_handles l)[h := (lb_handles l ! h)\<lparr>ch_released := True\<rparr>]\<rparr>"

text \<open>\<open>handle.release\<close>: the last reference deletes the row, unless another store's transaction is open.\<close>

definition release_handle :: "nat \<Rightarrow> claims_library \<Rightarrow> claims_library" where
  "release_handle h l = (let c = ch_claim (lb_handles l ! h); i = ch_store (lb_handles l ! h);
       t = cr_thread c; m = mark_released h l in
     if ch_released (lb_handles l ! h) then l
     else (case held_of t (lb_stores l ! i) of
         None \<Rightarrow> m
       | Some e \<Rightarrow>
           if cr_id (hc_claim e) \<noteq> cr_id c then m
           else (let d = set_store i (change_references (\<lambda>k. k - 1) t) m in
             if hc_references e - 1 \<noteq> 0 then d
             else if lb_lock l \<noteq> None \<and> lb_lock l \<noteq> Some i then throws i DatabaseBusy d
             else (set_store i (\<lambda>s. s\<lparr>st_held := filter (\<lambda>e. cr_thread (hc_claim e) \<noteq> t) (st_held s)\<rparr>) d)
               \<lparr>lb_rows := delete_row c (lb_rows l)\<rparr>)))"

definition assert_handle :: "bool \<Rightarrow> nat \<Rightarrow> claims_library \<Rightarrow> claims_error option" where
  "assert_handle aliased h l = (let c = ch_claim (lb_handles l ! h); i = ch_store (lb_handles l ! h) in
     if ch_released (lb_handles l ! h) then Some StaleClaim else assert_claim aliased i c l)"

text \<open>The function that \<open>beginLibraryInitialization\<close> returns commits the transaction.\<close>

definition endInitialization :: "nat \<Rightarrow> claims_library \<Rightarrow> claims_library" where
  "endInitialization i l = (if lb_lock l = Some i then l\<lparr>lb_lock := None\<rparr> else l)"

text \<open>A connection that goes rolls an open transaction back.\<close>

definition rollback :: "claims_library \<Rightarrow> claims_library" where
  "rollback l = l\<lparr>lb_lock := None, lb_rows := lb_undo l\<rparr>"

definition close_claims :: "nat \<Rightarrow> claims_library \<Rightarrow> claims_library" where
  "close_claims i l = (let s = lb_stores l ! i in
     if st_closed s then l
     else if st_held s \<noteq> [] then throws i UnsettledClaims l
     else set_store i (\<lambda>s. s\<lparr>st_closed := True\<rparr>) (if lb_lock l = Some i then rollback l else l))"

section \<open>Runs\<close>

definition open_claims :: "nat \<Rightarrow> claims_library \<Rightarrow> claims_library" where
  "open_claims p l = l\<lparr>lb_stores := lb_stores l @
     [\<lparr>st_identity = p, st_held = [], st_closed = False, st_alive = True, st_call = None\<rparr>]\<rparr>"

definition lock_identity :: "claims_library \<Rightarrow> nat option" where
  "lock_identity l = (case lb_lock l of None \<Rightarrow> None | Some i \<Rightarrow> Some (st_identity (lb_stores l ! i)))"

definition die :: "nat \<Rightarrow> claims_library \<Rightarrow> claims_library" where
  "die p l = (if lock_identity l = Some p then rollback l else l)
     \<lparr>lb_stores := map (\<lambda>s. if st_identity s = p then s\<lparr>st_alive := False, st_call := None\<rparr> else s) (lb_stores l)\<rparr>"

datatype claims_op = OpenStore nat | Acquire bool nat nat | Maintain bool nat | BeginInit bool nat
  | Transact nat "bool option" | Probe nat probe_answer | Release nat | EndInit nat | CloseStore nat | Die nat

text \<open>A process that died is not started again under its identity.\<close>

fun claims_step :: "claims_op \<Rightarrow> claims_library \<Rightarrow> claims_library" where
  "claims_step (OpenStore p) l =
     (if \<exists>s \<in> set (lb_stores l). st_identity s = p \<and> \<not> st_alive s then l else open_claims p l)"
| "claims_step (Acquire a i t) l = (if idle l i then acquire_session a i t l else l)"
| "claims_step (Maintain a i) l = (if idle l i then maintenance a i l else l)"
| "claims_step (BeginInit a i) l = (if idle l i then beginLibraryInitialization a i l else l)"
| "claims_step (Transact i new) l = transact i new l"
| "claims_step (Probe i status) l = reap i status l"
| "claims_step (Release h) l = (if h < length (lb_handles l) \<and> idle l (ch_store (lb_handles l ! h))
     then release_handle h l else l)"
| "claims_step (EndInit i) l = (if idle l i then endInitialization i l else l)"
| "claims_step (CloseStore i) l = (if idle l i then close_claims i l else l)"
| "claims_step (Die p) l = die p l"

definition new_library :: claims_library where
  "new_library = \<lparr>lb_rows = [], lb_lock = None, lb_undo = [], lb_stores = [], lb_handles = [], lb_next = 0,
     lb_errors = []\<rparr>"

definition claims_run :: "claims_op list \<Rightarrow> claims_library" where
  "claims_run ops = fold claims_step ops new_library"

text \<open>What the host promises of its probe: only a process that is dead is reported dead.\<close>

fun honest_step :: "claims_op \<Rightarrow> claims_library \<Rightarrow> bool" where
  "honest_step (Probe i status) l = (case call_of l i of
       Some (Probing c n r) \<Rightarrow>
         status = Dead \<longrightarrow> (\<forall>s \<in> set (lb_stores l). st_identity s = cr_identity r \<longrightarrow> \<not> st_alive s)
     | _ \<Rightarrow> True)"
| "honest_step _ l = True"

fun honest_from :: "claims_op list \<Rightarrow> claims_library \<Rightarrow> bool" where
  "honest_from [] l = True"
| "honest_from (x # xs) l = (honest_step x l \<and> honest_from xs (claims_step x l))"

definition honest_probes :: "claims_op list \<Rightarrow> bool" where
  "honest_probes ops = honest_from ops new_library"

text \<open>A live store that holds a thread.\<close>

definition holds :: "claims_library \<Rightarrow> nat \<Rightarrow> nat \<Rightarrow> bool" where
  "holds l i t \<longleftrightarrow> i < length (lb_stores l) \<and> st_alive (lb_stores l ! i) \<and> held_of t (lb_stores l ! i) \<noteq> None"

end
