(* ===== verification/SessionClaimsInv.thy ===== *)
theory SessionClaimsInv
  imports SessionClaims
begin

text \<open>
  The invariant of the session claims: the table has one row per thread and nothing beside maintenance; a
  claim id is drawn once; what a live store holds is in the table and held by no other; references count
  the handles that are not released. Every step keeps it when probes are honest.
\<close>

section \<open>The invariant\<close>

definition table_ok :: "session_claim list \<Rightarrow> bool" where
  "table_ok rs \<longleftrightarrow> distinct (map cr_thread rs) \<and> (\<forall>r \<in> set rs. cr_thread r = MAINTENANCE \<longrightarrow> rs = [r])"

definition rows_ok :: "claims_library \<Rightarrow> bool" where
  "rows_ok l \<longleftrightarrow> table_ok (lb_rows l) \<and> (lb_lock l \<noteq> None \<longrightarrow> table_ok (lb_undo l)
     \<and> set (lb_rows l) \<subseteq> set (lb_undo l) \<and> row_of MAINTENANCE (lb_undo l) = None)"

text \<open>The claim a call wants to enter, and the claims it knows.\<close>

fun wanted_by :: "claims_call option \<Rightarrow> session_claim option" where
  "wanted_by (Some (Trying c n)) = c"
| "wanted_by (Some (Probing c n r)) = c"
| "wanted_by None = None"

fun conflict_in :: "claims_call option \<Rightarrow> session_claim option" where
  "conflict_in (Some (Probing c n r)) = Some r"
| "conflict_in _ = None"

definition claims_of :: "claims_store \<Rightarrow> session_claim set" where
  "claims_of s = hc_claim ` set (st_held s)"

definition known_store :: "claims_store \<Rightarrow> session_claim set" where
  "known_store s = claims_of s \<union> set_option (wanted_by (st_call s)) \<union> set_option (conflict_in (st_call s))"

definition known :: "claims_library \<Rightarrow> session_claim set" where
  "known l = set (lb_rows l) \<union> set (lb_undo l) \<union> ch_claim ` set (lb_handles l)
     \<union> (\<Union>i < length (lb_stores l). known_store (lb_stores l ! i))"

text \<open>A claim id is drawn once.\<close>

definition ids_ok :: "claims_library \<Rightarrow> bool" where
  "ids_ok l \<longleftrightarrow> (\<forall>c \<in> known l. cr_id c < lb_next l) \<and> (\<forall>c \<in> known l. \<forall>d \<in> known l. cr_id c = cr_id d \<longrightarrow> c = d)"

text \<open>What a live store holds is in the table, under its own identity, and held by no other.\<close>

definition held_ok :: "claims_library \<Rightarrow> bool" where
  "held_ok l \<longleftrightarrow> (\<forall>i < length (lb_stores l). distinct (map (cr_thread \<circ> hc_claim) (st_held (lb_stores l ! i)))
     \<and> (\<forall>c \<in> claims_of (lb_stores l ! i). cr_identity c = st_identity (lb_stores l ! i)
          \<and> (st_alive (lb_stores l ! i) \<longrightarrow> c \<in> set (lb_rows l))))"

definition disjoint_ok :: "claims_library \<Rightarrow> bool" where
  "disjoint_ok l \<longleftrightarrow> (\<forall>i < length (lb_stores l). \<forall>j < length (lb_stores l). i \<noteq> j \<longrightarrow>
     claims_of (lb_stores l ! i) \<inter> claims_of (lb_stores l ! j) = {}
     \<and> set_option (wanted_by (st_call (lb_stores l ! i))) \<inter> set_option (wanted_by (st_call (lb_stores l ! j))) = {})"

text \<open>A claim that is wanted is in no table, no handle and no store yet.\<close>

definition unentered :: "session_claim \<Rightarrow> claims_library \<Rightarrow> bool" where
  "unentered c l \<longleftrightarrow> c \<notin> set (lb_rows l) \<and> c \<notin> set (lb_undo l) \<and> c \<notin> ch_claim ` set (lb_handles l)
     \<and> (\<forall>j < length (lb_stores l). c \<notin> claims_of (lb_stores l ! j))"

definition pending_ok :: "claims_library \<Rightarrow> bool" where
  "pending_ok l \<longleftrightarrow> (\<forall>i < length (lb_stores l). \<forall>c. wanted_by (st_call (lb_stores l ! i)) = Some c \<longrightarrow>
     cr_identity c = st_identity (lb_stores l ! i) \<and> cr_thread c \<notin> cr_thread ` claims_of (lb_stores l ! i)
     \<and> unentered c l)"

text \<open>References are counted: they are the handles not released yet.\<close>

definition open_handles :: "nat \<Rightarrow> session_claim \<Rightarrow> claim_handle list \<Rightarrow> nat" where
  "open_handles i c hs = length (filter (\<lambda>x. ch_store x = i \<and> ch_claim x = c \<and> \<not> ch_released x) hs)"

definition handles_ok :: "claims_library \<Rightarrow> bool" where
  "handles_ok l \<longleftrightarrow> (\<forall>i < length (lb_stores l). st_alive (lb_stores l ! i) \<longrightarrow>
       (\<forall>h \<in> set (st_held (lb_stores l ! i)). hc_references h = open_handles i (hc_claim h) (lb_handles l))
     \<and> (\<forall>x \<in> set (lb_handles l). ch_store x = i \<and> \<not> ch_released x \<longrightarrow> ch_claim x \<in> claims_of (lb_stores l ! i)))
   \<and> (\<forall>x \<in> set (lb_handles l). ch_store x < length (lb_stores l))"

definition lib_ok :: "claims_library \<Rightarrow> bool" where
  "lib_ok l \<longleftrightarrow> rows_ok l \<and> ids_ok l \<and> held_ok l \<and> disjoint_ok l \<and> pending_ok l \<and> handles_ok l"

section \<open>Tables\<close>

lemma row_of_None: "row_of t rs = None \<longleftrightarrow> t \<notin> cr_thread ` set rs"
  by (auto simp: row_of_def find_None_iff)

lemma row_of_Some: "row_of t rs = Some r \<Longrightarrow> r \<in> set rs \<and> cr_thread r = t"
  by (auto simp: row_of_def find_Some_iff)

lemma row_of_unique: "distinct (map cr_thread rs) \<Longrightarrow> r \<in> set rs \<Longrightarrow> row_of (cr_thread r) rs = Some r"
  by (induction rs) (auto simp: row_of_def)

lemma table_ok_filter: "table_ok rs \<Longrightarrow> table_ok (filter P rs)"
  by (auto simp: table_ok_def distinct_map_filter)

lemma delete_row_subset: "set (delete_row c rs) \<subseteq> set rs"
  by (auto simp: delete_row_def)

lemma delete_row_table: "table_ok rs \<Longrightarrow> table_ok (delete_row c rs)"
  by (simp add: delete_row_def table_ok_filter)

lemma conflict_of_None:
  "conflict_of c rs = None \<Longrightarrow> MAINTENANCE \<notin> cr_thread ` set rs \<and> cr_thread c \<notin> cr_thread ` set rs
     \<and> (cr_thread c = MAINTENANCE \<longrightarrow> rs = [])"
  by (auto simp: conflict_of_def row_of_None first_row_def split: option.splits if_splits list.splits)

lemma conflict_of_Some: "conflict_of c rs = Some r \<Longrightarrow> r \<in> set rs"
  by (auto simp: conflict_of_def first_row_def dest: row_of_Some split: option.splits if_splits list.splits)

lemma init_conflict_Some: "init_conflict b rs = Some r \<Longrightarrow> r \<in> set rs"
  by (auto simp: init_conflict_def first_row_def dest: row_of_Some split: option.splits if_splits list.splits)

lemma table_ok_insert: "table_ok rs \<Longrightarrow> conflict_of c rs = None \<Longrightarrow> table_ok (rs @ [c])"
  using conflict_of_None [of c rs] by (auto simp: table_ok_def)

lemma held_of_Some: "held_of t s = Some h \<Longrightarrow> h \<in> set (st_held s) \<and> cr_thread (hc_claim h) = t"
  by (auto simp: held_of_def find_Some_iff)

lemma held_of_None: "held_of t s = None \<longleftrightarrow> t \<notin> cr_thread ` claims_of s"
  by (auto simp: held_of_def find_None_iff claims_of_def)

lemma claims_of_frame [simp]:
  "claims_of (s\<lparr>st_call := k\<rparr>) = claims_of s" "claims_of (s\<lparr>st_closed := b\<rparr>) = claims_of s"
  "claims_of (s\<lparr>st_alive := b\<rparr>) = claims_of s"
  by (simp_all add: claims_of_def)

section \<open>Steps of one store\<close>

lemma set_store_fields [simp]:
  "lb_rows (set_store i f l) = lb_rows l" "lb_lock (set_store i f l) = lb_lock l"
  "lb_undo (set_store i f l) = lb_undo l" "lb_handles (set_store i f l) = lb_handles l"
  "lb_next (set_store i f l) = lb_next l" "length (lb_stores (set_store i f l)) = length (lb_stores l)"
  by (simp_all add: set_store_def)

lemma set_store_nth [simp]:
  "j < length (lb_stores l) \<Longrightarrow> lb_stores (set_store i f l) ! j =
     (if j = i then f (lb_stores l ! i) else lb_stores l ! j)"
  by (simp add: set_store_def nth_list_update)

lemma known_storeI: "j < length (lb_stores l) \<Longrightarrow> known_store (lb_stores l ! j) \<subseteq> known l"
  by (auto simp: known_def)

text \<open>
  A step that changes one store, and perhaps enters a claim it wanted or wants a new one. What the store
  knows afterwards it knew, or draws, or read in the table.
\<close>

definition moves :: "nat \<Rightarrow> claims_library \<Rightarrow> claims_library \<Rightarrow> bool" where
  "moves i l m \<longleftrightarrow> i < length (lb_stores l) \<and> length (lb_stores m) = length (lb_stores l)
   \<and> (\<forall>j < length (lb_stores l). j \<noteq> i \<longrightarrow> lb_stores m ! j = lb_stores l ! j)
   \<and> st_identity (lb_stores m ! i) = st_identity (lb_stores l ! i)
   \<and> st_alive (lb_stores m ! i) = st_alive (lb_stores l ! i)"

lemma movesD:
  assumes "moves i l m"
  shows "i < length (lb_stores l)" "length (lb_stores m) = length (lb_stores l)"
    "\<And>j. j < length (lb_stores l) \<Longrightarrow> j \<noteq> i \<Longrightarrow> lb_stores m ! j = lb_stores l ! j"
    "st_identity (lb_stores m ! i) = st_identity (lb_stores l ! i)"
    "st_alive (lb_stores m ! i) = st_alive (lb_stores l ! i)"
  using assms by (auto simp: moves_def)

lemma moves_ids:
  assumes "ids_ok l" "moves i l m" "lb_next l \<le> lb_next m"
    "\<And>c. c \<in> set (lb_rows m) \<union> set (lb_undo m) \<union> ch_claim ` set (lb_handles m) \<union> known_store (lb_stores m ! i) \<Longrightarrow>
       c \<in> known l \<or> (cr_id c = lb_next l \<and> c = n \<and> lb_next m = Suc (lb_next l))"
  shows "ids_ok m"
proof -
  have k: "c \<in> known l \<or> (cr_id c = lb_next l \<and> c = n \<and> lb_next m = Suc (lb_next l))" if "c \<in> known m" for c
  proof (cases "\<exists>j < length (lb_stores l). j \<noteq> i \<and> c \<in> known_store (lb_stores l ! j)")
    case True
    then show ?thesis using known_storeI by blast
  next
    case False
    then have "c \<in> set (lb_rows m) \<union> set (lb_undo m) \<union> ch_claim ` set (lb_handles m) \<union> known_store (lb_stores m ! i)"
      using that movesD(2,3) [OF assms(2)] by (auto simp: known_def) metis
    then show ?thesis by (rule assms(4))
  qed
  show ?thesis unfolding ids_ok_def
  proof (intro conjI ballI impI)
    fix c assume "c \<in> known m"
    then show "cr_id c < lb_next m" using k [of c] assms(1,3) by (fastforce simp: ids_ok_def)
  next
    fix c d assume "c \<in> known m" "d \<in> known m" "cr_id c = cr_id d"
    then show "c = d" using k [of c] k [of d] assms(1) by (fastforce simp: ids_ok_def)
  qed
qed

lemma moves_held:
  assumes "held_ok l" "moves i l m"
    "distinct (map (cr_thread \<circ> hc_claim) (st_held (lb_stores m ! i)))"
    "\<And>c. c \<in> claims_of (lb_stores m ! i) \<Longrightarrow> cr_identity c = st_identity (lb_stores l ! i)
       \<and> (st_alive (lb_stores l ! i) \<longrightarrow> c \<in> set (lb_rows m))"
    "\<And>j c. j < length (lb_stores l) \<Longrightarrow> j \<noteq> i \<Longrightarrow> st_alive (lb_stores l ! j) \<Longrightarrow> c \<in> claims_of (lb_stores l ! j) \<Longrightarrow>
       c \<in> set (lb_rows l) \<Longrightarrow> c \<in> set (lb_rows m)"
  shows "held_ok m"
  unfolding held_ok_def
proof (intro allI impI)
  fix j assume "j < length (lb_stores m)"
  then have j: "j < length (lb_stores l)" using movesD(2) [OF assms(2)] by simp
  show "distinct (map (cr_thread \<circ> hc_claim) (st_held (lb_stores m ! j)))
     \<and> (\<forall>c \<in> claims_of (lb_stores m ! j). cr_identity c = st_identity (lb_stores m ! j)
          \<and> (st_alive (lb_stores m ! j) \<longrightarrow> c \<in> set (lb_rows m)))"
  proof (cases "j = i")
    case True
    then show ?thesis using assms(3,4) movesD(4,5) [OF assms(2)] by simp
  next
    case False
    then show ?thesis using assms(1) assms(5) [OF j False] movesD(3) [OF assms(2) j False] j
      by (auto simp: held_ok_def)
  qed
qed

lemma moves_disjoint:
  assumes "disjoint_ok l" "moves i l m"
    "\<And>j. j < length (lb_stores l) \<Longrightarrow> j \<noteq> i \<Longrightarrow> claims_of (lb_stores m ! i) \<inter> claims_of (lb_stores l ! j) = {}
       \<and> set_option (wanted_by (st_call (lb_stores m ! i))) \<inter> set_option (wanted_by (st_call (lb_stores l ! j))) = {}"
  shows "disjoint_ok m"
  unfolding disjoint_ok_def
proof (intro allI impI)
  fix j k assume a: "j < length (lb_stores m)" "k < length (lb_stores m)" "j \<noteq> k"
  then have jk: "j < length (lb_stores l)" "k < length (lb_stores l)" using movesD(2) [OF assms(2)] by auto
  note e = movesD(3) [OF assms(2)]
  show "claims_of (lb_stores m ! j) \<inter> claims_of (lb_stores m ! k) = {}
     \<and> set_option (wanted_by (st_call (lb_stores m ! j))) \<inter> set_option (wanted_by (st_call (lb_stores m ! k))) = {}"
  proof (cases "j = i")
    case True
    then show ?thesis using assms(3) [OF jk(2)] e [OF jk(2)] a(3) by auto
  next
    case j: False
    show ?thesis
    proof (cases "k = i")
      case True
      then show ?thesis using assms(3) [OF jk(1) j] e [OF jk(1) j] by auto
    next
      case False
      then show ?thesis using assms(1) jk a(3) e [OF jk(1) j] e [OF jk(2) False] by (auto simp: disjoint_ok_def)
    qed
  qed
qed

lemma moves_pending:
  assumes "pending_ok l" "moves i l m"
    "\<And>c. wanted_by (st_call (lb_stores m ! i)) = Some c \<Longrightarrow> cr_identity c = st_identity (lb_stores l ! i)
       \<and> cr_thread c \<notin> cr_thread ` claims_of (lb_stores m ! i) \<and> unentered c m"
    "\<And>j c. j < length (lb_stores l) \<Longrightarrow> j \<noteq> i \<Longrightarrow> wanted_by (st_call (lb_stores l ! j)) = Some c \<Longrightarrow>
       unentered c l \<Longrightarrow> unentered c m"
  shows "pending_ok m"
  unfolding pending_ok_def
proof (intro allI impI)
  fix j c assume a: "j < length (lb_stores m)" "wanted_by (st_call (lb_stores m ! j)) = Some c"
  then have j: "j < length (lb_stores l)" using movesD(2) [OF assms(2)] by simp
  show "cr_identity c = st_identity (lb_stores m ! j) \<and> cr_thread c \<notin> cr_thread ` claims_of (lb_stores m ! j)
     \<and> unentered c m"
  proof (cases "j = i")
    case True
    then show ?thesis using assms(3) [of c] a(2) movesD(4) [OF assms(2)] by simp
  next
    case False
    then show ?thesis
      using assms(1) assms(4) [OF j False] movesD(3) [OF assms(2) j False] a(2) j by (auto simp: pending_ok_def)
  qed
qed

lemma moves_handles:
  assumes "handles_ok l" "moves i l m"
    "\<And>x. x \<in> set (lb_handles m) \<Longrightarrow> ch_store x < length (lb_stores l)"
    "\<And>j c. j \<noteq> i \<Longrightarrow> open_handles j c (lb_handles m) = open_handles j c (lb_handles l)"
    "\<And>h. st_alive (lb_stores l ! i) \<Longrightarrow> h \<in> set (st_held (lb_stores m ! i)) \<Longrightarrow>
       hc_references h = open_handles i (hc_claim h) (lb_handles m)"
    "\<And>x. st_alive (lb_stores l ! i) \<Longrightarrow> x \<in> set (lb_handles m) \<Longrightarrow> ch_store x = i \<Longrightarrow> \<not> ch_released x \<Longrightarrow>
       ch_claim x \<in> claims_of (lb_stores m ! i)"
  shows "handles_ok m"
proof -
  have open_iff: "open_handles j c hs \<noteq> 0 \<longleftrightarrow> (\<exists>x \<in> set hs. ch_store x = j \<and> ch_claim x = c \<and> \<not> ch_released x)" for j c hs
    by (auto simp: open_handles_def filter_empty_conv)
  have "ch_claim x \<in> claims_of (lb_stores l ! j)"
    if x: "x \<in> set (lb_handles m)" "ch_store x = j" "\<not> ch_released x" "j \<noteq> i" "j < length (lb_stores l)"
      "st_alive (lb_stores l ! j)" for x j
  proof -
    have "open_handles j (ch_claim x) (lb_handles m) \<noteq> 0" using open_iff x(1-3) by blast
    then obtain y where "y \<in> set (lb_handles l)" "ch_store y = j" "ch_claim y = ch_claim x" "\<not> ch_released y"
      using assms(4) [OF x(4)] open_iff by metis
    then show ?thesis using assms(1) x(5,6) unfolding handles_ok_def by metis
  qed
  then show ?thesis using assms movesD [OF assms(2)]
    unfolding handles_ok_def by (smt (verit, best))
qed

lemma lib_okD:
  assumes "lib_ok l"
  shows "rows_ok l" "ids_ok l" "held_ok l" "disjoint_ok l" "pending_ok l" "handles_ok l"
  using assms by (auto simp: lib_ok_def)

lemma disjoint_okD:
  assumes "disjoint_ok l" "i < length (lb_stores l)" "j < length (lb_stores l)" "i \<noteq> j"
  shows "claims_of (lb_stores l ! i) \<inter> claims_of (lb_stores l ! j) = {}"
    "set_option (wanted_by (st_call (lb_stores l ! i))) \<inter> set_option (wanted_by (st_call (lb_stores l ! j))) = {}"
  using assms by (auto simp: disjoint_ok_def)

lemma held_okD:
  assumes "held_ok l" "i < length (lb_stores l)"
  shows "distinct (map (cr_thread \<circ> hc_claim) (st_held (lb_stores l ! i)))"
    "\<And>c. c \<in> claims_of (lb_stores l ! i) \<Longrightarrow> cr_identity c = st_identity (lb_stores l ! i)"
    "\<And>c. c \<in> claims_of (lb_stores l ! i) \<Longrightarrow> st_alive (lb_stores l ! i) \<Longrightarrow> c \<in> set (lb_rows l)"
  using assms by (auto simp: held_ok_def)

lemma pending_okD:
  assumes "pending_ok l" "i < length (lb_stores l)" "wanted_by (st_call (lb_stores l ! i)) = Some c"
  shows "cr_identity c = st_identity (lb_stores l ! i)" "cr_thread c \<notin> cr_thread ` claims_of (lb_stores l ! i)"
    "unentered c l"
  using assms by (auto simp: pending_ok_def)

lemma handles_okD:
  assumes "handles_ok l" "i < length (lb_stores l)" "st_alive (lb_stores l ! i)"
  shows "\<And>h. h \<in> set (st_held (lb_stores l ! i)) \<Longrightarrow>
      hc_references h = open_handles i (hc_claim h) (lb_handles l)"
    "\<And>x. x \<in> set (lb_handles l) \<Longrightarrow> ch_store x = i \<Longrightarrow> \<not> ch_released x \<Longrightarrow> ch_claim x \<in> claims_of (lb_stores l ! i)"
  using assms by (auto simp: handles_ok_def)

lemma handles_store: "handles_ok l \<Longrightarrow> x \<in> set (lb_handles l) \<Longrightarrow> ch_store x < length (lb_stores l)"
  by (auto simp: handles_ok_def)

section \<open>Calls that begin and end\<close>

lemma set_call_moves: "i < length (lb_stores l) \<Longrightarrow> moves i l (set_call i k l)"
  by (auto simp: moves_def set_call_def)

lemma set_call_ok:
  assumes l: "lib_ok l" and i: "i < length (lb_stores l)"
    and k: "wanted_by k = None \<or> wanted_by k = wanted_by (st_call (lb_stores l ! i))"
    and c: "set_option (conflict_in k) \<subseteq> known l"
  shows "lib_ok (set_call i k l)" (is "lib_ok ?m")
proof -
  note ok = lib_okD [OF l] and mv = set_call_moves [OF i]
  have p: "set_option (wanted_by k) \<subseteq> set_option (wanted_by (st_call (lb_stores l ! i)))" using k by auto
  have nth: "lb_stores ?m ! i = (lb_stores l ! i)\<lparr>st_call := k\<rparr>" using i by (simp add: set_call_def)
  have f: "lb_rows ?m = lb_rows l" "lb_undo ?m = lb_undo l" "lb_handles ?m = lb_handles l"
    "lb_lock ?m = lb_lock l" "lb_next ?m = lb_next l" by (simp_all add: set_call_def)
  have u: "unentered a ?m" if "unentered a l" for a
    using that i by (auto simp: unentered_def set_call_def)
  have "ids_ok ?m"
  proof (rule moves_ids [OF ok(2) mv])
    fix a assume "a \<in> set (lb_rows ?m) \<union> set (lb_undo ?m) \<union> ch_claim ` set (lb_handles ?m) \<union> known_store (lb_stores ?m ! i)"
    then have "a \<in> known l" using p c known_storeI [OF i] unfolding nth f by (auto simp: known_def known_store_def)
    then show "a \<in> known l \<or> (cr_id a = lb_next l \<and> a = undefined \<and> lb_next ?m = Suc (lb_next l))" ..
  qed (simp add: f)
  moreover have "rows_ok ?m" using ok(1) by (simp add: rows_ok_def f)
  moreover have "held_ok ?m"
    by (rule moves_held [OF ok(3) mv]) (use held_okD [OF ok(3) i] in \<open>auto simp: nth f\<close>)
  moreover have "disjoint_ok ?m"
    by (rule moves_disjoint [OF ok(4) mv]) (use disjoint_okD [OF ok(4) i] p in \<open>fastforce simp: nth\<close>)
  moreover have "pending_ok ?m"
    by (rule moves_pending [OF ok(5) mv]) (use pending_okD [OF ok(5) i] k u in \<open>auto simp: nth\<close>)
  moreover have "handles_ok ?m"
    by (rule moves_handles [OF ok(6) mv])
      (use handles_okD [OF ok(6) i] handles_store [OF ok(6)] in \<open>auto simp: nth f\<close>)
  ultimately show ?thesis by (simp add: lib_ok_def)
qed

lemma errors_ok [simp]: "lib_ok (l\<lparr>lb_errors := e\<rparr>) \<longleftrightarrow> lib_ok l"
  by (simp add: lib_ok_def rows_ok_def ids_ok_def held_ok_def disjoint_ok_def pending_ok_def handles_ok_def
      known_def unentered_def)

lemma throws_ok: "lib_ok l \<Longrightarrow> i < length (lb_stores l) \<Longrightarrow> lib_ok (throws i e l)"
  by (auto simp: throws_def intro!: set_call_ok)

text \<open>A call that wants a new claim.\<close>

lemma fresh_call_ok:
  assumes l: "lib_ok l" and i: "i < length (lb_stores l)" and t: "held_of t (lb_stores l ! i) = None"
  defines "c \<equiv> \<lparr>cr_thread = t, cr_id = lb_next l, cr_identity = st_identity (lb_stores l ! i)\<rparr>"
  shows "lib_ok (set_call i (Some (Trying (Some c) 0)) (l\<lparr>lb_next := Suc (lb_next l)\<rparr>))" (is "lib_ok ?m")
proof -
  note ok = lib_okD [OF l]
  have mv: "moves i l ?m" using i by (auto simp: moves_def set_call_def)
  have nth: "lb_stores ?m ! i = (lb_stores l ! i)\<lparr>st_call := Some (Trying (Some c) 0)\<rparr>"
    using i by (simp add: set_call_def)
  have f: "lb_rows ?m = lb_rows l" "lb_undo ?m = lb_undo l" "lb_handles ?m = lb_handles l"
    "lb_lock ?m = lb_lock l" "lb_next ?m = Suc (lb_next l)" by (simp_all add: set_call_def)
  have cf: "cr_thread c = t" "cr_identity c = st_identity (lb_stores l ! i)" by (simp_all add: c_def)
  have new: "c \<notin> known l" using ok(2) by (auto simp: ids_ok_def c_def)
  then have nu: "unentered c l" using known_storeI by (fastforce simp: unentered_def known_def known_store_def)
  have u: "unentered a ?m" if "unentered a l" for a
    using that i by (auto simp: unentered_def set_call_def)
  have "ids_ok ?m"
  proof (rule moves_ids [OF ok(2) mv])
    fix a assume "a \<in> set (lb_rows ?m) \<union> set (lb_undo ?m) \<union> ch_claim ` set (lb_handles ?m) \<union> known_store (lb_stores ?m ! i)"
    then show "a \<in> known l \<or> (cr_id a = lb_next l \<and> a = c \<and> lb_next ?m = Suc (lb_next l))"
      using known_storeI [OF i] unfolding nth f by (auto simp: known_def known_store_def c_def)
  qed (simp add: f)
  moreover have "rows_ok ?m" using ok(1) by (simp add: rows_ok_def f)
  moreover have "held_ok ?m"
    by (rule moves_held [OF ok(3) mv]) (use held_okD [OF ok(3) i] in \<open>auto simp: nth f\<close>)
  moreover have "disjoint_ok ?m"
  proof (rule moves_disjoint [OF ok(4) mv])
    fix j assume j: "j < length (lb_stores l)" "j \<noteq> i"
    have "c \<notin> set_option (wanted_by (st_call (lb_stores l ! j)))"
      using new known_storeI [OF j(1)] by (auto simp: known_store_def)
    then show "claims_of (lb_stores ?m ! i) \<inter> claims_of (lb_stores l ! j) = {}
        \<and> set_option (wanted_by (st_call (lb_stores ?m ! i))) \<inter> set_option (wanted_by (st_call (lb_stores l ! j))) = {}"
      using disjoint_okD(1) [OF ok(4) i j(1)] j(2) by (simp add: nth)
  qed
  moreover have "pending_ok ?m"
    by (rule moves_pending [OF ok(5) mv]) (use t nu u cf in \<open>auto simp: nth held_of_None\<close>)
  moreover have "handles_ok ?m"
    by (rule moves_handles [OF ok(6) mv])
      (use handles_okD [OF ok(6) i] handles_store [OF ok(6)] in \<open>auto simp: nth f\<close>)
  ultimately show ?thesis by (simp add: lib_ok_def)
qed

section \<open>Handing out a claim\<close>

lemma open_handles_append [simp]:
  "open_handles i c (hs @ [\<lparr>ch_store = j, ch_claim = d, ch_released = False\<rparr>]) =
     open_handles i c hs + (if i = j \<and> c = d then 1 else 0)"
  by (auto simp: open_handles_def)

lemma change_references_frame [simp]:
  "claims_of (change_references f t s) = claims_of s" "st_call (change_references f t s) = st_call s"
  "st_identity (change_references f t s) = st_identity s" "st_alive (change_references f t s) = st_alive s"
  "map (cr_thread \<circ> hc_claim) (st_held (change_references f t s)) = map (cr_thread \<circ> hc_claim) (st_held s)"
  "known_store (change_references f t s) = known_store s"
proof -
  have "map hc_claim (st_held (change_references f t s)) = map hc_claim (st_held s)"
    by (auto simp: change_references_def)
  then have "hc_claim ` set (st_held (change_references f t s)) = hc_claim ` set (st_held s)"
    by (metis list.set_map)
  then show "claims_of (change_references f t s) = claims_of s" by (simp add: claims_of_def)
  then show "known_store (change_references f t s) = known_store s"
    by (simp add: known_store_def) (simp add: change_references_def)
qed (simp_all add: change_references_def comp_def)

lemma change_references_set:
  assumes "h \<in> set (st_held (change_references f t s))"
  obtains h' where "h' \<in> set (st_held s)" "hc_claim h' = hc_claim h"
    "hc_references h = (if cr_thread (hc_claim h) = t then f (hc_references h') else hc_references h')"
  using assms unfolding change_references_def by auto

lemma handed_out:
  "x \<in> set (hs @ [\<lparr>ch_store = i, ch_claim = c, ch_released = False\<rparr>]) \<Longrightarrow>
   x \<in> set hs \<or> (ch_store x = i \<and> ch_claim x = c)"
  by auto

text \<open>In one store a thread determines the claim.\<close>

lemma held_unique:
  assumes "distinct (map (cr_thread \<circ> hc_claim) (st_held s))" "c \<in> claims_of s" "d \<in> claims_of s"
    "cr_thread c = cr_thread d"
  shows "c = d"
proof -
  obtain x y where "x \<in> set (st_held s)" "hc_claim x = c" "y \<in> set (st_held s)" "hc_claim y = d"
    using assms(2,3) by (auto simp: claims_of_def)
  then show ?thesis using assms(1,4) unfolding distinct_map by (metis comp_apply inj_onD)
qed

lemma again_ok:
  assumes l: "lib_ok l" and i: "i < length (lb_stores l)" and h: "held_of t (lb_stores l ! i) = Some h"
  defines "m \<equiv> add_handle i (hc_claim h) (set_store i (change_references Suc t) l)"
  shows "lib_ok m"
proof -
  note ok = lib_okD [OF l]
  let ?s = "lb_stores l ! i" and ?c = "hc_claim h"
  have mv: "moves i l m" using i by (auto simp: moves_def add_handle_def m_def)
  have nth: "lb_stores m ! i = change_references Suc t ?s" using i by (simp add: add_handle_def m_def)
  have f: "lb_rows m = lb_rows l" "lb_undo m = lb_undo l" "lb_lock m = lb_lock l" "lb_next m = lb_next l"
    "lb_handles m = lb_handles l @ [\<lparr>ch_store = i, ch_claim = ?c, ch_released = False\<rparr>]"
    by (simp_all add: add_handle_def m_def)
  have c: "?c \<in> claims_of ?s" "cr_thread ?c = t" using held_of_Some [OF h] by (auto simp: claims_of_def)
  have u: "unentered a m" if "unentered a l" for a
    using that i c(1) by (auto simp: unentered_def add_handle_def m_def)
  have "ids_ok m"
  proof (rule moves_ids [OF ok(2) mv])
    fix a assume "a \<in> set (lb_rows m) \<union> set (lb_undo m) \<union> ch_claim ` set (lb_handles m) \<union> known_store (lb_stores m ! i)"
    then have "a \<in> known l"
      using known_storeI [OF i] c(1) unfolding nth f by (auto simp: known_def known_store_def)
    then show "a \<in> known l \<or> (cr_id a = lb_next l \<and> a = undefined \<and> lb_next m = Suc (lb_next l))" ..
  qed (simp add: f)
  moreover have "rows_ok m" using ok(1) by (simp add: rows_ok_def f)
  moreover have "held_ok m"
    by (rule moves_held [OF ok(3) mv]) (use held_okD [OF ok(3) i] in \<open>auto simp: nth f\<close>)
  moreover have "disjoint_ok m"
    by (rule moves_disjoint [OF ok(4) mv]) (use disjoint_okD [OF ok(4) i] in \<open>auto simp: nth\<close>)
  moreover have "pending_ok m"
    by (rule moves_pending [OF ok(5) mv]) (use pending_okD [OF ok(5) i] u in \<open>auto simp: nth\<close>)
  moreover have "handles_ok m"
  proof (rule moves_handles [OF ok(6) mv])
    fix x assume a: "st_alive ?s" "x \<in> set (st_held (lb_stores m ! i))"
    then obtain y where y: "y \<in> set (st_held ?s)" "hc_claim y = hc_claim x"
      "hc_references x = (if cr_thread (hc_claim x) = t then Suc (hc_references y) else hc_references y)"
      using change_references_set [OF a(2) [unfolded nth]] by metis
    have "hc_claim x \<in> claims_of ?s" using y(1) unfolding claims_of_def y(2) [symmetric] by blast
    then have e: "cr_thread (hc_claim x) = t \<longleftrightarrow> hc_claim x = ?c"
      using held_unique [OF held_okD(1) [OF ok(3) i] _ c(1)] c(2) by metis
    then show "hc_references x = open_handles i (hc_claim x) (lb_handles m)"
      unfolding f y(3) e open_handles_append using handles_okD(1) [OF ok(6) i a(1) y(1)] y(2) by simp
  next
    fix x assume "x \<in> set (lb_handles m)"
    then show "ch_store x < length (lb_stores l)"
      using handed_out [of x] handles_store [OF ok(6)] i unfolding f by blast
  next
    fix x assume "st_alive ?s" "x \<in> set (lb_handles m)" "ch_store x = i" "\<not> ch_released x"
    then show "ch_claim x \<in> claims_of (lb_stores m ! i)"
      using handed_out [of x] handles_okD(2) [OF ok(6) i] c(1) unfolding f nth change_references_frame by metis
  qed (simp add: f)
  ultimately show ?thesis by (simp add: lib_ok_def)
qed

lemma enter_ok:
  assumes l: "lib_ok l" and i: "i < length (lb_stores l)" and p: "st_call (lb_stores l ! i) = Some (Trying (Some c) n)"
    and free: "lb_lock l = None" "conflict_of c (lb_rows l) = None"
  defines "m \<equiv> add_handle i c (set_store i (\<lambda>s. s\<lparr>st_call := None,
     st_held := st_held s @ [\<lparr>hc_claim = c, hc_references = 1\<rparr>]\<rparr>) (l\<lparr>lb_rows := lb_rows l @ [c]\<rparr>))"
  shows "lib_ok m"
proof -
  note ok = lib_okD [OF l]
  let ?s = "lb_stores l ! i"
  have mv: "moves i l m" using i by (auto simp: moves_def add_handle_def m_def)
  have nth: "lb_stores m ! i = ?s\<lparr>st_call := None, st_held := st_held ?s @ [\<lparr>hc_claim = c, hc_references = 1\<rparr>]\<rparr>"
    using i by (simp add: add_handle_def m_def)
  have f: "lb_rows m = lb_rows l @ [c]" "lb_undo m = lb_undo l" "lb_lock m = lb_lock l" "lb_next m = lb_next l"
    "lb_handles m = lb_handles l @ [\<lparr>ch_store = i, ch_claim = c, ch_released = False\<rparr>]"
    by (simp_all add: add_handle_def m_def)
  have cl: "claims_of (lb_stores m ! i) = insert c (claims_of ?s)" by (simp add: nth claims_of_def)
  have c: "cr_identity c = st_identity ?s" "cr_thread c \<notin> cr_thread ` claims_of ?s" "unentered c l"
    using pending_okD [OF ok(5) i, of c] p by auto
  have ck: "c \<in> known l" using known_storeI [OF i] p by (auto simp: known_store_def)
  have other: "a \<noteq> c" if "j < length (lb_stores l)" "j \<noteq> i" "wanted_by (st_call (lb_stores l ! j)) = Some a" for j a
    using disjoint_okD(2) [OF ok(4) i that(1)] that(2,3) p by auto
  have "ids_ok m"
  proof (rule moves_ids [OF ok(2) mv])
    fix a assume "a \<in> set (lb_rows m) \<union> set (lb_undo m) \<union> ch_claim ` set (lb_handles m) \<union> known_store (lb_stores m ! i)"
    then have "a \<in> known l"
      using known_storeI [OF i] ck cl unfolding f by (auto simp: known_def known_store_def) (auto simp: nth)
    then show "a \<in> known l \<or> (cr_id a = lb_next l \<and> a = undefined \<and> lb_next m = Suc (lb_next l))" ..
  qed (simp add: f)
  moreover have "rows_ok m" using ok(1) table_ok_insert free by (simp add: rows_ok_def f)
  moreover have "held_ok m"
  proof (rule moves_held [OF ok(3) mv])
    show "distinct (map (cr_thread \<circ> hc_claim) (st_held (lb_stores m ! i)))"
      using held_okD(1) [OF ok(3) i] c(2) by (auto simp: nth claims_of_def)
  qed (use held_okD(2,3) [OF ok(3) i] c cl in \<open>auto simp: f\<close>)
  moreover have "disjoint_ok m"
  proof (rule moves_disjoint [OF ok(4) mv])
    fix j assume "j < length (lb_stores l)" "j \<noteq> i"
    then show "claims_of (lb_stores m ! i) \<inter> claims_of (lb_stores l ! j) = {}
        \<and> set_option (wanted_by (st_call (lb_stores m ! i))) \<inter> set_option (wanted_by (st_call (lb_stores l ! j))) = {}"
      using disjoint_okD(1) [OF ok(4) i, of j] c(3) unfolding cl by (auto simp: unentered_def nth)
  qed
  moreover have "pending_ok m"
  proof (rule moves_pending [OF ok(5) mv])
    fix j a assume a: "j < length (lb_stores l)" "j \<noteq> i" "wanted_by (st_call (lb_stores l ! j)) = Some a" "unentered a l"
    have "\<forall>k < length (lb_stores l). a \<notin> claims_of (lb_stores m ! k)"
      using a(4) other [OF a(1-3)] cl movesD(3) [OF mv] unfolding unentered_def by (metis insertE)
    then show "unentered a m" using a(4) other [OF a(1-3)] movesD(2) [OF mv] by (simp add: unentered_def f)
  qed (simp add: nth)
  moreover have "handles_ok m"
  proof (rule moves_handles [OF ok(6) mv])
    fix x assume a: "st_alive ?s" "x \<in> set (st_held (lb_stores m ! i))"
    have none: "open_handles i c (lb_handles l) = 0"
      using c(3) by (auto simp: open_handles_def unentered_def filter_empty_conv)
    have "hc_claim y \<noteq> c" if "y \<in> set (st_held ?s)" for y using that c(2) by (force simp: claims_of_def)
    then show "hc_references x = open_handles i (hc_claim x) (lb_handles m)"
      using a(2) none handles_okD(1) [OF ok(6) i a(1)] by (auto simp: nth f)
  next
    fix x assume "x \<in> set (lb_handles m)"
    then show "ch_store x < length (lb_stores l)"
      using handed_out [of x] handles_store [OF ok(6)] i unfolding f by blast
  next
    fix x assume "st_alive ?s" "x \<in> set (lb_handles m)" "ch_store x = i" "\<not> ch_released x"
    then show "ch_claim x \<in> claims_of (lb_stores m ! i)"
      using handed_out [of x] handles_okD(2) [OF ok(6) i] unfolding f cl by blast
  qed (simp add: f)
  ultimately show ?thesis by (simp add: lib_ok_def)
qed

lemma idle_store: "idle l i \<Longrightarrow> i < length (lb_stores l)"
  by (simp add: idle_def)

lemma acquireKey_ok:
  assumes "lib_ok l" "i < length (lb_stores l)"
  shows "lib_ok (acquireKey a i t l)"
  using assms throws_ok again_ok fresh_call_ok by (auto simp: acquireKey_def Let_def split: option.splits)

lemma call_of_Some:
  "call_of l i = Some k \<Longrightarrow> i < length (lb_stores l) \<and> st_alive (lb_stores l ! i) \<and> st_call (lb_stores l ! i) = Some k"
  by (auto simp: call_of_def split: if_splits)

section \<open>Locks, deaths and new stores\<close>

text \<open>A library whose stores want and know less, or have died.\<close>

lemma weaken_ok:
  assumes l: "lib_ok l"
    and f: "lb_rows m = lb_rows l" "lb_undo m = lb_undo l" "lb_lock m = lb_lock l" "lb_handles m = lb_handles l"
      "lb_next m = lb_next l" "length (lb_stores m) = length (lb_stores l)"
    and s: "\<And>j. j < length (lb_stores l) \<Longrightarrow> st_identity (lb_stores m ! j) = st_identity (lb_stores l ! j)
      \<and> st_held (lb_stores m ! j) = st_held (lb_stores l ! j)
      \<and> (st_alive (lb_stores m ! j) \<longrightarrow> st_alive (lb_stores l ! j))
      \<and> (st_call (lb_stores m ! j) = None \<or> st_call (lb_stores m ! j) = st_call (lb_stores l ! j))"
  shows "lib_ok m"
proof -
  note ok = lib_okD [OF l]
  have c: "claims_of (lb_stores m ! j) = claims_of (lb_stores l ! j)" if "j < length (lb_stores l)" for j
    using s [OF that] by (simp add: claims_of_def)
  have p: "set_option (wanted_by (st_call (lb_stores m ! j))) \<subseteq> set_option (wanted_by (st_call (lb_stores l ! j)))"
    if "j < length (lb_stores l)" for j
    using s [OF that] by auto
  have "known_store (lb_stores m ! j) \<subseteq> known_store (lb_stores l ! j)" if "j < length (lb_stores l)" for j
    using s [OF that] c [OF that] by (auto simp: known_store_def)
  then have "known m \<subseteq> known l" using f by (fastforce simp: known_def)
  then have "ids_ok m" using ok(2) f unfolding ids_ok_def by (metis subsetD)
  moreover have "rows_ok m" using ok(1) f by (simp add: rows_ok_def)
  moreover have "held_ok m" using ok(3) f s c unfolding held_ok_def by (metis (no_types, lifting))
  moreover have "disjoint_ok m" using ok(4) f p c unfolding disjoint_ok_def by (smt (verit, best) disjoint_iff subsetD)
  moreover have u: "unentered a m \<longleftrightarrow> unentered a l" for a using f c by (simp add: unentered_def)
  have "pending_ok m" using ok(5) f s c u unfolding pending_ok_def by (metis (no_types, lifting) option.discI wanted_by.simps(3))
  moreover have "handles_ok m" using ok(6) f s c unfolding handles_ok_def by (metis (no_types, lifting))
  ultimately show ?thesis by (simp add: lib_ok_def)
qed

lemma table_change_ok:
  assumes l: "lib_ok l" and f: "set (lb_rows m) \<union> set (lb_undo m) \<subseteq> set (lb_rows l) \<union> set (lb_undo l)"
      "lb_stores m = lb_stores l" "lb_handles m = lb_handles l" "lb_next m = lb_next l"
    and r: "rows_ok m"
    and h: "\<And>i c. i < length (lb_stores l) \<Longrightarrow> st_alive (lb_stores l ! i) \<Longrightarrow> c \<in> claims_of (lb_stores l ! i) \<Longrightarrow>
      c \<in> set (lb_rows l) \<Longrightarrow> c \<in> set (lb_rows m)"
  shows "lib_ok m"
proof -
  note ok = lib_okD [OF l]
  have "known m \<subseteq> known l" using f by (auto simp: known_def)
  then have "ids_ok m" using ok(2) f unfolding ids_ok_def by (metis subsetD)
  moreover have "held_ok m" using ok(3) f h unfolding held_ok_def by metis
  moreover have "disjoint_ok m" using ok(4) f by (simp add: disjoint_ok_def)
  moreover have "unentered a l \<Longrightarrow> unentered a m" for a using f by (auto simp: unentered_def)
  then have "pending_ok m" using ok(5) f unfolding pending_ok_def by metis
  moreover have "handles_ok m" using ok(6) f by (simp add: handles_ok_def)
  ultimately show ?thesis using r by (simp add: lib_ok_def)
qed

lemma rollback_ok: "lib_ok l \<Longrightarrow> lb_lock l \<noteq> None \<Longrightarrow> lib_ok (rollback l)"
  by (rule table_change_ok [of l]) (auto simp: rollback_def lib_ok_def rows_ok_def)

lemma unlock_ok: "lib_ok l \<Longrightarrow> lib_ok (l\<lparr>lb_lock := None\<rparr>)"
  by (rule table_change_ok [of l]) (auto simp: lib_ok_def rows_ok_def)

lemma lock_ok:
  assumes "lib_ok l" "init_conflict b (lb_rows l) = None"
  shows "lib_ok (l\<lparr>lb_lock := Some i, lb_undo := lb_rows l\<rparr>)"
  by (rule table_change_ok [of l]) (use assms in \<open>auto simp: lib_ok_def rows_ok_def init_conflict_def split: option.splits\<close>)

lemma delete_ok:
  assumes l: "lib_ok l" and r: "r \<in> known l"
    and d: "\<And>i. i < length (lb_stores l) \<Longrightarrow> st_alive (lb_stores l ! i) \<Longrightarrow> r \<notin> claims_of (lb_stores l ! i)"
  shows "lib_ok (l\<lparr>lb_rows := delete_row r (lb_rows l)\<rparr>)"
proof (rule table_change_ok [OF l])
  show "rows_ok (l\<lparr>lb_rows := delete_row r (lb_rows l)\<rparr>)"
    using lib_okD(1) [OF l] delete_row_table delete_row_subset [of r "lb_rows l"] by (auto simp: rows_ok_def)
next
  fix i c assume c: "i < length (lb_stores l)" "st_alive (lb_stores l ! i)" "c \<in> claims_of (lb_stores l ! i)"
    "c \<in> set (lb_rows l)"
  have "c \<in> known l" using c(4) by (simp add: known_def)
  then have "cr_id c \<noteq> cr_id r" using lib_okD(2) [OF l] r d [OF c(1,2)] c(3) unfolding ids_ok_def by metis
  then show "c \<in> set (lb_rows (l\<lparr>lb_rows := delete_row r (lb_rows l)\<rparr>))" using c(4) by (simp add: delete_row_def)
qed (use delete_row_subset in fastforce)+

lemma open_ok:
  assumes l: "lib_ok l"
  shows "lib_ok (open_claims p l)"
proof -
  note ok = lib_okD [OF l]
  let ?d = "\<lparr>st_identity = p, st_held = [], st_closed = False, st_alive = True, st_call = None\<rparr>"
  have d: "claims_of ?d = {}" "known_store ?d = {}" by (simp_all add: claims_of_def known_store_def)
  have "known (open_claims p l) = known l"
    using d by (simp add: known_def open_claims_def lessThan_Suc nth_append)
  then have "ids_ok (open_claims p l)" using ok(2) by (simp add: ids_ok_def open_claims_def)
  moreover have "rows_ok (open_claims p l)" using ok(1) by (simp add: rows_ok_def open_claims_def)
  moreover have "held_ok (open_claims p l)"
    using ok(3) d by (auto simp: held_ok_def open_claims_def nth_append less_Suc_eq)
  moreover have "disjoint_ok (open_claims p l)"
    using ok(4) d by (auto simp: disjoint_ok_def open_claims_def nth_append less_Suc_eq)
  moreover have "pending_ok (open_claims p l)"
    using ok(5) d by (auto simp: pending_ok_def unentered_def open_claims_def nth_append less_Suc_eq)
  moreover have "handles_ok (open_claims p l)"
    using ok(6) by (auto simp: handles_ok_def open_claims_def nth_append less_Suc_eq)
  ultimately show ?thesis by (simp add: lib_ok_def)
qed

lemma die_ok: "lib_ok l \<Longrightarrow> lib_ok (die p l)"
proof -
  assume l: "lib_ok l"
  let ?k = "if lock_identity l = Some p then rollback l else l"
  have k: "lib_ok ?k" using l rollback_ok by (auto simp: lock_identity_def split: option.splits)
  have s: "lb_stores ?k = lb_stores l" by (simp add: rollback_def)
  show ?thesis
    by (rule weaken_ok [OF k]) (unfold s, simp_all add: die_def rollback_def)
qed

lemma close_claims_ok:
  assumes "lib_ok l" "i < length (lb_stores l)"
  shows "lib_ok (close_claims i l)"
proof -
  let ?k = "if lb_lock l = Some i then rollback l else l"
  have "lib_ok ?k" using assms(1) rollback_ok by auto
  then have "lib_ok (set_store i (\<lambda>s. s\<lparr>st_closed := True\<rparr>) ?k)"
    by (rule weaken_ok) (auto simp: rollback_def)
  then show ?thesis using assms throws_ok by (simp add: close_claims_def Let_def)
qed

section \<open>Releasing\<close>

lemma open_handles_split: "open_handles i c (xs @ y # ys) = open_handles i c xs + open_handles i c ys
    + (if ch_store y = i \<and> ch_claim y = c \<and> \<not> ch_released y then 1 else 0)"
  by (simp add: open_handles_def)

lemma open_handles_released:
  assumes "h < length hs" "\<not> ch_released (hs ! h)"
  shows "open_handles i c (hs[h := (hs ! h)\<lparr>ch_released := True\<rparr>]) =
    open_handles i c hs - (if ch_store (hs ! h) = i \<and> ch_claim (hs ! h) = c then 1 else 0)"
proof -
  have "open_handles i c hs = open_handles i c (take h hs @ hs ! h # drop (Suc h) hs)"
    using id_take_nth_drop [OF assms(1)] by simp
  then show ?thesis
    using assms(2) unfolding upd_conv_take_nth_drop [OF assms(1)] open_handles_split by simp
qed

text \<open>A handle is released; its claim is counted down.\<close>

lemma count_down_ok:
  assumes l: "lib_ok l" and h: "h < length (lb_handles l)" "\<not> ch_released (lb_handles l ! h)"
    and i: "i = ch_store (lb_handles l ! h)" "st_alive (lb_stores l ! i)"
  defines "c \<equiv> ch_claim (lb_handles l ! h)"
  defines "m \<equiv> set_store i (change_references (\<lambda>k. k - 1) (cr_thread c)) (mark_released h l)"
  shows "lib_ok m"
proof -
  note ok = lib_okD [OF l]
  let ?s = "lb_stores l ! i" and ?x = "lb_handles l ! h"
  have x: "?x \<in> set (lb_handles l)" using h(1) by simp
  have il: "i < length (lb_stores l)" using handles_store [OF ok(6) x] i(1) by simp
  have c: "c \<in> claims_of ?s" using handles_okD(2) [OF ok(6) il i(2) x] h(2) i(1) by (simp add: c_def)
  have mv: "moves i l m" using il by (auto simp: moves_def m_def mark_released_def)
  have nth: "lb_stores m ! i = change_references (\<lambda>k. k - 1) (cr_thread c) ?s"
    using il by (simp add: m_def mark_released_def)
  have f: "lb_rows m = lb_rows l" "lb_undo m = lb_undo l" "lb_lock m = lb_lock l" "lb_next m = lb_next l"
    "lb_handles m = (lb_handles l)[h := ?x\<lparr>ch_released := True\<rparr>]"
    by (simp_all add: m_def mark_released_def)
  have hs: "y \<in> set (lb_handles l) \<or> y = ?x\<lparr>ch_released := True\<rparr>" if "y \<in> set (lb_handles m)" for y
    using that set_update_subset_insert unfolding f by fastforce
  have im: "ch_claim ` set (lb_handles m) \<subseteq> ch_claim ` set (lb_handles l)"
    using hs x by fastforce
  have u: "unentered a m" if "unentered a l" for a
    using that il im f nth movesD(2,3) [OF mv] unfolding unentered_def by (metis change_references_frame(1) subsetD)
  have "ids_ok m"
  proof (rule moves_ids [OF ok(2) mv])
    fix a assume "a \<in> set (lb_rows m) \<union> set (lb_undo m) \<union> ch_claim ` set (lb_handles m) \<union> known_store (lb_stores m ! i)"
    then have "a \<in> known l"
      using known_storeI [OF il] im unfolding nth f(1,2) by (auto simp: known_def)
    then show "a \<in> known l \<or> (cr_id a = lb_next l \<and> a = undefined \<and> lb_next m = Suc (lb_next l))" ..
  qed (simp add: f)
  moreover have "rows_ok m" using ok(1) by (simp add: rows_ok_def f)
  moreover have "held_ok m"
    by (rule moves_held [OF ok(3) mv]) (use held_okD [OF ok(3) il] in \<open>auto simp: nth f\<close>)
  moreover have "disjoint_ok m"
    by (rule moves_disjoint [OF ok(4) mv]) (use disjoint_okD [OF ok(4) il] in \<open>auto simp: nth\<close>)
  moreover have "pending_ok m"
    by (rule moves_pending [OF ok(5) mv]) (use pending_okD [OF ok(5) il] u in \<open>auto simp: nth\<close>)
  moreover have "handles_ok m"
  proof (rule moves_handles [OF ok(6) mv])
    fix y assume "y \<in> set (lb_handles m)"
    then show "ch_store y < length (lb_stores l)" using hs [of y] handles_store [OF ok(6)] x by auto
  next
    fix j d assume "j \<noteq> i"
    then show "open_handles j d (lb_handles m) = open_handles j d (lb_handles l)"
      unfolding f open_handles_released [OF h] using i(1) by simp
  next
    fix y assume a: "st_alive ?s" "y \<in> set (st_held (lb_stores m ! i))"
    then obtain z where z: "z \<in> set (st_held ?s)" "hc_claim z = hc_claim y"
      "hc_references y = (if cr_thread (hc_claim y) = cr_thread c then hc_references z - 1 else hc_references z)"
      using change_references_set [OF a(2) [unfolded nth]] by metis
    have "hc_claim y \<in> claims_of ?s" using z(1) unfolding claims_of_def z(2) [symmetric] by blast
    then have e: "cr_thread (hc_claim y) = cr_thread c \<longleftrightarrow> hc_claim y = c"
      using held_unique [OF held_okD(1) [OF ok(3) il] _ c] by metis
    show "hc_references y = open_handles i (hc_claim y) (lb_handles m)"
      unfolding f open_handles_released [OF h] z(3) e
      using handles_okD(1) [OF ok(6) il a(1) z(1)] z(2) i(1) by (auto simp: c_def)
  next
    fix y assume "st_alive ?s" "y \<in> set (lb_handles m)" "ch_store y = i" "\<not> ch_released y"
    then show "ch_claim y \<in> claims_of (lb_stores m ! i)"
      using hs [of y] handles_okD(2) [OF ok(6) il] unfolding nth by auto
  qed
  ultimately show ?thesis by (simp add: lib_ok_def)
qed

text \<open>A claim without references leaves the store and the table.\<close>

lemma drop_ok:
  assumes l: "lib_ok l" and i: "i < length (lb_stores l)" and c: "c \<in> claims_of (lb_stores l ! i)"
    and none: "open_handles i c (lb_handles l) = 0"
  defines "m \<equiv> (set_store i (\<lambda>s. s\<lparr>st_held := filter (\<lambda>e. cr_thread (hc_claim e) \<noteq> cr_thread c) (st_held s)\<rparr>) l)
     \<lparr>lb_rows := delete_row c (lb_rows l)\<rparr>"
  shows "lib_ok m"
proof -
  note ok = lib_okD [OF l]
  let ?s = "lb_stores l ! i"
  have mv: "moves i l m" using i by (auto simp: moves_def m_def)
  have nth: "lb_stores m ! i = ?s\<lparr>st_held := filter (\<lambda>e. cr_thread (hc_claim e) \<noteq> cr_thread c) (st_held ?s)\<rparr>"
    using i by (simp add: m_def)
  have f: "lb_rows m = delete_row c (lb_rows l)" "lb_undo m = lb_undo l" "lb_lock m = lb_lock l"
    "lb_next m = lb_next l" "lb_handles m = lb_handles l"
    by (simp_all add: m_def)
  have cl: "a \<in> claims_of (lb_stores m ! i) \<longleftrightarrow> a \<in> claims_of ?s \<and> a \<noteq> c" for a
    using held_unique [OF held_okD(1) [OF ok(3) i] _ c] unfolding nth claims_of_def by auto
  have kept: "a \<in> set (lb_rows m)" if "a \<in> set (lb_rows l)" "a \<noteq> c" for a
  proof -
    have "a \<in> known l" "c \<in> known l" using that(1) known_storeI [OF i] c by (auto simp: known_def known_store_def)
    then have "cr_id a \<noteq> cr_id c" using ok(2) that(2) unfolding ids_ok_def by metis
    then show ?thesis using that(1) by (simp add: f delete_row_def)
  qed
  have u: "unentered a m" if "unentered a l" for a
    using that i f cl movesD(2,3) [OF mv] delete_row_subset [of c "lb_rows l"]
    unfolding unentered_def by (metis subsetD)
  have "ids_ok m"
  proof (rule moves_ids [OF ok(2) mv])
    fix a assume "a \<in> set (lb_rows m) \<union> set (lb_undo m) \<union> ch_claim ` set (lb_handles m) \<union> known_store (lb_stores m ! i)"
    then have "a \<in> known l"
      using known_storeI [OF i] cl [of a] delete_row_subset [of c "lb_rows l"] unfolding f
      by (auto simp: known_def known_store_def) (auto simp: nth)
    then show "a \<in> known l \<or> (cr_id a = lb_next l \<and> a = undefined \<and> lb_next m = Suc (lb_next l))" ..
  qed (simp add: f)
  moreover have "rows_ok m"
    using ok(1) delete_row_table delete_row_subset [of c "lb_rows l"] by (auto simp: rows_ok_def f)
  moreover have "held_ok m"
  proof (rule moves_held [OF ok(3) mv])
    show "distinct (map (cr_thread \<circ> hc_claim) (st_held (lb_stores m ! i)))"
      using held_okD(1) [OF ok(3) i] by (simp add: nth distinct_map_filter)
  next
    fix a assume "a \<in> claims_of (lb_stores m ! i)"
    then show "cr_identity a = st_identity ?s \<and> (st_alive ?s \<longrightarrow> a \<in> set (lb_rows m))"
      using held_okD(2,3) [OF ok(3) i] kept cl by blast
  next
    fix j a assume "j < length (lb_stores l)" "j \<noteq> i" "a \<in> claims_of (lb_stores l ! j)" "a \<in> set (lb_rows l)"
    then show "a \<in> set (lb_rows m)" using disjoint_okD(1) [OF ok(4) i, of j] c kept by blast
  qed
  moreover have "disjoint_ok m"
  proof (rule moves_disjoint [OF ok(4) mv])
    fix j assume "j < length (lb_stores l)" "j \<noteq> i"
    then show "claims_of (lb_stores m ! i) \<inter> claims_of (lb_stores l ! j) = {}
        \<and> set_option (wanted_by (st_call (lb_stores m ! i))) \<inter> set_option (wanted_by (st_call (lb_stores l ! j))) = {}"
      using disjoint_okD [OF ok(4) i, of j] cl by (auto simp: nth)
  qed
  moreover have "pending_ok m"
  proof (rule moves_pending [OF ok(5) mv])
    fix a assume "wanted_by (st_call (lb_stores m ! i)) = Some a"
    then have "wanted_by (st_call ?s) = Some a" by (simp add: nth)
    then show "cr_identity a = st_identity ?s \<and> cr_thread a \<notin> cr_thread ` claims_of (lb_stores m ! i) \<and> unentered a m"
      using pending_okD [OF ok(5) i] u cl by blast
  qed (use u in blast)
  moreover have "handles_ok m"
  proof (rule moves_handles [OF ok(6) mv])
    fix y assume "st_alive ?s" "y \<in> set (lb_handles m)" "ch_store y = i" "\<not> ch_released y"
    moreover have "ch_claim y \<noteq> c"
      using none calculation(2-4) by (auto simp: f open_handles_def filter_empty_conv)
    ultimately show "ch_claim y \<in> claims_of (lb_stores m ! i)"
      using handles_okD(2) [OF ok(6) i] cl unfolding f by blast
  qed (use handles_okD(1) [OF ok(6) i] handles_store [OF ok(6)] in \<open>auto simp: nth f\<close>)
  ultimately show ?thesis by (simp add: lib_ok_def)
qed

lemma release_handle_ok:
  assumes l: "lib_ok l" and h: "h < length (lb_handles l)" and i: "idle l (ch_store (lb_handles l ! h))"
  shows "lib_ok (release_handle h l)"
proof (cases "ch_released (lb_handles l ! h)")
  case True
  then show ?thesis using l by (simp add: release_handle_def Let_def)
next
  case False
  note ok = lib_okD [OF l]
  let ?x = "lb_handles l ! h"
  define c where "c = ch_claim ?x"
  define j where "j = ch_store ?x"
  define d where "d = set_store j (change_references (\<lambda>k. k - 1) (cr_thread c)) (mark_released h l)"
  have j: "j < length (lb_stores l)" "st_alive (lb_stores l ! j)" using i by (simp_all add: idle_def j_def)
  have c: "c \<in> claims_of (lb_stores l ! j)"
    using handles_okD(2) [OF ok(6) j] h False by (simp add: c_def j_def)
  then obtain e where e: "held_of (cr_thread c) (lb_stores l ! j) = Some e"
    using held_of_None by fastforce
  have "hc_claim e \<in> claims_of (lb_stores l ! j)" "cr_thread (hc_claim e) = cr_thread c"
    using held_of_Some [OF e] by (auto simp: claims_of_def)
  then have ec: "hc_claim e = c" using held_unique [OF held_okD(1) [OF ok(3) j(1)] _ c] by blast
  have d: "lib_ok d" using count_down_ok [OF l h False] j by (simp add: d_def c_def j_def)
  have dl: "length (lb_stores d) = length (lb_stores l)" "lb_rows d = lb_rows l"
    "lb_handles d = (lb_handles l)[h := ?x\<lparr>ch_released := True\<rparr>]"
    "claims_of (lb_stores d ! j) = claims_of (lb_stores l ! j)"
    using j(1) by (simp_all add: d_def mark_released_def)
  have drop: "lib_ok ((set_store j (\<lambda>s. s\<lparr>st_held := filter (\<lambda>e. cr_thread (hc_claim e) \<noteq> cr_thread c) (st_held s)\<rparr>) d)
      \<lparr>lb_rows := delete_row c (lb_rows l)\<rparr>)" if "hc_references e - 1 = 0"
  proof -
    have "open_handles j c (lb_handles d) = 0"
      unfolding dl(3) open_handles_released [OF h False]
      using handles_okD(1) [OF ok(6) j, of e] held_of_Some [OF e] that ec by (simp add: c_def j_def)
    then show ?thesis using drop_ok [OF d, of j c] c j(1) dl by simp
  qed
  have "release_handle h l = (if hc_references e - 1 \<noteq> 0 then d
      else if lb_lock l \<noteq> None \<and> lb_lock l \<noteq> Some j then throws j DatabaseBusy d
      else (set_store j (\<lambda>s. s\<lparr>st_held := filter (\<lambda>e. cr_thread (hc_claim e) \<noteq> cr_thread c) (st_held s)\<rparr>) d)
        \<lparr>lb_rows := delete_row c (lb_rows l)\<rparr>)"
    using False e ec by (simp add: release_handle_def Let_def c_def j_def d_def)
  then show ?thesis using d drop throws_ok [OF d, of j] j(1) dl(1) by simp
qed

section \<open>Every step keeps the invariant\<close>

lemma transact_ok:
  assumes l: "lib_ok l"
  shows "lib_ok (transact i new l)"
proof (cases "call_of l i")
  case (Some k)
  then have i: "i < length (lb_stores l)" "st_call (lb_stores l ! i) = Some k" using call_of_Some by auto
  have rk: "set (lb_rows l) \<subseteq> known l" by (auto simp: known_def)
  show ?thesis
  proof (cases k)
    case k: (Trying c n)
    show ?thesis
    proof (cases c)
      case c: (Some a)
      have "lib_ok (try_claim i a n l)"
        using l i k c rk enter_ok [OF l i(1)] throws_ok [OF l i(1)]
        by (auto simp: try_claim_def dest!: conflict_of_Some intro!: set_call_ok split: option.splits)
      then show ?thesis using Some k c by (simp add: transact_def)
    next
      case None
      have u: "lib_ok ((set_call i None l)\<lparr>lb_lock := Some i, lb_undo := lb_rows l\<rparr>)"
        if "init_conflict b (lb_rows l) = None" for b
        using lock_ok [OF set_call_ok [OF l i(1), of None], of b i] that by (simp add: set_call_def)
      have "lib_ok (try_init i new n l)"
        using l i k rk throws_ok [OF l i(1)] u
        by (auto simp: try_init_def dest!: init_conflict_Some intro!: set_call_ok split: option.splits)
      then show ?thesis using Some k None by (simp add: transact_def)
    qed
  qed (use Some l in \<open>simp add: transact_def\<close>)
qed (use l in \<open>simp add: transact_def\<close>)

lemma reap_ok:
  assumes l: "lib_ok l" and h: "honest_step (Probe i status) l"
  shows "lib_ok (reap i status l)"
proof (cases "call_of l i")
  case (Some k)
  then have i: "i < length (lb_stores l)" "st_call (lb_stores l ! i) = Some k" using call_of_Some by auto
  show ?thesis
  proof (cases k)
    case k: (Probing c n r)
    let ?d = "l\<lparr>lb_rows := delete_row r (lb_rows l)\<rparr>"
    have "r \<in> known l" using known_storeI [OF i(1)] i(2) k by (auto simp: known_store_def)
    moreover have "r \<notin> claims_of (lb_stores l ! j)" if "status = Dead" "j < length (lb_stores l)" "st_alive (lb_stores l ! j)" for j
      using h held_okD(2) [OF lib_okD(3) [OF l] that(2)] Some k that by auto
    ultimately have d: "lib_ok ?d" if "status = Dead" using delete_ok [OF l] that by blast
    have "lib_ok (set_call i (Some (Trying c (n + 1))) ?d)" if "status = Dead"
      by (rule set_call_ok [OF d [OF that]]) (use i k in auto)
    then show ?thesis using Some k throws_ok [OF l i(1)] throws_ok [OF d] i(1)
      by (auto simp: reap_def Let_def)
  qed (use Some l in \<open>simp add: reap_def\<close>)
qed (use l in \<open>simp add: reap_def\<close>)

lemma claims_step_ok:
  assumes l: "lib_ok l" and h: "honest_step x l"
  shows "lib_ok (claims_step x l)"
proof (cases x)
  case (BeginInit a i)
  have "lib_ok (beginLibraryInitialization a i l)" if "idle l i"
    using l throws_ok [OF l idle_store [OF that]] set_call_ok [OF l idle_store [OF that]]
    by (auto simp: beginLibraryInitialization_def split: option.splits)
  then show ?thesis using BeginInit l by simp
qed (use l h open_ok die_ok release_handle_ok transact_ok reap_ok unlock_ok close_claims_ok acquireKey_ok throws_ok idle_store
    in \<open>auto simp: acquire_session_def maintenance_def endInitialization_def\<close>)

lemma new_library_ok: "lib_ok new_library"
  by (simp add: new_library_def lib_ok_def rows_ok_def table_ok_def ids_ok_def known_def held_ok_def disjoint_ok_def
      pending_ok_def handles_ok_def)

lemma claims_steps_ok: "honest_from ops l \<Longrightarrow> lib_ok l \<Longrightarrow> lib_ok (fold claims_step ops l)"
  by (induction ops arbitrary: l) (simp_all add: claims_step_ok)

lemma claims_run_ok: "honest_probes ops \<Longrightarrow> lib_ok (claims_run ops)"
  by (simp add: honest_probes_def claims_run_def claims_steps_ok new_library_ok)

text \<open>A closed store holds nothing.\<close>

definition closed_ok :: "claims_library \<Rightarrow> bool" where
  "closed_ok l \<longleftrightarrow> (\<forall>i < length (lb_stores l). st_closed (lb_stores l ! i) \<longrightarrow>
     st_held (lb_stores l ! i) = [] \<and> st_call (lb_stores l ! i) = None)"

lemma closed_set_store:
  assumes "closed_ok l" "i < length (lb_stores l) \<Longrightarrow> st_closed (f (lb_stores l ! i)) \<Longrightarrow>
    st_held (f (lb_stores l ! i)) = [] \<and> st_call (f (lb_stores l ! i)) = None"
  shows "closed_ok (set_store i f l)"
  using assms by (auto simp: closed_ok_def)

lemma closed_frame [simp]:
  "closed_ok (l\<lparr>lb_rows := r\<rparr>) = closed_ok l" "closed_ok (l\<lparr>lb_lock := k\<rparr>) = closed_ok l"
  "closed_ok (l\<lparr>lb_undo := r\<rparr>) = closed_ok l" "closed_ok (l\<lparr>lb_next := n\<rparr>) = closed_ok l"
  "closed_ok (l\<lparr>lb_handles := hs\<rparr>) = closed_ok l" "closed_ok (l\<lparr>lb_errors := e\<rparr>) = closed_ok l"
  "closed_ok (add_handle i c l) = closed_ok l" "closed_ok (mark_released h l) = closed_ok l"
  "closed_ok (rollback l) = closed_ok l"
  by (simp_all add: closed_ok_def add_handle_def mark_released_def rollback_def)

lemma closed_throws [simp]: "closed_ok l \<Longrightarrow> closed_ok (throws i e l)"
  by (auto simp: throws_def set_call_def closed_ok_def)

lemma closed_set_call:
  "closed_ok l \<Longrightarrow> (i < length (lb_stores l) \<Longrightarrow> \<not> st_closed (lb_stores l ! i)) \<Longrightarrow> closed_ok (set_call i k l)"
  unfolding set_call_def by (rule closed_set_store) auto

lemma closed_step:
  assumes l: "closed_ok l"
  shows "closed_ok (claims_step x l)"
proof (cases x)
  case (OpenStore p)
  then show ?thesis using l by (auto simp: open_claims_def closed_ok_def nth_append less_Suc_eq)
next
  case (Acquire a i t)
  have "closed_ok (acquire_session a i t l)"
    using l by (auto simp: acquire_session_def acquireKey_def checkOpen_def Let_def change_references_def
        intro!: closed_set_call closed_set_store split: option.splits)
  then show ?thesis using Acquire l by simp
next
  case (Maintain a i)
  have "closed_ok (maintenance a i l)"
    using l by (auto simp: maintenance_def acquireKey_def checkOpen_def Let_def change_references_def
        intro!: closed_set_call closed_set_store split: option.splits)
  then show ?thesis using Maintain l by simp
next
  case (BeginInit a i)
  have "closed_ok (beginLibraryInitialization a i l)"
    using l by (auto simp: beginLibraryInitialization_def checkOpen_def intro!: closed_set_call split: option.splits)
  then show ?thesis using BeginInit l by simp
next
  case (Transact i new)
  have c: "call_of l i = Some k \<Longrightarrow> \<not> st_closed (lb_stores l ! i)" for k
    using call_of_Some l by (fastforce simp: closed_ok_def)
  have "closed_ok (transact i new l)"
    using l c by (auto simp: transact_def try_claim_def try_init_def
        intro!: closed_set_call closed_set_store split: option.splits claims_call.splits)
  then show ?thesis using Transact by simp
next
  case (Probe i st)
  have c: "call_of l i = Some k \<Longrightarrow> \<not> st_closed (lb_stores l ! i)" for k
    using call_of_Some l by (fastforce simp: closed_ok_def)
  have "closed_ok (reap i st l)"
    using l c by (auto simp: reap_def Let_def intro!: closed_set_call split: option.splits claims_call.splits)
  then show ?thesis using Probe by simp
next
  case (Release h)
  have k: "closed_ok (set_store i (change_references f t) (mark_released h l))" for i f t
    using l by (auto simp: closed_ok_def mark_released_def change_references_def)
  have "closed_ok d \<Longrightarrow> closed_ok (set_store i (\<lambda>s. s\<lparr>st_held := filter P (st_held s)\<rparr>) d)" for i P d
    by (auto simp: closed_ok_def)
  then have "closed_ok (release_handle h l)"
    using l k by (simp add: release_handle_def Let_def split: option.splits)
  then show ?thesis using Release l by simp
next
  case (CloseStore i)
  have "idle l i \<Longrightarrow> closed_ok (close_claims i l)"
    using l by (auto simp: close_claims_def Let_def idle_def rollback_def intro!: closed_set_store)
  then show ?thesis using CloseStore l by simp
next
  case (Die p)
  then show ?thesis using l by (auto simp: die_def closed_ok_def rollback_def)
qed (use l in \<open>simp add: endInitialization_def\<close>)

lemma claims_run_closed: "closed_ok (claims_run ops)"
proof -
  have "closed_ok l \<Longrightarrow> closed_ok (fold claims_step ops l)" for l
    by (induction ops arbitrary: l) (simp_all add: closed_step)
  moreover have "closed_ok new_library" by (simp add: closed_ok_def new_library_def)
  ultimately show ?thesis by (simp add: claims_run_def)
qed

end
