(* ===== verification/SessionClaimsProps.thy ===== *)
theory SessionClaimsProps
  imports SessionClaimsInv
begin

text \<open>
  What the session claims promise, as long as the host reports only dead processes dead: at most one live
  store holds a thread, none beside maintenance; a claim that was handed out stays valid until it is
  released; and what a dead process left is taken over.
\<close>

section \<open>What a claim promises\<close>

lemma holds_row:
  assumes "lib_ok l" "holds l i t"
  obtains c where "c \<in> claims_of (lb_stores l ! i)" "cr_thread c = t" "c \<in> set (lb_rows l)"
proof -
  obtain h where "held_of t (lb_stores l ! i) = Some h" using assms(2) by (auto simp: holds_def)
  then have "hc_claim h \<in> claims_of (lb_stores l ! i)" "cr_thread (hc_claim h) = t"
    using held_of_Some by (auto simp: claims_of_def)
  moreover have "hc_claim h \<in> set (lb_rows l)"
    using held_okD(3) [OF lib_okD(3) [OF assms(1)]] calculation(1) assms(2) unfolding holds_def by blast
  ultimately show ?thesis by (rule that)
qed

text \<open>
  C12: If the host reports only dead processes dead, then in every state that any number of stores can
  reach, with deaths, aliases, busy databases and initialisations in between, two live stores never hold
  the same thread, and when one holds the maintenance gate no other holds anything.
\<close>

theorem claims_exclusive:
  assumes "honest_probes ops" "holds (claims_run ops) i t" "holds (claims_run ops) j u" "i \<noteq> j"
  shows "t \<noteq> u \<and> t \<noteq> MAINTENANCE \<and> u \<noteq> MAINTENANCE"
proof -
  let ?l = "claims_run ops"
  have ok: "lib_ok ?l" by (rule claims_run_ok [OF assms(1)])
  obtain c where c: "c \<in> claims_of (lb_stores ?l ! i)" "cr_thread c = t" "c \<in> set (lb_rows ?l)"
    using holds_row [OF ok assms(2)] .
  obtain d where d: "d \<in> claims_of (lb_stores ?l ! j)" "cr_thread d = u" "d \<in> set (lb_rows ?l)"
    using holds_row [OF ok assms(3)] .
  have t: "table_ok (lb_rows ?l)" using lib_okD(1) [OF ok] by (simp add: rows_ok_def)
  have "c \<noteq> d"
    using disjoint_okD(1) [OF lib_okD(4) [OF ok], of i j] assms(2-4) c(1) d(1) by (auto simp: holds_def)
  moreover have "t = u \<Longrightarrow> c = d" using t c d unfolding table_ok_def distinct_map by (metis inj_onD)
  moreover have "t = MAINTENANCE \<Longrightarrow> lb_rows ?l = [c]" "u = MAINTENANCE \<Longrightarrow> lb_rows ?l = [d]"
    using t c d by (auto simp: table_ok_def)
  ultimately show ?thesis using c(3) d(3) by auto
qed

text \<open>Two processes; the second waits until the first has died with its claim, and takes it over.\<close>

definition takeover_run :: "claims_op list" where
  "takeover_run = [OpenStore 1, OpenStore 2, Acquire False 0 5, Transact 0 None, Acquire False 0 5,
     Acquire False 1 6, Transact 1 None, Acquire False 1 5, Transact 1 None, Probe 1 Alive, Release 0]"

theorem claims_exclusive_witness:
  "honest_probes takeover_run \<and> holds (claims_run takeover_run) 0 5 \<and> holds (claims_run takeover_run) 1 6
   \<and> (5::nat) \<noteq> 6 \<and> 5 \<noteq> MAINTENANCE \<and> 6 \<noteq> MAINTENANCE"
proof -
  have h: "honest_probes takeover_run" by code_simp
  have a: "holds (claims_run takeover_run) 0 5" by code_simp
  have b: "holds (claims_run takeover_run) 1 6" by code_simp
  show ?thesis using claims_exclusive [OF h a b] h a b by simp
qed

text \<open>
  C13: A claim that was handed out stays valid until it is released: as long as its store lives, the handle
  of a claim passes its check (unless the library is reached by another name), however often the thread
  was claimed and released through other handles.
\<close>

theorem unreleased_claim_valid:
  assumes "honest_probes ops" "h < length (lb_handles (claims_run ops))"
    "x = lb_handles (claims_run ops) ! h" "\<not> ch_released x" "st_alive (lb_stores (claims_run ops) ! ch_store x)"
  shows "holds (claims_run ops) (ch_store x) (cr_thread (ch_claim x)) \<and> assert_handle False h (claims_run ops) = None"
proof -
  let ?l = "claims_run ops" and ?i = "ch_store x" and ?c = "ch_claim x"
  have ok: "lib_ok ?l" by (rule claims_run_ok [OF assms(1)])
  have x: "x \<in> set (lb_handles ?l)" using assms(2,3) by simp
  have i: "?i < length (lb_stores ?l)" by (rule handles_store [OF lib_okD(6) [OF ok] x])
  have c: "?c \<in> claims_of (lb_stores ?l ! ?i)"
    using handles_okD(2) [OF lib_okD(6) [OF ok] i assms(5) x] assms(4) by simp
  then have "?c \<in> set (lb_rows ?l)" using held_okD(3) [OF lib_okD(3) [OF ok] i] assms(5) by simp
  then have r: "row_of (cr_thread ?c) (lb_rows ?l) = Some ?c"
    using row_of_unique lib_okD(1) [OF ok] by (auto simp: rows_ok_def table_ok_def)
  have "\<not> st_closed (lb_stores ?l ! ?i)"
    using claims_run_closed [of ops] i c by (auto simp: closed_ok_def claims_of_def)
  then have "assert_handle False h ?l = None"
    using assms(3,4) r by (simp add: assert_handle_def assert_claim_def checkOpen_def Let_def)
  moreover have "holds ?l ?i (cr_thread ?c)" using c i assms(5) held_of_None by (fastforce simp: holds_def)
  ultimately show ?thesis by simp
qed

theorem unreleased_claim_valid_witness:
  "assert_handle False 1 (claims_run takeover_run) = None \<and> ch_released (lb_handles (claims_run takeover_run) ! 0)"
proof -
  have h: "honest_probes takeover_run" by code_simp
  have l: "1 < length (lb_handles (claims_run takeover_run))" by code_simp
  have r: "\<not> ch_released (lb_handles (claims_run takeover_run) ! 1)" by code_simp
  have a: "st_alive (lb_stores (claims_run takeover_run) ! ch_store (lb_handles (claims_run takeover_run) ! 1))"
    by code_simp
  have "ch_released (lb_handles (claims_run takeover_run) ! 0)" by code_simp
  then show ?thesis using unreleased_claim_valid [OF h l refl r a] by simp
qed

text \<open>
  C14: What a dead process left does not block: when the claim on a thread is of a process that is dead, an
  open store that is idle gets the thread by one acquisition with a probe that reports the death, as long
  as no other store's transaction or maintenance is in the way.
\<close>

theorem dead_claim_taken_over:
  assumes "honest_probes ops" "l = claims_run ops" "idle l i" "\<not> st_closed (lb_stores l ! i)" "t \<noteq> MAINTENANCE"
    "lb_lock l = None" "row_of MAINTENANCE (lb_rows l) = None" "held_of t (lb_stores l ! i) = None"
    "row_of t (lb_rows l) = Some r"
    "\<forall>s \<in> set (lb_stores l). st_identity s = cr_identity r \<longrightarrow> \<not> st_alive s"
    "again = [Acquire False i t, Transact i None, Probe i Dead, Transact i None]"
  shows "honest_from again l \<and> holds (fold claims_step again l) i t"
proof -
  have i: "i < length (lb_stores l)" "st_alive (lb_stores l ! i)" "st_call (lb_stores l ! i) = None"
    using assms(3) by (auto simp: idle_def)
  have tb: "distinct (map cr_thread (lb_rows l))"
    using lib_okD(1) [OF claims_run_ok [OF assms(1)]] assms(2) by (simp add: rows_ok_def table_ok_def)
  define c where "c = \<lparr>cr_thread = t, cr_id = lb_next l, cr_identity = st_identity (lb_stores l ! i)\<rparr>"
  define l1 where "l1 = set_call i (Some (Trying (Some c) 0)) (l\<lparr>lb_next := Suc (lb_next l)\<rparr>)"
  define l2 where "l2 = set_call i (Some (Probing (Some c) 0 r)) l1"
  define l3 where "l3 = set_call i (Some (Trying (Some c) 1)) (l2\<lparr>lb_rows := delete_row r (lb_rows l)\<rparr>)"
  have s1: "claims_step (Acquire False i t) l = l1"
    using assms(3-5,8) by (simp add: acquire_session_def acquireKey_def checkOpen_def Let_def l1_def c_def)
  have cf: "conflict_of c (lb_rows l) = Some r" "cr_thread c = t"
    using assms(5,7,9) by (simp_all add: conflict_of_def c_def)
  have s2: "claims_step (Transact i None) l1 = l2"
    using i assms(6) cf by (simp add: transact_def call_of_def l1_def l2_def set_call_def try_claim_def)
  have k2: "call_of l2 i = Some (Probing (Some c) 0 r)" using i by (simp add: call_of_def l1_def l2_def set_call_def)
  have f2: "lb_lock l2 = None" "lb_rows l2 = lb_rows l" using assms(6) by (simp_all add: l1_def l2_def set_call_def)
  have s3: "claims_step (Probe i Dead) l2 = l3"
    using f2 by (simp add: reap_def k2 Let_def l3_def MAX_ATTEMPTS_def)
  have h: "honest_from again l"
  proof -
    have "\<forall>s \<in> set (lb_stores l2). st_identity s = cr_identity r \<longrightarrow> \<not> st_alive s"
    proof
      fix s assume s: "s \<in> set (lb_stores l2)"
      have e: "lb_stores l2 = (lb_stores l)[i := (lb_stores l ! i)\<lparr>st_call := Some (Probing (Some c) 0 r)\<rparr>]"
        using i(1) by (simp add: l1_def l2_def set_call_def set_store_def)
      have "lb_stores l ! i \<in> set (lb_stores l)" using i(1) by simp
      moreover have "s \<in> set (lb_stores l) \<or> s = (lb_stores l ! i)\<lparr>st_call := Some (Probing (Some c) 0 r)\<rparr>"
        using s set_update_subset_insert unfolding e by fast
      ultimately show "st_identity s = cr_identity r \<longrightarrow> \<not> st_alive s" using assms(10) by auto
    qed
    then show ?thesis using s1 s2 k2 assms(11) by simp
  qed
  have gone: "t \<notin> cr_thread ` set (delete_row r (lb_rows l))"
  proof -
    have "cr_thread r = t" "r \<in> set (lb_rows l)" using row_of_Some [OF assms(9)] by auto
    then have "x = r" if "x \<in> set (lb_rows l)" "cr_thread x = t" for x
      using tb that unfolding distinct_map by (metis inj_onD)
    then show ?thesis by (auto simp: delete_row_def)
  qed
  have "conflict_of c (lb_rows l3) = None"
    using gone cf(2) assms(5,7) row_of_None delete_row_subset [of r "lb_rows l"]
    by (fastforce simp: conflict_of_def l3_def set_call_def split: option.splits)
  then have "holds (claims_step (Transact i None) l3) i t"
    using i assms(6) cf(2)
    by (simp add: transact_def call_of_def l1_def l2_def l3_def set_call_def try_claim_def holds_def add_handle_def
        held_of_None claims_of_def)
  moreover have "fold claims_step again l = claims_step (Transact i None) l3"
    using s1 s2 s3 assms(11) by (simp del: claims_step.simps)
  ultimately show ?thesis using h by simp
qed

theorem dead_claim_taken_over_witness:
  "\<exists>l again. l = claims_run (takeover_run @ [Die 1])
     \<and> again = [Acquire False 1 5, Transact 1 None, Probe 1 Dead, Transact 1 None]
     \<and> honest_from again l \<and> holds (fold claims_step again l) 1 5"
proof -
  let ?l = "claims_run (takeover_run @ [Die 1])"
  let ?r = "\<lparr>cr_thread = 5, cr_id = 0, cr_identity = 1\<rparr>"
  have "honest_probes (takeover_run @ [Die 1])" "idle ?l 1" "\<not> st_closed (lb_stores ?l ! 1)" "lb_lock ?l = None"
    by code_simp+
  moreover have "row_of MAINTENANCE (lb_rows ?l) = None" "held_of 5 (lb_stores ?l ! 1) = None"
    "row_of 5 (lb_rows ?l) = Some ?r" by code_simp+
  moreover have "\<forall>s \<in> set (lb_stores ?l). st_identity s = cr_identity ?r \<longrightarrow> \<not> st_alive s" by code_simp
  ultimately show ?thesis
    using dead_claim_taken_over [of "takeover_run @ [Die 1]" ?l 1 5 ?r] by (simp add: MAINTENANCE_def)
qed

text \<open>
  A release that fails because another store's transaction is open cannot be repeated: its handle counts as
  released, but the row stays, and later releases of the handle do nothing.
\<close>

definition failed_release_run :: "claims_op list" where
  "failed_release_run = [OpenStore 1, OpenStore 2, Acquire False 0 5, Transact 0 None, BeginInit False 1,
     Transact 1 (Some False), Release 0, EndInit 1, Release 0]"

lemma failed_release_keeps_claim:
  "honest_probes failed_release_run
   \<and> list_all ch_released (lb_handles (claims_run failed_release_run))
   \<and> lb_errors (claims_run failed_release_run) = [(0, DatabaseBusy)]
   \<and> row_of 5 (lb_rows (claims_run failed_release_run)) \<noteq> None
   \<and> lb_errors (claims_step (CloseStore 0) (claims_run failed_release_run))
       = [(0, DatabaseBusy), (0, UnsettledClaims)]"
proof -
  have "honest_probes failed_release_run" by code_simp
  moreover have "list_all ch_released (lb_handles (claims_run failed_release_run))" by code_simp
  moreover have "lb_errors (claims_run failed_release_run) = [(0, DatabaseBusy)]" by code_simp
  moreover have "row_of 5 (lb_rows (claims_run failed_release_run)) \<noteq> None" by code_simp
  moreover have "lb_errors (claims_step (CloseStore 0) (claims_run failed_release_run))
      = [(0, DatabaseBusy), (0, UnsettledClaims)]" by code_simp
  ultimately show ?thesis by blast
qed

end
