(* ===== verification/HistoryRepair.thy ===== *)
theory HistoryRepair
  imports Prelude
begin

text \<open>
  The repair of a persisted history before it goes to a model provider
  (\<open>packages/runtime/src/engine/tool-protocol-repair.ts\<close>): calls and results of tools are kept only where an
  id has exactly one call and exactly one later result. A part is a call or a result with its id, or
  something else; the schema check of a shortened message and the collation of ids are parameters.
\<close>

section \<open>Messages\<close>

datatype tool_part_type = ToolCall | ToolResult

text \<open>\<open>ToolPart\<close> is a record whose type is \<open>tool-call\<close> or \<open>tool-result\<close> and whose id is a string.\<close>

datatype message_part = ToolPart tool_part_type string | OtherPart nat

datatype message_content = PlainText nat | PartList "message_part list"

record model_message =
  mm_fields :: nat
  mm_content :: message_content

type_synonym occurrence = "nat \<times> nat"

record tool_index =
  ti_calls :: "(string \<times> occurrence list) list"
  ti_results :: "(string \<times> occurrence list) list"

datatype repair_status = RepairValid | RepairRepaired

record repair =
  rp_status :: repair_status
  rp_messages :: "model_message list"
  rp_removedCalls :: "string list"
  rp_removedResults :: "string list"

fun readToolPart :: "message_part \<Rightarrow> (tool_part_type \<times> string) option" where
  "readToolPart (OtherPart n) = None"
| "readToolPart (ToolPart k i) = (if length i > 0 then Some (k, i) else None)"

section \<open>The index\<close>

fun appendOccurrence ::
  "string \<Rightarrow> occurrence \<Rightarrow> (string \<times> occurrence list) list \<Rightarrow> (string \<times> occurrence list) list" where
  "appendOccurrence i x [] = [(i, [x])]"
| "appendOccurrence i x ((j, xs) # m) = (if i = j then (j, xs @ [x]) # m else (j, xs) # appendOccurrence i x m)"

definition index_part :: "nat \<Rightarrow> nat \<Rightarrow> message_part \<Rightarrow> tool_index \<Rightarrow> tool_index" where
  "index_part mi pi p x = (case readToolPart p of
       None \<Rightarrow> x
     | Some (ToolCall, i) \<Rightarrow> x\<lparr>ti_calls := appendOccurrence i (mi, pi) (ti_calls x)\<rparr>
     | Some (ToolResult, i) \<Rightarrow> x\<lparr>ti_results := appendOccurrence i (mi, pi) (ti_results x)\<rparr>)"

fun index_parts :: "nat \<Rightarrow> nat \<Rightarrow> message_part list \<Rightarrow> tool_index \<Rightarrow> tool_index" where
  "index_parts mi pi [] x = x"
| "index_parts mi pi (p # ps) x = index_parts mi (Suc pi) ps (index_part mi pi p x)"

fun index_messages :: "nat \<Rightarrow> model_message list \<Rightarrow> tool_index \<Rightarrow> tool_index" where
  "index_messages mi [] x = x"
| "index_messages mi (m # ms) x = index_messages (Suc mi) ms
     (case mm_content m of PlainText t \<Rightarrow> x | PartList ps \<Rightarrow> index_parts mi 0 ps x)"

definition indexToolProtocol :: "model_message list \<Rightarrow> tool_index" where
  "indexToolProtocol ms = index_messages 0 ms \<lparr>ti_calls = [], ti_results = []\<rparr>"

definition occursBefore :: "occurrence \<Rightarrow> occurrence \<Rightarrow> bool" where
  "occursBefore l r \<longleftrightarrow> fst l < fst r \<or> (fst l = fst r \<and> snd l < snd r)"

text \<open>\<open>index.calls.get(id) ?? []\<close>.\<close>

definition occurrences_of :: "string \<Rightarrow> (string \<times> occurrence list) list \<Rightarrow> occurrence list" where
  "occurrences_of i m = (case map_of m i of None \<Rightarrow> [] | Some xs \<Rightarrow> xs)"

definition invalid_id :: "tool_index \<Rightarrow> string \<Rightarrow> bool" where
  "invalid_id x i = (let calls = occurrences_of i (ti_calls x); results = occurrences_of i (ti_results x) in
     length calls \<noteq> 1 \<or> length results \<noteq> 1 \<or> \<not> occursBefore (hd calls) (hd results))"

definition invalidIds :: "tool_index \<Rightarrow> string list" where
  "invalidIds x = filter (invalid_id x) (remdups (map fst (ti_calls x) @ map fst (ti_results x)))"

section \<open>The repair\<close>

definition keeps_part :: "string list \<Rightarrow> message_part \<Rightarrow> bool" where
  "keeps_part bad p = (case readToolPart p of None \<Rightarrow> True | Some (k, i) \<Rightarrow> i \<notin> set bad)"

definition removed_ids :: "tool_part_type \<Rightarrow> string list \<Rightarrow> message_part list \<Rightarrow> string list" where
  "removed_ids k bad ps = List.map_filter (\<lambda>p. case readToolPart p of
       Some (k', i) \<Rightarrow> if k' = k \<and> i \<in> set bad then Some i else None | None \<Rightarrow> None) ps"

text \<open>The loop over the messages; \<open>Inl\<close> is what the schema check throws.\<close>

fun repair_messages :: "(model_message \<Rightarrow> 'e + model_message) \<Rightarrow> string list \<Rightarrow> model_message list \<Rightarrow>
    'e + model_message list" where
  "repair_messages parse bad [] = Inr []"
| "repair_messages parse bad (m # ms) = (case mm_content m of
       PlainText t \<Rightarrow> sum_bind (repair_messages parse bad ms) (\<lambda>r. Inr (m # r))
     | PartList ps \<Rightarrow> (let kept = filter (keeps_part bad) ps in
         if length kept > 0
         then sum_bind (parse (m\<lparr>mm_content := PartList kept\<rparr>)) (\<lambda>m'.
                sum_bind (repair_messages parse bad ms) (\<lambda>r. Inr (m' # r)))
         else repair_messages parse bad ms))"

fun parts_of :: "model_message list \<Rightarrow> message_part list" where
  "parts_of [] = []"
| "parts_of (m # ms) = (case mm_content m of PlainText t \<Rightarrow> [] | PartList ps \<Rightarrow> ps) @ parts_of ms"

definition repairActiveToolProtocol :: "(model_message \<Rightarrow> 'e + model_message) \<Rightarrow>
    (string list \<Rightarrow> string list) \<Rightarrow> model_message list \<Rightarrow> 'e + repair" where
  "repairActiveToolProtocol parse collate ms = (let bad = invalidIds (indexToolProtocol ms) in
     if bad = [] then Inr \<lparr>rp_status = RepairValid, rp_messages = ms, rp_removedCalls = [], rp_removedResults = []\<rparr>
     else sum_bind (repair_messages parse bad ms) (\<lambda>r. Inr \<lparr>rp_status = RepairRepaired, rp_messages = r,
       rp_removedCalls = collate (remdups (removed_ids ToolCall bad (parts_of ms))),
       rp_removedResults = collate (remdups (removed_ids ToolResult bad (parts_of ms)))\<rparr>))"

section \<open>What the index says\<close>

text \<open>The calls and results of an id, in the order of the history.\<close>

definition protocol_of :: "string \<Rightarrow> message_part list \<Rightarrow> tool_part_type list" where
  "protocol_of i ps = List.map_filter (\<lambda>p. case readToolPart p of
       Some (k, j) \<Rightarrow> if j = i then Some k else None | None \<Rightarrow> None) ps"

lemma map_filter_Nil [simp]: "List.map_filter f [] = []" by (simp add: List.map_filter_def)
lemma map_filter_Cons: "List.map_filter f (x # xs) = (case f x of None \<Rightarrow> List.map_filter f xs | Some y \<Rightarrow> y # List.map_filter f xs)"
  by (simp add: List.map_filter_def split: option.split)

lemma protocol_of_simps [simp]:
  "protocol_of i [] = []"
  "protocol_of i (OtherPart n # ps) = protocol_of i ps"
  "protocol_of i (ToolPart k j # ps) = (if j = i \<and> j \<noteq> [] then k # protocol_of i ps else protocol_of i ps)"
  by (auto simp: protocol_of_def map_filter_Cons)

lemma protocol_of_append [simp]: "protocol_of i (ps @ qs) = protocol_of i ps @ protocol_of i qs"
  by (simp add: protocol_of_def List.map_filter_def)

lemma protocol_of_empty_id [simp]: "protocol_of [] ps = []"
  by (induction ps rule: list.induct) (auto split: message_part.splits, metis message_part.exhaust protocol_of_simps(2,3))

text \<open>The same with their positions.\<close>

fun placed_parts :: "string \<Rightarrow> nat \<Rightarrow> nat \<Rightarrow> message_part list \<Rightarrow> (occurrence \<times> tool_part_type) list" where
  "placed_parts i mi pi [] = []"
| "placed_parts i mi pi (p # ps) = (case readToolPart p of
       Some (k, j) \<Rightarrow> if j = i then ((mi, pi), k) # placed_parts i mi (Suc pi) ps else placed_parts i mi (Suc pi) ps
     | None \<Rightarrow> placed_parts i mi (Suc pi) ps)"

fun placed :: "string \<Rightarrow> nat \<Rightarrow> model_message list \<Rightarrow> (occurrence \<times> tool_part_type) list" where
  "placed i mi [] = []"
| "placed i mi (m # ms) = (case mm_content m of PlainText t \<Rightarrow> [] | PartList ps \<Rightarrow> placed_parts i mi 0 ps)
     @ placed i (Suc mi) ms"

lemma placed_parts_kinds: "map snd (placed_parts i mi pi ps) = protocol_of i ps"
proof (induction ps arbitrary: pi)
  case (Cons p ps)
  then show ?case by (cases p) auto
qed simp

lemma placed_kinds: "map snd (placed i mi ms) = protocol_of i (parts_of ms)"
  by (induction ms arbitrary: mi) (auto simp: placed_parts_kinds split: message_content.splits)

lemma placed_parts_bounds: "x \<in> fst ` set (placed_parts i mi pi ps) \<Longrightarrow> fst x = mi \<and> pi \<le> snd x"
proof (induction ps arbitrary: pi)
  case (Cons p ps)
  then show ?case by (cases p) (fastforce split: if_splits)+
qed simp

lemma placed_bounds: "x \<in> fst ` set (placed i mi ms) \<Longrightarrow> mi \<le> fst x"
proof (induction ms arbitrary: mi)
  case (Cons m ms)
  show ?case
  proof (cases "x \<in> fst ` set (placed i (Suc mi) ms)")
    case True
    then show ?thesis using Cons.IH [of "Suc mi"] by simp
  next
    case False
    then obtain ps where "x \<in> fst ` set (placed_parts i mi 0 ps)"
      using Cons.prems by (cases "mm_content m") auto
    then show ?thesis using placed_parts_bounds by blast
  qed
qed simp

lemma placed_parts_sorted: "sorted_wrt occursBefore (map fst (placed_parts i mi pi ps))"
proof (induction ps arbitrary: pi)
  case (Cons p ps)
  have "occursBefore (mi, pi) x" if "x \<in> fst ` set (placed_parts i mi (Suc pi) ps)" for x
    using placed_parts_bounds [OF that] by (auto simp: occursBefore_def)
  then show ?case using Cons by (cases p) auto
qed simp

lemma placed_sorted: "sorted_wrt occursBefore (map fst (placed i mi ms))"
proof (induction ms arbitrary: mi)
  case (Cons m ms)
  have "occursBefore x y" if "x \<in> fst ` set (placed_parts i mi 0 ps)" "y \<in> fst ` set (placed i (Suc mi) ms)" for x y ps
    using placed_parts_bounds [OF that(1)] placed_bounds [OF that(2)] by (auto simp: occursBefore_def)
  then have "sorted_wrt occursBefore (map fst (placed_parts i mi 0 ps) @ map fst (placed i (Suc mi) ms))" for ps
    unfolding sorted_wrt_append set_map using Cons placed_parts_sorted by blast
  then show ?case using Cons by (auto split: message_content.splits)
qed simp

definition places :: "tool_part_type \<Rightarrow> (occurrence \<times> tool_part_type) list \<Rightarrow> occurrence list" where
  "places k xs = map fst (filter (\<lambda>x. snd x = k) xs)"

lemma occurrences_append:
  "occurrences_of i (appendOccurrence j x m) = occurrences_of i m @ (if i = j then [x] else [])"
  by (induction j x m rule: appendOccurrence.induct) (auto simp: occurrences_of_def)

lemma keys_append: "fst ` set (appendOccurrence j x m) = insert j (fst ` set m)"
  by (induction j x m rule: appendOccurrence.induct) auto

lemma index_part_occurrences:
  "occurrences_of i (ti_calls (index_part mi pi p x)) = occurrences_of i (ti_calls x) @ places ToolCall (placed_parts i mi pi [p])"
  "occurrences_of i (ti_results (index_part mi pi p x)) = occurrences_of i (ti_results x) @ places ToolResult (placed_parts i mi pi [p])"
  by (cases p; auto simp: index_part_def places_def occurrences_append split: tool_part_type.splits)+

lemma placed_parts_Cons: "placed_parts i mi pi (p # ps) = placed_parts i mi pi [p] @ placed_parts i mi (Suc pi) ps"
  by (cases p) auto

lemma places_append [simp]: "places k (xs @ ys) = places k xs @ places k ys"
  by (simp add: places_def)

lemma places_Nil [simp]: "places k [] = []"
  by (simp add: places_def)

lemma index_parts_occurrences:
  "occurrences_of i (ti_calls (index_parts mi pi ps x)) = occurrences_of i (ti_calls x) @ places ToolCall (placed_parts i mi pi ps)
   \<and> occurrences_of i (ti_results (index_parts mi pi ps x)) = occurrences_of i (ti_results x) @ places ToolResult (placed_parts i mi pi ps)"
proof (induction ps arbitrary: pi x)
  case (Cons p ps)
  then show ?case unfolding placed_parts_Cons [of i mi pi p ps] by (simp add: index_part_occurrences)
qed (simp add: places_def)

lemma index_messages_occurrences:
  "occurrences_of i (ti_calls (index_messages mi ms x)) = occurrences_of i (ti_calls x) @ places ToolCall (placed i mi ms)
   \<and> occurrences_of i (ti_results (index_messages mi ms x)) = occurrences_of i (ti_results x) @ places ToolResult (placed i mi ms)"
proof (induction ms arbitrary: mi x)
  case (Cons m ms)
  then show ?case using index_parts_occurrences [of i mi 0] by (auto split: message_content.splits)
qed (simp add: places_def)

lemma index_occurrences:
  "occurrences_of i (ti_calls (indexToolProtocol ms)) = places ToolCall (placed i 0 ms)"
  "occurrences_of i (ti_results (indexToolProtocol ms)) = places ToolResult (placed i 0 ms)"
  using index_messages_occurrences [of i 0 ms] by (auto simp: indexToolProtocol_def occurrences_of_def)

text \<open>An id is valid exactly when its protocol is one call and then one result.\<close>

lemma one_call_one_result:
  assumes "sorted_wrt occursBefore (map fst xs)"
  shows "(length (places ToolCall xs) = 1 \<and> length (places ToolResult xs) = 1
      \<and> occursBefore (hd (places ToolCall xs)) (hd (places ToolResult xs))) \<longleftrightarrow> map snd xs = [ToolCall, ToolResult]"
    (is "?l \<longleftrightarrow> ?r")
proof
  assume ?r
  then obtain a b where "xs = [(a, ToolCall), (b, ToolResult)]"
    by (auto simp: map_eq_Cons_conv)
  then show ?l using assms by (simp add: places_def)
next
  assume l: ?l
  have "length xs = length (places ToolCall xs) + length (places ToolResult xs)"
    unfolding places_def length_map
    by (induction xs) (auto, metis tool_part_type.exhaust)
  then have "length xs = 2" using l by simp
  then obtain a k b h where x: "xs = [(a, k), (b, h)]"
    by (cases xs; cases "tl xs") auto
  have "occursBefore a b" "\<not> occursBefore b a" using assms x by (auto simp: occursBefore_def)
  then show ?r using l x by (cases k; cases h) (auto simp: places_def)
qed

lemma invalid_iff: "invalid_id (indexToolProtocol ms) i \<longleftrightarrow> protocol_of i (parts_of ms) \<noteq> [ToolCall, ToolResult]"
  using one_call_one_result [OF placed_sorted, of i 0 ms]
  by (auto simp: invalid_id_def Let_def index_occurrences placed_kinds)

section \<open>What the repair gives\<close>

lemma protocol_of_Nil: "protocol_of i ps = [] \<longleftrightarrow> (\<forall>p \<in> set ps. \<forall>k. readToolPart p \<noteq> Some (k, i))"
proof (induction ps)
  case (Cons p ps)
  then show ?case by (cases p) auto
qed simp

definition nonempty_lists :: "(string \<times> occurrence list) list \<Rightarrow> bool" where
  "nonempty_lists m \<longleftrightarrow> (\<forall>x \<in> set m. snd x \<noteq> [])"

lemma keys_occurrences: "nonempty_lists m \<Longrightarrow> i \<in> fst ` set m \<longleftrightarrow> occurrences_of i m \<noteq> []"
  by (induction m) (auto simp: occurrences_of_def nonempty_lists_def)

lemma append_nonempty: "nonempty_lists m \<Longrightarrow> nonempty_lists (appendOccurrence i y m)"
  by (induction i y m rule: appendOccurrence.induct) (auto simp: nonempty_lists_def)

definition index_nonempty :: "tool_index \<Rightarrow> bool" where
  "index_nonempty x \<longleftrightarrow> nonempty_lists (ti_calls x) \<and> nonempty_lists (ti_results x)"

lemma index_part_nonempty: "index_nonempty x \<Longrightarrow> index_nonempty (index_part mi pi p x)"
  by (simp add: index_part_def index_nonempty_def append_nonempty split: option.splits tool_part_type.splits)

lemma index_parts_nonempty: "index_nonempty x \<Longrightarrow> index_nonempty (index_parts mi pi ps x)"
  by (induction ps arbitrary: pi x) (simp_all add: index_part_nonempty)

lemma index_messages_nonempty: "index_nonempty x \<Longrightarrow> index_nonempty (index_messages mi ms x)"
  by (induction ms arbitrary: mi x) (simp_all add: index_parts_nonempty split: message_content.splits)

lemma places_split: "places ToolCall xs = [] \<and> places ToolResult xs = [] \<longleftrightarrow> xs = []"
  by (cases xs; cases "snd (hd xs)") (auto simp: places_def)

lemma invalidIds_iff:
  "i \<in> set (invalidIds (indexToolProtocol ms)) \<longleftrightarrow>
   protocol_of i (parts_of ms) \<noteq> [] \<and> protocol_of i (parts_of ms) \<noteq> [ToolCall, ToolResult]"
proof -
  have "index_nonempty (indexToolProtocol ms)"
    unfolding indexToolProtocol_def by (rule index_messages_nonempty) (simp add: index_nonempty_def nonempty_lists_def)
  then have "i \<in> fst ` set (ti_calls (indexToolProtocol ms)) \<union> fst ` set (ti_results (indexToolProtocol ms))
      \<longleftrightarrow> placed i 0 ms \<noteq> []"
    using places_split [of "placed i 0 ms"]
    by (simp add: index_nonempty_def keys_occurrences index_occurrences) blast
  moreover have "placed i 0 ms = [] \<longleftrightarrow> protocol_of i (parts_of ms) = []"
    by (metis placed_kinds list.map_disc_iff)
  ultimately show ?thesis by (auto simp: invalidIds_def invalid_iff)
qed

lemma protocol_of_keeps:
  "protocol_of i (filter (keeps_part bad) ps) = (if i \<in> set bad then [] else protocol_of i ps)"
proof (induction ps)
  case (Cons p ps)
  then show ?case by (cases p) (auto simp: keeps_part_def)
qed simp

definition is_plain :: "model_message \<Rightarrow> bool" where
  "is_plain m = (case mm_content m of PlainText t \<Rightarrow> True | PartList ps \<Rightarrow> False)"

lemma is_plain_cases [simp]:
  "mm_content m = PlainText t \<Longrightarrow> is_plain m" "mm_content m = PartList ps \<Longrightarrow> \<not> is_plain m"
  by (simp_all add: is_plain_def)

lemma repair_messages_parts:
  assumes "\<forall>m. parse m = Inr m"
  shows "\<exists>r. repair_messages parse bad ms = Inr r \<and> parts_of r = filter (keeps_part bad) (parts_of ms)
     \<and> filter is_plain r = filter is_plain ms"
proof -
  have p: "parse = Inr" using assms by auto
  show ?thesis
  proof (induction ms)
    case (Cons m ms)
    then obtain r where "repair_messages parse bad ms = Inr r" "parts_of r = filter (keeps_part bad) (parts_of ms)"
      "filter is_plain r = filter is_plain ms" by blast
    then show ?case using p by (cases "mm_content m") (auto simp: Let_def)
  qed simp
qed

lemma removed_ids_set: "set (removed_ids k bad ps) = {i. i \<in> set bad \<and> k \<in> set (protocol_of i ps)}"
proof (induction ps)
  case (Cons p ps)
  then show ?case by (cases p) (auto simp: removed_ids_def map_filter_Cons)
qed (simp add: removed_ids_def)

text \<open>
  C15: If the schema accepts every shortened message as it is, the repair gives a history in which every tool
  id has either nothing or exactly one call and, later, exactly one result, and it keeps exactly the ids
  that were paired so: the parts that are left are the parts of the history in their order without those
  of the other ids, plain messages stay, the removed ids are reported, and a history in which every id is
  paired is returned unchanged.
\<close>

theorem repair_pairs_protocol:
  assumes "\<forall>m. parse m = Inr m" "\<forall>xs. set (collate xs) = set xs"
  shows "\<exists>r. repairActiveToolProtocol parse collate ms = Inr r
    \<and> (\<forall>i. protocol_of i (parts_of (rp_messages r)) =
         (if protocol_of i (parts_of ms) = [ToolCall, ToolResult] then [ToolCall, ToolResult] else []))
    \<and> parts_of (rp_messages r) = filter (\<lambda>p. case readToolPart p of None \<Rightarrow> True
         | Some (k, i) \<Rightarrow> protocol_of i (parts_of ms) = [ToolCall, ToolResult]) (parts_of ms)
    \<and> filter is_plain (rp_messages r) = filter is_plain ms
    \<and> (\<forall>k i. i \<in> set (case k of ToolCall \<Rightarrow> rp_removedCalls r | ToolResult \<Rightarrow> rp_removedResults r) \<longleftrightarrow>
         k \<in> set (protocol_of i (parts_of ms)) \<and> protocol_of i (parts_of ms) \<noteq> [ToolCall, ToolResult])
    \<and> (rp_status r = RepairValid \<longleftrightarrow> (\<forall>i. protocol_of i (parts_of ms) \<in> {[], [ToolCall, ToolResult]}))
    \<and> (rp_status r = RepairValid \<longrightarrow> rp_messages r = ms)"
proof -
  let ?bad = "invalidIds (indexToolProtocol ms)" and ?P = "\<lambda>i. protocol_of i (parts_of ms)"
  have bad: "i \<in> set ?bad \<longleftrightarrow> ?P i \<noteq> [] \<and> ?P i \<noteq> [ToolCall, ToolResult]" for i by (rule invalidIds_iff)
  have kept: "filter (keeps_part ?bad) (parts_of ms) = filter (\<lambda>p. case readToolPart p of None \<Rightarrow> True
         | Some (k, i) \<Rightarrow> ?P i = [ToolCall, ToolResult]) (parts_of ms)"
  proof (rule filter_cong [OF refl])
    fix p assume "p \<in> set (parts_of ms)"
    then show "keeps_part ?bad p = (case readToolPart p of None \<Rightarrow> True | Some (k, i) \<Rightarrow> ?P i = [ToolCall, ToolResult])"
      using protocol_of_Nil [of _ "parts_of ms"] bad by (auto simp: keeps_part_def split: option.splits)
  qed
  have gone: "k \<in> set (?P i) \<and> ?P i \<noteq> [ToolCall, ToolResult] \<longleftrightarrow> i \<in> set ?bad \<and> k \<in> set (?P i)" for k i
    using bad [of i] by auto
  obtain q where q: "repair_messages parse ?bad ms = Inr q" "parts_of q = filter (keeps_part ?bad) (parts_of ms)"
    "filter is_plain q = filter is_plain ms"
    using repair_messages_parts [OF assms(1)] by blast
  show ?thesis
  proof (cases "?bad = []")
    case True
    then have all: "?P i = [] \<or> ?P i = [ToolCall, ToolResult]" for i using bad [of i] by auto
    have "keeps_part ?bad = (\<lambda>p. True)" using True by (auto simp: keeps_part_def fun_eq_iff split: option.splits)
    then have "filter (keeps_part ?bad) (parts_of ms) = parts_of ms" by simp
    then have same: "parts_of ms = filter (\<lambda>p. case readToolPart p of None \<Rightarrow> True
         | Some (k, i) \<Rightarrow> ?P i = [ToolCall, ToolResult]) (parts_of ms)" using kept by metis
    have none: "\<not> (k \<in> set (?P i) \<and> ?P i \<noteq> [ToolCall, ToolResult])" for k i using all [of i] by auto
    let ?r = "\<lparr>rp_status = RepairValid, rp_messages = ms, rp_removedCalls = [], rp_removedResults = []\<rparr>"
    have "repairActiveToolProtocol parse collate ms = Inr ?r" using True by (simp add: repairActiveToolProtocol_def)
    then show ?thesis using all none same
      by (intro exI [of _ ?r]) (auto split: tool_part_type.splits)
  next
    case False
    then obtain i where "i \<in> set ?bad" by (cases ?bad) auto
    then have some: "\<exists>i. ?P i \<notin> {[], [ToolCall, ToolResult]}" using bad by blast
    let ?r = "\<lparr>rp_status = RepairRepaired, rp_messages = q,
       rp_removedCalls = collate (remdups (removed_ids ToolCall ?bad (parts_of ms))),
       rp_removedResults = collate (remdups (removed_ids ToolResult ?bad (parts_of ms)))\<rparr>"
    have r: "repairActiveToolProtocol parse collate ms = Inr ?r"
      using False q(1) by (simp add: repairActiveToolProtocol_def Let_def)
    have p: "protocol_of i (parts_of q) = (if ?P i = [ToolCall, ToolResult] then [ToolCall, ToolResult] else [])" for i
      unfolding q(2) protocol_of_keeps using bad [of i] by auto
    have k: "i \<in> set (case k of ToolCall \<Rightarrow> rp_removedCalls ?r | ToolResult \<Rightarrow> rp_removedResults ?r) \<longleftrightarrow>
        k \<in> set (?P i) \<and> ?P i \<noteq> [ToolCall, ToolResult]" for k i
      unfolding gone using assms(2) by (cases k) (simp_all add: removed_ids_set)
    show ?thesis
      using r p k some q(3) q(2) [unfolded kept] by (intro exI [of _ ?r]) simp
  qed
qed

definition sample_history :: "model_message list" where
  "sample_history = [\<lparr>mm_fields = 0, mm_content = PlainText 1\<rparr>,
     \<lparr>mm_fields = 1, mm_content = PartList [OtherPart 2, ToolPart ToolCall ''a'', ToolPart ToolCall ''b'']\<rparr>,
     \<lparr>mm_fields = 2, mm_content = PartList [ToolPart ToolResult ''a'']\<rparr>,
     \<lparr>mm_fields = 3, mm_content = PartList [ToolPart ToolResult ''c'']\<rparr>]"

theorem repair_pairs_protocol_witness:
  "\<exists>r. repairActiveToolProtocol Inr (\<lambda>xs. xs) sample_history = (Inr r :: nat + repair)
    \<and> parts_of (rp_messages r) = [OtherPart 2, ToolPart ToolCall ''a'', ToolPart ToolResult ''a'']"
proof -
  have "parts_of sample_history = [OtherPart 2, ToolPart ToolCall ''a'', ToolPart ToolCall ''b'',
      ToolPart ToolResult ''a'', ToolPart ToolResult ''c'']" by code_simp
  then show ?thesis
    using repair_pairs_protocol [of "Inr :: model_message \<Rightarrow> nat + model_message" "\<lambda>xs. xs" sample_history]
    by auto
qed

text \<open>A repaired history needs no second repair.\<close>

lemma repair_idempotent:
  assumes "\<forall>m. parse m = Inr m" "\<forall>xs. set (collate xs) = set xs"
    "repairActiveToolProtocol parse collate ms = Inr r"
  shows "repairActiveToolProtocol parse collate (rp_messages r) =
    Inr \<lparr>rp_status = RepairValid, rp_messages = rp_messages r, rp_removedCalls = [], rp_removedResults = []\<rparr>"
proof -
  let ?bad = "invalidIds (indexToolProtocol ms)"
  obtain q where q: "repair_messages parse ?bad ms = Inr q" "parts_of q = filter (keeps_part ?bad) (parts_of ms)"
    using repair_messages_parts [OF assms(1)] by blast
  have "rp_messages r = (if ?bad = [] then ms else q)"
    using assms(3) q(1) by (auto simp: repairActiveToolProtocol_def Let_def split: if_splits)
  moreover have "protocol_of i (parts_of q) \<in> {[], [ToolCall, ToolResult]}" for i
    unfolding q(2) protocol_of_keeps using invalidIds_iff [of i ms] by auto
  moreover have "?bad = [] \<Longrightarrow> protocol_of i (parts_of ms) \<in> {[], [ToolCall, ToolResult]}" for i
    using invalidIds_iff [of i ms] by auto
  ultimately have "protocol_of i (parts_of (rp_messages r)) \<in> {[], [ToolCall, ToolResult]}" for i by simp
  then have "i \<notin> set (invalidIds (indexToolProtocol (rp_messages r)))" for i
    unfolding invalidIds_iff by (metis insert_iff singletonD)
  then have "invalidIds (indexToolProtocol (rp_messages r)) = []"
    by (cases "invalidIds (indexToolProtocol (rp_messages r))") auto
  then show ?thesis by (simp add: repairActiveToolProtocol_def)
qed

end
