(* ===== verification/Spec2Isabelle.thy ===== *)
theory Spec2Isabelle
  imports BashClassify SchedOps CompanionBrokerProps CompanionBridgeProps CompanionRelay CompanionOutbound
    FileToolsProps ToolLocksProps ClientRequestsProps EventRecoveryProps SessionClaimsProps HistoryRepair
begin

text \<open>
  A verification library for Roll Agent: a local agent runtime (\<open>packages/runtime\<close>) that runs an
  assistant's turns, tools and schedules on a user's machine; a companion (\<open>packages/companion\<close>) that
  connects it to a relay; clients (\<open>packages/client-node\<close>) that drive it over a protocol; and a command
  line with its daemons (\<open>packages/core\<close>). The library models the parts that decide something and keep
  state, operation by operation as the TypeScript has them, and proves what each part promises to the
  others. All paths below are under \<open>src/\<close>.

  How the modelled parts meet. A turn of the assistant calls tools. A shell tool asks the classifier
  whether a script may run without asking; a file tool plans an edit, has it approved and writes it only
  if the file is still the approved one; every tool call holds the locks of its resources. What needs a
  person's decision becomes a request that the runtime's coordinator hands to one attached client, or, on
  a companion, an interaction that the broker publishes to the relay and settles under the local policy.
  What a workspace does is appended to replay buffers, sent by the relay bridge to the relay and replayed
  after a reconnect, and the client orders what it receives by each thread's cursor. Before a process
  works on a thread it takes the thread's session claim, and it repairs the thread's history of calls and
  results before it goes to a model. The scheduler's daemon claims due rows of a shared ledger, whose next times come from
  the triggers and the calendar.

  \<^bold>\<open>Theories.\<close>

  \<^item> \<^theory_text>\<open>Prelude\<close>: strings and arrays of the JavaScript library, over lists, and the lemmas all parts share;
    \<^theory_text>\<open>NodePath\<close>: \<open>node:path\<close> for POSIX; \<^theory_text>\<open>Utf8\<close>: the runtime's text encoding, with its round trips.
  \<^item> Classifier, \<open>packages/runtime/src/bash/classifier/\<close>: \<^theory_text>\<open>BashTokenize\<close> (\<open>tokenize.ts\<close>,
    \<open>lookup-key.ts\<close>), \<^theory_text>\<open>BashAudit\<close> (\<open>flag-audit.ts\<close>, \<open>path-audit.ts\<close>, \<open>git-audit.ts\<close>, \<open>safe-list.ts\<close>,
    \<open>dangerous.ts\<close>), \<^theory_text>\<open>BashClassify\<close> (\<open>compound.ts\<close>, \<open>index.ts\<close>). A rendered script tokenizes to itself;
    a script is safe exactly when every gate passes; the path operands of a safe script stay in the
    workspace, but for \<open>grep\<close> and \<open>rg\<close> with options that give a pattern, where the last lemma
    exhibits a flaw.
  \<^item> Scheduler, \<open>packages/runtime/src/scheduler/\<close>: \<^theory_text>\<open>SchedCalendar\<close> (\<open>calendar.ts\<close>), \<^theory_text>\<open>SchedTrigger\<close>
    (\<open>limits.ts\<close>, \<open>trigger.ts\<close>; the five sampled offsets find every instant, and the days searched
    are enough, in zones with laws stated of their clock alone), \<^theory_text>\<open>SchedTypes\<close> (\<open>types.ts\<close>, rows and decoders of
    \<open>schedule-store.ts\<close>), \<^theory_text>\<open>SchedStore\<close> (its operations). \<^theory_text>\<open>SchedLedger\<close> is the specification: a step
    relation of guarded atomic changes with an invariant; \<^theory_text>\<open>SchedRefine\<close> shows every operation to be a
    sequence of such steps; \<^theory_text>\<open>SchedProps\<close> and \<^theory_text>\<open>SchedOps\<close> read the properties off it.
  \<^item> Tool locks, \<open>tool-bridge/tool-execution-coordinator.ts\<close>: \<^theory_text>\<open>ToolLocks\<close>, \<^theory_text>\<open>ToolLocksProps\<close>:
    conflicting operations exclude each other, and the locks never deadlock.
  \<^item> Client requests, \<open>server/runtime-client-request-coordinator.ts\<close> and
    \<open>server/runtime-client-interaction-lifecycle.ts\<close>: \<^theory_text>\<open>ClientRequests\<close>, its invariant in
    \<^theory_text>\<open>ClientRequestsInv\<close>, what it promises in \<^theory_text>\<open>ClientRequestsProps\<close>.
  \<^item> Session claims, \<open>ownership/session-claims.ts\<close>: \<^theory_text>\<open>SessionClaims\<close>, \<^theory_text>\<open>SessionClaimsInv\<close>,
    \<^theory_text>\<open>SessionClaimsProps\<close>: several processes over one ledger of claims; two of them never hold a
    thread at once, a claim lasts until it is released or its process dies, and a dead one is taken over.
  \<^item> Histories, \<open>engine/tool-protocol-repair.ts\<close>: \<^theory_text>\<open>HistoryRepair\<close>: every tool id of a repaired
    history has one call and, later, one result, and nothing else is lost.
  \<^item> File tools, \<open>tool-bridge/file-tools/\<close>: \<^theory_text>\<open>FileEdit\<close> and \<^theory_text>\<open>FileEditProps\<close> (the planner and its
    declarative specification), \<^theory_text>\<open>FileTools\<close> and \<^theory_text>\<open>FileToolsProps\<close> (reading, editing and writing on a disk).
  \<^item> Companion, \<open>packages/companion/src/\<close>: \<^theory_text>\<open>ReplayBuffer\<close> is the interface between buffers and
    bridges (the locales \<open>replay_buffer\<close> and \<open>bounded_replay_buffer\<close>), of which \<^theory_text>\<open>CompanionBuffers\<close>
    (\<open>event-buffer.ts\<close>, \<open>relay-frame-buffer.ts\<close>) gives both instances; \<^theory_text>\<open>CompanionLeases\<close>
    (\<open>lease-manager.ts\<close>, the locale \<open>leasing\<close>); \<^theory_text>\<open>CompanionBroker\<close> and \<^theory_text>\<open>CompanionBrokerProps\<close> (\<open>interaction-broker.ts\<close>);
    \<^theory_text>\<open>CompanionBridge\<close>, \<^theory_text>\<open>CompanionBridgeProps\<close>, \<^theory_text>\<open>CompanionRelay\<close>, \<^theory_text>\<open>CompanionOutbound\<close>
    (\<open>relay-bridge.ts\<close>): as long as no connection attempt throws, the stream to the relay leaves out
    only events the frozen wire schema rejects, and acknowledgements cover only what was sent and those.
  \<^item> Client, \<open>packages/client-node/src/runtime-event-recovery.ts\<close>: \<^theory_text>\<open>EventRecovery\<close>, its invariant in
    \<^theory_text>\<open>EventRecoveryInv\<close> (the locale \<open>claim_invariant\<close> and its instance), \<^theory_text>\<open>EventRecoveryProps\<close>:
    what a subscriber of a thread is given has no gap and no repetition, and what is owed is delivered.

  \<^bold>\<open>How code becomes definitions.\<close> Records and tagged unions of the source are records and datatypes with
  its fields and cases; an operation is a function on the state it changes, its guards in the code's
  order, an exception a value. Objects compared by identity live in heaps, lists that only grow, and are
  named by their position. An asynchronous function is split at its awaits: what is suspended is part of
  the state and each continuation a step, so that every interleaving of JavaScript's single thread is a
  run of the step relation. Numbers are unbounded where the code's are integers far below \<open>2^53\<close>;
  identifiers drawn at random are the next unused natural number, or come in with a step that must bring
  an unused one.

  \<^bold>\<open>Fuel and bounds.\<close> The search loop of the edit planner is a \<open>partial_function\<close>; that it returns is
  proved for every text, and so is that a plan returns for every list of edits. The calendar searches as
  many days and instants as the code's loops; \<open>zone_regular\<close>, \<open>zone_setbacks_bounded\<close> and
  \<open>zone_weekly_times\<close> are what a zone's clock must satisfy for them to be enough. The buffers' loops end by the length of what they drop; every other
  recursion is structural or has a measure. Nothing is limited by fuel that the code does not have.

  \<^bold>\<open>Parameters.\<close> The file system, digests, the zone database of \<open>Intl\<close>, the parser of ISO dates with an
  offset, schema checks, serialised sizes, projections to the wire, liveness probes, clocks, drawn
  identifiers and the behaviour of transports are arguments of the definitions or come in with the steps.
  Where a property needs a law of one of them it is a named hypothesis of that property.

  \<^bold>\<open>Not modelled.\<close> Of the parts above: opening and migrating the ledger's database and its read-only
  readers; response contents, decryption and the WebSocket transport of the relay bridge; the admission of
  tool batches and the records of executed calls; the wording of results, diagnoses and prompts; the file
  tools that list, search and verify, which run ripgrep and external verifiers. Of the rest of the
  repository: the rest of the engine that talks to models (\<open>packages/runtime/src/engine\<close>) and its
  compaction, whose behaviour is that of the AI library and of the model; the thread store, an SQL schema with its
  migrations; the runtime service and server and the companion's workspace, which pass on the
  operations modelled here; the later relay bridge, which repeats the structure of the first one; the schemas of \<open>packages/protocol\<close> and \<open>packages/relay-protocol\<close>, declarative data of
  the schema library; the command line, the configuration, the registry and installer, the terminal and
  web interfaces of \<open>packages/core\<close>, mostly processes, files and rendering; \<open>packages/browser\<close> and the
  agents under \<open>agents/\<close>, which drive web pages; \<open>packages/sdk\<close>; scripts, tests and fixtures.
\<close>


end
